(* ===== verification/Prelude.thy ===== *)
theory Prelude
  imports Complex_Main "HOL-Library.Word"
begin

text \<open>
  Shared vocabulary of the development: the widths of the C integer types the firmware
  uses, the outcomes a C function can have besides returning, the checked array accesses,
  and the lemmas on lists and words that several components need.

  A C function that can leave the defined behaviour of the language, reset the processor
  or loop forever returns \<open>fault + 'a\<close>: \<open>Inl\<close> of the fault, or \<open>Inr\<close> of the new state.
\<close>

unbundle bit_operations_syntax

type_synonym u8 = "8 word"
type_synonym u16 = "16 word"
type_synonym u32 = "32 word"

section \<open>Outcomes\<close>

datatype fault =
    Undefined      \<comment> \<open>the C standard gives the execution no meaning\<close>
  | System_Reset   \<comment> \<open>\<open>NVIC_SystemReset\<close> was called\<close>
  | Hang           \<comment> \<open>a loop whose exit condition can never become true\<close>

type_synonym 'a result = "fault + 'a"

fun and_then :: "'a result \<Rightarrow> ('a \<Rightarrow> 'b result) \<Rightarrow> 'b result" where
  "and_then (Inl f) k = Inl f"
| "and_then (Inr a) k = k a"

lemma and_then_Inr_iff:
  "and_then r k = Inr b \<longleftrightarrow> (\<exists>a. r = Inr a \<and> k a = Inr b)"
  by (cases r) auto

lemma and_then_Inl_iff:
  "and_then r k = Inl f \<longleftrightarrow> r = Inl f \<or> (\<exists>a. r = Inr a \<and> k a = Inl f)"
  by (cases r) auto

lemma and_then_assoc: "and_then (and_then r k) l = and_then r (\<lambda>a. and_then (k a) l)"
  by (cases r) auto

text \<open>\<open>holds_after P r\<close>: the call returned normally and left a state with \<open>P\<close>.\<close>

fun holds_after :: "('a \<Rightarrow> bool) \<Rightarrow> 'a result \<Rightarrow> bool" where
  "holds_after P (Inl f) = False"
| "holds_after P (Inr a) = P a"

text \<open>\<open>keeps P r\<close>: if the call returned normally, it left a state with \<open>P\<close>.\<close>

fun keeps :: "('a \<Rightarrow> bool) \<Rightarrow> 'a result \<Rightarrow> bool" where
  "keeps P (Inl f) = True"
| "keeps P (Inr a) = P a"

lemma keeps_and_then:
  "keeps P (and_then r k) \<longleftrightarrow> keeps (\<lambda>a. keeps P (k a)) r"
  by (cases r) auto

lemma holds_after_and_then:
  "holds_after P (and_then r k) \<longleftrightarrow> holds_after (\<lambda>a. holds_after P (k a)) r"
  by (cases r) auto

lemma keeps_mono: "keeps P r \<Longrightarrow> (\<And>a. P a \<Longrightarrow> Q a) \<Longrightarrow> keeps Q r"
  by (cases r) auto

lemma holds_after_mono: "holds_after P r \<Longrightarrow> (\<And>a. P a \<Longrightarrow> Q a) \<Longrightarrow> holds_after Q r"
  by (cases r) auto

lemma keepsD: "keeps P r \<Longrightarrow> r = Inr a \<Longrightarrow> P a"
  by simp

text \<open>Facts for a run through several calls.\<close>

lemmas run_simps = and_then_Inr_iff Let_def split_beta

named_theorems queue_ops "the operations on the global queues"

section \<open>Sequences of steps\<close>

fun run_list :: "('e \<Rightarrow> 's \<Rightarrow> 's result) \<Rightarrow> 'e list \<Rightarrow> 's \<Rightarrow> 's result" where
  "run_list step [] s = Inr s"
| "run_list step (e # es) s = and_then (step e s) (run_list step es)"

lemma run_list_append:
  fixes step :: "'e \<Rightarrow> 's \<Rightarrow> 's result"
  shows "run_list step (es @ fs) s = and_then (run_list step es s) (run_list step fs)"
proof (induction es arbitrary: s)
  case (Cons e es)
  have "run_list step (es @ fs) = (\<lambda>s. and_then (run_list step es s) (run_list step fs))" by (rule ext) (rule Cons.IH)
  then show ?case by (simp add: and_then_assoc)
qed simp

text \<open>The contract of a step relation given by a function: an allowed step keeps the invariant and
  never fails with a bad fault. Its sequences do the same, and a view of the state that every step
  preserves is preserved by a sequence.\<close>

locale safe_steps =
  fixes step :: "'e \<Rightarrow> 's \<Rightarrow> 's result" and allowed :: "'e \<Rightarrow> bool" and inv :: "'s \<Rightarrow> bool" and bad :: "fault \<Rightarrow> bool"
  assumes step_safe: "allowed e \<Longrightarrow> inv s \<Longrightarrow> case step e s of Inr s' \<Rightarrow> inv s' | Inl f \<Rightarrow> \<not> bad f"
begin

lemma run_safe:
  "list_all allowed es \<Longrightarrow> inv s \<Longrightarrow> case run_list step es s of Inr s' \<Rightarrow> inv s' | Inl f \<Rightarrow> \<not> bad f"
proof (induction es arbitrary: s)
  case (Cons e es)
  have e: "allowed e" "list_all allowed es" using Cons.prems(1) by simp_all
  show ?case
    using step_safe [OF e(1) Cons.prems(2)] Cons.IH [OF e(2)] by (cases "step e s") simp_all
qed simp

lemma run_inv: "list_all allowed es \<Longrightarrow> inv s \<Longrightarrow> run_list step es s = Inr s' \<Longrightarrow> inv s'"
  using run_safe [of es s] by simp

end

locale viewed_steps = safe_steps +
  fixes view :: "'s \<Rightarrow> 'v"
  assumes step_view: "allowed e \<Longrightarrow> inv s \<Longrightarrow> step e s = Inr s' \<Longrightarrow> view s' = view s"
begin

lemma run_view: "list_all allowed es \<Longrightarrow> inv s \<Longrightarrow> run_list step es s = Inr s' \<Longrightarrow> view s' = view s"
proof (induction es arbitrary: s)
  case (Cons e es)
  have e: "allowed e" "list_all allowed es" using Cons.prems(1) by simp_all
  from Cons.prems(3) obtain t where t: "step e s = Inr t" "run_list step es t = Inr s'"
    by (auto simp: and_then_Inr_iff)
  have "inv t" using step_safe [OF e(1) Cons.prems(2)] t(1) by simp
  then show ?case using Cons.IH [OF e(2) _ t(2)] step_view [OF e(1) Cons.prems(2) t(1)] by simp
qed simp

end

section \<open>Checked array accesses\<close>

definition rd :: "'a list \<Rightarrow> nat \<Rightarrow> 'a result" where
  "rd xs i = (if i < length xs then Inr (xs ! i) else Inl Undefined)"

definition wr :: "'a list \<Rightarrow> nat \<Rightarrow> 'a \<Rightarrow> 'a list result" where
  "wr xs i v = (if i < length xs then Inr (xs[i := v]) else Inl Undefined)"

lemma rd_in [simp]: "i < length xs \<Longrightarrow> rd xs i = Inr (xs ! i)"
  by (simp add: rd_def)

lemma rd_out [simp]: "length xs \<le> i \<Longrightarrow> rd xs i = Inl Undefined"
  by (simp add: rd_def)

lemma wr_in [simp]: "i < length xs \<Longrightarrow> wr xs i v = Inr (xs[i := v])"
  by (simp add: wr_def)

lemma wr_out [simp]: "length xs \<le> i \<Longrightarrow> wr xs i v = Inl Undefined"
  by (simp add: wr_def)

text \<open>\<open>blit dst off src\<close> copies \<open>src\<close> into \<open>dst\<close> from index \<open>off\<close> on.\<close>

fun blit :: "'a list \<Rightarrow> nat \<Rightarrow> 'a list \<Rightarrow> 'a list" where
  "blit dst off [] = dst"
| "blit dst off (x # xs) = blit (dst[off := x]) (Suc off) xs"

lemma length_blit [simp]: "length (blit dst off src) = length dst"
  by (induction src arbitrary: dst off) auto

lemma nth_blit_below: "i < off \<Longrightarrow> blit dst off src ! i = dst ! i"
  by (induction src arbitrary: dst off) auto

lemma nth_blit:
  assumes "off + length src \<le> length dst" "i < length dst"
  shows "blit dst off src ! i = (if off \<le> i \<and> i < off + length src then src ! (i - off) else dst ! i)"
  using assms
proof (induction src arbitrary: dst off)
  case Nil
  then show ?case by auto
next
  case (Cons x xs)
  have "blit (dst[off := x]) (Suc off) xs ! i
      = (if Suc off \<le> i \<and> i < Suc off + length xs then xs ! (i - Suc off) else dst[off := x] ! i)"
    using Cons.prems by (intro Cons.IH) auto
  then show ?case
    using Cons.prems by (auto simp: nth_Cons' nth_list_update)
qed

lemma blit_eq:
  assumes "off + length src \<le> length dst"
  shows "blit dst off src = take off dst @ src @ drop (off + length src) dst"
  using assms by (intro nth_equalityI) (auto simp: nth_blit nth_append)

lemma blit_append: "blit dst off (xs @ ys) = blit (blit dst off xs) (off + length xs) ys"
  by (induction xs arbitrary: dst off) simp_all

section \<open>Bytes of words\<close>

definition lo8 :: "u16 \<Rightarrow> u8" where "lo8 w = ucast (w AND 0xFF)"
definition hi8 :: "u16 \<Rightarrow> u8" where "hi8 w = ucast (drop_bit 8 w AND 0xFF)"

definition mk16 :: "u8 \<Rightarrow> u8 \<Rightarrow> u16" where
  "mk16 lo hi = ucast lo OR push_bit 8 (ucast hi)"

definition byte_of32 :: "u32 \<Rightarrow> nat \<Rightarrow> u8" where
  "byte_of32 w k = ucast (drop_bit (8 * k) w AND 0xFF)"

definition mk32 :: "u8 \<Rightarrow> u8 \<Rightarrow> u8 \<Rightarrow> u8 \<Rightarrow> u32" where
  "mk32 b0 b1 b2 b3 =
     ucast b0 OR push_bit 8 (ucast b1) OR push_bit 16 (ucast b2) OR push_bit 24 (ucast b3)"

lemma mask8_16: "(0xFF :: 16 word) = mask 8"
  by (simp add: mask_eq_exp_minus_1)

lemma mask8_32: "(0xFF :: 32 word) = mask 8"
  by (simp add: mask_eq_exp_minus_1)

lemma lo8_ucast: "lo8 w = ucast w"
  unfolding lo8_def mask8_16 by (rule bit_word_eqI) (auto simp: bit_simps)

lemma hi8_ucast: "hi8 w = ucast (drop_bit 8 w)"
  unfolding hi8_def mask8_16 by (rule bit_word_eqI) (auto simp: bit_simps)

lemma mk16_lo8_hi8 [simp]: "mk16 (lo8 w) (hi8 w) = w"
  unfolding mk16_def lo8_ucast hi8_ucast
  by (rule bit_word_eqI) (auto simp: bit_simps not_less)

lemma lo8_mk16 [simp]: "lo8 (mk16 a b) = a"
  unfolding mk16_def lo8_ucast
  by (rule bit_word_eqI) (auto simp: bit_simps)

lemma hi8_mk16 [simp]: "hi8 (mk16 a b) = b"
  unfolding mk16_def hi8_ucast
  by (rule bit_word_eqI) (auto simp: bit_simps dest: bit_imp_le_length)

lemma mk16_eq_iff: "mk16 a b = w \<longleftrightarrow> a = lo8 w \<and> b = hi8 w"
  by auto

lemma byte_of32_ucast: "byte_of32 w k = ucast (drop_bit (8 * k) w)"
  unfolding byte_of32_def mask8_32 by (rule bit_word_eqI) (auto simp: bit_simps)

lemma mk32_byte_of32 [simp]:
  "mk32 (byte_of32 w 0) (byte_of32 w 1) (byte_of32 w 2) (byte_of32 w 3) = w"
proof (rule bit_word_eqI)
  fix n assume "n < LENGTH(32)"
  then consider "n < 8" | "8 \<le> n" "n < 16" | "16 \<le> n" "n < 24" | "24 \<le> n" "n < 32"
    by fastforce
  then show "bit (mk32 (byte_of32 w 0) (byte_of32 w 1) (byte_of32 w 2) (byte_of32 w 3)) n = bit w n"
    unfolding mk32_def byte_of32_ucast by cases (auto simp: bit_simps)
qed

section \<open>Exclusive or\<close>

lemma xor_cancel [simp]: "x XOR (x XOR y) = (y :: 'a::len word)"
  by (simp add: xor.assoc [symmetric])

lemma xor_eq_iff [simp]: "a XOR b = a XOR c \<longleftrightarrow> b = (c :: 'a::len word)"
  by (metis xor_cancel)

lemma xor_eq_iff2 [simp]: "b XOR a = c XOR a \<longleftrightarrow> b = (c :: 'a::len word)"
  by (metis xor.commute xor_cancel)

lemma xor_zero_iff [simp]: "a XOR b = 0 \<longleftrightarrow> a = (b :: 'a::len word)"
  by (metis xor.right_neutral xor_cancel xor_self_eq)

lemma ucast_8_16_inj [simp]: "(ucast a :: u16) = ucast b \<longleftrightarrow> a = b" for a b :: u8
proof
  assume eq: "(ucast a :: u16) = ucast b"
  show "a = b"
  proof (rule bit_word_eqI)
    fix n assume "n < LENGTH(8)"
    then have "bit a n = bit (ucast a :: u16) n" and "bit b n = bit (ucast b :: u16) n"
      by (simp_all add: bit_simps)
    then show "bit a n = bit b n" using eq by simp
  qed
qed simp

text \<open>The four clients.\<close>

lemma lt_4: "k < (4::nat) \<longleftrightarrow> k = 0 \<or> k = 1 \<or> k = 2 \<or> k = 3"
  by linarith

lemma less_4: "(\<forall>k<(4::nat). P k) \<longleftrightarrow> P 0 \<and> P 1 \<and> P 2 \<and> P 3"
  by (auto simp: lt_4)

end
