(* ===== verification/Flt.thy ===== *)
theory Flt
  imports Prelude
begin

text \<open>
  The floating-point arithmetic of the C code: IEEE 754 binary32 (\<open>float\<close>) and binary64
  (\<open>double\<close>) with rounding to nearest, ties to even, as the IAR run-time library for the
  Cortex-M3 computes it. A value is a rational number, an infinity or a NaN; the operations
  compute exactly and round once. The sign of a zero is not kept: no operation of the
  firmware observes it (the only divisor is the image of an \<open>int\<close> or a nonzero literal).
\<close>

section \<open>Values and formats\<close>

datatype flt = Fin rat | PInf | NInf | NaN

record fmt =
  prec :: nat      \<comment> \<open>bits of the significand\<close>
  emin :: int      \<comment> \<open>exponent of the smallest positive value\<close>
  maxfin :: rat    \<comment> \<open>the largest finite value\<close>

definition single :: fmt where
  "single = \<lparr>prec = 24, emin = -149, maxfin = (2 ^ 24 - 1) * 2 ^ 104\<rparr>"

definition double :: fmt where
  "double = \<lparr>prec = 53, emin = -1074, maxfin = (2 ^ 53 - 1) * 2 ^ 971\<rparr>"

section \<open>Rounding\<close>

text \<open>\<open>log2n n\<close> is the floor of the binary logarithm of a positive \<open>n\<close>.\<close>

fun log2n :: "nat \<Rightarrow> nat" where
  "log2n n = (if n < 2 then 0 else Suc (log2n (n div 2)))"

declare log2n.simps [simp del]

text \<open>\<open>ilog2 x\<close> is the floor of the binary logarithm of a positive rational.\<close>

definition ilog2 :: "rat \<Rightarrow> int" where
  "ilog2 x = (if 1 \<le> x then int (log2n (nat \<lfloor>x\<rfloor>))
              else - int (Suc (log2n (nat (\<lceil>1 / x\<rceil> - 1)))))"

definition pow2 :: "int \<Rightarrow> rat" where
  "pow2 e = (if 0 \<le> e then 2 ^ nat e else 1 / 2 ^ nat (- e))"

text \<open>Rounding to the nearest integer, ties to the even one.\<close>

definition rne :: "rat \<Rightarrow> int" where
  "rne x = (let f = \<lfloor>x\<rfloor>; d = x - of_int f in
     if d < 1 / 2 then f else if 1 / 2 < d then f + 1 else if even f then f else f + 1)"

definition ulp_exp :: "fmt \<Rightarrow> rat \<Rightarrow> int" where
  "ulp_exp f x = max (emin f) (ilog2 \<bar>x\<bar> - (int (prec f) - 1))"

definition round_rat :: "fmt \<Rightarrow> rat \<Rightarrow> rat" where
  "round_rat f x = (if x = 0 then 0 else
     (let u = pow2 (ulp_exp f x) in of_int (rne (x / u)) * u))"

definition fround :: "fmt \<Rightarrow> rat \<Rightarrow> flt" where
  "fround f x = (let r = round_rat f x in
     if maxfin f < r then PInf else if r < - maxfin f then NInf else Fin r)"

section \<open>Operations\<close>

fun fneg :: "flt \<Rightarrow> flt" where
  "fneg (Fin x) = Fin (- x)"
| "fneg PInf = NInf"
| "fneg NInf = PInf"
| "fneg NaN = NaN"

fun fabs :: "flt \<Rightarrow> flt" where
  "fabs (Fin x) = Fin \<bar>x\<bar>"
| "fabs PInf = PInf"
| "fabs NInf = PInf"
| "fabs NaN = NaN"

fun fadd :: "fmt \<Rightarrow> flt \<Rightarrow> flt \<Rightarrow> flt" where
  "fadd f NaN _ = NaN"
| "fadd f _ NaN = NaN"
| "fadd f PInf NInf = NaN"
| "fadd f NInf PInf = NaN"
| "fadd f PInf _ = PInf"
| "fadd f NInf _ = NInf"
| "fadd f _ PInf = PInf"
| "fadd f _ NInf = NInf"
| "fadd f (Fin x) (Fin y) = fround f (x + y)"

definition fsub :: "fmt \<Rightarrow> flt \<Rightarrow> flt \<Rightarrow> flt" where
  "fsub f a b = fadd f a (fneg b)"

definition signed_inf :: "rat \<Rightarrow> flt" where
  "signed_inf s = (if 0 < s then PInf else if s < 0 then NInf else NaN)"

fun fmul :: "fmt \<Rightarrow> flt \<Rightarrow> flt \<Rightarrow> flt" where
  "fmul f NaN _ = NaN"
| "fmul f _ NaN = NaN"
| "fmul f (Fin x) (Fin y) = fround f (x * y)"
| "fmul f (Fin x) PInf = signed_inf x"
| "fmul f (Fin x) NInf = signed_inf (- x)"
| "fmul f PInf (Fin y) = signed_inf y"
| "fmul f NInf (Fin y) = signed_inf (- y)"
| "fmul f PInf PInf = PInf"
| "fmul f NInf NInf = PInf"
| "fmul f PInf NInf = NInf"
| "fmul f NInf PInf = NInf"

text \<open>Division; a zero divisor is the positive zero an integer converts to.\<close>

fun fdiv :: "fmt \<Rightarrow> flt \<Rightarrow> flt \<Rightarrow> flt" where
  "fdiv f NaN _ = NaN"
| "fdiv f _ NaN = NaN"
| "fdiv f (Fin x) (Fin y) = (if y = 0 then signed_inf x else fround f (x / y))"
| "fdiv f (Fin x) _ = Fin 0"
| "fdiv f PInf (Fin y) = (if y < 0 then NInf else PInf)"
| "fdiv f NInf (Fin y) = (if y < 0 then PInf else NInf)"
| "fdiv f _ _ = NaN"

text \<open>The comparisons of C: false as soon as a NaN is involved.\<close>

fun flt_less :: "flt \<Rightarrow> flt \<Rightarrow> bool" where
  "flt_less (Fin x) (Fin y) = (x < y)"
| "flt_less (Fin x) PInf = True"
| "flt_less NInf (Fin y) = True"
| "flt_less NInf PInf = True"
| "flt_less _ _ = False"

fun flt_eq :: "flt \<Rightarrow> flt \<Rightarrow> bool" where
  "flt_eq NaN _ = False"
| "flt_eq _ NaN = False"
| "flt_eq a b = (a = b)"

definition flt_le :: "flt \<Rightarrow> flt \<Rightarrow> bool" where
  "flt_le a b \<longleftrightarrow> flt_less a b \<or> flt_eq a b"

section \<open>Conversions\<close>

definition flt_of_int :: "fmt \<Rightarrow> int \<Rightarrow> flt" where
  "flt_of_int f i = fround f (of_int i)"

fun flt_conv :: "fmt \<Rightarrow> flt \<Rightarrow> flt" where
  "flt_conv f (Fin x) = fround f x"
| "flt_conv f a = a"

definition trunc_rat :: "rat \<Rightarrow> int" where
  "trunc_rat x = (if 0 \<le> x then \<lfloor>x\<rfloor> else - \<lfloor>- x\<rfloor>)"

text \<open>The cast of a floating-point value to an integer type with the range \<open>lo..hi\<close> is
  undefined when the truncated value is not in the range.\<close>

fun flt_to_int :: "int \<Rightarrow> int \<Rightarrow> flt \<Rightarrow> int result" where
  "flt_to_int lo hi (Fin x) =
     (if lo \<le> trunc_rat x \<and> trunc_rat x \<le> hi then Inr (trunc_rat x) else Inl Undefined)"
| "flt_to_int lo hi a = Inl Undefined"

abbreviation to_int32 :: "flt \<Rightarrow> int result" where
  "to_int32 \<equiv> flt_to_int (- (2 ^ 31)) (2 ^ 31 - 1)"

abbreviation to_uint16 :: "flt \<Rightarrow> int result" where
  "to_uint16 \<equiv> flt_to_int 0 (2 ^ 16 - 1)"

text \<open>The value of the four bytes of a \<open>float\<close> object, read as one little-endian word.\<close>

definition flt_of_bits :: "u32 \<Rightarrow> flt" where
  "flt_of_bits w =
     (let s = (if bit w 31 then - 1 else 1 :: rat);
          e = unat (drop_bit 23 w AND 0xFF);
          m = unat (w AND 0x7FFFFF)
      in if e = 255 then (if m \<noteq> 0 then NaN else if bit w 31 then NInf else PInf)
         else if e = 0 then Fin (s * of_nat m * pow2 (- 149))
         else Fin (s * of_nat (2 ^ 23 + m) * pow2 (int e - 150)))"

section \<open>Evaluation\<close>

text \<open>The simplifier evaluates floors of rational numerals, and with them every closed
  operation: \<open>simp add: flt_eval\<close>.\<close>

lemma floor_rat_numeral [simp]:
  "\<lfloor>(numeral a / numeral b) :: rat\<rfloor> = numeral a div numeral b"
  "\<lfloor>- (numeral a / numeral b) :: rat\<rfloor> = (- numeral a) div numeral b"
  "\<lfloor>1 / numeral b :: rat\<rfloor> = 1 div numeral b"
  "\<lfloor>- (1 / numeral b) :: rat\<rfloor> = - 1 div numeral b"
  by (metis floor_divide_of_int_eq of_int_numeral)
     (metis floor_divide_of_int_eq of_int_numeral of_int_minus minus_divide_left,
      metis floor_divide_of_int_eq of_int_numeral of_int_1,
      metis floor_divide_of_int_eq of_int_numeral of_int_1 of_int_minus minus_divide_left)

lemmas round_eval = fround_def round_rat_def ulp_exp_def ilog2_def rne_def single_def double_def
  log2n.simps pow2_def Let_def ceiling_def

lemmas flt_eval = round_eval fsub_def flt_le_def signed_inf_def flt_of_int_def trunc_rat_def

section \<open>Accuracy of rounding\<close>

lemma pow2_powi: "pow2 e = 2 powi e"
  by (simp add: pow2_def power_int_def power_one_over)

lemma pow2_pos [simp]: "0 < pow2 e"
  by (simp add: pow2_powi)

lemma pow2_nonneg [simp]: "0 \<le> pow2 e"
  using pow2_pos [of e] by linarith

lemma pow2_nonzero [simp]: "pow2 e \<noteq> 0"
  using pow2_pos [of e] by linarith

lemma pow2_add: "pow2 (a + b) = pow2 a * pow2 b"
  by (simp add: pow2_powi power_int_add)

lemma pow2_mono: "a \<le> b \<Longrightarrow> pow2 a \<le> pow2 b"
  by (simp add: pow2_powi power_int_increasing)

lemma pow2_of_nat: "pow2 (int n) = 2 ^ n"
  by (simp add: pow2_def)

lemma pow2_strict: "a < b \<Longrightarrow> pow2 a < pow2 b"
  by (simp add: pow2_powi power_int_strict_increasing)

lemma pow2_less_iff: "pow2 a < pow2 b \<longleftrightarrow> a < b"
  by (metis linorder_not_le not_le_imp_less order_less_irrefl order.order_iff_strict pow2_mono
      pow2_strict)

lemma log2n_spec: "0 < n \<Longrightarrow> 2 ^ log2n n \<le> n \<and> n < 2 ^ Suc (log2n n)"
proof (induction n rule: log2n.induct)
  case (1 n)
  show ?case
  proof (cases "n < 2")
    case True
    with 1 have "n = 1" by simp
    then show ?thesis by (simp add: log2n.simps)
  next
    case False
    with "1.IH" have "2 ^ log2n (n div 2) \<le> n div 2 \<and> n div 2 < 2 ^ Suc (log2n (n div 2))"
      by simp
    with False show ?thesis by (subst (1 2) log2n.simps) auto
  qed
qed

lemma ilog2_le: "0 < x \<Longrightarrow> pow2 (ilog2 x) \<le> x"
proof (cases "1 \<le> x")
  case True
  then have pos: "0 < nat \<lfloor>x\<rfloor>" by simp
  have "(2::rat) ^ log2n (nat \<lfloor>x\<rfloor>) \<le> of_nat (nat \<lfloor>x\<rfloor>)"
    using log2n_spec [OF pos] by (metis of_nat_le_iff of_nat_numeral of_nat_power)
  also have "\<dots> \<le> x" using True by simp
  finally show ?thesis using True by (simp add: ilog2_def pow2_of_nat)
next
  case False
  assume x: "0 < x"
  let ?n = "nat (\<lceil>1 / x\<rceil> - 1)"
  have "1 < 1 / x" using False x by (simp add: field_simps)
  then have "1 < \<lceil>1 / x\<rceil>" by (metis less_ceiling_iff of_int_1)
  then have pos: "0 < ?n" and n: "int ?n = \<lceil>1 / x\<rceil> - 1" by linarith+
  have "1 / x \<le> of_int \<lceil>1 / x\<rceil>" by (rule le_of_int_ceiling)
  also have "\<dots> = of_nat ?n + (1::rat)" using n by (metis diff_add_cancel of_int_1 of_int_add of_int_of_nat_eq)
  also have "\<dots> \<le> 2 ^ Suc (log2n ?n)"
    using log2n_spec [OF pos] by (metis Suc_leI of_nat_Suc of_nat_le_iff of_nat_numeral of_nat_power add.commute)
  finally have "1 / 2 ^ Suc (log2n ?n) \<le> x" using x by (simp add: field_simps)
  then show ?thesis using False by (simp add: ilog2_def pow2_def nat_add_distrib)
qed

lemma ilog2_less: "0 < x \<Longrightarrow> x < pow2 (ilog2 x + 1)"
proof (cases "1 \<le> x")
  case True
  then have pos: "0 < nat \<lfloor>x\<rfloor>" by simp
  have "x < of_int \<lfloor>x\<rfloor> + 1" by linarith
  also have "\<dots> = of_nat (nat \<lfloor>x\<rfloor>) + 1" using True by simp
  also have "\<dots> \<le> (2::rat) ^ Suc (log2n (nat \<lfloor>x\<rfloor>))"
    using log2n_spec [OF pos] by (metis Suc_leI of_nat_Suc of_nat_le_iff of_nat_numeral of_nat_power add.commute)
  also have "\<dots> = pow2 (int (Suc (log2n (nat \<lfloor>x\<rfloor>))))" by (simp only: pow2_of_nat)
  finally show ?thesis using True by (simp add: ilog2_def add.commute)
next
  case False
  assume x: "0 < x"
  let ?n = "nat (\<lceil>1 / x\<rceil> - 1)"
  have "1 < 1 / x" using False x by (simp add: field_simps)
  then have "1 < \<lceil>1 / x\<rceil>" by (metis less_ceiling_iff of_int_1)
  then have pos: "0 < ?n" and n: "int ?n = \<lceil>1 / x\<rceil> - 1" by linarith+
  have "(2::rat) ^ log2n ?n \<le> of_nat ?n"
    using log2n_spec [OF pos] by (metis of_nat_le_iff of_nat_numeral of_nat_power)
  also have "\<dots> = of_int (\<lceil>1 / x\<rceil> - 1)" using n by (metis of_int_of_nat_eq)
  also have "\<dots> < 1 / x" using ceiling_correct [of "1 / x"] by simp
  finally have "x < 1 / 2 ^ log2n ?n" using x by (simp add: field_simps)
  then show ?thesis using False by (simp add: ilog2_def pow2_def)
qed

lemma rne_error: "\<bar>of_int (rne y) - y\<bar> \<le> 1 / 2"
proof -
  have "of_int \<lfloor>y\<rfloor> \<le> y" and "y < of_int \<lfloor>y\<rfloor> + 1" by linarith+
  then show ?thesis unfolding rne_def Let_def by (auto simp: abs_le_iff)
qed

lemma rne_int [simp]: "rne (of_int m) = m"
  by (simp add: rne_def)

lemma round_rat_error: "\<bar>round_rat f x - x\<bar> \<le> pow2 (ulp_exp f x) / 2"
proof (cases "x = 0")
  case True
  then show ?thesis by (simp add: round_rat_def)
next
  case False
  let ?u = "pow2 (ulp_exp f x)"
  have "round_rat f x - x = (of_int (rne (x / ?u)) - x / ?u) * ?u"
    using False by (simp add: round_rat_def Let_def left_diff_distrib)
  then have "\<bar>round_rat f x - x\<bar> = \<bar>of_int (rne (x / ?u)) - x / ?u\<bar> * ?u"
    by (simp add: abs_mult)
  also have "\<dots> \<le> 1 / 2 * ?u"
    by (intro mult_right_mono rne_error pow2_nonneg)
  finally show ?thesis by simp
qed

lemma ulp_bound:
  assumes "x \<noteq> 0"
  shows "pow2 (ulp_exp f x) \<le> pow2 (emin f) + \<bar>x\<bar> * pow2 (1 - int (prec f))"
proof -
  have "pow2 (ilog2 \<bar>x\<bar> - (int (prec f) - 1)) = pow2 (ilog2 \<bar>x\<bar>) * pow2 (1 - int (prec f))"
    by (simp add: pow2_add [symmetric] algebra_simps)
  also have "\<dots> \<le> \<bar>x\<bar> * pow2 (1 - int (prec f))"
    using ilog2_le [of "\<bar>x\<bar>"] assms by (intro mult_right_mono) auto
  finally have "pow2 (ilog2 \<bar>x\<bar> - (int (prec f) - 1)) \<le> \<bar>x\<bar> * pow2 (1 - int (prec f))" .
  moreover have "0 \<le> pow2 (emin f)" and "0 \<le> \<bar>x\<bar> * pow2 (1 - int (prec f))"
    by simp_all
  ultimately show ?thesis
    unfolding ulp_exp_def max_def by (smt (verit) add_increasing add_increasing2 if_distrib order_refl order_trans)
qed

lemma round_rat_accurate:
  "\<bar>round_rat f x - x\<bar> \<le> (pow2 (emin f) + \<bar>x\<bar> * pow2 (1 - int (prec f))) / 2"
proof (cases "x = 0")
  case True
  then show ?thesis by (simp add: round_rat_def)
next
  case False
  have "\<bar>round_rat f x - x\<bar> \<le> pow2 (ulp_exp f x) / 2" by (rule round_rat_error)
  also have "\<dots> \<le> (pow2 (emin f) + \<bar>x\<bar> * pow2 (1 - int (prec f))) / 2"
    using ulp_bound [OF False] by simp
  finally show ?thesis .
qed

text \<open>A value with at most \<open>prec\<close> significant bits is kept.\<close>

lemma round_rat_exact:
  assumes x: "x = of_int m * pow2 e" and m: "\<bar>m\<bar> < 2 ^ prec f" and e: "emin f \<le> e"
  shows "round_rat f x = x"
proof (cases "x = 0")
  case True
  then show ?thesis by (simp add: round_rat_def)
next
  case False
  have "pow2 (ilog2 \<bar>x\<bar>) \<le> \<bar>x\<bar>" using False by (intro ilog2_le) simp
  also have "\<bar>x\<bar> = of_int \<bar>m\<bar> * pow2 e" by (simp add: x abs_mult)
  also have "\<dots> < of_int (2 ^ prec f) * pow2 e"
    using m by (intro mult_strict_right_mono) (simp_all only: of_int_less_iff pow2_pos)
  also have "\<dots> = pow2 (int (prec f) + e)" by (simp add: pow2_add pow2_of_nat)
  finally have "ilog2 \<bar>x\<bar> < int (prec f) + e" by (simp only: pow2_less_iff)
  then have u: "ulp_exp f x \<le> e" using e by (simp add: ulp_exp_def)
  define k where "k = nat (e - ulp_exp f x)"
  have "pow2 e = pow2 (ulp_exp f x) * 2 ^ k"
    using u by (simp add: k_def pow2_of_nat [symmetric] pow2_add [symmetric])
  then have "x = of_int (m * 2 ^ k) * pow2 (ulp_exp f x)" by (subst x) simp
  then have "x / pow2 (ulp_exp f x) = of_int (m * 2 ^ k)" by (metis nonzero_eq_divide_eq pow2_nonzero)
  then have "round_rat f x = of_int (m * 2 ^ k) * pow2 (ulp_exp f x)"
    using False by (simp only: round_rat_def rne_int Let_def if_False)
  also have "\<dots> = x" using \<open>x = of_int (m * 2 ^ k) * _\<close> by (rule sym)
  finally show ?thesis .
qed

text \<open>Bounds in the form the components use.\<close>

lemma fmt_fields [simp]:
  "prec single = 24" "emin single = - 149" "prec double = 53" "emin double = - 1074"
  by (simp_all add: single_def double_def)

lemma single_error: "\<bar>round_rat single x - x\<bar> \<le> \<bar>x\<bar> / 2 ^ 24 + 1 / 2 ^ 24"
proof -
  have tiny: "pow2 (- 149) \<le> 1 / 2 ^ 23" and u: "pow2 (- 23) = 1 / 2 ^ 23"
    by (simp_all add: pow2_def)
  have "\<bar>round_rat single x - x\<bar> \<le> (pow2 (- 149) + \<bar>x\<bar> * pow2 (- 23)) / 2"
    using round_rat_accurate [of single x] by simp
  also have "\<dots> \<le> (1 / 2 ^ 23 + \<bar>x\<bar> * (1 / 2 ^ 23)) / 2"
    unfolding u using tiny by (intro divide_right_mono add_mono) simp_all
  also have "\<dots> = \<bar>x\<bar> / 2 ^ 24 + 1 / 2 ^ 24" by simp
  finally show ?thesis .
qed

lemma double_error: "\<bar>round_rat double x - x\<bar> \<le> \<bar>x\<bar> / 2 ^ 53 + 1 / 2 ^ 53"
proof -
  have u: "pow2 (- 52) = 1 / 2 ^ 52" by (simp add: pow2_def)
  have tiny: "pow2 (- 1074) \<le> 1 / 2 ^ 52" unfolding u [symmetric] by (rule pow2_mono) simp
  have "\<bar>round_rat double x - x\<bar> \<le> (pow2 (- 1074) + \<bar>x\<bar> * pow2 (- 52)) / 2"
    using round_rat_accurate [of double x] by simp
  also have "\<dots> \<le> (1 / 2 ^ 52 + \<bar>x\<bar> * (1 / 2 ^ 52)) / 2"
    unfolding u using tiny by (intro divide_right_mono add_mono) simp_all
  also have "\<dots> = \<bar>x\<bar> / 2 ^ 53 + 1 / 2 ^ 53" by simp
  finally show ?thesis .
qed

lemma maxfin_large: "2 ^ 100 \<le> maxfin single" "2 ^ 100 \<le> maxfin double"
  by (simp_all add: single_def double_def)

lemma fround_single_Fin:
  assumes "\<bar>x\<bar> \<le> 2 ^ 99" shows "fround single x = Fin (round_rat single x)"
proof -
  have "\<bar>round_rat single x\<bar> \<le> \<bar>x\<bar> + (\<bar>x\<bar> / 2 ^ 24 + 1 / 2 ^ 24)" using single_error [of x] by linarith
  also have "\<dots> \<le> 2 ^ 100" using assms by simp
  finally show ?thesis using maxfin_large(1) by (simp add: fround_def Let_def abs_le_iff)
qed

lemma fround_double_Fin:
  assumes "\<bar>x\<bar> \<le> 2 ^ 99" shows "fround double x = Fin (round_rat double x)"
proof -
  have "\<bar>round_rat double x\<bar> \<le> \<bar>x\<bar> + (\<bar>x\<bar> / 2 ^ 53 + 1 / 2 ^ 53)" using double_error [of x] by linarith
  also have "\<dots> \<le> 2 ^ 100" using assms by simp
  finally show ?thesis using maxfin_large(2) by (simp add: fround_def Let_def abs_le_iff)
qed

text \<open>Integers of the magnitudes that occur are exact.\<close>

lemma double_int_exact: "\<bar>i\<bar> < 2 ^ 53 \<Longrightarrow> flt_of_int double i = Fin (of_int i)"
proof -
  assume i: "\<bar>i\<bar> < 2 ^ 53"
  have "round_rat double (of_int i) = of_int i"
    using i by (intro round_rat_exact [where m = i and e = 0]) (simp_all add: double_def pow2_def)
  moreover have "\<bar>of_int i :: rat\<bar> \<le> 2 ^ 99"
  proof -
    have "\<bar>of_int i :: rat\<bar> = of_int \<bar>i\<bar>" by simp
    also have "\<dots> \<le> of_int (2 ^ 53)" using i by (simp only: of_int_le_iff)
    finally show ?thesis by simp
  qed
  ultimately show ?thesis by (simp add: flt_of_int_def fround_double_Fin)
qed

lemma single_int_exact: "\<bar>i\<bar> < 2 ^ 24 \<Longrightarrow> flt_of_int single i = Fin (of_int i)"
proof -
  assume i: "\<bar>i\<bar> < 2 ^ 24"
  have "round_rat single (of_int i) = of_int i"
    using i by (intro round_rat_exact [where m = i and e = 0]) (simp_all add: single_def pow2_def)
  moreover have "\<bar>of_int i :: rat\<bar> \<le> 2 ^ 99"
  proof -
    have "\<bar>of_int i :: rat\<bar> = of_int \<bar>i\<bar>" by simp
    also have "\<dots> \<le> of_int (2 ^ 24)" using i by (simp only: of_int_le_iff)
    finally show ?thesis by simp
  qed
  ultimately show ?thesis by (simp add: flt_of_int_def fround_single_Fin)
qed

section \<open>Approximation\<close>

text \<open>\<open>approx x v d\<close>: the float \<open>x\<close> is finite and within \<open>d\<close> of the rational \<open>v\<close>.\<close>

definition approx :: "flt \<Rightarrow> rat \<Rightarrow> rat \<Rightarrow> bool" where
  "approx x v d \<longleftrightarrow> (\<exists>r. x = Fin r \<and> \<bar>r - v\<bar> \<le> d)"

lemma approxE: "approx x v d \<Longrightarrow> (\<And>r. x = Fin r \<Longrightarrow> \<bar>r - v\<bar> \<le> d \<Longrightarrow> thesis) \<Longrightarrow> thesis"
  by (auto simp: approx_def)

lemma approx_Fin: "approx (Fin r) v d \<longleftrightarrow> \<bar>r - v\<bar> \<le> d"
  by (simp add: approx_def)

lemma approx_mono: "approx x v d \<Longrightarrow> d \<le> e \<Longrightarrow> approx x v e"
  by (auto simp: approx_def)

lemma approx_single: "\<bar>v\<bar> \<le> b \<Longrightarrow> b \<le> 2 ^ 99 \<Longrightarrow> approx (fround single v) v ((b + 1) / 2 ^ 24)"
proof -
  assume b: "\<bar>v\<bar> \<le> b" "b \<le> 2 ^ 99"
  have "\<bar>round_rat single v - v\<bar> \<le> (\<bar>v\<bar> + 1) / 2 ^ 24"
    using single_error [of v] by (simp only: add_divide_distrib)
  also have "\<dots> \<le> (b + 1) / 2 ^ 24" using b by (intro divide_right_mono) simp_all
  finally show ?thesis using b by (simp add: fround_single_Fin approx_Fin)
qed

lemma approx_double: "\<bar>v\<bar> \<le> b \<Longrightarrow> b \<le> 2 ^ 99 \<Longrightarrow> approx (fround double v) v ((b + 1) / 2 ^ 53)"
proof -
  assume b: "\<bar>v\<bar> \<le> b" "b \<le> 2 ^ 99"
  have "\<bar>round_rat double v - v\<bar> \<le> (\<bar>v\<bar> + 1) / 2 ^ 53"
    using double_error [of v] by (simp only: add_divide_distrib)
  also have "\<dots> \<le> (b + 1) / 2 ^ 53" using b by (intro divide_right_mono) simp_all
  finally show ?thesis using b by (simp add: fround_double_Fin approx_Fin)
qed

text \<open>The magnitude of an approximation, and a double operation on two of them.\<close>

lemma approx_abs: "approx (Fin r) v d \<Longrightarrow> \<bar>v\<bar> \<le> b \<Longrightarrow> \<bar>r\<bar> \<le> b + d"
  by (simp add: approx_Fin)

lemma approx_within: "approx x v d \<Longrightarrow> \<bar>v\<bar> \<le> b \<Longrightarrow> b + d \<le> c \<Longrightarrow> approx x 0 c"
  by (auto simp: approx_def)

lemma approx_near: "approx x w e \<Longrightarrow> \<bar>w - v\<bar> \<le> d \<Longrightarrow> approx x v (d + e)"
  by (auto simp: approx_def)

lemma approx_fadd_double:
  assumes "approx x v d" "approx y w e" "\<bar>v\<bar> \<le> a" "\<bar>w\<bar> \<le> b" "a + d + b + e \<le> 2 ^ 99"
  shows "approx (fadd double x y) (v + w) (d + e + (a + d + b + e + 1) / 2 ^ 53)"
proof -
  obtain r q where rq: "x = Fin r" "\<bar>r - v\<bar> \<le> d" "y = Fin q" "\<bar>q - w\<bar> \<le> e"
    using assms(1,2) by (auto simp: approx_def)
  have "\<bar>r + q\<bar> \<le> a + d + b + e" using rq assms(3,4) by linarith
  then have "approx (fround double (r + q)) (r + q) ((a + d + b + e + 1) / 2 ^ 53)"
    using assms(5) by (rule approx_double)
  moreover have "\<bar>r + q - (v + w)\<bar> \<le> d + e" using rq by linarith
  ultimately show ?thesis using rq by (simp add: approx_near)
qed

lemma approx_conv_double:
  assumes "approx x v d" "\<bar>v\<bar> \<le> b" "b + d \<le> 2 ^ 99"
  shows "approx (flt_conv double x) v (d + (b + d + 1) / 2 ^ 53)"
proof -
  obtain r where r: "x = Fin r" "\<bar>r - v\<bar> \<le> d" using assms(1) by (auto simp: approx_def)
  have "\<bar>r\<bar> \<le> b + d" using r assms(2) by linarith
  then have "approx (fround double r) r ((b + d + 1) / 2 ^ 53)" using assms(3) by (rule approx_double)
  then show ?thesis using r by (simp add: approx_near)
qed

lemma abs_mult_le: "\<bar>x\<bar> \<le> a \<Longrightarrow> \<bar>y\<bar> \<le> b \<Longrightarrow> \<bar>x * y\<bar> \<le> a * b" for x y :: rat
  unfolding abs_mult by (rule mult_mono) simp_all

lemma approx_fmul_double:
  assumes "approx x v d" "approx y w e" "\<bar>v\<bar> \<le> a" "\<bar>w\<bar> \<le> b" "(a + d) * (b + e) \<le> 2 ^ 99"
  shows "approx (fmul double x y) (v * w) (d * (b + e) + a * e + ((a + d) * (b + e) + 1) / 2 ^ 53)"
proof -
  obtain r q where rq: "x = Fin r" "\<bar>r - v\<bar> \<le> d" "y = Fin q" "\<bar>q - w\<bar> \<le> e"
    using assms(1,2) by (auto simp: approx_def)
  have rb: "\<bar>r\<bar> \<le> a + d" and qb: "\<bar>q\<bar> \<le> b + e" using rq assms(3,4) by linarith+
  have "approx (fround double (r * q)) (r * q) (((a + d) * (b + e) + 1) / 2 ^ 53)"
    using abs_mult_le [OF rb qb] assms(5) by (rule approx_double)
  moreover have "\<bar>r * q - v * w\<bar> \<le> d * (b + e) + a * e"
  proof -
    have "r * q - v * w = (r - v) * q + v * (q - w)" by (simp add: algebra_simps)
    then have "\<bar>r * q - v * w\<bar> \<le> \<bar>(r - v) * q\<bar> + \<bar>v * (q - w)\<bar>" by (simp add: abs_triangle_ineq)
    also have "\<dots> \<le> d * (b + e) + a * e"
      using rq qb assms(3) by (intro add_mono abs_mult_le)
    finally show ?thesis .
  qed
  ultimately show ?thesis using rq by (simp add: approx_near)
qed

text \<open>A decimal literal is within \<open>2 ^ -48\<close> of its value.\<close>

lemma dlit_approx: "\<bar>q\<bar> \<le> 20 \<Longrightarrow> approx (fround double q) q (1 / 2 ^ 48)"
  by (rule approx_mono [OF approx_double [where b = 20]]) simp_all

end
