(* ===== verification/Crc.thy ===== *)
theory Crc
  imports Prelude
begin

text \<open>
  The table-driven CRC of \<open>usart.c\<close>, with which the frames to the frequency inverters end, and
  the bit-serial Modbus CRC (polynomial \<open>A001\<close>, least significant bit first) it is equal to.
\<close>

section \<open>The code\<close>

definition CRCHi :: "u8 list" where
  "CRCHi = [
     0x00, 0xC1, 0x81, 0x40, 0x01, 0xC0, 0x80, 0x41, 0x01, 0xC0, 0x80, 0x41, 0x00, 0xC1, 0x81, 0x40,
     0x01, 0xC0, 0x80, 0x41, 0x00, 0xC1, 0x81, 0x40, 0x00, 0xC1, 0x81, 0x40, 0x01, 0xC0, 0x80, 0x41,
     0x01, 0xC0, 0x80, 0x41, 0x00, 0xC1, 0x81, 0x40, 0x00, 0xC1, 0x81, 0x40, 0x01, 0xC0, 0x80, 0x41,
     0x00, 0xC1, 0x81, 0x40, 0x01, 0xC0, 0x80, 0x41, 0x01, 0xC0, 0x80, 0x41, 0x00, 0xC1, 0x81, 0x40,
     0x01, 0xC0, 0x80, 0x41, 0x00, 0xC1, 0x81, 0x40, 0x00, 0xC1, 0x81, 0x40, 0x01, 0xC0, 0x80, 0x41,
     0x00, 0xC1, 0x81, 0x40, 0x01, 0xC0, 0x80, 0x41, 0x01, 0xC0, 0x80, 0x41, 0x00, 0xC1, 0x81, 0x40,
     0x00, 0xC1, 0x81, 0x40, 0x01, 0xC0, 0x80, 0x41, 0x01, 0xC0, 0x80, 0x41, 0x00, 0xC1, 0x81, 0x40,
     0x01, 0xC0, 0x80, 0x41, 0x00, 0xC1, 0x81, 0x40, 0x00, 0xC1, 0x81, 0x40, 0x01, 0xC0, 0x80, 0x41,
     0x01, 0xC0, 0x80, 0x41, 0x00, 0xC1, 0x81, 0x40, 0x00, 0xC1, 0x81, 0x40, 0x01, 0xC0, 0x80, 0x41,
     0x00, 0xC1, 0x81, 0x40, 0x01, 0xC0, 0x80, 0x41, 0x01, 0xC0, 0x80, 0x41, 0x00, 0xC1, 0x81, 0x40,
     0x00, 0xC1, 0x81, 0x40, 0x01, 0xC0, 0x80, 0x41, 0x01, 0xC0, 0x80, 0x41, 0x00, 0xC1, 0x81, 0x40,
     0x01, 0xC0, 0x80, 0x41, 0x00, 0xC1, 0x81, 0x40, 0x00, 0xC1, 0x81, 0x40, 0x01, 0xC0, 0x80, 0x41,
     0x00, 0xC1, 0x81, 0x40, 0x01, 0xC0, 0x80, 0x41, 0x01, 0xC0, 0x80, 0x41, 0x00, 0xC1, 0x81, 0x40,
     0x01, 0xC0, 0x80, 0x41, 0x00, 0xC1, 0x81, 0x40, 0x00, 0xC1, 0x81, 0x40, 0x01, 0xC0, 0x80, 0x41,
     0x01, 0xC0, 0x80, 0x41, 0x00, 0xC1, 0x81, 0x40, 0x00, 0xC1, 0x81, 0x40, 0x01, 0xC0, 0x80, 0x41,
     0x00, 0xC1, 0x81, 0x40, 0x01, 0xC0, 0x80, 0x41, 0x01, 0xC0, 0x80, 0x41, 0x00, 0xC1, 0x81, 0x40]"

definition CRCLo :: "u8 list" where
  "CRCLo = [
     0x00, 0xC0, 0xC1, 0x01, 0xC3, 0x03, 0x02, 0xC2, 0xC6, 0x06, 0x07, 0xC7, 0x05, 0xC5, 0xC4, 0x04,
     0xCC, 0x0C, 0x0D, 0xCD, 0x0F, 0xCF, 0xCE, 0x0E, 0x0A, 0xCA, 0xCB, 0x0B, 0xC9, 0x09, 0x08, 0xC8,
     0xD8, 0x18, 0x19, 0xD9, 0x1B, 0xDB, 0xDA, 0x1A, 0x1E, 0xDE, 0xDF, 0x1F, 0xDD, 0x1D, 0x1C, 0xDC,
     0x14, 0xD4, 0xD5, 0x15, 0xD7, 0x17, 0x16, 0xD6, 0xD2, 0x12, 0x13, 0xD3, 0x11, 0xD1, 0xD0, 0x10,
     0xF0, 0x30, 0x31, 0xF1, 0x33, 0xF3, 0xF2, 0x32, 0x36, 0xF6, 0xF7, 0x37, 0xF5, 0x35, 0x34, 0xF4,
     0x3C, 0xFC, 0xFD, 0x3D, 0xFF, 0x3F, 0x3E, 0xFE, 0xFA, 0x3A, 0x3B, 0xFB, 0x39, 0xF9, 0xF8, 0x38,
     0x28, 0xE8, 0xE9, 0x29, 0xEB, 0x2B, 0x2A, 0xEA, 0xEE, 0x2E, 0x2F, 0xEF, 0x2D, 0xED, 0xEC, 0x2C,
     0xE4, 0x24, 0x25, 0xE5, 0x27, 0xE7, 0xE6, 0x26, 0x22, 0xE2, 0xE3, 0x23, 0xE1, 0x21, 0x20, 0xE0,
     0xA0, 0x60, 0x61, 0xA1, 0x63, 0xA3, 0xA2, 0x62, 0x66, 0xA6, 0xA7, 0x67, 0xA5, 0x65, 0x64, 0xA4,
     0x6C, 0xAC, 0xAD, 0x6D, 0xAF, 0x6F, 0x6E, 0xAE, 0xAA, 0x6A, 0x6B, 0xAB, 0x69, 0xA9, 0xA8, 0x68,
     0x78, 0xB8, 0xB9, 0x79, 0xBB, 0x7B, 0x7A, 0xBA, 0xBE, 0x7E, 0x7F, 0xBF, 0x7D, 0xBD, 0xBC, 0x7C,
     0xB4, 0x74, 0x75, 0xB5, 0x77, 0xB7, 0xB6, 0x76, 0x72, 0xB2, 0xB3, 0x73, 0xB1, 0x71, 0x70, 0xB0,
     0x50, 0x90, 0x91, 0x51, 0x93, 0x53, 0x52, 0x92, 0x96, 0x56, 0x57, 0x97, 0x55, 0x95, 0x94, 0x54,
     0x9C, 0x5C, 0x5D, 0x9D, 0x5F, 0x9F, 0x9E, 0x5E, 0x5A, 0x9A, 0x9B, 0x5B, 0x99, 0x59, 0x58, 0x98,
     0x88, 0x48, 0x49, 0x89, 0x4B, 0x8B, 0x8A, 0x4A, 0x4E, 0x8E, 0x8F, 0x4F, 0x8D, 0x4D, 0x4C, 0x8C,
     0x44, 0x84, 0x85, 0x45, 0x87, 0x47, 0x46, 0x86, 0x82, 0x42, 0x43, 0x83, 0x41, 0x81, 0x80, 0x40]"

text \<open>The bytes from \<open>head\<close> up to \<open>tail\<close> are a list; the loop carries \<open>CRC_Hi\<close> and \<open>CRC_Lo\<close>.\<close>

fun CRC_loop :: "u8 list \<Rightarrow> u8 \<Rightarrow> u8 \<Rightarrow> u8 \<times> u8" where
  "CRC_loop [] CRC_Hi CRC_Lo = (CRC_Hi, CRC_Lo)"
| "CRC_loop (b # bs) CRC_Hi CRC_Lo =
     (let i = unat (CRC_Hi XOR b) in CRC_loop bs (CRC_Lo XOR CRCHi ! i) (CRCLo ! i))"

definition CRC_sub :: "u8 list \<Rightarrow> u16 \<Rightarrow> u8 \<Rightarrow> u16" where
  "CRC_sub bytes InitVal exchange =
     (let (CRC_Hi, CRC_Lo) = CRC_loop bytes (hi8 InitVal) (lo8 InitVal)
      in if exchange = 0 then push_bit 8 (ucast CRC_Hi) OR ucast CRC_Lo
         else push_bit 8 (ucast CRC_Lo) OR ucast CRC_Hi)"

definition get_CRC :: "u8 list \<Rightarrow> nat \<Rightarrow> u16" where
  "get_CRC head len = CRC_sub (take len head) 0xFFFF 0"

section \<open>The reference\<close>

definition crc_bit :: "u16 \<Rightarrow> u16" where
  "crc_bit c = drop_bit 1 c XOR (if bit c 0 then 0xA001 else 0)"

definition crc_byte :: "u16 \<Rightarrow> u16" where
  "crc_byte c = (crc_bit ^^ 8) c"

definition crc_ref :: "u8 list \<Rightarrow> u16 \<Rightarrow> u16" where
  "crc_ref bs c = fold (\<lambda>b c. crc_byte (c XOR ucast b)) bs c"

definition swap16 :: "u16 \<Rightarrow> u16" where
  "swap16 w = mk16 (hi8 w) (lo8 w)"

section \<open>The tables\<close>

lemma funpow_8: "(f ^^ 8) x = f (f (f (f (f (f (f (f x)))))))"
  by (simp add: numeral_eq_Suc)

lemma crc_bit_lin: "crc_bit (a XOR b) = crc_bit a XOR crc_bit b"
  by (cases "bit a 0"; cases "bit b 0") (simp_all add: crc_bit_def bit_simps ac_simps)

lemma crc_byte_lin: "crc_byte (a XOR b) = crc_byte a XOR crc_byte b"
  by (simp add: crc_byte_def funpow_8 crc_bit_lin)

text \<open>The two tables, read as one table of words, hold the register after eight bit steps.\<close>

definition crc_table :: "u16 list" where
  "crc_table = [
     0x0000, 0xC0C1, 0xC181, 0x0140, 0xC301, 0x03C0, 0x0280, 0xC241, 0xC601, 0x06C0, 0x0780, 0xC741,
     0x0500, 0xC5C1, 0xC481, 0x0440, 0xCC01, 0x0CC0, 0x0D80, 0xCD41, 0x0F00, 0xCFC1, 0xCE81, 0x0E40,
     0x0A00, 0xCAC1, 0xCB81, 0x0B40, 0xC901, 0x09C0, 0x0880, 0xC841, 0xD801, 0x18C0, 0x1980, 0xD941,
     0x1B00, 0xDBC1, 0xDA81, 0x1A40, 0x1E00, 0xDEC1, 0xDF81, 0x1F40, 0xDD01, 0x1DC0, 0x1C80, 0xDC41,
     0x1400, 0xD4C1, 0xD581, 0x1540, 0xD701, 0x17C0, 0x1680, 0xD641, 0xD201, 0x12C0, 0x1380, 0xD341,
     0x1100, 0xD1C1, 0xD081, 0x1040, 0xF001, 0x30C0, 0x3180, 0xF141, 0x3300, 0xF3C1, 0xF281, 0x3240,
     0x3600, 0xF6C1, 0xF781, 0x3740, 0xF501, 0x35C0, 0x3480, 0xF441, 0x3C00, 0xFCC1, 0xFD81, 0x3D40,
     0xFF01, 0x3FC0, 0x3E80, 0xFE41, 0xFA01, 0x3AC0, 0x3B80, 0xFB41, 0x3900, 0xF9C1, 0xF881, 0x3840,
     0x2800, 0xE8C1, 0xE981, 0x2940, 0xEB01, 0x2BC0, 0x2A80, 0xEA41, 0xEE01, 0x2EC0, 0x2F80, 0xEF41,
     0x2D00, 0xEDC1, 0xEC81, 0x2C40, 0xE401, 0x24C0, 0x2580, 0xE541, 0x2700, 0xE7C1, 0xE681, 0x2640,
     0x2200, 0xE2C1, 0xE381, 0x2340, 0xE101, 0x21C0, 0x2080, 0xE041, 0xA001, 0x60C0, 0x6180, 0xA141,
     0x6300, 0xA3C1, 0xA281, 0x6240, 0x6600, 0xA6C1, 0xA781, 0x6740, 0xA501, 0x65C0, 0x6480, 0xA441,
     0x6C00, 0xACC1, 0xAD81, 0x6D40, 0xAF01, 0x6FC0, 0x6E80, 0xAE41, 0xAA01, 0x6AC0, 0x6B80, 0xAB41,
     0x6900, 0xA9C1, 0xA881, 0x6840, 0x7800, 0xB8C1, 0xB981, 0x7940, 0xBB01, 0x7BC0, 0x7A80, 0xBA41,
     0xBE01, 0x7EC0, 0x7F80, 0xBF41, 0x7D00, 0xBDC1, 0xBC81, 0x7C40, 0xB401, 0x74C0, 0x7580, 0xB541,
     0x7700, 0xB7C1, 0xB681, 0x7640, 0x7200, 0xB2C1, 0xB381, 0x7340, 0xB101, 0x71C0, 0x7080, 0xB041,
     0x5000, 0x90C1, 0x9181, 0x5140, 0x9301, 0x53C0, 0x5280, 0x9241, 0x9601, 0x56C0, 0x5780, 0x9741,
     0x5500, 0x95C1, 0x9481, 0x5440, 0x9C01, 0x5CC0, 0x5D80, 0x9D41, 0x5F00, 0x9FC1, 0x9E81, 0x5E40,
     0x5A00, 0x9AC1, 0x9B81, 0x5B40, 0x9901, 0x59C0, 0x5880, 0x9841, 0x8801, 0x48C0, 0x4980, 0x8941,
     0x4B00, 0x8BC1, 0x8A81, 0x4A40, 0x4E00, 0x8EC1, 0x8F81, 0x4F40, 0x8D01, 0x4DC0, 0x4C80, 0x8C41,
     0x4400, 0x84C1, 0x8581, 0x4540, 0x8701, 0x47C0, 0x4680, 0x8641, 0x8201, 0x42C0, 0x4380, 0x8341,
     0x4100, 0x81C1, 0x8081, 0x4040]"

lemma tables_merge: "map2 mk16 CRCHi CRCLo = crc_table"
  unfolding CRCHi_def CRCLo_def crc_table_def by (simp add: mk16_def)

lemma crc_byte_table: "map crc_byte [
     0, 1, 2, 3, 4, 5, 6, 7, 8, 9, 10, 11, 12, 13, 14, 15,
     16, 17, 18, 19, 20, 21, 22, 23, 24, 25, 26, 27, 28, 29, 30, 31,
     32, 33, 34, 35, 36, 37, 38, 39, 40, 41, 42, 43, 44, 45, 46, 47,
     48, 49, 50, 51, 52, 53, 54, 55, 56, 57, 58, 59, 60, 61, 62, 63,
     64, 65, 66, 67, 68, 69, 70, 71, 72, 73, 74, 75, 76, 77, 78, 79,
     80, 81, 82, 83, 84, 85, 86, 87, 88, 89, 90, 91, 92, 93, 94, 95,
     96, 97, 98, 99, 100, 101, 102, 103, 104, 105, 106, 107, 108, 109, 110, 111,
     112, 113, 114, 115, 116, 117, 118, 119, 120, 121, 122, 123, 124, 125, 126, 127,
     128, 129, 130, 131, 132, 133, 134, 135, 136, 137, 138, 139, 140, 141, 142, 143,
     144, 145, 146, 147, 148, 149, 150, 151, 152, 153, 154, 155, 156, 157, 158, 159,
     160, 161, 162, 163, 164, 165, 166, 167, 168, 169, 170, 171, 172, 173, 174, 175,
     176, 177, 178, 179, 180, 181, 182, 183, 184, 185, 186, 187, 188, 189, 190, 191,
     192, 193, 194, 195, 196, 197, 198, 199, 200, 201, 202, 203, 204, 205, 206, 207,
     208, 209, 210, 211, 212, 213, 214, 215, 216, 217, 218, 219, 220, 221, 222, 223,
     224, 225, 226, 227, 228, 229, 230, 231, 232, 233, 234, 235, 236, 237, 238, 239,
     240, 241, 242, 243, 244, 245, 246, 247, 248, 249, 250, 251, 252, 253, 254, 255] = crc_table"
  unfolding crc_table_def by (simp add: crc_byte_def funpow_8 crc_bit_def)

lemma upt_256: "map of_nat [0..<256] = ([
     0, 1, 2, 3, 4, 5, 6, 7, 8, 9, 10, 11, 12, 13, 14, 15,
     16, 17, 18, 19, 20, 21, 22, 23, 24, 25, 26, 27, 28, 29, 30, 31,
     32, 33, 34, 35, 36, 37, 38, 39, 40, 41, 42, 43, 44, 45, 46, 47,
     48, 49, 50, 51, 52, 53, 54, 55, 56, 57, 58, 59, 60, 61, 62, 63,
     64, 65, 66, 67, 68, 69, 70, 71, 72, 73, 74, 75, 76, 77, 78, 79,
     80, 81, 82, 83, 84, 85, 86, 87, 88, 89, 90, 91, 92, 93, 94, 95,
     96, 97, 98, 99, 100, 101, 102, 103, 104, 105, 106, 107, 108, 109, 110, 111,
     112, 113, 114, 115, 116, 117, 118, 119, 120, 121, 122, 123, 124, 125, 126, 127,
     128, 129, 130, 131, 132, 133, 134, 135, 136, 137, 138, 139, 140, 141, 142, 143,
     144, 145, 146, 147, 148, 149, 150, 151, 152, 153, 154, 155, 156, 157, 158, 159,
     160, 161, 162, 163, 164, 165, 166, 167, 168, 169, 170, 171, 172, 173, 174, 175,
     176, 177, 178, 179, 180, 181, 182, 183, 184, 185, 186, 187, 188, 189, 190, 191,
     192, 193, 194, 195, 196, 197, 198, 199, 200, 201, 202, 203, 204, 205, 206, 207,
     208, 209, 210, 211, 212, 213, 214, 215, 216, 217, 218, 219, 220, 221, 222, 223,
     224, 225, 226, 227, 228, 229, 230, 231, 232, 233, 234, 235, 236, 237, 238, 239,
     240, 241, 242, 243, 244, 245, 246, 247, 248, 249, 250, 251, 252, 253, 254, 255] :: u16 list)"
  by (simp add: upt_conv_Cons)

lemma length_tables [simp]: "length CRCHi = 256" "length CRCLo = 256"
  by (simp_all add: CRCHi_def CRCLo_def)

lemma table_entry: "mk16 (CRCHi ! unat i) (CRCLo ! unat i) = crc_byte (ucast i)" for i :: u8
proof -
  have i: "unat i < 256" using unsigned_less [of i] by simp
  have "mk16 (CRCHi ! unat i) (CRCLo ! unat i) = map2 mk16 CRCHi CRCLo ! unat i"
    using i by simp
  also have "\<dots> = map crc_byte (map of_nat [0..<256]) ! unat i"
    by (simp only: tables_merge upt_256 crc_byte_table)
  also have "\<dots> = crc_byte (ucast i)" using i by (simp add: of_nat_unat)
  finally show ?thesis .
qed

lemma crc_byte_high: "crc_byte (push_bit 8 (ucast (h :: u8))) = ucast h"
proof -
  have bits: "\<not> bit (push_bit n (ucast h) :: u16) 0" if "0 < n" for n
    using that by (simp add: bit_simps)
  have step: "crc_bit (push_bit (Suc n) (ucast h)) = push_bit n (ucast h)" if "n < 8" for n
  proof -
    have "drop_bit 1 (push_bit (Suc n) (ucast h)) = (push_bit n (ucast h) :: u16)"
      using that by (intro bit_word_eqI) (auto simp: bit_simps simp del: push_bit_Suc dest: bit_imp_le_length)
    then show ?thesis unfolding crc_bit_def using bits [of "Suc n"] by (simp del: push_bit_Suc)
  qed
  show ?thesis
    unfolding crc_byte_def funpow_8
    using step [of 7] step [of 6] step [of 5] step [of 4] step [of 3] step [of 2] step [of 1] step [of 0]
    by (simp add: numeral_eq_Suc del: push_bit_Suc)
qed

section \<open>Equivalence\<close>

lemma mk16_xor: "mk16 lo hi = ucast lo XOR push_bit 8 (ucast hi)"
  unfolding mk16_def by (rule bit_word_eqI) (auto simp: bit_simps dest: bit_imp_le_length)

lemma ucast_xor: "(ucast (a XOR b) :: u16) = ucast a XOR ucast b" for a b :: u8
  by (rule bit_word_eqI) (auto simp: bit_simps)

text \<open>One round of the table loop is eight bit steps on the register.\<close>

lemma crc_round:
  "mk16 (lo XOR CRCHi ! unat (hi XOR b)) (CRCLo ! unat (hi XOR b)) = crc_byte (mk16 hi lo XOR ucast b)"
proof -
  have "mk16 hi lo XOR ucast b = ucast (hi XOR b) XOR push_bit 8 (ucast lo)"
    by (simp add: mk16_xor ucast_xor ac_simps)
  then have "crc_byte (mk16 hi lo XOR ucast b) = crc_byte (ucast (hi XOR b)) XOR ucast lo"
    by (simp add: crc_byte_lin crc_byte_high)
  also have "\<dots> = mk16 (CRCHi ! unat (hi XOR b)) (CRCLo ! unat (hi XOR b)) XOR ucast lo"
    by (simp add: table_entry)
  also have "\<dots> = mk16 (lo XOR CRCHi ! unat (hi XOR b)) (CRCLo ! unat (hi XOR b))"
    by (simp add: mk16_xor ucast_xor ac_simps)
  finally show ?thesis by simp
qed

lemma CRC_loop_ref:
  "CRC_loop bs hi lo = (h, l) \<Longrightarrow> mk16 h l = crc_ref bs (mk16 hi lo)"
proof (induction bs arbitrary: hi lo)
  case Nil
  then show ?case by (simp add: crc_ref_def)
next
  case (Cons b bs)
  let ?i = "unat (hi XOR b)"
  from Cons.prems have "CRC_loop bs (lo XOR CRCHi ! ?i) (CRCLo ! ?i) = (h, l)"
    by (simp add: Let_def)
  from Cons.IH [OF this] show ?case
    unfolding crc_round by (simp add: crc_ref_def)
qed

lemma swap16_mk16 [simp]: "swap16 (mk16 a b) = mk16 b a"
  by (simp add: swap16_def)

lemma swap16_swap16 [simp]: "swap16 (swap16 w) = w"
  by (simp add: swap16_def)

lemma CRC_sub_mk16:
  "CRC_sub bs v exch = (case CRC_loop bs (hi8 v) (lo8 v) of (h, l) \<Rightarrow> if exch = 0 then mk16 l h else mk16 h l)"
  by (simp add: CRC_sub_def mk16_def or.commute split: prod.splits)

lemma CRC_sub_ref:
  "CRC_sub bs v 0 = swap16 (crc_ref bs (swap16 v))"
  "exch \<noteq> 0 \<Longrightarrow> CRC_sub bs v exch = crc_ref bs (swap16 v)"
  using CRC_loop_ref [of bs "hi8 v" "lo8 v"]
  by (auto simp: CRC_sub_mk16 swap16_def split: prod.splits) (metis hi8_mk16 lo8_mk16)+

lemma swap16_eq_iff: "swap16 a = swap16 b \<longleftrightarrow> a = b"
  by (metis swap16_swap16)

lemma swap16_FFFF: "swap16 0xFFFF = 0xFFFF"
  by (simp add: swap16_def mk16_def lo8_def hi8_def)

lemma swap16_0 [simp]: "swap16 0 = 0"
  by (simp add: swap16_def mk16_def lo8_def hi8_def)

lemma get_CRC_ref: "get_CRC bs n = swap16 (crc_ref (take n bs) 0xFFFF)"
  by (simp add: get_CRC_def CRC_sub_ref swap16_FFFF)

lemma crc_ref_append: "crc_ref (xs @ ys) c = crc_ref ys (crc_ref xs c)"
  by (simp add: crc_ref_def)

lemma crc_ref_Cons: "crc_ref (b # bs) c = crc_ref bs (crc_byte (c XOR ucast b))"
  by (simp add: crc_ref_def)

section \<open>Detection of errors\<close>

text \<open>The bit step loses no information, since the polynomial has its top bit set.\<close>

lemma crc_bit_zero: "crc_bit d = 0 \<Longrightarrow> d = 0"
proof -
  assume z: "crc_bit d = 0"
  have "\<not> bit d 0"
  proof
    assume "bit d 0"
    moreover have "\<not> bit d 16" using bit_imp_le_length [of d 16] by auto
    ultimately have "bit (crc_bit d) 15" by (simp add: crc_bit_def bit_simps)
    with z show False by simp
  qed
  with z have "drop_bit 1 d = 0" by (simp add: crc_bit_def)
  moreover have "bit d (Suc n) = bit (drop_bit 1 d) n" for n by (simp add: bit_drop_bit_eq)
  ultimately have "\<not> bit d (Suc n)" for n by simp
  with \<open>\<not> bit d 0\<close> have "\<not> bit d n" for n by (cases n) auto
  then show "d = 0" by (intro bit_word_eqI) simp
qed

lemma crc_bit_inj: "crc_bit a = crc_bit b \<Longrightarrow> a = b"
  using crc_bit_zero [of "a XOR b"] by (simp add: crc_bit_lin)

lemma crc_byte_inj: "crc_byte a = crc_byte b \<Longrightarrow> a = b"
  unfolding crc_byte_def funpow_8 by (blast dest: crc_bit_inj)

lemma crc_ref_inj: "crc_ref bs c = crc_ref bs d \<Longrightarrow> c = d"
proof (induction bs arbitrary: c d)
  case Nil
  then show ?case by (simp add: crc_ref_def)
next
  case (Cons b bs)
  then have "crc_byte (c XOR ucast b) = crc_byte (d XOR ucast b)" by (simp add: crc_ref_Cons)
  then show ?case using crc_byte_inj by fastforce
qed

section \<open>Properties\<close>

text \<open>C28: The table-driven CRC of \<open>usart.c\<close> equals the bit-serial Modbus CRC on every byte
  sequence: \<open>get_CRC\<close> is the reference register with its two bytes exchanged.\<close>

theorem crc_table_is_modbus: "get_CRC bs (length bs) = swap16 (crc_ref bs 0xFFFF)"
  by (simp add: get_CRC_ref)

text \<open>A receiver that runs the same CRC over a frame and the two check bytes appended to it,
  high byte first as \<open>ServoFreqSet\<close> appends them, obtains zero.\<close>

lemma crc_residue:
  "get_CRC (bs @ [hi8 (get_CRC bs (length bs)), lo8 (get_CRC bs (length bs))]) (length bs + 2) = 0"
proof -
  let ?c = "crc_ref bs 0xFFFF"
  have parts: "hi8 (get_CRC bs (length bs)) = lo8 ?c" "lo8 (get_CRC bs (length bs)) = hi8 ?c"
    by (simp_all add: get_CRC_ref swap16_def)
  have split: "?c = ucast (lo8 ?c) XOR push_bit 8 (ucast (hi8 ?c))"
    by (metis mk16_lo8_hi8 mk16_xor)
  have "?c XOR ucast (lo8 ?c) = push_bit 8 (ucast (hi8 ?c))"
    by (subst split) (simp add: xor.commute [of "ucast (lo8 ?c)"] xor.assoc)
  then have "crc_byte (?c XOR ucast (lo8 ?c)) = ucast (hi8 ?c)"
    by (simp only: crc_byte_high)
  then have "crc_ref [lo8 ?c, hi8 ?c] ?c = crc_byte 0"
    by (simp add: crc_ref_Cons) (simp add: crc_ref_def)
  also have "\<dots> = 0" by (simp add: crc_byte_def funpow_8 crc_bit_def)
  finally show ?thesis
    unfolding parts by (simp add: get_CRC_ref crc_ref_append)
qed

text \<open>The CRC detects every corruption of a single byte of an inverter frame.\<close>

theorem crc_detects_byte_error:
  assumes "j < length bs" "v \<noteq> bs ! j"
  shows "get_CRC (bs[j := v]) (length bs) \<noteq> get_CRC bs (length bs)"
proof
  assume "get_CRC (bs[j := v]) (length bs) = get_CRC bs (length bs)"
  then have "crc_ref (bs[j := v]) 0xFFFF = crc_ref bs 0xFFFF"
    by (simp add: get_CRC_ref swap16_eq_iff)
  then have "crc_ref (take j bs @ v # drop (Suc j) bs) 0xFFFF
      = crc_ref (take j bs @ bs ! j # drop (Suc j) bs) 0xFFFF"
    using assms(1) by (simp add: upd_conv_take_nth_drop id_take_nth_drop [symmetric])
  then have "crc_byte (crc_ref (take j bs) 0xFFFF XOR ucast v)
      = crc_byte (crc_ref (take j bs) 0xFFFF XOR ucast (bs ! j))"
    by (auto simp: crc_ref_append crc_ref_Cons dest: crc_ref_inj)
  then have "v = bs ! j" using crc_byte_inj by fastforce
  with assms(2) show False by simp
qed

theorem crc_detects_byte_error_witness:
  "get_CRC ([0x00, 0x06, 0xFA, 0x01, 0x0A, 0x8C][4 := 0x0B]) 6 \<noteq> get_CRC [0x00, 0x06, 0xFA, 0x01, 0x0A, 0x8C] 6"
  using crc_detects_byte_error [of 4 "[0x00, 0x06, 0xFA, 0x01, 0x0A, 0x8C]" "0x0B"]
  by (simp add: eval_nat_numeral)

end
