(* ===== verification/Usart.thy ===== *)
theory Usart
  imports Flt Crc
begin

text \<open>
  \<open>usart.c\<close>: the four RS485 ports, the frames that set the frequency of the inverter, and the
  copies of the last transmission kept for the WCS. The globals of the file, and
  \<open>inverter_type\<close> of \<open>main.c\<close>, are the record \<open>usart_st\<close>; the other components extend it. What
  the hardware is told to transmit is the list \<open>uart_log\<close>, the newest entry last.
\<close>

section \<open>State\<close>

datatype uart_port = UART4 | UART5 | USART2 | USART1

datatype uart_event =
    Tx_485 uart_port                 \<comment> \<open>the direction pin of the transceiver is set\<close>
  | Dma_start uart_port "u8 list"    \<comment> \<open>the DMA channel is started on these bytes\<close>
  | Tx_byte uart_port u8             \<comment> \<open>one byte is written and its completion awaited\<close>

record uart =
  send_buff :: "u8 list"
  recv_buff :: "u8 list"
  send_count :: u16
  recv_count :: u16
  commu_state :: u8
  tmr :: u16

record usart_st =
  inverter_type :: u8
  uart4 :: uart
  uart5 :: uart
  uart2 :: uart
  uart1 :: uart
  record_uart2_buff :: "u8 list"
  record_uart2_len :: u8
  record_uart4_buff :: "u8 list"
  record_uart4_len :: u8
  uart_log :: "uart_event list"

abbreviation (input) "RECV_DATA \<equiv> 1 :: u8"
abbreviation (input) "RECV_DATA_END \<equiv> 4 :: u8"

section \<open>Operations\<close>

definition timeout_tick :: "uart \<Rightarrow> uart" where
  "timeout_tick u =
     (if tmr u \<noteq> 0 then
        let u = u\<lparr>tmr := tmr u - 1\<rparr> in
        if tmr u = 0 then u\<lparr>commu_state := RECV_DATA_END\<rparr> else u
      else u)"

definition uart_recv_timeout :: "'a usart_st_scheme \<Rightarrow> 'a usart_st_scheme" where
  "uart_recv_timeout s = s\<lparr>uart4 := timeout_tick (uart4 s), uart5 := timeout_tick (uart5 s),
     uart2 := timeout_tick (uart2 s), uart1 := timeout_tick (uart1 s)\<rparr>"

definition uart4_send :: "'a usart_st_scheme \<Rightarrow> 'a usart_st_scheme" where
  "uart4_send s =
     (let u = uart4 s;
          s = s\<lparr>uart_log := uart_log s @ [Tx_485 UART4, Dma_start UART4 (take (unat (send_count u)) (send_buff u))]\<rparr>;
          s = s\<lparr>record_uart4_len := ucast (send_count u)\<rparr>
      in if record_uart4_len s > 15 then s\<lparr>record_uart4_len := 0\<rparr>
         else s\<lparr>record_uart4_buff :=
                blit (record_uart4_buff s) 0 (take (unat (record_uart4_len s)) (send_buff u))\<rparr>)"

definition uart5_send :: "'a usart_st_scheme \<Rightarrow> 'a usart_st_scheme" where
  "uart5_send s =
     (let u = uart5 s in
      s\<lparr>uart_log := uart_log s @ Tx_485 UART5 # map (Tx_byte UART5) (take (unat (send_count u)) (send_buff u))\<rparr>)"

definition uart2_send :: "'a usart_st_scheme \<Rightarrow> 'a usart_st_scheme" where
  "uart2_send s =
     (let u = uart2 s;
          s = s\<lparr>uart_log := uart_log s @ [Tx_485 USART2, Dma_start USART2 (take (unat (send_count u)) (send_buff u))]\<rparr>;
          s = s\<lparr>record_uart2_len := ucast (send_count u)\<rparr>
      in if record_uart2_len s > 15 then s\<lparr>record_uart2_len := 0\<rparr>
         else s\<lparr>record_uart2_buff :=
                blit (record_uart2_buff s) 0 (take (unat (record_uart2_len s)) (send_buff u))\<rparr>)"

definition uart1_send :: "'a usart_st_scheme \<Rightarrow> 'a usart_st_scheme" where
  "uart1_send s =
     (let u = uart1 s in
      s\<lparr>uart_log := uart_log s @ Tx_485 USART1 # map (Tx_byte USART1) (take (unat (send_count u)) (send_buff u))\<rparr>)"

text \<open>The loop that copies \<open>pbuf\<close> into both send buffers, and the two counts.\<close>

definition load_frame :: "u8 list \<Rightarrow> 'a usart_st_scheme \<Rightarrow> 'a usart_st_scheme" where
  "load_frame pbuf s =
     s\<lparr>uart2 := (uart2 s)\<lparr>send_buff := blit (send_buff (uart2 s)) 0 pbuf, send_count := of_nat (length pbuf)\<rparr>,
       uart4 := (uart4 s)\<lparr>send_buff := blit (send_buff (uart4 s)) 0 pbuf, send_count := of_nat (length pbuf)\<rparr>\<rparr>"

definition with_crc :: "u8 list \<Rightarrow> u8 list" where
  "with_crc pbuf = (let crc = get_CRC pbuf (length pbuf) in pbuf @ [hi8 crc, lo8 crc])"

text \<open>\<open>hz_t = (u16)((hz / 5000.0) * 0x4000)\<close>.\<close>

definition siemens_scale :: "u16 \<Rightarrow> u16 result" where
  "siemens_scale hz =
     and_then (to_uint16 (fmul double (fdiv double (flt_of_int double (uint hz)) (Fin 5000))
                            (flt_of_int double 0x4000)))
       (\<lambda>v. Inr (word_of_int v))"

definition ServoFreqSet :: "u16 \<Rightarrow> 'a usart_st_scheme \<Rightarrow> 'a usart_st_scheme result" where
  "ServoFreqSet hz s =
     (if inverter_type s = 0 then
        Inr (uart4_send (uart2_send (load_frame
          (with_crc [0x00, 0x06, 0xFA, 0x01, hi8 hz, lo8 hz]) s)))
      else if inverter_type s = 1 then
        Inr (uart4_send (uart2_send (load_frame
          (with_crc [0x00, 0x06, 0x20, 0x01, hi8 hz, lo8 hz]) s)))
      else if inverter_type s = 2 then
        and_then (siemens_scale hz) (\<lambda>hz_t.
          Inr (uart4_send (uart2_send (load_frame
            (with_crc [0x01, 0x10, 0x00, 0x63, 0x00, 0x02, 0x04, 0x04, 0x7F, hi8 hz_t, lo8 hz_t]) s))))
      else if inverter_type s = 3 then
        Inr (uart4_send (uart2_send (load_frame
          (with_crc [0x00, 0x06, 0x70, 0x15, hi8 hz, lo8 hz]) s)))
      else if inverter_type s = 4 then
        Inr (uart4_send (uart2_send (load_frame
          (with_crc [0x00, 0x06, 0x30, 0x00, hi8 hz, lo8 hz]) s)))
      else Inr s)"

text \<open>\<open>sprintf(buf, "...%d\\n", cnt)\<close>: the text, with the argument read as a signed 32-bit
  integer, and a terminating zero are stored; the result is the length of the text.\<close>

fun dec_digits :: "nat \<Rightarrow> u8 list" where
  "dec_digits n = (if n < 10 then [of_nat (48 + n)] else dec_digits (n div 10) @ [of_nat (48 + n mod 10)])"

declare dec_digits.simps [simp del]

definition sprintf_d :: "string \<Rightarrow> u32 \<Rightarrow> u8 list" where
  "sprintf_d prefix cnt =
     map of_char prefix @ (if sint cnt < 0 then [45] else []) @ dec_digits (nat \<bar>sint cnt\<bar>) @ [10]"

definition sprintf_into :: "u8 list \<Rightarrow> uart \<Rightarrow> uart" where
  "sprintf_into txt u = u\<lparr>send_buff := blit (send_buff u) 0 (txt @ [0]), send_count := of_nat (length txt)\<rparr>"

definition UartSendPidCnt :: "u16 \<Rightarrow> u32 \<Rightarrow> 'a usart_st_scheme \<Rightarrow> 'a usart_st_scheme" where
  "UartSendPidCnt extid cnt s =
     (if extid = 2 then uart5_send (s\<lparr>uart5 := sprintf_into (sprintf_d ''2:'' cnt) (uart5 s)\<rparr>)
      else if extid = 3 then uart5_send (s\<lparr>uart5 := sprintf_into (sprintf_d ''3:'' cnt) (uart5 s)\<rparr>)
      else if extid = 4 then uart5_send (s\<lparr>uart5 := sprintf_into (sprintf_d ''4:'' cnt) (uart5 s)\<rparr>)
      else if extid = 5 then uart5_send (s\<lparr>uart5 := sprintf_into (sprintf_d ''5:'' cnt) (uart5 s)\<rparr>)
      else if extid = 6 then uart5_send (s\<lparr>uart5 := sprintf_into (sprintf_d ''6:'' cnt) (uart5 s)\<rparr>)
      else if extid = 7 then uart5_send (s\<lparr>uart5 := sprintf_into (sprintf_d ''7:'' cnt) (uart5 s)\<rparr>)
      else s)"

definition UartSendCarNo :: "u16 \<Rightarrow> 'a usart_st_scheme \<Rightarrow> 'a usart_st_scheme" where
  "UartSendCarNo carNo s =
     uart5_send (s\<lparr>uart5 := (uart5 s)\<lparr>send_buff := (send_buff (uart5 s))[0 := 0xAB, 1 := 0x01, 2 := 0xAC],
                                     send_count := 3\<rparr>\<rparr>)"

definition RS485_Test :: "u32 \<Rightarrow> 'a usart_st_scheme \<Rightarrow> 'a usart_st_scheme" where
  "RS485_Test cnt s =
     (let s = s\<lparr>uart4 := sprintf_into (sprintf_d ''uart4_r8_send:'' cnt) (uart4 s),
                uart5 := sprintf_into (sprintf_d ''uart5_r6_send:'' cnt) (uart5 s),
                uart2 := sprintf_into (sprintf_d ''uart2_r7_send:'' cnt) (uart2 s),
                uart1 := sprintf_into (sprintf_d ''uart1_r9_send:'' cnt) (uart1 s)\<rparr>;
          s = (if commu_state (uart4 s) \<noteq> RECV_DATA then uart4_send s else s);
          s = (if commu_state (uart5 s) \<noteq> RECV_DATA then uart5_send s else s);
          s = (if commu_state (uart2 s) \<noteq> RECV_DATA then uart2_send s else s)
      in (if commu_state (uart1 s) \<noteq> RECV_DATA then uart1_send s else s))"

section \<open>Invariant\<close>

text \<open>The arrays keep their declared sizes.\<close>

definition uart_ok :: "uart \<Rightarrow> bool" where
  "uart_ok u \<longleftrightarrow> length (send_buff u) = 100 \<and> length (recv_buff u) = 100"

definition usart_inv :: "'a usart_st_scheme \<Rightarrow> bool" where
  "usart_inv s \<longleftrightarrow> uart_ok (uart4 s) \<and> uart_ok (uart5 s) \<and> uart_ok (uart2 s) \<and> uart_ok (uart1 s)
     \<and> length (record_uart2_buff s) = 20 \<and> length (record_uart4_buff s) = 20
     \<and> record_uart2_len s \<le> 15 \<and> record_uart4_len s \<le> 15"

lemmas uart_send_defs = uart4_send_def uart5_send_def uart2_send_def uart1_send_def Let_def

lemma usart_inv_uart4_send: "usart_inv s \<Longrightarrow> usart_inv (uart4_send s)"
  by (auto simp: usart_inv_def uart_send_defs not_less)

lemma usart_inv_uart5_send: "usart_inv s \<Longrightarrow> usart_inv (uart5_send s)"
  by (auto simp: usart_inv_def uart_send_defs)

lemma usart_inv_uart2_send: "usart_inv s \<Longrightarrow> usart_inv (uart2_send s)"
  by (auto simp: usart_inv_def uart_send_defs not_less)

lemma usart_inv_uart1_send: "usart_inv s \<Longrightarrow> usart_inv (uart1_send s)"
  by (auto simp: usart_inv_def uart_send_defs)

lemma usart_inv_load_frame: "usart_inv s \<Longrightarrow> usart_inv (load_frame pbuf s)"
  by (simp add: usart_inv_def uart_ok_def load_frame_def)

lemmas usart_inv_intros = usart_inv_uart4_send usart_inv_uart5_send usart_inv_uart2_send
  usart_inv_uart1_send usart_inv_load_frame

lemma usart_inv_ServoFreqSet: "usart_inv s \<Longrightarrow> keeps usart_inv (ServoFreqSet hz s)"
  by (cases "siemens_scale hz") (simp_all add: ServoFreqSet_def usart_inv_intros)

text \<open>After a frame was loaded and both ports were started, the log and the two copies show it.\<close>

definition frame_sent :: "'a usart_st_scheme \<Rightarrow> u8 list \<Rightarrow> 'a usart_st_scheme \<Rightarrow> bool" where
  "frame_sent s f s' \<longleftrightarrow> usart_inv s'
     \<and> uart_log s' = uart_log s @ [Tx_485 USART2, Dma_start USART2 f, Tx_485 UART4, Dma_start UART4 f]
     \<and> take (unat (record_uart2_len s')) (record_uart2_buff s') = f
     \<and> take (unat (record_uart4_len s')) (record_uart4_buff s') = f"

lemma take_blit: "length f \<le> length b \<Longrightarrow> take (length f) (blit b 0 f) = f"
  by (intro nth_equalityI) (simp_all add: nth_blit)

lemma send_both_sent:
  assumes inv: "usart_inv s" and len: "length f \<le> 15"
  shows "frame_sent s f (uart4_send (uart2_send (load_frame f s)))"
proof -
  have "unat (of_nat (length f) :: u16) = length f" using len by (simp add: unat_of_nat)
  moreover have "(ucast (of_nat (length f) :: u16) :: u8) = of_nat (length f)"
    using len by (simp add: word_unat_eq_iff unat_of_nat unsigned_ucast_eq take_bit_nat_eq_self)
  moreover have "unat (of_nat (length f) :: u8) = length f" using len by (simp add: unat_of_nat)
  moreover have "\<not> 15 < (of_nat (length f) :: u8)"
    using len by (simp add: word_less_nat_alt unat_of_nat)
  moreover have "length (send_buff (uart2 s)) = 100" "length (send_buff (uart4 s)) = 100"
    "length (record_uart2_buff s) = 20" "length (record_uart4_buff s) = 20"
    using inv by (simp_all add: usart_inv_def uart_ok_def)
  moreover have "usart_inv (uart4_send (uart2_send (load_frame f s)))"
    using inv by (simp add: usart_inv_intros)
  ultimately show ?thesis
    using len by (simp add: frame_sent_def uart_send_defs load_frame_def take_blit)
qed

section \<open>The scaling for the Siemens drive\<close>

text \<open>A rational close to another one whose fractional part is not close to 0 or 1 has the
  same integer part.\<close>

lemma floor_near:
  fixes r x d :: rat
  assumes "\<bar>r - x\<bar> \<le> d" "of_int k + d \<le> x" "x + d < of_int k + 1"
  shows "\<lfloor>r\<rfloor> = k"
  using assms by (simp add: floor_unique abs_le_iff)

lemma near_trans: "\<bar>r - y\<bar> \<le> d \<Longrightarrow> \<bar>y - x\<bar> \<le> d \<Longrightarrow> \<bar>r - x\<bar> \<le> 2 * d" for r x y d :: rat
  by linarith

lemma fraction_room:
  fixes x k m :: rat
  assumes "x = k + m / 5000" "1 \<le> m" "m \<le> 4999"
  shows "k + 1 / 2 ^ 30 \<le> x" "x + 1 / 2 ^ 30 < k + 1"
  using assms by simp_all

text \<open>\<open>hz / 5000.0 * 0x4000\<close> in double precision is within \<open>2 ^ -36\<close> of the exact value, and
  exact when it is a multiple of one eighth.\<close>

lemma siemens_product:
  assumes that: "0 \<le> h" and h: "h < 65536"
  shows "\<exists>r. fmul double (fdiv double (flt_of_int double h) (Fin 5000)) (flt_of_int double 0x4000) = Fin r
    \<and> \<bar>r - of_int (h * 16384) / 5000\<bar> \<le> 1 / 2 ^ 30 \<and> (625 dvd h \<longrightarrow> r = of_int (h * 16384 div 5000))"
proof -
  define q where "q = round_rat double (of_int h / 5000)"
  have hb: "0 \<le> (of_int h :: rat)" "(of_int h :: rat) \<le> 65536"
    using h that by (simp, metis of_int_le_iff of_int_numeral order_less_imp_le)
  have qe: "\<bar>q - of_int h / 5000\<bar> \<le> 15 / 2 ^ 53"
    using double_error [of "of_int h / 5000"] hb unfolding q_def by (auto simp: field_simps)
  have "0 \<le> (of_int h / 5000 :: rat)" "(of_int h / 5000 :: rat) \<le> 65536 / 5000"
    using hb by (simp, intro divide_right_mono) simp_all
  moreover have "\<bar>q - of_int h / 5000\<bar> \<le> 1 / 2" by (rule order_trans [OF qe]) simp
  ultimately have qb: "\<bar>q\<bar> \<le> 14" by linarith
  define r where "r = round_rat double (q * 16384)"
  have rb: "\<bar>q * 16384\<bar> \<le> 14 * 16384" using qb by (simp add: abs_mult)
  have re: "\<bar>r - q * 16384\<bar> \<le> (14 * 16384 + 1) / 2 ^ 53"
    using double_error [of "q * 16384"] rb unfolding r_def by (simp add: add_divide_distrib)
  have "\<bar>q * 16384 - of_int h / 5000 * 16384\<bar> = \<bar>q - of_int h / 5000\<bar> * 16384"
    by (simp only: left_diff_distrib [symmetric] abs_mult abs_numeral)
  also have "\<dots> \<le> 15 / 2 ^ 53 * 16384" by (rule mult_right_mono [OF qe]) simp
  finally have qe': "\<bar>q * 16384 - of_int h / 5000 * 16384\<bar> \<le> 1 / 2 ^ 31"
    by (rule order_trans) simp
  have "\<bar>r - q * 16384\<bar> \<le> 1 / 2 ^ 31" by (rule order_trans [OF re]) simp
  then have err: "\<bar>r - of_int (h * 16384) / 5000\<bar> \<le> 1 / 2 ^ 30"
    using near_trans [OF _ qe', of r] by simp
  have val: "fmul double (fdiv double (flt_of_int double h) (Fin 5000)) (flt_of_int double 0x4000) = Fin r"
  proof -
    have "\<bar>of_int h / 5000 :: rat\<bar> \<le> 2 ^ 99" using hb by simp
    moreover have "\<bar>q * 16384\<bar> \<le> 2 ^ 99" using rb by simp
    ultimately show ?thesis
      using h that by (simp add: double_int_exact fround_double_Fin q_def [symmetric] r_def)
  qed
  moreover have "r = of_int (h * 16384 div 5000)" if dvd: "625 dvd h"
  proof -
    obtain k where k: "h = 625 * k" using dvd by blast
    have "0 \<le> k" "k < 65536" using h \<open>0 \<le> h\<close> k by linarith+
    then have kb: "\<bar>k\<bar> < 2 ^ 40" by simp
    have x: "of_int h / 5000 = (of_int k * pow2 (- 3) :: rat)" by (simp add: k pow2_def)
    have q: "q = of_int k * pow2 (- 3)"
      unfolding q_def x using kb by (intro round_rat_exact [OF refl]) simp_all
    have y: "q * 16384 = of_int (2048 * k) * pow2 0" by (simp add: q pow2_def)
    have "r = of_int (2048 * k) * pow2 0"
      unfolding r_def y using kb by (intro round_rat_exact [OF refl]) (simp_all add: abs_mult)
    then show ?thesis by (simp add: k pow2_def)
  qed
  ultimately show ?thesis using err by blast
qed

lemma siemens_floor:
  assumes h: "0 \<le> h" "h < 65536"
  shows "\<exists>r. fmul double (fdiv double (flt_of_int double h) (Fin 5000)) (flt_of_int double 0x4000) = Fin r
    \<and> \<lfloor>r\<rfloor> = h * 16384 div 5000"
proof -
  obtain r where val: "fmul double (fdiv double (flt_of_int double h) (Fin 5000)) (flt_of_int double 0x4000) = Fin r"
    and err: "\<bar>r - of_int (h * 16384) / 5000\<bar> \<le> 1 / 2 ^ 30"
    and ex: "625 dvd h \<longrightarrow> r = of_int (h * 16384 div 5000)"
    using siemens_product [OF h] by blast
  have "\<lfloor>r\<rfloor> = h * 16384 div 5000"
  proof (cases "625 dvd h")
    case True
    then show ?thesis using ex by simp
  next
    case False
    define k m where "k = h * 16384 div 5000" and "m = h * 16384 mod 5000"
    have split: "h * 16384 = 5000 * k + m"
      unfolding k_def m_def by (rule mult_div_mod_eq [symmetric])
    have "8 dvd m" unfolding m_def by (simp add: dvd_mod)
    moreover have "m \<noteq> 0"
    proof
      assume "m = 0"
      then have "5000 dvd h * 16384" by (simp add: m_def dvd_eq_mod_eq_0)
      then obtain c where "h * 16384 = 5000 * c" ..
      then have "h * 2048 = 625 * c" by simp
      then have "h = 625 * (112 * c - 367 * h)" by simp
      then have "625 dvd h" by (rule dvdI)
      then show False using False by simp
    qed
    moreover have "0 \<le> m" "m < 5000" by (simp_all add: m_def)
    ultimately have mb: "1 \<le> m" "m \<le> 4999" by auto
    have "of_int (h * 16384) / 5000 = (of_int k + of_int m / 5000 :: rat)"
      unfolding split of_int_add of_int_mult add_divide_distrib by simp
    moreover have "(1 :: rat) \<le> of_int m" "(of_int m :: rat) \<le> 4999"
      using mb by (metis of_int_1 of_int_le_iff, metis of_int_le_iff of_int_numeral)
    ultimately show ?thesis
      unfolding k_def [symmetric] by (intro floor_near [OF err]; elim fraction_room)
  qed
  then show ?thesis using val by blast
qed

lemma siemens_scale_eq:
  "siemens_scale hz = (if unat hz < 20000 then Inr (of_nat (unat hz * 16384 div 5000)) else Inl Undefined)"
proof -
  let ?h = "uint hz"
  have h: "0 \<le> ?h" "?h < 65536" using unsigned_less [of hz] by simp_all
  have u: "?h = int (unat hz)" by simp
  obtain r where val: "fmul double (fdiv double (flt_of_int double ?h) (Fin 5000)) (flt_of_int double 0x4000) = Fin r"
    and fl: "\<lfloor>r\<rfloor> = ?h * 16384 div 5000"
    using siemens_floor [OF h] by blast
  have pos: "0 \<le> \<lfloor>r\<rfloor>" unfolding fl using h by (intro pos_imp_zdiv_nonneg_iff [THEN iffD2]) simp_all
  then have "0 \<le> r" by (simp only: zero_le_floor)
  then have tr: "trunc_rat r = ?h * 16384 div 5000" using fl by (simp only: trunc_rat_def if_True)
  have "?h * 16384 div 5000 \<le> 65535 \<longleftrightarrow> ?h < 20000" by linarith
  moreover have "word_of_int (?h * 16384 div 5000) = (of_nat (unat hz * 16384 div 5000) :: u16)"
    unfolding u by (metis of_int_of_nat_eq of_nat_mult of_nat_numeral zdiv_int)
  moreover have "?h < 20000 \<longleftrightarrow> unat hz < 20000" using u by linarith
  ultimately show ?thesis using pos unfolding siemens_scale_def val flt_to_int.simps tr fl by (simp del: uint_nat)
qed

section \<open>What the drive understands\<close>

text \<open>The abstract view of a frame on the bus: a Modbus write, as a drive reads it. Function 6
  writes one register, function 16 writes consecutive ones. A frame whose CRC does not match is
  ignored.\<close>

datatype modbus_write = Modbus_Write (mb_unit: u8) (mb_register: u16) (mb_values: "u16 list")

fun modbus_body :: "u8 list \<Rightarrow> modbus_write option" where
  "modbus_body [u, fc, r1, r0, a, b] =
     (if fc = 6 then Some (Modbus_Write u (mk16 r0 r1) [mk16 b a]) else None)"
| "modbus_body [u, fc, r1, r0, n1, n0, nb, a1, a0, b1, b0] =
     (if fc = 16 \<and> mk16 n0 n1 = 2 \<and> nb = 4
      then Some (Modbus_Write u (mk16 r0 r1) [mk16 a0 a1, mk16 b0 b1]) else None)"
| "modbus_body _ = None"

definition modbus_parse :: "u8 list \<Rightarrow> modbus_write option" where
  "modbus_parse f =
     (if 2 \<le> length f \<and> get_CRC f (length f) = 0 then modbus_body (take (length f - 2) f) else None)"

text \<open>The request each kind of drive must receive for the frequency \<open>hz\<close>, in hundredths of a
  hertz; \<open>None\<close> when there is no drive or no representable request.\<close>

definition drive_request :: "u8 \<Rightarrow> u16 \<Rightarrow> modbus_write option" where
  "drive_request kind hz =
     (if kind = 0 then Some (Modbus_Write 0 0xFA01 [hz])
      else if kind = 1 then Some (Modbus_Write 0 0x2001 [hz])
      else if kind = 2 then
        (if unat hz < 20000 then Some (Modbus_Write 1 0x0063 [0x047F, of_nat (unat hz * 16384 div 5000)])
         else None)
      else if kind = 3 then Some (Modbus_Write 0 0x7015 [hz])
      else if kind = 4 then Some (Modbus_Write 0 0x3000 [hz])
      else None)"

lemma length_with_crc [simp]: "length (with_crc b) = length b + 2"
  by (simp add: with_crc_def Let_def)

lemma modbus_parse_with_crc: "modbus_parse (with_crc b) = modbus_body b"
  using crc_residue [of b] by (simp add: modbus_parse_def with_crc_def Let_def)

lemma send_both_parsed:
  assumes "usart_inv s" "modbus_body b = Some w" "length b \<le> 13"
  shows "\<exists>f. modbus_parse f = Some w \<and> frame_sent s f (uart4_send (uart2_send (load_frame (with_crc b) s)))"
  using send_both_sent [of s "with_crc b"] assms modbus_parse_with_crc [of b] by auto

lemma drive_registers [simp]:
  "mk16 0x01 0xFA = 0xFA01" "mk16 0x01 0x20 = 0x2001" "mk16 0x63 0x00 = 0x0063" "mk16 0x02 0x00 = 2"
  "mk16 0x7F 0x04 = 0x047F" "mk16 0x15 0x70 = 0x7015" "mk16 0x00 0x30 = 0x3000"
  by (simp_all add: mk16_def)

lemma ServoFreqSet_drive:
  assumes "usart_inv s"
  shows "case drive_request (inverter_type s) hz of
      Some w \<Rightarrow> \<exists>s' f. ServoFreqSet hz s = Inr s' \<and> modbus_parse f = Some w \<and> frame_sent s f s'
    | None \<Rightarrow> ServoFreqSet hz s = (if inverter_type s = 2 then Inl Undefined else Inr s)"
  using assms
  by (auto simp: ServoFreqSet_def drive_request_def siemens_scale_eq split: if_splits
      intro!: send_both_parsed)

section \<open>Properties\<close>

text \<open>C27: \<open>ServoFreqSet\<close> tells the inverter to run at the frequency it was given: for each of the
  five inverter types and every frequency the type can represent, the frame started on both
  RS485 ports, the direction pins set first, is one the drive accepts and reads as the write of
  that frequency to its frequency register, and it is kept for the WCS; for the Siemens drive the
  value is exactly \<open>hz * 16384 / 5000\<close> rounded down, the rounding of the two double operations
  included. An unknown type sends nothing, and the conversion for the Siemens drive is undefined
  from 200 Hz on.\<close>

theorem servo_freq_reaches_drive:
  assumes "usart_inv s"
  shows "case drive_request (inverter_type s) hz of
      Some w \<Rightarrow> \<exists>s' f. ServoFreqSet hz s = Inr s' \<and> modbus_parse f = Some w \<and> frame_sent s f s'
    | None \<Rightarrow> ServoFreqSet hz s = (if inverter_type s = 2 then Inl Undefined else Inr s)"
  by (rule ServoFreqSet_drive [OF assms])

definition usart_bss :: usart_st where
  "usart_bss = (let u = \<lparr>send_buff = replicate 100 0, recv_buff = replicate 100 0, send_count = 0,
        recv_count = 0, commu_state = 0, tmr = 0\<rparr>
     in \<lparr>inverter_type = 0, uart4 = u, uart5 = u, uart2 = u, uart1 = u,
         record_uart2_buff = replicate 20 0, record_uart2_len = 0,
         record_uart4_buff = replicate 20 0, record_uart4_len = 0, uart_log = []\<rparr>)"

theorem servo_freq_reaches_drive_witness:
  "\<exists>s' f. ServoFreqSet 2700 (usart_bss\<lparr>inverter_type := 2\<rparr>) = Inr s'
     \<and> modbus_parse f = Some (Modbus_Write 1 0x63 [0x047F, 8847])
     \<and> frame_sent (usart_bss\<lparr>inverter_type := 2\<rparr>) f s'"
  using servo_freq_reaches_drive [of "usart_bss\<lparr>inverter_type := 2\<rparr>" 2700]
  by (simp add: drive_request_def usart_bss_def usart_inv_def uart_ok_def Let_def)

end
