(* ===== verification/Frame.thy ===== *)
theory Frame
  imports Flt
begin

text \<open>
  The frames exchanged with the warehouse control system (WCS): \<open>fun.h\<close> and the parts of
  \<open>fun.c\<close> that check, decode and build one frame without touching other state. A frame is
  \<open>AA AA\<close>, a four-byte identifier, the total length (two bytes, low byte first), the
  exclusive-or of the bytes from offset 9 on, the message type and the payload.
\<close>

section \<open>Message types\<close>

abbreviation (input) "MSG_NULL_TYPE \<equiv> 0x0000 :: u16"
abbreviation (input) "HEART_MSG_TYPE \<equiv> 0x1150 :: u16"
abbreviation (input) "SEND_MSG_GNDCTRL2WCS_CMD_TYPE \<equiv> 0x1201 :: u16"
abbreviation (input) "REPLY_WCS_GND_VERSION_TYPE \<equiv> 0x1222 :: u16"
abbreviation (input) "SEND_MSG_GNDCTRL2WCS_CMD_INTERVAL_TYPE \<equiv> 0x1223 :: u16"
abbreviation (input) "SEND_UART2_MSG \<equiv> 0xA2A2 :: u16"
abbreviation (input) "SEND_UART4_MSG \<equiv> 0xA4A4 :: u16"
abbreviation (input) "RECV_MSG_WCS2GNDCTRL_PARA_TYPE \<equiv> 0x1220 :: u16"
abbreviation (input) "RECV_MSG_REPAIR_CAR_CMD_TYPE \<equiv> 0x1221 :: u16"
abbreviation (input) "REPLY_RECV_MSG_WCS2GNDCTRL_PARA_TYPE \<equiv> 0x9220 :: u16"
abbreviation (input) "REPLY_RECV_MSG_REPAIR_CAR_CMD_TYPE \<equiv> 0x9221 :: u16"
abbreviation (input) "RECV_MSG_BOOT_CMD_TYPE \<equiv> 0x1F01 :: u16"
abbreviation (input) "REPLY_SEND_MSG_GNDCTRL2WCS_CMD_TYPE \<equiv> 0x9201 :: u16"
abbreviation (input) "CAR_MSG_GNDCTRL2WCS_CMD_INTERVAL_TYPE \<equiv> 0xA1A1 :: u16"

section \<open>Checking a received frame\<close>

text \<open>\<open>for (i = 1; i < len - 9; i++) sum ^= point[9 + i];\<close> with \<open>len - 9\<close> computed in
  \<open>int\<close>, so that a length below 10 runs the loop zero times.\<close>

function xor_loop :: "u8 list \<Rightarrow> nat \<Rightarrow> int \<Rightarrow> u8 \<Rightarrow> u8 result" where
  "xor_loop point i n sm =
     (if int i < n then and_then (rd point (9 + i)) (\<lambda>b. xor_loop point (Suc i) n (sm XOR b))
      else Inr sm)"
  by pat_completeness auto
termination
  by (relation "measure (\<lambda>(point, i, n, sm). nat (n - int i))") auto

declare xor_loop.simps [simp del]

definition recv_msg_check :: "u8 list \<Rightarrow> u16 \<Rightarrow> u8 result" where
  "recv_msg_check point len =
     and_then (rd point 0) (\<lambda>p0. if p0 \<noteq> 0xAA then Inr 0 else
     and_then (rd point 1) (\<lambda>p1. if p1 \<noteq> 0xAA then Inr 0 else
     and_then (rd point 6) (\<lambda>p6. and_then (rd point 7) (\<lambda>p7. if mk16 p6 p7 \<noteq> len then Inr 0 else
     and_then (rd point 9) (\<lambda>p9.
     and_then (xor_loop point 1 (uint len - 9) p9) (\<lambda>sm.
     and_then (rd point 8) (\<lambda>p8. if sm \<noteq> p8 then Inr 0 else Inr 1)))))))"

section \<open>Decoding\<close>

text \<open>\<open>sWCS2GndCtrl_Para_Data\<close> and \<open>sRepairCar_CMD_Data\<close> are packed, and the frame is read
  through a pointer to the structure on a little-endian processor.\<close>

record para_data =
  pd_cmd :: "u8 list"
  pd_max_speed :: flt
  pd_min_speed :: flt
  pd_fwKp :: u32
  pd_fwKi :: u32
  pd_fwKd :: u32
  pd_speed_target :: flt
  pd_speed_factor :: u32
  pd_pe_distance :: u32
  pd_standard_hz :: u16

record repair_data =
  rc_cmd :: "u8 list"
  rc_car_no :: u16
  rc_repair_locate :: u16
  rc_car_tot_num :: u16
  rc_adjust_para :: u16
  rc_standard_hz :: u16

definition u16_at :: "u8 list \<Rightarrow> nat \<Rightarrow> u16" where
  "u16_at b i = mk16 (b ! i) (b ! (i + 1))"

definition u32_at :: "u8 list \<Rightarrow> nat \<Rightarrow> u32" where
  "u32_at b i = mk32 (b ! i) (b ! (i + 1)) (b ! (i + 2)) (b ! (i + 3))"

text \<open>\<open>head->MSG_TYPE\<close>, the last field of \<open>MSG_HEAD_DATA\<close>.\<close>

definition msg_type_at :: "u8 list \<Rightarrow> u16" where
  "msg_type_at point = u16_at point 9"

definition decode_para :: "u8 list \<Rightarrow> para_data" where
  "decode_para point =
     \<lparr>pd_cmd = take 11 point,
      pd_max_speed = flt_of_bits (u32_at point 11),
      pd_min_speed = flt_of_bits (u32_at point 15),
      pd_fwKp = u32_at point 19,
      pd_fwKi = u32_at point 23,
      pd_fwKd = u32_at point 27,
      pd_speed_target = flt_of_bits (u32_at point 31),
      pd_speed_factor = u32_at point 35,
      pd_pe_distance = u32_at point 39,
      pd_standard_hz = u16_at point 43\<rparr>"

definition decode_repair :: "u8 list \<Rightarrow> repair_data" where
  "decode_repair point =
     \<lparr>rc_cmd = take 11 point,
      rc_car_no = u16_at point 11,
      rc_repair_locate = u16_at point 13,
      rc_car_tot_num = u16_at point 15,
      rc_adjust_para = u16_at point 17,
      rc_standard_hz = u16_at point 19\<rparr>"

section \<open>Building a frame\<close>

text \<open>\<open>sum = buf[9]; for (i = 1; i < sendlen - 9; i++) sum ^= buf[9 + i];\<close>\<close>

definition frame_sum :: "u8 list \<Rightarrow> u16 \<Rightarrow> u8" where
  "frame_sum buf sendlen = fold (\<lambda>i s. s XOR buf ! (9 + i)) [1..<unat sendlen - 9] (buf ! 9)"

text \<open>The header every sender writes after the payload.\<close>

definition put_header :: "u8 list \<Rightarrow> u16 \<Rightarrow> u8 \<Rightarrow> u8 list" where
  "put_header buf sendlen sm =
     buf[0 := 0xAA, 1 := 0xAA, 2 := 0x01, 3 := 0x00, 4 := 0x00, 5 := 0x00,
         6 := lo8 sendlen, 7 := hi8 sendlen, 8 := sm]"

definition finish_frame :: "u8 list \<Rightarrow> u16 \<Rightarrow> u8 list" where
  "finish_frame buf sendlen = put_header buf sendlen (frame_sum buf sendlen)"

definition put_type :: "u8 list \<Rightarrow> u16 \<Rightarrow> u8 list" where
  "put_type buf ty = buf[9 := lo8 ty, 10 := hi8 ty]"

definition reply_recv_msg :: "u8 list \<Rightarrow> u16 \<Rightarrow> u8 list \<times> u16" where
  "reply_recv_msg buf ty =
     (buf[0 := 0xAA, 1 := 0xAA, 2 := 0x01, 3 := 0x00, 4 := 0x00, 5 := 0x00,
          6 := 0x0B, 7 := 0x00, 8 := lo8 ty XOR hi8 ty, 9 := lo8 ty, 10 := hi8 ty], 11)"

definition send_heart_msg :: "u8 list \<Rightarrow> u16 \<Rightarrow> u8 list \<times> u16" where
  "send_heart_msg buf ty =
     (buf[0 := 0xAA, 1 := 0xAA, 2 := 0x02, 3 := 0x00, 4 := 0x01, 5 := 0x00,
          6 := 0x0B, 7 := 0x00, 8 := lo8 ty XOR hi8 ty, 9 := lo8 ty, 10 := hi8 ty], 11)"

definition send_msg_gnd_version_type :: "u8 list \<Rightarrow> u8 list \<Rightarrow> u16 \<Rightarrow> u8 list \<times> u16" where
  "send_msg_gnd_version_type version buf ty =
     (let sendlen = 11 + 4;
          b = (put_type buf ty)
              [11 := version ! 0, 12 := version ! 1, 13 := version ! 2, 14 := version ! 3]
      in (finish_frame b sendlen, sendlen))"

section \<open>The checksum\<close>

definition xor_sum :: "u8 list \<Rightarrow> u8" where
  "xor_sum xs = foldr (\<lambda>b s. b XOR s) xs 0"

lemma xor_sum_simps [simp]:
  "xor_sum [] = 0" "xor_sum (x # xs) = x XOR xor_sum xs"
  by (simp_all add: xor_sum_def)

lemma xor_sum_append [simp]: "xor_sum (xs @ ys) = xor_sum xs XOR xor_sum ys"
  by (induction xs) (simp_all add: ac_simps)

lemma xor_sum_update:
  "k < length xs \<Longrightarrow> xor_sum (xs[k := v]) = xor_sum xs XOR (xs ! k XOR v)"
proof (induction xs arbitrary: k)
  case Nil
  then show ?case by simp
next
  case (Cons x xs)
  show ?case
  proof (cases k)
    case 0
    have "v XOR xor_sum xs = (x XOR x) XOR (v XOR xor_sum xs)" by simp
    also have "\<dots> = (x XOR xor_sum xs) XOR (x XOR v)" by (simp only: ac_simps)
    finally show ?thesis using 0 by simp
  next
    case (Suc j)
    then show ?thesis using Cons by (simp add: ac_simps)
  qed
qed

text \<open>The bytes the checksum covers: those from offset 9 on, at least one.\<close>

definition summed :: "u8 list \<Rightarrow> u16 \<Rightarrow> u8 list" where
  "summed point len = take (max 1 (unat len - 9)) (drop 9 point)"

lemma fold_xor_nth:
  "i + n \<le> length xs \<Longrightarrow> fold (\<lambda>k s. s XOR xs ! k) [i..<i + n] a = a XOR xor_sum (take n (drop i xs))"
proof (induction n)
  case 0
  then show ?case by simp
next
  case (Suc n)
  then have "take (Suc n) (drop i xs) = take n (drop i xs) @ [xs ! (i + n)]"
    by (simp add: take_Suc_conv_app_nth)
  then show ?case using Suc by (simp add: ac_simps)
qed

lemma fold_shift: "fold (\<lambda>i s. s XOR b ! (9 + i)) [m..<n] a = fold (\<lambda>k s. s XOR b ! k) [9 + m..<9 + n] a"
proof -
  have "[m + k..<n + k] = map (\<lambda>i. i + k) [m..<n]" for k
    by (induction n) auto
  from this [of 9] have "[9 + m..<9 + n] = map (\<lambda>i. 9 + i) [m..<n]"
    by (simp only: add.commute)
  then show ?thesis by (simp add: fold_map comp_def)
qed

lemma frame_sum_summed:
  assumes "10 \<le> length buf" "unat len \<le> length buf"
  shows "frame_sum buf len = xor_sum (summed buf len)"
proof -
  let ?n = "unat len - 9 - 1"
  have drop9: "drop 9 buf = buf ! 9 # drop 10 buf"
    using assms(1) Cons_nth_drop_Suc [of 9 buf] by simp
  have "frame_sum buf len = fold (\<lambda>k s. s XOR buf ! k) [10..<10 + ?n] (buf ! 9)"
    unfolding frame_sum_def fold_shift by (cases "unat len \<le> 9") (simp_all add: Suc_diff_Suc)
  also have "\<dots> = buf ! 9 XOR xor_sum (take ?n (drop 10 buf))"
    using assms by (intro fold_xor_nth) auto
  also have "\<dots> = xor_sum (summed buf len)"
    unfolding summed_def drop9 by (cases "unat len \<le> 9") (simp_all add: take_Cons')
  finally show ?thesis .
qed

lemma xor_loop_fold:
  "9 + nat n \<le> length point \<Longrightarrow>
   xor_loop point i n s = Inr (fold (\<lambda>k s. s XOR point ! (9 + k)) [i..<nat n] s)"
proof (induction point i n s rule: xor_loop.induct)
  case (1 point i n s)
  show ?case
  proof (cases "int i < n")
    case True
    then have i: "i < nat n" and b: "9 + i < length point" using "1.prems" by auto
    have "xor_loop point i n s = xor_loop point (Suc i) n (s XOR point ! (9 + i))"
      using True b by (subst xor_loop.simps) simp
    also have "\<dots> = Inr (fold (\<lambda>k s. s XOR point ! (9 + k)) [Suc i..<nat n] (s XOR point ! (9 + i)))"
      using "1.IH" True "1.prems" by blast
    finally show ?thesis using i by (simp add: upt_conv_Cons)
  next
    case False
    then show ?thesis by (subst xor_loop.simps) simp
  qed
qed

lemma xor_loop_sum:
  assumes "10 \<le> length point" "unat len \<le> length point"
  shows "xor_loop point 1 (uint len - 9) (point ! 9) = Inr (frame_sum point len)"
proof -
  have "nat (uint len - 9) = unat len - 9" by (simp add: nat_diff_split nat_minus_as_int flip: nat_uint_eq)
  then show ?thesis using assms by (simp add: xor_loop_fold frame_sum_def)
qed

definition frame_ok :: "u8 list \<Rightarrow> u16 \<Rightarrow> bool" where
  "frame_ok point len \<longleftrightarrow> point ! 0 = 0xAA \<and> point ! 1 = 0xAA \<and>
     u16_at point 6 = len \<and> xor_sum (summed point len) = point ! 8"

lemma recv_msg_check_frame_ok:
  assumes "10 \<le> length point" "unat len \<le> length point"
  shows "recv_msg_check point len = Inr (if frame_ok point len then 1 else 0)"
proof -
  have "rd point i = Inr (point ! i)" if "i < 10" for i using that assms(1) by simp
  note r = this [of 0] this [of 1] this [of 6] this [of 7] this [of 8] this [of 9]
  show ?thesis
    using assms r unfolding recv_msg_check_def
    by (simp add: xor_loop_sum [simplified] frame_sum_summed frame_ok_def u16_at_def)
qed

lemma length_put_header [simp]: "length (put_header b n c) = length b"
  by (simp add: put_header_def)

lemma length_put_type [simp]: "length (put_type b ty) = length b"
  by (simp add: put_type_def)

lemma length_finish_frame [simp]: "length (finish_frame b n) = length b"
  by (simp add: finish_frame_def)

lemma drop_put_header [simp]: "drop 9 (put_header b n c) = drop 9 b"
  by (simp add: put_header_def)

lemma nth_put_header_payload: "9 \<le> i \<Longrightarrow> put_header b n c ! i = b ! i"
  by (simp add: put_header_def)

lemma nth_finish_frame_payload [simp]: "9 \<le> i \<Longrightarrow> finish_frame b n ! i = b ! i"
  by (simp add: finish_frame_def nth_put_header_payload)

lemma u16_at_finish_frame: "9 \<le> i \<Longrightarrow> u16_at (finish_frame b n) i = u16_at b i"
  by (simp add: u16_at_def)

lemma summed_put_header [simp]: "summed (put_header b n c) m = summed b m"
  by (simp add: summed_def)

lemma finish_frame_ok:
  assumes "10 \<le> unat n" "unat n \<le> length b"
  shows "frame_ok (finish_frame b n) n"
proof -
  let ?h = "put_header b n (frame_sum b n)"
  have len: "9 < length b" "b \<noteq> []" using assms by auto
  have "?h ! 0 = 0xAA" "?h ! 1 = 0xAA" "?h ! 6 = lo8 n" "?h ! 7 = hi8 n" "?h ! 8 = frame_sum b n"
    using len by (simp_all add: put_header_def)
  then show ?thesis
    using assms len frame_sum_summed [of b n] by (simp add: frame_ok_def finish_frame_def u16_at_def)
qed

lemma finish_frame_accepted:
  assumes "10 \<le> unat n" "unat n \<le> length b"
  shows "recv_msg_check (finish_frame b n) n = Inr 1"
  using assms finish_frame_ok [OF assms] by (simp add: recv_msg_check_frame_ok)

text \<open>The two senders that write a constant header build the same frame as the others.\<close>

lemma summed_11:
  assumes "10 < length b"
  shows "summed b 11 = [b ! 9, b ! 10]"
proof -
  have "drop 9 b = b ! 9 # b ! 10 # drop 11 b"
    using assms Cons_nth_drop_Suc [of 9 b] Cons_nth_drop_Suc [of 10 b] by simp
  moreover have "max 1 (unat (11 :: u16) - 9) = Suc (Suc 0)" by simp
  ultimately show ?thesis by (simp only: summed_def) simp
qed

lemma header_11_ok:
  assumes "10 < length b" "b ! 0 = 0xAA" "b ! 1 = 0xAA" "b ! 6 = 0x0B" "b ! 7 = 0"
    "b ! 8 = b ! 9 XOR b ! 10"
  shows "frame_ok b 11"
  using assms by (simp add: frame_ok_def summed_11 u16_at_def mk16_eq_iff lo8_def hi8_def)

lemma reply_frame_ok:
  assumes "10 < length buf"
  shows "frame_ok (fst (reply_recv_msg buf ty)) 11"
proof -
  have "buf \<noteq> []" using assms by auto
  then show ?thesis using assms by (intro header_11_ok) (simp_all add: reply_recv_msg_def)
qed

lemma heart_frame_ok:
  assumes "10 < length buf"
  shows "frame_ok (fst (send_heart_msg buf ty)) 11"
proof -
  have "buf \<noteq> []" using assms by auto
  then show ?thesis using assms by (intro header_11_ok) (simp_all add: send_heart_msg_def)
qed

lemma summed_update:
  assumes "unat len \<le> length b" "9 \<le> j" "j < unat len"
  shows "summed (b[j := v]) len = (summed b len)[j - 9 := v]" and "j - 9 < length (summed b len)"
    and "summed b len ! (j - 9) = b ! j"
  using assms by (auto simp: summed_def drop_update_swap take_update_swap)

lemma summed_update_below: "j < 9 \<Longrightarrow> summed (b[j := v]) len = summed b len"
  by (simp add: summed_def)

lemma built_frames:
  assumes "15 \<le> length buf"
  shows "recv_msg_check (fst (reply_recv_msg buf ty)) (snd (reply_recv_msg buf ty)) = Inr 1
    \<and> recv_msg_check (fst (send_heart_msg buf ty)) (snd (send_heart_msg buf ty)) = Inr 1
    \<and> recv_msg_check (fst (send_msg_gnd_version_type ver buf ty))
          (snd (send_msg_gnd_version_type ver buf ty)) = Inr 1"
proof (intro conjI)
  have len: "length (fst (reply_recv_msg buf ty)) = length buf"
    "length (fst (send_heart_msg buf ty)) = length buf"
    and n: "snd (reply_recv_msg buf ty) = 11" "snd (send_heart_msg buf ty) = 11"
    by (simp_all add: reply_recv_msg_def send_heart_msg_def)
  show "recv_msg_check (fst (reply_recv_msg buf ty)) (snd (reply_recv_msg buf ty)) = Inr 1"
    using assms reply_frame_ok [of buf ty] by (simp add: recv_msg_check_frame_ok len n)
  show "recv_msg_check (fst (send_heart_msg buf ty)) (snd (send_heart_msg buf ty)) = Inr 1"
    using assms heart_frame_ok [of buf ty] by (simp add: recv_msg_check_frame_ok len n)
  show "recv_msg_check (fst (send_msg_gnd_version_type ver buf ty))
           (snd (send_msg_gnd_version_type ver buf ty)) = Inr 1"
    using assms unfolding send_msg_gnd_version_type_def Let_def fst_conv snd_conv
    by (intro finish_frame_accepted) simp_all
qed

section \<open>Properties\<close>

text \<open>C38: \<open>recv_msg_check\<close> stays inside the buffer and decides exactly the frame format: for a
  buffer of at least ten bytes that holds the received length, it returns 1 if and only if the
  frame starts with \<open>AA AA\<close>, its length field is the received length and byte 8 is the
  exclusive-or of the bytes from offset 9 to the end.\<close>

theorem recv_msg_check_decides:
  assumes "10 \<le> length point" "unat len \<le> length point"
  shows "recv_msg_check point len = Inr (if point ! 0 = 0xAA \<and> point ! 1 = 0xAA \<and>
           u16_at point 6 = len \<and> point ! 8 = xor_sum (take (max 1 (unat len - 9)) (drop 9 point))
         then 1 else 0)"
  using recv_msg_check_frame_ok [OF assms] by (auto simp: frame_ok_def summed_def)

theorem recv_msg_check_decides_witness:
  "recv_msg_check [0xAA, 0xAA, 1, 0, 0, 0, 11, 0, 0x42, 0x50, 0x12] 11 = Inr 1"
  by (subst recv_msg_check_decides) (simp_all add: u16_at_def mk16_eq_iff lo8_def hi8_def)

text \<open>Every frame the firmware builds is accepted by its own check: the acknowledgements, the
  heartbeat and the version report, for every message type and every previous buffer content.\<close>

theorem built_frames_accepted:
  assumes "15 \<le> length buf"
  shows "recv_msg_check (fst (reply_recv_msg buf ty)) (snd (reply_recv_msg buf ty)) = Inr 1
    \<and> recv_msg_check (fst (send_heart_msg buf ty)) (snd (send_heart_msg buf ty)) = Inr 1
    \<and> recv_msg_check (fst (send_msg_gnd_version_type ver buf ty))
          (snd (send_msg_gnd_version_type ver buf ty)) = Inr 1"
  using assms by (rule built_frames)

theorem built_frames_accepted_witness:
  "recv_msg_check (fst (reply_recv_msg (replicate 1500 0) 0x9220))
     (snd (reply_recv_msg (replicate 1500 0) 0x9220)) = Inr 1"
  by (rule built_frames_accepted [THEN conjunct1]) simp

text \<open>C39: A single corrupted byte is always detected: changing one byte of an accepted frame,
  anywhere but in the four identifier bytes, makes \<open>recv_msg_check\<close> reject it.\<close>

theorem corrupted_byte_rejected:
  assumes len: "10 \<le> unat len" "unat len \<le> length point"
    and acc: "recv_msg_check point len = Inr 1"
    and j: "j < unat len" "j \<notin> {2, 3, 4, 5}" and v: "v \<noteq> point ! j"
  shows "recv_msg_check (point[j := v]) len = Inr 0"
proof -
  have len': "10 \<le> length point" using len by simp
  have ok: "frame_ok point len"
    using acc recv_msg_check_frame_ok [OF len' len(2)] by (simp split: if_splits)
  have "\<not> frame_ok (point[j := v]) len"
  proof (cases "9 \<le> j")
    case True
    note u = summed_update [OF len(2) True j(1)]
    have "xor_sum (summed (point[j := v]) len) = xor_sum (summed point len) XOR (point ! j XOR v)"
      using u(3) by (simp add: u(1) xor_sum_update [OF u(2)])
    moreover have "point ! j XOR v \<noteq> 0" using v by (metis xor_cancel xor.right_neutral)
    ultimately have "xor_sum (summed (point[j := v]) len) \<noteq> xor_sum (summed point len)"
      by (metis xor.right_neutral xor_eq_iff)
    then show ?thesis using ok True by (simp add: frame_ok_def)
  next
    case False
    then have "j = 0 \<or> j = 1 \<or> j = 6 \<or> j = 7 \<or> j = 8" using j by (simp; linarith)
    moreover have "u16_at point 6 = len" using ok by (simp add: frame_ok_def)
    moreover have "point \<noteq> []" using len' by auto
    ultimately show ?thesis
      using ok v len' by (auto simp: frame_ok_def summed_update_below u16_at_def mk16_eq_iff)
  qed
  then show ?thesis using recv_msg_check_frame_ok [of "point[j := v]" len] len len' by simp
qed

theorem corrupted_byte_rejected_witness:
  "recv_msg_check ([0xAA, 0xAA, 1, 0, 0, 0, 11, 0, 0x42, 0x50, 0x12][9 := 0x51]) 11 = Inr 0"
  by (rule corrupted_byte_rejected)
     (simp_all add: recv_msg_check_frame_ok frame_ok_def summed_def u16_at_def mk16_eq_iff lo8_def hi8_def)

end
