(* ===== verification/SpeedCtrl.thy ===== *)
theory SpeedCtrl
  imports Usart Frame
begin

text \<open>
  \<open>speed_ctrl.c\<close>: the PID controller that turns the time a car needs between two photoelectric
  switches into the frequency of the inverter. \<open>speed_st\<close> extends \<open>usart_st\<close> with the globals of
  the file and those of \<open>main.c\<close>, \<open>timExti.c\<close> and \<open>fun.c\<close> it uses. A \<open>float\<close> is a \<open>flt\<close>; products
  and sums of two floats round to \<open>single\<close>, a constant or an integer operand converts as C
  prescribes, and the casts to \<open>int\<close> are undefined out of range.
\<close>

section \<open>State\<close>

record speed_st = usart_st +
  max_speed :: flt
  min_speed :: flt
  fwKp :: flt
  fwKi :: flt
  fwKd :: flt
  speed_target :: flt
  speed_factor :: int
  pe_distance :: int
  fwErr0 :: flt                 \<comment> \<open>\<open>fwErr[0]\<close>\<close>
  fwErr1 :: flt                 \<comment> \<open>\<open>fwErr[1]\<close>\<close>
  fwErrD :: flt
  fwErrI :: flt
  fwbV :: flt
  fwbVLast :: flt
  fwHz :: int
  servo_hz :: u16
  wcs2GndParaData :: para_data
  adjust_stage_flag :: u8
  first_stage_cnt :: u16
  first_stage_hz :: u16
  second_stage_cnt :: u16
  second_stage_hz :: u16

abbreviation (input) "fwErrIMax \<equiv> Fin (1 / 4)"
abbreviation (input) "fwOutHzMax \<equiv> 5000 :: int"

text \<open>A decimal literal without suffix has type \<open>double\<close>.\<close>

abbreviation dlit :: "rat \<Rightarrow> flt" where
  "dlit \<equiv> fround double"

section \<open>Operations\<close>

definition RS485_OUT :: "int \<Rightarrow> 'a speed_st_scheme \<Rightarrow> 'a speed_st_scheme result" where
  "RS485_OUT val s = (let s = s\<lparr>servo_hz := word_of_int val\<rparr> in ServoFreqSet (word_of_int val) s)"

definition fwInitServo :: "'a speed_st_scheme \<Rightarrow> (int \<times> 'a speed_st_scheme) result" where
  "fwInitServo s =
     (let p = wcs2GndParaData s;
          s = s\<lparr>speed_factor := 2000, fwbV := Fin 0, fwbVLast := Fin 0, fwErr0 := Fin 0, fwErr1 := Fin 0,
                fwErrI := Fin 0, fwErrD := Fin 0, fwHz := 0,
                adjust_stage_flag := 0, first_stage_cnt := 0, second_stage_cnt := 0\<rparr>;
          s = s\<lparr>max_speed := pd_max_speed p, min_speed := pd_min_speed p,
                fwKp := flt_of_int single (uint (pd_fwKp p)),
                fwKi := flt_of_int single (uint (pd_fwKi p)),
                fwKd := flt_of_int single (uint (pd_fwKd p)),
                speed_target := pd_speed_target p,
                speed_factor := sint (pd_speed_factor p),
                pe_distance := sint (pd_pe_distance p),
                second_stage_hz := pd_standard_hz p\<rparr>
      in and_then (to_int32 (fmul single (speed_target s) (flt_of_int single (speed_factor s)))) (\<lambda>hz.
         let h = word_of_int hz :: u16;
             h = (if uint h > fwOutHzMax then word_of_int fwOutHzMax else h)
         in Inr (uint h, s\<lparr>first_stage_hz := h,
              fwHz := (if second_stage_hz s = 0 then uint h else uint (second_stage_hz s))\<rparr>)))"

text \<open>\<open>fwErrCalculate\<close> in its three parts: the speed and its error, the difference of the last two
  errors, and the integral of the errors.\<close>

definition err_speed :: "int \<Rightarrow> 'a speed_st_scheme \<Rightarrow> 'a speed_st_scheme" where
  "err_speed pe_time s =
     (let v = fdiv single (flt_of_int single (pe_distance s)) (flt_of_int single pe_time)
      in s\<lparr>fwbV := v, fwErr0 := fwErr1 s, fwErr1 := fsub single (speed_target s) v\<rparr>)"

definition err_difference :: "'a speed_st_scheme \<Rightarrow> 'a speed_st_scheme" where
  "err_difference s =
     (let d = fsub single (fwErr1 s) (fwErr0 s);
          d = (if flt_less (dlit (1 / 10)) (fabs d) then Fin 0 else d);
          d = (if flt_eq (fwErr0 s) (Fin 0) \<or> flt_eq (fwErr0 s) (fwErr1 s) then Fin 0 else d)
      in s\<lparr>fwErrD := d\<rparr>)"

definition err_integral :: "'a speed_st_scheme \<Rightarrow> 'a speed_st_scheme" where
  "err_integral s =
     (if flt_le (fabs (fwErr1 s)) fwErrIMax
            \<and> flt_le (fabs fwErrIMax) (fabs (fwErrI s))
            \<and> flt_less (Fin 0) (fmul single (fwErrI s) (fwErr1 s))
      then s
      else
        let i = (if flt_le (fabs (fwErr1 s)) fwErrIMax then
                   let i = fadd single (fwErrI s) (fwErr1 s) in
                   if flt_le fwErrIMax (fabs i) then
                     (if flt_less (Fin 0) i then fwErrIMax else fneg fwErrIMax)
                   else i
                 else Fin 0);
            i = (if flt_less (fmul single (fwErr0 s) (fwErr1 s)) (Fin 0) then Fin 0 else i)
        in s\<lparr>fwErrI := i\<rparr>)"

definition fwErrCalculate :: "int \<Rightarrow> 'a speed_st_scheme \<Rightarrow> 'a speed_st_scheme" where
  "fwErrCalculate pe_time s = err_integral (err_difference (err_speed pe_time s))"

text \<open>\<open>fwHz + fwKp * fwErr[1] * gain + fwKi * fwErrI + fwKd * fwErrD\<close>: the products of two floats
  are floats, everything else is computed in \<open>double\<close>.\<close>

definition pid_sum :: "flt \<Rightarrow> 'a speed_st_scheme \<Rightarrow> flt" where
  "pid_sum gain s =
     fadd double (fadd double
       (fadd double (flt_of_int double (fwHz s))
          (fmul double (flt_conv double (fmul single (fwKp s) (fwErr1 s))) gain))
       (flt_conv double (fmul single (fwKi s) (fwErrI s))))
     (flt_conv double (fmul single (fwKd s) (fwErrD s)))"

definition set_fwHz :: "flt \<Rightarrow> 'a speed_st_scheme \<Rightarrow> 'a speed_st_scheme result" where
  "set_fwHz v s = and_then (to_int32 v) (\<lambda>hz. Inr (s\<lparr>fwHz := hz\<rparr>))"

text \<open>The if-else chain for a speed above the target.\<close>

definition pid_below :: "'a speed_st_scheme \<Rightarrow> 'a speed_st_scheme result" where
  "pid_below s =
     (if flt_less (fwErr1 s) (dlit (- 5 / 10)) then set_fwHz (pid_sum (dlit 20) s) s
      else if flt_less (fwErr1 s) (dlit (- 30 / 100)) then set_fwHz (pid_sum (dlit 15) s) s
      else if flt_less (fwErr1 s) (dlit (- 20 / 100)) then set_fwHz (pid_sum (dlit 2) s) s
      else if flt_less (fwErr1 s) (dlit (- 15 / 100)) then set_fwHz (pid_sum (dlit (15 / 10)) s) s
      else if flt_less (fwErr1 s) (dlit (- 10 / 100)) then set_fwHz (pid_sum (dlit 1) s) s
      else if flt_less (fwErr1 s) (dlit (- 5 / 100)) then set_fwHz (pid_sum (dlit (9 / 10)) s) s
      else if flt_less (fwErr1 s) (dlit (- 3 / 100)) then set_fwHz (pid_sum (dlit (8 / 10)) s) s
      else if flt_less (fwErr1 s) (dlit (- 1 / 100)) then set_fwHz (pid_sum (dlit (7 / 10)) s) s
      else if flt_less (fwErr1 s) (Fin 0) then set_fwHz (pid_sum (dlit (6 / 10)) s) s
      else Inr s)"

definition pid_above :: "'a speed_st_scheme \<Rightarrow> 'a speed_st_scheme result" where
  "pid_above s =
     (if flt_le (dlit (5 / 100)) (fwErr1 s)
      then set_fwHz (fadd double (pid_sum (dlit (3 / 10)) s) (dlit (5 / 10))) s else Inr s)"

definition pid_near :: "'a speed_st_scheme \<Rightarrow> 'a speed_st_scheme result" where
  "pid_near s =
     (if flt_less (Fin 0) (fwErr1 s) \<and> flt_less (fwErr1 s) (dlit (5 / 100))
      then set_fwHz (fadd double (pid_sum (dlit (6 / 10)) s) (dlit 1)) s else Inr s)"

definition pid_clamp :: "'a speed_st_scheme \<Rightarrow> 'a speed_st_scheme" where
  "pid_clamp s =
     (let s = (if flt_le (fabs (fwErr1 s)) (dlit (1 / 1000)) \<and> flt_le (fabs (fwErrD s)) (Fin 1)
               then s\<lparr>fwErrI := Fin 0\<rparr> else s);
          s = (if fwHz s > fwOutHzMax then s\<lparr>fwHz := fwOutHzMax\<rparr> else s)
      in if fwHz s < 0 then s\<lparr>fwHz := 0\<rparr> else s)"

definition fwPIDctrl :: "int \<Rightarrow> 'a speed_st_scheme \<Rightarrow> 'a speed_st_scheme result" where
  "fwPIDctrl pe_time s =
     and_then (pid_below (fwErrCalculate pe_time s)) (\<lambda>s.
     and_then (pid_above s) (\<lambda>s.
     and_then (pid_near s) (\<lambda>s.
     let s = pid_clamp s in RS485_OUT (fwHz s) s)))"

section \<open>Arithmetic of one PID step\<close>

text \<open>\<open>pid_sum\<close> is the exact sum up to the rounding of its first product, whose magnitude is at
  most \<open>P\<close>.\<close>

lemma product_approx:
  assumes kp: "fwKp s = Fin kp" "fwErr1 s = Fin e" and P: "\<bar>kp * e\<bar> \<le> P" "P \<le> 2 ^ 26"
    and g: "approx gain g (1 / 2 ^ 48)" "\<bar>g\<bar> \<le> 20"
  shows "approx (fmul double (flt_conv double (fmul single (fwKp s) (fwErr1 s))) gain)
           (kp * e * g) (3 * P / 2 ^ 20 + 1 / 2 ^ 14)"
proof -
  have P0: "0 \<le> P" using P(1) by linarith
  have "approx (fmul single (fwKp s) (fwErr1 s)) (kp * e) ((P + 1) / 2 ^ 24)"
    using kp approx_single [OF P(1)] P(2) by simp
  then have "approx (flt_conv double (fmul single (fwKp s) (fwErr1 s))) (kp * e)
      ((P + 1) / 2 ^ 24 + (P + (P + 1) / 2 ^ 24 + 1) / 2 ^ 53)"
    by (rule approx_conv_double [OF _ P(1)]) (use P0 P(2) in \<open>simp add: field_simps\<close>)
  then have c: "approx (flt_conv double (fmul single (fwKp s) (fwErr1 s))) (kp * e) (P / 2 ^ 23 + 1 / 2 ^ 20)"
    by (rule approx_mono) (use P0 in \<open>simp add: field_simps\<close>)
  let ?d = "P / 2 ^ 23 + 1 / 2 ^ 20" and ?b = "20 + 1 / 2 ^ 48 :: rat"
  have "(P + ?d) * ?b \<le> (2 ^ 27) * 21" using P P0 by (intro mult_mono) simp_all
  then have small: "(P + ?d) * ?b \<le> 2 ^ 99" by (rule order_trans) simp
  have "?d * ?b + P * (1 / 2 ^ 48) + ((P + ?d) * ?b + 1) / 2 ^ 53 \<le> 3 * P / 2 ^ 20 + 1 / 2 ^ 14"
    using P0 by (simp add: field_simps)
  then show ?thesis by (rule approx_mono [OF approx_fmul_double [OF c g(1) P(1) g(2) small]])
qed

lemma term_approx:
  assumes "x = Fin a" "y = Fin b" "\<bar>a * b\<bar> \<le> 1024"
  shows "approx (flt_conv double (fmul single x y)) (a * b) (1 / 2 ^ 12)"
proof -
  have "approx (fmul single x y) (a * b) ((1024 + 1) / 2 ^ 24)"
    using assms approx_single [OF assms(3)] by simp
  then have "approx (flt_conv double (fmul single x y)) (a * b)
      ((1024 + 1) / 2 ^ 24 + (1024 + (1024 + 1) / 2 ^ 24 + 1) / 2 ^ 53)"
    by (rule approx_conv_double [OF _ assms(3)]) simp
  then show ?thesis by (rule approx_mono) simp
qed

lemma pid_sum_approx:
  assumes kp: "fwKp s = Fin kp" "fwErr1 s = Fin e" and P: "\<bar>kp * e\<bar> \<le> P" "P \<le> 2 ^ 26"
    and ki: "fwKi s = Fin ki" "fwErrI s = Fin i" "\<bar>ki * i\<bar> \<le> 1024"
    and kd: "fwKd s = Fin kd" "fwErrD s = Fin d" "\<bar>kd * d\<bar> \<le> 1024"
    and hz: "0 \<le> fwHz s" "fwHz s \<le> 65535"
    and g: "approx gain g (1 / 2 ^ 48)" "\<bar>g\<bar> \<le> 20"
  shows "approx (pid_sum gain s) (of_int (fwHz s) + kp * e * g + ki * i + kd * d) (P / 2 ^ 17 + 1 / 2 ^ 8)"
proof -
  have P0: "0 \<le> P" using P(1) by linarith
  have kpg: "\<bar>kp * e * g\<bar> \<le> P * 20" using abs_mult_le [OF P(1) g(2)] .
  have h: "approx (flt_of_int double (fwHz s)) (of_int (fwHz s)) 0"
    using hz by (simp add: double_int_exact approx_Fin)
  have hb: "\<bar>of_int (fwHz s) :: rat\<bar> \<le> 65535"
    using hz by (metis abs_of_nonneg of_int_abs of_int_le_iff of_int_numeral)
  let ?e1 = "0 + (3 * P / 2 ^ 20 + 1 / 2 ^ 14) + (65535 + 0 + P * 20 + (3 * P / 2 ^ 20 + 1 / 2 ^ 14) + 1) / 2 ^ 53"
  have s1: "approx (fadd double (flt_of_int double (fwHz s))
       (fmul double (flt_conv double (fmul single (fwKp s) (fwErr1 s))) gain))
     (of_int (fwHz s) + kp * e * g) ?e1"
    by (rule approx_fadd_double [OF h product_approx [OF kp P g] hb kpg]) (use P in simp)
  have e1: "?e1 \<le> P / 2 ^ 18 + 1 / 2 ^ 10" using P0 by (simp add: field_simps)
  note s1' = approx_mono [OF s1 e1]
  have b1: "\<bar>of_int (fwHz s) + kp * e * g\<bar> \<le> 65535 + P * 20" using hb kpg by linarith
  let ?d2 = "P / 2 ^ 18 + 1 / 2 ^ 10" and ?t = "1 / 2 ^ 12 :: rat"
  have b1: "\<bar>of_int (fwHz s) + kp * e * g\<bar> \<le> 65535 + P * 20" using hb kpg by linarith
  have s2: "approx (fadd double (fadd double (flt_of_int double (fwHz s))
       (fmul double (flt_conv double (fmul single (fwKp s) (fwErr1 s))) gain))
       (flt_conv double (fmul single (fwKi s) (fwErrI s))))
     (of_int (fwHz s) + kp * e * g + ki * i)
     (?d2 + ?t + (65535 + P * 20 + ?d2 + 1024 + ?t + 1) / 2 ^ 53)"
    by (rule approx_fadd_double [OF s1' term_approx [OF ki] b1 ki(3)]) (use P in simp)
  have e2: "?d2 + ?t + (65535 + P * 20 + ?d2 + 1024 + ?t + 1) / 2 ^ 53 \<le> P / 2 ^ 18 + P / 2 ^ 40 + 1 / 2 ^ 9"
    using P0 by (simp add: field_simps)
  note s2' = approx_mono [OF s2 e2]
  have b2: "\<bar>of_int (fwHz s) + kp * e * g + ki * i\<bar> \<le> 65535 + P * 20 + 1024" using b1 ki(3) by linarith
  let ?d3 = "P / 2 ^ 18 + P / 2 ^ 40 + 1 / 2 ^ 9"
  have s3: "approx (pid_sum gain s) (of_int (fwHz s) + kp * e * g + ki * i + kd * d)
     (?d3 + ?t + (65535 + P * 20 + 1024 + ?d3 + 1024 + ?t + 1) / 2 ^ 53)"
    unfolding pid_sum_def
    by (rule approx_fadd_double [OF s2' term_approx [OF kd] b2 kd(3)]) (use P in simp)
  show ?thesis by (rule approx_mono [OF s3]) (use P0 in \<open>simp add: field_simps\<close>)
qed

section \<open>The error terms\<close>

lemmas err_defs = err_speed_def err_difference_def err_integral_def fwErrCalculate_def

lemma err_part_frames [simp]:
  "fwErr1 (err_integral s) = fwErr1 s" "fwErrD (err_integral s) = fwErrD s"
  "fwErr1 (err_difference s) = fwErr1 s" "fwErrI (err_difference s) = fwErrI s"
  "fwErrI (err_speed t s) = fwErrI s"
  by (simp_all add: err_defs Let_def)

lemma err_frames [simp]:
  "fwKp (fwErrCalculate t s) = fwKp s" "fwKi (fwErrCalculate t s) = fwKi s"
  "fwKd (fwErrCalculate t s) = fwKd s" "fwHz (fwErrCalculate t s) = fwHz s"
  "speed_target (fwErrCalculate t s) = speed_target s" "pe_distance (fwErrCalculate t s) = pe_distance s"
  "inverter_type (fwErrCalculate t s) = inverter_type s" "uart_log (fwErrCalculate t s) = uart_log s"
  "usart_inv (fwErrCalculate t s) = usart_inv s" "speed_st.more (fwErrCalculate t s) = speed_st.more s"
  by (simp_all add: fwErrCalculate_def err_integral_def, simp_all add: err_difference_def err_speed_def Let_def usart_inv_def)

lemma fwErr1_calc: "fwErr1 (fwErrCalculate t s) =
    fsub single (speed_target s) (fdiv single (flt_of_int single (pe_distance s)) (flt_of_int single t))"
  by (simp add: fwErrCalculate_def) (simp add: err_speed_def Let_def)

lemma fround_not_NaN [simp]: "fround f x \<noteq> NaN"
  by (simp add: fround_def Let_def)

lemma err_integral_bound:
  assumes "flt_le (fabs (fwErrI s)) fwErrIMax"
  shows "flt_le (fabs (fwErrI (err_integral s))) fwErrIMax"
proof -
  obtain i where i: "fwErrI s = Fin i" "\<bar>i\<bar> \<le> 1 / 4"
    using assms by (cases "fwErrI s") (auto simp: flt_le_def)
  have k: "flt_le (fabs k) fwErrIMax" if "\<not> flt_le fwErrIMax (fabs k)" "k \<noteq> NaN" for k
    using that by (cases k) (auto simp: flt_le_def)
  have nn: "fadd single (fwErrI s) e \<noteq> NaN" if "flt_le (fabs e) fwErrIMax" for e
    using that i by (cases e) (simp_all add: flt_le_def)
  show ?thesis
  proof (cases "flt_le (fabs (fwErr1 s)) fwErrIMax")
    case True
    then show ?thesis
      using assms k [OF _ nn [OF True]] by (simp add: err_integral_def Let_def) (simp add: flt_le_def)
  next
    case False
    then show ?thesis by (simp add: err_integral_def Let_def) (simp add: flt_le_def)
  qed
qed

lemma fwErrI_windup:
  "flt_le (fabs (fwErrI s)) fwErrIMax \<Longrightarrow> flt_le (fabs (fwErrI (fwErrCalculate t s))) fwErrIMax"
  by (simp add: fwErrCalculate_def err_integral_bound)

section \<open>The operating range\<close>

text \<open>Gains up to 1000, a target of at most 100 m/s, switches at most 1 m apart, and a state a
  previous step can have left.\<close>

definition pid_ready :: "'a speed_st_scheme \<Rightarrow> bool" where
  "pid_ready s \<longleftrightarrow> approx (fwKp s) 0 1000 \<and> approx (fwKi s) 0 1000 \<and> approx (fwKd s) 0 1000
     \<and> approx (speed_target s) 0 100 \<and> 0 \<le> pe_distance s \<and> pe_distance s \<le> 1000000
     \<and> approx (fwErr1 s) 0 20200 \<and> approx (fwErrI s) 0 (1 / 4) \<and> 0 \<le> fwHz s \<and> fwHz s \<le> 65535"

text \<open>The times the photoelectric switches can report, in microseconds.\<close>

definition pe_time_ok :: "int \<Rightarrow> bool" where
  "pe_time_ok t \<longleftrightarrow> 50 \<le> t \<and> t \<le> 3276750"

lemma within_flt_le: "approx x 0 (1 / 4) \<longleftrightarrow> flt_le (fabs x) fwErrIMax"
  by (cases x) (auto simp: approx_def flt_le_def)

lemma fwErr1_within:
  assumes "pid_ready s" "pe_time_ok t"
  shows "approx (fwErr1 (fwErrCalculate t s)) 0 20200"
proof -
  obtain x where x: "speed_target s = Fin x" "\<bar>x\<bar> \<le> 100"
    using assms(1) by (auto simp: pid_ready_def approx_def)
  define q where "q = (of_int (pe_distance s) / of_int t :: rat)"
  have d: "0 \<le> pe_distance s" "pe_distance s \<le> 1000000" and t: "50 \<le> t" "t \<le> 3276750"
    using assms by (simp_all add: pid_ready_def pe_time_ok_def)
  have dr: "0 \<le> (of_int (pe_distance s) :: rat)" "(of_int (pe_distance s) :: rat) \<le> 1000000"
    "50 \<le> (of_int t :: rat)"
    using d t by (simp, metis of_int_le_iff of_int_numeral, metis of_int_le_iff of_int_numeral)
  then have "of_int (pe_distance s) / of_int t \<le> (1000000 / 50 :: rat)"
    by (intro frac_le) simp_all
  then have qb: "\<bar>q\<bar> \<le> 20000" using dr unfolding q_def by simp
  have "fdiv single (flt_of_int single (pe_distance s)) (flt_of_int single t) = fround single q"
    using d t by (simp add: single_int_exact q_def)
  moreover obtain v where v: "fround single q = Fin v" "\<bar>v - q\<bar> \<le> (20000 + 1) / 2 ^ 24"
    using approx_single [OF qb] by (auto elim: approxE)
  ultimately have e: "fwErr1 (fwErrCalculate t s) = fround single (x - v)"
    by (simp add: fwErr1_calc x fsub_def)
  have "(20000 + 1) / 2 ^ 24 \<le> (1 :: rat)" by simp
  then have "\<bar>x - v\<bar> \<le> 20101" using qb v x by linarith
  then show ?thesis
    unfolding e using approx_within [OF approx_single [of "x - v" 20101], of 20101 20200] by simp
qed

lemma fwErrD_calc: "fwErrD (fwErrCalculate t s) =
    (let e = fwErr1 (fwErrCalculate t s); d = fsub single e (fwErr1 s);
         d = (if flt_less (dlit (1 / 10)) (fabs d) then Fin 0 else d)
     in if flt_eq (fwErr1 s) (Fin 0) \<or> flt_eq (fwErr1 s) e then Fin 0 else d)"
  by (simp add: fwErrCalculate_def) (simp add: err_speed_def err_difference_def Let_def)

lemma fwErrD_within:
  assumes "pid_ready s" "pe_time_ok t"
  shows "approx (fwErrD (fwErrCalculate t s)) 0 (11 / 100)"
proof -
  obtain e where e: "fwErr1 (fwErrCalculate t s) = Fin e" "\<bar>e\<bar> \<le> 20200"
    using fwErr1_within [OF assms] by (auto elim: approxE)
  obtain p where p: "fwErr1 s = Fin p" "\<bar>p\<bar> \<le> 20200"
    using assms(1) by (auto simp: pid_ready_def elim: approxE)
  have "\<bar>e - p\<bar> \<le> 40400" using e p by linarith
  then obtain d where d: "fround single (e - p) = Fin d"
    using approx_single [of "e - p" 40400] by (auto elim: approxE)
  obtain c where c: "dlit (1 / 10) = Fin c" "\<bar>c - 1 / 10\<bar> \<le> 1 / 2 ^ 48"
    using dlit_approx [of "1 / 10"] by (auto elim: approxE)
  have "1 / 2 ^ 48 \<le> (1 / 100 :: rat)" by simp
  then have "c \<le> 11 / 100" using c(2) by linarith
  then show ?thesis
    by (auto simp: fwErrD_calc e p d c fsub_def approx_Fin Let_def)
qed

lemma fwErrI_within:
  "pid_ready s \<Longrightarrow> approx (fwErrI (fwErrCalculate t s)) 0 (1 / 4)"
  by (simp add: pid_ready_def within_flt_le fwErrI_windup)

section \<open>The step as a law\<close>

text \<open>The gain and the rounding offset \<open>fwPIDctrl\<close> applies to an error; none for the error 0.\<close>

definition pid_gain :: "flt \<Rightarrow> (rat \<times> rat) option" where
  "pid_gain e =
     (if flt_less e (dlit (- 5 / 10)) then Some (20, 0)
      else if flt_less e (dlit (- 30 / 100)) then Some (15, 0)
      else if flt_less e (dlit (- 20 / 100)) then Some (2, 0)
      else if flt_less e (dlit (- 15 / 100)) then Some (15 / 10, 0)
      else if flt_less e (dlit (- 10 / 100)) then Some (1, 0)
      else if flt_less e (dlit (- 5 / 100)) then Some (9 / 10, 0)
      else if flt_less e (dlit (- 3 / 100)) then Some (8 / 10, 0)
      else if flt_less e (dlit (- 1 / 100)) then Some (7 / 10, 0)
      else if flt_less e (Fin 0) then Some (6 / 10, 0)
      else if flt_le (dlit (5 / 100)) e then Some (3 / 10, 5 / 10)
      else if flt_less (Fin 0) e then Some (6 / 10, 1)
      else None)"

definition pid_law :: "'a speed_st_scheme \<Rightarrow> rat \<Rightarrow> rat \<Rightarrow> rat \<Rightarrow> rat \<Rightarrow> rat \<Rightarrow> rat \<Rightarrow> rat" where
  "pid_law s kp e ki i kd d =
     (case pid_gain (Fin e) of
        None \<Rightarrow> of_int (fwHz s)
      | Some (g, off) \<Rightarrow> of_int (fwHz s) + kp * e * g + ki * i + kd * d + off)"

definition pid_update :: "'a speed_st_scheme \<Rightarrow> 'a speed_st_scheme result" where
  "pid_update s = and_then (pid_below s) (\<lambda>s. and_then (pid_above s) pid_near)"

lemma fwPIDctrl_update: "fwPIDctrl t s =
    and_then (pid_update (fwErrCalculate t s)) (\<lambda>s. RS485_OUT (fwHz (pid_clamp s)) (pid_clamp s))"
  by (simp add: fwPIDctrl_def pid_update_def Let_def and_then_assoc)

lemma dlit_neg: "\<bar>q\<bar> \<le> 20 \<Longrightarrow> q \<le> - 1 / 100 \<Longrightarrow> flt_less (Fin e) (dlit q) \<Longrightarrow> e < 0"
proof -
  assume q: "\<bar>q\<bar> \<le> 20" "q \<le> - 1 / 100" "flt_less (Fin e) (dlit q)"
  obtain c where c: "dlit q = Fin c" "\<bar>c - q\<bar> \<le> 1 / 2 ^ 48"
    using dlit_approx [OF q(1)] by (auto elim: approxE)
  have "\<bar>c - q\<bar> < 1 / 100" by (rule le_less_trans [OF c(2)]) simp
  moreover have "e < c" using q(3) c(1) by simp
  ultimately show "e < 0" using q(2) by linarith
qed

lemma dlit_pos: "\<exists>c. dlit (5 / 100) = Fin c \<and> 0 < c"
proof -
  obtain c where c: "dlit (5 / 100) = Fin c" "\<bar>c - 5 / 100\<bar> \<le> 1 / 2 ^ 48"
    using dlit_approx [of "5 / 100"] by (auto elim: approxE)
  have "\<bar>c - 5 / 100\<bar> < 1 / 100" by (rule le_less_trans [OF c(2)]) simp
  then have "0 < c" by linarith
  then show ?thesis using c(1) by blast
qed

lemma set_fwHz_err [simp]: "set_fwHz v s = Inr s' \<Longrightarrow> fwErr1 s' = fwErr1 s"
  by (auto simp: set_fwHz_def and_then_Inr_iff)

definition gain_sum :: "rat \<Rightarrow> rat \<Rightarrow> 'a speed_st_scheme \<Rightarrow> flt" where
  "gain_sum g off s = (if off = 0 then pid_sum (dlit g) s else fadd double (pid_sum (dlit g) s) (dlit off))"

lemma pid_update_negative:
  assumes "fwErr1 s = Fin e" "e < 0"
  shows "pid_update s = pid_below s"
proof -
  obtain c where c: "dlit (5 / 100) = Fin c" "0 < c" using dlit_pos by blast
  have "and_then (pid_above s') pid_near = Inr s'" if "fwErr1 s' = Fin e" for s' :: "'a speed_st_scheme"
    using that assms(2) c by (simp add: pid_above_def pid_near_def flt_le_def)
  moreover have "fwErr1 s' = Fin e" if "pid_below s = Inr s'" for s'
    using that assms(1) by (auto simp: pid_below_def split: if_splits)
  ultimately show ?thesis unfolding pid_update_def by (cases "pid_below s") simp_all
qed

lemma pid_update_nonneg:
  assumes "fwErr1 s = Fin e" "0 \<le> e"
  shows "pid_update s = and_then (pid_above s) pid_near"
proof -
  have "\<not> flt_less (Fin e) (dlit q)" if "\<bar>q\<bar> \<le> 20" "q \<le> - 1 / 100" for q
    using dlit_neg [OF that] assms(2) by fastforce
  then show ?thesis using assms by (simp add: pid_update_def pid_below_def)
qed

lemma pid_update_gain:
  assumes e: "fwErr1 s = Fin e"
  shows "pid_update s = (case pid_gain (Fin e) of None \<Rightarrow> Inr s | Some (g, off) \<Rightarrow> set_fwHz (gain_sum g off s) s)"
proof (cases "e < 0")
  case True
  then show ?thesis
    unfolding pid_update_negative [OF e True] by (simp add: pid_below_def pid_gain_def gain_sum_def e)
next
  case False
  have no: "\<not> flt_less (Fin e) (dlit q)" if "\<bar>q\<bar> \<le> 20" "q \<le> - 1 / 100" for q
    using dlit_neg [OF that] False by fastforce
  obtain c where c: "dlit (5 / 100) = Fin c" "0 < c" using dlit_pos by blast
  have near: "pid_near s' = Inr s'" if "fwErr1 s' = Fin e" "c \<le> e" for s' :: "'a speed_st_scheme"
    using that c by (simp add: pid_near_def)
  show ?thesis
  proof (cases "c \<le> e")
    case True
    then have "pid_update s = set_fwHz (gain_sum (3 / 10) (5 / 10) s) s"
      using pid_update_nonneg [OF e] False c near e
      by (cases "set_fwHz (gain_sum (3 / 10) (5 / 10) s) s")
         (auto simp: pid_above_def flt_le_def gain_sum_def)
    then show ?thesis using True False c by (simp add: pid_gain_def no flt_le_def)
  next
    case no_above: False
    then show ?thesis
      using pid_update_nonneg [OF e] False c e
      by (auto simp: pid_above_def pid_near_def flt_le_def gain_sum_def pid_gain_def no)
  qed
qed

lemma trunc_near: "\<bar>of_int (trunc_rat r) - r\<bar> \<le> 1"
  unfolding trunc_rat_def by (auto simp: abs_le_iff) linarith+

lemma set_fwHz_approx:
  assumes "approx v w d" "\<bar>w\<bar> + d \<le> 2 ^ 31 - 2"
  shows "\<exists>hz. set_fwHz v s = Inr (s\<lparr>fwHz := hz\<rparr>) \<and> \<bar>of_int hz - w\<bar> \<le> 1 + d"
proof -
  obtain r where r: "v = Fin r" "\<bar>r - w\<bar> \<le> d" using assms(1) by (auto elim: approxE)
  have "\<bar>of_int (trunc_rat r) :: rat\<bar> \<le> 2 ^ 31 - 1" using r assms(2) trunc_near [of r] by linarith
  then have "\<bar>of_int (trunc_rat r) :: rat\<bar> \<le> of_int (2 ^ 31 - 1)" by simp
  then have "\<bar>trunc_rat r\<bar> \<le> 2 ^ 31 - 1" by (simp only: of_int_abs [symmetric] of_int_le_iff)
  then have "set_fwHz v s = Inr (s\<lparr>fwHz := trunc_rat r\<rparr>)" by (simp add: set_fwHz_def r abs_le_iff)
  moreover have "\<bar>of_int (trunc_rat r) - w\<bar> \<le> 1 + d" using r trunc_near [of r] by linarith
  ultimately show ?thesis by blast
qed

lemma pid_gain_bounds: "pid_gain e = Some (g, off) \<Longrightarrow> \<bar>g\<bar> \<le> 20 \<and> 0 \<le> off \<and> off \<le> 1"
  by (auto simp: pid_gain_def split: if_splits)

lemma pid_update_law:
  assumes kp: "fwKp s = Fin kp" "fwErr1 s = Fin e" and P: "\<bar>kp * e\<bar> \<le> P" "P \<le> 2 ^ 26"
    and ki: "fwKi s = Fin ki" "fwErrI s = Fin i" "\<bar>ki * i\<bar> \<le> 1024"
    and kd: "fwKd s = Fin kd" "fwErrD s = Fin d" "\<bar>kd * d\<bar> \<le> 1024"
    and hz: "0 \<le> fwHz s" "fwHz s \<le> 65535"
  shows "\<exists>hz. pid_update s = Inr (s\<lparr>fwHz := hz\<rparr>) \<and>
           \<bar>of_int hz - pid_law s kp e ki i kd d\<bar> \<le> 1 + (P / 2 ^ 16 + 1 / 2 ^ 7)"
proof (cases "pid_gain (Fin e)")
  case None
  have "0 \<le> P" using P(1) by linarith
  with None show ?thesis by (intro exI [of _ "fwHz s"]) (simp add: pid_update_gain [OF kp(2)] pid_law_def)
next
  case (Some go)
  then obtain g off where go: "pid_gain (Fin e) = Some (g, off)" by (cases go) auto
  note gb = pid_gain_bounds [OF go]
  have P0: "0 \<le> P" using P(1) by linarith
  have hb: "\<bar>of_int (fwHz s) :: rat\<bar> \<le> 65535"
    using hz by (metis abs_of_nonneg of_int_abs of_int_le_iff of_int_numeral)
  let ?w = "of_int (fwHz s) + kp * e * g + ki * i + kd * d" and ?d = "P / 2 ^ 17 + 1 / 2 ^ 8"
  have kpg: "\<bar>kp * e * g\<bar> \<le> P * 20" using abs_mult_le [OF P(1)] gb by blast
  have wb: "\<bar>?w\<bar> \<le> 65535 + P * 20 + 2048" using hb kpg ki(3) kd(3) by linarith
  have sm: "approx (pid_sum (dlit g) s) ?w ?d"
    using gb by (intro pid_sum_approx [OF kp P ki kd hz] dlit_approx) simp_all
  have "approx (gain_sum g off s) (?w + off) (P / 2 ^ 16 + 1 / 2 ^ 7)"
  proof (cases "off = 0")
    case True
    then show ?thesis using P0 by (simp add: gain_sum_def) (rule approx_mono [OF sm], simp)
  next
    case False
    have "approx (fadd double (pid_sum (dlit g) s) (dlit off)) (?w + off)
       (?d + 1 / 2 ^ 48 + (65535 + P * 20 + 2048 + ?d + 1 + 1 / 2 ^ 48 + 1) / 2 ^ 53)"
      by (rule approx_fadd_double [OF sm dlit_approx wb]) (use gb P P0 in \<open>simp_all add: field_simps\<close>)
    then show ?thesis
      unfolding gain_sum_def using False P0 by (simp del: power_numeral) (erule approx_mono, simp add: field_simps)
  qed
  moreover have "\<bar>?w + off\<bar> + (P / 2 ^ 16 + 1 / 2 ^ 7) \<le> 2 ^ 31 - 2"
  proof -
    have "\<bar>?w + off\<bar> \<le> 65535 + P * 20 + 2048 + 1" using wb gb by linarith
    then have "\<bar>?w + off\<bar> + (P / 2 ^ 16 + 1 / 2 ^ 7) \<le> 65535 + P * 20 + 2048 + 1 + (P / 2 ^ 16 + 1 / 2 ^ 7)"
      by (rule add_right_mono)
    also have "\<dots> \<le> 2 ^ 31 - 2" using P(2) by simp
    finally show ?thesis .
  qed
  ultimately show ?thesis
    unfolding pid_update_gain [OF kp(2)] pid_law_def go option.case prod.case
    by (rule set_fwHz_approx)
qed

section \<open>One step of the controller\<close>

lemma fwHz_pid_clamp: "fwHz (pid_clamp s) = max 0 (min 5000 (fwHz s))"
  by (simp add: pid_clamp_def Let_def)

lemma pid_clamp_frames [simp]:
  "fwKp (pid_clamp s) = fwKp s" "fwKi (pid_clamp s) = fwKi s" "fwKd (pid_clamp s) = fwKd s"
  "speed_target (pid_clamp s) = speed_target s" "pe_distance (pid_clamp s) = pe_distance s"
  "fwErr1 (pid_clamp s) = fwErr1 s" "inverter_type (pid_clamp s) = inverter_type s"
  "uart_log (pid_clamp s) = uart_log s" "usart_inv (pid_clamp s) = usart_inv s"
  "speed_st.more (pid_clamp s) = speed_st.more s"
  by (simp_all add: pid_clamp_def Let_def usart_inv_def)

lemma fwErrI_pid_clamp: "fwErrI (pid_clamp s) = fwErrI s \<or> fwErrI (pid_clamp s) = Fin 0"
  by (simp add: pid_clamp_def Let_def)

text \<open>\<open>ServoFreqSet\<close> leaves everything outside \<open>usart_st\<close>, and the type of the drive.\<close>

lemma more_send [simp]:
  "usart_st.more (uart4_send s) = usart_st.more s" "usart_st.more (uart2_send s) = usart_st.more s"
  "usart_st.more (load_frame f s) = usart_st.more s"
  "inverter_type (uart4_send s) = inverter_type s" "inverter_type (uart2_send s) = inverter_type s"
  "inverter_type (load_frame f s) = inverter_type s"
  by (simp_all add: uart_send_defs load_frame_def)

lemma more_ServoFreqSet:
  "ServoFreqSet hz s = Inr s' \<Longrightarrow> usart_st.more s' = usart_st.more s \<and> inverter_type s' = inverter_type s"
  by (auto simp: ServoFreqSet_def and_then_Inr_iff split: if_splits)

lemma speed_fields:
  assumes "usart_st.more s' = usart_st.more s"
  shows "fwKp s' = fwKp s" "fwKi s' = fwKi s" "fwKd s' = fwKd s" "speed_target s' = speed_target s"
    "pe_distance s' = pe_distance s" "fwErr1 s' = fwErr1 s" "fwErrI s' = fwErrI s" "fwHz s' = fwHz s"
    "servo_hz s' = servo_hz s" "second_stage_hz s' = second_stage_hz s" "first_stage_hz s' = first_stage_hz s"
    "speed_st.more s' = speed_st.more s"
  using assms by (cases s; cases s'; simp)+

text \<open>The effect the drives see when \<open>hz\<close> is set: a frame they read as a write of \<open>hz\<close>, on
  both ports; nothing when the type of the drive is unknown.\<close>

definition drives_set :: "u16 \<Rightarrow> 'a usart_st_scheme \<Rightarrow> 'a usart_st_scheme \<Rightarrow> bool" where
  "drives_set hz s s' \<longleftrightarrow>
     (case drive_request (inverter_type s) hz of
        Some w \<Rightarrow> \<exists>f. modbus_parse f = Some w \<and> frame_sent s f s'
      | None \<Rightarrow> uart_log s' = uart_log s)"

lemma drives_set_cong:
  "uart_log s = uart_log t \<Longrightarrow> inverter_type s = inverter_type t \<Longrightarrow> drives_set hz s s' = drives_set hz t s'"
  by (cases "drive_request (inverter_type t) hz") (simp_all add: drives_set_def frame_sent_def)

lemma usart_inv_speed_update [simp]:
  "usart_inv (s\<lparr>fwHz := x\<rparr>) = usart_inv s" "usart_inv (s\<lparr>servo_hz := y\<rparr>) = usart_inv s"
  by (simp_all add: usart_inv_def)

lemma ServoFreqSet_ok:
  assumes inv: "usart_inv s" and hz: "unat hz < 20000"
  shows "\<exists>s'. ServoFreqSet hz s = Inr s' \<and> drives_set hz s s' \<and> usart_inv s'"
proof (cases "drive_request (inverter_type s) hz")
  case None
  then have "ServoFreqSet hz s = Inr s"
    using hz by (auto simp: ServoFreqSet_def drive_request_def split: if_splits)
  then show ?thesis using None inv by (simp add: drives_set_def)
next
  case (Some w)
  then show ?thesis
    using ServoFreqSet_drive [OF inv, of hz] by (auto simp: drives_set_def frame_sent_def)
qed

lemma RS485_OUT_ok:
  assumes inv: "usart_inv s" and v: "0 \<le> v" "v < 20000"
  shows "\<exists>s'. RS485_OUT v s = Inr s' \<and> drives_set (word_of_int v) s s' \<and> usart_inv s'
    \<and> servo_hz s' = word_of_int v \<and> inverter_type s' = inverter_type s
    \<and> usart_st.more s' = usart_st.more (s\<lparr>servo_hz := word_of_int v\<rparr>)"
proof -
  let ?s = "s\<lparr>servo_hz := word_of_int v\<rparr>"
  have inv': "usart_inv ?s" using inv by simp
  have hz: "unat (word_of_int v :: u16) < 20000"
    using v by (simp add: unsigned_of_int take_bit_int_eq_self)
  obtain s' where s': "ServoFreqSet (word_of_int v) ?s = Inr s'" "drives_set (word_of_int v) ?s s'" "usart_inv s'"
    using ServoFreqSet_ok [OF inv' hz] by blast
  have m: "usart_st.more s' = usart_st.more ?s" "inverter_type s' = inverter_type s"
    using more_ServoFreqSet [OF s'(1)] by simp_all
  have "drives_set (word_of_int v) s s'"
    using s'(2) drives_set_cong [of s ?s] by simp
  then show ?thesis
    using s' m speed_fields(9) [OF m(1)] by (simp add: RS485_OUT_def)
qed

lemma pid_values:
  assumes "pid_ready s" "pe_time_ok t"
  obtains kp ki kd e i d where "fwKp s = Fin kp" "\<bar>kp\<bar> \<le> 1000" "fwKi s = Fin ki" "\<bar>ki\<bar> \<le> 1000"
    "fwKd s = Fin kd" "\<bar>kd\<bar> \<le> 1000" "fwErr1 (fwErrCalculate t s) = Fin e" "\<bar>e\<bar> \<le> 20200"
    "fwErrI (fwErrCalculate t s) = Fin i" "\<bar>i\<bar> \<le> 1 / 4" "fwErrD (fwErrCalculate t s) = Fin d" "\<bar>d\<bar> \<le> 11 / 100"
  using fwErr1_within [OF assms] fwErrI_within [OF assms(1), of t] fwErrD_within [OF assms] assms(1)
  by (auto simp: pid_ready_def approx_def)

lemma fwPIDctrl_step:
  assumes ready: "pid_ready s" and t: "pe_time_ok t" and inv: "usart_inv s"
    and vals: "fwKp s = Fin kp" "fwKi s = Fin ki" "fwKd s = Fin kd" "fwErr1 (fwErrCalculate t s) = Fin e"
      "fwErrI (fwErrCalculate t s) = Fin i" "fwErrD (fwErrCalculate t s) = Fin d"
    and P: "\<bar>kp * e\<bar> \<le> P" "P \<le> 2 ^ 26"
  shows "\<exists>s' hz. fwPIDctrl t s = Inr s' \<and> pid_ready s' \<and> usart_inv s' \<and> fwHz s' = max 0 (min 5000 hz)
    \<and> \<bar>of_int hz - pid_law (fwErrCalculate t s) kp e ki i kd d\<bar> \<le> 1 + (P / 2 ^ 16 + 1 / 2 ^ 7)
    \<and> servo_hz s' = word_of_int (fwHz s') \<and> drives_set (servo_hz s') s s' \<and> inverter_type s' = inverter_type s
    \<and> speed_st.more s' = speed_st.more s"
proof -
  let ?c = "fwErrCalculate t s"
  have b: "\<bar>ki\<bar> \<le> 1000" "\<bar>kd\<bar> \<le> 1000" "\<bar>i\<bar> \<le> 1 / 4" "\<bar>d\<bar> \<le> 11 / 100"
    using vals pid_values [OF ready t] by (metis flt.inject)+
  have prods: "\<bar>ki * i\<bar> \<le> 1024" "\<bar>kd * d\<bar> \<le> 1024"
    using abs_mult_le [OF b(1,3)] abs_mult_le [OF b(2,4)] by simp_all
  have hz: "0 \<le> fwHz ?c" "fwHz ?c \<le> 65535" using ready by (simp_all add: pid_ready_def)
  obtain hz where u: "pid_update ?c = Inr (?c\<lparr>fwHz := hz\<rparr>)"
    "\<bar>of_int hz - pid_law ?c kp e ki i kd d\<bar> \<le> 1 + (P / 2 ^ 16 + 1 / 2 ^ 7)"
    using pid_update_law [of ?c kp e P ki i kd d] vals P prods hz by auto
  let ?s = "pid_clamp (?c\<lparr>fwHz := hz\<rparr>)"
  let ?v = "max 0 (min 5000 hz)"
  have v: "fwHz ?s = ?v" by (simp add: fwHz_pid_clamp)
  have inv': "usart_inv ?s" using inv by simp
  have vb: "0 \<le> ?v" "?v < 20000" by linarith+
  obtain s' where s': "RS485_OUT ?v ?s = Inr s'" "drives_set (word_of_int ?v) ?s s'" "usart_inv s'"
    "servo_hz s' = word_of_int ?v" "inverter_type s' = inverter_type ?s"
    "usart_st.more s' = usart_st.more (?s\<lparr>servo_hz := word_of_int ?v\<rparr>)"
    using RS485_OUT_ok [OF inv' vb] by blast
  note f = speed_fields [OF s'(6), simplified]
  have I: "approx (fwErrI ?s) 0 (1 / 4)"
    using fwErrI_pid_clamp [of "?c\<lparr>fwHz := hz\<rparr>"] fwErrI_within [OF ready, of t] by (auto simp: approx_Fin)
  have r': "pid_ready s'"
    using ready fwErr1_within [OF ready t] I by (simp add: pid_ready_def f v)
  have "fwPIDctrl t s = Inr s'"
    using s'(1) by (simp add: fwPIDctrl_update u(1) v)
  moreover have "drives_set (servo_hz s') s s'"
    using s'(2,4) drives_set_cong [of s ?s] by simp
  ultimately show ?thesis
    using s' u(2) r' by (intro exI [of _ s'] exI [of _ hz]) (simp add: f v)
qed

text \<open>A reported time of 0 divides by zero: the error is infinite and its cast undefined.\<close>

lemma fwPIDctrl_zero_time:
  assumes "speed_target s = Fin x" "fwKp s = Fin kp" "0 < kp" "fwKi s = Fin ki" "fwKd s = Fin kd"
    "fwErr1 s = Fin p" "0 < pe_distance s" "pe_distance s < 2 ^ 24" "fwErrI s = Fin i"
  shows "fwPIDctrl 0 s = Inl Undefined"
proof -
  let ?c = "fwErrCalculate 0 s"
  have e: "fwErr1 ?c = NInf"
    using assms by (simp add: fwErr1_calc single_int_exact signed_inf_def fsub_def)
  have d: "fwErrD ?c = Fin 0"
    using dlit_approx [of "1 / 10"] by (auto simp: fwErrD_calc e assms fsub_def Let_def elim: approxE)
  have "fwErr1 (err_difference (err_speed 0 s)) = NInf" using e by (simp add: fwErrCalculate_def)
  then have i: "fwErrI ?c = Fin 0"
    by (simp add: fwErrCalculate_def err_integral_def flt_le_def)
  have z: "fround single 0 = Fin 0" "fround double 0 = Fin 0"
    by (simp_all add: fround_single_Fin fround_double_Fin round_rat_def)
  have h: "\<exists>q. flt_of_int double n = Fin q \<or> flt_of_int double n = PInf \<or> flt_of_int double n = NInf" for n
    using fround_not_NaN [of double "of_int n"] by (cases "flt_of_int double n") (auto simp: flt_of_int_def)
  obtain g where g: "dlit 20 = Fin g" "\<bar>g - 20\<bar> \<le> 1 / 2 ^ 48"
    using dlit_approx [of 20] by (auto elim: approxE)
  have "\<bar>g - 20\<bar> \<le> 1" by (rule order_trans [OF g(2)]) simp
  then have "0 < g" by linarith
  obtain c where "dlit (- 5 / 10) = Fin c" using dlit_approx [of "- 5 / 10"] by (auto elim: approxE)
  then have "flt_less NInf (dlit (- 5 / 10))" by (simp only: flt_less.simps)
  then have "pid_below ?c = set_fwHz (pid_sum (dlit 20) ?c) ?c"
    by (simp only: pid_below_def e if_True)
  also have "\<dots> = Inl Undefined"
    using h [of "fwHz s"] assms(3) \<open>0 < g\<close>
    by (auto simp: set_fwHz_def pid_sum_def e i d assms z signed_inf_def g(1))
  finally show ?thesis by (simp add: fwPIDctrl_def)
qed

section \<open>Starting the controller\<close>

text \<open>Parameters in the operating range.\<close>

definition para_ok :: "para_data \<Rightarrow> bool" where
  "para_ok p \<longleftrightarrow> pd_fwKp p \<le> 1000 \<and> pd_fwKi p \<le> 1000 \<and> pd_fwKd p \<le> 1000
     \<and> approx (pd_speed_target p) 0 100 \<and> \<bar>sint (pd_speed_factor p)\<bar> < 2 ^ 24
     \<and> 0 \<le> sint (pd_pe_distance p) \<and> sint (pd_pe_distance p) \<le> 1000000"

text \<open>The product of the target and the factor, truncated.\<close>

definition start_hz :: "para_data \<Rightarrow> int" where
  "start_hz p = (case fmul single (pd_speed_target p) (flt_of_int single (sint (pd_speed_factor p))) of
                   Fin v \<Rightarrow> trunc_rat v | _ \<Rightarrow> 0)"

lemma gain_within: "g \<le> 1000 \<Longrightarrow> approx (flt_of_int single (uint g)) 0 1000" for g :: u32
proof -
  assume "g \<le> 1000"
  then have g: "uint g \<le> 1000" by (simp add: word_le_def)
  then have "flt_of_int single (uint g) = Fin (of_int (uint g))" by (simp add: single_int_exact)
  moreover have "(of_int (uint g) :: rat) \<le> 1000" using g by (metis of_int_le_iff of_int_numeral)
  moreover have "0 \<le> (of_int (uint g) :: rat)" by (metis of_int_0_le_iff uint_ge_0)
  ultimately show ?thesis unfolding approx_def by auto
qed

lemma start_product:
  assumes "para_ok p"
  shows "to_int32 (fmul single (pd_speed_target p) (flt_of_int single (sint (pd_speed_factor p)))) = Inr (start_hz p)"
proof -
  obtain x where x: "pd_speed_target p = Fin x" "\<bar>x\<bar> \<le> 100"
    using assms by (auto simp: para_ok_def approx_def)
  let ?f = "of_int (sint (pd_speed_factor p)) :: rat"
  have f: "\<bar>sint (pd_speed_factor p)\<bar> < 2 ^ 24" using assms by (simp add: para_ok_def)
  then have "\<bar>?f\<bar> \<le> of_int (2 ^ 24)" by (simp only: of_int_abs [symmetric] of_int_le_iff)
  then have fb: "\<bar>?f\<bar> \<le> 2 ^ 24" by (simp only: of_int_power of_int_numeral)
  have xf: "\<bar>x * ?f\<bar> \<le> 100 * 2 ^ 24" by (rule abs_mult_le [OF x(2) fb])
  obtain v where v: "fround single (x * ?f) = Fin v" "\<bar>v - x * ?f\<bar> \<le> (100 * 2 ^ 24 + 1) / 2 ^ 24"
    using approx_single [OF xf] by (auto elim: approxE)
  have "\<bar>v - x * ?f\<bar> \<le> 101" by (rule order_trans [OF v(2)]) simp
  then have "\<bar>v\<bar> \<le> 101 + 100 * 2 ^ 24" using xf by linarith
  then have "\<bar>v\<bar> \<le> 2 ^ 31 - 2" by (rule order_trans) simp
  then have "\<bar>of_int (trunc_rat v) :: rat\<bar> \<le> 2 ^ 31 - 1" using trunc_near [of v] by linarith
  then have "\<bar>of_int (trunc_rat v) :: rat\<bar> \<le> of_int (2 ^ 31 - 1)" by simp
  then have "\<bar>trunc_rat v\<bar> \<le> 2 ^ 31 - 1" by (simp only: of_int_abs [symmetric] of_int_le_iff)
  then show ?thesis
    using f v(1) by (simp add: x single_int_exact start_hz_def abs_le_iff)
qed

lemma fwInitServo_start:
  assumes p: "para_ok (wcs2GndParaData s)"
  shows "\<exists>s'. fwInitServo s = Inr (uint (first_stage_hz s'), s')
    \<and> uint (first_stage_hz s') = min 5000 (start_hz (wcs2GndParaData s) mod 2 ^ 16)
    \<and> second_stage_hz s' = pd_standard_hz (wcs2GndParaData s)
    \<and> fwHz s' = (if second_stage_hz s' = 0 then uint (first_stage_hz s') else uint (second_stage_hz s'))
    \<and> pid_ready s' \<and> uart_log s' = uart_log s \<and> inverter_type s' = inverter_type s \<and> usart_inv s' = usart_inv s
    \<and> adjust_stage_flag s' = 0 \<and> first_stage_cnt s' = 0 \<and> second_stage_cnt s' = 0 \<and> wcs2GndParaData s' = wcs2GndParaData s"
proof -
  let ?p = "wcs2GndParaData s"
  let ?w = "word_of_int (start_hz ?p) :: u16"
  have w: "uint ?w = start_hz ?p mod 2 ^ 16" by (simp add: unsigned_of_int take_bit_eq_mod)
  have five: "uint (5000 :: u16) = 5000" by simp
  have bounds: "uint h \<le> 65535" for h :: u16
    using uint_bounded [of h] by simp
  note facts = start_product [OF p] gain_within p [unfolded para_ok_def] w bounds
  show ?thesis
    using facts
    by (cases "5000 < uint ?w"; cases "pd_standard_hz ?p = 0")
       (simp_all add: fwInitServo_def Let_def pid_ready_def approx_Fin usart_inv_def)
qed

lemma clamp_near: "\<bar>x - y\<bar> \<le> d \<Longrightarrow> \<bar>max 0 (min 5000 x) - max 0 (min 5000 y)\<bar> \<le> d" for x y d :: rat
  by (auto simp: max_def min_def)

section \<open>Properties\<close>

text \<open>Anti-windup: whatever time is reported and whatever the state holds, infinities and
  NaNs included, \<open>fwErrCalculate\<close> keeps the integral term within \<open>fwErrIMax\<close>.\<close>

theorem integral_never_winds_up:
  assumes "flt_le (fabs (fwErrI s)) (Fin (1 / 4))"
  shows "flt_le (fabs (fwErrI (fwErrCalculate t s))) (Fin (1 / 4))"
  using assms by (rule fwErrI_windup)

text \<open>C26: One step of the controller follows the PID law: for gains up to 1000 and an error up to
  10 m/s, \<open>fwPIDctrl\<close> returns, and the new frequency differs by at most 1.25 (hundredths of a
  hertz) from the law of the active segment computed in exact arithmetic and clamped to the range
  of the inverter; the truncation and every rounding of the float computation included.\<close>

theorem pid_follows_law:
  assumes "pid_ready s" "pe_time_ok t" "usart_inv s"
    and "fwKp s = Fin kp" "fwKi s = Fin ki" "fwKd s = Fin kd" "fwErr1 (fwErrCalculate t s) = Fin e"
      "fwErrI (fwErrCalculate t s) = Fin i" "fwErrD (fwErrCalculate t s) = Fin d"
    and "\<bar>e\<bar> \<le> 10"
  shows "\<exists>s'. fwPIDctrl t s = Inr s' \<and>
    \<bar>of_int (fwHz s') - max 0 (min 5000 (pid_law (fwErrCalculate t s) kp e ki i kd d))\<bar> \<le> 5 / 4"
proof -
  have "\<bar>kp\<bar> \<le> 1000" using assms(1,4) by (simp add: pid_ready_def approx_Fin)
  then have P: "\<bar>kp * e\<bar> \<le> 10000" using abs_mult_le [OF _ assms(10)] by fastforce
  obtain s' hz where s': "fwPIDctrl t s = Inr s'" "fwHz s' = max 0 (min 5000 hz)"
    and d: "\<bar>of_int hz - pid_law (fwErrCalculate t s) kp e ki i kd d\<bar> \<le> 1 + (10000 / 2 ^ 16 + 1 / 2 ^ 7)"
    using fwPIDctrl_step [OF assms(1-9) P] by auto
  have "\<bar>of_int hz - pid_law (fwErrCalculate t s) kp e ki i kd d\<bar> \<le> 5 / 4"
    by (rule order_trans [OF d]) simp
  from clamp_near [OF this] show ?thesis
    using s' by (intro exI [of _ s']) (simp add: of_int_max of_int_min)
qed

text \<open>A controller session: the parameters are taken over, then every reported time is one step.\<close>

fun pid_run :: "int list \<Rightarrow> 'a speed_st_scheme \<Rightarrow> 'a speed_st_scheme result" where
  "pid_run [] s = Inr s"
| "pid_run (t # ts) s = and_then (fwPIDctrl t s) (pid_run ts)"

lemma pid_run_safe:
  assumes "pid_ready s" "usart_inv s" "\<forall>t\<in>set ts. pe_time_ok t"
  shows "\<exists>s'. pid_run ts s = Inr s' \<and> pid_ready s' \<and> usart_inv s' \<and>
    (ts \<noteq> [] \<longrightarrow> 0 \<le> fwHz s' \<and> fwHz s' \<le> 5000 \<and> servo_hz s' = word_of_int (fwHz s'))"
  using assms
proof (induction ts arbitrary: s)
  case Nil
  then show ?case by simp
next
  case (Cons t ts)
  have t: "pe_time_ok t" using Cons.prems by simp
  obtain kp ki kd e i d where v: "fwKp s = Fin kp" "\<bar>kp\<bar> \<le> 1000" "fwKi s = Fin ki" "fwKd s = Fin kd"
    "fwErr1 (fwErrCalculate t s) = Fin e" "\<bar>e\<bar> \<le> 20200"
    "fwErrI (fwErrCalculate t s) = Fin i" "fwErrD (fwErrCalculate t s) = Fin d"
    using pid_values [OF Cons.prems(1) t] by metis
  have P: "\<bar>kp * e\<bar> \<le> 20200000" using abs_mult_le [OF v(2,6)] by simp
  obtain s1 where s1: "fwPIDctrl t s = Inr s1" "pid_ready s1" "usart_inv s1" "0 \<le> fwHz s1" "fwHz s1 \<le> 5000"
    "servo_hz s1 = word_of_int (fwHz s1)"
    using fwPIDctrl_step [OF Cons.prems(1) t Cons.prems(2) v(1,3,4,5,7,8) P] by (auto simp: max_def min_def)
  then show ?case using Cons.IH [of s1] Cons.prems(3) by (cases ts) auto
qed


section \<open>Concrete instances\<close>

text \<open>The state after the static initialisers, and the parameters of the start-up data in
  \<open>gnd_release\<close>: 1 m/s, gains 40, 10 and 0, factor 1500, 75 mm, second stage at 15.00 Hz.\<close>

definition sample_para :: para_data where
  "sample_para = \<lparr>pd_cmd = replicate 11 0, pd_max_speed = Fin 2, pd_min_speed = Fin 0,
     pd_fwKp = 40, pd_fwKi = 10, pd_fwKd = 0, pd_speed_target = Fin 1, pd_speed_factor = 1500,
     pd_pe_distance = 75000, pd_standard_hz = 1500\<rparr>"

definition speed_bss :: speed_st where
  "speed_bss = usart_st.extend usart_bss (speed_st.fields (Fin 0) (Fin 0) (Fin 10) (Fin 5) (Fin 40)
     (Fin 0) 0 0 (Fin 0) (Fin 0) (Fin 0) (Fin 0) (Fin 0) (Fin 0) 0 0
     (sample_para\<lparr>pd_speed_target := Fin 0\<rparr>) 0 0 0 0 0)"

definition speed_demo :: speed_st where
  "speed_demo = speed_bss\<lparr>wcs2GndParaData := sample_para, fwKp := Fin 40, fwKi := Fin 10, fwKd := Fin 0,
     speed_target := Fin 1, speed_factor := 1500, pe_distance := 75000, fwHz := 1500\<rparr>"

lemmas demo_defs = speed_demo_def speed_bss_def usart_bss_def usart_st.extend_def speed_st.fields_def
  usart_st.defs speed_st.defs

lemma demo_facts:
  "usart_inv speed_demo" "pid_ready speed_demo" "para_ok (wcs2GndParaData speed_demo)"
  "fwKp speed_demo = Fin 40" "fwKi speed_demo = Fin 10" "fwKd speed_demo = Fin 0"
  by (simp_all add: demo_defs usart_inv_def uart_ok_def Let_def pid_ready_def para_ok_def sample_para_def approx_Fin)

lemma demo_parts:
  "speed_target speed_demo = Fin 1" "pe_distance speed_demo = 75000" "fwErr1 speed_demo = Fin 0"
  "fwErrI speed_demo = Fin 0" "fwHz speed_demo = 1500" "wcs2GndParaData speed_demo = sample_para"
  by (simp_all add: demo_defs Let_def)

lemma demo_fwErr1: "fwErr1 (fwErrCalculate 80000 speed_demo) = Fin (1 / 16)"
  by (simp add: fwErr1_calc demo_parts flt_eval)

lemma demo_fwErrD: "fwErrD (fwErrCalculate 80000 speed_demo) = Fin 0"
  by (simp add: fwErrD_calc demo_fwErr1 demo_parts)

lemma demo_fwErrI: "fwErrI (fwErrCalculate 80000 speed_demo) = Fin (1 / 16)"
proof -
  let ?s = "err_difference (err_speed 80000 speed_demo)"
  have "fwErr1 ?s = Fin (1 / 16)" using demo_fwErr1 by (simp add: fwErrCalculate_def)
  moreover have "fwErr0 ?s = Fin 0" "fwErrI ?s = Fin 0"
    by (simp_all add: demo_parts) (simp add: err_difference_def err_speed_def demo_parts Let_def)
  ultimately show ?thesis
    by (simp add: fwErrCalculate_def err_integral_def flt_eval)
qed

theorem integral_never_winds_up_witness:
  "flt_le (fabs (fwErrI (fwErrCalculate 0 speed_demo))) (Fin (1 / 4))"
  by (rule integral_never_winds_up) (simp add: demo_defs flt_le_def Let_def)

theorem pid_follows_law_witness:
  "\<exists>s'. fwPIDctrl 80000 speed_demo = Inr s' \<and> \<bar>of_int (fwHz s') - (1500 + 15 / 8 :: rat)\<bar> \<le> 5 / 4"
proof -
  have law: "pid_law (fwErrCalculate 80000 speed_demo) 40 (1 / 16) 10 (1 / 16) 0 0 = 1500 + 15 / 8"
    by (simp add: pid_law_def pid_gain_def demo_parts flt_eval)
  show ?thesis
    using pid_follows_law [OF demo_facts(2) _ demo_facts(1,4-6) demo_fwErr1 demo_fwErrI demo_fwErrD]
    by (simp add: law pe_time_ok_def)
qed


end
