(* ===== verification/TimExti.thy ===== *)
theory TimExti
  imports SpeedCtrl
begin

text \<open>
  \<open>timExti.c\<close>: the events of the photoelectric switches. The time between two neighbouring
  switches is measured with TIM2 and given to the PID controller; the first switch counts the
  stages of a start; in maintenance mode the distance to the repair position selects the
  frequency. \<open>timexti_st\<close> extends \<open>speed_st\<close> with the globals of the file, those of \<open>main.c\<close> and
  the fields \<open>speed\<close> and \<open>carNo\<close> of \<open>gnd2WcsCmdData\<close>. A reading of the TIM2 counter is an
  argument: \<open>now\<close> is the first reading of a call, \<open>later\<close> the second.
\<close>

section \<open>State\<close>

record timexti_st = speed_st +
  exti_extid :: u16            \<comment> \<open>\<open>timExtiHandler.extid\<close>\<close>
  exti_timCnt :: u16           \<comment> \<open>\<open>timExtiHandler.timCnt\<close>\<close>
  timUpdates :: u32
  repair_flag :: u8
  reset_flag :: u8
  repair_locate_real :: u16
  servo_start :: u8
  fwInitHz :: u16
  repairCarCmdData :: repair_data
  cmd_speed :: u32             \<comment> \<open>\<open>gnd2WcsCmdData.speed\<close>\<close>
  cmd_carNo :: u16             \<comment> \<open>\<open>gnd2WcsCmdData.carNo\<close>\<close>

section \<open>Operations\<close>

definition timExtiRst :: "u16 \<Rightarrow> 'a timexti_st_scheme \<Rightarrow> 'a timexti_st_scheme" where
  "timExtiRst now s = s\<lparr>timUpdates := 0, exti_extid := 1, exti_timCnt := now\<rparr>"

definition cal_move_distance :: "'a timexti_st_scheme \<Rightarrow> u16" where
  "cal_move_distance s =
     (let curPos = cmd_carNo s; targetPos = repair_locate_real s;
          car_tot_num = rc_car_tot_num (repairCarCmdData s)
      in if curPos \<le> targetPos then targetPos - curPos else car_tot_num - curPos + targetPos)"

definition cal_distance_to_real_locate :: "'a timexti_st_scheme \<Rightarrow> u16" where
  "cal_distance_to_real_locate s =
     (let curPos = cmd_carNo s; targetPos = repair_locate_real s
      in if curPos \<le> targetPos then targetPos - curPos else curPos - targetPos)"

definition repair_car_para_init :: "'a timexti_st_scheme \<Rightarrow> 'a timexti_st_scheme result" where
  "repair_car_para_init s =
     (let s = s\<lparr>repair_flag := 1\<rparr>;
          r = repairCarCmdData s;
          pos = uint (rc_repair_locate r) + uint (rc_car_no r) - 1;
          s = (if pos \<le> uint (rc_car_tot_num r) then s\<lparr>repair_locate_real := word_of_int pos\<rparr>
               else s\<lparr>repair_locate_real := word_of_int (pos - uint (rc_car_tot_num r))\<rparr>)
      in if reset_flag s = 1 then
           (if cal_distance_to_real_locate s > 2 then RS485_OUT (uint (rc_standard_hz r)) s
            else Inr (s\<lparr>repair_flag := 0\<rparr>))
         else RS485_OUT (uint (rc_standard_hz r)) s)"

definition repairLocationCtrl :: "'a timexti_st_scheme \<Rightarrow> 'a timexti_st_scheme result" where
  "repairLocationCtrl s =
     (if reset_flag s = 0 \<or> repair_flag s = 0 then Inr s
      else
        let targetDistance = cal_move_distance s;
            maxHz = 3000 :: int;
            r = repairCarCmdData s
        in if targetDistance > 100 then RS485_OUT maxHz s
           else if targetDistance > 50 then RS485_OUT ((uint (rc_standard_hz r) + maxHz) div 2) s
           else if uint targetDistance > 2 + uint (rc_adjust_para r) then RS485_OUT (uint (rc_standard_hz r)) s
           else RS485_OUT 0 (s\<lparr>repair_flag := 0\<rparr>))"

text \<open>The stages of a start, counted at the first switch.\<close>

definition servo_stage :: "u16 \<Rightarrow> 'a timexti_st_scheme \<Rightarrow> 'a timexti_st_scheme" where
  "servo_stage extid s =
     (if servo_start s = 0 \<and> extid = 1 then
        if adjust_stage_flag s = 0 then
          let s = s\<lparr>first_stage_cnt := first_stage_cnt s + 1\<rparr> in
          if first_stage_cnt s \<ge> 12 then
            let s = s\<lparr>first_stage_cnt := 0\<rparr> in
            if second_stage_hz s \<noteq> 0 then s\<lparr>adjust_stage_flag := 1, fwInitHz := second_stage_hz s\<rparr>
            else s\<lparr>servo_start := 1\<rparr>
          else s
        else if adjust_stage_flag s = 1 then
          let s = s\<lparr>second_stage_cnt := second_stage_cnt s + 1\<rparr> in
          if second_stage_cnt s \<ge> 60 then
            s\<lparr>adjust_stage_flag := 0, second_stage_cnt := 0, servo_start := 1, fwInitHz := first_stage_hz s\<rparr>
          else s
        else s
      else s)"

definition exti_mark :: "u16 \<Rightarrow> u16 \<Rightarrow> 'a timexti_st_scheme \<Rightarrow> 'a timexti_st_scheme" where
  "exti_mark extid later s = s\<lparr>timUpdates := 0, exti_extid := extid, exti_timCnt := later\<rparr>"

text \<open>The measurement between two neighbouring switches.\<close>

definition exti_measure :: "u16 \<Rightarrow> u16 \<Rightarrow> u16 \<Rightarrow> 'a timexti_st_scheme \<Rightarrow> 'a timexti_st_scheme result" where
  "exti_measure extid now later s =
     (if timUpdates s \<le> 1 then
        let cnt = (ucast now + 0xFFFF * timUpdates s) - ucast (exti_timCnt s) :: u32 in
        if cnt \<le> 0xFFFF then
          let s = exti_mark extid later s in
          and_then (if servo_start s = 1 then fwPIDctrl (sint (cnt * 50)) s else Inr s)
            (\<lambda>s. Inr (s\<lparr>cmd_speed := cnt\<rparr>))
        else Inr (exti_mark extid later s)
      else Inr (exti_mark extid now s))"

definition TIM_EXTI_Process :: "u16 \<Rightarrow> u16 \<Rightarrow> u16 \<Rightarrow> 'a timexti_st_scheme \<Rightarrow> 'a timexti_st_scheme result" where
  "TIM_EXTI_Process extid now later s =
     (if repair_flag s = 1 then Inr s
      else
        let s = servo_stage extid s in
        if exti_extid s = 0 then (if extid = 1 then Inr (timExtiRst now s) else Inr s)
        else if extid = 1 then Inr (timExtiRst now s)
        else if uint extid = uint (exti_extid s) + 1 then exti_measure extid now later s
        else Inr (s\<lparr>exti_extid := 0\<rparr>))"

section \<open>The start as an automaton\<close>

text \<open>What the first switch has seen of a start: 12 cars at the first frequency, then, when a
  second frequency is configured, 60 cars at it, then the controller is released.\<close>

definition start_view :: "'a timexti_st_scheme \<Rightarrow> u8 \<times> u8 \<times> u16 \<times> u16 \<times> u16" where
  "start_view s = (servo_start s, adjust_stage_flag s, first_stage_cnt s, second_stage_cnt s, fwInitHz s)"

definition release_at :: "u16 \<Rightarrow> nat" where
  "release_at hz2 = (if hz2 = 0 then 12 else 72)"

definition stage_spec :: "u16 \<Rightarrow> u16 \<Rightarrow> u16 \<Rightarrow> nat \<Rightarrow> u8 \<times> u8 \<times> u16 \<times> u16 \<times> u16" where
  "stage_spec hz1 hz2 hz0 k =
     (if k < 12 then (0, 0, of_nat k, 0, hz0)
      else if hz2 = 0 then (1, 0, 0, 0, hz0)
      else if k < 72 then (0, 1, 0, of_nat (k - 12), hz2)
      else (1, 0, 0, 0, hz1))"

lemma of_nat_suc_ge: "k < 1000 \<Longrightarrow> n < 1000 \<Longrightarrow> (of_nat n \<le> (of_nat k + 1 :: u16)) = (n \<le> Suc k)"
proof -
  assume b: "k < 1000" "n < 1000"
  have eq: "(of_nat k + 1 :: u16) = of_nat (Suc k)" by simp
  show ?thesis unfolding eq word_le_nat_alt unat_of_nat using b by simp
qed

lemma stage_ge:
  "k < 1000 \<Longrightarrow> (12 \<le> (of_nat k + 1 :: u16)) = (12 \<le> Suc k)"
  "k < 1000 \<Longrightarrow> (60 \<le> (of_nat k + 1 :: u16)) = (60 \<le> Suc k)"
  using of_nat_suc_ge [of k 12] of_nat_suc_ge [of k 60] by simp_all

lemma servo_stage_spec:
  assumes "start_view s = stage_spec (first_stage_hz s) (second_stage_hz s) hz0 k"
  shows "start_view (servo_stage 1 s) = stage_spec (first_stage_hz s) (second_stage_hz s) hz0 (Suc k)"
proof -
  consider "k < 11" | "k = 11" | "12 \<le> k" "second_stage_hz s = 0" | "12 \<le> k" "k < 71" "second_stage_hz s \<noteq> 0"
    | "k = 71" "second_stage_hz s \<noteq> 0" | "72 \<le> k" "second_stage_hz s \<noteq> 0" by linarith
  then show ?thesis
    using assms stage_ge [of k] stage_ge [of "k - 12"]
    by cases (auto simp: start_view_def stage_spec_def servo_stage_def Let_def Suc_diff_le)
qed

lemma servo_stage_other: "e \<noteq> 1 \<Longrightarrow> servo_stage e s = s"
  by (simp add: servo_stage_def)

lemma servo_stage_frames [simp]:
  "first_stage_hz (servo_stage e s) = first_stage_hz s" "second_stage_hz (servo_stage e s) = second_stage_hz s"
  "repair_flag (servo_stage e s) = repair_flag s" "uart_log (servo_stage e s) = uart_log s"
  "exti_extid (servo_stage e s) = exti_extid s" "timUpdates (servo_stage e s) = timUpdates s"
  "exti_timCnt (servo_stage e s) = exti_timCnt s"
  by (simp_all add: servo_stage_def Let_def)

type_synonym exti_event = "u16 \<times> u16 \<times> u16"

fun exti_run :: "exti_event list \<Rightarrow> 'a timexti_st_scheme \<Rightarrow> 'a timexti_st_scheme result" where
  "exti_run [] s = Inr s"
| "exti_run ((e, now, later) # evs) s = and_then (TIM_EXTI_Process e now later s) (exti_run evs)"

definition firsts :: "exti_event list \<Rightarrow> nat" where
  "firsts evs = length (filter (\<lambda>(e, _). e = 1) evs)"

text \<open>Before the controller is released an event only moves the automaton and the time marks.\<close>

lemma process_before_release:
  assumes rep: "repair_flag s = 0"
    and view: "start_view s = stage_spec (first_stage_hz s) (second_stage_hz s) hz0 k"
    and k: "k < release_at (second_stage_hz s)"
  shows "\<exists>s'. TIM_EXTI_Process e now later s = Inr s' \<and> repair_flag s' = 0
    \<and> first_stage_hz s' = first_stage_hz s \<and> second_stage_hz s' = second_stage_hz s \<and> uart_log s' = uart_log s
    \<and> start_view s' = stage_spec (first_stage_hz s) (second_stage_hz s) hz0 (if e = 1 then Suc k else k)"
proof (cases "e = 1")
  case True
  let ?s = "servo_stage 1 s"
  have "TIM_EXTI_Process e now later s = Inr (timExtiRst now ?s)"
    using True rep by (simp add: TIM_EXTI_Process_def Let_def)
  moreover have "start_view (timExtiRst now ?s) = start_view ?s"
    by (simp add: start_view_def timExtiRst_def)
  ultimately show ?thesis
    using True rep servo_stage_spec [OF view] by (simp add: timExtiRst_def)
next
  case False
  have start: "servo_start s = 0"
    using view k by (auto simp: start_view_def stage_spec_def release_at_def split: if_splits)
  have m: "start_view (exti_mark x y s) = start_view s" "start_view (s\<lparr>exti_extid := x\<rparr>) = start_view s"
    "start_view (exti_mark x y s\<lparr>cmd_speed := z\<rparr>) = start_view s" for x y z
    by (simp_all add: start_view_def exti_mark_def)
  have fr: "servo_start (exti_mark x y s) = 0" "repair_flag (exti_mark x y s) = 0"
    "first_stage_hz (exti_mark x y s) = first_stage_hz s" "second_stage_hz (exti_mark x y s) = second_stage_hz s"
    "uart_log (exti_mark x y s) = uart_log s" for x y
    using start rep by (simp_all add: exti_mark_def)
  show ?thesis
    using False rep view m fr
    by (simp add: TIM_EXTI_Process_def servo_stage_other exti_measure_def Let_def)
qed

lemma exti_run_before_release:
  assumes "repair_flag s = 0" "start_view s = stage_spec (first_stage_hz s) (second_stage_hz s) hz0 k"
    and "k + firsts (butlast evs) < release_at (second_stage_hz s)"
  shows "\<exists>s'. exti_run evs s = Inr s' \<and> uart_log s' = uart_log s
    \<and> start_view s' = stage_spec (first_stage_hz s) (second_stage_hz s) hz0 (k + firsts evs)"
  using assms
proof (induction evs arbitrary: s k)
  case Nil
  then show ?case by (simp add: firsts_def)
next
  case (Cons ev evs)
  obtain e now later where ev: "ev = (e, now, later)" by (cases ev)
  have k: "k < release_at (second_stage_hz s)" using Cons.prems(3) by simp
  let ?k = "if e = 1 then Suc k else k"
  obtain s1 where s1: "TIM_EXTI_Process e now later s = Inr s1" "repair_flag s1 = 0"
    "first_stage_hz s1 = first_stage_hz s" "second_stage_hz s1 = second_stage_hz s" "uart_log s1 = uart_log s"
    "start_view s1 = stage_spec (first_stage_hz s) (second_stage_hz s) hz0 ?k"
    using process_before_release [OF Cons.prems(1,2) k] by blast
  have f: "k + firsts (ev # evs) = ?k + firsts evs" by (simp add: firsts_def ev)
  show ?case
  proof (cases "evs = []")
    case True
    then show ?thesis using s1 f by (simp add: ev firsts_def)
  next
    case False
    then have "?k + firsts (butlast evs) < release_at (second_stage_hz s1)"
      using Cons.prems(3) s1(4) by (auto simp: firsts_def ev)
    then show ?thesis
      using Cons.IH [of s1 ?k] s1 f by (simp add: ev)
  qed
qed

section \<open>The measured time\<close>

text \<open>The counter after \<open>d\<close> ticks, and the number of its wrap-arounds meanwhile.\<close>

definition tim_wraps :: "u16 \<Rightarrow> nat \<Rightarrow> nat" where "tim_wraps c d = (unat c + d) div 65536"
definition tim_after :: "u16 \<Rightarrow> nat \<Rightarrow> u16" where "tim_after c d = of_nat (unat c + d)"

lemma unat16: "unat c < 65536" for c :: u16
  using unsigned_less [of c] by simp

lemma ucast_nat32: "(ucast x :: u32) = of_nat (unat x)" for x :: u16
  by simp

lemma measured_cnt:
  assumes "d < 65536" "tim_wraps c d \<le> d"
  shows "(ucast (tim_after c d) + 0xFFFF * of_nat (tim_wraps c d)) - ucast c = (of_nat (d - tim_wraps c d) :: u32)"
proof -
  have c: "unat c < 65536" by (rule unat16)
  have split: "unat c + d = (unat c + d) mod 65536 + 65536 * tim_wraps c d"
    unfolding tim_wraps_def by simp
  have uc: "(ucast c :: u32) = of_nat (unat c)" by (rule ucast_nat32)
  have ua: "(ucast (tim_after c d) :: u32) = of_nat ((unat c + d) mod 65536)"
    unfolding ucast_nat32 tim_after_def unat_of_nat by simp
  have w: "tim_wraps c d \<le> 1" using c assms(1) unfolding tim_wraps_def by linarith
  have "(unat c + d) mod 65536 + 65535 * tim_wraps c d = unat c + (d - tim_wraps c d)"
    using split assms(2) by linarith
  then have "(of_nat ((unat c + d) mod 65536 + 65535 * tim_wraps c d) :: u32) = of_nat (unat c + (d - tim_wraps c d))"
    by (rule arg_cong)
  then have "of_nat ((unat c + d) mod 65536) + 65535 * of_nat (tim_wraps c d)
      = (of_nat (unat c) + of_nat (d - tim_wraps c d) :: u32)"
    by (simp only: of_nat_add of_nat_mult of_nat_numeral)
  then show ?thesis unfolding ua uc by (simp only: add_diff_cancel_left')
qed

lemma tim_wraps_le: "d < 65536 \<Longrightarrow> tim_wraps c d \<le> 1"
  using unat16 [of c] unfolding tim_wraps_def by linarith

lemma measure_reports:
  assumes d: "d < 65536" "tim_wraps (exti_timCnt s) d \<le> d"
    and u: "timUpdates s = of_nat (tim_wraps (exti_timCnt s) d)"
  shows "exti_measure e (tim_after (exti_timCnt s) d) later s =
    and_then (if servo_start s = 1 then fwPIDctrl (int (d - tim_wraps (exti_timCnt s) d) * 50) (exti_mark e later s)
              else Inr (exti_mark e later s))
      (\<lambda>s'. Inr (s'\<lparr>cmd_speed := of_nat (d - tim_wraps (exti_timCnt s) d)\<rparr>))"
proof -
  let ?n = "d - tim_wraps (exti_timCnt s) d"
  have w: "tim_wraps (exti_timCnt s) d \<le> 1" using tim_wraps_le d(1) .
  then have u1: "timUpdates s \<le> 1" unfolding u by (cases "tim_wraps (exti_timCnt s) d") auto
  have n: "?n < 65536" using d by simp
  have small: "(of_nat ?n :: u32) \<le> 0xFFFF" using n by (simp add: word_le_nat_alt unat_of_nat)
  have "(of_nat ?n * 50 :: u32) = of_nat (?n * 50)" by simp
  then have "sint (of_nat ?n * 50 :: u32) = int (?n * 50)"
    using n by (simp only: signed_of_nat) (simp add: signed_take_bit_int_eq_self)
  then show ?thesis
    using u1 small by (simp add: exti_measure_def Let_def u measured_cnt [OF d] exti_mark_def)
qed

section \<open>Measuring steps\<close>

lemma timexti_fields:
  assumes "speed_st.more s' = speed_st.more s"
  shows "exti_extid s' = exti_extid s" "exti_timCnt s' = exti_timCnt s" "timUpdates s' = timUpdates s"
    "repair_flag s' = repair_flag s" "reset_flag s' = reset_flag s"
    "repair_locate_real s' = repair_locate_real s" "servo_start s' = servo_start s" "fwInitHz s' = fwInitHz s"
    "repairCarCmdData s' = repairCarCmdData s" "cmd_speed s' = cmd_speed s" "cmd_carNo s' = cmd_carNo s"
    "timexti_st.more s' = timexti_st.more s"
  using assms by (cases s; cases s'; simp)+

lemma exti_mark_frames [simp]:
  "pid_ready (exti_mark e c s) = pid_ready s" "usart_inv (exti_mark e c s) = usart_inv s"
  "uart_log (exti_mark e c s) = uart_log s" "inverter_type (exti_mark e c s) = inverter_type s"
  "servo_start (exti_mark e c s) = servo_start s" "exti_extid (exti_mark e c s) = e"
  "exti_timCnt (exti_mark e c s) = c" "timUpdates (exti_mark e c s) = 0"
  "repair_flag (exti_mark e c s) = repair_flag s"
  by (simp_all add: exti_mark_def pid_ready_def usart_inv_def)

lemma cmd_speed_frames [simp]:
  "pid_ready (s\<lparr>cmd_speed := v\<rparr>) = pid_ready s" "usart_inv (s\<lparr>cmd_speed := v\<rparr>) = usart_inv s"
  "frame_sent t f (s\<lparr>cmd_speed := v\<rparr>) = frame_sent t f s"
  by (simp_all add: pid_ready_def usart_inv_def frame_sent_def)

lemma drives_set_cmd_speed [simp]: "drives_set hz t (s\<lparr>cmd_speed := v\<rparr>) = drives_set hz t s"
  by (cases "drive_request (inverter_type t) hz") (simp_all add: drives_set_def)

text \<open>Once the controller is released, a switch that follows the last one measures.\<close>

lemma process_measures:
  assumes "repair_flag s = 0" "servo_start s = 1" "exti_extid s \<noteq> 0" "uint e = uint (exti_extid s) + 1"
  shows "TIM_EXTI_Process e now later s = exti_measure e now later s"
proof -
  have "e \<noteq> 1"
  proof
    assume "e = 1"
    then have "uint (exti_extid s) = 0" using assms(4) by simp
    then have "exti_extid s = 0" by (metis uint_0_eq word_uint_eq_iff)
    then show False using assms(3) by contradiction
  qed
  then show ?thesis using assms by (simp add: TIM_EXTI_Process_def servo_stage_other Let_def)
qed

lemma measured_step:
  assumes ready: "pid_ready s" "usart_inv s" and mode: "repair_flag s = 0" "servo_start s = 1"
    and e: "exti_extid s \<noteq> 0" "uint e = uint (exti_extid s) + 1"
    and d: "d < 65536" "tim_wraps (exti_timCnt s) d < d"
    and u: "timUpdates s = of_nat (tim_wraps (exti_timCnt s) d)"
  shows "\<exists>s' s1. fwPIDctrl (50 * (int d - int (tim_wraps (exti_timCnt s) d))) (s\<lparr>exti_extid := e, exti_timCnt := later, timUpdates := 0\<rparr>) = Inr s1
    \<and> s' = s1\<lparr>cmd_speed := of_nat (d - tim_wraps (exti_timCnt s) d)\<rparr>
    \<and> TIM_EXTI_Process e (tim_after (exti_timCnt s) d) later s = Inr s'
    \<and> cmd_speed s' = of_nat (d - tim_wraps (exti_timCnt s) d)
    \<and> exti_extid s' = e \<and> exti_timCnt s' = later \<and> timUpdates s' = 0
    \<and> 0 \<le> fwHz s' \<and> fwHz s' \<le> 5000 \<and> servo_hz s' = word_of_int (fwHz s') \<and> drives_set (servo_hz s') s s'
    \<and> pid_ready s' \<and> usart_inv s'"
proof -
  let ?n = "d - tim_wraps (exti_timCnt s) d" and ?m = "exti_mark e later s"
  have t: "pe_time_ok (int ?n * 50)" using d by (simp add: pe_time_ok_def)
  obtain kp ki kd x i y where v: "fwKp ?m = Fin kp" "\<bar>kp\<bar> \<le> 1000" "fwKi ?m = Fin ki" "fwKd ?m = Fin kd"
    "fwErr1 (fwErrCalculate (int ?n * 50) ?m) = Fin x" "\<bar>x\<bar> \<le> 20200"
    "fwErrI (fwErrCalculate (int ?n * 50) ?m) = Fin i" "fwErrD (fwErrCalculate (int ?n * 50) ?m) = Fin y"
    using pid_values [of ?m, OF _ t] ready by (metis exti_mark_frames(1))
  have P: "\<bar>kp * x\<bar> \<le> 20200000" using abs_mult_le [OF v(2,6)] by simp
  have r: "pid_ready ?m" "usart_inv ?m" using ready by simp_all
  obtain s1 where s1: "fwPIDctrl (int ?n * 50) ?m = Inr s1" "pid_ready s1" "usart_inv s1"
    "0 \<le> fwHz s1" "fwHz s1 \<le> 5000" "servo_hz s1 = word_of_int (fwHz s1)" "drives_set (servo_hz s1) ?m s1"
    "speed_st.more s1 = speed_st.more ?m"
    using fwPIDctrl_step [OF r(1) t r(2) v(1,3,4,5,7,8) P] by (auto simp: max_def min_def)
  note f = timexti_fields [OF s1(8)]
  have ds: "drives_set (servo_hz s1) s s1" using s1(7) drives_set_cong [of s ?m] by simp
  have "TIM_EXTI_Process e (tim_after (exti_timCnt s) d) later s = Inr (s1\<lparr>cmd_speed := of_nat ?n\<rparr>)"
    using d u mode s1(1) by (simp add: process_measures [OF mode e] measure_reports)
  moreover have "fwPIDctrl (50 * (int d - int (tim_wraps (exti_timCnt s) d))) (s\<lparr>exti_extid := e, exti_timCnt := later, timUpdates := 0\<rparr>) = Inr s1"
  proof -
    have "?m = s\<lparr>exti_extid := e, exti_timCnt := later, timUpdates := 0\<rparr>" by (simp add: exti_mark_def)
    moreover have "50 * (int d - int (tim_wraps (exti_timCnt s) d)) = int ?n * 50" using d(2) by simp
    ultimately show ?thesis using s1(1) by (simp only:)
  qed
  ultimately show ?thesis using s1 f ds by (intro exI [of _ "s1\<lparr>cmd_speed := of_nat ?n\<rparr>"] exI [of _ s1]) simp
qed

section \<open>The way to the repair position\<close>

lemma move_distance_nat:
  assumes "cmd_carNo s \<le> rc_car_tot_num (repairCarCmdData s)" "repair_locate_real s \<le> rc_car_tot_num (repairCarCmdData s)"
  shows "unat (cal_move_distance s) =
    (if unat (cmd_carNo s) \<le> unat (repair_locate_real s) then unat (repair_locate_real s) - unat (cmd_carNo s)
     else unat (rc_car_tot_num (repairCarCmdData s)) - unat (cmd_carNo s) + unat (repair_locate_real s))"
proof (cases "cmd_carNo s \<le> repair_locate_real s")
  case True
  then show ?thesis by (simp add: cal_move_distance_def Let_def unat_sub word_le_nat_alt)
next
  case False
  let ?t = "rc_car_tot_num (repairCarCmdData s)"
  have "unat (?t - cmd_carNo s) + unat (repair_locate_real s) < 65536"
    using False assms unat16 [of ?t] by (simp add: unat_sub word_le_nat_alt)
  then have "unat (?t - cmd_carNo s + repair_locate_real s) = unat (?t - cmd_carNo s) + unat (repair_locate_real s)"
    by (simp add: unat_word_ariths)
  then show ?thesis using False assms by (simp add: cal_move_distance_def Let_def unat_sub word_le_nat_alt)
qed

text \<open>The number of cars that must still pass, counted around the loop of \<open>car_tot_num\<close> cars.\<close>

lemma move_distance_cyclic:
  assumes "cmd_carNo s \<le> rc_car_tot_num (repairCarCmdData s)" "repair_locate_real s \<le> rc_car_tot_num (repairCarCmdData s)"
  shows "(unat (cmd_carNo s) + unat (cal_move_distance s)) mod unat (rc_car_tot_num (repairCarCmdData s))
      = unat (repair_locate_real s) mod unat (rc_car_tot_num (repairCarCmdData s))
    \<and> cal_move_distance s \<le> rc_car_tot_num (repairCarCmdData s)"
proof -
  let ?t = "unat (rc_car_tot_num (repairCarCmdData s))" and ?c = "unat (cmd_carNo s)"
    and ?p = "unat (repair_locate_real s)"
  have b: "?c \<le> ?t" "?p \<le> ?t" using assms by (simp_all add: word_le_nat_alt)
  have wrap: "?c + (?t - ?c + ?p) = ?p + ?t" using b by simp
  show ?thesis
    using b by (auto simp: move_distance_nat [OF assms] word_le_nat_alt wrap)
qed

text \<open>The position \<open>repair_car_para_init\<close> computes: car \<open>car_no\<close> at \<open>repair_locate\<close>.\<close>

definition repair_position :: "repair_data \<Rightarrow> int" where
  "repair_position r =
     (let pos = uint (rc_repair_locate r) + uint (rc_car_no r) - 1
      in if pos \<le> uint (rc_car_tot_num r) then pos else pos - uint (rc_car_tot_num r))"

lemma repair_position_range:
  assumes "1 \<le> rc_repair_locate r" "rc_repair_locate r \<le> rc_car_tot_num r"
    and "1 \<le> rc_car_no r" "rc_car_no r \<le> rc_car_tot_num r"
  shows "1 \<le> repair_position r" "repair_position r \<le> uint (rc_car_tot_num r)"
    "uint (rc_car_tot_num r) dvd uint (rc_repair_locate r) + uint (rc_car_no r) - 1 - repair_position r"
  using assms by (auto simp: repair_position_def Let_def word_le_def)

section \<open>Driving to the repair position\<close>

definition repair_hz :: "repair_data \<Rightarrow> u16 \<Rightarrow> int" where
  "repair_hz r d =
     (if 100 < d then 3000
      else if 50 < d then (uint (rc_standard_hz r) + 3000) div 2
      else if uint d > 2 + uint (rc_adjust_para r) then uint (rc_standard_hz r)
      else 0)"

lemma repair_hz_bound: "rc_standard_hz r < 20000 \<Longrightarrow> 0 \<le> repair_hz r d \<and> repair_hz r d < 20000"
  unfolding repair_hz_def word_less_def by auto

text \<open>\<open>RS485_OUT\<close> seen from this layer.\<close>

lemma RS485_OUT_exti:
  assumes "usart_inv s" "0 \<le> v" "v < 20000"
  shows "\<exists>s'. RS485_OUT v s = Inr s' \<and> drives_set (word_of_int v) s s' \<and> usart_inv s'
    \<and> servo_hz s' = word_of_int v \<and> speed_st.more s' = speed_st.more s"
proof -
  obtain s' where s': "RS485_OUT v s = Inr s'" "drives_set (word_of_int v) s s'" "usart_inv s'"
    "servo_hz s' = word_of_int v" "usart_st.more s' = usart_st.more (s\<lparr>servo_hz := word_of_int v\<rparr>)"
    using RS485_OUT_ok [OF assms] by blast
  then show ?thesis using speed_fields(12) [OF s'(5)] by auto
qed

lemma repair_car_para_init_eq:
  assumes "s1 = s\<lparr>repair_flag := 1, repair_locate_real := word_of_int (repair_position (repairCarCmdData s))\<rparr>"
  shows "repair_car_para_init s =
      (if reset_flag s = 1 \<and> cal_distance_to_real_locate s1 \<le> 2 then Inr (s1\<lparr>repair_flag := 0\<rparr>)
       else RS485_OUT (uint (rc_standard_hz (repairCarCmdData s))) s1)"
  unfolding repair_car_para_init_def repair_position_def assms
  by (cases "uint (rc_repair_locate (repairCarCmdData s)) + uint (rc_car_no (repairCarCmdData s)) - 1
        \<le> uint (rc_car_tot_num (repairCarCmdData s))"; cases "reset_flag s = 1")
     (auto simp: Let_def not_less)

lemma repair_car_para_init_ok:
  assumes inv: "usart_inv s" and r: "repairCarCmdData s = r" "rc_standard_hz r < 20000"
    and pos: "1 \<le> repair_position r"
  shows "\<exists>s'. repair_car_para_init s = Inr s' \<and> repair_locate_real s' = word_of_int (repair_position r)
    \<and> cmd_carNo s' = cmd_carNo s \<and> repairCarCmdData s' = r
    \<and> repair_flag s' = (if reset_flag s = 1 \<and> cal_distance_to_real_locate s' \<le> 2 then 0 else 1)"
proof -
  let ?s = "s\<lparr>repair_flag := 1, repair_locate_real := word_of_int (repair_position r)\<rparr>"
  have init: "repair_car_para_init s =
      (if reset_flag s = 1 \<and> cal_distance_to_real_locate ?s \<le> 2 then Inr (?s\<lparr>repair_flag := 0\<rparr>)
       else RS485_OUT (uint (rc_standard_hz r)) ?s)"
    using repair_car_para_init_eq [of ?s s] r(1) by simp
  have hz: "0 \<le> uint (rc_standard_hz r)" "uint (rc_standard_hz r) < 20000"
    using r(2) unfolding word_less_def by simp_all
  have inv': "usart_inv ?s" using inv by (simp add: usart_inv_def)
  obtain s' where s': "RS485_OUT (uint (rc_standard_hz r)) ?s = Inr s'" "speed_st.more s' = speed_st.more ?s"
    using RS485_OUT_exti [OF inv' hz] by blast
  note f = timexti_fields [OF s'(2)]
  have dist: "cal_distance_to_real_locate s' = cal_distance_to_real_locate ?s"
    "cal_distance_to_real_locate (?s\<lparr>repair_flag := 0\<rparr>) = cal_distance_to_real_locate ?s"
    by (simp_all add: cal_distance_to_real_locate_def f)
  show ?thesis
  proof (cases "reset_flag s = 1 \<and> cal_distance_to_real_locate ?s \<le> 2")
    case True
    then show ?thesis using init r(1) dist by (intro exI [of _ "?s\<lparr>repair_flag := 0\<rparr>"]) simp
  next
    case False
    then show ?thesis using init s' f dist r(1) by (intro exI [of _ s']) auto
  qed
qed

lemma repairLocationCtrl_step:
  assumes inv: "usart_inv s" and mode: "reset_flag s \<noteq> 0" "repair_flag s \<noteq> 0"
    and hz: "rc_standard_hz (repairCarCmdData s) < 20000"
  shows "\<exists>s'. repairLocationCtrl s = Inr s' \<and> usart_inv s'
    \<and> servo_hz s' = word_of_int (repair_hz (repairCarCmdData s) (cal_move_distance s))
    \<and> drives_set (servo_hz s') s s'
    \<and> repair_flag s' = (if 50 < cal_move_distance s \<or>
          uint (cal_move_distance s) > 2 + uint (rc_adjust_para (repairCarCmdData s)) then repair_flag s else 0)
    \<and> reset_flag s' = reset_flag s \<and> cmd_carNo s' = cmd_carNo s \<and> repair_locate_real s' = repair_locate_real s
    \<and> repairCarCmdData s' = repairCarCmdData s"
proof -
  let ?d = "cal_move_distance s"
  let ?go = "50 < ?d \<or> uint ?d > 2 + uint (rc_adjust_para (repairCarCmdData s))"
  let ?v = "repair_hz (repairCarCmdData s) ?d"
  let ?s = "if ?go then s else s\<lparr>repair_flag := 0\<rparr>"
  have eq: "repairLocationCtrl s = RS485_OUT ?v ?s"
    using mode by (simp add: repairLocationCtrl_def repair_hz_def Let_def word_less_def)
  have inv': "usart_inv ?s" using inv by (simp add: usart_inv_def)
  have v: "0 \<le> ?v" "?v < 20000" using repair_hz_bound [OF hz] by auto
  obtain s' where s': "RS485_OUT ?v ?s = Inr s'" "drives_set (word_of_int ?v) ?s s'" "usart_inv s'"
    "servo_hz s' = word_of_int ?v" "speed_st.more s' = speed_st.more ?s"
    using RS485_OUT_exti [OF inv' v] by blast
  note f = timexti_fields [OF s'(5)]
  have "drives_set (word_of_int ?v) s s'" using s'(2) drives_set_cong [of s ?s] by simp
  then show ?thesis using s' eq f by (intro exI [of _ s']) simp
qed

fun repair_run :: "nat \<Rightarrow> 'a timexti_st_scheme \<Rightarrow> 'a timexti_st_scheme result" where
  "repair_run 0 s = Inr s"
| "repair_run (Suc n) s = and_then (repairLocationCtrl (s\<lparr>cmd_carNo := cmd_carNo s + 1\<rparr>)) (repair_run n)"

lemma cmd_carNo_frames [simp]: "usart_inv (s\<lparr>cmd_carNo := n\<rparr>) = usart_inv s"
  by (simp add: usart_inv_def)

lemma repair_run_stops:
  assumes "usart_inv s" "reset_flag s \<noteq> 0" "repair_flag s \<noteq> 0"
    and "rc_standard_hz (repairCarCmdData s) < 20000" "rc_adjust_para (repairCarCmdData s) \<le> 48"
    and "unat (repair_locate_real s) = unat (cmd_carNo s) + n + 2 + unat (rc_adjust_para (repairCarCmdData s))"
    and "0 < n"
  shows "\<exists>s'. repair_run n s = Inr s' \<and> repair_flag s' = 0 \<and> servo_hz s' = 0 \<and> cmd_carNo s' = cmd_carNo s + of_nat n"
  using assms
proof (induction n arbitrary: s)
  case 0
  then show ?case by simp
next
  case (Suc n)
  let ?s = "s\<lparr>cmd_carNo := cmd_carNo s + 1\<rparr>"
  let ?adj = "rc_adjust_para (repairCarCmdData s)"
  have car: "unat (cmd_carNo s + 1) = unat (cmd_carNo s) + 1"
    using Suc.prems(6) unat16 [of "repair_locate_real s"] by (simp add: unat_word_ariths)
  have le: "cmd_carNo s + 1 \<le> repair_locate_real s" using car Suc.prems(6) by (simp add: word_le_nat_alt)
  have d: "unat (cal_move_distance ?s) = n + 2 + unat ?adj"
    using le car Suc.prems(6) by (simp add: cal_move_distance_def Let_def unat_sub)
  have adj: "unat ?adj \<le> 48" using Suc.prems(5) by (simp add: word_le_nat_alt)
  have far: "uint (cal_move_distance ?s) > 2 + uint ?adj \<longleftrightarrow> 0 < n"
    using d unfolding uint_nat by linarith
  have fifty: "50 < cal_move_distance ?s \<longleftrightarrow> 50 < n + 2 + unat ?adj" by (simp add: word_less_nat_alt d)
  obtain s1 where s1: "repairLocationCtrl ?s = Inr s1" "usart_inv s1"
    "servo_hz s1 = word_of_int (repair_hz (repairCarCmdData s) (cal_move_distance ?s))"
    "repair_flag s1 = (if 50 < cal_move_distance ?s \<or> uint (cal_move_distance ?s) > 2 + uint ?adj then repair_flag s else 0)"
    "reset_flag s1 = reset_flag s" "cmd_carNo s1 = cmd_carNo s + 1" "repair_locate_real s1 = repair_locate_real s"
    "repairCarCmdData s1 = repairCarCmdData s"
    using repairLocationCtrl_step [of ?s] Suc.prems by auto
  show ?case
  proof (cases "n = 0")
    case True
    then have near: "\<not> 50 < cal_move_distance ?s" "\<not> uint (cal_move_distance ?s) > 2 + uint ?adj"
      using far fifty adj by auto
    then have "\<not> 100 < cal_move_distance ?s" by (simp add: word_less_nat_alt)
    with near have "repair_hz (repairCarCmdData s) (cal_move_distance ?s) = 0" by (simp add: repair_hz_def)
    then show ?thesis using s1 near True by simp
  next
    case False
    then have "repair_flag s1 = repair_flag s" using s1(4) far by simp
    then show ?thesis
      using Suc.IH [of s1] Suc.prems s1 car False by (auto simp: algebra_simps)
  qed
qed

text \<open>Before the last car the line runs, at a frequency for the distance that is left.\<close>

lemma repair_run_goes_on:
  assumes "usart_inv s" "reset_flag s \<noteq> 0" "repair_flag s \<noteq> 0"
    and "rc_standard_hz (repairCarCmdData s) < 20000" "rc_adjust_para (repairCarCmdData s) \<le> 48"
    and "unat (repair_locate_real s) = unat (cmd_carNo s) + n + 2 + unat (rc_adjust_para (repairCarCmdData s))"
    and "m < n" "d = n - m + 2 + unat (rc_adjust_para (repairCarCmdData s))"
  shows "\<exists>t. repair_run m s = Inr t \<and> repair_flag t = repair_flag s \<and> cmd_carNo t = cmd_carNo s + of_nat m
    \<and> (0 < m \<longrightarrow> servo_hz t = (if 100 < d then 3000 else if 50 < d then word_of_int ((uint (rc_standard_hz (repairCarCmdData s)) + 3000) div 2)
        else rc_standard_hz (repairCarCmdData s)))"
  using assms
proof (induction m arbitrary: n s)
  case 0
  then show ?case by simp
next
  case (Suc m)
  let ?s = "s\<lparr>cmd_carNo := cmd_carNo s + 1\<rparr>"
  let ?r = "repairCarCmdData s"
  let ?adj = "rc_adjust_para ?r"
  obtain k where k: "n = Suc k" "m < k" using Suc.prems(7) by (cases n) auto
  have car: "unat (cmd_carNo s + 1) = unat (cmd_carNo s) + 1"
    using Suc.prems(6) unat16 [of "repair_locate_real s"] by (simp add: unat_word_ariths)
  have le: "cmd_carNo s + 1 \<le> repair_locate_real s" using car Suc.prems(6) k(1) by (simp add: word_le_nat_alt)
  have dist: "unat (cal_move_distance ?s) = k + 2 + unat ?adj"
    using le car Suc.prems(6) k(1) by (simp add: cal_move_distance_def Let_def unat_sub)
  have far: "uint (cal_move_distance ?s) > 2 + uint ?adj" using dist k(2) unfolding uint_nat by linarith
  obtain s1 where s1: "repairLocationCtrl ?s = Inr s1" "usart_inv s1"
    "servo_hz s1 = word_of_int (repair_hz ?r (cal_move_distance ?s))"
    "repair_flag s1 = (if 50 < cal_move_distance ?s \<or> uint (cal_move_distance ?s) > 2 + uint ?adj then repair_flag s else 0)"
    "reset_flag s1 = reset_flag s" "cmd_carNo s1 = cmd_carNo s + 1" "repair_locate_real s1 = repair_locate_real s"
    "repairCarCmdData s1 = ?r"
    using repairLocationCtrl_step [of ?s] Suc.prems by auto
  have fl: "repair_flag s1 = repair_flag s" using s1(4) far by simp
  have at: "unat (repair_locate_real s1) = unat (cmd_carNo s1) + k + 2 + unat (rc_adjust_para (repairCarCmdData s1))"
    using Suc.prems(6) s1(6-8) car k(1) by simp
  have d: "d = k - m + 2 + unat (rc_adjust_para (repairCarCmdData s1))" using Suc.prems(8) k s1(8) by simp
  have run: "repair_run (Suc m) s = repair_run m s1" using s1(1) by simp
  show ?case
  proof (cases "m = 0")
    case True
    then have "unat (cal_move_distance ?s) = d" using d dist s1(8) by simp
    then have "servo_hz s1 = (if 100 < d then 3000 else if 50 < d then word_of_int ((uint (rc_standard_hz ?r) + 3000) div 2) else rc_standard_hz ?r)"
      using far unfolding s1(3) repair_hz_def by (simp add: word_less_nat_alt)
    then show ?thesis using True run fl s1(6) by (intro exI [of _ s1]) simp
  next
    case False
    have "reset_flag s1 \<noteq> 0" "repair_flag s1 \<noteq> 0" "rc_standard_hz (repairCarCmdData s1) < 20000" "rc_adjust_para (repairCarCmdData s1) \<le> 48"
      using Suc.prems(2-5) s1(5,8) fl by simp_all
    from Suc.IH [OF s1(2) this at k(2) d] obtain t where
      "repair_run m s1 = Inr t" "repair_flag t = repair_flag s" "cmd_carNo t = cmd_carNo s + 1 + of_nat m"
      "servo_hz t = (if 100 < d then 3000 else if 50 < d then word_of_int ((uint (rc_standard_hz ?r) + 3000) div 2) else rc_standard_hz ?r)"
      unfolding s1(6,8) fl using False by auto
    then show ?thesis unfolding run by (intro exI [of _ t]) simp
  qed
qed

section \<open>Properties\<close>

text \<open>C6: A start is staged as intended: whatever switches fire in which order, as long as the
  controller is not released it changes nothing at the drives; it is released exactly by the 12th
  car at the first switch, or by the 72nd when a second frequency is configured, and the start
  frequency is the configured one of the stage throughout.\<close>

theorem start_stages:
  assumes "repair_flag s = 0" "start_view s = (0, 0, 0, 0, hz0)"
    and "firsts (butlast evs) < release_at (second_stage_hz s)"
  shows "\<exists>s'. exti_run evs s = Inr s' \<and> uart_log s' = uart_log s
    \<and> start_view s' = stage_spec (first_stage_hz s) (second_stage_hz s) hz0 (firsts evs)
    \<and> (servo_start s' = 1 \<longleftrightarrow> release_at (second_stage_hz s) \<le> firsts evs)"
proof -
  have v: "start_view s = stage_spec (first_stage_hz s) (second_stage_hz s) hz0 0"
    using assms(2) by (simp add: stage_spec_def)
  obtain s' where s': "exti_run evs s = Inr s'" "uart_log s' = uart_log s"
    "start_view s' = stage_spec (first_stage_hz s) (second_stage_hz s) hz0 (0 + firsts evs)"
    using exti_run_before_release [OF assms(1) v, of evs] assms(3) by auto
  have "servo_start s' = fst (start_view s')" by (simp add: start_view_def)
  then show ?thesis using s' by (auto simp: stage_spec_def release_at_def)
qed

text \<open>C35: The measured time is the elapsed time: when the next switch fires \<open>d\<close> ticks of TIM2
  after the last one, whose counter value is stored, and TIM2 has wrapped \<open>w\<close> times meanwhile,
  the firmware records \<open>d - w\<close> (one tick is lost at a wrap-around), runs the controller on exactly this
  time at 50 microseconds a tick and keeps its result, sets the drives to a frequency of 0 to 50.00 Hz and restarts the measurement.\<close>

theorem switch_time_measured:
  assumes "pid_ready s" "usart_inv s" "repair_flag s = 0" "servo_start s = 1"
    and "exti_extid s \<noteq> 0" "uint e = uint (exti_extid s) + 1"
    and "d < 65536" "tim_wraps (exti_timCnt s) d < d" "timUpdates s = of_nat (tim_wraps (exti_timCnt s) d)"
  shows "\<exists>s' s1. fwPIDctrl (50 * (int d - int (tim_wraps (exti_timCnt s) d))) (s\<lparr>exti_extid := e, exti_timCnt := later, timUpdates := 0\<rparr>) = Inr s1
    \<and> s' = s1\<lparr>cmd_speed := of_nat (d - tim_wraps (exti_timCnt s) d)\<rparr>
    \<and> TIM_EXTI_Process e (tim_after (exti_timCnt s) d) later s = Inr s'
    \<and> cmd_speed s' = of_nat (d - tim_wraps (exti_timCnt s) d)
    \<and> exti_extid s' = e \<and> exti_timCnt s' = later \<and> timUpdates s' = 0
    \<and> 0 \<le> fwHz s' \<and> fwHz s' \<le> 5000 \<and> servo_hz s' = word_of_int (fwHz s') \<and> drives_set (servo_hz s') s s'
    \<and> pid_ready s' \<and> usart_inv s'"
  using assms by (rule measured_step)

text \<open>The lost tick can be fatal: when the next switch fires one tick after the last one and
  TIM2 wraps in between, the recorded time is 0, the speed is a division by zero, and the
  conversion of the infinite frequency to an integer is undefined.\<close>

theorem wrapped_tick_undefined:
  assumes "pid_ready s" "repair_flag s = 0" "servo_start s = 1"
    and "exti_extid s \<noteq> 0" "uint e = uint (exti_extid s) + 1"
    and "exti_timCnt s = 0xFFFF" "timUpdates s = 1" "0 < pe_distance s" "flt_less (Fin 0) (fwKp s)"
  shows "TIM_EXTI_Process e 0 later s = Inl Undefined"
proof -
  let ?m = "exti_mark e later s"
  obtain kp ki kd x p i where v: "fwKp s = Fin kp" "fwKi s = Fin ki" "fwKd s = Fin kd" "speed_target s = Fin x"
    "fwErr1 s = Fin p" "fwErrI s = Fin i" "pe_distance s \<le> 1000000"
    using assms(1) by (auto simp: pid_ready_def elim!: approxE)
  have m: "fwKp ?m = Fin kp" "fwKi ?m = Fin ki" "fwKd ?m = Fin kd" "speed_target ?m = Fin x"
    "fwErr1 ?m = Fin p" "fwErrI ?m = Fin i" "pe_distance ?m = pe_distance s"
    using v by (simp_all add: exti_mark_def)
  have "fwPIDctrl 0 ?m = Inl Undefined"
    using v(1,7) assms(8,9) by (intro fwPIDctrl_zero_time [OF m(4,1) _ m(2,3,5) _ _ m(6)]) (simp_all add: m(7))
  then show ?thesis
    using assms(3,6,7) by (simp add: process_measures [OF assms(2-5)] exti_measure_def Let_def)
qed

text \<open>C37: The repair position is cyclic and the distance to it is the number of cars that must
  still pass: for numbers and positions within the loop of \<open>car_tot_num\<close> cars,
  \<open>repair_car_para_init\<close> stores the position, again within the loop, and from then on
  \<open>cal_move_distance\<close> leads from the current car to it.\<close>

theorem repair_distance_leads_to_position:
  assumes "1 \<le> rc_repair_locate r" "rc_repair_locate r \<le> rc_car_tot_num r"
    and "1 \<le> rc_car_no r" "rc_car_no r \<le> rc_car_tot_num r" "cmd_carNo s \<le> rc_car_tot_num r"
    and "repairCarCmdData s = r" "rc_standard_hz r < 20000" "usart_inv s"
  shows "\<exists>s'. repair_car_para_init s = Inr s' \<and> uint (repair_locate_real s') = repair_position r
    \<and> 1 \<le> repair_position r \<and> repair_position r \<le> uint (rc_car_tot_num r)
    \<and> uint (rc_car_tot_num r) dvd uint (rc_repair_locate r) + uint (rc_car_no r) - 1 - repair_position r
    \<and> (unat (cmd_carNo s') + unat (cal_move_distance s')) mod unat (rc_car_tot_num r)
        = unat (repair_locate_real s') mod unat (rc_car_tot_num r)
    \<and> repair_flag s' = (if reset_flag s = 1 \<and> cal_distance_to_real_locate s' \<le> 2 then 0 else 1)"
proof -
  note range = repair_position_range [OF assms(1-4)]
  obtain s' where s': "repair_car_para_init s = Inr s'" "repair_locate_real s' = word_of_int (repair_position r)"
    "cmd_carNo s' = cmd_carNo s" "repairCarCmdData s' = r"
    "repair_flag s' = (if reset_flag s = 1 \<and> cal_distance_to_real_locate s' \<le> 2 then 0 else 1)"
    using repair_car_para_init_ok [OF assms(8,6,7) range(1)] by blast
  have "repair_position r < 2 ^ 16" using range(2) uint_bounded [of "rc_car_tot_num r"] by simp
  then have u: "uint (repair_locate_real s') = repair_position r"
    using range(1) s'(2) by (simp add: unsigned_of_int take_bit_int_eq_self)
  then have "repair_locate_real s' \<le> rc_car_tot_num (repairCarCmdData s')"
    using range(2) s'(4) by (simp add: word_le_def)
  then show ?thesis
    using move_distance_cyclic [of s'] assms(5) s' u range by auto
qed

text \<open>C36: The line stops at the repair position: once the car number is known, every car that
  passes the switch brings the line one car closer; as long as cars are left between the current one and
  the stopping distance \<open>2 + adjust_para\<close>, maintenance driving goes on, at the frequency for the distance that is
  left, and with the last of them, not before, the drives are set to 0 and maintenance driving ends.\<close>

theorem repair_run_reaches_position:
  assumes "usart_inv s" "reset_flag s \<noteq> 0" "repair_flag s \<noteq> 0"
    and "rc_standard_hz (repairCarCmdData s) < 20000" "rc_adjust_para (repairCarCmdData s) \<le> 48"
    and "unat (repair_locate_real s) = unat (cmd_carNo s) + n + 2 + unat (rc_adjust_para (repairCarCmdData s))"
    and "0 < n"
  shows "(\<exists>s'. repair_run n s = Inr s' \<and> repair_flag s' = 0 \<and> servo_hz s' = 0 \<and> cmd_carNo s' = cmd_carNo s + of_nat n)
    \<and> (\<forall>m<n. \<exists>t. repair_run m s = Inr t \<and> repair_flag t \<noteq> 0 \<and> cmd_carNo t = cmd_carNo s + of_nat m
        \<and> (let d = n - m + 2 + unat (rc_adjust_para (repairCarCmdData s)); hz = rc_standard_hz (repairCarCmdData s)
           in 0 < m \<longrightarrow> servo_hz t = (if 100 < d then 3000 else if 50 < d then word_of_int ((uint hz + 3000) div 2) else hz)))"
proof (intro conjI allI impI)
  show "\<exists>s'. repair_run n s = Inr s' \<and> repair_flag s' = 0 \<and> servo_hz s' = 0 \<and> cmd_carNo s' = cmd_carNo s + of_nat n"
    using assms by (rule repair_run_stops)
next
  fix m assume "m < n"
  from repair_run_goes_on [OF assms(1-6) this refl] show "\<exists>t. repair_run m s = Inr t \<and> repair_flag t \<noteq> 0 \<and> cmd_carNo t = cmd_carNo s + of_nat m
        \<and> (let d = n - m + 2 + unat (rc_adjust_para (repairCarCmdData s)); hz = rc_standard_hz (repairCarCmdData s)
           in 0 < m \<longrightarrow> servo_hz t = (if 100 < d then 3000 else if 50 < d then word_of_int ((uint hz + 3000) div 2) else hz))"
    unfolding Let_def using assms(3) by metis
qed

section \<open>Concrete instances\<close>

definition exti_bss :: timexti_st where
  "exti_bss = speed_st.extend speed_demo (timexti_st.fields 0 0 0 0 0 0 0 0
     \<lparr>rc_cmd = replicate 11 0, rc_car_no = 4, rc_repair_locate = 8, rc_car_tot_num = 20,
      rc_adjust_para = 1, rc_standard_hz = 1200\<rparr> 0 0)"

lemmas exti_demo_defs = exti_bss_def demo_defs timexti_st.defs speed_st.extend_def

definition exti_demo :: timexti_st where
  "exti_demo = exti_bss\<lparr>servo_start := 1, exti_extid := 1, exti_timCnt := 0xFFFF, timUpdates := 1\<rparr>"

lemma exti_demo_facts:
  "usart_inv exti_demo" "pid_ready exti_demo" "usart_inv exti_bss" "repair_flag exti_demo = 0"
  "servo_start exti_demo = 1" "exti_extid exti_demo = 1" "exti_timCnt exti_demo = 0xFFFF" "timUpdates exti_demo = 1"
  "pe_distance exti_demo = 75000" "fwKp exti_demo = Fin 40"
  by (simp_all add: exti_demo_def exti_demo_defs usart_inv_def uart_ok_def Let_def pid_ready_def approx_Fin)

theorem start_stages_witness:
  "\<exists>s'. exti_run (replicate 12 (1, 5, 6)) (exti_bss\<lparr>second_stage_hz := 1500\<rparr>) = Inr s'
     \<and> start_view s' = (0, 1, 0, 0, 1500)"
proof -
  let ?s = "exti_bss\<lparr>second_stage_hz := 1500\<rparr>" and ?evs = "replicate 12 (1, 5, 6) :: exti_event list"
  have start: "repair_flag ?s = 0" "start_view ?s = (0, 0, 0, 0, 0)"
    by (simp_all add: exti_demo_defs start_view_def Let_def)
  have n: "firsts ?evs = 12" "firsts (butlast ?evs) = 11"
    by (simp_all add: firsts_def butlast_conv_take)
  have h: "second_stage_hz ?s = 1500" by simp
  have "firsts (butlast ?evs) < release_at (second_stage_hz ?s)" unfolding n h by (simp add: release_at_def)
  from start_stages [OF start this] show ?thesis unfolding n h by (auto simp: stage_spec_def)
qed

theorem switch_time_measured_witness:
  "\<exists>s' s1. fwPIDctrl 74950 (exti_demo\<lparr>exti_extid := 2, exti_timCnt := 1500, timUpdates := 0\<rparr>) = Inr s1
     \<and> TIM_EXTI_Process 2 1499 1500 exti_demo = Inr s' \<and> s' = s1\<lparr>cmd_speed := 1499\<rparr> \<and> fwHz s' \<le> 5000"
proof -
  have w: "tim_wraps 0xFFFF 1500 = 1" "tim_after 0xFFFF 1500 = 1499"
    by (simp_all add: tim_wraps_def tim_after_def)
  show ?thesis
    using switch_time_measured [of exti_demo 2 1500 1500] by (auto simp: exti_demo_facts w)
qed

theorem wrapped_tick_undefined_witness: "TIM_EXTI_Process 2 0 0 exti_demo = Inl Undefined"
  by (rule wrapped_tick_undefined) (simp_all add: exti_demo_facts)

lemma exti_bss_repair: "repairCarCmdData exti_bss = \<lparr>rc_cmd = replicate 11 0, rc_car_no = 4, rc_repair_locate = 8,
    rc_car_tot_num = 20, rc_adjust_para = 1, rc_standard_hz = 1200\<rparr>"
  by (simp add: exti_demo_defs Let_def)

theorem repair_distance_leads_to_position_witness:
  "\<exists>s'. repair_car_para_init (exti_bss\<lparr>cmd_carNo := 17\<rparr>) = Inr s' \<and> uint (repair_locate_real s') = 11
     \<and> (unat (cmd_carNo s') + unat (cal_move_distance s')) mod 20 = 11"
proof -
  let ?s = "exti_bss\<lparr>cmd_carNo := 17\<rparr>" and ?r = "repairCarCmdData exti_bss"
  have r: "1 \<le> rc_repair_locate ?r" "rc_repair_locate ?r \<le> rc_car_tot_num ?r" "1 \<le> rc_car_no ?r"
    "rc_car_no ?r \<le> rc_car_tot_num ?r" "cmd_carNo ?s \<le> rc_car_tot_num ?r" "repairCarCmdData ?s = ?r"
    "rc_standard_hz ?r < 20000" and tot: "unat (rc_car_tot_num ?r) = 20" and p: "repair_position ?r = 11"
    by (simp_all add: exti_bss_repair repair_position_def)
  have inv: "usart_inv ?s" using exti_demo_facts(3) by simp
  obtain s' where s': "repair_car_para_init ?s = Inr s'" "uint (repair_locate_real s') = repair_position ?r"
    "(unat (cmd_carNo s') + unat (cal_move_distance s')) mod unat (rc_car_tot_num ?r)
       = unat (repair_locate_real s') mod unat (rc_car_tot_num ?r)"
    using repair_distance_leads_to_position [OF r inv] by blast
  have "unat (repair_locate_real s') = 11" unfolding unat_eq_nat_uint s'(2) p by simp
  then show ?thesis using s' unfolding tot p by (intro exI [of _ s'] conjI) simp_all
qed

theorem repair_run_reaches_position_witness:
  "\<exists>s'. repair_run 5 (exti_bss\<lparr>repair_flag := 1, reset_flag := 1, repair_locate_real := 11, cmd_carNo := 3\<rparr>) = Inr s'
     \<and> repair_flag s' = 0 \<and> servo_hz s' = 0 \<and> cmd_carNo s' = 8
   \<and> (\<exists>t. repair_run 4 (exti_bss\<lparr>repair_flag := 1, reset_flag := 1, repair_locate_real := 11, cmd_carNo := 3\<rparr>) = Inr t
     \<and> repair_flag t \<noteq> 0 \<and> servo_hz t = 1200)"
proof -
  let ?s = "exti_bss\<lparr>repair_flag := 1, reset_flag := 1, repair_locate_real := 11, cmd_carNo := 3\<rparr>"
  have a: "usart_inv ?s" "reset_flag ?s \<noteq> 0" "repair_flag ?s \<noteq> 0" "rc_standard_hz (repairCarCmdData ?s) < 20000"
    "rc_adjust_para (repairCarCmdData ?s) \<le> 48"
    "unat (repair_locate_real ?s) = unat (cmd_carNo ?s) + 5 + 2 + unat (rc_adjust_para (repairCarCmdData ?s))"
    using exti_demo_facts(3) by (simp_all add: usart_inv_def exti_bss_repair)
  have n: "(0 :: nat) < 5" "(4 :: nat) < 5" by simp_all
  note run = repair_run_reaches_position [OF a n(1)]
  from run obtain s' where s': "repair_run 5 ?s = Inr s'" "repair_flag s' = 0" "servo_hz s' = 0" "cmd_carNo s' = 8" by auto
  have "\<exists>t. repair_run 4 ?s = Inr t \<and> repair_flag t \<noteq> 0 \<and> servo_hz t = 1200"
    using run [THEN conjunct2, rule_format, OF n(2)] by (rule ex_forward) (simp add: exti_bss_repair)
  then obtain t where "repair_run 4 ?s = Inr t" "repair_flag t \<noteq> 0" "servo_hz t = 1200" by blast
  then show ?thesis using s' by blast
qed

end
