(* ===== verification/RingQueue.thy ===== *)
theory RingQueue
  imports Prelude
begin

text \<open>
  The circular queues of \<open>fun.c\<close>, \<open>carfun.c\<close>, \<open>carfuntwo.c\<close> and \<open>carfunthree.c\<close>: four queues
  of 16-bit message types (\<open>MSG_SEND_QUEUE\<close>), the queue of interval records and the queue of
  state nodes. \<open>rear\<close> is the index of the newest element, \<open>front\<close> the index before the oldest
  one, and one slot stays free, so a queue of \<open>maxSize\<close> slots holds \<open>maxSize - 1\<close> elements.

  The contract of all six is the locale \<open>bounded_fifo\<close>; the theory ends with its
  interpretations on the six models.
\<close>

section \<open>State\<close>

record 'a ring =
  queue :: "'a list"
  front :: u16
  rear :: u16
  maxSize :: u16

text \<open>The element that \<open>0\<close>-initialised memory gives a static array; before the \<open>Init\<close>
  functions run, \<open>maxSize\<close> is 0 and the \<open>queue\<close> pointer is null.\<close>

definition ring_bss :: "'a ring" where
  "ring_bss = \<lparr>queue = [], front = 0, rear = 0, maxSize = 0\<rparr>"

text \<open>\<open>(i + 1) % maxSize\<close>, computed in \<open>int\<close> and stored in a \<open>u16\<close>.\<close>

definition next_slot :: "'a ring \<Rightarrow> u16 \<Rightarrow> u16" where
  "next_slot q i = of_nat ((unat i + 1) mod unat (maxSize q))"

section \<open>The queues of message types\<close>

definition initQueue :: "u16 list \<Rightarrow> u16 \<Rightarrow> u16 ring" where
  "initQueue msgQueueBuff ms = \<lparr>queue = msgQueueBuff, front = 0, rear = 0, maxSize = ms\<rparr>"

definition enQueue :: "u16 ring \<Rightarrow> u16 \<Rightarrow> u16 ring result" where
  "enQueue q x =
     (if maxSize q = 0 then Inl Undefined
      else if next_slot q (rear q) = front q then Inr q
      else let r = next_slot q (rear q) in
           and_then (wr (queue q) (unat r) x) (\<lambda>buf. Inr (q\<lparr>rear := r, queue := buf\<rparr>)))"

definition outQueue :: "u16 ring \<Rightarrow> (u16 \<times> u16 ring) result" where
  "outQueue q =
     (if front q = rear q then Inr (0, q)
      else if maxSize q = 0 then Inl Undefined
      else let f = next_slot q (front q) in
           and_then (rd (queue q) (unat f)) (\<lambda>v. Inr (v, q\<lparr>front := f\<rparr>)))"

text \<open>\<open>carfun.c\<close>, \<open>carfuntwo.c\<close> and \<open>carfunthree.c\<close> repeat the three functions.\<close>

definition carinitQueue :: "u16 list \<Rightarrow> u16 \<Rightarrow> u16 ring" where
  "carinitQueue carQueueBuff ms = \<lparr>queue = carQueueBuff, front = 0, rear = 0, maxSize = ms\<rparr>"

definition carenQueue :: "u16 ring \<Rightarrow> u16 \<Rightarrow> u16 ring result" where
  "carenQueue q x =
     (if maxSize q = 0 then Inl Undefined
      else if next_slot q (rear q) = front q then Inr q
      else let r = next_slot q (rear q) in
           and_then (wr (queue q) (unat r) x) (\<lambda>buf. Inr (q\<lparr>rear := r, queue := buf\<rparr>)))"

definition caroutQueue :: "u16 ring \<Rightarrow> (u16 \<times> u16 ring) result" where
  "caroutQueue q =
     (if front q = rear q then Inr (0, q)
      else if maxSize q = 0 then Inl Undefined
      else let f = next_slot q (front q) in
           and_then (rd (queue q) (unat f)) (\<lambda>v. Inr (v, q\<lparr>front := f\<rparr>)))"

definition cartwoinitQueue :: "u16 list \<Rightarrow> u16 \<Rightarrow> u16 ring" where
  "cartwoinitQueue cartwoQueueBuff ms =
     \<lparr>queue = cartwoQueueBuff, front = 0, rear = 0, maxSize = ms\<rparr>"

definition cartwoenQueue :: "u16 ring \<Rightarrow> u16 \<Rightarrow> u16 ring result" where
  "cartwoenQueue q x =
     (if maxSize q = 0 then Inl Undefined
      else if next_slot q (rear q) = front q then Inr q
      else let r = next_slot q (rear q) in
           and_then (wr (queue q) (unat r) x) (\<lambda>buf. Inr (q\<lparr>rear := r, queue := buf\<rparr>)))"

definition cartwooutQueue :: "u16 ring \<Rightarrow> (u16 \<times> u16 ring) result" where
  "cartwooutQueue q =
     (if front q = rear q then Inr (0, q)
      else if maxSize q = 0 then Inl Undefined
      else let f = next_slot q (front q) in
           and_then (rd (queue q) (unat f)) (\<lambda>v. Inr (v, q\<lparr>front := f\<rparr>)))"

definition carthreeinitQueue :: "u16 list \<Rightarrow> u16 \<Rightarrow> u16 ring" where
  "carthreeinitQueue carthreeQueueBuff ms =
     \<lparr>queue = carthreeQueueBuff, front = 0, rear = 0, maxSize = ms\<rparr>"

definition carthreeenQueue :: "u16 ring \<Rightarrow> u16 \<Rightarrow> u16 ring result" where
  "carthreeenQueue q x =
     (if maxSize q = 0 then Inl Undefined
      else if next_slot q (rear q) = front q then Inr q
      else let r = next_slot q (rear q) in
           and_then (wr (queue q) (unat r) x) (\<lambda>buf. Inr (q\<lparr>rear := r, queue := buf\<rparr>)))"

definition carthreeoutQueue :: "u16 ring \<Rightarrow> (u16 \<times> u16 ring) result" where
  "carthreeoutQueue q =
     (if front q = rear q then Inr (0, q)
      else if maxSize q = 0 then Inl Undefined
      else let f = next_slot q (front q) in
           and_then (rd (queue q) (unat f)) (\<lambda>v. Inr (v, q\<lparr>front := f\<rparr>)))"

section \<open>The queues of records\<close>

text \<open>The getters return a pointer to the slot or the null pointer; the model returns the
  slot's content or \<open>None\<close>. The slot is the one that stays free, so no later insertion
  overwrites it before the next removal.\<close>

record interval_data =
  PreCarNum :: u16
  CurCarNum :: u16
  interval :: u16

record state_node =
  node_speed :: u32
  carnum :: u16
  servo :: u16

definition interval_init :: "interval_data list \<Rightarrow> interval_data ring" where
  "interval_init gnd2WcsIntervalData =
     \<lparr>queue = gnd2WcsIntervalData, front = 0, rear = 0, maxSize = 20\<rparr>"

definition interval_add :: "interval_data ring \<Rightarrow> interval_data \<Rightarrow> interval_data ring result" where
  "interval_add q x =
     (if maxSize q = 0 then Inl Undefined
      else if next_slot q (rear q) = front q then Inr q
      else let r = next_slot q (rear q) in
           and_then (wr (queue q) (unat r) x) (\<lambda>buf. Inr (q\<lparr>rear := r, queue := buf\<rparr>)))"

definition pxGetMsgFromIntervalQueue ::
  "interval_data ring \<Rightarrow> (interval_data option \<times> interval_data ring) result" where
  "pxGetMsgFromIntervalQueue q =
     (if front q = rear q then Inr (None, q)
      else if maxSize q = 0 then Inl Undefined
      else let f = next_slot q (front q) in
           and_then (rd (queue q) (unat f)) (\<lambda>v. Inr (Some v, q\<lparr>front := f\<rparr>)))"

definition state_init :: "state_node list \<Rightarrow> state_node ring" where
  "state_init gnd2wcsstatenode =
     \<lparr>queue = gnd2wcsstatenode, front = 0, rear = 0, maxSize = 20\<rparr>"

definition state_add :: "state_node ring \<Rightarrow> state_node \<Rightarrow> state_node ring result" where
  "state_add q x =
     (if maxSize q = 0 then Inl Undefined
      else if next_slot q (rear q) = front q then Inr q
      else let r = next_slot q (rear q) in
           and_then (wr (queue q) (unat r) x) (\<lambda>buf. Inr (q\<lparr>rear := r, queue := buf\<rparr>)))"

definition pxGetMsgFromStateQueue ::
  "state_node ring \<Rightarrow> (state_node option \<times> state_node ring) result" where
  "pxGetMsgFromStateQueue q =
     (if front q = rear q then Inr (None, q)
      else if maxSize q = 0 then Inl Undefined
      else let f = next_slot q (front q) in
           and_then (rd (queue q) (unat f)) (\<lambda>v. Inr (Some v, q\<lparr>front := f\<rparr>)))"

definition state_queue_nonempty :: "state_node ring \<Rightarrow> u8" where
  "state_queue_nonempty q = (if front q = rear q then 0 else 1)"

section \<open>The abstraction to a list\<close>

definition ring_count :: "'a ring \<Rightarrow> nat" where
  "ring_count q =
     (if front q \<le> rear q then unat (rear q) - unat (front q)
      else unat (rear q) + unat (maxSize q) - unat (front q))"

text \<open>The elements, the oldest first.\<close>

definition ring_items :: "'a ring \<Rightarrow> 'a list" where
  "ring_items q = map (\<lambda>k. queue q ! ((unat (front q) + 1 + k) mod unat (maxSize q))) [0..<ring_count q]"

definition ring_ok :: "nat \<Rightarrow> 'a ring \<Rightarrow> bool" where
  "ring_ok n q \<longleftrightarrow> 0 < n \<and> unat (maxSize q) = n \<and> front q < maxSize q \<and> rear q < maxSize q
     \<and> length (queue q) = n"

lemma ring_ok_nonzero: "ring_ok n q \<Longrightarrow> maxSize q \<noteq> 0"
  by (auto simp: ring_ok_def)

lemma length_ring_items [simp]: "length (ring_items q) = ring_count q"
  by (simp add: ring_items_def)

lemma ring_count_bound: "ring_ok n q \<Longrightarrow> ring_count q < n"
  by (auto simp: ring_ok_def ring_count_def word_less_nat_alt word_le_nat_alt)

lemma ring_count_zero: "ring_ok n q \<Longrightarrow> ring_count q = 0 \<longleftrightarrow> front q = rear q"
  by (auto simp: ring_ok_def ring_count_def word_less_nat_alt word_le_nat_alt word_unat_eq_iff)

lemma unat_next_slot: "maxSize q \<noteq> 0 \<Longrightarrow> unat (next_slot q i) = (unat i + 1) mod unat (maxSize q)"
proof -
  assume "maxSize q \<noteq> 0"
  then have "(unat i + 1) mod unat (maxSize q) < unat (maxSize q)"
    by (simp add: unat_gt_0)
  also have "unat (maxSize q) < 2 ^ 16" using unsigned_less [of "maxSize q"] by simp
  finally show ?thesis unfolding next_slot_def by (simp add: unat_of_nat)
qed

lemma next_slot_less: "ring_ok n q \<Longrightarrow> next_slot q i < maxSize q"
  using unat_next_slot [OF ring_ok_nonzero, of n q i]
  by (simp add: word_less_nat_alt ring_ok_def)

text \<open>The queue is full exactly when its newest slot is followed by \<open>front\<close>.\<close>

lemma ring_full_iff:
  assumes "ring_ok n q"
  shows "next_slot q (rear q) = front q \<longleftrightarrow> ring_count q = n - 1"
proof -
  have "next_slot q (rear q) = front q \<longleftrightarrow> (unat (rear q) + 1) mod n = unat (front q)"
    using assms unat_next_slot [OF ring_ok_nonzero [OF assms], of "rear q"]
    by (auto simp: ring_ok_def word_unat_eq_iff)
  also have "\<dots> \<longleftrightarrow> ring_count q = n - 1"
    using assms
    by (auto simp: ring_ok_def ring_count_def word_less_nat_alt word_le_nat_alt mod_if)
  finally show ?thesis .
qed

definition ring_put :: "'a ring \<Rightarrow> 'a \<Rightarrow> 'a ring result" where
  "ring_put q x =
     (if maxSize q = 0 then Inl Undefined
      else if next_slot q (rear q) = front q then Inr q
      else let r = next_slot q (rear q) in
           and_then (wr (queue q) (unat r) x) (\<lambda>buf. Inr (q\<lparr>rear := r, queue := buf\<rparr>)))"

definition ring_get :: "'a ring \<Rightarrow> ('a option \<times> 'a ring) result" where
  "ring_get q =
     (if front q = rear q then Inr (None, q)
      else if maxSize q = 0 then Inl Undefined
      else let f = next_slot q (front q) in
           and_then (rd (queue q) (unat f)) (\<lambda>v. Inr (Some v, q\<lparr>front := f\<rparr>)))"

lemma ring_put_full:
  "ring_ok n q \<Longrightarrow> ring_count q = n - 1 \<Longrightarrow> ring_put q x = Inr q"
  using ring_full_iff [of n q] by (simp add: ring_put_def ring_ok_nonzero)

lemma ring_put_room:
  assumes ok: "ring_ok n q" and room: "ring_count q < n - 1"
  shows "\<exists>q'. ring_put q x = Inr q' \<and> ring_ok n q' \<and> ring_items q' = ring_items q @ [x]"
proof -
  let ?r = "next_slot q (rear q)"
  let ?q = "q\<lparr>rear := ?r, queue := (queue q)[unat ?r := x]\<rparr>"
  have N: "unat (maxSize q) = n" and lens: "length (queue q) = n" and pos: "0 < n"
    and f: "unat (front q) < n" and r: "unat (rear q) < n"
    using ok by (auto simp: ring_ok_def word_less_nat_alt)
  have r': "unat ?r = (unat (rear q) + 1) mod n"
    using unat_next_slot [OF ring_ok_nonzero [OF ok]] N by simp
  have rb: "unat ?r < n" using r' pos by simp
  have put: "ring_put q x = Inr ?q"
    using ok room ring_full_iff [OF ok] rb lens
    by (auto simp: ring_put_def ring_ok_nonzero Let_def)
  have ok': "ring_ok n ?q"
    using ok next_slot_less [OF ok] by (simp add: ring_ok_def)
  have cnt: "ring_count ?q = Suc (ring_count q)"
    using room f r pos N r'
    by (auto simp: ring_count_def word_le_nat_alt mod_if split: if_splits)
  have old: "(unat (front q) + 1 + k) mod n \<noteq> unat ?r" if "k < ring_count q" for k
    using that room f r pos N r'
    by (auto simp: ring_count_def word_le_nat_alt mod_if split: if_splits)
  have new: "(unat (front q) + 1 + ring_count q) mod n = unat ?r"
    using f r pos N r' by (auto simp: ring_count_def word_le_nat_alt mod_if)
  have keep: "(queue q)[unat ?r := x] ! ((unat (front q) + 1 + k) mod n)
      = queue q ! ((unat (front q) + 1 + k) mod n)" if "k < ring_count q" for k
    using old [OF that] by (metis nth_list_update_neq)
  have "ring_items ?q = ring_items q @ [x]"
    using keep new rb lens N by (simp add: ring_items_def cnt)
  then show ?thesis using put ok' by blast
qed

lemma ring_get_empty:
  "ring_ok n q \<Longrightarrow> ring_items q = [] \<Longrightarrow> ring_get q = Inr (None, q)"
proof -
  assume ok: "ring_ok n q" and "ring_items q = []"
  then have "ring_count q = 0" by (metis length_ring_items list.size(3))
  then show ?thesis using ring_count_zero [OF ok] by (simp add: ring_get_def)
qed

lemma ring_get_item:
  assumes ok: "ring_ok n q" and items: "ring_items q = x # xs"
  shows "\<exists>q'. ring_get q = Inr (Some x, q') \<and> ring_ok n q' \<and> ring_items q' = xs"
proof -
  let ?f = "next_slot q (front q)"
  let ?q = "q\<lparr>front := ?f\<rparr>"
  have N: "unat (maxSize q) = n" and lens: "length (queue q) = n" and pos: "0 < n"
    and f: "unat (front q) < n" and r: "unat (rear q) < n"
    using ok by (auto simp: ring_ok_def word_less_nat_alt)
  have cpos: "0 < ring_count q" using items by (metis length_ring_items length_greater_0_conv list.discI)
  then have ne: "front q \<noteq> rear q" using ring_count_zero [OF ok] by auto
  then have ne': "unat (front q) \<noteq> unat (rear q)" by (simp add: word_unat_eq_iff)
  have f': "unat ?f = (unat (front q) + 1) mod n"
    using unat_next_slot [OF ring_ok_nonzero [OF ok]] N by simp
  have fb: "unat ?f < n" using f' pos by simp
  have cnt: "ring_count q = Suc (ring_count ?q)"
    using ne' f r pos N f'
    by (auto simp: ring_count_def word_le_nat_alt mod_if split: if_splits)
  have idx: "Suc (Suc (unat (front q)) mod n + k) mod n = Suc (Suc (unat (front q) + k)) mod n" for k
    by (metis add_Suc mod_Suc_eq mod_add_left_eq)
  have split: "ring_items q = queue q ! unat ?f # ring_items ?q"
    using N f' by (simp add: ring_items_def cnt idx map_upt_Suc del: upt_Suc)
  then have "ring_get q = Inr (Some x, ?q)"
    using items ne fb lens by (simp add: ring_get_def ring_ok_nonzero [OF ok] Let_def)
  moreover have "ring_ok n ?q" using ok next_slot_less [OF ok] by (simp add: ring_ok_def)
  ultimately show ?thesis using items split by auto
qed

section \<open>The contract of a bounded FIFO queue\<close>

text \<open>Operations on a queue, the run of a sequence of them, and the same run on the
  abstract list. \<open>outs\<close> collects what the removals returned.\<close>

datatype 'a qop = Enq 'a | Deq

fun run_queue ::
  "('q \<Rightarrow> 'a \<Rightarrow> 'q result) \<Rightarrow> ('q \<Rightarrow> ('r \<times> 'q) result) \<Rightarrow> 'q \<Rightarrow> 'a qop list \<Rightarrow> ('r list \<times> 'q) result"
where
  "run_queue enq deq q [] = Inr ([], q)"
| "run_queue enq deq q (Enq x # ops) = and_then (enq q x) (\<lambda>q'. run_queue enq deq q' ops)"
| "run_queue enq deq q (Deq # ops) =
     and_then (deq q) (\<lambda>(r, q'). and_then (run_queue enq deq q' ops) (\<lambda>(rs, q''). Inr (r # rs, q'')))"

fun fifo_run :: "nat \<Rightarrow> 'a list \<Rightarrow> 'a qop list \<Rightarrow> 'a option list \<times> 'a list" where
  "fifo_run cap xs [] = ([], xs)"
| "fifo_run cap xs (Enq x # ops) = fifo_run cap (if length xs < cap then xs @ [x] else xs) ops"
| "fifo_run cap xs (Deq # ops) =
     (case xs of
        [] \<Rightarrow> (let (rs, ys) = fifo_run cap [] ops in (None # rs, ys))
      | x # xs' \<Rightarrow> (let (rs, ys) = fifo_run cap xs' ops in (Some x # rs, ys)))"

text \<open>The elements a run accepts: those inserted while there was room.\<close>

fun accepted :: "nat \<Rightarrow> nat \<Rightarrow> 'a qop list \<Rightarrow> 'a list" where
  "accepted cap n [] = []"
| "accepted cap n (Enq x # ops) =
     (if n < cap then x # accepted cap (Suc n) ops else accepted cap n ops)"
| "accepted cap n (Deq # ops) = accepted cap (n - 1) ops"

definition the_outs :: "'a option list \<Rightarrow> 'a list" where
  "the_outs rs = map the (filter (\<lambda>r. r \<noteq> None) rs)"

lemma the_outs_simps [simp]:
  "the_outs [] = []" "the_outs (None # rs) = the_outs rs" "the_outs (Some x # rs) = x # the_outs rs"
  by (simp_all add: the_outs_def)

text \<open>First in, first out: what comes out, followed by what is still queued, is what was
  queued at the start followed by what was accepted, in order.\<close>

lemma fifo_run_order:
  "fifo_run cap xs ops = (rs, ys) \<Longrightarrow> the_outs rs @ ys = xs @ accepted cap (length xs) ops"
proof (induction cap xs ops arbitrary: rs ys rule: fifo_run.induct)
  case (1 cap xs)
  then show ?case by simp
next
  case (2 cap xs x ops)
  then show ?case by (cases "length xs < cap") auto
next
  case (3 cap xs ops)
  then show ?case by (auto split: list.splits prod.splits)
qed

lemma fifo_run_bound: "length xs \<le> cap \<Longrightarrow> length (snd (fifo_run cap xs ops)) \<le> cap"
  by (induction cap xs ops rule: fifo_run.induct) (auto split: list.splits prod.splits)

locale bounded_fifo =
  fixes enq :: "'q \<Rightarrow> 'a \<Rightarrow> 'q result"
    and deq :: "'q \<Rightarrow> ('r \<times> 'q) result"
    and ret :: "'a option \<Rightarrow> 'r"
    and items :: "'q \<Rightarrow> 'a list"
    and ok :: "'q \<Rightarrow> bool"
    and cap :: nat
  assumes bounded: "ok q \<Longrightarrow> length (items q) \<le> cap"
    and enq_full: "ok q \<Longrightarrow> length (items q) = cap \<Longrightarrow> enq q x = Inr q"
    and enq_room: "ok q \<Longrightarrow> length (items q) < cap \<Longrightarrow>
          \<exists>q'. enq q x = Inr q' \<and> ok q' \<and> items q' = items q @ [x]"
    and deq_empty: "ok q \<Longrightarrow> items q = [] \<Longrightarrow> deq q = Inr (ret None, q)"
    and deq_item: "ok q \<Longrightarrow> items q = x # xs \<Longrightarrow>
          \<exists>q'. deq q = Inr (ret (Some x), q') \<and> ok q' \<and> items q' = xs"
begin

lemma enq_total:
  assumes "ok q"
  shows "\<exists>q'. enq q x = Inr q' \<and> ok q' \<and>
           items q' = (if length (items q) < cap then items q @ [x] else items q)"
proof (cases "length (items q) < cap")
  case True
  then show ?thesis using enq_room [OF assms] by simp
next
  case False
  then have "length (items q) = cap" using bounded [OF assms] by simp
  then show ?thesis using enq_full [OF assms] assms by simp
qed

lemma deq_total:
  assumes "ok q"
  shows "\<exists>q'. deq q = Inr (ret (case items q of [] \<Rightarrow> None | x # _ \<Rightarrow> Some x), q') \<and> ok q'
           \<and> items q' = tl (items q)"
proof (cases "items q")
  case Nil
  then show ?thesis using deq_empty assms by simp
next
  case (Cons x xs)
  then show ?thesis using deq_item [OF assms Cons] by simp
qed

lemma run_refines:
  assumes "ok q"
  shows "\<exists>q'. run_queue enq deq q ops = Inr (map ret (fst (fifo_run cap (items q) ops)), q')
           \<and> ok q' \<and> items q' = snd (fifo_run cap (items q) ops)"
  using assms
proof (induction ops arbitrary: q)
  case Nil
  then show ?case by simp
next
  case (Cons op ops)
  show ?case
  proof (cases op)
    case (Enq x)
    obtain q1 where "enq q x = Inr q1" "ok q1"
      and "items q1 = (if length (items q) < cap then items q @ [x] else items q)"
      using enq_total [OF Cons.prems] by blast
    then show ?thesis using Cons.IH [of q1] Enq by simp
  next
    case Deq
    obtain q1 where d: "deq q = Inr (ret (case items q of [] \<Rightarrow> None | x # _ \<Rightarrow> Some x), q1)"
      and ok1: "ok q1" and "items q1 = tl (items q)"
      using deq_total [OF Cons.prems] by blast
    then show ?thesis
      using Cons.IH [OF ok1] Deq by (cases "items q") (auto split: prod.splits)
  qed
qed

end

section \<open>The six queues meet the contract\<close>

definition msg_of :: "u16 option \<Rightarrow> u16" where
  "msg_of r = (case r of None \<Rightarrow> 0 | Some v \<Rightarrow> v)"

text \<open>The getters of the message queues return \<open>MSG_NULL_TYPE\<close> for an empty queue.\<close>

lemma outQueue_ring_get:
  "outQueue q = and_then (ring_get q) (\<lambda>(r, q'). Inr (msg_of r, q'))"
  by (cases "rd (queue q) (unat (next_slot q (front q)))")
     (auto simp: outQueue_def ring_get_def msg_of_def Let_def)

lemma enQueue_ring_put: "enQueue = ring_put"
  "carenQueue = ring_put" "cartwoenQueue = ring_put" "carthreeenQueue = ring_put"
  "interval_add = ring_put" "state_add = ring_put"
  by (auto simp: fun_eq_iff enQueue_def carenQueue_def cartwoenQueue_def carthreeenQueue_def
      interval_add_def state_add_def ring_put_def)

lemma outQueue_copies: "caroutQueue = outQueue" "cartwooutQueue = outQueue"
  "carthreeoutQueue = outQueue"
  by (auto simp: fun_eq_iff outQueue_def caroutQueue_def cartwooutQueue_def carthreeoutQueue_def)

lemma pxGet_ring_get: "pxGetMsgFromIntervalQueue = ring_get" "pxGetMsgFromStateQueue = ring_get"
  by (auto simp: fun_eq_iff pxGetMsgFromIntervalQueue_def pxGetMsgFromStateQueue_def ring_get_def)

lemma outQueue_empty:
  "ring_ok n q \<Longrightarrow> ring_items q = [] \<Longrightarrow> outQueue q = Inr (0, q)"
  using ring_get_empty [of n q] by (simp add: outQueue_ring_get msg_of_def)

lemma outQueue_item:
  "ring_ok n q \<Longrightarrow> ring_items q = x # xs \<Longrightarrow>
   \<exists>q'. outQueue q = Inr (x, q') \<and> ring_ok n q' \<and> ring_items q' = xs"
  using ring_get_item [of n q x xs] by (auto simp: outQueue_ring_get msg_of_def)

lemma ring_count_le: "ring_ok n q \<Longrightarrow> ring_count q \<le> n - 1"
  using ring_count_bound [of n q] by simp

lemmas ring_laws = ring_count_le ring_put_full ring_put_room ring_get_empty ring_get_item
  outQueue_empty outQueue_item

interpretation msgq: bounded_fifo enQueue outQueue msg_of ring_items "ring_ok 100" 99
  by unfold_locales
     (use ring_laws [of 100] in \<open>auto simp: enQueue_ring_put msg_of_def\<close>)

interpretation carq: bounded_fifo carenQueue caroutQueue msg_of ring_items "ring_ok 50" 49
  by unfold_locales
     (use ring_laws [of 50] in \<open>auto simp: enQueue_ring_put outQueue_copies msg_of_def\<close>)

interpretation cartwoq: bounded_fifo cartwoenQueue cartwooutQueue msg_of ring_items "ring_ok 50" 49
  by unfold_locales
     (use ring_laws [of 50] in \<open>auto simp: enQueue_ring_put outQueue_copies msg_of_def\<close>)

interpretation carthreeq:
  bounded_fifo carthreeenQueue carthreeoutQueue msg_of ring_items "ring_ok 50" 49
  by unfold_locales
     (use ring_laws [of 50] in \<open>auto simp: enQueue_ring_put outQueue_copies msg_of_def\<close>)

interpretation intervalq:
  bounded_fifo interval_add pxGetMsgFromIntervalQueue "\<lambda>r. r" ring_items "ring_ok 20" 19
  by unfold_locales
     (use ring_laws [of 20] in \<open>auto simp: enQueue_ring_put pxGet_ring_get\<close>)

interpretation stateq:
  bounded_fifo state_add pxGetMsgFromStateQueue "\<lambda>r. r" ring_items "ring_ok 20" 19
  by unfold_locales
     (use ring_laws [of 20] in \<open>auto simp: enQueue_ring_put pxGet_ring_get\<close>)

section \<open>An operation interrupted by an insertion\<close>

text \<open>The interrupt handlers insert into queues the main loop also uses. The two statements of
  \<open>enQueue\<close> after its test, and those of \<open>outQueue\<close>: the index is advanced, then the slot at the index
  is accessed. The flag says that the function has not returned at its test.\<close>

definition enQueue_claim :: "u16 ring \<Rightarrow> (bool \<times> u16 ring) result" where
  "enQueue_claim q =
     (if maxSize q = 0 then Inl Undefined
      else if next_slot q (rear q) = front q then Inr (False, q)
      else Inr (True, q\<lparr>rear := next_slot q (rear q)\<rparr>))"

definition enQueue_store :: "u16 ring \<Rightarrow> u16 \<Rightarrow> u16 ring result" where
  "enQueue_store q x = and_then (wr (queue q) (unat (rear q)) x) (\<lambda>buf. Inr (q\<lparr>queue := buf\<rparr>))"

definition outQueue_claim :: "u16 ring \<Rightarrow> (bool \<times> u16 ring) result" where
  "outQueue_claim q =
     (if front q = rear q then Inr (False, q)
      else if maxSize q = 0 then Inl Undefined
      else Inr (True, q\<lparr>front := next_slot q (front q)\<rparr>))"

definition outQueue_fetch :: "u16 ring \<Rightarrow> (u16 \<times> u16 ring) result" where
  "outQueue_fetch q = and_then (rd (queue q) (unat (front q))) (\<lambda>v. Inr (v, q))"

lemma enQueue_halves:
  "enQueue q x = and_then (enQueue_claim q) (\<lambda>(go, q). if go then enQueue_store q x else Inr q)"
  by (cases "wr (queue q) (unat (next_slot q (rear q))) x") (auto simp: enQueue_def enQueue_claim_def enQueue_store_def Let_def)

lemma outQueue_halves:
  "outQueue q = and_then (outQueue_claim q) (\<lambda>(go, q). if go then outQueue_fetch q else Inr (0, q))"
  by (auto simp: outQueue_def outQueue_claim_def outQueue_fetch_def Let_def)

lemma ring_items_snoc:
  assumes ok: "ring_ok n q" and room: "ring_count q < n - 1"
  shows "ring_ok n (q\<lparr>rear := next_slot q (rear q)\<rparr>)"
    "ring_items (q\<lparr>rear := next_slot q (rear q)\<rparr>) = ring_items q @ [queue q ! unat (next_slot q (rear q))]"
    "unat (next_slot q (rear q)) < n" "next_slot q (rear q) \<noteq> front q"
proof -
  let ?r = "next_slot q (rear q)"
  show r: "unat ?r < n" using next_slot_less [OF ok, of "rear q"] ok by (simp add: ring_ok_def word_less_nat_alt)
  show ne: "?r \<noteq> front q" using ring_full_iff [OF ok] room by simp
  show "ring_ok n (q\<lparr>rear := ?r\<rparr>)" using ok next_slot_less [OF ok] by (simp add: ring_ok_def)
  obtain q' where q': "ring_put q (queue q ! unat ?r) = Inr q'" "ring_items q' = ring_items q @ [queue q ! unat ?r]"
    using ring_put_room [OF ok room] by blast
  have "length (queue q) = n" using ok by (simp add: ring_ok_def)
  then have "q' = q\<lparr>rear := ?r\<rparr>"
    using q'(1) r ne by (simp add: ring_put_def ring_ok_nonzero [OF ok] Let_def)
  then show "ring_items (q\<lparr>rear := ?r\<rparr>) = ring_items q @ [queue q ! unat ?r]" using q'(2) by simp
qed

text \<open>Writing the newest slot replaces the newest element.\<close>

lemma store_newest:
  assumes "ring_ok n q" "ring_items q \<noteq> []"
  shows "enQueue_store q x = Inr (q\<lparr>queue := (queue q)[unat (rear q) := x]\<rparr>)"
    and "ring_items (q\<lparr>queue := (queue q)[unat (rear q) := x]\<rparr>) = butlast (ring_items q) @ [x]"
proof -
  have N: "unat (maxSize q) = n" and lens: "length (queue q) = n" and pos: "0 < n"
    and f: "unat (front q) < n" and r: "unat (rear q) < n"
    using assms by (auto simp: ring_ok_def word_less_nat_alt)
  show "enQueue_store q x = Inr (q\<lparr>queue := (queue q)[unat (rear q) := x]\<rparr>)"
    using r lens by (simp add: enQueue_store_def)
  let ?q = "q\<lparr>queue := (queue q)[unat (rear q) := x]\<rparr>"
  have "0 < ring_count q" using assms(2) by (metis length_greater_0_conv length_ring_items)
  then obtain m where m: "ring_count q = Suc m" by (cases "ring_count q") auto
  have idx: "(unat (front q) + 1 + k) mod n = unat (rear q) \<longleftrightarrow> k = m" if "k \<le> m" for k
  proof -
    have "unat (front q) + 1 + k < 2 * n" using that m f ring_count_bound [OF assms(1)] by linarith
    then have "(unat (front q) + 1 + k) mod n
        = (if unat (front q) + 1 + k < n then unat (front q) + 1 + k else unat (front q) + 1 + k - n)"
      by (simp add: le_mod_geq)
    then show ?thesis using that m f r N by (auto simp: ring_count_def word_le_nat_alt split: if_splits)
  qed
  have "ring_count ?q = ring_count q" by (simp add: ring_count_def)
  then have cnt: "ring_count ?q = Suc m" using m by simp
  define g where "g k = (unat (front q) + 1 + k) mod n" for k
  have new: "ring_items ?q = map (\<lambda>k. (queue q)[unat (rear q) := x] ! g k) [0..<Suc m]"
    unfolding ring_items_def cnt by (simp add: g_def N)
  have old: "ring_items q = map (\<lambda>k. queue q ! g k) [0..<Suc m]"
    unfolding ring_items_def m by (simp add: g_def N)
  have "g k \<noteq> unat (rear q)" if "k < m" for k using idx [of k] that by (simp add: g_def)
  then have "map (\<lambda>k. (queue q)[unat (rear q) := x] ! g k) [0..<m] = map (\<lambda>k. queue q ! g k) [0..<m]"
    by (simp add: nth_list_update_neq [OF not_sym])
  moreover have "(queue q)[unat (rear q) := x] ! g m = x" using idx [of m] r lens by (simp add: g_def)
  ultimately show "ring_items ?q = butlast (ring_items q) @ [x]" unfolding new old by simp
qed

text \<open>A removal interrupted by an insertion.\<close>

lemma removal_interrupted:
  assumes ok: "ring_ok n q" and items: "ring_items q = m # ms"
  shows "\<exists>q1 q2 q3. outQueue_claim q = Inr (True, q1) \<and> enQueue q1 y = Inr q2
      \<and> outQueue_fetch q2 = Inr (m, q3) \<and> ring_items q3 = ms @ [y]"
proof -
  let ?q1 = "q\<lparr>front := next_slot q (front q)\<rparr>"
  have lens: "length (queue q) = n" "0 < n" using ok by (auto simp: ring_ok_def)
  have fb: "unat (next_slot q (front q)) < n"
    using next_slot_less [OF ok, of "front q"] ok by (simp add: ring_ok_def word_less_nat_alt)
  have c: "ring_count q = Suc (length ms)" by (metis items length_Cons length_ring_items)
  then have ne: "front q \<noteq> rear q" using ring_count_zero [OF ok] by auto
  obtain q' where q': "ring_get q = Inr (Some m, q')" "ring_ok n q'" "ring_items q' = ms"
    using ring_get_item [OF ok items] by blast
  then have g: "?q1 = q'" "queue q ! unat (next_slot q (front q)) = m"
    using ne fb lens by (simp_all add: ring_get_def ring_ok_nonzero [OF ok] Let_def)
  have one: "ring_ok n ?q1" "ring_items ?q1 = ms" using q'(2,3) g(1) by simp_all
  have room: "ring_count ?q1 < n - 1"
    using ring_count_bound [OF ok] c one(2) length_ring_items [of ?q1] by simp
  let ?r = "next_slot ?q1 (rear ?q1)"
  have r: "unat ?r < n" "?r \<noteq> front ?q1" using ring_items_snoc(3,4) [OF one(1) room] by blast+
  let ?q2 = "?q1\<lparr>rear := ?r, queue := (queue ?q1)[unat ?r := y]\<rparr>"
  have put: "enQueue ?q1 y = Inr ?q2"
    using r lens ring_ok_nonzero [OF one(1)] by (simp add: enQueue_def Let_def)
  have items2: "ring_items ?q2 = ms @ [y]"
    using ring_put_room [OF one(1) room, of y] put one(2) unfolding enQueue_ring_put by auto
  have "queue ?q2 ! unat (front ?q2) = m" using r(2) g(2) by (simp add: word_unat_eq_iff)
  then have "outQueue_fetch ?q2 = Inr (m, ?q2)" using fb lens by (simp add: outQueue_fetch_def)
  moreover have "outQueue_claim q = Inr (True, ?q1)" using ne by (simp add: outQueue_claim_def ring_ok_nonzero [OF ok])
  ultimately show ?thesis using put items2 by blast
qed

section \<open>Properties\<close>

text \<open>C12: The queue of messages is a FIFO queue: every sequence of insertions and removals on the
  initialised queue behaves like the same sequence on a list of at most 99 elements, the removals
  giving \<open>MSG_NULL_TYPE\<close> when the list is empty; what comes out and what is left is, in order, what was
  inserted while there was room. The queues of the clients, of the intervals and of the states do the
  same with their sizes.\<close>

theorem queues_are_fifo:
  "(\<exists>q. run_queue enQueue outQueue (initQueue (replicate 100 0) 100) ops = Inr (map msg_of (fst (fifo_run 99 [] ops)), q)
       \<and> ring_items q = snd (fifo_run 99 [] ops)
       \<and> the_outs (fst (fifo_run 99 [] ops)) @ ring_items q = accepted 99 0 ops)
   \<and> (\<exists>q. run_queue carenQueue caroutQueue (carinitQueue (replicate 50 0) 50) ops = Inr (map msg_of (fst (fifo_run 49 [] ops)), q)
       \<and> ring_items q = snd (fifo_run 49 [] ops))
   \<and> (\<exists>q. run_queue interval_add pxGetMsgFromIntervalQueue (interval_init (replicate 20 i)) iops = Inr (fst (fifo_run 19 [] iops), q)
       \<and> ring_items q = snd (fifo_run 19 [] iops))
   \<and> (\<exists>q. run_queue state_add pxGetMsgFromStateQueue (state_init (replicate 20 n)) sops = Inr (fst (fifo_run 19 [] sops), q)
       \<and> ring_items q = snd (fifo_run 19 [] sops))"
proof (intro conjI)
  let ?q = "initQueue (replicate 100 0) 100" and ?c = "carinitQueue (replicate 50 0) 50"
  have q: "ring_ok 100 ?q" "ring_items ?q = []" by (simp_all add: ring_ok_def initQueue_def ring_items_def ring_count_def)
  show "\<exists>q. run_queue enQueue outQueue ?q ops = Inr (map msg_of (fst (fifo_run 99 [] ops)), q)
       \<and> ring_items q = snd (fifo_run 99 [] ops) \<and> the_outs (fst (fifo_run 99 [] ops)) @ ring_items q = accepted 99 0 ops"
    using msgq.run_refines [OF q(1), of ops] fifo_run_order [of 99 "[]" ops] q(2) by (cases "fifo_run 99 [] ops") auto
  have c: "ring_ok 50 ?c" "ring_items ?c = []" by (simp_all add: ring_ok_def carinitQueue_def ring_items_def ring_count_def)
  show "\<exists>q. run_queue carenQueue caroutQueue ?c ops = Inr (map msg_of (fst (fifo_run 49 [] ops)), q)
       \<and> ring_items q = snd (fifo_run 49 [] ops)"
    using carq.run_refines [OF c(1), of ops] c(2) by auto
  have r: "ring_ok 20 (interval_init (replicate 20 i))" "ring_items (interval_init (replicate 20 i)) = []"
    "ring_ok 20 (state_init (replicate 20 n))" "ring_items (state_init (replicate 20 n)) = []"
    by (simp_all add: ring_ok_def interval_init_def state_init_def ring_items_def ring_count_def)
  show "\<exists>q. run_queue interval_add pxGetMsgFromIntervalQueue (interval_init (replicate 20 i)) iops = Inr (fst (fifo_run 19 [] iops), q)
       \<and> ring_items q = snd (fifo_run 19 [] iops)"
    using intervalq.run_refines [OF r(1), of iops] r(2) by auto
  show "\<exists>q. run_queue state_add pxGetMsgFromStateQueue (state_init (replicate 20 n)) sops = Inr (fst (fifo_run 19 [] sops), q)
       \<and> ring_items q = snd (fifo_run 19 [] sops)"
    using stateq.run_refines [OF r(3), of sops] r(4) by auto
qed

text \<open>C31: An insertion of an interrupt handler into the queue of messages loses a message when it
  interrupts an insertion of the main loop between the two statements: the slot the main loop has
  claimed keeps its old content, which will be sent as a message type, and the main loop overwrites the
  message of the handler. An insertion that interrupts a removal does no harm: the removal returns the
  oldest message, and the inserted one is queued.\<close>

theorem interrupted_insertion_loses_message:
  assumes "ring_ok n q" "length (ring_items q) < n - 2" "ring_items q = m # ms"
  shows "(\<exists>q1 q2 q3. enQueue_claim q = Inr (True, q1) \<and> enQueue q1 y = Inr q2 \<and> enQueue_store q2 x = Inr q3
      \<and> ring_items q3 = ring_items q @ [queue q ! unat (next_slot q (rear q)), x])
    \<and> (\<exists>q1 q2 q3. outQueue_claim q = Inr (True, q1) \<and> enQueue q1 y = Inr q2
      \<and> outQueue_fetch q2 = Inr (m, q3) \<and> ring_items q3 = ms @ [y])"
proof
  have room: "ring_count q < n - 1" using assms(2) by simp
  let ?q1 = "q\<lparr>rear := next_slot q (rear q)\<rparr>"
  note one = ring_items_snoc [OF assms(1) room]
  have "ring_count ?q1 < n - 1" using arg_cong [OF one(2), of length] assms(2) by simp
  then obtain q2 where q2: "enQueue ?q1 y = Inr q2" "ring_ok n q2" "ring_items q2 = ring_items ?q1 @ [y]"
    using ring_put_room [OF one(1)] unfolding enQueue_ring_put by blast
  have "enQueue_claim q = Inr (True, ?q1)" using one(4) by (simp add: enQueue_claim_def ring_ok_nonzero [OF assms(1)])
  then show "\<exists>q1 q2 q3. enQueue_claim q = Inr (True, q1) \<and> enQueue q1 y = Inr q2 \<and> enQueue_store q2 x = Inr q3
      \<and> ring_items q3 = ring_items q @ [queue q ! unat (next_slot q (rear q)), x]"
    using q2 one(2) store_newest [OF q2(2), of x] by (simp add: butlast_append)
  show "\<exists>q1 q2 q3. outQueue_claim q = Inr (True, q1) \<and> enQueue q1 y = Inr q2
      \<and> outQueue_fetch q2 = Inr (m, q3) \<and> ring_items q3 = ms @ [y]"
    using removal_interrupted [OF assms(1,3), of y] assms(2) by simp
qed

theorem interrupted_insertion_loses_message_witness:
  "\<exists>q1 q2 q3. enQueue_claim (initQueue (replicate 100 0) 100\<lparr>rear := 1\<rparr>) = Inr (True, q1) \<and> enQueue q1 0x1223 = Inr q2
     \<and> enQueue_store q2 0x1201 = Inr q3 \<and> ring_items q3 = [0, 0, 0x1201]"
proof -
  let ?q = "initQueue (replicate 100 0) 100\<lparr>rear := 1\<rparr>"
  have q: "ring_ok 100 ?q" "ring_items ?q = [0]" by (simp_all add: ring_ok_def initQueue_def ring_items_def ring_count_def)
  have "unat (next_slot ?q (rear ?q)) = 2" using unat_next_slot [of ?q "rear ?q"] by (simp add: initQueue_def)
  then have "queue ?q ! unat (next_slot ?q (rear ?q)) = 0" by (simp add: initQueue_def)
  then show ?thesis using interrupted_insertion_loses_message [OF q(1) _ q(2), of "0x1223" "0x1201"] q(2) by simp
qed

end
