(* ===== verification/Messages.thy ===== *)
theory Messages
  imports TimExti RingQueue
begin

text \<open>
  \<open>fun.c\<close>: the messages exchanged with the WCS. Received frames are checked and carried out;
  replies and reports are queued as message types and turned into frames one at a time, whenever
  the client of the WCS is not busy sending. \<open>fun_st\<close> extends \<open>timexti_st\<close> with the queues and
  the other globals of \<open>fun.c\<close>, \<open>carfun.c\<close>, \<open>carfuntwo.c\<close>, \<open>carfunthree.c\<close>, \<open>main.c\<close> and
  \<open>TCPclient.c\<close> these messages use.

  The arrays have the sizes the invariant \<open>fun_inv\<close> states; all indices the functions write
  are constants or bounded by it.
\<close>

section \<open>State\<close>

record client =
  tcp_recev_buf :: "u8 list"
  tcp_send_buf :: "u8 list"
  tcp_send_en :: u8
  tcp_recev_len :: u16
  tcp_send_len :: u16
  tcp_client_statue :: u8
  tcp_client_Delay_reg :: u16
  echoclient_pcb :: "nat option"     \<comment> \<open>the control block, \<open>None\<close> for the null pointer\<close>
  dest_ip :: "u8 list"
  dest_port :: u16
  connect_is_ok :: u8
  connect_dely :: u8

record fun_st = timexti_st +
  msgSendQueue :: "u16 ring"
  gnd2WcsIntervalQueue :: "interval_data ring"
  gndstatequeue :: "state_node ring"
  carSendQueue :: "u16 ring"
  cartwoSendQueue :: "u16 ring"
  carthreeSendQueue :: "u16 ring"
  carfunint :: interval_data
  pregndposnod :: state_node
  recv_gndpos_cnt :: u16
  usart2_sentcount :: u16
  usart4_sentcount :: u16
  positionreset :: u16
  GndThreemsg :: "u8 list"
  GndThreeDebug :: "u8 list"
  heart_dely :: u8
  version :: "u8 list"
  tcp_client_list :: "client list"

abbreviation (input) "CLIENT_DIS_CONNECT \<equiv> 0 :: u8"
abbreviation (input) "CLIENT_CONNECT_OK \<equiv> 1 :: u8"
abbreviation (input) "CLIENT_CONNECT_RECV \<equiv> 2 :: u8"
abbreviation (input) "CLIENT_RE_CONNECT \<equiv> 3 :: u8"
abbreviation (input) "HEART_DELAY \<equiv> 5 :: u8"

definition client_upd :: "nat \<Rightarrow> (client \<Rightarrow> client) \<Rightarrow> 'a fun_st_scheme \<Rightarrow> 'a fun_st_scheme" where
  "client_upd k f s = s\<lparr>tcp_client_list := (tcp_client_list s)[k := f (tcp_client_list s ! k)]\<rparr>"

section \<open>The queues\<close>

definition InitSendMsgQueue :: "'a fun_st_scheme \<Rightarrow> 'a fun_st_scheme" where
  "InitSendMsgQueue s = s\<lparr>msgSendQueue := initQueue (replicate 100 0) 100\<rparr>"

definition AddSendMsgToQueue :: "u16 \<Rightarrow> 'a fun_st_scheme \<Rightarrow> 'a fun_st_scheme result" where
  "AddSendMsgToQueue msg s = and_then (enQueue (msgSendQueue s) msg) (\<lambda>q. Inr (s\<lparr>msgSendQueue := q\<rparr>))"

definition GetSendMsgFromQueue :: "'a fun_st_scheme \<Rightarrow> (u16 \<times> 'a fun_st_scheme) result" where
  "GetSendMsgFromQueue s = and_then (outQueue (msgSendQueue s)) (\<lambda>(m, q). Inr (m, s\<lparr>msgSendQueue := q\<rparr>))"

definition InitGnd2WcsIntervalQueue :: "'a fun_st_scheme \<Rightarrow> 'a fun_st_scheme" where
  "InitGnd2WcsIntervalQueue s =
     s\<lparr>gnd2WcsIntervalQueue := interval_init (replicate 20 \<lparr>PreCarNum = 0, CurCarNum = 0, interval = 0\<rparr>)\<rparr>"

definition AddToGnd2WcsIntervalQueue :: "interval_data \<Rightarrow> 'a fun_st_scheme \<Rightarrow> 'a fun_st_scheme result" where
  "AddToGnd2WcsIntervalQueue x s =
     and_then (interval_add (gnd2WcsIntervalQueue s) x) (\<lambda>q. Inr (s\<lparr>gnd2WcsIntervalQueue := q\<rparr>))"

definition InitGnd2WcsStateQueue :: "'a fun_st_scheme \<Rightarrow> 'a fun_st_scheme" where
  "InitGnd2WcsStateQueue s =
     s\<lparr>gndstatequeue := state_init (replicate 20 \<lparr>node_speed = 0, carnum = 0, servo = 0\<rparr>)\<rparr>"

definition AddToGnd2WcsStateQueue :: "state_node \<Rightarrow> 'a fun_st_scheme \<Rightarrow> 'a fun_st_scheme result" where
  "AddToGnd2WcsStateQueue x s =
     and_then (state_add (gndstatequeue s) x) (\<lambda>q. Inr (s\<lparr>gndstatequeue := q\<rparr>))"

definition IsGnd2WcsStateQueueFree :: "'a fun_st_scheme \<Rightarrow> u8" where
  "IsGnd2WcsStateQueueFree s = (if front (gndstatequeue s) = rear (gndstatequeue s) then 0 else 1)"

definition carInitSendMsgQueue :: "'a fun_st_scheme \<Rightarrow> 'a fun_st_scheme" where
  "carInitSendMsgQueue s = s\<lparr>carSendQueue := carinitQueue (replicate 50 0) 50\<rparr>"

definition carAddSendMsgToQueue :: "u16 \<Rightarrow> 'a fun_st_scheme \<Rightarrow> 'a fun_st_scheme result" where
  "carAddSendMsgToQueue msg s = and_then (carenQueue (carSendQueue s) msg) (\<lambda>q. Inr (s\<lparr>carSendQueue := q\<rparr>))"

definition carthreeInitSendMsgQueue :: "'a fun_st_scheme \<Rightarrow> 'a fun_st_scheme" where
  "carthreeInitSendMsgQueue s = s\<lparr>carthreeSendQueue := carthreeinitQueue (replicate 50 0) 50\<rparr>"

definition carthreeAddSendMsgToQueue :: "u16 \<Rightarrow> 'a fun_st_scheme \<Rightarrow> 'a fun_st_scheme result" where
  "carthreeAddSendMsgToQueue msg s =
     and_then (carthreeenQueue (carthreeSendQueue s) msg) (\<lambda>q. Inr (s\<lparr>carthreeSendQueue := q\<rparr>))"

lemmas queue_definitions [queue_ops] = AddSendMsgToQueue_def GetSendMsgFromQueue_def AddToGnd2WcsIntervalQueue_def
  AddToGnd2WcsStateQueue_def carAddSendMsgToQueue_def carthreeAddSendMsgToQueue_def

section \<open>Receiving\<close>

definition recv_msg_process :: "u8 list \<Rightarrow> 'a fun_st_scheme \<Rightarrow> 'a fun_st_scheme result" where
  "recv_msg_process point s =
     (let ty = msg_type_at point in
      if ty = RECV_MSG_BOOT_CMD_TYPE then Inl System_Reset
      else if ty = RECV_MSG_WCS2GNDCTRL_PARA_TYPE then
        let s = s\<lparr>repair_flag := 0, wcs2GndParaData := decode_para point\<rparr> in
        and_then (AddSendMsgToQueue REPLY_RECV_MSG_WCS2GNDCTRL_PARA_TYPE s) (\<lambda>s.
        and_then (AddSendMsgToQueue REPLY_WCS_GND_VERSION_TYPE s) (\<lambda>s.
        and_then (fwInitServo s) (\<lambda>(hz, s).
        Inr (s\<lparr>fwInitHz := word_of_int hz, servo_start := 0\<rparr>))))
      else if ty = RECV_MSG_REPAIR_CAR_CMD_TYPE then
        let s = s\<lparr>repairCarCmdData := decode_repair point\<rparr> in
        and_then (repair_car_para_init s) (\<lambda>s. AddSendMsgToQueue REPLY_RECV_MSG_REPAIR_CAR_CMD_TYPE s)
      else if ty = REPLY_SEND_MSG_GNDCTRL2WCS_CMD_TYPE then Inr (s\<lparr>recv_gndpos_cnt := 0\<rparr>)
      else Inr s)"

text \<open>The received length is written through a pointer; it is returned.\<close>

definition recv_message_from_sever :: "u8 list \<Rightarrow> u16 \<Rightarrow> 'a fun_st_scheme \<Rightarrow> (u16 \<times> 'a fun_st_scheme) result" where
  "recv_message_from_sever point len s =
     and_then (recv_msg_check point len) (\<lambda>ok.
       if ok = 0 then Inr (0, s)
       else and_then (recv_msg_process point s) (\<lambda>s. Inr (0, s)))"

section \<open>Building the reports\<close>

definition send_msg_gndctrl2wcs_cmd ::
  "u8 list \<Rightarrow> u16 \<Rightarrow> 'a fun_st_scheme \<Rightarrow> (u8 list \<times> u16 \<times> 'a fun_st_scheme) result" where
  "send_msg_gndctrl2wcs_cmd buf ty s =
     and_then (pxGetMsgFromStateQueue (gndstatequeue s)) (\<lambda>(n, q).
       let s = s\<lparr>gndstatequeue := q\<rparr> in
       case n of None \<Rightarrow> Inl Undefined
       | Some node \<Rightarrow>
         let s = s\<lparr>pregndposnod := node\<rparr>;
             sendlen = 21;
             buf = (put_type buf ty)
               [11 := byte_of32 (node_speed node) 0, 12 := byte_of32 (node_speed node) 1,
                13 := byte_of32 (node_speed node) 2, 14 := byte_of32 (node_speed node) 3,
                15 := lo8 (carnum node), 16 := hi8 (carnum node), 17 := 0, 18 := 0,
                19 := lo8 (servo node), 20 := hi8 (servo node)];
             buf = finish_frame buf sendlen;
             s = s\<lparr>GndThreemsg := blit (GndThreemsg s) 0 (take 10 (drop 11 buf))\<rparr>
         in and_then (carthreeAddSendMsgToQueue SEND_MSG_GNDCTRL2WCS_CMD_TYPE s) (\<lambda>s. Inr (buf, sendlen, s)))"

definition send_msg_gndctrl2wcs_cmd_interval_data ::
  "u8 list \<Rightarrow> u16 \<Rightarrow> u16 \<Rightarrow> 'a fun_st_scheme \<Rightarrow> (u8 list \<times> u16 \<times> 'a fun_st_scheme) result" where
  "send_msg_gndctrl2wcs_cmd_interval_data buf len ty s =
     and_then (pxGetMsgFromIntervalQueue (gnd2WcsIntervalQueue s)) (\<lambda>(n, q).
       let s = s\<lparr>gnd2WcsIntervalQueue := q\<rparr> in
       case n of None \<Rightarrow> Inr (buf, len, s)
       | Some intervalData \<Rightarrow>
         let s = s\<lparr>carfunint := intervalData\<rparr>;
             sendlen = 11 + 6;
             buf = (put_type buf ty)
               [11 := lo8 (PreCarNum intervalData), 12 := hi8 (PreCarNum intervalData),
                13 := lo8 (CurCarNum intervalData), 14 := hi8 (CurCarNum intervalData),
                15 := lo8 (interval intervalData), 16 := hi8 (interval intervalData)];
             buf = finish_frame buf sendlen
         in and_then (carAddSendMsgToQueue CAR_MSG_GNDCTRL2WCS_CMD_INTERVAL_TYPE s) (\<lambda>s.
            let s = s\<lparr>positionreset := 30\<rparr>;
                s = s\<lparr>GndThreeDebug := blit (GndThreeDebug s) 0 (take 6 (drop 11 buf))\<rparr>
            in Inr (buf, sendlen, s)))"

definition send_msg_uart_two_data ::
  "u8 list \<Rightarrow> u16 \<Rightarrow> 'a fun_st_scheme \<Rightarrow> u8 list \<times> u16 \<times> 'a fun_st_scheme" where
  "send_msg_uart_two_data buf ty s =
     (if record_uart2_len s = 0 then (buf, 0, s)
      else if usart2_sentcount s \<noteq> 0 then (buf, 0, s)
      else
        let sendlen = 11 + ucast (record_uart2_len s);
            buf = put_type buf ty;
            buf = blit buf 11 (take (unat (record_uart2_len s)) (record_uart2_buff s));
            buf = finish_frame buf sendlen
        in (buf, sendlen, s\<lparr>record_uart2_len := 0, usart2_sentcount := 20\<rparr>))"

definition send_msg_uart_four_data ::
  "u8 list \<Rightarrow> u16 \<Rightarrow> 'a fun_st_scheme \<Rightarrow> u8 list \<times> u16 \<times> 'a fun_st_scheme" where
  "send_msg_uart_four_data buf ty s =
     (if record_uart4_len s = 0 then (buf, 0, s)
      else if usart4_sentcount s \<noteq> 0 then (buf, 0, s)
      else
        let sendlen = 11 + ucast (record_uart4_len s);
            buf = put_type buf ty;
            buf = blit buf 11 (take (unat (record_uart4_len s)) (record_uart4_buff s));
            buf = finish_frame buf sendlen
        in (buf, sendlen, s\<lparr>record_uart4_len := 0, usart4_sentcount := 20\<rparr>))"

section \<open>The sender\<close>

text \<open>The buffer and the length of client \<open>k\<close> after a builder, and its request to send.\<close>

definition offer :: "nat \<Rightarrow> u8 list \<Rightarrow> u16 \<Rightarrow> 'a fun_st_scheme \<Rightarrow> 'a fun_st_scheme" where
  "offer k buf len s = client_upd k (\<lambda>c. c\<lparr>tcp_send_buf := buf, tcp_send_len := len, tcp_send_en := 1\<rparr>) s"

definition send_message_to_sever :: "'a fun_st_scheme \<Rightarrow> 'a fun_st_scheme result" where
  "send_message_to_sever s =
     (if tcp_send_en (tcp_client_list s ! 0) \<noteq> 0 then Inr s
      else and_then (GetSendMsgFromQueue s) (\<lambda>(msg_type, s).
        let c = tcp_client_list s ! 0; buf = tcp_send_buf c; len = tcp_send_len c in
        if msg_type = REPLY_RECV_MSG_WCS2GNDCTRL_PARA_TYPE then
          (let (buf, len) = reply_recv_msg buf msg_type in Inr (offer 0 buf len s))
        else if msg_type = SEND_MSG_GNDCTRL2WCS_CMD_TYPE then
          (if IsGnd2WcsStateQueueFree s = 0 then Inr s
           else and_then (send_msg_gndctrl2wcs_cmd buf msg_type s)
                  (\<lambda>(buf, len, s). Inr (offer 0 buf len s)))
        else if msg_type = SEND_MSG_GNDCTRL2WCS_CMD_INTERVAL_TYPE then
          and_then (send_msg_gndctrl2wcs_cmd_interval_data buf len msg_type s)
            (\<lambda>(buf, len, s). Inr (offer 0 buf len s))
        else if msg_type = REPLY_RECV_MSG_REPAIR_CAR_CMD_TYPE then
          (let (buf, len) = reply_recv_msg buf msg_type in Inr (offer 0 buf len s))
        else if msg_type = REPLY_WCS_GND_VERSION_TYPE then
          (let (buf, len) = send_msg_gnd_version_type (version s) buf msg_type in Inr (offer 0 buf len s))
        else if msg_type = SEND_UART2_MSG then
          (let (buf, len, s) = send_msg_uart_two_data buf msg_type s in Inr (offer 0 buf len s))
        else if msg_type = SEND_UART4_MSG then
          (let (buf, len, s) = send_msg_uart_four_data buf msg_type s in Inr (offer 0 buf len s))
        else if tcp_client_statue c = CLIENT_CONNECT_OK \<and> heart_dely s = 0 then
          (let (buf, len) = send_heart_msg buf HEART_MSG_TYPE
           in Inr ((offer 0 buf len s)\<lparr>heart_dely := HEART_DELAY\<rparr>))
        else Inr s))"

definition fun_gnd2wcs_state_msg :: "'a fun_st_scheme \<Rightarrow> 'a fun_st_scheme result" where
  "fun_gnd2wcs_state_msg s =
     (if IsGnd2WcsStateQueueFree s \<noteq> 0 then AddSendMsgToQueue SEND_MSG_GNDCTRL2WCS_CMD_TYPE s else Inr s)"

section \<open>Invariant\<close>

text \<open>Of a client: the sizes of its arrays, a length to send inside the buffer, and received bytes
  only between the receive callback and the next pass of the client process.\<close>

definition client_ok :: "client \<Rightarrow> bool" where
  "client_ok c \<longleftrightarrow> length (tcp_recev_buf c) = 1500 \<and> length (tcp_send_buf c) = 1500
     \<and> length (dest_ip c) = 4 \<and> unat (tcp_send_len c) \<le> 1500
     \<and> (if tcp_client_statue c = CLIENT_CONNECT_RECV then unat (tcp_recev_len c) \<le> 255 else tcp_recev_len c = 0)"

definition fun_inv :: "'a fun_st_scheme \<Rightarrow> bool" where
  "fun_inv s \<longleftrightarrow> usart_inv s \<and> ring_ok 100 (msgSendQueue s) \<and> ring_ok 20 (gnd2WcsIntervalQueue s)
     \<and> ring_ok 20 (gndstatequeue s) \<and> ring_ok 50 (carSendQueue s) \<and> ring_ok 50 (cartwoSendQueue s)
     \<and> ring_ok 50 (carthreeSendQueue s) \<and> length (GndThreemsg s) = 100 \<and> length (GndThreeDebug s) = 100
     \<and> length (version s) = 4 \<and> length (tcp_client_list s) = 4 \<and> (\<forall>c\<in>set (tcp_client_list s). client_ok c)"

text \<open>The lower layers leave the fields of this one.\<close>

lemma fun_inv_cong:
  assumes "timexti_st.more s' = timexti_st.more s" "usart_inv s'" "fun_inv s"
  shows "fun_inv s'"
proof -
  have "msgSendQueue s' = msgSendQueue s" "gnd2WcsIntervalQueue s' = gnd2WcsIntervalQueue s"
    "gndstatequeue s' = gndstatequeue s" "carSendQueue s' = carSendQueue s" "cartwoSendQueue s' = cartwoSendQueue s"
    "carthreeSendQueue s' = carthreeSendQueue s" "GndThreemsg s' = GndThreemsg s" "GndThreeDebug s' = GndThreeDebug s"
    "version s' = version s" "tcp_client_list s' = tcp_client_list s"
    using assms(1) by (cases s; cases s'; simp)+
  then show ?thesis using assms(2,3) by (simp add: fun_inv_def)
qed

lemma fun_fields:
  assumes "timexti_st.more s' = timexti_st.more s"
  shows "msgSendQueue s' = msgSendQueue s" "gndstatequeue s' = gndstatequeue s"
    "tcp_client_list s' = tcp_client_list s" "gnd2WcsIntervalQueue s' = gnd2WcsIntervalQueue s"
    "recv_gndpos_cnt s' = recv_gndpos_cnt s" "carSendQueue s' = carSendQueue s"
    "fun_st.more s' = fun_st.more s"
  using assms by (cases s; cases s'; simp)+

text \<open>The parts of the state an update of the other layers' fields does not touch.\<close>

lemma fun_inv_updates [simp]:
  "fun_inv (s\<lparr>repair_flag := a\<rparr>) = fun_inv s" "fun_inv (s\<lparr>wcs2GndParaData := b\<rparr>) = fun_inv s"
  "fun_inv (s\<lparr>fwInitHz := c\<rparr>) = fun_inv s" "fun_inv (s\<lparr>servo_start := d\<rparr>) = fun_inv s"
  "fun_inv (s\<lparr>repairCarCmdData := e\<rparr>) = fun_inv s" "fun_inv (s\<lparr>recv_gndpos_cnt := f\<rparr>) = fun_inv s"
  "fun_inv (s\<lparr>pregndposnod := g\<rparr>) = fun_inv s" "fun_inv (s\<lparr>carfunint := h\<rparr>) = fun_inv s"
  "fun_inv (s\<lparr>positionreset := i\<rparr>) = fun_inv s" "fun_inv (s\<lparr>heart_dely := j\<rparr>) = fun_inv s"
  "fun_inv (s\<lparr>usart2_sentcount := k\<rparr>) = fun_inv s" "fun_inv (s\<lparr>usart4_sentcount := l\<rparr>) = fun_inv s"
  "fun_inv (s\<lparr>cmd_carNo := m\<rparr>) = fun_inv s" "fun_inv (s\<lparr>reset_flag := n\<rparr>) = fun_inv s"
  "fun_inv (s\<lparr>cmd_speed := o'\<rparr>) = fun_inv s" "fun_inv (s\<lparr>exti_extid := p\<rparr>) = fun_inv s"
  "fun_inv (s\<lparr>exti_timCnt := q\<rparr>) = fun_inv s" "fun_inv (s\<lparr>timUpdates := r\<rparr>) = fun_inv s"
  by (simp_all add: fun_inv_def usart_inv_def)

lemma client_ok_upd:
  "fun_inv s \<Longrightarrow> (\<And>c. client_ok c \<Longrightarrow> client_ok (f c)) \<Longrightarrow> fun_inv (client_upd k f s)"
  by (cases "k < length (tcp_client_list s)")
     (auto simp: fun_inv_def client_upd_def usart_inv_def list_update_beyond
        dest: set_update_subset_insert [THEN subsetD])

lemma client_ok_nth: "fun_inv s \<Longrightarrow> k < 4 \<Longrightarrow> client_ok (tcp_client_list s ! k)"
  by (auto simp: fun_inv_def)

section \<open>The queues keep the invariant and never fault\<close>

lemma ring_put_ok: "ring_ok n q \<Longrightarrow> \<exists>q'. ring_put q x = Inr q' \<and> ring_ok n q' \<and>
    ring_items q' = (if length (ring_items q) < n - 1 then ring_items q @ [x] else ring_items q)"
  using ring_put_room [of n q x] ring_put_full [of n q x] ring_count_le [of n q]
  by (cases "ring_count q < n - 1") auto

text \<open>What an insertion leaves in a queue of \<open>n\<close> slots.\<close>

definition appended :: "nat \<Rightarrow> 'b ring \<Rightarrow> 'b \<Rightarrow> 'b ring \<Rightarrow> bool" where
  "appended n q x q' \<longleftrightarrow> ring_ok n q' \<and>
     ring_items q' = (if length (ring_items q) < n - 1 then ring_items q @ [x] else ring_items q)"

lemma ring_put_appended: "ring_ok n q \<Longrightarrow> \<exists>q'. ring_put q x = Inr q' \<and> appended n q x q'"
  using ring_put_ok [of n q x] by (simp add: appended_def)

lemma AddSendMsgToQueue_ok:
  "fun_inv s \<Longrightarrow> \<exists>q. AddSendMsgToQueue m s = Inr (s\<lparr>msgSendQueue := q\<rparr>) \<and> appended 100 (msgSendQueue s) m q"
  using ring_put_appended [of 100 "msgSendQueue s" m]
  by (auto simp: AddSendMsgToQueue_def enQueue_ring_put fun_inv_def)

lemma AddToGnd2WcsIntervalQueue_ok:
  "fun_inv s \<Longrightarrow> \<exists>q. AddToGnd2WcsIntervalQueue m s = Inr (s\<lparr>gnd2WcsIntervalQueue := q\<rparr>)
     \<and> appended 20 (gnd2WcsIntervalQueue s) m q"
  using ring_put_appended [of 20 "gnd2WcsIntervalQueue s" m]
  by (auto simp: AddToGnd2WcsIntervalQueue_def enQueue_ring_put fun_inv_def)

lemma AddToGnd2WcsStateQueue_ok:
  "fun_inv s \<Longrightarrow> \<exists>q. AddToGnd2WcsStateQueue m s = Inr (s\<lparr>gndstatequeue := q\<rparr>) \<and> appended 20 (gndstatequeue s) m q"
  using ring_put_appended [of 20 "gndstatequeue s" m]
  by (auto simp: AddToGnd2WcsStateQueue_def enQueue_ring_put fun_inv_def)

lemma carAddSendMsgToQueue_ok:
  "fun_inv s \<Longrightarrow> \<exists>q. carAddSendMsgToQueue m s = Inr (s\<lparr>carSendQueue := q\<rparr>) \<and> appended 50 (carSendQueue s) m q"
  using ring_put_appended [of 50 "carSendQueue s" m]
  by (auto simp: carAddSendMsgToQueue_def enQueue_ring_put fun_inv_def)

lemma carthreeAddSendMsgToQueue_ok:
  "fun_inv s \<Longrightarrow> \<exists>q. carthreeAddSendMsgToQueue m s = Inr (s\<lparr>carthreeSendQueue := q\<rparr>)
     \<and> appended 50 (carthreeSendQueue s) m q"
  using ring_put_appended [of 50 "carthreeSendQueue s" m]
  by (auto simp: carthreeAddSendMsgToQueue_def enQueue_ring_put fun_inv_def)

lemma fun_inv_queues [simp]:
  "fun_inv s \<Longrightarrow> appended 100 a m q \<Longrightarrow> fun_inv (s\<lparr>msgSendQueue := q\<rparr>)"
  "fun_inv s \<Longrightarrow> appended 20 b i r \<Longrightarrow> fun_inv (s\<lparr>gnd2WcsIntervalQueue := r\<rparr>)"
  "fun_inv s \<Longrightarrow> appended 20 c n t \<Longrightarrow> fun_inv (s\<lparr>gndstatequeue := t\<rparr>)"
  "fun_inv s \<Longrightarrow> appended 50 d m q \<Longrightarrow> fun_inv (s\<lparr>carSendQueue := q\<rparr>)"
  "fun_inv s \<Longrightarrow> appended 50 d m q \<Longrightarrow> fun_inv (s\<lparr>carthreeSendQueue := q\<rparr>)"
  by (simp_all add: fun_inv_def usart_inv_def appended_def)

text \<open>Removals.\<close>

definition removed :: "nat \<Rightarrow> 'b ring \<Rightarrow> 'b option \<Rightarrow> 'b ring \<Rightarrow> bool" where
  "removed n q r q' \<longleftrightarrow> ring_ok n q' \<and> ring_items q' = tl (ring_items q)
     \<and> r = (case ring_items q of [] \<Rightarrow> None | x # _ \<Rightarrow> Some x)"

lemma ring_get_removed: "ring_ok n q \<Longrightarrow> \<exists>r q'. ring_get q = Inr (r, q') \<and> removed n q r q'"
proof (cases "ring_items q")
  case Nil
  assume ok: "ring_ok n q"
  then show ?thesis using ring_get_empty [OF ok Nil] Nil by (simp add: removed_def)
next
  case (Cons x xs)
  assume ok: "ring_ok n q"
  then show ?thesis using ring_get_item [OF ok Cons] Cons by (auto simp: removed_def)
qed

lemma GetSendMsgFromQueue_ok:
  "fun_inv s \<Longrightarrow> \<exists>r q. GetSendMsgFromQueue s = Inr (msg_of r, s\<lparr>msgSendQueue := q\<rparr>) \<and> removed 100 (msgSendQueue s) r q"
proof -
  assume "fun_inv s"
  then obtain r q where "ring_get (msgSendQueue s) = Inr (r, q)" "removed 100 (msgSendQueue s) r q"
    using ring_get_removed [of 100 "msgSendQueue s"] by (auto simp: fun_inv_def)
  then show ?thesis
    by (intro exI [of _ r] exI [of _ q]) (simp add: GetSendMsgFromQueue_def outQueue_ring_get)
qed

lemma fun_inv_removed [simp]:
  "fun_inv s \<Longrightarrow> removed 100 a m q \<Longrightarrow> fun_inv (s\<lparr>msgSendQueue := q\<rparr>)"
  "fun_inv s \<Longrightarrow> removed 20 b i r \<Longrightarrow> fun_inv (s\<lparr>gnd2WcsIntervalQueue := r\<rparr>)"
  "fun_inv s \<Longrightarrow> removed 20 c n t \<Longrightarrow> fun_inv (s\<lparr>gndstatequeue := t\<rparr>)"
  "fun_inv s \<Longrightarrow> removed 50 d m q \<Longrightarrow> fun_inv (s\<lparr>carSendQueue := q\<rparr>)"
  "fun_inv s \<Longrightarrow> removed 50 d m q \<Longrightarrow> fun_inv (s\<lparr>cartwoSendQueue := q\<rparr>)"
  "fun_inv s \<Longrightarrow> removed 50 d m q \<Longrightarrow> fun_inv (s\<lparr>carthreeSendQueue := q\<rparr>)"
  by (simp_all add: fun_inv_def usart_inv_def removed_def)

section \<open>The lower layers keep the invariant\<close>

lemma RS485_OUT_frame:
  "RS485_OUT v s = Inr s' \<Longrightarrow> speed_st.more s' = speed_st.more s \<and> (usart_inv s \<longrightarrow> usart_inv s')"
proof -
  assume r: "RS485_OUT v s = Inr s'"
  let ?s = "s\<lparr>servo_hz := word_of_int v\<rparr>"
  have f: "ServoFreqSet (word_of_int v) ?s = Inr s'" using r by (simp add: RS485_OUT_def)
  then have "usart_st.more s' = usart_st.more ?s" using more_ServoFreqSet by blast
  then have "speed_st.more s' = speed_st.more s" using speed_fields(12) [of s' ?s] by simp
  moreover have "usart_inv s'" if "usart_inv s"
    using usart_inv_ServoFreqSet [of ?s "word_of_int v"] that f by simp
  ultimately show ?thesis by simp
qed

lemma fwInitServo_frame:
  "fwInitServo s = Inr (r, s') \<Longrightarrow> speed_st.more s' = speed_st.more s \<and> (usart_inv s \<longrightarrow> usart_inv s')"
  by (auto simp: fwInitServo_def Let_def and_then_Inr_iff usart_inv_def simp del: flt_to_int.simps)

lemma more_speed_timexti: "speed_st.more s' = speed_st.more s \<Longrightarrow> timexti_st.more s' = timexti_st.more s"
  using timexti_fields(12) .

lemma repair_car_para_init_frame:
  assumes "repair_car_para_init s = Inr s'"
  shows "timexti_st.more s' = timexti_st.more s \<and> (usart_inv s \<longrightarrow> usart_inv s')"
proof -
  define s1 where s1: "s1 = s\<lparr>repair_flag := 1, repair_locate_real := word_of_int (repair_position (repairCarCmdData s))\<rparr>"
  have u: "usart_inv s1 = usart_inv s" "usart_inv (s1\<lparr>repair_flag := 0\<rparr>) = usart_inv s"
    "timexti_st.more s1 = timexti_st.more s"
    by (simp_all add: s1 usart_inv_def)
  have "s' = s1\<lparr>repair_flag := 0\<rparr> \<or> RS485_OUT (uint (rc_standard_hz (repairCarCmdData s))) s1 = Inr s'"
    using assms repair_car_para_init_eq [OF s1] by (auto split: if_splits)
  then show ?thesis
  proof
    assume "s' = s1\<lparr>repair_flag := 0\<rparr>"
    then show ?thesis using u by simp
  next
    assume "RS485_OUT (uint (rc_standard_hz (repairCarCmdData s))) s1 = Inr s'"
    then show ?thesis using RS485_OUT_frame more_speed_timexti u by metis
  qed
qed

section \<open>The frames of the reports\<close>

lemma state_queue_next:
  assumes "ring_ok 20 q" "ring_items q = x # xs"
  shows "\<exists>q'. pxGetMsgFromStateQueue q = Inr (Some x, q') \<and> removed 20 q (Some x) q' \<and> ring_items q' = xs"
  using ring_get_item [OF assms] assms(2) by (auto simp: pxGet_ring_get removed_def)

lemma interval_queue_next:
  assumes "ring_ok 20 q" "ring_items q = x # xs"
  shows "\<exists>q'. pxGetMsgFromIntervalQueue q = Inr (Some x, q') \<and> removed 20 q (Some x) q' \<and> ring_items q' = xs"
  using ring_get_item [OF assms] assms(2) by (auto simp: pxGet_ring_get removed_def)

lemma u16_at_put: "i + 1 < length b \<Longrightarrow> u16_at (b[i := lo8 w, Suc i := hi8 w]) i = w"
  by (simp add: u16_at_def)

lemma u32_at_finish_frame: "9 \<le> i \<Longrightarrow> u32_at (finish_frame b n) i = u32_at b i"
  by (simp add: u32_at_def)

text \<open>The buffer of a report of one car.\<close>

definition cmd_frame :: "u8 list \<Rightarrow> u16 \<Rightarrow> state_node \<Rightarrow> u8 list" where
  "cmd_frame buf ty node = finish_frame ((put_type buf ty)
     [11 := byte_of32 (node_speed node) 0, 12 := byte_of32 (node_speed node) 1,
      13 := byte_of32 (node_speed node) 2, 14 := byte_of32 (node_speed node) 3,
      15 := lo8 (carnum node), 16 := hi8 (carnum node), 17 := 0, 18 := 0,
      19 := lo8 (servo node), 20 := hi8 (servo node)]) 21"

lemma cmd_frame_fields:
  assumes "length buf = 1500"
  shows "length (cmd_frame buf ty node) = 1500" "recv_msg_check (cmd_frame buf ty node) 21 = Inr 1"
    "u16_at (cmd_frame buf ty node) 9 = ty" "u32_at (cmd_frame buf ty node) 11 = node_speed node"
    "u16_at (cmd_frame buf ty node) 15 = carnum node" "u16_at (cmd_frame buf ty node) 19 = servo node"
  using assms finish_frame_accepted [of 21]
  by (simp_all add: cmd_frame_def u16_at_finish_frame u32_at_finish_frame)
     (simp_all add: u16_at_def u32_at_def put_type_def mk32_byte_of32 [unfolded One_nat_def])

lemma send_msg_gndctrl2wcs_cmd_ok:
  assumes inv: "fun_inv s" and items: "ring_items (gndstatequeue s) = node # rest"
  shows "\<exists>q r. send_msg_gndctrl2wcs_cmd buf ty s = Inr (cmd_frame buf ty node, 21,
       s\<lparr>gndstatequeue := q, pregndposnod := node,
         GndThreemsg := blit (GndThreemsg s) 0 (take 10 (drop 11 (cmd_frame buf ty node))), carthreeSendQueue := r\<rparr>)
    \<and> removed 20 (gndstatequeue s) (Some node) q \<and> ring_items q = rest
    \<and> appended 50 (carthreeSendQueue s) SEND_MSG_GNDCTRL2WCS_CMD_TYPE r"
proof -
  have ok: "ring_ok 20 (gndstatequeue s)" "ring_ok 50 (carthreeSendQueue s)" using inv by (simp_all add: fun_inv_def)
  obtain q where q: "pxGetMsgFromStateQueue (gndstatequeue s) = Inr (Some node, q)"
    "removed 20 (gndstatequeue s) (Some node) q" "ring_items q = rest"
    using state_queue_next [OF ok(1) items] by blast
  obtain r where r: "ring_put (carthreeSendQueue s) SEND_MSG_GNDCTRL2WCS_CMD_TYPE = Inr r"
    "appended 50 (carthreeSendQueue s) SEND_MSG_GNDCTRL2WCS_CMD_TYPE r"
    using ring_put_appended [OF ok(2)] by blast
  show ?thesis
    using q r by (intro exI [of _ q] exI [of _ r])
      (simp add: send_msg_gndctrl2wcs_cmd_def carthreeAddSendMsgToQueue_def enQueue_ring_put Let_def
        cmd_frame_def)
qed

text \<open>The buffer of an interval.\<close>

definition interval_frame :: "u8 list \<Rightarrow> u16 \<Rightarrow> interval_data \<Rightarrow> u8 list" where
  "interval_frame buf ty d = finish_frame ((put_type buf ty)
     [11 := lo8 (PreCarNum d), 12 := hi8 (PreCarNum d), 13 := lo8 (CurCarNum d), 14 := hi8 (CurCarNum d),
      15 := lo8 (interval d), 16 := hi8 (interval d)]) 17"

lemma interval_frame_fields:
  assumes "length buf = 1500"
  shows "length (interval_frame buf ty d) = 1500" "recv_msg_check (interval_frame buf ty d) 17 = Inr 1"
    "u16_at (interval_frame buf ty d) 9 = ty" "u16_at (interval_frame buf ty d) 11 = PreCarNum d"
    "u16_at (interval_frame buf ty d) 13 = CurCarNum d" "u16_at (interval_frame buf ty d) 15 = interval d"
  using assms finish_frame_accepted [of 17]
  by (simp_all add: interval_frame_def u16_at_finish_frame) (simp_all add: u16_at_def put_type_def)

lemma send_interval_ok:
  assumes inv: "fun_inv s" and items: "ring_items (gnd2WcsIntervalQueue s) = d # rest"
  shows "\<exists>q r. send_msg_gndctrl2wcs_cmd_interval_data buf len ty s = Inr (interval_frame buf ty d, 17,
       s\<lparr>gnd2WcsIntervalQueue := q, carfunint := d, carSendQueue := r, positionreset := 30,
         GndThreeDebug := blit (GndThreeDebug s) 0 (take 6 (drop 11 (interval_frame buf ty d)))\<rparr>)
    \<and> removed 20 (gnd2WcsIntervalQueue s) (Some d) q \<and> ring_items q = rest
    \<and> appended 50 (carSendQueue s) CAR_MSG_GNDCTRL2WCS_CMD_INTERVAL_TYPE r"
proof -
  have ok: "ring_ok 20 (gnd2WcsIntervalQueue s)" "ring_ok 50 (carSendQueue s)" using inv by (simp_all add: fun_inv_def)
  obtain q where q: "pxGetMsgFromIntervalQueue (gnd2WcsIntervalQueue s) = Inr (Some d, q)"
    "removed 20 (gnd2WcsIntervalQueue s) (Some d) q" "ring_items q = rest"
    using interval_queue_next [OF ok(1) items] by blast
  obtain r where r: "ring_put (carSendQueue s) CAR_MSG_GNDCTRL2WCS_CMD_INTERVAL_TYPE = Inr r"
    "appended 50 (carSendQueue s) CAR_MSG_GNDCTRL2WCS_CMD_INTERVAL_TYPE r"
    using ring_put_appended [OF ok(2)] by blast
  show ?thesis
    using q r by (intro exI [of _ q] exI [of _ r])
      (simp add: send_msg_gndctrl2wcs_cmd_interval_data_def carAddSendMsgToQueue_def enQueue_ring_put Let_def
        interval_frame_def)
qed

lemma send_interval_none:
  assumes inv: "fun_inv s" and items: "ring_items (gnd2WcsIntervalQueue s) = []"
  shows "send_msg_gndctrl2wcs_cmd_interval_data buf len ty s = Inr (buf, len, s)"
proof -
  have "ring_ok 20 (gnd2WcsIntervalQueue s)" using inv by (simp add: fun_inv_def)
  then show ?thesis
    using ring_get_empty [OF _ items] by (simp add: send_msg_gndctrl2wcs_cmd_interval_data_def pxGet_ring_get)
qed

text \<open>The copies of the inverter frames.\<close>

lemma uart_len: "n \<le> 15 \<Longrightarrow> unat (11 + ucast n :: u16) = 11 + unat n" for n :: u8
proof -
  assume n: "n \<le> 15"
  then have "unat n \<le> 15" by (simp add: word_le_nat_alt)
  then show ?thesis by (simp add: unat_word_ariths unsigned_ucast_eq take_bit_nat_eq_self)
qed

lemma uart_len_bound: "n \<le> 15 \<Longrightarrow> unat (11 + of_nat n :: u16) \<le> 1500"
  by (simp add: unat_word_ariths unat_of_nat)

definition uart_frame :: "u8 list \<Rightarrow> u16 \<Rightarrow> u8 list \<Rightarrow> u8 list" where
  "uart_frame buf ty bytes = finish_frame (blit (put_type buf ty) 11 bytes) (11 + of_nat (length bytes))"

lemma uart_frame_fields:
  assumes "length buf = 1500" "length bytes \<le> 15"
  shows "length (uart_frame buf ty bytes) = 1500"
    "recv_msg_check (uart_frame buf ty bytes) (11 + of_nat (length bytes)) = Inr 1"
    "u16_at (uart_frame buf ty bytes) 9 = ty" "take (length bytes) (drop 11 (uart_frame buf ty bytes)) = bytes"
proof -
  have n: "unat (11 + of_nat (length bytes) :: u16) = 11 + length bytes"
    using assms(2) by (simp add: unat_word_ariths unat_of_nat)
  show "length (uart_frame buf ty bytes) = 1500" using assms by (simp add: uart_frame_def)
  show "recv_msg_check (uart_frame buf ty bytes) (11 + of_nat (length bytes)) = Inr 1"
    unfolding uart_frame_def by (rule finish_frame_accepted) (use n assms in simp_all)
  show "u16_at (uart_frame buf ty bytes) 9 = ty"
    using assms by (simp add: uart_frame_def u16_at_finish_frame) (simp add: u16_at_def nth_blit_below put_type_def)
  show "take (length bytes) (drop 11 (uart_frame buf ty bytes)) = bytes"
    using assms by (intro nth_equalityI) (simp_all add: uart_frame_def nth_blit)
qed

lemma send_uart_two_eq:
  assumes inv: "usart_inv s"
  shows "send_msg_uart_two_data buf ty s =
    (if record_uart2_len s = 0 \<or> usart2_sentcount s \<noteq> 0 then (buf, 0, s)
     else (uart_frame buf ty (take (unat (record_uart2_len s)) (record_uart2_buff s)),
           11 + of_nat (unat (record_uart2_len s)), s\<lparr>record_uart2_len := 0, usart2_sentcount := 20\<rparr>))"
proof -
  have "unat (record_uart2_len s) \<le> length (record_uart2_buff s)"
    using inv by (simp add: usart_inv_def word_le_nat_alt)
  then have "length (take (unat (record_uart2_len s)) (record_uart2_buff s)) = unat (record_uart2_len s)" by simp
  then show ?thesis by (auto simp: send_msg_uart_two_data_def uart_frame_def Let_def)
qed

lemma send_uart_four_eq:
  assumes inv: "usart_inv s"
  shows "send_msg_uart_four_data buf ty s =
    (if record_uart4_len s = 0 \<or> usart4_sentcount s \<noteq> 0 then (buf, 0, s)
     else (uart_frame buf ty (take (unat (record_uart4_len s)) (record_uart4_buff s)),
           11 + of_nat (unat (record_uart4_len s)), s\<lparr>record_uart4_len := 0, usart4_sentcount := 20\<rparr>))"
proof -
  have "unat (record_uart4_len s) \<le> length (record_uart4_buff s)"
    using inv by (simp add: usart_inv_def word_le_nat_alt)
  then have "length (take (unat (record_uart4_len s)) (record_uart4_buff s)) = unat (record_uart4_len s)" by simp
  then show ?thesis by (auto simp: send_msg_uart_four_data_def uart_frame_def Let_def)
qed

section \<open>Offering a frame\<close>

text \<open>\<open>offers s s' buf len\<close>: client 0 of \<open>s'\<close> asks for the transmission of \<open>buf\<close>.\<close>

definition offers :: "nat \<Rightarrow> u8 list \<Rightarrow> u16 \<Rightarrow> 'a fun_st_scheme \<Rightarrow> bool" where
  "offers k buf len s \<longleftrightarrow> tcp_send_buf (tcp_client_list s ! k) = buf \<and> tcp_send_len (tcp_client_list s ! k) = len
     \<and> tcp_send_en (tcp_client_list s ! k) = 1"

lemma offers_offer: "fun_inv s \<Longrightarrow> k < 4 \<Longrightarrow> offers k buf len (offer k buf len s)"
  by (simp add: offers_def offer_def client_upd_def fun_inv_def)

lemma fun_inv_offer: "fun_inv s \<Longrightarrow> length buf = 1500 \<Longrightarrow> unat len \<le> 1500 \<Longrightarrow> fun_inv (offer k buf len s)"
  unfolding offer_def by (rule client_ok_upd) (simp_all add: client_ok_def)

lemma offer_frames [simp]:
  "msgSendQueue (offer k b l s) = msgSendQueue s" "gndstatequeue (offer k b l s) = gndstatequeue s"
  "gnd2WcsIntervalQueue (offer k b l s) = gnd2WcsIntervalQueue s" "carSendQueue (offer k b l s) = carSendQueue s"
  "carthreeSendQueue (offer k b l s) = carthreeSendQueue s" "pregndposnod (offer k b l s) = pregndposnod s"
  "timexti_st.truncate (offer k b l s) = timexti_st.truncate s"
  by (simp_all add: offer_def client_upd_def timexti_st.defs)

section \<open>One step of the sender\<close>

text \<open>The message that is due, and whether its content is available.\<close>

definition due :: "'a fun_st_scheme \<Rightarrow> u16" where
  "due s = (case ring_items (msgSendQueue s) of [] \<Rightarrow> MSG_NULL_TYPE | m # _ \<Rightarrow> m)"

definition content_ready :: "u16 \<Rightarrow> 'a fun_st_scheme \<Rightarrow> bool" where
  "content_ready m s \<longleftrightarrow>
     m = REPLY_RECV_MSG_WCS2GNDCTRL_PARA_TYPE \<or> m = REPLY_RECV_MSG_REPAIR_CAR_CMD_TYPE \<or> m = REPLY_WCS_GND_VERSION_TYPE
     \<or> m = SEND_MSG_GNDCTRL2WCS_CMD_TYPE \<and> ring_items (gndstatequeue s) \<noteq> []
     \<or> m = SEND_MSG_GNDCTRL2WCS_CMD_INTERVAL_TYPE \<and> ring_items (gnd2WcsIntervalQueue s) \<noteq> []
     \<or> m = SEND_UART2_MSG \<and> record_uart2_len s \<noteq> 0 \<and> usart2_sentcount s = 0
     \<or> m = SEND_UART4_MSG \<and> record_uart4_len s \<noteq> 0 \<and> usart4_sentcount s = 0"

text \<open>The body of \<open>send_message_to_sever\<close> after the message was taken from the queue.\<close>

definition dispatch :: "u16 \<Rightarrow> 'a fun_st_scheme \<Rightarrow> 'a fun_st_scheme result" where
  "dispatch msg_type s =
     (let c = tcp_client_list s ! 0; buf = tcp_send_buf c; len = tcp_send_len c in
        if msg_type = REPLY_RECV_MSG_WCS2GNDCTRL_PARA_TYPE then
          (let (buf, len) = reply_recv_msg buf msg_type in Inr (offer 0 buf len s))
        else if msg_type = SEND_MSG_GNDCTRL2WCS_CMD_TYPE then
          (if IsGnd2WcsStateQueueFree s = 0 then Inr s
           else and_then (send_msg_gndctrl2wcs_cmd buf msg_type s)
                  (\<lambda>(buf, len, s). Inr (offer 0 buf len s)))
        else if msg_type = SEND_MSG_GNDCTRL2WCS_CMD_INTERVAL_TYPE then
          and_then (send_msg_gndctrl2wcs_cmd_interval_data buf len msg_type s)
            (\<lambda>(buf, len, s). Inr (offer 0 buf len s))
        else if msg_type = REPLY_RECV_MSG_REPAIR_CAR_CMD_TYPE then
          (let (buf, len) = reply_recv_msg buf msg_type in Inr (offer 0 buf len s))
        else if msg_type = REPLY_WCS_GND_VERSION_TYPE then
          (let (buf, len) = send_msg_gnd_version_type (version s) buf msg_type in Inr (offer 0 buf len s))
        else if msg_type = SEND_UART2_MSG then
          (let (buf, len, s) = send_msg_uart_two_data buf msg_type s in Inr (offer 0 buf len s))
        else if msg_type = SEND_UART4_MSG then
          (let (buf, len, s) = send_msg_uart_four_data buf msg_type s in Inr (offer 0 buf len s))
        else if tcp_client_statue c = CLIENT_CONNECT_OK \<and> heart_dely s = 0 then
          (let (buf, len) = send_heart_msg buf HEART_MSG_TYPE
           in Inr ((offer 0 buf len s)\<lparr>heart_dely := HEART_DELAY\<rparr>))
        else Inr s)"

lemma send_message_dispatch:
  "send_message_to_sever s =
     (if tcp_send_en (tcp_client_list s ! 0) \<noteq> 0 then Inr s
      else and_then (GetSendMsgFromQueue s) (\<lambda>(m, s). dispatch m s))"
  by (simp add: send_message_to_sever_def dispatch_def)

lemma IsFree_zero: "fun_inv s \<Longrightarrow> IsGnd2WcsStateQueueFree s = 0 \<longleftrightarrow> ring_items (gndstatequeue s) = []"
proof -
  assume "fun_inv s"
  then have "ring_ok 20 (gndstatequeue s)" by (simp add: fun_inv_def)
  then have "front (gndstatequeue s) = rear (gndstatequeue s) \<longleftrightarrow> ring_count (gndstatequeue s) = 0"
    by (rule ring_count_zero [symmetric])
  also have "\<dots> \<longleftrightarrow> ring_items (gndstatequeue s) = []" by (metis length_0_conv length_ring_items)
  finally show ?thesis by (simp add: IsGnd2WcsStateQueueFree_def)
qed

lemma reply_fields:
  assumes "length buf = 1500"
  shows "recv_msg_check (fst (reply_recv_msg buf ty)) (snd (reply_recv_msg buf ty)) = Inr 1"
    "u16_at (fst (reply_recv_msg buf ty)) 9 = ty" "length (fst (reply_recv_msg buf ty)) = 1500"
    "recv_msg_check (fst (send_heart_msg buf ty)) (snd (send_heart_msg buf ty)) = Inr 1"
    "u16_at (fst (send_heart_msg buf ty)) 9 = ty" "length (fst (send_heart_msg buf ty)) = 1500"
    "recv_msg_check (fst (send_msg_gnd_version_type v buf ty)) (snd (send_msg_gnd_version_type v buf ty)) = Inr 1"
    "u16_at (fst (send_msg_gnd_version_type v buf ty)) 9 = ty" "length (fst (send_msg_gnd_version_type v buf ty)) = 1500"
  using assms built_frames [of buf ty v]
  by (simp_all add: reply_recv_msg_def send_heart_msg_def send_msg_gnd_version_type_def Let_def u16_at_finish_frame)
     (simp_all add: u16_at_def put_type_def)

lemma reply_lengths:
  "unat (snd (reply_recv_msg buf ty)) \<le> 1500" "unat (snd (send_heart_msg buf ty)) \<le> 1500"
  "unat (snd (send_msg_gnd_version_type v buf ty)) \<le> 1500"
  by (simp_all add: reply_recv_msg_def send_heart_msg_def send_msg_gnd_version_type_def Let_def)

text \<open>When its content is ready, the message that is due is offered as a well-formed frame of its
  type.\<close>

lemma dispatch_ready:
  assumes inv: "fun_inv s" and ready: "content_ready m s"
  shows "\<exists>s' buf len. dispatch m s = Inr s' \<and> fun_inv s' \<and> offers 0 buf len s' \<and> recv_msg_check buf len = Inr 1
    \<and> u16_at buf 9 = m \<and> ring_items (msgSendQueue s') = ring_items (msgSendQueue s)"
proof -
  let ?b = "tcp_send_buf (tcp_client_list s ! 0)"
  have b: "length ?b = 1500" using client_ok_nth [OF inv, of 0] by (simp add: client_ok_def)
  have fin: ?thesis if "dispatch m s = Inr (offer 0 buf len t)" "fun_inv t" "recv_msg_check buf len = Inr 1"
    "u16_at buf 9 = m" "length buf = 1500" "unat len \<le> 1500" "msgSendQueue t = msgSendQueue s" for buf len t
    using that offers_offer [OF that(2), of 0 buf len] fun_inv_offer [OF that(2,5,6), of 0]
    by (intro exI [of _ "offer 0 buf len t"] exI [of _ buf] exI [of _ len]) simp
  consider "m = 0x9220" | "m = 0x9221" | "m = 0x1222" | "m = 0x1201" "ring_items (gndstatequeue s) \<noteq> []"
    | "m = 0x1223" "ring_items (gnd2WcsIntervalQueue s) \<noteq> []"
    | "m = 0xA2A2" "record_uart2_len s \<noteq> 0" "usart2_sentcount s = 0"
    | "m = 0xA4A4" "record_uart4_len s \<noteq> 0" "usart4_sentcount s = 0"
    using ready unfolding content_ready_def by blast
  then show ?thesis
  proof cases
    case 1
    show ?thesis by (rule fin [OF _ inv reply_fields(1,2,3) [OF b] reply_lengths(1)]) (simp_all add: dispatch_def 1 Let_def split_beta)
  next
    case 2
    show ?thesis by (rule fin [OF _ inv reply_fields(1,2,3) [OF b] reply_lengths(1)]) (simp_all add: dispatch_def 2 Let_def split_beta)
  next
    case 3
    show ?thesis
      by (rule fin [OF _ inv reply_fields(7,8,9) [OF b] reply_lengths(3)]) (simp_all add: dispatch_def 3 Let_def split_beta)
  next
    case 4
    then obtain node rest where items: "ring_items (gndstatequeue s) = node # rest" by (cases "ring_items (gndstatequeue s)") auto
    obtain q r where qr: "send_msg_gndctrl2wcs_cmd ?b m s = Inr (cmd_frame ?b m node, 21,
       s\<lparr>gndstatequeue := q, pregndposnod := node,
         GndThreemsg := blit (GndThreemsg s) 0 (take 10 (drop 11 (cmd_frame ?b m node))), carthreeSendQueue := r\<rparr>)"
      "removed 20 (gndstatequeue s) (Some node) q" "appended 50 (carthreeSendQueue s) SEND_MSG_GNDCTRL2WCS_CMD_TYPE r"
      using send_msg_gndctrl2wcs_cmd_ok [OF inv items] by blast
    have d: "dispatch m s = Inr (offer 0 (cmd_frame ?b m node) 21 (s\<lparr>gndstatequeue := q, pregndposnod := node,
       GndThreemsg := blit (GndThreemsg s) 0 (take 10 (drop 11 (cmd_frame ?b m node))), carthreeSendQueue := r\<rparr>))"
      using qr(1) inv items by (simp add: dispatch_def Let_def 4(1) IsFree_zero)
    show ?thesis
      by (rule fin [OF d _ cmd_frame_fields(2,3,1) [OF b]])
        (use qr inv in \<open>simp_all add: fun_inv_def usart_inv_def removed_def appended_def\<close>)
  next
    case 5
    then obtain d rest where items: "ring_items (gnd2WcsIntervalQueue s) = d # rest" by (cases "ring_items (gnd2WcsIntervalQueue s)") auto
    obtain q r where qr: "send_msg_gndctrl2wcs_cmd_interval_data ?b (tcp_send_len (tcp_client_list s ! 0)) m s = Inr (interval_frame ?b m d, 17,
       s\<lparr>gnd2WcsIntervalQueue := q, carfunint := d, carSendQueue := r, positionreset := 30,
         GndThreeDebug := blit (GndThreeDebug s) 0 (take 6 (drop 11 (interval_frame ?b m d)))\<rparr>)"
      "removed 20 (gnd2WcsIntervalQueue s) (Some d) q" "appended 50 (carSendQueue s) CAR_MSG_GNDCTRL2WCS_CMD_INTERVAL_TYPE r"
      using send_interval_ok [OF inv items] by blast
    have d: "dispatch m s = Inr (offer 0 (interval_frame ?b m d) 17 (s\<lparr>gnd2WcsIntervalQueue := q, carfunint := d,
       carSendQueue := r, positionreset := 30,
       GndThreeDebug := blit (GndThreeDebug s) 0 (take 6 (drop 11 (interval_frame ?b m d)))\<rparr>))"
      using qr(1) by (simp add: dispatch_def Let_def 5(1))
    show ?thesis
      by (rule fin [OF d _ interval_frame_fields(2,3,1) [OF b]])
        (use qr inv in \<open>simp_all add: fun_inv_def usart_inv_def removed_def appended_def\<close>)
  next
    case 6
    let ?bytes = "take (unat (record_uart2_len s)) (record_uart2_buff s)"
    have u: "usart_inv s" using inv by (simp add: fun_inv_def)
    have n: "length ?bytes = unat (record_uart2_len s)" "length ?bytes \<le> 15"
      using u by (simp_all add: usart_inv_def word_le_nat_alt)
    have two: "send_msg_uart_two_data ?b m s = (uart_frame ?b m ?bytes, 11 + of_nat (length ?bytes),
        s\<lparr>record_uart2_len := 0, usart2_sentcount := 20\<rparr>)"
      unfolding n(1) using 6 by (simp add: send_uart_two_eq [OF u])
    have "fun_inv (s\<lparr>record_uart2_len := 0, usart2_sentcount := 20\<rparr>)"
      using inv by (simp add: fun_inv_def usart_inv_def)
    from fin [OF _ this uart_frame_fields(2,3,1) [OF b n(2)] uart_len_bound [OF n(2)]] show ?thesis
      using two by (simp add: dispatch_def Let_def 6(1))
  next
    case 7
    let ?bytes = "take (unat (record_uart4_len s)) (record_uart4_buff s)"
    have u: "usart_inv s" using inv by (simp add: fun_inv_def)
    have n: "length ?bytes = unat (record_uart4_len s)" "length ?bytes \<le> 15"
      using u by (simp_all add: usart_inv_def word_le_nat_alt)
    have four: "send_msg_uart_four_data ?b m s = (uart_frame ?b m ?bytes, 11 + of_nat (length ?bytes),
        s\<lparr>record_uart4_len := 0, usart4_sentcount := 20\<rparr>)"
      unfolding n(1) using 7 by (simp add: send_uart_four_eq [OF u])
    have "fun_inv (s\<lparr>record_uart4_len := 0, usart4_sentcount := 20\<rparr>)"
      using inv by (simp add: fun_inv_def usart_inv_def)
    from fin [OF _ this uart_frame_fields(2,3,1) [OF b n(2)] uart_len_bound [OF n(2)]] show ?thesis
      using four by (simp add: dispatch_def Let_def 7(1))
  qed
qed

text \<open>When it is not ready, no fault occurs either.\<close>

lemma dispatch_not_ready:
  assumes inv: "fun_inv s" and no: "\<not> content_ready m s"
  shows "\<exists>s'. dispatch m s = Inr s' \<and> fun_inv s' \<and> msgSendQueue s' = msgSendQueue s"
proof -
  let ?b = "tcp_send_buf (tcp_client_list s ! 0)"
  have b: "length ?b = 1500" "unat (tcp_send_len (tcp_client_list s ! 0)) \<le> 1500"
    using client_ok_nth [OF inv, of 0] by (simp_all add: client_ok_def)
  have u: "usart_inv s" using inv by (simp add: fun_inv_def)
  consider "m = 0x1201" "ring_items (gndstatequeue s) = []" | "m = 0x1223" "ring_items (gnd2WcsIntervalQueue s) = []"
    | "m = 0xA2A2" "record_uart2_len s = 0 \<or> usart2_sentcount s \<noteq> 0"
    | "m = 0xA4A4" "record_uart4_len s = 0 \<or> usart4_sentcount s \<noteq> 0"
    | "m \<notin> {0x9220, 0x9221, 0x1222, 0x1201, 0x1223, 0xA2A2, 0xA4A4}"
    using no unfolding content_ready_def by blast
  then show ?thesis
  proof cases
    case 1
    then show ?thesis using inv by (simp add: dispatch_def Let_def IsFree_zero)
  next
    case 2
    then show ?thesis
      using inv b by (simp add: dispatch_def Let_def send_interval_none fun_inv_offer)
  next
    case 3
    then show ?thesis using inv b by (simp add: dispatch_def Let_def send_uart_two_eq [OF u] fun_inv_offer)
  next
    case 4
    then show ?thesis using inv b by (simp add: dispatch_def Let_def send_uart_four_eq [OF u] fun_inv_offer)
  next
    case 5
    then show ?thesis
      using inv reply_fields(6) [OF b(1)] reply_lengths(2) by (auto simp: dispatch_def Let_def split_beta fun_inv_offer)
  qed
qed

lemma content_ready_queue [simp]: "content_ready m (s\<lparr>msgSendQueue := q\<rparr>) = content_ready m s"
  by (simp add: content_ready_def)

lemma sender_takes:
  assumes inv: "fun_inv s" and idle: "tcp_send_en (tcp_client_list s ! 0) = 0"
  shows "\<exists>q. send_message_to_sever s = dispatch (due s) (s\<lparr>msgSendQueue := q\<rparr>) \<and> fun_inv (s\<lparr>msgSendQueue := q\<rparr>)
    \<and> ring_items q = tl (ring_items (msgSendQueue s))"
proof -
  obtain r q where q: "GetSendMsgFromQueue s = Inr (msg_of r, s\<lparr>msgSendQueue := q\<rparr>)" "removed 100 (msgSendQueue s) r q"
    using GetSendMsgFromQueue_ok [OF inv] by blast
  have "msg_of r = due s" using q(2) by (simp add: removed_def due_def msg_of_def split: list.splits)
  then show ?thesis
    using q idle fun_inv_removed(1) [OF inv q(2)] by (intro exI [of _ q]) (simp add: send_message_dispatch removed_def)
qed

lemma send_message_keeps: "fun_inv s \<Longrightarrow> \<exists>s'. send_message_to_sever s = Inr s' \<and> fun_inv s'"
proof (cases "tcp_send_en (tcp_client_list s ! 0) = 0")
  case True
  assume inv: "fun_inv s"
  obtain q where q: "send_message_to_sever s = dispatch (due s) (s\<lparr>msgSendQueue := q\<rparr>)" "fun_inv (s\<lparr>msgSendQueue := q\<rparr>)"
    using sender_takes [OF inv True] by blast
  show ?thesis
    using dispatch_ready [OF q(2), of "due s"] dispatch_not_ready [OF q(2), of "due s"] q(1) by metis
next
  case False
  assume "fun_inv s"
  then show ?thesis using False by (simp add: send_message_dispatch)
qed

section \<open>Receiving\<close>

lemma recv_msg_process_frame:
  assumes inv: "fun_inv s" and r: "recv_msg_process point s = Inr s'"
  shows "fun_inv s'"
proof -
  let ?ty = "msg_type_at point"
  consider "?ty = 0x1220" | "?ty = 0x1221" | "?ty = 0x9201" | "?ty \<notin> {0x1F01, 0x1220, 0x1221, 0x9201}" | "?ty = 0x1F01"
    by blast
  then show ?thesis
  proof cases
    case 1
    let ?s = "s\<lparr>repair_flag := 0, wcs2GndParaData := decode_para point\<rparr>"
    have i0: "fun_inv ?s" using inv by simp
    obtain q where q: "AddSendMsgToQueue 0x9220 ?s = Inr (?s\<lparr>msgSendQueue := q\<rparr>)" "appended 100 (msgSendQueue ?s) 0x9220 q"
      using AddSendMsgToQueue_ok [OF i0] by blast
    have i1: "fun_inv (?s\<lparr>msgSendQueue := q\<rparr>)" using fun_inv_queues(1) [OF i0 q(2)] .
    obtain r where r2: "AddSendMsgToQueue 0x1222 (?s\<lparr>msgSendQueue := q\<rparr>) = Inr (?s\<lparr>msgSendQueue := q, msgSendQueue := r\<rparr>)"
      "appended 100 (msgSendQueue (?s\<lparr>msgSendQueue := q\<rparr>)) 0x1222 r"
      using AddSendMsgToQueue_ok [OF i1] by blast
    have i2: "fun_inv (?s\<lparr>msgSendQueue := q, msgSendQueue := r\<rparr>)" using fun_inv_queues(1) [OF i1 r2(2)] .
    obtain hz s2 where s2: "fwInitServo (?s\<lparr>msgSendQueue := q, msgSendQueue := r\<rparr>) = Inr (hz, s2)"
      "s' = s2\<lparr>fwInitHz := word_of_int hz, servo_start := 0\<rparr>"
      using r 1 q(1) r2(1) by (auto simp: recv_msg_process_def Let_def and_then_Inr_iff)
    have f: "speed_st.more s2 = speed_st.more (?s\<lparr>msgSendQueue := q, msgSendQueue := r\<rparr>)" "usart_inv s2"
      using fwInitServo_frame [OF s2(1)] i2 by (auto simp: fun_inv_def)
    show ?thesis
      using fun_inv_cong [OF more_speed_timexti [OF f(1)] f(2) i2] s2(2) by simp
  next
    case 2
    let ?s = "s\<lparr>repairCarCmdData := decode_repair point\<rparr>"
    have i0: "fun_inv ?s" using inv by simp
    obtain s1 where s1: "repair_car_para_init ?s = Inr s1" "AddSendMsgToQueue 0x9221 s1 = Inr s'"
      using r 2 by (auto simp: recv_msg_process_def Let_def and_then_Inr_iff)
    have f: "timexti_st.more s1 = timexti_st.more ?s" "usart_inv s1"
      using repair_car_para_init_frame [OF s1(1)] i0 by (auto simp: fun_inv_def)
    have i1: "fun_inv s1" using fun_inv_cong [OF f i0] .
    then show ?thesis using AddSendMsgToQueue_ok [OF i1, of "0x9221"] s1(2) fun_inv_queues(1) [OF i1] by fastforce
  next
    case 3
    then show ?thesis using r inv by (auto simp: recv_msg_process_def Let_def)
  next
    case 4
    then show ?thesis using r inv by (auto simp: recv_msg_process_def Let_def)
  next
    case 5
    then show ?thesis using r by (simp add: recv_msg_process_def Let_def)
  qed
qed

text \<open>The faults of the lower layers.\<close>

lemma flt_to_int_fault: "flt_to_int lo hi x = Inl f \<Longrightarrow> f = Undefined"
  by (cases x) (auto split: if_splits)

lemma fwInitServo_fault: "fwInitServo s = Inl f \<Longrightarrow> f = Undefined"
  by (auto simp: fwInitServo_def Let_def and_then_Inl_iff dest: flt_to_int_fault simp del: flt_to_int.simps)

lemma RS485_OUT_fault: "RS485_OUT v s = Inl f \<Longrightarrow> f = Undefined"
  by (auto simp: RS485_OUT_def ServoFreqSet_def siemens_scale_eq Let_def split: if_splits)

lemma repair_car_para_init_fault: "repair_car_para_init s = Inl f \<Longrightarrow> f = Undefined"
  using repair_car_para_init_eq [OF refl, of s] RS485_OUT_fault by (auto split: if_splits)

lemma recv_msg_process_fault:
  assumes inv: "fun_inv s" and r: "recv_msg_process point s = Inl f"
  shows "f = System_Reset \<and> msg_type_at point = RECV_MSG_BOOT_CMD_TYPE \<or>
    f = Undefined \<and> msg_type_at point \<in> {RECV_MSG_WCS2GNDCTRL_PARA_TYPE, RECV_MSG_REPAIR_CAR_CMD_TYPE}"
proof -
  let ?ty = "msg_type_at point"
  have add: "AddSendMsgToQueue m t \<noteq> Inl f" if "fun_inv t" for m and t :: "'a fun_st_scheme"
    using AddSendMsgToQueue_ok [OF that, of m] by auto
  consider "?ty = 0x1220" | "?ty = 0x1221" | "?ty \<notin> {0x1F01, 0x1220, 0x1221}" | "?ty = 0x1F01"
    by blast
  then show ?thesis
  proof cases
    case 1
    let ?s = "s\<lparr>repair_flag := 0, wcs2GndParaData := decode_para point\<rparr>"
    have i0: "fun_inv ?s" using inv by simp
    obtain q where q: "AddSendMsgToQueue 0x9220 ?s = Inr (?s\<lparr>msgSendQueue := q\<rparr>)" "appended 100 (msgSendQueue ?s) 0x9220 q"
      using AddSendMsgToQueue_ok [OF i0] by blast
    have i1: "fun_inv (?s\<lparr>msgSendQueue := q\<rparr>)" using fun_inv_queues(1) [OF i0 q(2)] .
    then show ?thesis
      using r 1 q(1) add [OF i1] fwInitServo_fault by (auto simp: recv_msg_process_def Let_def and_then_Inl_iff)
  next
    case 2
    let ?s = "s\<lparr>repairCarCmdData := decode_repair point\<rparr>"
    have i0: "fun_inv ?s" using inv by simp
    have "fun_inv s1" if "repair_car_para_init ?s = Inr s1" for s1
      using fun_inv_cong [OF _ _ i0, of s1] repair_car_para_init_frame [OF that] i0 by (auto simp: fun_inv_def)
    then show ?thesis
      using r 2 add repair_car_para_init_fault by (auto simp: recv_msg_process_def Let_def and_then_Inl_iff)
  next
    case 3
    then show ?thesis using r by (auto simp: recv_msg_process_def Let_def split: if_splits)
  next
    case 4
    then show ?thesis using r by (simp add: recv_msg_process_def Let_def)
  qed
qed

lemma recv_msg_check_total:
  "10 \<le> length point \<Longrightarrow> unat len \<le> length point \<Longrightarrow>
   recv_msg_check point len = Inr 1 \<and> frame_ok point len \<or> recv_msg_check point len = Inr 0 \<and> \<not> frame_ok point len"
  by (simp add: recv_msg_check_frame_ok)

lemma GndThreemsg_offer [simp]: "GndThreemsg (offer k b l s) = GndThreemsg s"
  by (simp add: offer_def client_upd_def)

text \<open>A parameter frame that is accepted.\<close>

lemma para_frame_starts:
  assumes "fun_inv s" "length point = 1500" "unat len \<le> 1500" "frame_ok point len"
    and "msg_type_at point = RECV_MSG_WCS2GNDCTRL_PARA_TYPE" "para_ok (decode_para point)"
    and "length (ring_items (msgSendQueue s)) \<le> 97"
  shows "\<exists>s'. recv_message_from_sever point len s = Inr (0, s') \<and> fun_inv s'
    \<and> wcs2GndParaData s' = decode_para point \<and> repair_flag s' = 0 \<and> pid_ready s'
    \<and> start_view s' = stage_spec (first_stage_hz s') (second_stage_hz s') (fwInitHz s') 0
    \<and> uint (fwInitHz s') = min 5000 (start_hz (decode_para point) mod 2 ^ 16)
    \<and> ring_items (msgSendQueue s') = ring_items (msgSendQueue s)
        @ [REPLY_RECV_MSG_WCS2GNDCTRL_PARA_TYPE, REPLY_WCS_GND_VERSION_TYPE]"
proof -
  let ?s = "s\<lparr>repair_flag := 0, wcs2GndParaData := decode_para point\<rparr>"
  have chk: "recv_msg_check point len = Inr 1" using recv_msg_check_total [of point len] assms by simp
  have i0: "fun_inv ?s" using assms(1) by simp
  obtain q where q: "AddSendMsgToQueue 0x9220 ?s = Inr (?s\<lparr>msgSendQueue := q\<rparr>)" "appended 100 (msgSendQueue ?s) 0x9220 q"
    using AddSendMsgToQueue_ok [OF i0] by blast
  have i1: "fun_inv (?s\<lparr>msgSendQueue := q\<rparr>)" using fun_inv_queues(1) [OF i0 q(2)] .
  obtain r where r: "AddSendMsgToQueue 0x1222 (?s\<lparr>msgSendQueue := q\<rparr>) = Inr (?s\<lparr>msgSendQueue := q, msgSendQueue := r\<rparr>)"
    "appended 100 (msgSendQueue (?s\<lparr>msgSendQueue := q\<rparr>)) 0x1222 r"
    using AddSendMsgToQueue_ok [OF i1] by blast
  let ?t = "?s\<lparr>msgSendQueue := q, msgSendQueue := r\<rparr>"
  have items: "ring_items r = ring_items (msgSendQueue s) @ [0x9220, 0x1222]"
    using q(2) r(2) assms(7) by (auto simp: appended_def simp flip: length_ring_items)
  have p: "para_ok (wcs2GndParaData ?t)" using assms(6) by simp
  obtain s2 where s2: "fwInitServo ?t = Inr (uint (first_stage_hz s2), s2)"
    "uint (first_stage_hz s2) = min 5000 (start_hz (decode_para point) mod 2 ^ 16)" "pid_ready s2"
    "adjust_stage_flag s2 = 0" "first_stage_cnt s2 = 0" "second_stage_cnt s2 = 0"
    "wcs2GndParaData s2 = decode_para point"
    using fwInitServo_start [OF p] by auto
  let ?r = "s2\<lparr>fwInitHz := first_stage_hz s2, servo_start := 0\<rparr>"
  have run: "recv_msg_process point s = Inr ?r"
    using assms(5) q(1) r(1) s2(1) by (simp add: recv_msg_process_def Let_def)
  have m: "speed_st.more s2 = speed_st.more ?t" using fwInitServo_frame [OF s2(1)] by simp
  have f: "msgSendQueue s2 = r" "repair_flag s2 = 0"
    using fun_fields(1) [OF more_speed_timexti [OF m]] timexti_fields(4) [OF m] by simp_all
  have "start_view ?r = stage_spec (first_stage_hz ?r) (second_stage_hz ?r) (fwInitHz ?r) 0"
    using s2 by (simp add: start_view_def stage_spec_def)
  moreover have "pid_ready ?r" using s2(3) by (simp add: pid_ready_def)
  moreover have "fun_inv ?r" using recv_msg_process_frame [OF assms(1) run] .
  ultimately show ?thesis
    using chk run s2 f items by (intro exI [of _ ?r]) (simp add: recv_message_from_sever_def)
qed

section \<open>Properties\<close>

text \<open>C25: Receiving is robust: whatever bytes the buffer holds, \<open>recv_message_from_sever\<close> clears the
  length and keeps the invariant of the whole state; a frame that fails the check changes nothing;
  the processor is reset exactly by an accepted boot command, and no other fault occurs but the
  undefined conversions of parameters outside the operating range.\<close>

theorem receive_robust:
  assumes "fun_inv s" "length point = 1500" "unat len \<le> 1500"
  shows "case recv_message_from_sever point len s of
      Inr (len', s') \<Rightarrow> len' = 0 \<and> fun_inv s' \<and> (frame_ok point len \<or> s' = s)
    | Inl f \<Rightarrow> frame_ok point len \<and>
        (f = System_Reset \<and> msg_type_at point = RECV_MSG_BOOT_CMD_TYPE \<or>
         f = Undefined \<and> msg_type_at point \<in> {RECV_MSG_WCS2GNDCTRL_PARA_TYPE, RECV_MSG_REPAIR_CAR_CMD_TYPE})"
proof (cases "frame_ok point len")
  case False
  then show ?thesis
    using recv_msg_check_total [of point len] assms by (simp add: recv_message_from_sever_def)
next
  case True
  then have chk: "recv_msg_check point len = Inr 1" using recv_msg_check_total [of point len] assms by simp
  show ?thesis
  proof (cases "recv_msg_process point s")
    case (Inl f)
    then show ?thesis
      using recv_msg_process_fault [OF assms(1) Inl] True chk by (simp add: recv_message_from_sever_def)
  next
    case (Inr s')
    then show ?thesis
      using recv_msg_process_frame [OF assms(1) Inr] True chk by (simp add: recv_message_from_sever_def)
  qed
qed

text \<open>C8: A parameter frame starts the line: an accepted frame of type \<open>0x1220\<close> with parameters in
  the operating range is taken over completely, maintenance driving ends, the start begins at its
  first stage with the start frequency of the parameters, the controller is ready, and the
  acknowledgement and the version report are queued in this order.\<close>

theorem parameters_start_line:
  assumes "fun_inv s" "length point = 1500" "unat len \<le> 1500" "frame_ok point len"
    and "msg_type_at point = RECV_MSG_WCS2GNDCTRL_PARA_TYPE" "para_ok (decode_para point)"
    and "length (ring_items (msgSendQueue s)) \<le> 97"
  shows "\<exists>s'. recv_message_from_sever point len s = Inr (0, s') \<and> fun_inv s'
    \<and> wcs2GndParaData s' = decode_para point \<and> repair_flag s' = 0 \<and> pid_ready s'
    \<and> start_view s' = stage_spec (first_stage_hz s') (second_stage_hz s') (fwInitHz s') 0
    \<and> uint (fwInitHz s') = min 5000 (start_hz (decode_para point) mod 2 ^ 16)
    \<and> ring_items (msgSendQueue s') = ring_items (msgSendQueue s)
        @ [REPLY_RECV_MSG_WCS2GNDCTRL_PARA_TYPE, REPLY_WCS_GND_VERSION_TYPE]"
  by (rule para_frame_starts [OF assms])

text \<open>The sender turns the message that is due into a frame: when client 0 is idle and the
  content of the oldest queued message is available, \<open>send_message_to_sever\<close> takes exactly this
  message from the queue and requests the transmission of a frame of its type that passes the
  frame check.\<close>

theorem sender_offers_due_message:
  assumes "fun_inv s" "tcp_send_en (tcp_client_list s ! 0) = 0" "content_ready (due s) s"
  shows "\<exists>s' buf len. send_message_to_sever s = Inr s' \<and> fun_inv s' \<and> offers 0 buf len s'
    \<and> recv_msg_check buf len = Inr 1 \<and> u16_at buf 9 = due s
    \<and> ring_items (msgSendQueue s') = tl (ring_items (msgSendQueue s))"
proof -
  obtain q where q: "send_message_to_sever s = dispatch (due s) (s\<lparr>msgSendQueue := q\<rparr>)" "fun_inv (s\<lparr>msgSendQueue := q\<rparr>)"
    "ring_items q = tl (ring_items (msgSendQueue s))"
    using sender_takes [OF assms(1,2)] by blast
  show ?thesis
    using dispatch_ready [OF q(2), of "due s"] assms(3) q by simp
qed

text \<open>A position report carries the oldest recorded state: its payload is the measured time,
  the car number and the frequency of the oldest node of the state queue, which is removed and kept
  as \<open>pregndposnod\<close>, and the copy for the third client holds the same ten bytes.\<close>

theorem report_carries_oldest_state:
  assumes "fun_inv s" "tcp_send_en (tcp_client_list s ! 0) = 0" "due s = SEND_MSG_GNDCTRL2WCS_CMD_TYPE"
    and "ring_items (gndstatequeue s) = node # rest"
  shows "\<exists>s' buf. send_message_to_sever s = Inr s' \<and> offers 0 buf 21 s' \<and> recv_msg_check buf 21 = Inr 1
    \<and> u32_at buf 11 = node_speed node \<and> u16_at buf 15 = carnum node \<and> u16_at buf 19 = servo node
    \<and> ring_items (gndstatequeue s') = rest \<and> pregndposnod s' = node
    \<and> take 10 (GndThreemsg s') = take 10 (drop 11 buf)
    \<and> appended 50 (carthreeSendQueue s) SEND_MSG_GNDCTRL2WCS_CMD_TYPE (carthreeSendQueue s')"
proof -
  let ?b = "tcp_send_buf (tcp_client_list s ! 0)"
  have b: "length ?b = 1500" using client_ok_nth [OF assms(1), of 0] by (simp add: client_ok_def)
  obtain q0 where q0: "send_message_to_sever s = dispatch (due s) (s\<lparr>msgSendQueue := q0\<rparr>)" "fun_inv (s\<lparr>msgSendQueue := q0\<rparr>)"
    using sender_takes [OF assms(1,2)] by blast
  let ?s = "s\<lparr>msgSendQueue := q0\<rparr>"
  have items: "ring_items (gndstatequeue ?s) = node # rest" using assms(4) by simp
  obtain q r where qr: "send_msg_gndctrl2wcs_cmd ?b (due s) ?s = Inr (cmd_frame ?b (due s) node, 21,
       ?s\<lparr>gndstatequeue := q, pregndposnod := node,
         GndThreemsg := blit (GndThreemsg ?s) 0 (take 10 (drop 11 (cmd_frame ?b (due s) node))), carthreeSendQueue := r\<rparr>)"
    "removed 20 (gndstatequeue ?s) (Some node) q" "ring_items q = rest"
    "appended 50 (carthreeSendQueue ?s) SEND_MSG_GNDCTRL2WCS_CMD_TYPE r"
    using send_msg_gndctrl2wcs_cmd_ok [OF q0(2) items] by blast
  let ?t = "?s\<lparr>gndstatequeue := q, pregndposnod := node,
         GndThreemsg := blit (GndThreemsg ?s) 0 (take 10 (drop 11 (cmd_frame ?b (due s) node))), carthreeSendQueue := r\<rparr>"
  have inv: "fun_inv ?t" using q0(2) qr(2,4) by (simp add: fun_inv_def usart_inv_def removed_def appended_def)
  have d: "send_message_to_sever s = Inr (offer 0 (cmd_frame ?b (due s) node) 21 ?t)"
    using q0 qr(1) items by (simp add: dispatch_def Let_def assms(3) IsFree_zero)
  have g: "length (GndThreemsg s) = 100" using assms(1) by (simp add: fun_inv_def)
  have "take 10 (blit (GndThreemsg s) 0 (take 10 (drop 11 (cmd_frame ?b (due s) node))))
      = take 10 (drop 11 (cmd_frame ?b (due s) node))"
    using take_blit [of "take 10 (drop 11 (cmd_frame ?b (due s) node))" "GndThreemsg s"] g cmd_frame_fields(1) [OF b]
    by simp
  then show ?thesis
    using d offers_offer [OF inv] cmd_frame_fields [OF b] qr
    by (intro exI [of _ "offer 0 (cmd_frame ?b (due s) node) 21 ?t"] exI [of _ "cmd_frame ?b (due s) node"])
      (simp add: GndThreemsg_offer)
qed

text \<open>An interval message without an interval repeats an old frame: when the interval queue
  has dropped its element, the sender requests the transmission of whatever the buffer of the
  client still holds.\<close>

theorem stale_interval_frame_sent:
  assumes "fun_inv s" "tcp_send_en (tcp_client_list s ! 0) = 0"
    and "due s = SEND_MSG_GNDCTRL2WCS_CMD_INTERVAL_TYPE" "ring_items (gnd2WcsIntervalQueue s) = []"
  shows "\<exists>s'. send_message_to_sever s = Inr s' \<and>
    offers 0 (tcp_send_buf (tcp_client_list s ! 0)) (tcp_send_len (tcp_client_list s ! 0)) s'"
proof -
  obtain q where q: "send_message_to_sever s = dispatch (due s) (s\<lparr>msgSendQueue := q\<rparr>)" "fun_inv (s\<lparr>msgSendQueue := q\<rparr>)"
    using sender_takes [OF assms(1,2)] by blast
  show ?thesis
    using q assms(3,4) offers_offer [OF q(2), of 0] by (simp add: dispatch_def Let_def send_interval_none)
qed

section \<open>Concrete instances\<close>

definition client_bss :: client where
  "client_bss = \<lparr>tcp_recev_buf = replicate 1500 0, tcp_send_buf = replicate 1500 0, tcp_send_en = 0,
     tcp_recev_len = 0, tcp_send_len = 0, tcp_client_statue = 0, tcp_client_Delay_reg = 0,
     echoclient_pcb = None, dest_ip = replicate 4 0, dest_port = 0, connect_is_ok = 0, connect_dely = 0\<rparr>"

text \<open>The state after the \<open>Init\<close> functions of \<open>main\<close>.\<close>

definition fun_boot :: fun_st where
  "fun_boot = timexti_st.extend exti_bss (fun_st.fields (initQueue (replicate 100 0) 100)
     (interval_init (replicate 20 \<lparr>PreCarNum = 0, CurCarNum = 0, interval = 0\<rparr>))
     (state_init (replicate 20 \<lparr>node_speed = 0, carnum = 0, servo = 0\<rparr>))
     (carinitQueue (replicate 50 0) 50) (cartwoinitQueue (replicate 50 0) 50) (carthreeinitQueue (replicate 50 0) 50)
     \<lparr>PreCarNum = 0, CurCarNum = 0, interval = 0\<rparr> \<lparr>node_speed = 0, carnum = 0, servo = 0\<rparr> 0 0 0 0
     (replicate 100 0) (replicate 100 0) 0 [13, 0, 0, 2] (replicate 4 client_bss))"

lemmas fun_demo_defs = fun_boot_def exti_demo_defs fun_st.defs timexti_st.extend_def client_bss_def

lemma fun_boot_parts:
  "gndstatequeue fun_boot = state_init (replicate 20 \<lparr>node_speed = 0, carnum = 0, servo = 0\<rparr>)"
  "msgSendQueue fun_boot = initQueue (replicate 100 0) 100"
  "gnd2WcsIntervalQueue fun_boot = interval_init (replicate 20 \<lparr>PreCarNum = 0, CurCarNum = 0, interval = 0\<rparr>)"
  "tcp_client_list fun_boot = replicate 4 client_bss"
  by (simp_all add: fun_demo_defs Let_def)

lemma fun_boot_inv: "fun_inv fun_boot"
  by (simp add: fun_inv_def fun_demo_defs usart_inv_def uart_ok_def Let_def client_ok_def ring_ok_def
      initQueue_def carinitQueue_def cartwoinitQueue_def carthreeinitQueue_def interval_init_def state_init_def)

theorem receive_robust_witness:
  "case recv_message_from_sever (replicate 1500 0) 1400 fun_boot of
      Inr (len', s') \<Rightarrow> len' = 0 \<and> fun_inv s' | Inl f \<Rightarrow> False"
proof -
  have "\<not> frame_ok (replicate 1500 0) 1400" by (simp add: frame_ok_def)
  then show ?thesis
    using receive_robust [OF fun_boot_inv, of "replicate 1500 0" 1400] by (auto split: sum.splits)
qed

text \<open>The parameter frame of the start-up data in \<open>gnd_release\<close>, in the receive buffer.\<close>

definition sample_frame :: "u8 list" where
  "sample_frame = [0xAA, 0xAA, 0x01, 0x00, 0x00, 0x00, 0x2D, 0x00, 0x32, 0x20, 0x12, 0x00, 0x00, 0x00, 0x40,
     0x00, 0x00, 0x00, 0x00, 0x28, 0x00, 0x00, 0x00, 0x0A, 0x00, 0x00, 0x00, 0x00, 0x00, 0x00, 0x00, 0x00,
     0x00, 0x80, 0x3F, 0xDC, 0x05, 0x00, 0x00, 0xF8, 0x24, 0x01, 0x00, 0xDC, 0x05] @ replicate 1455 0"

lemma sample_frame_ok: "frame_ok sample_frame 45" "msg_type_at sample_frame = 0x1220" "length sample_frame = 1500"
  by (simp_all add: frame_ok_def sample_frame_def summed_def u16_at_def msg_type_at_def mk16_def)

lemma sample_frame_para: "para_ok (decode_para sample_frame)" "pd_speed_target (decode_para sample_frame) = Fin 1"
  "pd_speed_factor (decode_para sample_frame) = 1500"
  by (simp_all add: para_ok_def decode_para_def sample_frame_def u32_at_def mk32_def flt_of_bits_def pow2_def Let_def approx_Fin)

theorem parameters_start_line_witness:
  "\<exists>s'. recv_message_from_sever sample_frame 45 fun_boot = Inr (0, s') \<and> pid_ready s' \<and> uint (fwInitHz s') = 1500
     \<and> ring_items (msgSendQueue s') = [0x9220, 0x1222]"
proof -
  have h: "start_hz (decode_para sample_frame) = 1500"
    using sample_frame_para(2,3) by (simp add: start_hz_def flt_eval)
  have e: "ring_items (msgSendQueue fun_boot) = []"
    by (simp add: fun_boot_parts initQueue_def ring_items_def ring_count_def)
  show ?thesis
    using parameters_start_line [OF fun_boot_inv sample_frame_ok(3) _ sample_frame_ok(1,2) sample_frame_para(1)]
    by (auto simp: e h)
qed

definition fun_demo :: fun_st where
  "fun_demo = fun_boot\<lparr>msgSendQueue := \<lparr>queue = (replicate 100 0)[1 := 0x1201], front = 0, rear = 1, maxSize = 100\<rparr>,
     gndstatequeue := \<lparr>queue = (replicate 20 \<lparr>node_speed = 0, carnum = 0, servo = 0\<rparr>)
       [1 := \<lparr>node_speed = 1499, carnum = 7, servo = 1500\<rparr>], front = 0, rear = 1, maxSize = 20\<rparr>\<rparr>"

lemma fun_demo_facts:
  "fun_inv fun_demo" "tcp_send_en (tcp_client_list fun_demo ! 0) = 0" "due fun_demo = 0x1201"
  "ring_items (gndstatequeue fun_demo) = [\<lparr>node_speed = 1499, carnum = 7, servo = 1500\<rparr>]"
  using fun_boot_inv
  by (simp_all add: fun_demo_def fun_inv_def usart_inv_def ring_ok_def fun_boot_parts client_bss_def due_def
      ring_items_def ring_count_def)

theorem sender_offers_due_message_witness:
  "\<exists>s' buf len. send_message_to_sever fun_demo = Inr s' \<and> offers 0 buf len s' \<and> recv_msg_check buf len = Inr 1
     \<and> u16_at buf 9 = 0x1201"
  using sender_offers_due_message [OF fun_demo_facts(1,2)] fun_demo_facts(3,4)
  by (auto simp: content_ready_def)

theorem report_carries_oldest_state_witness:
  "\<exists>s' buf. send_message_to_sever fun_demo = Inr s' \<and> offers 0 buf 21 s' \<and> u32_at buf 11 = 1499 \<and> u16_at buf 15 = 7"
  using report_carries_oldest_state [OF fun_demo_facts] by auto

theorem stale_interval_frame_sent_witness:
  "\<exists>s'. send_message_to_sever (fun_demo\<lparr>msgSendQueue := \<lparr>queue = (replicate 100 0)[1 := 0x1223], front = 0,
      rear = 1, maxSize = 100\<rparr>\<rparr>) = Inr s' \<and> offers 0 (replicate 1500 0) 0 s'"
proof -
  let ?s = "fun_demo\<lparr>msgSendQueue := \<lparr>queue = (replicate 100 0)[1 := 0x1223], front = 0, rear = 1, maxSize = 100\<rparr>\<rparr>"
  have "fun_inv ?s" using fun_demo_facts(1) by (simp add: fun_inv_def usart_inv_def ring_ok_def)
  moreover have "due ?s = 0x1223" by (simp add: due_def ring_items_def ring_count_def)
  moreover have "ring_items (gnd2WcsIntervalQueue ?s) = []"
    by (simp add: fun_demo_def fun_boot_parts interval_init_def ring_items_def ring_count_def)
  moreover have "tcp_client_list ?s = replicate 4 client_bss" by (simp add: fun_demo_def fun_boot_parts)
  ultimately show ?thesis
    using stale_interval_frame_sent [of ?s] by (simp add: client_bss_def)
qed

end
