(* ===== verification/CarClients.thy ===== *)
theory CarClients
  imports Messages
begin

text \<open>
  \<open>carfun.c\<close>, \<open>carfuntwo.c\<close> and \<open>carfunthree.c\<close>: the clients 1, 2 and 3. Each has its own queue of
  message types (the queue operations are in \<open>RingQueue\<close>, their use on the global queues here and in
  \<open>Messages\<close>), checks received frames without comparing the checksum, and forwards what \<open>fun.c\<close>
  left in \<open>carfunint\<close>, \<open>GndThreemsg\<close> and \<open>GndThreeDebug\<close>.
\<close>

section \<open>The queues\<close>

definition carGetSendMsgFromQueue :: "'a fun_st_scheme \<Rightarrow> (u16 \<times> 'a fun_st_scheme) result" where
  "carGetSendMsgFromQueue s = and_then (caroutQueue (carSendQueue s)) (\<lambda>(m, q). Inr (m, s\<lparr>carSendQueue := q\<rparr>))"

definition cartwoInitSendMsgQueue :: "'a fun_st_scheme \<Rightarrow> 'a fun_st_scheme" where
  "cartwoInitSendMsgQueue s = s\<lparr>cartwoSendQueue := cartwoinitQueue (replicate 50 0) 50\<rparr>"

definition cartwoAddSendMsgToQueue :: "u16 \<Rightarrow> 'a fun_st_scheme \<Rightarrow> 'a fun_st_scheme result" where
  "cartwoAddSendMsgToQueue msg s =
     and_then (cartwoenQueue (cartwoSendQueue s) msg) (\<lambda>q. Inr (s\<lparr>cartwoSendQueue := q\<rparr>))"

definition cartwoGetSendMsgFromQueue :: "'a fun_st_scheme \<Rightarrow> (u16 \<times> 'a fun_st_scheme) result" where
  "cartwoGetSendMsgFromQueue s =
     and_then (cartwooutQueue (cartwoSendQueue s)) (\<lambda>(m, q). Inr (m, s\<lparr>cartwoSendQueue := q\<rparr>))"

definition carthreeGetSendMsgFromQueue :: "'a fun_st_scheme \<Rightarrow> (u16 \<times> 'a fun_st_scheme) result" where
  "carthreeGetSendMsgFromQueue s =
     and_then (carthreeoutQueue (carthreeSendQueue s)) (\<lambda>(m, q). Inr (m, s\<lparr>carthreeSendQueue := q\<rparr>))"

lemmas car_queue_definitions [queue_ops] = carGetSendMsgFromQueue_def cartwoAddSendMsgToQueue_def
  cartwoGetSendMsgFromQueue_def carthreeGetSendMsgFromQueue_def

section \<open>Receiving\<close>

text \<open>The exclusive-or is computed, its comparison with the checksum is commented out.\<close>

definition carrecv_msg_check :: "u8 list \<Rightarrow> u16 \<Rightarrow> u8 result" where
  "carrecv_msg_check point len =
     and_then (rd point 0) (\<lambda>p0. if p0 \<noteq> 0xAA then Inr 0 else
     and_then (rd point 1) (\<lambda>p1. if p1 \<noteq> 0xAA then Inr 0 else
     and_then (rd point 6) (\<lambda>p6. and_then (rd point 7) (\<lambda>p7. if mk16 p6 p7 \<noteq> len then Inr 0 else
     and_then (rd point 9) (\<lambda>p9.
     and_then (xor_loop point 1 (uint len - 9) p9) (\<lambda>_. Inr 1))))))"

definition carrecv_msg_process :: "u8 list \<Rightarrow> 'a fun_st_scheme \<Rightarrow> 'a fun_st_scheme result" where
  "carrecv_msg_process point s =
     (if msg_type_at point = RECV_MSG_BOOT_CMD_TYPE then Inl System_Reset else Inr s)"

definition carrecv_message_from_sever :: "u8 list \<Rightarrow> u16 \<Rightarrow> 'a fun_st_scheme \<Rightarrow> (u16 \<times> 'a fun_st_scheme) result" where
  "carrecv_message_from_sever point len s =
     and_then (carrecv_msg_check point len) (\<lambda>ok.
       if ok = 0 then Inr (0, s)
       else and_then (carrecv_msg_process point s) (\<lambda>s. Inr (0, s)))"

definition cartworecv_msg_check :: "u8 list \<Rightarrow> u16 \<Rightarrow> u8 result" where
  "cartworecv_msg_check point len =
     and_then (rd point 0) (\<lambda>p0. if p0 \<noteq> 0xAA then Inr 0 else
     and_then (rd point 1) (\<lambda>p1. if p1 \<noteq> 0xAA then Inr 0 else
     and_then (rd point 6) (\<lambda>p6. and_then (rd point 7) (\<lambda>p7. if mk16 p6 p7 \<noteq> len then Inr 0 else
     and_then (rd point 9) (\<lambda>p9.
     and_then (xor_loop point 1 (uint len - 9) p9) (\<lambda>_. Inr 1))))))"

definition cartworecv_msg_process :: "u8 list \<Rightarrow> 'a fun_st_scheme \<Rightarrow> 'a fun_st_scheme result" where
  "cartworecv_msg_process point s =
     (if msg_type_at point = RECV_MSG_BOOT_CMD_TYPE then Inl System_Reset else Inr s)"

definition cartworecv_message_from_sever ::
  "u8 list \<Rightarrow> u16 \<Rightarrow> 'a fun_st_scheme \<Rightarrow> (u16 \<times> 'a fun_st_scheme) result" where
  "cartworecv_message_from_sever point len s =
     and_then (cartworecv_msg_check point len) (\<lambda>ok.
       if ok = 0 then Inr (0, s)
       else and_then (cartworecv_msg_process point s) (\<lambda>s. Inr (0, s)))"

definition carthreerecv_msg_check :: "u8 list \<Rightarrow> u16 \<Rightarrow> u8 result" where
  "carthreerecv_msg_check point len =
     and_then (rd point 0) (\<lambda>p0. if p0 \<noteq> 0xAA then Inr 0 else
     and_then (rd point 1) (\<lambda>p1. if p1 \<noteq> 0xAA then Inr 0 else
     and_then (rd point 6) (\<lambda>p6. and_then (rd point 7) (\<lambda>p7. if mk16 p6 p7 \<noteq> len then Inr 0 else
     and_then (rd point 9) (\<lambda>p9.
     and_then (xor_loop point 1 (uint len - 9) p9) (\<lambda>_. Inr 1))))))"

definition carthreerecv_msg_process :: "u8 list \<Rightarrow> 'a fun_st_scheme \<Rightarrow> 'a fun_st_scheme result" where
  "carthreerecv_msg_process point s =
     (if msg_type_at point = RECV_MSG_BOOT_CMD_TYPE then Inl System_Reset else Inr s)"

definition carthreerecv_message_from_sever ::
  "u8 list \<Rightarrow> u16 \<Rightarrow> 'a fun_st_scheme \<Rightarrow> (u16 \<times> 'a fun_st_scheme) result" where
  "carthreerecv_message_from_sever point len s =
     and_then (carthreerecv_msg_check point len) (\<lambda>ok.
       if ok = 0 then Inr (0, s)
       else and_then (carthreerecv_msg_process point s) (\<lambda>s. Inr (0, s)))"

section \<open>Building\<close>

definition carsend_msg_interval_data :: "u8 list \<Rightarrow> u16 \<Rightarrow> 'a fun_st_scheme \<Rightarrow> u8 list \<times> u16" where
  "carsend_msg_interval_data buf ty s =
     (let sendlen = 11 + 4; d = carfunint s;
          buf = (put_type buf ty)[11 := lo8 (CurCarNum d), 12 := hi8 (CurCarNum d),
                                  13 := lo8 (interval d), 14 := hi8 (interval d)]
      in (finish_frame buf sendlen, sendlen))"

definition cartwosend_msg_interval_data :: "u8 list \<Rightarrow> u16 \<Rightarrow> 'a fun_st_scheme \<Rightarrow> u8 list \<times> u16" where
  "cartwosend_msg_interval_data buf ty s =
     (let sendlen = 11 + 4; d = carfunint s;
          buf = (put_type buf ty)[11 := lo8 (CurCarNum d), 12 := hi8 (CurCarNum d),
                                  13 := lo8 (interval d), 14 := hi8 (interval d)]
      in (finish_frame buf sendlen, sendlen))"

definition carthreesend_msg_interval_data :: "u8 list \<Rightarrow> u16 \<Rightarrow> 'a fun_st_scheme \<Rightarrow> u8 list \<times> u16" where
  "carthreesend_msg_interval_data buf ty s =
     (let sendlen = 11 + 4; d = carfunint s;
          buf = (put_type buf ty)[11 := lo8 (CurCarNum d), 12 := hi8 (CurCarNum d),
                                  13 := lo8 (interval d), 14 := hi8 (interval d)]
      in (finish_frame buf sendlen, sendlen))"

definition send_msg_gndthree2wcs_cmd :: "u8 list \<Rightarrow> u16 \<Rightarrow> 'a fun_st_scheme \<Rightarrow> u8 list \<times> u16" where
  "send_msg_gndthree2wcs_cmd buf ty s =
     (let sendlen = 21; g = GndThreemsg s;
          buf = (put_type buf ty)[11 := g ! 0, 12 := g ! 1, 13 := g ! 2, 14 := g ! 3, 15 := g ! 4,
                                  16 := g ! 5, 17 := g ! 6, 18 := g ! 7, 19 := g ! 8, 20 := g ! 9]
      in (finish_frame buf sendlen, sendlen))"

definition send_msg_gndthree2wcs_data :: "u8 list \<Rightarrow> u16 \<Rightarrow> 'a fun_st_scheme \<Rightarrow> u8 list \<times> u16" where
  "send_msg_gndthree2wcs_data buf ty s =
     (let sendlen = 11 + 6; g = GndThreeDebug s;
          buf = (put_type buf ty)[11 := g ! 0, 12 := g ! 1, 13 := g ! 2, 14 := g ! 3, 15 := g ! 4, 16 := g ! 5]
      in (finish_frame buf sendlen, sendlen))"

section \<open>The senders\<close>

definition carsend_message_to_sever :: "'a fun_st_scheme \<Rightarrow> 'a fun_st_scheme result" where
  "carsend_message_to_sever s =
     (if tcp_send_en (tcp_client_list s ! 1) \<noteq> 0 then Inr s
      else and_then (carGetSendMsgFromQueue s) (\<lambda>(msg_type, s).
        if msg_type = CAR_MSG_GNDCTRL2WCS_CMD_INTERVAL_TYPE then
          (let (buf, len) = carsend_msg_interval_data (tcp_send_buf (tcp_client_list s ! 1)) msg_type s
           in Inr (offer 1 buf len s))
        else Inr s))"

definition cartwosend_message_to_sever :: "'a fun_st_scheme \<Rightarrow> 'a fun_st_scheme result" where
  "cartwosend_message_to_sever s =
     (if tcp_send_en (tcp_client_list s ! 2) \<noteq> 0 then Inr s
      else and_then (cartwoGetSendMsgFromQueue s) (\<lambda>(msg_type, s).
        if msg_type = CAR_MSG_GNDCTRL2WCS_CMD_INTERVAL_TYPE then
          (let (buf, len) = cartwosend_msg_interval_data (tcp_send_buf (tcp_client_list s ! 2)) msg_type s
           in Inr (offer 2 buf len s))
        else Inr s))"

definition carthreesend_message_to_sever :: "'a fun_st_scheme \<Rightarrow> 'a fun_st_scheme result" where
  "carthreesend_message_to_sever s =
     (if tcp_send_en (tcp_client_list s ! 3) \<noteq> 0 then Inr s
      else and_then (carthreeGetSendMsgFromQueue s) (\<lambda>(msg_type, s).
        let buf = tcp_send_buf (tcp_client_list s ! 3) in
        if msg_type = CAR_MSG_GNDCTRL2WCS_CMD_INTERVAL_TYPE then
          (let (buf, len) = carthreesend_msg_interval_data buf msg_type s in Inr (offer 3 buf len s))
        else if msg_type = SEND_MSG_GNDCTRL2WCS_CMD_TYPE then
          (let (buf, len) = send_msg_gndthree2wcs_cmd buf msg_type s in Inr (offer 3 buf len s))
        else if msg_type = SEND_MSG_GNDCTRL2WCS_CMD_INTERVAL_TYPE then
          (let (buf, len) = send_msg_gndthree2wcs_data buf msg_type s in Inr (offer 3 buf len s))
        else Inr s))"

section \<open>Lemmas\<close>

text \<open>The three checks accept every frame with the start bytes and the length, whatever its
  checksum.\<close>

lemma carrecv_msg_check_eq:
  assumes "10 \<le> length point" "unat len \<le> length point"
  shows "carrecv_msg_check point len =
    Inr (if point ! 0 = 0xAA \<and> point ! 1 = 0xAA \<and> u16_at point 6 = len then 1 else 0)"
proof -
  have "rd point i = Inr (point ! i)" if "i < 10" for i using that assms(1) by simp
  note r = this [of 0] this [of 1] this [of 6] this [of 7] this [of 9]
  show ?thesis using assms r by (simp add: carrecv_msg_check_def xor_loop_sum [unfolded One_nat_def] u16_at_def)
qed

lemma carrecv_copies: "cartworecv_msg_check = carrecv_msg_check" "carthreerecv_msg_check = carrecv_msg_check"
  by (simp_all add: fun_eq_iff cartworecv_msg_check_def carthreerecv_msg_check_def carrecv_msg_check_def)

lemma carrecv_process_copies: "cartworecv_msg_process = carrecv_msg_process" "carthreerecv_msg_process = carrecv_msg_process"
  by (simp_all add: fun_eq_iff cartworecv_msg_process_def carthreerecv_msg_process_def carrecv_msg_process_def)

lemma carrecv_message_copies:
  "cartworecv_message_from_sever = carrecv_message_from_sever"
  "carthreerecv_message_from_sever = carrecv_message_from_sever"
  unfolding fun_eq_iff carrecv_message_from_sever_def cartworecv_message_from_sever_def
    carthreerecv_message_from_sever_def carrecv_copies carrecv_process_copies by simp_all

lemma carrecv_message_eq:
  assumes "10 \<le> length point" "unat len \<le> length point"
  shows "carrecv_message_from_sever point len s =
    (if point ! 0 = 0xAA \<and> point ! 1 = 0xAA \<and> u16_at point 6 = len \<and> msg_type_at point = RECV_MSG_BOOT_CMD_TYPE
     then Inl System_Reset else Inr (0, s))"
  by (simp add: carrecv_message_from_sever_def carrecv_msg_check_eq [OF assms] carrecv_msg_process_def)

text \<open>A client with a queue that does not fault offers a frame or does nothing.\<close>

lemma built_car_frames:
  assumes "length buf = 1500"
  shows "length (fst (carsend_msg_interval_data buf ty s)) = 1500"
    "recv_msg_check (fst (carsend_msg_interval_data buf ty s)) 15 = Inr 1"
    "length (fst (send_msg_gndthree2wcs_cmd buf ty s)) = 1500"
    "recv_msg_check (fst (send_msg_gndthree2wcs_cmd buf ty s)) 21 = Inr 1"
    "length (fst (send_msg_gndthree2wcs_data buf ty s)) = 1500"
    "recv_msg_check (fst (send_msg_gndthree2wcs_data buf ty s)) 17 = Inr 1"
  using assms finish_frame_accepted
  by (simp_all add: carsend_msg_interval_data_def send_msg_gndthree2wcs_cmd_def send_msg_gndthree2wcs_data_def Let_def)

lemma car_lengths [simp]:
  "snd (carsend_msg_interval_data buf ty s) = 15" "snd (send_msg_gndthree2wcs_cmd buf ty s) = 21"
  "snd (send_msg_gndthree2wcs_data buf ty s) = 17"
  by (simp_all add: carsend_msg_interval_data_def send_msg_gndthree2wcs_cmd_def send_msg_gndthree2wcs_data_def Let_def)

lemma car_build_copies:
  "cartwosend_msg_interval_data = carsend_msg_interval_data" "carthreesend_msg_interval_data = carsend_msg_interval_data"
  by (simp_all add: fun_eq_iff carsend_msg_interval_data_def cartwosend_msg_interval_data_def
      carthreesend_msg_interval_data_def)

lemma car_interval_fields:
  assumes "length buf = 1500"
  shows "u16_at (fst (carsend_msg_interval_data buf ty s)) 11 = CurCarNum (carfunint s)"
    "u16_at (fst (carsend_msg_interval_data buf ty s)) 13 = interval (carfunint s)"
    "snd (carsend_msg_interval_data buf ty s) = 15"
  using assms
  by (simp_all add: carsend_msg_interval_data_def Let_def u16_at_finish_frame) (simp_all add: u16_at_def)

lemma carGet_ok:
  "fun_inv s \<Longrightarrow> \<exists>r q. carGetSendMsgFromQueue s = Inr (msg_of r, s\<lparr>carSendQueue := q\<rparr>) \<and> removed 50 (carSendQueue s) r q"
  "fun_inv s \<Longrightarrow> \<exists>r q. cartwoGetSendMsgFromQueue s = Inr (msg_of r, s\<lparr>cartwoSendQueue := q\<rparr>) \<and> removed 50 (cartwoSendQueue s) r q"
  "fun_inv s \<Longrightarrow> \<exists>r q. carthreeGetSendMsgFromQueue s = Inr (msg_of r, s\<lparr>carthreeSendQueue := q\<rparr>) \<and> removed 50 (carthreeSendQueue s) r q"
proof -
  have get: "\<exists>r q'. and_then (outQueue q) f = f (msg_of r, q') \<and> removed 50 q r q'" if "ring_ok 50 q" for q and f :: "u16 \<times> u16 ring \<Rightarrow> (u16 \<times> 'a fun_st_scheme) result"
    using ring_get_removed [OF that] by (force simp: outQueue_ring_get)
  assume "fun_inv s"
  then have ok: "ring_ok 50 (carSendQueue s)" "ring_ok 50 (cartwoSendQueue s)" "ring_ok 50 (carthreeSendQueue s)"
    by (simp_all add: fun_inv_def)
  show "\<exists>r q. carGetSendMsgFromQueue s = Inr (msg_of r, s\<lparr>carSendQueue := q\<rparr>) \<and> removed 50 (carSendQueue s) r q"
    using get [OF ok(1), of "\<lambda>(m, q). Inr (m, s\<lparr>carSendQueue := q\<rparr>)"]
    by (simp add: carGetSendMsgFromQueue_def outQueue_copies)
  show "\<exists>r q. cartwoGetSendMsgFromQueue s = Inr (msg_of r, s\<lparr>cartwoSendQueue := q\<rparr>) \<and> removed 50 (cartwoSendQueue s) r q"
    using get [OF ok(2), of "\<lambda>(m, q). Inr (m, s\<lparr>cartwoSendQueue := q\<rparr>)"]
    by (simp add: cartwoGetSendMsgFromQueue_def outQueue_copies)
  show "\<exists>r q. carthreeGetSendMsgFromQueue s = Inr (msg_of r, s\<lparr>carthreeSendQueue := q\<rparr>) \<and> removed 50 (carthreeSendQueue s) r q"
    using get [OF ok(3), of "\<lambda>(m, q). Inr (m, s\<lparr>carthreeSendQueue := q\<rparr>)"]
    by (simp add: carthreeGetSendMsgFromQueue_def outQueue_copies)
qed

lemma carsend_keeps: "fun_inv s \<Longrightarrow> \<exists>s'. carsend_message_to_sever s = Inr s' \<and> fun_inv s'"
proof -
  assume inv: "fun_inv s"
  obtain r q where q: "carGetSendMsgFromQueue s = Inr (msg_of r, s\<lparr>carSendQueue := q\<rparr>)" "removed 50 (carSendQueue s) r q"
    using carGet_ok(1) [OF inv] by blast
  note i = fun_inv_removed(4) [OF inv q(2)]
  have b: "length (tcp_send_buf (tcp_client_list s ! 1)) = 1500"
    using client_ok_nth [OF inv, of 1] by (simp add: client_ok_def)
  show ?thesis
    using inv i q(1)
    by (simp add: carsend_message_to_sever_def split_beta fun_inv_offer [OF i] built_car_frames [OF b [simplified]])
qed

lemma cartwosend_keeps: "fun_inv s \<Longrightarrow> \<exists>s'. cartwosend_message_to_sever s = Inr s' \<and> fun_inv s'"
proof -
  assume inv: "fun_inv s"
  obtain r q where q: "cartwoGetSendMsgFromQueue s = Inr (msg_of r, s\<lparr>cartwoSendQueue := q\<rparr>)" "removed 50 (cartwoSendQueue s) r q"
    using carGet_ok(2) [OF inv] by blast
  note i = fun_inv_removed(5) [OF inv q(2)]
  have b: "length (tcp_send_buf (tcp_client_list s ! 2)) = 1500"
    using client_ok_nth [OF inv, of 2] by (simp add: client_ok_def)
  show ?thesis
    using inv i q(1)
    by (simp add: cartwosend_message_to_sever_def car_build_copies split_beta fun_inv_offer [OF i] built_car_frames [OF b])
qed

lemma carthreesend_keeps: "fun_inv s \<Longrightarrow> \<exists>s'. carthreesend_message_to_sever s = Inr s' \<and> fun_inv s'"
proof -
  assume inv: "fun_inv s"
  obtain r q where q: "carthreeGetSendMsgFromQueue s = Inr (msg_of r, s\<lparr>carthreeSendQueue := q\<rparr>)" "removed 50 (carthreeSendQueue s) r q"
    using carGet_ok(3) [OF inv] by blast
  note i = fun_inv_removed(6) [OF inv q(2)]
  have b: "length (tcp_send_buf (tcp_client_list s ! 3)) = 1500"
    using client_ok_nth [OF inv, of 3] by (simp add: client_ok_def)
  show ?thesis
    using inv i q(1)
    by (simp add: carthreesend_message_to_sever_def car_build_copies Let_def split_beta fun_inv_offer [OF i]
        built_car_frames [OF b])
qed

section \<open>Properties\<close>

text \<open>The three car clients do not compare the checksum: a frame with the start bytes and its
  length is accepted whatever its checksum, an accepted boot command resets the processor, and
  every other frame leaves the state as it is.\<close>

theorem car_clients_ignore_checksum:
  assumes "10 \<le> length point" "unat len \<le> length point"
  shows "carrecv_message_from_sever point len s =
      (if point ! 0 = 0xAA \<and> point ! 1 = 0xAA \<and> u16_at point 6 = len \<and> msg_type_at point = RECV_MSG_BOOT_CMD_TYPE
       then Inl System_Reset else Inr (0, s))
    \<and> cartworecv_message_from_sever point len s = carrecv_message_from_sever point len s
    \<and> carthreerecv_message_from_sever point len s = carrecv_message_from_sever point len s"
  unfolding carrecv_message_copies by (simp add: carrecv_message_eq [OF assms])

theorem car_clients_ignore_checksum_witness:
  "carrecv_message_from_sever [0xAA, 0xAA, 1, 0, 0, 0, 11, 0, 0x77, 0x01, 0x1F] 11 fun_boot = Inl System_Reset"
  using car_clients_ignore_checksum [of "[0xAA, 0xAA, 1, 0, 0, 0, 11, 0, 0x77, 0x01, 0x1F]" 11 fun_boot]
  by (simp add: u16_at_def msg_type_at_def mk16_def)

text \<open>Client 1 forwards the last interval: when it is idle and the forwarding message is due, it
  requests the transmission of a well-formed frame with the current car and the interval that
  \<open>fun.c\<close> sent last.\<close>

theorem client_one_forwards_interval:
  assumes "fun_inv s" "tcp_send_en (tcp_client_list s ! 1) = 0"
    and "ring_items (carSendQueue s) = CAR_MSG_GNDCTRL2WCS_CMD_INTERVAL_TYPE # rest"
  shows "\<exists>s' buf. carsend_message_to_sever s = Inr s' \<and> fun_inv s' \<and> offers 1 buf 15 s' \<and> recv_msg_check buf 15 = Inr 1
    \<and> u16_at buf 11 = CurCarNum (carfunint s) \<and> u16_at buf 13 = interval (carfunint s)
    \<and> ring_items (carSendQueue s') = rest"
proof -
  obtain r q where q: "carGetSendMsgFromQueue s = Inr (msg_of r, s\<lparr>carSendQueue := q\<rparr>)" "removed 50 (carSendQueue s) r q"
    using carGet_ok(1) [OF assms(1)] by blast
  let ?s = "s\<lparr>carSendQueue := q\<rparr>" and ?b = "tcp_send_buf (tcp_client_list s ! 1)"
  have r: "msg_of r = 0xA1A1" "ring_items q = rest" using q(2) assms(3) by (simp_all add: removed_def msg_of_def)
  note i = fun_inv_removed(4) [OF assms(1) q(2)]
  have b: "length ?b = 1500" using client_ok_nth [OF assms(1), of 1] by (simp add: client_ok_def)
  let ?f = "fst (carsend_msg_interval_data ?b 0xA1A1 ?s)"
  have "carsend_message_to_sever s = Inr (offer 1 ?f 15 ?s)"
    using assms(2) q(1) r(1)
    by (simp add: carsend_message_to_sever_def split_beta car_interval_fields(3) [OF b [simplified]])
  then show ?thesis
    using offers_offer [OF i, of 1 ?f 15] r(2)
    by (intro exI [of _ "offer 1 ?f 15 ?s"] exI [of _ ?f])
      (simp add: fun_inv_offer [OF i] built_car_frames [OF b [simplified]] car_interval_fields [OF b [simplified]])
qed

theorem client_one_forwards_interval_witness:
  "\<exists>s' buf. carsend_message_to_sever (fun_boot\<lparr>carSendQueue := \<lparr>queue = (replicate 50 0)[1 := 0xA1A1], front = 0,
       rear = 1, maxSize = 50\<rparr>, carfunint := \<lparr>PreCarNum = 3, CurCarNum = 4, interval = 900\<rparr>\<rparr>) = Inr s'
     \<and> offers 1 buf 15 s' \<and> u16_at buf 11 = 4 \<and> u16_at buf 13 = 900"
proof -
  let ?s = "fun_boot\<lparr>carSendQueue := \<lparr>queue = (replicate 50 0)[1 := 0xA1A1], front = 0,
       rear = 1, maxSize = 50\<rparr>, carfunint := \<lparr>PreCarNum = 3, CurCarNum = 4, interval = 900\<rparr>\<rparr>"
  have "fun_inv ?s" using fun_boot_inv by (simp add: fun_inv_def usart_inv_def ring_ok_def)
  moreover have "tcp_send_en (tcp_client_list ?s ! 1) = 0" by (simp add: fun_boot_parts client_bss_def)
  moreover have "ring_items (carSendQueue ?s) = [0xA1A1]" by (simp add: ring_items_def ring_count_def)
  ultimately show ?thesis using client_one_forwards_interval [of ?s] by auto
qed

end
