(* ===== verification/UdpClient.thy ===== *)
theory UdpClient
  imports CarClients
begin

text \<open>
  The UDP half of \<open>TCPclient.c\<close> (\<open>USE_UDP\<close> is defined): the life cycle of the four clients, the
  receive callback and the transmission of the offered frames. What the functions of lwIP
  return is the argument \<open>lwip\<close> (the stack itself is modelled from \<open>Pbuf\<close> to \<open>NetStack\<close>), and what it is told to do (by \<open>TCPclient.c\<close> and \<open>netconf.c\<close>) is the list \<open>net_log\<close>. A
  received \<open>pbuf\<close> is its total length and the bytes behind its \<open>payload\<close> pointer.
\<close>

section \<open>State\<close>

datatype net_event =
    Udp_Bind nat u16
  | Udp_Connect nat "u8 list" u16
  | Udp_Recv nat
  | Udp_Send nat "u8 list"
  | Mem_Init
  | Memp_Init
  | Set_MAC_Address "u8 list"
  | Netif_Add "u8 list" "u8 list" "u8 list"    \<comment> \<open>address, mask and gateway\<close>
  | Netif_Set_Default
  | Netif_Set_Up
  | Tcp_Tmr
  | Etharp_Tmr

record udp_st = fun_st +
  net_log :: "net_event list"

text \<open>The results of \<open>udp_new\<close>, \<open>udp_connect\<close> and \<open>pbuf_alloc\<close> for each client.\<close>

record lwip =
  udp_new_result :: "nat \<Rightarrow> nat option"
  udp_connect_result :: "nat \<Rightarrow> int"
  pbuf_alloc_ok :: "nat \<Rightarrow> bool"

definition log_net :: "net_event \<Rightarrow> 'a udp_st_scheme \<Rightarrow> 'a udp_st_scheme" where
  "log_net ev s = s\<lparr>net_log := net_log s @ [ev]\<rparr>"

section \<open>Connecting\<close>

definition creat_udp_connect_process :: "lwip \<Rightarrow> nat \<Rightarrow> 'a udp_st_scheme \<Rightarrow> 'a udp_st_scheme" where
  "creat_udp_connect_process lw k s =
     client_upd k (\<lambda>c.
       let c = c\<lparr>echoclient_pcb := udp_new_result lw k, tcp_client_statue := CLIENT_DIS_CONNECT\<rparr>
       in if echoclient_pcb c \<noteq> None
          then c\<lparr>connect_is_ok := 1, connect_dely := 0, tcp_send_en := 0, tcp_send_len := 0\<rparr>
          else c) s"

definition get_ip_para_process :: "nat \<Rightarrow> 'a udp_st_scheme \<Rightarrow> 'a udp_st_scheme" where
  "get_ip_para_process k s =
     client_upd k (\<lambda>c.
       if k = 0 then c\<lparr>dest_port := 9902, dest_ip := (dest_ip c)[0 := 192, 1 := 168, 2 := 10, 3 := 13]\<rparr>
       else if k = 1 then c\<lparr>dest_port := 9000, dest_ip := (dest_ip c)[0 := 192, 1 := 168, 2 := 10, 3 := 110]\<rparr>
       else if k = 2 then c\<lparr>dest_port := 9000, dest_ip := (dest_ip c)[0 := 192, 1 := 168, 2 := 10, 3 := 111]\<rparr>
       else if k = 3 then c\<lparr>dest_port := 9912, dest_ip := (dest_ip c)[0 := 192, 1 := 168, 2 := 10, 3 := 13]\<rparr>
       else c) s"

definition udp_echoclient_connect :: "lwip \<Rightarrow> nat \<Rightarrow> 'a udp_st_scheme \<Rightarrow> 'a udp_st_scheme" where
  "udp_echoclient_connect lw k s =
     (let s = get_ip_para_process k s;
          s = log_net (Udp_Bind k 9902) s;
          s = log_net (Udp_Connect k (dest_ip (tcp_client_list s ! k)) (dest_port (tcp_client_list s ! k))) s
      in if udp_connect_result lw k = 0
         then client_upd k (\<lambda>c. c\<lparr>tcp_client_statue := CLIENT_CONNECT_OK, connect_dely := 0\<rparr>) (log_net (Udp_Recv k) s)
         else s)"

section \<open>The receive callback\<close>

text \<open>\<open>for(m = 0; m < p->tot_len; m++)\<close> with \<open>u8 m\<close>. When the condition still holds at 255 the
  counter wraps to 0 and the same copies repeat for ever.\<close>

function copy_payload :: "u8 list \<Rightarrow> nat \<Rightarrow> nat \<Rightarrow> nat \<Rightarrow> u8 list \<Rightarrow> (nat \<times> u8 list) result" where
  "copy_payload payload tot off m buf =
     (if 256 \<le> m then Inl Hang
      else if m < tot then
        and_then (rd payload m) (\<lambda>b. and_then (wr buf (off + m) b) (\<lambda>buf. copy_payload payload tot off (Suc m) buf))
      else Inr (m, buf))"
  by pat_completeness auto
termination
  by (relation "measure (\<lambda>(payload, tot, off, m, buf). 256 - m)") auto

declare copy_payload.simps [simp del]

text \<open>The loop over the four bytes of the address; the result is \<open>j\<close>.\<close>

definition match_ip :: "u32 \<Rightarrow> u8 list \<Rightarrow> nat" where
  "match_ip addr ip =
     (if ip ! 0 \<noteq> byte_of32 addr 0 then 0 else if ip ! 1 \<noteq> byte_of32 addr 1 then 1
      else if ip ! 2 \<noteq> byte_of32 addr 2 then 2 else if ip ! 3 \<noteq> byte_of32 addr 3 then 3 else 4)"

text \<open>One round of the loop over the clients. \<open>m\<close> is \<open>None\<close> until the copy loop has set it: adding it
  to the length before is undefined.\<close>

definition receive_client ::
  "u16 \<Rightarrow> u32 \<Rightarrow> u8 list \<Rightarrow> u16 \<Rightarrow> nat \<Rightarrow> nat option \<times> 'a udp_st_scheme \<Rightarrow> (nat option \<times> 'a udp_st_scheme) result"
where
  "receive_client port addr payload tot_len i = (\<lambda>(m, s).
     let c = tcp_client_list s ! i in
     if port = dest_port c then
       (let j = match_ip addr (dest_ip c) in
        if tcp_client_statue c = CLIENT_CONNECT_OK \<and> j = 4 then
          and_then
            (if tot_len \<le> 1500 then
               and_then (copy_payload payload (unat tot_len) (unat (tcp_recev_len c)) 0 (tcp_recev_buf c))
                 (\<lambda>(m, buf). Inr (Some m, client_upd i (\<lambda>c. c\<lparr>tcp_recev_buf := buf\<rparr>) s))
             else Inr (m, s))
            (\<lambda>(m, s). case m of
               None \<Rightarrow> Inl Undefined
             | Some k \<Rightarrow> Inr (m, client_upd i (\<lambda>c. c\<lparr>tcp_recev_len := tcp_recev_len c + of_nat k,
                                                   tcp_client_statue := CLIENT_CONNECT_RECV\<rparr>) s))
        else Inr (m, s))
     else Inr (m, s))"

definition udp_receive_callback ::
  "u16 \<Rightarrow> u32 \<Rightarrow> u8 list \<Rightarrow> u16 \<Rightarrow> 'a udp_st_scheme \<Rightarrow> 'a udp_st_scheme result" where
  "udp_receive_callback port addr payload tot_len s =
     and_then (receive_client port addr payload tot_len 0 (None, s)) (\<lambda>r.
     and_then (receive_client port addr payload tot_len 1 r) (\<lambda>r.
     and_then (receive_client port addr payload tot_len 2 r) (\<lambda>r.
     and_then (receive_client port addr payload tot_len 3 r) (\<lambda>(m, s). Inr s))))"

section \<open>Sending and the cyclic process\<close>

text \<open>\<open>pbuf_take\<close> copies the first \<open>tcp_send_len\<close> bytes of the send buffer.\<close>

definition udp_send_process :: "lwip \<Rightarrow> nat \<Rightarrow> 'a udp_st_scheme \<Rightarrow> 'a udp_st_scheme result" where
  "udp_send_process lw k s =
     (let len = unat (tcp_send_len (tcp_client_list s ! k)); buf = tcp_send_buf (tcp_client_list s ! k) in
      if pbuf_alloc_ok lw k then
        (if len \<le> length buf then Inr (log_net (Udp_Send k (take len buf)) s) else Inl Undefined)
      else Inr s)"

text \<open>The section of \<open>udp_client_process\<close> for one client; \<open>recv\<close> is the receive function of the
  client, \<open>sent\<close> what the section does besides after a transmission.\<close>

definition udp_client_section ::
  "(u8 list \<Rightarrow> u16 \<Rightarrow> 'a udp_st_scheme \<Rightarrow> (u16 \<times> 'a udp_st_scheme) result) \<Rightarrow> ('a udp_st_scheme \<Rightarrow> 'a udp_st_scheme)
   \<Rightarrow> lwip \<Rightarrow> nat \<Rightarrow> 'a udp_st_scheme \<Rightarrow> 'a udp_st_scheme result" where
  "udp_client_section recv sent lw k s =
     and_then
       (if tcp_client_statue (tcp_client_list s ! k) = CLIENT_CONNECT_RECV then
          and_then (recv (tcp_recev_buf (tcp_client_list s ! k)) (tcp_recev_len (tcp_client_list s ! k)) s)
            (\<lambda>(len, s). Inr (client_upd k (\<lambda>c. c\<lparr>tcp_recev_len := len, tcp_client_statue := CLIENT_CONNECT_OK\<rparr>) s))
        else Inr s)
       (\<lambda>s.
        let c = tcp_client_list s ! k in
        if connect_is_ok c = 0 then Inr (creat_udp_connect_process lw k s)
        else if tcp_client_statue c = CLIENT_DIS_CONNECT then Inr (udp_echoclient_connect lw k s)
        else if tcp_client_statue c = CLIENT_CONNECT_OK \<and> tcp_send_en c = 1 then
          and_then (udp_send_process lw k s) (\<lambda>s. Inr (sent (client_upd k (\<lambda>c. c\<lparr>tcp_send_en := 0\<rparr>) s)))
        else Inr s)"

definition udp_client_process :: "lwip \<Rightarrow> 'a udp_st_scheme \<Rightarrow> 'a udp_st_scheme result" where
  "udp_client_process lw s =
     and_then (udp_client_section recv_message_from_sever (\<lambda>s. s\<lparr>heart_dely := HEART_DELAY\<rparr>) lw 0 s) (\<lambda>s.
     and_then (udp_client_section carrecv_message_from_sever (\<lambda>s. s) lw 1 s) (\<lambda>s.
     and_then (udp_client_section cartworecv_message_from_sever (\<lambda>s. s) lw 2 s) (\<lambda>s.
     udp_client_section carthreerecv_message_from_sever (\<lambda>s. s) lw 3 s)))"

section \<open>The effects of the operations\<close>

lemma client_upd_nth [simp]:
  "k < length (tcp_client_list s) \<Longrightarrow>
   tcp_client_list (client_upd k f s) ! j = (if j = k then f (tcp_client_list s ! k) else tcp_client_list s ! j)"
  by (simp add: client_upd_def nth_list_update)

lemma client_upd_frames [simp]:
  "length (tcp_client_list (client_upd k f s)) = length (tcp_client_list s)"
  "fun_st.more (client_upd k f s) = fun_st.more s" "net_log (client_upd k f s') = net_log s'"
  by (simp_all add: client_upd_def)

lemma clients_length: "fun_inv s \<Longrightarrow> length (tcp_client_list s) = 4"
  by (simp add: fun_inv_def)

lemma log_net_simps [simp]:
  "tcp_client_list (log_net e s) = tcp_client_list s" "net_log (log_net e s) = net_log s @ [e]"
  "fun_inv (log_net e s) = fun_inv s"
  by (simp_all add: log_net_def fun_inv_def usart_inv_def)

lemma net_log_cong: "fun_st.more s' = fun_st.more s \<Longrightarrow> net_log s' = net_log s"
  by (cases s; cases s'; simp)

lemma AddSendMsgToQueue_frame:
  "AddSendMsgToQueue m s = Inr s' \<Longrightarrow> tcp_client_list s' = tcp_client_list s \<and> fun_st.more s' = fun_st.more s"
  by (auto simp: AddSendMsgToQueue_def and_then_Inr_iff)

lemma recv_msg_process_clients:
  assumes "recv_msg_process point s = Inr s'"
  shows "tcp_client_list s' = tcp_client_list s \<and> fun_st.more s' = fun_st.more s"
proof -
  let ?ty = "msg_type_at point"
  consider "?ty = 0x1220" | "?ty = 0x1221" | "?ty \<notin> {0x1F01, 0x1220, 0x1221}" | "?ty = 0x1F01"
    by blast
  then show ?thesis
  proof cases
    case 1
    then obtain a b hz c where r:
      "AddSendMsgToQueue 0x9220 (s\<lparr>repair_flag := 0, wcs2GndParaData := decode_para point\<rparr>) = Inr a"
      "AddSendMsgToQueue 0x1222 a = Inr b" "fwInitServo b = Inr (hz, c)" "s' = c\<lparr>fwInitHz := word_of_int hz, servo_start := 0\<rparr>"
      using assms by (auto simp: recv_msg_process_def Let_def and_then_Inr_iff)
    have "timexti_st.more c = timexti_st.more b"
      using fwInitServo_frame [OF r(3)] more_speed_timexti by blast
    from fun_fields(3,7) [OF this] show ?thesis
      using AddSendMsgToQueue_frame [OF r(1)] AddSendMsgToQueue_frame [OF r(2)] r(4) by simp
  next
    case 2
    then obtain a where r: "repair_car_para_init (s\<lparr>repairCarCmdData := decode_repair point\<rparr>) = Inr a"
      "AddSendMsgToQueue 0x9221 a = Inr s'"
      using assms by (auto simp: recv_msg_process_def Let_def and_then_Inr_iff)
    have "timexti_st.more a = timexti_st.more (s\<lparr>repairCarCmdData := decode_repair point\<rparr>)"
      using repair_car_para_init_frame [OF r(1)] by blast
    from fun_fields(3,7) [OF this] show ?thesis
      using AddSendMsgToQueue_frame [OF r(2)] by simp
  qed (use assms in \<open>auto simp: recv_msg_process_def Let_def split: if_splits\<close>)
qed

text \<open>Connecting keeps the invariant.\<close>

lemma connect_keeps:
  fixes s :: "'a udp_st_scheme"
  assumes inv: "fun_inv s" and k: "k < 4" and st: "tcp_client_statue (tcp_client_list s ! k) \<noteq> CLIENT_CONNECT_RECV"
  shows "fun_inv (creat_udp_connect_process lw k s)" "fun_inv (get_ip_para_process k s)"
    "fun_inv (udp_echoclient_connect lw k s)"
proof -
  have z: "client_ok (tcp_client_list s ! k)" "tcp_recev_len (tcp_client_list s ! k) = 0"
    using client_ok_nth [OF inv k] st by (simp_all add: client_ok_def)
  have upd: "fun_inv (client_upd k f t)" if "fun_inv t" "client_ok (f (tcp_client_list t ! k))" for f and t :: "'a udp_st_scheme"
    using that by (auto simp: fun_inv_def client_upd_def usart_inv_def dest: set_update_subset_insert [THEN subsetD])
  show "fun_inv (creat_udp_connect_process lw k s)"
    unfolding creat_udp_connect_process_def by (rule upd [OF inv]) (use z in \<open>auto simp: client_ok_def Let_def\<close>)
  show g: "fun_inv (get_ip_para_process k s)"
    unfolding get_ip_para_process_def by (rule upd [OF inv]) (use z in \<open>auto simp: client_ok_def\<close>)
  have "client_ok (tcp_client_list (get_ip_para_process k s) ! k)"
    "tcp_recev_len (tcp_client_list (get_ip_para_process k s) ! k) = 0"
    using client_ok_nth [OF g k] z inv k by (auto simp: get_ip_para_process_def clients_length)
  then show "fun_inv (udp_echoclient_connect lw k s)"
    unfolding udp_echoclient_connect_def Let_def using g by (auto intro!: upd simp: client_ok_def)
qed

section \<open>The life of a client\<close>

definition fresh :: "client \<Rightarrow> bool" where
  "fresh c \<longleftrightarrow> tcp_client_statue c \<noteq> CLIENT_CONNECT_RECV \<and> connect_is_ok c = 0"

definition created_ok :: "client \<Rightarrow> bool" where
  "created_ok c \<longleftrightarrow> tcp_client_statue c = CLIENT_DIS_CONNECT \<and> connect_is_ok c \<noteq> 0"

definition connected :: "client \<Rightarrow> bool" where
  "connected c \<longleftrightarrow> tcp_client_statue c = CLIENT_CONNECT_OK \<and> connect_is_ok c \<noteq> 0"

text \<open>The addresses of the servers.\<close>

definition server :: "nat \<Rightarrow> u8 list \<times> u16" where
  "server k = [([192, 168, 10, 13], 9902), ([192, 168, 10, 110], 9000), ([192, 168, 10, 111], 9000),
     ([192, 168, 10, 13], 9912)] ! k"

definition created :: "lwip \<Rightarrow> nat \<Rightarrow> client \<Rightarrow> client" where
  "created lw k c =
     (if udp_new_result lw k = None then c\<lparr>echoclient_pcb := None, tcp_client_statue := CLIENT_DIS_CONNECT\<rparr>
      else c\<lparr>echoclient_pcb := udp_new_result lw k, tcp_client_statue := CLIENT_DIS_CONNECT, connect_is_ok := 1,
             connect_dely := 0, tcp_send_en := 0, tcp_send_len := 0\<rparr>)"

definition linked :: "nat \<Rightarrow> client \<Rightarrow> client" where
  "linked k c = c\<lparr>dest_port := snd (server k), dest_ip := fst (server k), tcp_client_statue := CLIENT_CONNECT_OK,
     connect_dely := 0\<rparr>"

definition connect_log :: "nat \<Rightarrow> client \<Rightarrow> net_event list" where
  "connect_log k c = [Udp_Bind k 9902, Udp_Connect k (fst (server k)) (snd (server k)), Udp_Recv k]"

definition quiet :: "client \<Rightarrow> client" where
  "quiet c = (if tcp_send_en c = 1 then c\<lparr>tcp_send_en := 0\<rparr> else c)"

definition send_log :: "lwip \<Rightarrow> nat \<Rightarrow> client \<Rightarrow> net_event list" where
  "send_log lw k c =
     (if tcp_send_en c = 1 \<and> pbuf_alloc_ok lw k then [Udp_Send k (take (unat (tcp_send_len c)) (tcp_send_buf c))] else [])"

text \<open>The queues of the reports, and what later layers add to the state.\<close>

definition reports :: "'a udp_st_scheme \<Rightarrow> u16 ring \<times> state_node ring \<times> interval_data ring \<times> 'a" where
  "reports s = (msgSendQueue s, gndstatequeue s, gnd2WcsIntervalQueue s, udp_st.more s)"

lemma reports_simps [simp]:
  "reports (client_upd k f s) = reports s" "reports (log_net e s) = reports s" "reports (s\<lparr>net_log := l\<rparr>) = reports s"
  "reports (s\<lparr>tcp_client_list := c\<rparr>) = reports s" "reports (s\<lparr>heart_dely := h\<rparr>) = reports s"
  by (simp_all add: reports_def client_upd_def log_net_def)

text \<open>\<open>s'\<close> is \<open>s\<close> with client \<open>k\<close> changed by \<open>f\<close> and the events \<open>l\<close> on the network.\<close>

definition touches :: "nat \<Rightarrow> (client \<Rightarrow> client) \<Rightarrow> (client \<Rightarrow> net_event list) \<Rightarrow> 'a udp_st_scheme \<Rightarrow> 'a udp_st_scheme \<Rightarrow> bool" where
  "touches k f l s s' \<longleftrightarrow> fun_inv s' \<and> tcp_client_list s' = (tcp_client_list s)[k := f (tcp_client_list s ! k)]
     \<and> net_log s' = net_log s @ l (tcp_client_list s ! k) \<and> reports s' = reports s"

lemma address_table:
  assumes "length ip = 4" "k < 4"
  shows "(if k = 0 then c\<lparr>dest_port := 9902, dest_ip := ip[0 := 192, 1 := 168, 2 := 10, 3 := 13]\<rparr>
       else if k = 1 then c\<lparr>dest_port := 9000, dest_ip := ip[0 := 192, 1 := 168, 2 := 10, 3 := 110]\<rparr>
       else if k = 2 then c\<lparr>dest_port := 9000, dest_ip := ip[0 := 192, 1 := 168, 2 := 10, 3 := 111]\<rparr>
       else if k = 3 then c\<lparr>dest_port := 9912, dest_ip := ip[0 := 192, 1 := 168, 2 := 10, 3 := 13]\<rparr>
       else c) = c\<lparr>dest_port := snd (server k), dest_ip := fst (server k)\<rparr>"
proof -
  have ip: "ip[0 := a, 1 := b, 2 := d, 3 := e] = [a, b, d, e]" for a b d e
    using assms(1) by (auto simp: numeral_eq_Suc length_Suc_conv)
  have "k = 0 \<or> k = 1 \<or> k = 2 \<or> k = 3" using assms(2) by linarith
  then show ?thesis unfolding ip by (elim disjE) (simp_all add: server_def)
qed

lemma get_ip_eq:
  assumes "fun_inv s" "k < 4"
  shows "get_ip_para_process k s = client_upd k (\<lambda>c. c\<lparr>dest_port := snd (server k), dest_ip := fst (server k)\<rparr>) s"
proof -
  have l: "length (dest_ip (tcp_client_list s ! k)) = 4" using client_ok_nth [OF assms] by (simp add: client_ok_def)
  show ?thesis
    unfolding get_ip_para_process_def client_upd_def address_table [OF l assms(2), of "tcp_client_list s ! k"] ..
qed

section \<open>The cyclic process, for any receive function\<close>

text \<open>What the process needs of the receive function of a client: it clears the length, keeps the
  invariant, and leaves the clients and the network alone; its faults are a reset or undefined
  arithmetic, never a loop. \<open>sent\<close> is the bookkeeping after a transmission.\<close>

locale client_protocol =
  fixes recv :: "u8 list \<Rightarrow> u16 \<Rightarrow> 'a udp_st_scheme \<Rightarrow> (u16 \<times> 'a udp_st_scheme) result"
    and sent :: "'a udp_st_scheme \<Rightarrow> 'a udp_st_scheme"
  assumes recv_returns: "fun_inv s \<Longrightarrow> length point = 1500 \<Longrightarrow> unat len \<le> 1500 \<Longrightarrow> recv point len s = Inr (n, s')
      \<Longrightarrow> n = 0 \<and> fun_inv s' \<and> tcp_client_list s' = tcp_client_list s \<and> net_log s' = net_log s"
    and recv_faults: "fun_inv s \<Longrightarrow> length point = 1500 \<Longrightarrow> unat len \<le> 1500 \<Longrightarrow> recv point len s = Inl f \<Longrightarrow> f \<noteq> Hang"
    and sent_inv: "fun_inv (sent s) = fun_inv s"
    and sent_frame: "tcp_client_list (sent s) = tcp_client_list s" "net_log (sent s) = net_log s"
      "reports (sent s) = reports s"
begin

lemma section_idle:
  "connected (tcp_client_list s ! k) \<Longrightarrow> tcp_send_en (tcp_client_list s ! k) \<noteq> 1 \<Longrightarrow> udp_client_section recv sent lw k s = Inr s"
  by (simp add: udp_client_section_def connected_def)

text \<open>The part of the section that hands a received datagram over.\<close>

lemma section_receives:
  assumes inv: "fun_inv s" and k: "k < 4" and st: "tcp_client_statue (tcp_client_list s ! k) = CLIENT_CONNECT_RECV"
    and on: "connect_is_ok (tcp_client_list s ! k) \<noteq> 0" "tcp_send_en (tcp_client_list s ! k) = 0"
  shows "udp_client_section recv sent lw k s =
    and_then (recv (tcp_recev_buf (tcp_client_list s ! k)) (tcp_recev_len (tcp_client_list s ! k)) s)
      (\<lambda>(len, s). Inr (client_upd k (\<lambda>c. c\<lparr>tcp_recev_len := len, tcp_client_statue := CLIENT_CONNECT_OK\<rparr>) s))"
proof -
  let ?c = "tcp_client_list s ! k"
  have c: "length (tcp_recev_buf ?c) = 1500" "unat (tcp_recev_len ?c) \<le> 1500"
    using client_ok_nth [OF inv k] st by (simp_all add: client_ok_def)
  show ?thesis
  proof (cases "recv (tcp_recev_buf ?c) (tcp_recev_len ?c) s")
    case (Inl f)
    then show ?thesis using st by (simp add: udp_client_section_def)
  next
    case (Inr r)
    obtain n s' where r: "r = (n, s')" by (cases r)
    have "tcp_client_list s' = tcp_client_list s" "length (tcp_client_list s) = 4"
      using recv_returns [OF inv c Inr [unfolded r]] inv by (auto simp: clients_length)
    then show ?thesis using Inr st on k by (simp add: udp_client_section_def r)
  qed
qed

text \<open>The part that sends the offered frame.\<close>

lemma section_sends:
  assumes inv: "fun_inv s" and k: "k < 4" and st: "tcp_client_statue (tcp_client_list s ! k) = CLIENT_CONNECT_OK"
    and on: "connect_is_ok (tcp_client_list s ! k) \<noteq> 0" and o: "offers k buf len s"
  shows "udp_client_section recv sent lw k s =
    Inr (sent (client_upd k (\<lambda>c. c\<lparr>tcp_send_en := 0\<rparr>)
      (if pbuf_alloc_ok lw k then log_net (Udp_Send k (take (unat len) buf)) s else s)))"
proof -
  have "unat len \<le> length buf" using client_ok_nth [OF inv k] o by (simp add: client_ok_def offers_def)
  then show ?thesis using st on o by (simp add: udp_client_section_def udp_send_process_def offers_def Let_def)
qed

text \<open>Every section keeps the invariant, and changes no other client.\<close>

lemma section_keeps:
  assumes inv: "fun_inv s" and k: "k < 4"
  shows "case udp_client_section recv sent lw k s of
      Inr s' \<Rightarrow> fun_inv s' \<and> (\<forall>j. j \<noteq> k \<longrightarrow> tcp_client_list s' ! j = tcp_client_list s ! j)
    | Inl f \<Rightarrow> f \<noteq> Hang"
proof -
  let ?c = "tcp_client_list s ! k"
  define a where "a = (if tcp_client_statue ?c = CLIENT_CONNECT_RECV then
      and_then (recv (tcp_recev_buf ?c) (tcp_recev_len ?c) s)
        (\<lambda>(len, s). Inr (client_upd k (\<lambda>c. c\<lparr>tcp_recev_len := len, tcp_client_statue := CLIENT_CONNECT_OK\<rparr>) s))
    else Inr s)"
  have c: "length (tcp_recev_buf ?c) = 1500" "unat (tcp_recev_len ?c) \<le> 1500"
    using client_ok_nth [OF inv k] by (auto simp: client_ok_def split: if_splits)
  have fault: "f \<noteq> Hang" if "a = Inl f" for f
    using that recv_faults [OF inv c] by (auto simp: a_def and_then_Inl_iff split: if_splits)
  have part: "fun_inv t \<and> (\<forall>j. j \<noteq> k \<longrightarrow> tcp_client_list t ! j = tcp_client_list s ! j)
      \<and> tcp_client_statue (tcp_client_list t ! k) \<noteq> CLIENT_CONNECT_RECV" if "a = Inr t" for t
  proof (cases "tcp_client_statue ?c = CLIENT_CONNECT_RECV")
    case True
    then obtain n s' where r: "recv (tcp_recev_buf ?c) (tcp_recev_len ?c) s = Inr (n, s')"
      "t = client_upd k (\<lambda>c. c\<lparr>tcp_recev_len := n, tcp_client_statue := CLIENT_CONNECT_OK\<rparr>) s'"
      using \<open>a = Inr t\<close> by (auto simp: a_def and_then_Inr_iff)
    note s' = recv_returns [OF inv c r(1)]
    have "fun_inv t" unfolding r(2) by (rule client_ok_upd) (use s' in \<open>auto simp: client_ok_def split: if_splits\<close>)
    then show ?thesis using s' r(2) inv k by (simp add: clients_length)
  next
    case False
    then show ?thesis using \<open>a = Inr t\<close> inv by (simp add: a_def)
  qed
  show ?thesis
  proof (cases a)
    case (Inl f)
    then show ?thesis using fault by (simp add: udp_client_section_def flip: a_def)
  next
    case (Inr t)
    note t = part [OF Inr]
    then have t1: "fun_inv t" "tcp_client_statue (tcp_client_list t ! k) \<noteq> CLIENT_CONNECT_RECV" by blast+
    have len: "unat (tcp_send_len (tcp_client_list t ! k)) \<le> length (tcp_send_buf (tcp_client_list t ! k))"
      using client_ok_nth [OF t1(1) k] by (simp add: client_ok_def)
    have snd: "fun_inv (sent (client_upd k (\<lambda>c. c\<lparr>tcp_send_en := 0\<rparr>) u))" if "fun_inv u" for u :: "'a udp_st_scheme"
      unfolding sent_inv by (rule client_ok_upd [OF that]) (simp add: client_ok_def)
    show ?thesis
      using t connect_keeps(1) [OF t1(1) k t1(2), of lw] connect_keeps(3) [OF t1(1) k t1(2), of lw] snd len k Inr
      by (simp add: udp_client_section_def flip: a_def)
        (auto simp: udp_send_process_def Let_def sent_frame clients_length creat_udp_connect_process_def
           udp_echoclient_connect_def get_ip_para_process_def)
  qed
qed

lemma section_total:
  assumes inv: "fun_inv s" and k: "k < 4" and st: "tcp_client_statue (tcp_client_list s ! k) \<noteq> CLIENT_CONNECT_RECV"
  shows "\<exists>s'. udp_client_section recv sent lw k s = Inr s' \<and> fun_inv s'
    \<and> (\<forall>j. j \<noteq> k \<longrightarrow> tcp_client_list s' ! j = tcp_client_list s ! j)"
proof -
  have "unat (tcp_send_len (tcp_client_list s ! k)) \<le> length (tcp_send_buf (tcp_client_list s ! k))"
    using client_ok_nth [OF inv k] by (simp add: client_ok_def)
  then have "\<exists>s'. udp_client_section recv sent lw k s = Inr s'"
    using st by (simp add: udp_client_section_def udp_send_process_def Let_def)
  then show ?thesis using section_keeps [OF inv k, of lw] by auto
qed

text \<open>The three kinds of passes without a received datagram, as effects on the client and the network.\<close>

lemma section_effects:
  assumes inv: "fun_inv s" and k: "k < 4"
  shows "fresh (tcp_client_list s ! k) \<Longrightarrow> \<exists>s'. udp_client_section recv sent lw k s = Inr s' \<and> touches k (created lw k) (\<lambda>c. []) s s'"
    and "created_ok (tcp_client_list s ! k) \<Longrightarrow> udp_connect_result lw k = 0 \<Longrightarrow>
      \<exists>s'. udp_client_section recv sent lw k s = Inr s' \<and> touches k (linked k) (connect_log k) s s'"
    and "connected (tcp_client_list s ! k) \<Longrightarrow>
      \<exists>s'. udp_client_section recv sent lw k s = Inr s' \<and> touches k quiet (send_log lw k) s s'"
proof -
  let ?c = "tcp_client_list s ! k"
  have four: "length (tcp_client_list s) = 4" using inv by (rule clients_length)
  have ok: "client_ok ?c" using client_ok_nth [OF inv k] .
  have keep: "fun_inv s'" if "udp_client_section recv sent lw k s = Inr s'" for s'
    using section_keeps [OF inv k, of lw] that by simp
  { assume f: "fresh ?c"
    then have r: "udp_client_section recv sent lw k s = Inr (creat_udp_connect_process lw k s)"
      by (simp add: udp_client_section_def fresh_def)
    from keep [OF r] show "\<exists>s'. udp_client_section recv sent lw k s = Inr s' \<and> touches k (created lw k) (\<lambda>c. []) s s'"
      using r by (auto simp: touches_def created_def creat_udp_connect_process_def client_upd_def) }
  { assume f: "created_ok ?c" and c: "udp_connect_result lw k = 0"
    then have r: "udp_client_section recv sent lw k s = Inr (udp_echoclient_connect lw k s)"
      by (simp add: udp_client_section_def created_ok_def)
    from keep [OF r] show "\<exists>s'. udp_client_section recv sent lw k s = Inr s' \<and> touches k (linked k) (connect_log k) s s'"
      using r c k four
      by (simp add: touches_def linked_def connect_log_def udp_echoclient_connect_def get_ip_eq [OF inv k] Let_def)
        (simp add: client_upd_def log_net_def) }
  { assume f: "connected ?c"
    have n: "unat (tcp_send_len ?c) \<le> length (tcp_send_buf ?c)" using ok by (simp add: client_ok_def)
    show "\<exists>s'. udp_client_section recv sent lw k s = Inr s' \<and> touches k quiet (send_log lw k) s s'"
    proof (cases "tcp_send_en ?c = 1")
      case True
      then have r: "udp_client_section recv sent lw k s = Inr (sent (client_upd k (\<lambda>c. c\<lparr>tcp_send_en := 0\<rparr>)
          (if pbuf_alloc_ok lw k then log_net (Udp_Send k (take (unat (tcp_send_len ?c)) (tcp_send_buf ?c))) s else s)))"
        using f n by (simp add: udp_client_section_def udp_send_process_def connected_def Let_def)
      from keep [OF r] show ?thesis
        using r True by (simp add: touches_def quiet_def send_log_def sent_frame) (simp add: client_upd_def log_net_def)
    next
      case False
      then have r: "udp_client_section recv sent lw k s = Inr s"
        using f by (simp add: udp_client_section_def connected_def)
      then show ?thesis using inv False by (simp add: touches_def quiet_def send_log_def)
    qed }
qed

end

interpretation wcs_client: client_protocol recv_message_from_sever "\<lambda>s. s\<lparr>heart_dely := HEART_DELAY\<rparr>"
proof
  fix s s' :: "'a udp_st_scheme" and point :: "u8 list" and len n :: u16 and f
  assume a: "fun_inv s" "length point = 1500" "unat len \<le> 1500"
  { assume r: "recv_message_from_sever point len s = Inr (n, s')"
    have "n = 0" "s' = s \<or> recv_msg_process point s = Inr s'"
      using r by (auto simp: recv_message_from_sever_def and_then_Inr_iff split: if_splits)
    then show "n = 0 \<and> fun_inv s' \<and> tcp_client_list s' = tcp_client_list s \<and> net_log s' = net_log s"
      using a(1) recv_msg_process_frame [OF a(1)] recv_msg_process_clients net_log_cong by blast }
  { assume r: "recv_message_from_sever point len s = Inl f"
    have "recv_msg_process point s = Inl f"
      using r recv_msg_check_total [of point len] a by (auto simp: recv_message_from_sever_def and_then_Inl_iff split: if_splits)
    then show "f \<noteq> Hang" using recv_msg_process_fault [OF a(1)] by blast }
qed (simp_all)

interpretation car_client: client_protocol carrecv_message_from_sever "\<lambda>s. s"
  by unfold_locales (auto simp: carrecv_message_eq split: if_splits)

interpretation cartwo_client: client_protocol cartworecv_message_from_sever "\<lambda>s. s"
  unfolding carrecv_message_copies by (rule car_client.client_protocol_axioms)

interpretation carthree_client: client_protocol carthreerecv_message_from_sever "\<lambda>s. s"
  unfolding carrecv_message_copies by (rule car_client.client_protocol_axioms)


text \<open>The whole process: no section can hang, and the invariant holds after it.\<close>

lemma udp_client_process_keeps:
  assumes inv: "fun_inv s"
  shows "case udp_client_process lw s of Inr s' \<Rightarrow> fun_inv s' | Inl f \<Rightarrow> f \<noteq> Hang"
proof -
  note sec = wcs_client.section_keeps car_client.section_keeps cartwo_client.section_keeps carthree_client.section_keeps
  have chain: "case and_then r g of Inr s' \<Rightarrow> fun_inv s' | Inl f \<Rightarrow> f \<noteq> Hang"
    if "case r of Inr t \<Rightarrow> fun_inv t \<and> P t | Inl f \<Rightarrow> f \<noteq> Hang"
      and "\<And>t. fun_inv t \<Longrightarrow> case g t of Inr s' \<Rightarrow> fun_inv s' | Inl f \<Rightarrow> f \<noteq> Hang"
    for r and g :: "'a udp_st_scheme \<Rightarrow> 'a udp_st_scheme result" and P
    using that by (cases r) auto
  have "case udp_client_section carthreerecv_message_from_sever (\<lambda>s. s) lw 3 t of Inr s' \<Rightarrow> fun_inv s' | Inl f \<Rightarrow> f \<noteq> Hang"
    if "fun_inv t" for t :: "'a udp_st_scheme"
    using carthree_client.section_keeps [OF that, of 3 lw] by (auto split: sum.splits)
  then show ?thesis
    unfolding udp_client_process_def
    by (intro chain [OF wcs_client.section_keeps] chain [OF car_client.section_keeps]
        chain [OF cartwo_client.section_keeps] inv) simp_all
qed

section \<open>The receive callback\<close>

lemma copy_payload_copies:
  assumes "tot \<le> 255" "tot \<le> length payload" "off + tot \<le> length buf" "m \<le> tot"
  shows "copy_payload payload tot off m buf = Inr (tot, blit buf (off + m) (drop m (take tot payload)))"
  using assms
proof (induction payload tot off m buf rule: copy_payload.induct)
  case (1 payload tot off m buf)
  show ?case
  proof (cases "m < tot")
    case True
    have d: "drop m (take tot payload) = payload ! m # drop (Suc m) (take tot payload)"
      using True 1(3) by (simp add: Cons_nth_drop_Suc [symmetric])
    show ?thesis
      using 1 True by (subst copy_payload.simps) (simp add: d)
  next
    case False
    then show ?thesis using 1(2-) by (subst copy_payload.simps) simp
  qed
qed

lemma copy_payload_hangs:
  assumes "256 \<le> tot" "tot \<le> length payload" "off + 256 \<le> length buf"
  shows "copy_payload payload tot off m buf = Inl Hang"
  using assms
proof (induction payload tot off m buf rule: copy_payload.induct)
  case (1 payload tot off m buf)
  then show ?case by (subst copy_payload.simps) simp
qed

text \<open>The clients a datagram is for.\<close>

definition addressed :: "u16 \<Rightarrow> u32 \<Rightarrow> client \<Rightarrow> bool" where
  "addressed port addr c \<longleftrightarrow> port = dest_port c \<and> tcp_client_statue c = CLIENT_CONNECT_OK
     \<and> dest_ip c = map (byte_of32 addr) [0, 1, 2, 3]"

text \<open>The client after it has taken over a datagram.\<close>

definition delivered :: "u8 list \<Rightarrow> client \<Rightarrow> client" where
  "delivered payload c = c\<lparr>tcp_recev_buf := blit (tcp_recev_buf c) 0 payload,
     tcp_recev_len := of_nat (length payload), tcp_client_statue := CLIENT_CONNECT_RECV\<rparr>"

lemma match_ip_4: "length ip = 4 \<Longrightarrow> match_ip addr ip = 4 \<longleftrightarrow> ip = map (byte_of32 addr) [0, 1, 2, 3]"
  by (auto simp: match_ip_def numeral_eq_Suc length_Suc_conv)

lemma receive_other:
  assumes "fun_inv s" "i < 4" "\<not> addressed port addr (tcp_client_list s ! i)"
  shows "receive_client port addr payload tot i (m, s) = Inr (m, s)"
  using assms client_ok_nth [OF assms(1,2)]
  by (auto simp: receive_client_def Let_def addressed_def match_ip_4 client_ok_def)

lemma receive_addressed:
  assumes inv: "fun_inv s" and i: "i < 4" and a: "addressed port addr (tcp_client_list s ! i)"
    and n: "length payload = unat tot"
  shows "receive_client port addr payload tot i (m', s) =
     (if unat tot \<le> 255 then Inr (Some (unat tot), client_upd i (delivered payload) s)
      else if unat tot \<le> 1500 then Inl Hang
      else case m' of None \<Rightarrow> Inl Undefined | Some k \<Rightarrow>
        Inr (m', client_upd i (\<lambda>c. c\<lparr>tcp_recev_len := of_nat k, tcp_client_statue := CLIENT_CONNECT_RECV\<rparr>) s))"
proof -
  have ok: "length (tcp_recev_buf (tcp_client_list s ! i)) = 1500" "tcp_recev_len (tcp_client_list s ! i) = 0"
    and m: "match_ip addr (dest_ip (tcp_client_list s ! i)) = 4"
    using client_ok_nth [OF inv i] a by (auto simp: client_ok_def addressed_def match_ip_4)
  have l: "tot \<le> 1500 \<longleftrightarrow> unat tot \<le> 1500" by (simp add: word_le_nat_alt)
  have four: "length (tcp_client_list s) = 4" using inv by (rule clients_length)
  let ?c = "tcp_client_list s ! i"
  have a': "port = dest_port ?c" "tcp_client_statue ?c = 1" using a by (simp_all add: addressed_def)
  consider "unat tot \<le> 255" | "255 < unat tot" "unat tot \<le> 1500" | "1500 < unat tot" by linarith
  then show ?thesis
  proof cases
    case 1
    have c: "copy_payload payload (unat tot) 0 0 (tcp_recev_buf ?c) = Inr (unat tot, blit (tcp_recev_buf ?c) 0 payload)"
      using copy_payload_copies [of "unat tot" payload 0 "tcp_recev_buf ?c" 0] 1 n ok(1) by simp
    have "receive_client port addr payload tot i (m', s) = Inr (Some (unat tot),
        client_upd i (\<lambda>c. c\<lparr>tcp_recev_len := tcp_recev_len c + of_nat (unat tot), tcp_client_statue := 2\<rparr>)
          (client_upd i (\<lambda>d. d\<lparr>tcp_recev_buf := blit (tcp_recev_buf ?c) 0 payload\<rparr>) s))"
      using 1 by (simp add: receive_client_def Let_def a' m l ok(2) c)
    then show ?thesis using 1 n i four ok(2) by (simp add: delivered_def client_upd_def)
  next
    case 2
    have c: "copy_payload payload (unat tot) 0 0 (tcp_recev_buf ?c) = Inl Hang"
      using copy_payload_hangs [of "unat tot" payload 0 "tcp_recev_buf ?c" 0] 2 n ok(1) by simp
    show ?thesis using 2 by (simp add: receive_client_def Let_def a' m l ok(2) c)
  next
    case 3
    then show ?thesis
      using i four ok(2) by (cases m') (simp_all add: receive_client_def Let_def a' m l client_upd_def)
  qed
qed

lemma delivered_keeps: "fun_inv s \<Longrightarrow> length payload \<le> 255 \<Longrightarrow> fun_inv (client_upd i (delivered payload) s)"
  by (rule client_ok_upd) (auto simp: client_ok_def delivered_def unat_of_nat)

text \<open>A datagram for exactly one client.\<close>

lemma udp_receive_one:
  assumes inv: "fun_inv s" and k: "k < 4" and a: "addressed port addr (tcp_client_list s ! k)"
    and only: "\<forall>i<4. i \<noteq> k \<longrightarrow> \<not> addressed port addr (tcp_client_list s ! i)"
    and n: "length payload = unat tot"
  shows "udp_receive_callback port addr payload tot s =
     (if unat tot \<le> 255 then Inr (client_upd k (delivered payload) s)
      else if unat tot \<le> 1500 then Inl Hang else Inl Undefined)"
proof -
  have oth: "receive_client port addr payload tot i (m, s) = Inr (m, s)" if "i < 4" "i \<noteq> k" for i m
    using receive_other [OF inv that(1)] only that by blast
  have me: "receive_client port addr payload tot k (None, s) =
     (if unat tot \<le> 255 then Inr (Some (unat tot), client_upd k (delivered payload) s)
      else if unat tot \<le> 1500 then Inl Hang else Inl Undefined)"
    by (simp add: receive_addressed [OF inv k a n])
  have aft: "receive_client port addr payload tot i (m, client_upd k (delivered payload) s)
      = Inr (m, client_upd k (delivered payload) s)" if "i < 4" "i \<noteq> k" "unat tot \<le> 255" for i m
    using that only k inv n
    by (intro receive_other delivered_keeps) (auto simp: clients_length)
  consider "k = 0" | "k = 1" | "k = 2" | "k = 3" using k by linarith
  then show ?thesis
  proof cases
    case 1 with oth [of 1] oth [of 2] oth [of 3] me aft [of 1] aft [of 2] aft [of 3] show ?thesis
      by (simp add: udp_receive_callback_def)
  next
    case 2 with oth [of 0] oth [of 2] oth [of 3] me aft [of 0] aft [of 2] aft [of 3] show ?thesis
      by (simp add: udp_receive_callback_def)
  next
    case 3 with oth [of 0] oth [of 1] oth [of 3] me aft [of 0] aft [of 1] aft [of 3] show ?thesis
      by (simp add: udp_receive_callback_def)
  next
    case 4 with oth [of 0] oth [of 1] oth [of 2] me aft [of 0] aft [of 1] aft [of 2] show ?thesis
      by (simp add: udp_receive_callback_def)
  qed
qed

lemma udp_receive_none:
  assumes "fun_inv s" "\<forall>i<4. \<not> addressed port addr (tcp_client_list s ! i)"
  shows "udp_receive_callback port addr payload tot s = Inr s"
  using assms by (simp add: udp_receive_callback_def receive_other)


section \<open>A pass of the whole process\<close>

lemma process_touches:
  fixes s :: "'a udp_st_scheme"
  assumes inv: "fun_inv s" and P: "\<forall>k<4. P (tcp_client_list s ! k)"
    and sec: "\<And>t :: 'a udp_st_scheme. fun_inv t \<Longrightarrow> P (tcp_client_list t ! 0) \<Longrightarrow>
        \<exists>t'. udp_client_section recv_message_from_sever (\<lambda>s. s\<lparr>heart_dely := HEART_DELAY\<rparr>) lw 0 t = Inr t' \<and> touches 0 (f 0) (l 0) t t'"
      "\<And>t :: 'a udp_st_scheme. fun_inv t \<Longrightarrow> P (tcp_client_list t ! 1) \<Longrightarrow>
        \<exists>t'. udp_client_section carrecv_message_from_sever (\<lambda>s. s) lw 1 t = Inr t' \<and> touches 1 (f 1) (l 1) t t'"
      "\<And>t :: 'a udp_st_scheme. fun_inv t \<Longrightarrow> P (tcp_client_list t ! 2) \<Longrightarrow>
        \<exists>t'. udp_client_section cartworecv_message_from_sever (\<lambda>s. s) lw 2 t = Inr t' \<and> touches 2 (f 2) (l 2) t t'"
      "\<And>t :: 'a udp_st_scheme. fun_inv t \<Longrightarrow> P (tcp_client_list t ! 3) \<Longrightarrow>
        \<exists>t'. udp_client_section carthreerecv_message_from_sever (\<lambda>s. s) lw 3 t = Inr t' \<and> touches 3 (f 3) (l 3) t t'"
  shows "\<exists>s'. udp_client_process lw s = Inr s' \<and> fun_inv s'
    \<and> (\<forall>k<4. tcp_client_list s' ! k = f k (tcp_client_list s ! k))
    \<and> net_log s' = net_log s @ concat (map (\<lambda>k. l k (tcp_client_list s ! k)) [0, 1, 2, 3])
    \<and> reports s' = reports s"
proof -
  have four: "length (tcp_client_list t) = 4" if "fun_inv t" for t :: "'a udp_st_scheme" using that by (rule clients_length)
  obtain a where a: "udp_client_section recv_message_from_sever (\<lambda>s. s\<lparr>heart_dely := HEART_DELAY\<rparr>) lw 0 s = Inr a"
    "touches 0 (f 0) (l 0) s a" using sec(1) [OF inv] P by auto
  then obtain b where b: "udp_client_section carrecv_message_from_sever (\<lambda>s. s) lw 1 a = Inr b" "touches 1 (f 1) (l 1) a b"
    using sec(2) [of a] P by (auto simp: touches_def)
  then obtain c where c: "udp_client_section cartworecv_message_from_sever (\<lambda>s. s) lw 2 b = Inr c" "touches 2 (f 2) (l 2) b c"
    using sec(3) [of b] a P by (auto simp: touches_def)
  then obtain d where d: "udp_client_section carthreerecv_message_from_sever (\<lambda>s. s) lw 3 c = Inr d" "touches 3 (f 3) (l 3) c d"
    using sec(4) [of c] a b P by (auto simp: touches_def)
  have "udp_client_process lw s = Inr d" unfolding udp_client_process_def by (simp add: a(1) b(1) [unfolded One_nat_def] c(1) d(1))
  moreover have "tcp_client_list d ! k = f k (tcp_client_list s ! k)" if "k < 4" for k
  proof -
    have "k = 0 \<or> k = 1 \<or> k = 2 \<or> k = 3" using that by linarith
    then show ?thesis using a(2) b(2) c(2) d(2) four [OF inv] by (elim disjE) (simp_all add: touches_def)
  qed
  ultimately show ?thesis
    using a(2) b(2) c(2) d(2) by (intro exI [of _ d]) (simp add: touches_def)
qed

lemma pass_creates:
  assumes "fun_inv s" "\<forall>k<4. fresh (tcp_client_list s ! k)"
  shows "\<exists>s'. udp_client_process lw s = Inr s' \<and> fun_inv s'
    \<and> (\<forall>k<4. tcp_client_list s' ! k = created lw k (tcp_client_list s ! k)) \<and> net_log s' = net_log s
    \<and> reports s' = reports s"
proof -
  have "\<exists>s'. udp_client_process lw s = Inr s' \<and> fun_inv s'
    \<and> (\<forall>k<4. tcp_client_list s' ! k = created lw k (tcp_client_list s ! k))
    \<and> net_log s' = net_log s @ concat (map (\<lambda>k. (\<lambda>k c. []) k (tcp_client_list s ! k)) [0, 1, 2, 3])
    \<and> reports s' = reports s"
    by (intro process_touches [OF assms] wcs_client.section_effects(1) car_client.section_effects(1)
        cartwo_client.section_effects(1) carthree_client.section_effects(1)) auto
  then show ?thesis by simp
qed

lemma pass_links:
  assumes "fun_inv s" "\<forall>k<4. created_ok (tcp_client_list s ! k)" "\<forall>k<4. udp_connect_result lw k = 0"
  shows "\<exists>s'. udp_client_process lw s = Inr s' \<and> fun_inv s'
    \<and> (\<forall>k<4. tcp_client_list s' ! k = linked k (tcp_client_list s ! k))
    \<and> net_log s' = net_log s @ concat (map (\<lambda>k. connect_log k (tcp_client_list s ! k)) [0, 1, 2, 3])
    \<and> reports s' = reports s"
  using assms(3)
  by (intro process_touches [OF assms(1,2)] wcs_client.section_effects(2) car_client.section_effects(2)
      cartwo_client.section_effects(2) carthree_client.section_effects(2)) auto

lemma pass_sends:
  assumes "fun_inv s" "\<forall>k<4. connected (tcp_client_list s ! k)"
  shows "\<exists>s'. udp_client_process lw s = Inr s' \<and> fun_inv s'
    \<and> (\<forall>k<4. tcp_client_list s' ! k = quiet (tcp_client_list s ! k))
    \<and> net_log s' = net_log s @ concat (map (\<lambda>k. send_log lw k (tcp_client_list s ! k)) [0, 1, 2, 3])
    \<and> reports s' = reports s"
  by (intro process_touches [OF assms] wcs_client.section_effects(3) car_client.section_effects(3)
      cartwo_client.section_effects(3) carthree_client.section_effects(3)) auto

lemma process_total:
  assumes inv: "fun_inv s" and st: "\<forall>k<4. tcp_client_statue (tcp_client_list s ! k) \<noteq> CLIENT_CONNECT_RECV"
  shows "\<exists>s'. udp_client_process lw s = Inr s' \<and> fun_inv s'"
proof -
  obtain a where a: "udp_client_section recv_message_from_sever (\<lambda>s. s\<lparr>heart_dely := HEART_DELAY\<rparr>) lw 0 s = Inr a"
    "fun_inv a" "\<forall>j. j \<noteq> 0 \<longrightarrow> tcp_client_list a ! j = tcp_client_list s ! j"
    using wcs_client.section_total [OF inv, of 0 lw] st by auto
  then obtain b where b: "udp_client_section carrecv_message_from_sever (\<lambda>s. s) lw 1 a = Inr b"
    "fun_inv b" "\<forall>j. j \<noteq> 1 \<longrightarrow> tcp_client_list b ! j = tcp_client_list a ! j"
    using car_client.section_total [of a 1 lw] st by auto
  then obtain c where c: "udp_client_section cartworecv_message_from_sever (\<lambda>s. s) lw 2 b = Inr c"
    "fun_inv c" "\<forall>j. j \<noteq> 2 \<longrightarrow> tcp_client_list c ! j = tcp_client_list b ! j"
    using cartwo_client.section_total [of b 2 lw] a st by auto
  then obtain d where d: "udp_client_section carthreerecv_message_from_sever (\<lambda>s. s) lw 3 c = Inr d" "fun_inv d"
    using carthree_client.section_total [of c 3 lw] a b st by auto
  show ?thesis unfolding udp_client_process_def by (simp add: a(1) b(1) [unfolded One_nat_def] c(1) d)
qed

section \<open>Properties\<close>

text \<open>C30: The fate of a received datagram of which no second client is the addressee: it is ignored when
  the client is not connected to its sender; up to 255 bytes it is taken over unchanged; with 256 to
  1500 bytes the copy loop never ends (its counter has 8 bits); above, the length is undefined.\<close>

theorem datagram_fate:
  assumes "fun_inv s" "k < 4" "\<forall>i<4. i \<noteq> k \<longrightarrow> \<not> addressed port addr (tcp_client_list s ! i)"
    and "length payload = unat tot"
  shows "udp_receive_callback port addr payload tot s =
     (if \<not> addressed port addr (tcp_client_list s ! k) then Inr s
      else if unat tot \<le> 255 then Inr (client_upd k (delivered payload) s)
      else if unat tot \<le> 1500 then Inl Hang else Inl Undefined)"
  using udp_receive_one [OF assms(1,2) _ assms(3,4)] udp_receive_none [OF assms(1), of port addr payload tot] assms(3)
  by metis

text \<open>C7: A datagram of the WCS reaches the receiver: the callback keeps the invariant and stores the
  bytes, and the next pass of the process calls \<open>recv_message_from_sever\<close> on a buffer that begins
  with exactly these bytes and with exactly this length, and opens the client for the next one.\<close>

theorem datagram_reaches_receiver:
  assumes "fun_inv s" "addressed port addr (tcp_client_list s ! 0)"
    and "\<forall>i<4. i \<noteq> 0 \<longrightarrow> \<not> addressed port addr (tcp_client_list s ! i)"
    and "length payload = unat tot" "unat tot \<le> 255"
    and "connect_is_ok (tcp_client_list s ! 0) \<noteq> 0" "tcp_send_en (tcp_client_list s ! 0) = 0"
  shows "\<exists>t buf. udp_receive_callback port addr payload tot s = Inr t \<and> fun_inv t \<and> length buf = 1500
    \<and> take (unat tot) buf = payload
    \<and> udp_client_section recv_message_from_sever (\<lambda>s. s\<lparr>heart_dely := HEART_DELAY\<rparr>) lw 0 t =
        and_then (recv_message_from_sever buf tot t)
          (\<lambda>(len, u). Inr (client_upd 0 (\<lambda>c. c\<lparr>tcp_recev_len := len, tcp_client_statue := CLIENT_CONNECT_OK\<rparr>) u))"
proof -
  let ?t = "client_upd 0 (delivered payload) s" and ?b = "tcp_recev_buf (tcp_client_list s ! 0)"
  have r: "udp_receive_callback port addr payload tot s = Inr ?t"
    using udp_receive_one [OF assms(1) _ assms(2,3,4)] assms(5) by simp
  have i: "fun_inv ?t" using assms(1,4,5) by (simp add: delivered_keeps)
  have b: "length ?b = 1500" using client_ok_nth [OF assms(1), of 0] by (simp add: client_ok_def)
  have c: "tcp_client_list ?t ! 0 = delivered payload (tcp_client_list s ! 0)"
    using clients_length [OF assms(1)] by simp
  have "take (unat tot) (blit ?b 0 payload) = payload"
    using assms(4,5) b by (intro nth_equalityI) (simp_all add: nth_blit)
  moreover have "tcp_recev_len (tcp_client_list ?t ! 0) = tot" using assms(4) c by (simp add: delivered_def)
  ultimately show ?thesis
    using wcs_client.section_receives [OF i, of 0 lw] r i b c assms(6,7)
    by (intro exI [of _ ?t] exI [of _ "blit ?b 0 payload"]) (simp add: delivered_def)
qed

text \<open>C29: Connecting takes two passes: from closed clients, when lwIP gives the control blocks and
  accepts the connections, the second pass leaves every client connected, each bound to the local
  port, connected to its own server and with the callback registered, and nothing else was done on
  the network.\<close>

theorem connects_in_two_passes:
  assumes "fun_inv s" "\<forall>k<4. fresh (tcp_client_list s ! k)"
    and "\<forall>k<4. udp_new_result lw k \<noteq> None" "\<forall>k<4. udp_connect_result lw k = 0"
  shows "\<exists>s1 s2. udp_client_process lw s = Inr s1 \<and> udp_client_process lw s1 = Inr s2 \<and> fun_inv s2
    \<and> (\<forall>k<4. connected (tcp_client_list s2 ! k) \<and> echoclient_pcb (tcp_client_list s2 ! k) = udp_new_result lw k
         \<and> (dest_ip (tcp_client_list s2 ! k), dest_port (tcp_client_list s2 ! k)) = server k)
    \<and> net_log s2 = net_log s @ concat (map (\<lambda>k.
         [Udp_Bind k 9902, Udp_Connect k (fst (server k)) (snd (server k)), Udp_Recv k]) [0, 1, 2, 3])"
proof -
  obtain a where a: "udp_client_process lw s = Inr a" "fun_inv a" "net_log a = net_log s"
    "\<forall>k<4. tcp_client_list a ! k = created lw k (tcp_client_list s ! k)"
    using pass_creates [OF assms(1,2), of lw] by blast
  have "\<forall>k<4. created_ok (tcp_client_list a ! k)"
    using a(4) assms(3) by (auto simp: created_ok_def created_def)
  from pass_links [OF a(2) this assms(4)] obtain b where b: "udp_client_process lw a = Inr b" "fun_inv b"
    "\<forall>k<4. tcp_client_list b ! k = linked k (tcp_client_list a ! k)"
    "net_log b = net_log a @ concat (map (\<lambda>k. connect_log k (tcp_client_list a ! k)) [0, 1, 2, 3])" by blast
  have "\<forall>k<4. connected (tcp_client_list b ! k) \<and> echoclient_pcb (tcp_client_list b ! k) = udp_new_result lw k
      \<and> (dest_ip (tcp_client_list b ! k), dest_port (tcp_client_list b ! k)) = server k"
    using a(4) b(3) assms(3) by (auto simp: connected_def linked_def created_def)
  moreover have "net_log b = net_log s @ concat (map (\<lambda>k.
         [Udp_Bind k 9902, Udp_Connect k (fst (server k)) (snd (server k)), Udp_Recv k]) [0, 1, 2, 3])"
    using b(4) a(3) by (simp add: connect_log_def)
  ultimately show ?thesis using a(1) b(1,2) by blast
qed

text \<open>C11: An offered frame is sent once: with all clients connected, a pass sends for each client with a
  request exactly the offered bytes, withdraws the request (also when no buffer is available: the
  frame is then lost), and a further pass sends nothing.\<close>

theorem offered_frames_sent_once:
  assumes "fun_inv s" "\<forall>k<4. connected (tcp_client_list s ! k)"
  shows "\<exists>s1 s2. udp_client_process lw s = Inr s1 \<and> fun_inv s1
    \<and> net_log s1 = net_log s @ concat (map (\<lambda>k. let c = tcp_client_list s ! k in
         if tcp_send_en c = 1 \<and> pbuf_alloc_ok lw k then [Udp_Send k (take (unat (tcp_send_len c)) (tcp_send_buf c))] else [])
         [0, 1, 2, 3])
    \<and> (\<forall>k<4. tcp_send_en (tcp_client_list s1 ! k) \<noteq> 1)
    \<and> udp_client_process lw' s1 = Inr s2 \<and> net_log s2 = net_log s1"
proof -
  obtain a where a: "udp_client_process lw s = Inr a" "fun_inv a"
    "\<forall>k<4. tcp_client_list a ! k = quiet (tcp_client_list s ! k)"
    "net_log a = net_log s @ concat (map (\<lambda>k. send_log lw k (tcp_client_list s ! k)) [0, 1, 2, 3])"
    using pass_sends [OF assms, of lw] by blast
  have q: "\<forall>k<4. tcp_send_en (tcp_client_list a ! k) \<noteq> 1" using a(3) by (simp add: quiet_def)
  have "\<forall>k<4. connected (tcp_client_list a ! k)" using a(3) assms(2) by (simp add: quiet_def connected_def)
  from pass_sends [OF a(2) this, of lw'] obtain b where b: "udp_client_process lw' a = Inr b"
    "net_log b = net_log a @ concat (map (\<lambda>k. send_log lw' k (tcp_client_list a ! k)) [0, 1, 2, 3])" by blast
  have "net_log b = net_log a" using b(2) q by (simp add: send_log_def)
  then show ?thesis using a b(1) q by (intro exI [of _ a] exI [of _ b]) (simp add: send_log_def Let_def)
qed

text \<open>The network process is safe: with any results of lwIP it keeps the invariant of the whole state
  and never loops for ever; it returns whenever no datagram is waiting, so sending and connecting
  never access an array out of bounds.\<close>

theorem network_process_safe:
  assumes "fun_inv s"
  shows "(case udp_client_process lw s of Inr s' \<Rightarrow> fun_inv s' | Inl f \<Rightarrow> f \<noteq> Hang)
    \<and> ((\<forall>k<4. tcp_client_statue (tcp_client_list s ! k) \<noteq> CLIENT_CONNECT_RECV)
         \<longrightarrow> (\<exists>s'. udp_client_process lw s = Inr s'))"
  using udp_client_process_keeps [OF assms] process_total [OF assms] by blast

subsection \<open>Witnesses\<close>

definition udp_boot :: udp_st where
  "udp_boot = fun_st.extend fun_boot \<lparr>net_log = []\<rparr>"

definition udp_ready :: udp_st where
  "udp_ready = udp_boot\<lparr>tcp_client_list := map (\<lambda>k. client_bss\<lparr>connect_is_ok := 1, tcp_client_statue := 1,
     dest_ip := fst (server k), dest_port := snd (server k), tcp_send_en := if k = 1 then 1 else 0,
     tcp_send_len := 2\<rparr>) [0, 1, 2, 3]\<rparr>"

definition lwip_up :: lwip where
  "lwip_up = \<lparr>udp_new_result = (\<lambda>k. Some (100 + k)), udp_connect_result = (\<lambda>_. 0), pbuf_alloc_ok = (\<lambda>_. True)\<rparr>"

lemma udp_boot_inv: "fun_inv udp_boot"
  using fun_boot_inv by (simp add: udp_boot_def fun_inv_def usart_inv_def fun_st.defs)

lemma udp_boot_clients: "tcp_client_list udp_boot = replicate 4 client_bss"
  by (simp add: udp_boot_def fun_st.defs fun_boot_parts)

lemma udp_ready_inv: "fun_inv udp_ready"
  using udp_boot_inv by (simp add: udp_ready_def fun_inv_def usart_inv_def client_ok_def client_bss_def server_def)

lemma udp_ready_connected: "\<forall>k<4. connected (tcp_client_list udp_ready ! k)"
  by (simp add: less_4 udp_ready_def connected_def)

lemma udp_ready_addressed:
  "addressed 9902 0x0D0AA8C0 (tcp_client_list udp_ready ! 0)"
  "\<forall>i<4. i \<noteq> 0 \<longrightarrow> \<not> addressed 9902 0x0D0AA8C0 (tcp_client_list udp_ready ! i)"
  by (simp_all add: less_4 udp_ready_def addressed_def server_def byte_of32_def drop_bit_eq_div word_div_def)

lemma replicate_numeral_two: "replicate 2 x = [x, x]"
  by (simp add: numeral_2_eq_2)

lemma udp_ready_sends:
  "tcp_send_en (tcp_client_list udp_ready ! 0) = 0" "tcp_send_en (tcp_client_list udp_ready ! Suc 0) = 1"
  "tcp_send_en (tcp_client_list udp_ready ! 2) = 0" "tcp_send_en (tcp_client_list udp_ready ! 3) = 0"
  "take (unat (tcp_send_len (tcp_client_list udp_ready ! Suc 0))) (tcp_send_buf (tcp_client_list udp_ready ! Suc 0)) = [0, 0]"
  "pbuf_alloc_ok lwip_up k"
  by (simp_all add: udp_ready_def client_bss_def lwip_up_def replicate_numeral_two)

lemma udp_ready_log: "net_log udp_ready = []"
  by (simp add: udp_ready_def udp_boot_def fun_st.defs)

theorem datagram_fate_witness:
  "udp_receive_callback 9902 0x0D0AA8C0 (replicate 300 0) 300 udp_ready = Inl Hang"
  using datagram_fate [OF udp_ready_inv _ udp_ready_addressed(2), of "replicate 300 0" 300] udp_ready_addressed(1)
  by simp

theorem datagram_reaches_receiver_witness:
  "\<exists>t buf. udp_receive_callback 9902 0x0D0AA8C0 [1, 2, 3] 3 udp_ready = Inr t \<and> take 3 buf = [1, 2, 3]
    \<and> udp_client_section recv_message_from_sever (\<lambda>s. s\<lparr>heart_dely := HEART_DELAY\<rparr>) lwip_up 0 t =
        and_then (recv_message_from_sever buf 3 t)
          (\<lambda>(len, u). Inr (client_upd 0 (\<lambda>c. c\<lparr>tcp_recev_len := len, tcp_client_statue := CLIENT_CONNECT_OK\<rparr>) u))"
  using datagram_reaches_receiver [OF udp_ready_inv udp_ready_addressed, of "[1, 2, 3]" 3 lwip_up]
  by (auto simp: udp_ready_def client_bss_def)

theorem connects_in_two_passes_witness:
  "\<exists>s1 s2. udp_client_process lwip_up udp_boot = Inr s1 \<and> udp_client_process lwip_up s1 = Inr s2
     \<and> (\<forall>k<4. connected (tcp_client_list s2 ! k))"
proof -
  have "\<forall>k<4. fresh (tcp_client_list udp_boot ! k)" by (simp add: less_4 udp_boot_clients fresh_def client_bss_def)
  then show ?thesis
    using connects_in_two_passes [OF udp_boot_inv, of lwip_up] by (auto simp: lwip_up_def)
qed

theorem offered_frames_sent_once_witness:
  "\<exists>s1. udp_client_process lwip_up udp_ready = Inr s1 \<and> net_log s1 = [Udp_Send 1 [0, 0]]
     \<and> (\<exists>s2. udp_client_process lwip_up s1 = Inr s2 \<and> net_log s2 = net_log s1)"
  using offered_frames_sent_once [OF udp_ready_inv udp_ready_connected, of lwip_up lwip_up]
  by (auto simp: udp_ready_log udp_ready_sends Let_def)

theorem network_process_safe_witness:
  "\<exists>s'. udp_client_process lwip_up udp_ready = Inr s' \<and> fun_inv s'"
  using network_process_safe [OF udp_ready_inv, of lwip_up] udp_ready_connected by (auto simp: connected_def)

end
