(* ===== verification/Interrupts.thy ===== *)
theory Interrupts
  imports UdpClient
begin

text \<open>
  \<open>stm32f10x_it.c\<close> and \<open>Time_Update\<close> of \<open>main.c\<close>: the interrupt handlers. \<open>main_st\<close> extends
  \<open>udp_st\<close> with the remaining globals of \<open>main.c\<close>, \<open>netconf.c\<close> and \<open>stm32f107.c\<close>. What a handler
  reads from the hardware is an argument: the pending bits, the levels of the input pins at the
  successive readings, and the two readings of TIM2 of \<open>TIM_EXTI_Process\<close>. A handler runs to
  completion: all interrupts of the firmware have the same preemption priority (see \<open>Board\<close>).
\<close>

section \<open>State\<close>

record main_st = udp_st +
  LocalTime :: u32
  timingdelay :: u32
  sec_reg :: u16
  sec_flag :: u16
  interval_ms_flag :: u16
  msg_send_delay :: u8
  led :: bool                  \<comment> \<open>the output bit of PC8\<close>
  EthInitStatus :: u32
  TCPTimer :: u32
  ARPTimer :: u32

section \<open>Processor exceptions\<close>

definition NMI_Handler :: "'a main_st_scheme \<Rightarrow> 'a main_st_scheme result" where "NMI_Handler s = Inr s"
definition HardFault_Handler :: "'a main_st_scheme \<Rightarrow> 'a main_st_scheme result" where "HardFault_Handler s = Inl Hang"
definition MemManage_Handler :: "'a main_st_scheme \<Rightarrow> 'a main_st_scheme result" where "MemManage_Handler s = Inl Hang"
definition BusFault_Handler :: "'a main_st_scheme \<Rightarrow> 'a main_st_scheme result" where "BusFault_Handler s = Inl Hang"
definition UsageFault_Handler :: "'a main_st_scheme \<Rightarrow> 'a main_st_scheme result" where "UsageFault_Handler s = Inl Hang"
definition SVC_Handler :: "'a main_st_scheme \<Rightarrow> 'a main_st_scheme result" where "SVC_Handler s = Inr s"
definition DebugMon_Handler :: "'a main_st_scheme \<Rightarrow> 'a main_st_scheme result" where "DebugMon_Handler s = Inr s"
definition PendSV_Handler :: "'a main_st_scheme \<Rightarrow> 'a main_st_scheme result" where "PendSV_Handler s = Inr s"

section \<open>Timers\<close>

definition Time_Update :: "'a main_st_scheme \<Rightarrow> 'a main_st_scheme result" where
  "Time_Update s =
     (let s = s\<lparr>LocalTime := LocalTime s + 10\<rparr>;
          s = (if sec_reg s \<noteq> 0 then
                 let s = s\<lparr>sec_reg := sec_reg s - 1\<rparr> in
                 if sec_reg s = 0 then s\<lparr>sec_reg := 1000, sec_flag := 1\<rparr> else s
               else s);
          s = (if recv_gndpos_cnt s \<noteq> 0 then s\<lparr>recv_gndpos_cnt := recv_gndpos_cnt s - 1\<rparr> else s);
          s = (if usart4_sentcount s \<noteq> 0 then s\<lparr>usart4_sentcount := usart4_sentcount s - 1\<rparr> else s);
          s = (if usart2_sentcount s \<noteq> 0 then s\<lparr>usart2_sentcount := usart2_sentcount s - 1\<rparr> else s)
      in if positionreset s \<noteq> 0 then
           let s = s\<lparr>positionreset := positionreset s - 1\<rparr> in
           if positionreset s = 0 then carAddSendMsgToQueue CAR_MSG_GNDCTRL2WCS_CMD_INTERVAL_TYPE s else Inr s
         else Inr s)"

definition SysTick_Handler :: "'a main_st_scheme \<Rightarrow> 'a main_st_scheme result" where
  "SysTick_Handler s = Time_Update s"

text \<open>\<open>pending\<close> is the answer of \<open>TIM_GetITStatus\<close>.\<close>

definition TIM2_IRQHandler :: "bool \<Rightarrow> 'a main_st_scheme \<Rightarrow> 'a main_st_scheme" where
  "TIM2_IRQHandler pending s =
     (if pending then
        let s = s\<lparr>timUpdates := timUpdates s + 1\<rparr> in
        if timUpdates s \<ge> 0xFFFF then s\<lparr>timUpdates := 0, exti_extid := 0, exti_timCnt := 0\<rparr> else s
      else s)"

definition TIM3_IRQHandler :: "bool \<Rightarrow> 'a main_st_scheme \<Rightarrow> 'a main_st_scheme" where
  "TIM3_IRQHandler pending s =
     (if pending then
        (if \<not> flt_eq (pd_speed_target (wcs2GndParaData s)) (Fin 0) then s\<lparr>interval_ms_flag := interval_ms_flag s + 1\<rparr> else s)
      else s)"

section \<open>Photoelectric switches\<close>

text \<open>\<open>for(i = 0; i < EXT_DELAY; i++) if(EXT_STATE == 0) break;\<close> with \<open>EXT_DELAY\<close> 20; \<open>pin k\<close> is the
  level at reading \<open>k\<close>. The result is \<open>i\<close>.\<close>

fun exti_wait :: "nat \<Rightarrow> nat \<Rightarrow> (nat \<Rightarrow> bool) \<Rightarrow> nat" where
  "exti_wait 0 i pin = i"
| "exti_wait (Suc n) i pin = (if \<not> pin i then i else exti_wait n (Suc i) pin)"

abbreviation (input) "EXT_DELAY \<equiv> 20 :: nat"

definition pin_settled :: "(nat \<Rightarrow> bool) \<Rightarrow> bool" where
  "pin_settled pin \<longleftrightarrow> exti_wait EXT_DELAY 0 pin = EXT_DELAY"

text \<open>\<open>statenode.carnum\<close> has no value when \<open>carNo\<close> has wrapped to 0; \<open>junk\<close> is what the memory
  holds then.\<close>

definition EXTI4_IRQHandler ::
  "bool \<Rightarrow> (nat \<Rightarrow> bool) \<Rightarrow> u16 \<Rightarrow> u16 \<Rightarrow> u16 \<Rightarrow> 'a main_st_scheme \<Rightarrow> 'a main_st_scheme result" where
  "EXTI4_IRQHandler pending pin junk now later s =
     (if pending \<and> pin_settled pin then
        let pre = cmd_carNo s;
            s = s\<lparr>cmd_carNo := cmd_carNo s + 1\<rparr>;
            interval_Data = \<lparr>PreCarNum = pre, CurCarNum = cmd_carNo s, interval = interval_ms_flag s\<rparr>;
            statenode = \<lparr>node_speed = cmd_speed s, carnum = (if cmd_carNo s > 0 then cmd_carNo s - 1 else junk),
                         servo = servo_hz s\<rparr>
        in and_then (AddToGnd2WcsStateQueue statenode s) (\<lambda>s.
           let s = s\<lparr>recv_gndpos_cnt := 50\<rparr> in
           and_then (AddToGnd2WcsIntervalQueue interval_Data s) (\<lambda>s.
           and_then (AddSendMsgToQueue SEND_MSG_GNDCTRL2WCS_CMD_INTERVAL_TYPE s) (\<lambda>s.
           and_then (AddSendMsgToQueue SEND_MSG_GNDCTRL2WCS_CMD_TYPE s) (\<lambda>s.
           let s = s\<lparr>interval_ms_flag := 0\<rparr> in
           and_then (TIM_EXTI_Process 1 now later s) (\<lambda>s.
           and_then (repairLocationCtrl s) (\<lambda>s.
           Inr (s\<lparr>msg_send_delay := 10\<rparr>)))))))
      else Inr s)"

definition EXTI9_5_IRQHandler ::
  "bool \<Rightarrow> (nat \<Rightarrow> bool) \<Rightarrow> u16 \<Rightarrow> u16 \<Rightarrow> bool \<Rightarrow> (nat \<Rightarrow> bool) \<Rightarrow> 'a main_st_scheme \<Rightarrow> 'a main_st_scheme result" where
  "EXTI9_5_IRQHandler pending5 pin7 now later pending7 pin10 s =
     and_then (if pending5 \<and> pin_settled pin7 then TIM_EXTI_Process 2 now later s else Inr s) (\<lambda>s.
     if pending7 \<and> pin_settled pin10 then Inr (s\<lparr>cmd_carNo := 0, reset_flag := 1\<rparr>) else Inr s)"

section \<open>What the lower layers leave alone\<close>

lemma set_fwHz_frame:
  "set_fwHz v s = Inr s' \<Longrightarrow> speed_st.more s' = speed_st.more s \<and> (usart_inv s \<longrightarrow> usart_inv s')"
  by (auto simp: set_fwHz_def and_then_Inr_iff usart_inv_def simp del: flt_to_int.simps)

lemma pid_parts_frame:
  "pid_below s = Inr s' \<Longrightarrow> speed_st.more s' = speed_st.more s \<and> (usart_inv s \<longrightarrow> usart_inv s')"
  "pid_above s = Inr s' \<Longrightarrow> speed_st.more s' = speed_st.more s \<and> (usart_inv s \<longrightarrow> usart_inv s')"
  "pid_near s = Inr s' \<Longrightarrow> speed_st.more s' = speed_st.more s \<and> (usart_inv s \<longrightarrow> usart_inv s')"
  by (auto simp: pid_below_def pid_above_def pid_near_def dest: set_fwHz_frame split: if_splits)

lemma pid_clamp_more [simp]: "speed_st.more (pid_clamp s) = speed_st.more s"
  by (simp add: pid_clamp_def Let_def)

lemma fwPIDctrl_frame:
  "fwPIDctrl t s = Inr s' \<Longrightarrow> speed_st.more s' = speed_st.more s \<and> (usart_inv s \<longrightarrow> usart_inv s')"
  unfolding fwPIDctrl_def Let_def and_then_Inr_iff
  by (auto dest!: pid_parts_frame RS485_OUT_frame)

lemma exti_measure_frame:
  assumes "exti_measure e now later s = Inr s'"
  shows "timexti_st.more s' = timexti_st.more s \<and> (usart_inv s \<longrightarrow> usart_inv s')"
proof -
  have m: "timexti_st.more (exti_mark e x s) = timexti_st.more s" for x by (simp add: exti_mark_def)
  have p: "timexti_st.more t' = timexti_st.more t \<and> (usart_inv t \<longrightarrow> usart_inv t')" if "fwPIDctrl c t = Inr t'" for c t t'
    using fwPIDctrl_frame [OF that] more_speed_timexti by blast
  show ?thesis
    using assms p [of _ "exti_mark e later s"] m
    by (auto simp: exti_measure_def Let_def and_then_Inr_iff split: if_splits)
qed

lemma servo_stage_more [simp]:
  "timexti_st.more (servo_stage e s) = timexti_st.more s" "usart_inv (servo_stage e s) = usart_inv s"
  by (simp_all add: servo_stage_def Let_def usart_inv_def)

lemma timExtiRst_frame [simp]:
  "timexti_st.more (timExtiRst now s) = timexti_st.more s" "usart_inv (timExtiRst now s) = usart_inv s"
  "usart_inv (s\<lparr>exti_extid := e\<rparr>) = usart_inv s" "usart_inv (s\<lparr>repair_flag := f\<rparr>) = usart_inv s"
  by (simp_all add: timExtiRst_def usart_inv_def)

lemma TIM_EXTI_Process_frame:
  assumes "TIM_EXTI_Process e now later s = Inr s'"
  shows "timexti_st.more s' = timexti_st.more s \<and> (usart_inv s \<longrightarrow> usart_inv s')"
  using assms exti_measure_frame [of e now later "servo_stage e s" s']
  by (auto simp: TIM_EXTI_Process_def Let_def split: if_splits)

lemma repairLocationCtrl_frame:
  assumes "repairLocationCtrl s = Inr s'"
  shows "timexti_st.more s' = timexti_st.more s \<and> (usart_inv s \<longrightarrow> usart_inv s')"
proof -
  have p: "timexti_st.more t' = timexti_st.more t \<and> (usart_inv t \<longrightarrow> usart_inv t')" if "RS485_OUT v t = Inr t'" for v t t'
    using RS485_OUT_frame [OF that] more_speed_timexti by blast
  show ?thesis
    using assms p [of _ s] p [of 0 "s\<lparr>repair_flag := 0\<rparr>"]
    by (auto simp: repairLocationCtrl_def Let_def split: if_splits)
qed

lemma set_fwHz_fault: "set_fwHz v s = Inl f \<Longrightarrow> f = Undefined"
  by (auto simp: set_fwHz_def and_then_Inl_iff dest: flt_to_int_fault simp del: flt_to_int.simps)

lemma fwPIDctrl_fault: "fwPIDctrl t s = Inl f \<Longrightarrow> f = Undefined"
  unfolding fwPIDctrl_def Let_def and_then_Inl_iff
  by (auto simp: pid_below_def pid_above_def pid_near_def dest: set_fwHz_fault RS485_OUT_fault split: if_splits)

lemma TIM_EXTI_Process_fault: "TIM_EXTI_Process e now later s = Inl f \<Longrightarrow> f = Undefined"
  by (auto simp: TIM_EXTI_Process_def exti_measure_def Let_def and_then_Inl_iff dest: fwPIDctrl_fault split: if_splits)

lemma repairLocationCtrl_fault: "repairLocationCtrl s = Inl f \<Longrightarrow> f = Undefined"
  by (auto simp: repairLocationCtrl_def Let_def dest: RS485_OUT_fault split: if_splits)

text \<open>The invariant of the message layer through the switches.\<close>

lemma switches_keep:
  assumes "fun_inv s"
  shows "TIM_EXTI_Process e now later s = Inr s' \<Longrightarrow> fun_inv s'" "repairLocationCtrl s = Inr s' \<Longrightarrow> fun_inv s'"
  using fun_inv_cong [OF _ _ assms] TIM_EXTI_Process_frame repairLocationCtrl_frame assms
  by (metis fun_inv_def)+

lemma main_updates [simp]:
  "fun_inv (s\<lparr>LocalTime := a\<rparr>) = fun_inv s" "fun_inv (s\<lparr>timingdelay := b\<rparr>) = fun_inv s"
  "fun_inv (s\<lparr>sec_reg := c\<rparr>) = fun_inv s" "fun_inv (s\<lparr>sec_flag := d\<rparr>) = fun_inv s"
  "fun_inv (s\<lparr>interval_ms_flag := d\<rparr>) = fun_inv s" "fun_inv (s\<lparr>msg_send_delay := e\<rparr>) = fun_inv s"
  "fun_inv (s\<lparr>led := l\<rparr>) = fun_inv s" "fun_inv (s\<lparr>EthInitStatus := b\<rparr>) = fun_inv s"
  "fun_inv (s\<lparr>TCPTimer := b\<rparr>) = fun_inv s" "fun_inv (s\<lparr>ARPTimer := b\<rparr>) = fun_inv s"
  "fun_inv (s\<lparr>exti_timCnt := d\<rparr>) = fun_inv s"
  by (simp_all add: fun_inv_def usart_inv_def)

lemma main_fields:
  assumes "fun_st.more s' = fun_st.more s"
  shows "interval_ms_flag s' = interval_ms_flag s" "sec_reg s' = sec_reg s" "LocalTime s' = LocalTime s"
    "EthInitStatus s' = EthInitStatus s" "udp_st.more s' = udp_st.more s" "net_log s' = net_log s"
  using assms by (cases s; cases s'; simp)+

section \<open>Debouncing\<close>

lemma exti_wait_full: "exti_wait n i pin = i + n \<longleftrightarrow> (\<forall>k<n. pin (i + k))"
proof (induction n arbitrary: i)
  case (Suc n)
  have "exti_wait n (Suc i) pin = i + Suc n \<longleftrightarrow> (\<forall>k<n. pin (Suc i + k))" using Suc [of "Suc i"] by simp
  moreover have "(\<forall>k<Suc n. pin (i + k)) \<longleftrightarrow> pin i \<and> (\<forall>k<n. pin (Suc i + k))"
    by (auto simp: less_Suc_eq_0_disj)
  ultimately show ?case by simp
qed simp

lemma pin_settled_iff: "pin_settled pin \<longleftrightarrow> (\<forall>k<20. pin k)"
  using exti_wait_full [of 20 0 pin] by (simp add: pin_settled_def)

section \<open>The tick\<close>

lemma tick:
  assumes inv: "fun_inv s"
  shows "\<exists>s'. SysTick_Handler s = Inr s' \<and> fun_inv s' \<and> LocalTime s' = LocalTime s + 10
    \<and> sec_reg s' = (if sec_reg s = 0 then 0 else if sec_reg s = 1 then 1000 else sec_reg s - 1)
    \<and> sec_flag s' = (if sec_reg s = 1 then 1 else sec_flag s)
    \<and> positionreset s' = (if positionreset s = 0 then 0 else positionreset s - 1)
    \<and> (if positionreset s = 1 then appended 50 (carSendQueue s) CAR_MSG_GNDCTRL2WCS_CMD_INTERVAL_TYPE (carSendQueue s')
       else carSendQueue s' = carSendQueue s)"
proof -
  define t where "t = (let s = s\<lparr>LocalTime := LocalTime s + 10\<rparr>;
          s = (if sec_reg s \<noteq> 0 then
                 let s = s\<lparr>sec_reg := sec_reg s - 1\<rparr> in
                 if sec_reg s = 0 then s\<lparr>sec_reg := 1000, sec_flag := 1\<rparr> else s
               else s);
          s = (if recv_gndpos_cnt s \<noteq> 0 then s\<lparr>recv_gndpos_cnt := recv_gndpos_cnt s - 1\<rparr> else s);
          s = (if usart4_sentcount s \<noteq> 0 then s\<lparr>usart4_sentcount := usart4_sentcount s - 1\<rparr> else s)
      in if usart2_sentcount s \<noteq> 0 then s\<lparr>usart2_sentcount := usart2_sentcount s - 1\<rparr> else s)"
  have t: "fun_inv t" "LocalTime t = LocalTime s + 10"
    "sec_reg t = (if sec_reg s = 0 then 0 else if sec_reg s = 1 then 1000 else sec_reg s - 1)"
    "sec_flag t = (if sec_reg s = 1 then 1 else sec_flag s)" "positionreset t = positionreset s"
    "carSendQueue t = carSendQueue s"
    using inv by (auto simp: t_def Let_def)
  have run: "SysTick_Handler s = (if positionreset t \<noteq> 0 then
           let s = t\<lparr>positionreset := positionreset t - 1\<rparr> in
           if positionreset s = 0 then carAddSendMsgToQueue CAR_MSG_GNDCTRL2WCS_CMD_INTERVAL_TYPE s else Inr s
         else Inr t)"
    unfolding SysTick_Handler_def Time_Update_def t_def Let_def ..
  let ?u = "t\<lparr>positionreset := 0\<rparr>"
  have "fun_inv ?u" using t(1) by simp
  then obtain q where q: "carAddSendMsgToQueue 0xA1A1 ?u = Inr (?u\<lparr>carSendQueue := q\<rparr>)" "appended 50 (carSendQueue ?u) 0xA1A1 q"
    "fun_inv (?u\<lparr>carSendQueue := q\<rparr>)"
    using carAddSendMsgToQueue_ok [of ?u "0xA1A1"] fun_inv_queues by blast
  consider "positionreset s = 0" | "positionreset s = 1" | "positionreset s \<noteq> 0" "positionreset s \<noteq> 1" by blast
  then show ?thesis
  proof cases
    case 2
    then show ?thesis using run q t by (intro exI [of _ "?u\<lparr>carSendQueue := q\<rparr>"]) (simp add: Let_def)
  qed (use run t in \<open>simp_all add: Let_def\<close>)
qed

fun tick_run :: "nat \<Rightarrow> 'a main_st_scheme \<Rightarrow> 'a main_st_scheme result" where
  "tick_run 0 s = Inr s"
| "tick_run (Suc n) s = and_then (SysTick_Handler s) (tick_run n)"


text \<open>The register of the seconds after \<open>n\<close> ticks.\<close>

definition sec_after :: "nat \<Rightarrow> nat \<Rightarrow> nat" where
  "sec_after r n = (if n < r then r - n else 1000 - (n - r) mod 1000)"

lemma sec_after_step:
  assumes "0 < r" "r \<le> 1000" 
  shows "sec_after r (Suc n) = (if sec_after r n = 1 then 1000 else sec_after r n - 1)"
    and "0 < sec_after r n" "sec_after r n \<le> 1000"
    and "sec_after r n = 1 \<longleftrightarrow> r \<le> Suc n \<and> (Suc n - r) mod 1000 = 0"
proof -
  consider "Suc n < r" | "Suc n = r" | "r \<le> n" by linarith
  then show "sec_after r (Suc n) = (if sec_after r n = 1 then 1000 else sec_after r n - 1)"
  proof cases
    case 3
    then have e: "Suc n - r = Suc (n - r)" by simp
    show ?thesis using 3 unfolding sec_after_def e mod_Suc by (auto simp: less_eq_Suc_le)
  qed (auto simp: sec_after_def)
  have b: "(n - r) mod 1000 < 1000" by simp
  then show "0 < sec_after r n" "sec_after r n \<le> 1000" using assms by (auto simp: sec_after_def)
  show "sec_after r n = 1 \<longleftrightarrow> r \<le> Suc n \<and> (Suc n - r) mod 1000 = 0"
  proof (cases "r \<le> n")
    case True
    then have e: "Suc n - r = Suc (n - r)" by simp
    show ?thesis using True b unfolding sec_after_def e mod_Suc by auto
  qed (auto simp: sec_after_def)
qed

lemma tick_run_snoc: "tick_run (Suc n) s = and_then (tick_run n s) SysTick_Handler"
proof (induction n arbitrary: s)
  case 0
  show ?case by (cases "SysTick_Handler s") simp_all
next
  case (Suc n)
  show ?case
  proof (cases "SysTick_Handler s")
    case (Inr t)
    then show ?thesis using Suc [of t] by simp
  qed simp
qed

lemma unat_dec: "x \<noteq> 0 \<Longrightarrow> unat (x - 1) = unat x - 1" for x :: "'a::len word"
  by (simp add: unat_gt_0 unat_minus_one)

lemma ticks:
  assumes inv: "fun_inv s" and r: "sec_reg s \<noteq> 0" "sec_reg s \<le> 1000"
    and room: "length (ring_items (carSendQueue s)) < 49"
  shows "\<exists>s'. tick_run n s = Inr s' \<and> fun_inv s' \<and> LocalTime s' = LocalTime s + of_nat (10 * n)
    \<and> unat (sec_reg s') = sec_after (unat (sec_reg s)) n
    \<and> sec_flag s' = (if unat (sec_reg s) \<le> n then 1 else sec_flag s)
    \<and> unat (positionreset s') = unat (positionreset s) - n
    \<and> ring_items (carSendQueue s') = ring_items (carSendQueue s)
        @ (if 0 < unat (positionreset s) \<and> unat (positionreset s) \<le> n then [CAR_MSG_GNDCTRL2WCS_CMD_INTERVAL_TYPE] else [])"
proof (induction n)
  case 0
  have "unat (sec_reg s) > 0" using r(1) by (simp add: unat_gt_0)
  then show ?case using inv by (auto simp: sec_after_def)
next
  case (Suc n)
  have rr: "0 < unat (sec_reg s)" "unat (sec_reg s) \<le> 1000"
    using r by (simp_all add: unat_gt_0 word_le_nat_alt)
  note st = sec_after_step [OF rr, of n]
  from Suc obtain t where t: "tick_run n s = Inr t" "fun_inv t" "LocalTime t = LocalTime s + of_nat (10 * n)"
    "unat (sec_reg t) = sec_after (unat (sec_reg s)) n" "sec_flag t = (if unat (sec_reg s) \<le> n then 1 else sec_flag s)"
    "unat (positionreset t) = unat (positionreset s) - n"
    "ring_items (carSendQueue t) = ring_items (carSendQueue s)
        @ (if 0 < unat (positionreset s) \<and> unat (positionreset s) \<le> n then [0xA1A1] else [])" by blast
  obtain u where u: "SysTick_Handler t = Inr u" "fun_inv u" "LocalTime u = LocalTime t + 10"
    "sec_reg u = (if sec_reg t = 0 then 0 else if sec_reg t = 1 then 1000 else sec_reg t - 1)"
    "sec_flag u = (if sec_reg t = 1 then 1 else sec_flag t)"
    "positionreset u = (if positionreset t = 0 then 0 else positionreset t - 1)"
    "if positionreset t = 1 then appended 50 (carSendQueue t) 0xA1A1 (carSendQueue u) else carSendQueue u = carSendQueue t"
    using tick [OF t(2)] by blast
  have nz: "sec_reg t \<noteq> 0" using t(4) st(2) by (metis less_irrefl unat_0)
  have one: "x = 1 \<longleftrightarrow> unat x = 1" for x :: u16 by (simp add: word_unat_eq_iff)
  have "tick_run (Suc n) s = Inr u" using t(1) u(1) unfolding tick_run_snoc by simp
  moreover have "LocalTime u = LocalTime s + of_nat (10 * Suc n)" using u(3) t(3) by simp
  moreover have "unat (sec_reg u) = sec_after (unat (sec_reg s)) (Suc n)"
    using u(4) nz t(4) st(1) one [of "sec_reg t"] unat_dec [OF nz] by auto
  moreover have "sec_flag u = (if unat (sec_reg s) \<le> Suc n then 1 else sec_flag s)"
  proof (cases "unat (sec_reg s) \<le> n")
    case False
    then have "sec_reg t = 1 \<longleftrightarrow> unat (sec_reg s) = Suc n" using one [of "sec_reg t"] t(4) by (auto simp: sec_after_def)
    then show ?thesis using u(5) t(5) False by auto
  qed (use u(5) t(5) in auto)
  moreover have "unat (positionreset u) = unat (positionreset s) - Suc n"
    using u(6) t(6) unat_dec [of "positionreset t"] by (auto simp: unat_eq_0)
  moreover have "ring_items (carSendQueue u) = ring_items (carSendQueue s)
        @ (if 0 < unat (positionreset s) \<and> unat (positionreset s) \<le> Suc n then [0xA1A1] else [])"
    using u(7) t(6,7) one [of "positionreset t"] room by (auto simp: appended_def)
  ultimately show ?case using u(2) by (intro exI [of _ u]) simp
qed

section \<open>The car switch\<close>

lemma process_first:
  "TIM_EXTI_Process 1 now later s = Inr (if repair_flag s = 1 then s else timExtiRst now (servo_stage 1 s))"
  by (simp add: TIM_EXTI_Process_def Let_def)

text \<open>The frequency of maintenance driving is in range, or no maintenance is under way.\<close>

definition repair_safe :: "'a timexti_st_scheme \<Rightarrow> bool" where
  "repair_safe s \<longleftrightarrow> reset_flag s = 0 \<or> repair_flag s = 0 \<or> rc_standard_hz (repairCarCmdData s) < 20000"

lemma repairLocationCtrl_total:
  assumes "usart_inv s" "repair_safe s"
  shows "\<exists>s'. repairLocationCtrl s = Inr s'"
  using assms repairLocationCtrl_step [of s] by (auto simp: repair_safe_def repairLocationCtrl_def)


lemma car_passage:
  assumes inv: "fun_inv s" and pin: "\<forall>k<20. pin k" and safe: "repair_safe s"
    and room: "length (ring_items (gndstatequeue s)) < 19" "length (ring_items (gnd2WcsIntervalQueue s)) < 19"
      "length (ring_items (msgSendQueue s)) < 98"
  shows "\<exists>s'. EXTI4_IRQHandler True pin junk now later s = Inr s' \<and> fun_inv s'
    \<and> ring_items (gndstatequeue s') = ring_items (gndstatequeue s)
        @ [\<lparr>node_speed = cmd_speed s, carnum = (if cmd_carNo s = - 1 then junk else cmd_carNo s), servo = servo_hz s\<rparr>]
    \<and> ring_items (gnd2WcsIntervalQueue s') = ring_items (gnd2WcsIntervalQueue s)
        @ [\<lparr>PreCarNum = cmd_carNo s, CurCarNum = cmd_carNo s + 1, interval = interval_ms_flag s\<rparr>]
    \<and> ring_items (msgSendQueue s') = ring_items (msgSendQueue s)
        @ [SEND_MSG_GNDCTRL2WCS_CMD_INTERVAL_TYPE, SEND_MSG_GNDCTRL2WCS_CMD_TYPE]
    \<and> interval_ms_flag s' = 0"
proof -
  let ?s0 = "s\<lparr>cmd_carNo := cmd_carNo s + 1\<rparr>"
  let ?node = "\<lparr>node_speed = cmd_speed s, carnum = (if cmd_carNo s + 1 > 0 then cmd_carNo s + 1 - 1 else junk), servo = servo_hz s\<rparr>"
  let ?iv = "\<lparr>PreCarNum = cmd_carNo s, CurCarNum = cmd_carNo s + 1, interval = interval_ms_flag s\<rparr>"
  have i0: "fun_inv ?s0" using inv by simp
  obtain a where a: "AddToGnd2WcsStateQueue ?node ?s0 = Inr (?s0\<lparr>gndstatequeue := a\<rparr>)"
    "appended 20 (gndstatequeue ?s0) ?node a" using AddToGnd2WcsStateQueue_ok [OF i0] by blast
  let ?s1 = "?s0\<lparr>gndstatequeue := a, recv_gndpos_cnt := 50\<rparr>"
  have i1: "fun_inv ?s1" using fun_inv_queues(3) [OF i0 a(2)] by simp
  obtain b where b: "AddToGnd2WcsIntervalQueue ?iv ?s1 = Inr (?s1\<lparr>gnd2WcsIntervalQueue := b\<rparr>)"
    "appended 20 (gnd2WcsIntervalQueue ?s1) ?iv b" using AddToGnd2WcsIntervalQueue_ok [OF i1] by blast
  let ?s2 = "?s1\<lparr>gnd2WcsIntervalQueue := b\<rparr>"
  have i2: "fun_inv ?s2" using fun_inv_queues(2) [OF i1 b(2)] by simp
  obtain c where c: "AddSendMsgToQueue 0x1223 ?s2 = Inr (?s2\<lparr>msgSendQueue := c\<rparr>)"
    "appended 100 (msgSendQueue ?s2) 0x1223 c" using AddSendMsgToQueue_ok [OF i2] by blast
  let ?s3 = "?s2\<lparr>msgSendQueue := c\<rparr>"
  have i3: "fun_inv ?s3" using fun_inv_queues(1) [OF i2 c(2)] by simp
  obtain d where d: "AddSendMsgToQueue 0x1201 ?s3 = Inr (?s3\<lparr>msgSendQueue := d\<rparr>)"
    "appended 100 (msgSendQueue ?s3) 0x1201 d" using AddSendMsgToQueue_ok [OF i3] by blast
  let ?s4 = "?s3\<lparr>msgSendQueue := d, interval_ms_flag := 0\<rparr>"
  have i4: "fun_inv ?s4" using fun_inv_queues(1) [OF i3 d(2)] by simp
  define t where "t = (if repair_flag ?s4 = 1 then ?s4 else timExtiRst now (servo_stage 1 ?s4))"
  have t: "TIM_EXTI_Process 1 now later ?s4 = Inr t" unfolding process_first t_def by simp
  have it: "fun_inv t" using switches_keep(1) [OF i4 t] .
  have st: "repair_safe t"
    using safe by (auto simp: t_def repair_safe_def timExtiRst_def servo_stage_def Let_def)
  obtain u where u: "repairLocationCtrl t = Inr u"
    using repairLocationCtrl_total [of t] it st by (auto simp: fun_inv_def)
  let ?u = "u\<lparr>msg_send_delay := 10\<rparr>"
  have iu: "fun_inv ?u" using switches_keep(2) [OF it u] by simp
  have m: "timexti_st.more u = timexti_st.more ?s4"
    using TIM_EXTI_Process_frame [OF t] repairLocationCtrl_frame [OF u] by simp
  have run: "EXTI4_IRQHandler True pin junk now later s = Inr ?u"
    using pin a(1) b(1) c(1) d(1) t u
    by (simp add: EXTI4_IRQHandler_def pin_settled_iff Let_def cong: if_cong split del: if_split)
  have wrap: "0 < cmd_carNo s + 1 \<longleftrightarrow> cmd_carNo s \<noteq> - 1"
    by (metis add.commute add_eq_0_iff word_gt_0)
  have q: "gndstatequeue u = a" "gnd2WcsIntervalQueue u = b" "msgSendQueue u = d" "interval_ms_flag u = 0"
    using fun_fields(1,2,4) [OF m] main_fields(1) [OF fun_fields(7) [OF m]] by simp_all
  show ?thesis
    using run iu q a(2) b(2) c(2) d(2) room wrap
    by (intro exI [of _ ?u]) (simp add: appended_def)
qed


section \<open>No handler breaks the invariant\<close>

text \<open>The outcome of a handler: the invariant again, or undefined arithmetic.\<close>

definition handled :: "'a main_st_scheme result \<Rightarrow> bool" where
  "handled r \<longleftrightarrow> (case r of Inr s \<Rightarrow> fun_inv s | Inl f \<Rightarrow> f = Undefined)"

lemma handled_simps [simp]: "handled (Inr s) = fun_inv s" "handled (Inl f) = (f = Undefined)"
  by (simp_all add: handled_def)

lemma handled_and_then: "handled r \<Longrightarrow> (\<And>t. fun_inv t \<Longrightarrow> handled (g t)) \<Longrightarrow> handled (and_then r g)"
  by (cases r) simp_all

lemma handled_switches: "fun_inv s \<Longrightarrow> handled (TIM_EXTI_Process e now later s)" "fun_inv s \<Longrightarrow> handled (repairLocationCtrl s)"
proof -
  assume i: "fun_inv s"
  show "handled (TIM_EXTI_Process e now later s)"
    using switches_keep(1) [OF i, of e now later] TIM_EXTI_Process_fault [of e now later s]
    by (cases "TIM_EXTI_Process e now later s") simp_all
  show "handled (repairLocationCtrl s)"
    using switches_keep(2) [OF i] repairLocationCtrl_fault [of s] by (cases "repairLocationCtrl s") simp_all
qed

lemma handled_adds:
  "fun_inv s \<Longrightarrow> handled (AddToGnd2WcsStateQueue n s)" "fun_inv s \<Longrightarrow> handled (AddToGnd2WcsIntervalQueue i s)"
  "fun_inv s \<Longrightarrow> handled (AddSendMsgToQueue m s)"
  using AddToGnd2WcsStateQueue_ok [of s n] AddToGnd2WcsIntervalQueue_ok [of s i] AddSendMsgToQueue_ok [of s m] fun_inv_queues
  by fastforce+

lemma handlers_keep:
  assumes "fun_inv s"
  shows "handled (SysTick_Handler s)" "handled (Inr (TIM2_IRQHandler pending s))" "handled (Inr (TIM3_IRQHandler pending s))"
    "handled (EXTI4_IRQHandler pending pin junk now later s)"
    "handled (EXTI9_5_IRQHandler pending pin7 now later pending7 pin10 s)"
proof -
  show "handled (SysTick_Handler s)" using tick [OF assms] by auto
  show "handled (Inr (TIM2_IRQHandler pending s))" using assms by (simp add: TIM2_IRQHandler_def Let_def)
  show "handled (Inr (TIM3_IRQHandler pending s))" using assms by (simp add: TIM3_IRQHandler_def)
  show "handled (EXTI4_IRQHandler pending pin junk now later s)"
    using assms unfolding EXTI4_IRQHandler_def Let_def
    by (auto intro!: handled_and_then handled_adds handled_switches)
  show "handled (EXTI9_5_IRQHandler pending pin7 now later pending7 pin10 s)"
    using assms unfolding EXTI9_5_IRQHandler_def
    by (auto intro!: handled_and_then handled_switches)
qed

text \<open>A glitch is not a car: when the pin reads low at any of the 20 readings, or the interrupt is
  not pending, the handlers of the switches change nothing.\<close>

lemma glitch_ignored:
  assumes "j < 20" "k < 20" "l < 20" "\<not> pin j" "\<not> pin7 k" "\<not> pin10 l"
  shows "EXTI4_IRQHandler pending pin junk now later s = Inr s
    \<and> EXTI9_5_IRQHandler pending5 pin7 now later pending7 pin10 s = Inr s
    \<and> EXTI4_IRQHandler False pin' junk now later s = Inr s
    \<and> EXTI9_5_IRQHandler False pin' now later False pin'' s = Inr s"
  using assms by (auto simp: EXTI4_IRQHandler_def EXTI9_5_IRQHandler_def pin_settled_iff)

section \<open>Properties\<close>

text \<open>A car that passes the first switch is recorded: when the pin is high at all 20 readings and
  the queues have room, the handler queues the state of the line, the interval since the last car
  and the two report messages in this order, counts the car and restarts the interval, also in
  maintenance mode. The recorded car number is the old number, except when the counter wraps to 0:
  then it is whatever the uninitialised variable holds.\<close>

theorem car_passage_recorded:
  assumes "fun_inv s" "\<forall>k<20. pin k" "repair_safe s"
    and "length (ring_items (gndstatequeue s)) < 19" "length (ring_items (gnd2WcsIntervalQueue s)) < 19"
    and "length (ring_items (msgSendQueue s)) < 98"
  shows "\<exists>s'. EXTI4_IRQHandler True pin junk now later s = Inr s' \<and> fun_inv s'
    \<and> ring_items (gndstatequeue s') = ring_items (gndstatequeue s)
        @ [\<lparr>node_speed = cmd_speed s, carnum = (if cmd_carNo s = - 1 then junk else cmd_carNo s), servo = servo_hz s\<rparr>]
    \<and> ring_items (gnd2WcsIntervalQueue s') = ring_items (gnd2WcsIntervalQueue s)
        @ [\<lparr>PreCarNum = cmd_carNo s, CurCarNum = cmd_carNo s + 1, interval = interval_ms_flag s\<rparr>]
    \<and> ring_items (msgSendQueue s') = ring_items (msgSendQueue s)
        @ [SEND_MSG_GNDCTRL2WCS_CMD_INTERVAL_TYPE, SEND_MSG_GNDCTRL2WCS_CMD_TYPE]
    \<and> interval_ms_flag s' = 0"
  by (rule car_passage [OF assms])

text \<open>C33: The clock: after \<open>n\<close> ticks of the system timer the local time has advanced by \<open>10 n\<close>, the
  second flag has been raised as soon as \<open>sec_reg\<close> ticks have passed and the register counts down
  from 1000 again, with period 1000; and the forwarding of an interval to client 1 is queued exactly
  once, at the tick at which \<open>positionreset\<close> runs out.\<close>

theorem ticks_keep_time:
  assumes "fun_inv s" "sec_reg s \<noteq> 0" "sec_reg s \<le> 1000" "length (ring_items (carSendQueue s)) < 49"
  shows "\<exists>s'. tick_run n s = Inr s' \<and> fun_inv s' \<and> LocalTime s' = LocalTime s + of_nat (10 * n)
    \<and> unat (sec_reg s') = (if n < unat (sec_reg s) then unat (sec_reg s) - n else 1000 - (n - unat (sec_reg s)) mod 1000)
    \<and> sec_flag s' = (if unat (sec_reg s) \<le> n then 1 else sec_flag s)
    \<and> unat (positionreset s') = unat (positionreset s) - n
    \<and> ring_items (carSendQueue s') = ring_items (carSendQueue s)
        @ (if 0 < unat (positionreset s) \<and> unat (positionreset s) \<le> n then [CAR_MSG_GNDCTRL2WCS_CMD_INTERVAL_TYPE] else [])"
  using ticks [OF assms, of n] unfolding sec_after_def by blast

subsection \<open>Witnesses\<close>

definition main_boot :: main_st where
  "main_boot = udp_st.extend udp_boot \<lparr>LocalTime = 0, timingdelay = 0, sec_reg = 100, sec_flag = 0, interval_ms_flag = 0,
     msg_send_delay = 10, led = False, EthInitStatus = 0, TCPTimer = 0, ARPTimer = 0\<rparr>"

lemma main_boot_inv: "fun_inv main_boot"
  using udp_boot_inv by (simp add: main_boot_def fun_inv_def usart_inv_def udp_st.defs)

lemma main_boot_queues:
  "ring_items (gndstatequeue main_boot) = []" "ring_items (gnd2WcsIntervalQueue main_boot) = []"
  "ring_items (msgSendQueue main_boot) = []" "ring_items (carSendQueue main_boot) = []" "repair_safe main_boot"
  by (simp_all add: main_boot_def udp_st.defs udp_boot_def fun_demo_defs ring_items_def ring_count_def repair_safe_def
      initQueue_def carinitQueue_def interval_init_def state_init_def)

theorem car_passage_recorded_witness:
  "\<exists>s'. EXTI4_IRQHandler True (\<lambda>k. k < 20) 0xDEAD 5 6 (main_boot\<lparr>cmd_carNo := - 1\<rparr>) = Inr s'
    \<and> map carnum (ring_items (gndstatequeue s')) = [0xDEAD]"
proof -
  have "repair_safe (main_boot\<lparr>cmd_carNo := - 1\<rparr>)" using main_boot_queues(5) by (simp add: repair_safe_def)
  then show ?thesis
    using car_passage_recorded [of "main_boot\<lparr>cmd_carNo := - 1\<rparr>" "\<lambda>k. k < 20" "0xDEAD" 5 6] main_boot_inv main_boot_queues
    by auto
qed

theorem ticks_keep_time_witness:
  "\<exists>s'. tick_run 100 (main_boot\<lparr>positionreset := 30\<rparr>) = Inr s' \<and> sec_flag s' = 1 \<and> LocalTime s' = 1000
    \<and> ring_items (carSendQueue s') = [CAR_MSG_GNDCTRL2WCS_CMD_INTERVAL_TYPE]"
proof -
  have "sec_reg (main_boot\<lparr>positionreset := 30\<rparr>) = 100" "LocalTime (main_boot\<lparr>positionreset := 30\<rparr>) = 0"
    by (simp_all add: main_boot_def udp_st.defs)
  then show ?thesis
    using ticks_keep_time [of "main_boot\<lparr>positionreset := 30\<rparr>" 100] main_boot_inv main_boot_queues by auto
qed

end
