(* ===== verification/Board.thy ===== *)
theory Board
  imports Usart
begin

text \<open>
  \<open>stm32f107.c\<close> and the constants of \<open>main.h\<close>: what the firmware programs into the peripherals.
  A configuration function is the list of its driver calls in the order of the code, with the
  fields of the structures they get. \<open>hw_step\<close> says what a call leaves in the registers, as the
  drivers do: a later call for the same pin, line, timer or interrupt replaces an earlier one.
\<close>

section \<open>Driver calls\<close>

datatype gpio_port = GPIOA | GPIOB | GPIOC | GPIOD | GPIOE
datatype gpio_mode = Mode_AF_PP | Mode_IN_FLOATING | Mode_Out_PP
datatype irq = ETH_IRQn | EXTI4_IRQn | EXTI9_5_IRQn | TIM2_IRQn | TIM3_IRQn | SysTick_IRQn
datatype timer = TIM2 | TIM3
datatype dma_channel = DMA1_Channel7 | DMA2_Channel5
datatype remap = Remap_ETH | Remap_USART2
datatype periph =
    Periph_TIM2 | Periph_TIM3 | Periph_USART1 | Periph_USART2 | Periph_UART4 | Periph_UART5 | Periph_PWR | Periph_BKP
  | Periph_DMA1 | Periph_DMA2 | Periph_ETH_MAC | Periph_ETH_MAC_Tx | Periph_ETH_MAC_Rx
  | Periph_GPIOA | Periph_GPIOB | Periph_GPIOC | Periph_GPIOD | Periph_GPIOE | Periph_AFIO

text \<open>The finite types of the interrupts and the ports: quantifiers over them are executable.\<close>

instantiation irq :: enum
begin

definition "enum_irq = [ETH_IRQn, EXTI4_IRQn, EXTI9_5_IRQn, TIM2_IRQn, TIM3_IRQn, SysTick_IRQn]"
definition "enum_all_irq P = (P ETH_IRQn \<and> P EXTI4_IRQn \<and> P EXTI9_5_IRQn \<and> P TIM2_IRQn \<and> P TIM3_IRQn \<and> P SysTick_IRQn)"
definition "enum_ex_irq P = (P ETH_IRQn \<or> P EXTI4_IRQn \<or> P EXTI9_5_IRQn \<or> P TIM2_IRQn \<or> P TIM3_IRQn \<or> P SysTick_IRQn)"

instance
proof
  have univ: "UNIV = set [ETH_IRQn, EXTI4_IRQn, EXTI9_5_IRQn, TIM2_IRQn, TIM3_IRQn, SysTick_IRQn]"
  proof (rule set_eqI)
    fix x show "x \<in> UNIV \<longleftrightarrow> x \<in> set [ETH_IRQn, EXTI4_IRQn, EXTI9_5_IRQn, TIM2_IRQn, TIM3_IRQn, SysTick_IRQn]" by (cases x) simp_all
  qed
  show "UNIV = set (enum_class.enum :: irq list)" unfolding enum_irq_def by (rule univ)
  show "distinct (enum_class.enum :: irq list)" by (simp add: enum_irq_def)
  show "enum_class.enum_all P = Ball UNIV P" "enum_class.enum_ex P = Bex UNIV P" for P :: "irq \<Rightarrow> bool"
    unfolding univ by (simp_all add: enum_all_irq_def enum_ex_irq_def)
qed

end

instantiation uart_port :: enum
begin

definition "enum_uart_port = [USART1, USART2, UART4, UART5]"
definition "enum_all_uart_port P = (P USART1 \<and> P USART2 \<and> P UART4 \<and> P UART5)"
definition "enum_ex_uart_port P = (P USART1 \<or> P USART2 \<or> P UART4 \<or> P UART5)"

instance
proof
  have univ: "UNIV = set [USART1, USART2, UART4, UART5]"
  proof (rule set_eqI)
    fix x show "x \<in> UNIV \<longleftrightarrow> x \<in> set [USART1, USART2, UART4, UART5]" by (cases x) simp_all
  qed
  show "UNIV = set (enum_class.enum :: uart_port list)" unfolding enum_uart_port_def by (rule univ)
  show "distinct (enum_class.enum :: uart_port list)" by (simp add: enum_uart_port_def)
  show "enum_class.enum_all P = Ball UNIV P" "enum_class.enum_ex P = Bex UNIV P" for P :: "uart_port \<Rightarrow> bool"
    unfolding univ by (simp_all add: enum_all_uart_port_def enum_ex_uart_port_def)
qed

end

record usart_cfg =
  baud :: nat
  word_bits :: nat
  even_parity :: bool
  stop_bits :: nat

record dma_cfg =
  dma_peripheral :: uart_port    \<comment> \<open>its data register\<close>
  dma_to_peripheral :: bool
  dma_buffer_size :: nat
  dma_memory_inc :: bool
  dma_bytes :: bool
  dma_circular :: bool

datatype eth_option =
    ETH_AutoNegotiation bool | ETH_LoopbackMode bool | ETH_RetryTransmission bool | ETH_AutomaticPadCRCStrip bool
  | ETH_ReceiveAll bool | ETH_BroadcastFramesReception bool | ETH_PromiscuousMode bool
  | ETH_MulticastFramesFilter_Perfect | ETH_UnicastFramesFilter_Perfect | ETH_ChecksumOffload bool
  | ETH_DropTCPIPChecksumErrorFrame bool | ETH_ReceiveStoreForward bool | ETH_TransmitStoreForward bool
  | ETH_ForwardErrorFrames bool | ETH_ForwardUndersizedGoodFrames bool | ETH_SecondFrameOperate bool
  | ETH_AddressAlignedBeats bool | ETH_FixedBurst bool | ETH_RxDMABurstLength nat | ETH_TxDMABurstLength nat
  | ETH_DMAArbitration_RoundRobin_RxTx_2_1

datatype hw_call =
    SystemInit
  | Clock_Enable "periph list"
  | NVIC_SetVectorTable u32
  | NVIC_PriorityGroup nat            \<comment> \<open>the bits of the preemption priority\<close>
  | NVIC_Init irq nat nat bool        \<comment> \<open>preemption priority, subpriority, enable\<close>
  | NVIC_SetPriority irq nat
  | GPIO_Init gpio_port "nat list" gpio_mode
  | GPIO_PinRemap remap
  | EXTI_LineConfig gpio_port nat
  | EXTI_ClearPending nat
  | EXTI_Init nat bool bool           \<comment> \<open>line, rising edge, enable\<close>
  | USART_Init uart_port usart_cfg
  | USART_DMACmd_Tx uart_port bool
  | USART_Cmd uart_port bool
  | DMA_DeInit dma_channel
  | DMA_Init dma_channel dma_cfg
  | DMA_ClearFlag_TC dma_channel
  | DMA_Cmd dma_channel bool
  | TIM_TimeBaseInit timer nat nat    \<comment> \<open>period, prescaler; up, no clock division\<close>
  | TIM_ARRPreloadConfig timer bool
  | TIM_ClearITPendingBit timer
  | TIM_ITConfig timer bool
  | TIM_Cmd timer bool
  | SysTick_Config nat
  | MediaInterface_MII
  | MCO_HSE
  | ETH_DeInit
  | ETH_SoftwareReset
  | ETH_Init "eth_option list" nat
  | ETH_DMAITConfig_NIS_R bool

section \<open>The configuration functions\<close>

definition TIM_Configuration :: "hw_call list" where
  "TIM_Configuration =
     [TIM_TimeBaseInit TIM2 65535 3600, TIM_ARRPreloadConfig TIM2 True, TIM_ClearITPendingBit TIM2, TIM_ITConfig TIM2 True,
      TIM_Cmd TIM2 True,
      TIM_TimeBaseInit TIM3 1000 (72 - 1), TIM_ARRPreloadConfig TIM3 True, TIM_ClearITPendingBit TIM3, TIM_ITConfig TIM3 True,
      TIM_Cmd TIM3 True]"

definition exti_line :: "gpio_port \<Rightarrow> nat \<Rightarrow> hw_call list" where
  "exti_line p n = [EXTI_LineConfig p n, EXTI_ClearPending n, EXTI_Init n True True]"

definition EXTI_Configuration :: "hw_call list" where
  "EXTI_Configuration = exti_line GPIOE 4 @ exti_line GPIOE 5 @ exti_line GPIOE 7"

abbreviation (input) "UART_BANDRATE \<equiv> 19200 :: nat"

text \<open>The settings for the ports of the inverters: the assignments before \<open>USART_Init\<close>.\<close>

definition inverter_cfg :: "u8 \<Rightarrow> usart_cfg" where
  "inverter_cfg ity =
     (if ity = 2 then \<lparr>baud = UART_BANDRATE, word_bits = 9, even_parity = True, stop_bits = 1\<rparr>
      else if ity = 3 \<or> ity = 4 then \<lparr>baud = 9600, word_bits = 8, even_parity = False, stop_bits = 1\<rparr>
      else \<lparr>baud = UART_BANDRATE, word_bits = 8, even_parity = False, stop_bits = 1\<rparr>)"

definition USART_Configuration :: "u8 \<Rightarrow> hw_call list" where
  "USART_Configuration ity =
     [USART_Init UART4 (inverter_cfg ity), USART_DMACmd_Tx UART4 False, USART_Cmd UART4 True,
      USART_Init UART5 \<lparr>baud = 38400, word_bits = 8, even_parity = False, stop_bits = 1\<rparr>, USART_Cmd UART5 True,
      USART_Init USART2 (inverter_cfg ity), USART_DMACmd_Tx USART2 False, USART_Cmd USART2 True,
      USART_Init USART1 (inverter_cfg ity), USART_Cmd USART1 True]"

definition dma_tx :: "uart_port \<Rightarrow> dma_cfg" where
  "dma_tx p = \<lparr>dma_peripheral = p, dma_to_peripheral = True, dma_buffer_size = 32, dma_memory_inc = True,
     dma_bytes = True, dma_circular = False\<rparr>"

definition DMA_Configuration :: "hw_call list" where
  "DMA_Configuration =
     [DMA_DeInit DMA1_Channel7, DMA_Init DMA1_Channel7 (dma_tx USART2), DMA_ClearFlag_TC DMA1_Channel7,
      DMA_Cmd DMA1_Channel7 False,
      DMA_DeInit DMA2_Channel5, DMA_Init DMA2_Channel5 (dma_tx UART4), DMA_ClearFlag_TC DMA2_Channel5,
      DMA_Cmd DMA2_Channel5 False]"

text \<open>All calls of \<open>GPIO_Init\<close> have the speed 50 MHz.\<close>

definition GPIO_Configuration :: "hw_call list" where
  "GPIO_Configuration =
     [GPIO_Init GPIOA [2] Mode_AF_PP,
      GPIO_Init GPIOC [1, 2] Mode_AF_PP,
      GPIO_Init GPIOB [5, 8, 11, 12, 13] Mode_AF_PP,
      GPIO_PinRemap Remap_ETH,
      GPIO_Init GPIOA [0, 1, 3] Mode_IN_FLOATING,
      GPIO_Init GPIOB [10] Mode_IN_FLOATING,
      GPIO_Init GPIOC [3] Mode_IN_FLOATING,
      GPIO_Init GPIOD [8, 9, 10, 11, 12] Mode_IN_FLOATING,
      GPIO_Init GPIOA [8] Mode_AF_PP,
      GPIO_Init GPIOC [8] Mode_Out_PP,
      GPIO_PinRemap Remap_USART2,
      GPIO_Init GPIOD [5] Mode_AF_PP,
      GPIO_Init GPIOD [6] Mode_IN_FLOATING,
      GPIO_Init GPIOC [10] Mode_AF_PP,
      GPIO_Init GPIOC [11] Mode_IN_FLOATING,
      GPIO_Init GPIOC [12] Mode_AF_PP,
      GPIO_Init GPIOD [2] Mode_IN_FLOATING,
      GPIO_Init GPIOA [9] Mode_AF_PP,
      GPIO_Init GPIOA [10] Mode_IN_FLOATING,
      GPIO_Init GPIOD [3, 4, 0] Mode_Out_PP,
      GPIO_Init GPIOA [11] Mode_Out_PP,
      GPIO_Init GPIOB [9] Mode_IN_FLOATING,
      GPIO_Init GPIOC [13] Mode_IN_FLOATING,
      GPIO_Init GPIOE [0, 1, 2, 3, 4, 5, 6, 7] Mode_IN_FLOATING,
      GPIO_Init GPIOA [4, 5, 6, 7] Mode_IN_FLOATING]"

text \<open>\<open>iap\<close>: the build for the boot loader defines \<open>IAP_MODE_SYS\<close>.\<close>

definition NVIC_Configuration :: "bool \<Rightarrow> hw_call list" where
  "NVIC_Configuration iap =
     [NVIC_SetVectorTable (if iap then 0x10000 else 0),
      NVIC_PriorityGroup 2,
      NVIC_Init ETH_IRQn 2 0 False,
      NVIC_Init EXTI4_IRQn 0 0 True,
      NVIC_Init EXTI9_5_IRQn 0 0 True,
      NVIC_PriorityGroup 2,
      NVIC_Init TIM2_IRQn 0 2 True,
      NVIC_PriorityGroup 2,
      NVIC_Init TIM3_IRQn 0 2 True]"

text \<open>The calls of \<open>System_Setup\<close>; \<open>scan_dip_state\<close>, which runs between \<open>GPIO_Configuration\<close> and
  \<open>EXTI_Configuration\<close>, has found the inverter type \<open>ity\<close>. \<open>sysclk\<close> is the clock \<open>RCC_GetClocksFreq\<close>
  reports.\<close>

definition System_Setup :: "bool \<Rightarrow> nat \<Rightarrow> u8 \<Rightarrow> hw_call list" where
  "System_Setup iap sysclk ity =
     [SystemInit,
      Clock_Enable [Periph_TIM2, Periph_TIM3, Periph_USART2, Periph_UART4, Periph_UART5, Periph_PWR, Periph_BKP],
      Clock_Enable [Periph_DMA1, Periph_DMA2, Periph_ETH_MAC, Periph_ETH_MAC_Tx, Periph_ETH_MAC_Rx],
      Clock_Enable [Periph_GPIOA, Periph_GPIOB, Periph_GPIOC, Periph_GPIOD, Periph_GPIOE, Periph_AFIO, Periph_USART1]]
     @ NVIC_Configuration iap @ GPIO_Configuration @ EXTI_Configuration @ USART_Configuration ity
     @ DMA_Configuration @ TIM_Configuration
     @ [SysTick_Config (sysclk div 1000), NVIC_SetPriority SysTick_IRQn 2]"

text \<open>The loop waits for the end of the reset of the Ethernet block; \<open>reset_ends\<close> says whether it
  comes. \<open>checksum\<close>: \<open>CHECKSUM_BY_HARDWARE\<close> is defined.\<close>

definition Ethernet_Configuration :: "bool \<Rightarrow> bool \<Rightarrow> hw_call list result" where
  "Ethernet_Configuration checksum reset_ends =
     (if \<not> reset_ends then Inl Hang
      else Inr ([MediaInterface_MII, MCO_HSE, ETH_DeInit, ETH_SoftwareReset,
        ETH_Init ([ETH_AutoNegotiation True, ETH_LoopbackMode False, ETH_RetryTransmission False,
            ETH_AutomaticPadCRCStrip False, ETH_ReceiveAll False, ETH_BroadcastFramesReception True,
            ETH_PromiscuousMode False, ETH_MulticastFramesFilter_Perfect, ETH_UnicastFramesFilter_Perfect]
          @ (if checksum then [ETH_ChecksumOffload True] else [])
          @ [ETH_DropTCPIPChecksumErrorFrame True, ETH_ReceiveStoreForward True, ETH_TransmitStoreForward True,
            ETH_ForwardErrorFrames False, ETH_ForwardUndersizedGoodFrames False, ETH_SecondFrameOperate True,
            ETH_AddressAlignedBeats True, ETH_FixedBurst True, ETH_RxDMABurstLength 32, ETH_TxDMABurstLength 32,
            ETH_DMAArbitration_RoundRobin_RxTx_2_1]) 1,
        ETH_DMAITConfig_NIS_R True]))"

text \<open>\<open>bsr\<close> is the register \<open>PHY_BSR\<close>; \<open>PHY_Linked_Status\<close> is its bit 2.\<close>

definition check_link :: "u16 \<Rightarrow> u32" where
  "check_link bsr = (if bsr AND 4 = 0 then 0 else 1)"

section \<open>What the calls leave in the registers\<close>

record board =
  pin_mode :: "gpio_port \<Rightarrow> nat \<Rightarrow> gpio_mode"
  line_port :: "nat \<Rightarrow> gpio_port option"
  line_on :: "nat \<Rightarrow> bool"
  preempt_bits :: nat
  preempt :: "irq \<Rightarrow> nat"
  subprio :: "irq \<Rightarrow> nat"
  irq_on :: "irq \<Rightarrow> bool"
  usart :: "uart_port \<Rightarrow> usart_cfg option"
  usart_on :: "uart_port \<Rightarrow> bool"
  timer_cfg :: "timer \<Rightarrow> (nat \<times> nat) option"
  timer_on :: "timer \<Rightarrow> bool"
  timer_it :: "timer \<Rightarrow> bool"
  systick_reload :: nat

text \<open>After a reset every pin is a floating input and nothing is enabled.\<close>

definition board_reset :: board where
  "board_reset = \<lparr>pin_mode = (\<lambda>p n. Mode_IN_FLOATING), line_port = (\<lambda>n. None), line_on = (\<lambda>n. False), preempt_bits = 0,
     preempt = (\<lambda>i. 0), subprio = (\<lambda>i. 0), irq_on = (\<lambda>i. False), usart = (\<lambda>p. None), usart_on = (\<lambda>p. False),
     timer_cfg = (\<lambda>t. None), timer_on = (\<lambda>t. False), timer_it = (\<lambda>t. False), systick_reload = 0\<rparr>"

text \<open>A priority has four bits; the upper \<open>preempt_bits\<close> of them are the preemption priority.\<close>

definition set_priority :: "irq \<Rightarrow> nat \<Rightarrow> board \<Rightarrow> board" where
  "set_priority i p b = b\<lparr>preempt := (preempt b)(i := p div 2 ^ (4 - preempt_bits b)),
     subprio := (subprio b)(i := p mod 2 ^ (4 - preempt_bits b))\<rparr>"

fun hw_step :: "hw_call \<Rightarrow> board \<Rightarrow> board" where
  "hw_step (GPIO_Init p ns m) b = b\<lparr>pin_mode := (pin_mode b)(p := (\<lambda>n. if n \<in> set ns then m else pin_mode b p n))\<rparr>"
| "hw_step (EXTI_LineConfig p n) b = b\<lparr>line_port := (line_port b)(n := Some p)\<rparr>"
| "hw_step (EXTI_Init n rising on) b = b\<lparr>line_on := (line_on b)(n := on)\<rparr>"
| "hw_step (NVIC_PriorityGroup g) b = b\<lparr>preempt_bits := g\<rparr>"
| "hw_step (NVIC_Init i pre sub on) b =
     (if on then (set_priority i (pre * 2 ^ (4 - preempt_bits b) + sub) b)\<lparr>irq_on := (irq_on b)(i := True)\<rparr>
      else b\<lparr>irq_on := (irq_on b)(i := False)\<rparr>)"
| "hw_step (NVIC_SetPriority i p) b = set_priority i p b"
| "hw_step (SysTick_Config n) b = (set_priority SysTick_IRQn 15 b)\<lparr>irq_on := (irq_on b)(SysTick_IRQn := True), systick_reload := n\<rparr>"
| "hw_step (USART_Init p c) b = b\<lparr>usart := (usart b)(p := Some c)\<rparr>"
| "hw_step (USART_Cmd p on) b = b\<lparr>usart_on := (usart_on b)(p := on)\<rparr>"
| "hw_step (TIM_TimeBaseInit t period prescaler) b = b\<lparr>timer_cfg := (timer_cfg b)(t := Some (period, prescaler))\<rparr>"
| "hw_step (TIM_ITConfig t on) b = b\<lparr>timer_it := (timer_it b)(t := on)\<rparr>"
| "hw_step (TIM_Cmd t on) b = b\<lparr>timer_on := (timer_on b)(t := on)\<rparr>"
| "hw_step _ b = b"

definition hw_run :: "hw_call list \<Rightarrow> board \<Rightarrow> board" where
  "hw_run cs b = fold hw_step cs b"

text \<open>\<open>i\<close> can interrupt the handler of \<open>j\<close>; a board on which no handler is ever interrupted.\<close>

definition preempts :: "board \<Rightarrow> irq \<Rightarrow> irq \<Rightarrow> bool" where
  "preempts b i j \<longleftrightarrow> irq_on b i \<and> irq_on b j \<and> preempt b i < preempt b j"

definition nesting_free :: "board \<Rightarrow> bool" where
  "nesting_free b \<longleftrightarrow> (\<forall>i j. \<not> preempts b i j)"

text \<open>The pins \<open>main.h\<close> names: the switches IN1 to IN10, the DIP switches, the light-emitting diode and
  the direction pins of the RS-485 drivers.\<close>

definition switch_pins :: "(gpio_port \<times> nat) list" where
  "switch_pins = [(GPIOB, 9), (GPIOE, 0), (GPIOE, 1), (GPIOE, 2), (GPIOE, 3), (GPIOE, 4), (GPIOE, 5), (GPIOE, 6),
     (GPIOC, 13), (GPIOE, 7)]"

definition dip_pins :: "(gpio_port \<times> nat) list" where
  "dip_pins = [(GPIOA, 4), (GPIOA, 5), (GPIOA, 6), (GPIOA, 7)]"

definition led_pin :: "gpio_port \<times> nat" where "led_pin = (GPIOC, 8)"

definition rs485_pin :: "uart_port \<Rightarrow> gpio_port \<times> nat" where
  "rs485_pin p = (case p of UART5 \<Rightarrow> (GPIOD, 3) | USART2 \<Rightarrow> (GPIOD, 4) | UART4 \<Rightarrow> (GPIOD, 0) | USART1 \<Rightarrow> (GPIOA, 11))"


text \<open>The transmit pins of the ports, with \<open>USART2\<close> remapped.\<close>

definition usart_tx_pin :: "uart_port \<Rightarrow> gpio_port \<times> nat" where
  "usart_tx_pin p = (case p of UART4 \<Rightarrow> (GPIOC, 10) | UART5 \<Rightarrow> (GPIOC, 12) | USART2 \<Rightarrow> (GPIOD, 5) | USART1 \<Rightarrow> (GPIOA, 9))"

section \<open>The configured board\<close>

definition configured :: "bool \<Rightarrow> nat \<Rightarrow> u8 \<Rightarrow> board" where
  "configured iap sysclk ity = hw_run (System_Setup iap sysclk ity) board_reset"

lemmas configuration_defs = System_Setup_def NVIC_Configuration_def GPIO_Configuration_def EXTI_Configuration_def
  exti_line_def USART_Configuration_def DMA_Configuration_def TIM_Configuration_def

text \<open>One register of the board after a list of calls: only the calls for this register matter.\<close>

lemma hw_run_view: "(\<And>c b. v (hw_step c b) = g c (v b)) \<Longrightarrow> v (hw_run cs b) = fold g cs (v b)"
  by (induction cs arbitrary: b) (simp_all add: hw_run_def)

fun pin_view :: "gpio_port \<Rightarrow> nat \<Rightarrow> hw_call \<Rightarrow> gpio_mode \<Rightarrow> gpio_mode" where
  "pin_view p n (GPIO_Init q ns m) x = (if q = p \<and> n \<in> set ns then m else x)"
| "pin_view p n _ x = x"

fun irq_view :: "irq \<Rightarrow> hw_call \<Rightarrow> nat \<times> nat \<times> bool \<Rightarrow> nat \<times> nat \<times> bool" where
  "irq_view i (NVIC_PriorityGroup g) (bits, pre, on) = (g, pre, on)"
| "irq_view i (NVIC_Init j p sub e) (bits, pre, on) =
     (if j = i then if e then (bits, (p * 2 ^ (4 - bits) + sub) div 2 ^ (4 - bits), True) else (bits, pre, False)
      else (bits, pre, on))"
| "irq_view i (NVIC_SetPriority j p) (bits, pre, on) = (if j = i then (bits, p div 2 ^ (4 - bits), on) else (bits, pre, on))"
| "irq_view i (SysTick_Config n) (bits, pre, on) = (if i = SysTick_IRQn then (bits, 15 div 2 ^ (4 - bits), True) else (bits, pre, on))"
| "irq_view i _ x = x"

fun usart_view :: "uart_port \<Rightarrow> hw_call \<Rightarrow> usart_cfg option \<times> bool \<Rightarrow> usart_cfg option \<times> bool" where
  "usart_view p (USART_Init q c) (x, on) = (if q = p then (Some c, on) else (x, on))"
| "usart_view p (USART_Cmd q e) (x, on) = (if q = p then (x, e) else (x, on))"
| "usart_view p _ x = x"

fun line_view :: "nat \<Rightarrow> hw_call \<Rightarrow> gpio_port option \<times> bool \<Rightarrow> gpio_port option \<times> bool" where
  "line_view n (EXTI_LineConfig p m) (x, on) = (if m = n then (Some p, on) else (x, on))"
| "line_view n (EXTI_Init m r e) (x, on) = (if m = n then (x, e) else (x, on))"
| "line_view n _ x = x"

fun timer_view :: "timer \<Rightarrow> hw_call \<Rightarrow> (nat \<times> nat) option \<times> bool \<times> bool \<Rightarrow> (nat \<times> nat) option \<times> bool \<times> bool" where
  "timer_view t (TIM_TimeBaseInit u period prescaler) (x, it, on) = (if u = t then (Some (period, prescaler), it, on) else (x, it, on))"
| "timer_view t (TIM_ITConfig u e) (x, it, on) = (if u = t then (x, e, on) else (x, it, on))"
| "timer_view t (TIM_Cmd u e) (x, it, on) = (if u = t then (x, it, e) else (x, it, on))"
| "timer_view t _ x = x"

lemma views:
  "pin_mode (hw_step c b) p n = pin_view p n c (pin_mode b p n)"
  "(preempt_bits (hw_step c b), preempt (hw_step c b) i, irq_on (hw_step c b) i)
     = irq_view i c (preempt_bits b, preempt b i, irq_on b i)"
  "(usart (hw_step c b) q, usart_on (hw_step c b) q) = usart_view q c (usart b q, usart_on b q)"
  "(line_port (hw_step c b) n, line_on (hw_step c b) n) = line_view n c (line_port b n, line_on b n)"
  "(timer_cfg (hw_step c b) t, timer_it (hw_step c b) t, timer_on (hw_step c b) t)
     = timer_view t c (timer_cfg b t, timer_it b t, timer_on b t)"
  by (cases c; simp add: set_priority_def)+

lemma configured_views:
  "pin_mode (configured iap sysclk ity) p n = fold (pin_view p n) (System_Setup iap sysclk ity) Mode_IN_FLOATING"
  "(preempt_bits (configured iap sysclk ity), preempt (configured iap sysclk ity) i, irq_on (configured iap sysclk ity) i)
     = fold (irq_view i) (System_Setup iap sysclk ity) (0, 0, False)"
  "(usart (configured iap sysclk ity) q, usart_on (configured iap sysclk ity) q)
     = fold (usart_view q) (System_Setup iap sysclk ity) (None, False)"
  "(line_port (configured iap sysclk ity) n, line_on (configured iap sysclk ity) n)
     = fold (line_view n) (System_Setup iap sysclk ity) (None, False)"
  "(timer_cfg (configured iap sysclk ity) t, timer_it (configured iap sysclk ity) t, timer_on (configured iap sysclk ity) t)
     = fold (timer_view t) (System_Setup iap sysclk ity) (None, False, False)"
proof -
  let ?cs = "System_Setup iap sysclk ity"
  show "pin_mode (configured iap sysclk ity) p n = fold (pin_view p n) ?cs Mode_IN_FLOATING"
    using hw_run_view [of "\<lambda>b. pin_mode b p n", OF views(1), of ?cs board_reset] by (simp add: configured_def board_reset_def)
  show "(preempt_bits (configured iap sysclk ity), preempt (configured iap sysclk ity) i, irq_on (configured iap sysclk ity) i)
     = fold (irq_view i) ?cs (0, 0, False)"
    using hw_run_view [of "\<lambda>b. (preempt_bits b, preempt b i, irq_on b i)", OF views(2), of ?cs board_reset]
    by (simp add: configured_def board_reset_def)
  show "(usart (configured iap sysclk ity) q, usart_on (configured iap sysclk ity) q) = fold (usart_view q) ?cs (None, False)"
    using hw_run_view [of "\<lambda>b. (usart b q, usart_on b q)", OF views(3), of ?cs board_reset]
    by (simp add: configured_def board_reset_def)
  show "(line_port (configured iap sysclk ity) n, line_on (configured iap sysclk ity) n) = fold (line_view n) ?cs (None, False)"
    using hw_run_view [of "\<lambda>b. (line_port b n, line_on b n)", OF views(4), of ?cs board_reset]
    by (simp add: configured_def board_reset_def)
  show "(timer_cfg (configured iap sysclk ity) t, timer_it (configured iap sysclk ity) t, timer_on (configured iap sysclk ity) t)
     = fold (timer_view t) ?cs (None, False, False)"
    using hw_run_view [of "\<lambda>b. (timer_cfg b t, timer_it b t, timer_on b t)", OF views(5), of ?cs board_reset]
    by (simp add: configured_def board_reset_def)
qed

lemma configured_irq:
  "(preempt_bits (configured iap sysclk ity), preempt (configured iap sysclk ity) i, irq_on (configured iap sysclk ity) i)
     = (2, 0, i \<noteq> ETH_IRQn)"
  unfolding configured_views configuration_defs by (cases i) simp_all

lemma configured_usart:
  "(usart (configured iap sysclk ity) q, usart_on (configured iap sysclk ity) q)
     = (Some (if q = UART5 then \<lparr>baud = 38400, word_bits = 8, even_parity = False, stop_bits = 1\<rparr> else inverter_cfg ity), True)"
  unfolding configured_views configuration_defs by (cases q) simp_all

lemma configured_line:
  "(line_port (configured iap sysclk ity) n, line_on (configured iap sysclk ity) n)
     = (if n \<in> {4, 5, 7} then (Some GPIOE, True) else (None, False))"
  unfolding configured_views configuration_defs by simp

lemma configured_timer:
  "(timer_cfg (configured iap sysclk ity) t, timer_it (configured iap sysclk ity) t, timer_on (configured iap sysclk ity) t)
     = (Some (case t of TIM2 \<Rightarrow> (65535, 3600) | TIM3 \<Rightarrow> (1000, 71)), True, True)"
  unfolding configured_views configuration_defs by (cases t) simp_all

lemma configured_pin_list:
  "list_all (\<lambda>(p, n). pin_mode (configured iap sysclk ity) p n = Mode_IN_FLOATING) (switch_pins @ dip_pins)"
  "list_all (\<lambda>(p, n). pin_mode (configured iap sysclk ity) p n = Mode_Out_PP) (led_pin # map rs485_pin [UART4, UART5, USART2, USART1])"
  "list_all (\<lambda>(p, n). pin_mode (configured iap sysclk ity) p n = Mode_AF_PP) (map usart_tx_pin [UART4, UART5, USART2, USART1])"
  unfolding configured_views configuration_defs
  by (simp_all add: switch_pins_def dip_pins_def led_pin_def rs485_pin_def usart_tx_pin_def)

section \<open>Properties\<close>

text \<open>C34: No interrupt of the firmware preempts another: after \<open>System_Setup\<close> the switches, the two timers
  and the system timer are enabled, the Ethernet interrupt is not, and all enabled interrupts have
  the preemption priority 0, so a handler runs to its end before the next one starts.\<close>

theorem handlers_do_not_nest:
  "let b = hw_run (System_Setup iap sysclk ity) board_reset in
     nesting_free b \<and> (\<forall>i. irq_on b i = (i \<noteq> ETH_IRQn) \<and> preempt b i = 0)"
proof -
  have "irq_on (configured iap sysclk ity) i = (i \<noteq> ETH_IRQn) \<and> preempt (configured iap sysclk ity) i = 0" for i
    using configured_irq [of iap sysclk ity i] by simp
  then show ?thesis
    unfolding configured_def [symmetric] Let_def by (simp add: nesting_free_def preempts_def)
qed

text \<open>The pins and ports fit their use: after \<open>System_Setup\<close> all switch and DIP pins are inputs, the
  LED and the direction pins of the RS-485 drivers are outputs and the transmit pins belong to their
  ports; exactly the lines 4, 5 and 7 interrupt, from port E; and every port runs, UART5 with 38400
  baud and the ports of the inverters with the format of the inverter that the DIP switches select.\<close>

theorem ports_fit_use:
  "let b = hw_run (System_Setup iap sysclk ity) board_reset in
     list_all (\<lambda>(p, n). pin_mode b p n = Mode_IN_FLOATING) (switch_pins @ dip_pins)
     \<and> list_all (\<lambda>(p, n). pin_mode b p n = Mode_Out_PP) (led_pin # map rs485_pin [UART4, UART5, USART2, USART1])
     \<and> list_all (\<lambda>(p, n). pin_mode b p n = Mode_AF_PP) (map usart_tx_pin [UART4, UART5, USART2, USART1])
     \<and> (\<forall>n. line_on b n = (n \<in> {4, 5, 7}) \<and> line_port b n = (if n \<in> {4, 5, 7} then Some GPIOE else None))
     \<and> (\<forall>p. usart_on b p \<and> usart b p = Some (if p = UART5 then \<lparr>baud = 38400, word_bits = 8, even_parity = False, stop_bits = 1\<rparr>
          else \<lparr>baud = if ity = 3 \<or> ity = 4 then 9600 else 19200, word_bits = if ity = 2 then 9 else 8,
                 even_parity = (ity = 2), stop_bits = 1\<rparr>))"
proof -
  have u: "inverter_cfg ity = \<lparr>baud = if ity = 3 \<or> ity = 4 then 9600 else 19200, word_bits = if ity = 2 then 9 else 8,
                 even_parity = (ity = 2), stop_bits = 1\<rparr>"
    by (simp add: inverter_cfg_def)
  have l: "line_on (configured iap sysclk ity) n = (n \<in> {4, 5, 7})
      \<and> line_port (configured iap sysclk ity) n = (if n \<in> {4, 5, 7} then Some GPIOE else None)" for n
    using configured_line [of iap sysclk ity n] by (auto split: if_splits)
  show ?thesis
    unfolding configured_def [symmetric] Let_def u [symmetric]
    using configured_pin_list [of iap sysclk ity] l configured_usart [of iap sysclk ity] by blast
qed

text \<open>The time of one count of a timer with the clock \<open>mhz\<close>, in microseconds.\<close>

definition tick_us :: "nat \<Rightarrow> board \<Rightarrow> timer \<Rightarrow> rat" where
  "tick_us mhz b t = (case timer_cfg b t of None \<Rightarrow> 0 | Some (period, prescaler) \<Rightarrow> of_nat (prescaler + 1) / of_nat mhz)"

definition overflow_us :: "nat \<Rightarrow> board \<Rightarrow> timer \<Rightarrow> rat" where
  "overflow_us mhz b t = (case timer_cfg b t of None \<Rightarrow> 0 | Some (period, prescaler) \<Rightarrow> of_nat (period + 1) * tick_us mhz b t)"

text \<open>The time bases, with the timer clock of 72 MHz: TIM2 counts every \<open>3601/72\<close> microseconds and not
  every 50 (its prescaler is one too large), so a time of \<open>cnt\<close> counts is taken for at most \<open>cnt/72\<close>
  microseconds too short; TIM2 overflows after 65536 counts, and TIM3 after 1001 microseconds.\<close>

theorem timer_bases:
  "let b = hw_run (System_Setup iap sysclk ity) board_reset in
     tick_us 72 b TIM2 = 3601 / 72 \<and> of_nat cnt * tick_us 72 b TIM2 - of_nat (cnt * 50) = of_nat cnt / 72
     \<and> overflow_us 72 b TIM2 = 65536 * tick_us 72 b TIM2 \<and> overflow_us 72 b TIM3 = 1001
     \<and> timer_it b t \<and> timer_on b t"
proof -
  have t: "timer_cfg (configured iap sysclk ity) t = Some (case t of TIM2 \<Rightarrow> (65535, 3600) | TIM3 \<Rightarrow> (1000, 71))"
    "timer_it (configured iap sysclk ity) t" "timer_on (configured iap sysclk ity) t" for t
    using configured_timer [of iap sysclk ity t] by simp_all
  show ?thesis
    unfolding configured_def [symmetric] Let_def using t(2,3) [of t] by (simp add: tick_us_def overflow_us_def t field_simps)
qed

end
