(* ===== verification/MainLoop.thy ===== *)
theory MainLoop
  imports Interrupts Board
begin

text \<open>
  \<open>main.c\<close>, \<open>netconf.c\<close> and \<open>delay.c\<close>: initialisation, the main loop and its tasks. What the hardware
  and lwIP answer in one pass of the loop is the record \<open>loop_env\<close>. The interrupts of \<open>Interrupts\<close>
  can arrive between any two tasks of a pass: that is the relation \<open>reach\<close>.
\<close>

section \<open>The DIP switches\<close>

text \<open>The loop of \<open>scan_dip_state\<close>: \<open>samples n\<close> are the three pins at the \<open>n\<close>-th round, \<open>dip\<close> is the
  variable \<open>dip_value\<close>, which starts uninitialised. The result is the number of rounds and the value.\<close>

definition add_dip :: "bool \<times> bool \<times> bool \<Rightarrow> u8 \<Rightarrow> u8" where
  "add_dip pins tmp = (case pins of (d1, d2, d3) \<Rightarrow>
     let tmp = (if d1 then tmp OR 1 else tmp); tmp = (if d2 then tmp OR 2 else tmp)
     in if d3 then tmp OR 4 else tmp)"

definition dip_missing :: "u8 \<Rightarrow> nat" where
  "dip_missing tmp = of_bool (\<not> bit tmp 0) + of_bool (\<not> bit tmp 1) + of_bool (\<not> bit tmp 2)"

lemma bit_add_dip:
  "bit (add_dip (d1, d2, d3) tmp) n = (bit tmp n \<or> d1 \<and> n = 0 \<or> d2 \<and> n = 1 \<or> d3 \<and> n = 2)"
proof -
  have two: "bit (2 :: u8) n = (n = 1)" and four: "bit (4 :: u8) n = (n = 2)"
    using bit_exp_iff [where ?'a = u8 and m = 1 and n = n] bit_exp_iff [where ?'a = u8 and m = 2 and n = n] by auto
  show ?thesis by (auto simp: add_dip_def Let_def bit_or_iff bit_1_iff two four simp del: bit_numeral_word_iff)
qed

lemma add_dip_progress:
  "dip_missing (add_dip pins tmp) \<le> dip_missing tmp"
  "add_dip pins tmp \<noteq> tmp \<Longrightarrow> dip_missing (add_dip pins tmp) < dip_missing tmp"
proof -
  obtain d1 d2 d3 where p: "pins = (d1, d2, d3)" by (cases pins)
  show "dip_missing (add_dip pins tmp) \<le> dip_missing tmp"
    by (auto simp: p dip_missing_def bit_add_dip)
  assume "add_dip pins tmp \<noteq> tmp"
  then obtain n where n: "bit (add_dip pins tmp) n \<noteq> bit tmp n" by (metis bit_eq_iff)
  then have "n = 0 \<or> n = 1 \<or> n = 2" "\<not> bit tmp n" by (auto simp: p bit_add_dip)
  then show "dip_missing (add_dip pins tmp) < dip_missing tmp"
    using n by (auto simp: p dip_missing_def bit_add_dip)
qed

function scan_dip :: "(nat \<Rightarrow> bool \<times> bool \<times> bool) \<Rightarrow> nat \<Rightarrow> nat \<Rightarrow> u8 \<Rightarrow> u8 \<Rightarrow> nat \<times> u8" where
  "scan_dip samples n i tmp dip =
     (if 20 \<le> i then (n, dip)
      else let tmp' = add_dip (samples n) tmp in
           if dip \<noteq> tmp' then scan_dip samples (Suc n) 1 tmp' tmp'
           else scan_dip samples (Suc n) (Suc i) tmp' dip)"
  by pat_completeness auto
termination
proof (relation "measures [\<lambda>(samples, n, i, tmp, dip). dip_missing tmp + of_bool (dip \<noteq> tmp), \<lambda>(samples, n, i, tmp, dip). 20 - i]",
    goal_cases)
  case (2 samples n i tmp dip x)
  then show ?case
    using add_dip_progress(1) [of "samples n" tmp] add_dip_progress(2) [of "samples n" tmp]
    by (cases "add_dip (samples n) tmp = tmp") auto
next
  case (3 samples n i tmp dip x)
  then show ?case
    using add_dip_progress(2) [of "samples n" tmp]
    by (cases "add_dip (samples n) tmp = tmp") auto
qed simp

declare scan_dip.simps [simp del]

definition scan_dip_state :: "(nat \<Rightarrow> bool \<times> bool \<times> bool) \<Rightarrow> u8 \<Rightarrow> 'a fun_st_scheme \<Rightarrow> 'a fun_st_scheme" where
  "scan_dip_state samples junk s =
     (let dip_value = snd (scan_dip samples 0 0 0 junk)
      in s\<lparr>inverter_type := NOT dip_value AND 7, version := (version s)[0 := 13, 1 := 0, 2 := 0, 3 := 2]\<rparr>)"

section \<open>The tasks of the main loop\<close>

definition sec_process :: "'a main_st_scheme \<Rightarrow> 'a main_st_scheme result" where
  "sec_process s =
     (if sec_flag s = 1 then
        let s = s\<lparr>sec_flag := 0\<rparr>;
            s = (if heart_dely s \<noteq> 0 then s\<lparr>heart_dely := heart_dely s - 1\<rparr> else s);
            s = (if led s then s\<lparr>led := False\<rparr> else s\<lparr>led := True\<rparr>)
        in if servo_start s = 0 \<and> repair_flag s = 0 then RS485_OUT (uint (fwInitHz s)) s else Inr s
      else Inr s)"

definition LwIP_Init :: "'a udp_st_scheme \<Rightarrow> 'a udp_st_scheme" where
  "LwIP_Init s = s\<lparr>net_log := net_log s @
     [Mem_Init, Memp_Init, Set_MAC_Address [0, 0, 0, 0, 0, 3],
      Netif_Add [192, 168, 10, 100] [255, 255, 255, 0] [192, 168, 10, 1], Netif_Set_Default, Netif_Set_Up]\<rparr>"

text \<open>\<open>ethernetif_input\<close> hands the datagrams in the received packet to the callback.\<close>

type_synonym datagram = "u16 \<times> u32 \<times> u8 list \<times> u16"

fun LwIP_Pkt_Handle :: "datagram list \<Rightarrow> 'a udp_st_scheme \<Rightarrow> 'a udp_st_scheme result" where
  "LwIP_Pkt_Handle [] s = Inr s"
| "LwIP_Pkt_Handle ((port, addr, payload, tot_len) # ds) s =
     and_then (udp_receive_callback port addr payload tot_len s) (LwIP_Pkt_Handle ds)"

abbreviation (input) "TCP_TMR_INTERVAL \<equiv> 25 :: u32"
abbreviation (input) "ARP_TMR_INTERVAL \<equiv> 5000 :: u32"

definition LwIP_Periodic_Handle :: "u32 \<Rightarrow> 'a main_st_scheme \<Rightarrow> 'a main_st_scheme" where
  "LwIP_Periodic_Handle localtime s =
     (let s = (if localtime - TCPTimer s \<ge> TCP_TMR_INTERVAL then log_net Tcp_Tmr (s\<lparr>TCPTimer := localtime\<rparr>) else s)
      in if localtime - ARPTimer s \<ge> ARP_TMR_INTERVAL then log_net Etharp_Tmr (s\<lparr>ARPTimer := localtime\<rparr>) else s)"

record loop_env =
  reset_ends :: bool           \<comment> \<open>the reset of the Ethernet block ends\<close>
  eth_init_status :: u32       \<comment> \<open>the result of \<open>ETH_Init\<close>\<close>
  rx_size :: u32               \<comment> \<open>\<open>ETH_GetRxPktSize\<close>\<close>
  datagrams :: "datagram list" \<comment> \<open>in the packet \<open>ethernetif_input\<close> takes\<close>
  lwip_results :: lwip

datatype task =
    T_Ethernet | T_Receive | T_Periodic | T_Udp | T_Send | T_State | T_Car | T_CarThree | T_CarTwo | T_Second

fun run_task :: "loop_env \<Rightarrow> task \<Rightarrow> 'a main_st_scheme \<Rightarrow> 'a main_st_scheme result" where
  "run_task env T_Ethernet s =
     and_then (Ethernet_Configuration True (reset_ends env)) (\<lambda>_.
       let s = s\<lparr>EthInitStatus := eth_init_status env\<rparr> in
       if EthInitStatus s \<noteq> 0 then Inr (LwIP_Init s) else Inr s)"
| "run_task env T_Receive s = (if rx_size env \<noteq> 0 then LwIP_Pkt_Handle (datagrams env) s else Inr s)"
| "run_task env T_Periodic s = Inr (LwIP_Periodic_Handle (LocalTime s) s)"
| "run_task env T_Udp s = udp_client_process (lwip_results env) s"
| "run_task env T_Send s = send_message_to_sever s"
| "run_task env T_State s = fun_gnd2wcs_state_msg s"
| "run_task env T_Car s = carsend_message_to_sever s"
| "run_task env T_CarThree s = carthreesend_message_to_sever s"
| "run_task env T_CarTwo s = cartwosend_message_to_sever s"
| "run_task env T_Second s = sec_process s"

text \<open>\<open>stm32f107.c\<close>; no task calls it.\<close>

definition check_ETH_link :: "u16 \<Rightarrow> 'a main_st_scheme \<Rightarrow> 'a main_st_scheme" where
  "check_ETH_link bsr s = s\<lparr>EthInitStatus := check_link bsr\<rparr>"

text \<open>The tasks of one pass, chosen by \<open>EthInitStatus\<close>.\<close>

definition main_tasks :: "'a main_st_scheme \<Rightarrow> task list" where
  "main_tasks s =
     (if EthInitStatus s = 0 then [T_Ethernet, T_Second]
      else [T_Receive, T_Periodic, T_Udp, T_Send, T_State, T_Car, T_CarThree, T_CarTwo, T_Second])"

fun run_tasks :: "loop_env \<Rightarrow> task list \<Rightarrow> 'a main_st_scheme \<Rightarrow> 'a main_st_scheme result" where
  "run_tasks env [] s = Inr s"
| "run_tasks env (t # ts) s = and_then (run_task env t s) (run_tasks env ts)"

definition main_pass :: "loop_env \<Rightarrow> 'a main_st_scheme \<Rightarrow> 'a main_st_scheme result" where
  "main_pass env s = run_tasks env (main_tasks s) s"

section \<open>Initialisation\<close>

text \<open>\<open>main\<close> up to its loop. The first scan is the one in \<open>System_Setup\<close>, whose driver calls are in
  \<open>Board\<close>; the ports are configured for the type it finds.\<close>

definition main_init ::
  "(nat \<Rightarrow> bool \<times> bool \<times> bool) \<Rightarrow> u8 \<Rightarrow> (nat \<Rightarrow> bool \<times> bool \<times> bool) \<Rightarrow> u8 \<Rightarrow> 'a main_st_scheme
   \<Rightarrow> u8 \<times> 'a main_st_scheme" where
  "main_init samples junk samples' junk' s =
     (let s = scan_dip_state samples junk s;
          ports = inverter_type s;
          s = InitSendMsgQueue s;
          s = InitGnd2WcsIntervalQueue s;
          s = scan_dip_state samples' junk' s;
          s = InitGnd2WcsStateQueue s;
          s = s\<lparr>cmd_speed := 0\<rparr>;
          s = carInitSendMsgQueue s;
          s = carthreeInitSendMsgQueue s;
          s = cartwoInitSendMsgQueue s
      in (ports, s))"

section \<open>Delays\<close>

text \<open>\<open>Delay\<close> waits for ticks; \<open>fuel\<close> bounds their number, \<open>None\<close> says that it has not returned
  within them.\<close>

fun delay_wait :: "nat \<Rightarrow> 'a main_st_scheme \<Rightarrow> 'a main_st_scheme result option" where
  "delay_wait fuel s =
     (if timingdelay s > LocalTime s then
        (case fuel of 0 \<Rightarrow> None
         | Suc n \<Rightarrow> (case SysTick_Handler s of Inl f \<Rightarrow> Some (Inl f) | Inr t \<Rightarrow> delay_wait n t))
      else Some (Inr s))"

definition Delay :: "nat \<Rightarrow> u32 \<Rightarrow> 'a main_st_scheme \<Rightarrow> 'a main_st_scheme result option" where
  "Delay fuel nCount s = delay_wait fuel (s\<lparr>timingdelay := LocalTime s + nCount\<rparr>)"


text \<open>\<open>delay.c\<close>: the two multipliers, and a wait on the system timer. \<open>ctrl n\<close> is the \<open>n\<close>-th value read from
  \<open>SysTick->CTRL\<close>; the result is the value written to \<open>LOAD\<close> and the number of readings until the
  timer is off or has reached 0, \<open>None\<close> if that does not happen within \<open>fuel\<close> readings.\<close>

record delay_st =
  fac_us :: u8
  fac_ms :: u16

definition delay_init :: "nat \<Rightarrow> delay_st" where
  "delay_init SystemFrequency =
     (let us = of_nat (SystemFrequency div 8000000) in \<lparr>fac_us = us, fac_ms = ucast us * 1000\<rparr>)"

fun poll_ctrl :: "nat \<Rightarrow> (nat \<Rightarrow> u32) \<Rightarrow> nat \<Rightarrow> nat option" where
  "poll_ctrl 0 ctrl n = None"
| "poll_ctrl (Suc fuel) ctrl n =
     (let temp = ctrl n in if bit temp 0 \<and> \<not> bit temp 16 then poll_ctrl fuel ctrl (Suc n) else Some (Suc n))"

definition delay_us :: "nat \<Rightarrow> (nat \<Rightarrow> u32) \<Rightarrow> u32 \<Rightarrow> delay_st \<Rightarrow> u32 \<times> nat option" where
  "delay_us fuel ctrl nus d = (nus * ucast (fac_us d), poll_ctrl fuel ctrl 0)"

definition delay_ms :: "nat \<Rightarrow> (nat \<Rightarrow> u32) \<Rightarrow> u16 \<Rightarrow> delay_st \<Rightarrow> u32 \<times> nat option" where
  "delay_ms fuel ctrl nms d = (ucast nms * ucast (fac_ms d), poll_ctrl fuel ctrl 0)"

text \<open>A wait of \<open>nCount\<close> milliseconds ends after \<open>nCount div 10\<close> ticks, rounded up, if the clock does not
  wrap before; when the target wraps around the 32 bits, \<open>Delay\<close> does not wait at all.\<close>

lemma tick_delay: "SysTick_Handler s = Inr s' \<Longrightarrow> timingdelay s' = timingdelay s"
  by (auto simp: SysTick_Handler_def Time_Update_def queue_ops run_simps split: if_splits)

declare delay_wait.simps [simp del]

lemma delay_wait_done: "\<not> timingdelay s > LocalTime s \<Longrightarrow> delay_wait n s = Some (Inr s)"
  by (subst delay_wait.simps) simp

lemma delay_wait_tick: "timingdelay s > LocalTime s \<Longrightarrow> SysTick_Handler s = Inr t \<Longrightarrow> delay_wait (Suc n) s = delay_wait n t"
  by (subst delay_wait.simps) simp

lemma delay_wait_returns:
  assumes "fun_inv s" "unat (timingdelay s) \<le> unat (LocalTime s) + 10 * n" "unat (timingdelay s) + 9 < 2 ^ 32"
  shows "\<exists>s' k. delay_wait n s = Some (Inr s') \<and> fun_inv s' \<and> k \<le> n \<and> unat (LocalTime s') = unat (LocalTime s) + 10 * k
    \<and> unat (timingdelay s) \<le> unat (LocalTime s') \<and> (0 < k \<longrightarrow> unat (LocalTime s') < unat (timingdelay s) + 10)"
  using assms
proof (induction n arbitrary: s)
  case 0
  then have "\<not> timingdelay s > LocalTime s" by (simp add: word_less_nat_alt)
  then show ?case using 0 by (intro exI [of _ s] exI [of _ 0]) (simp add: delay_wait_done)
next
  case (Suc n)
  show ?case
  proof (cases "timingdelay s > LocalTime s")
    case False
    then show ?thesis using Suc.prems by (intro exI [of _ s] exI [of _ 0]) (simp add: delay_wait_done word_less_nat_alt)
  next
    case True
    obtain t where t: "SysTick_Handler s = Inr t" "fun_inv t" "LocalTime t = LocalTime s + 10"
      using tick [OF Suc.prems(1)] by blast
    have less: "unat (LocalTime s) < unat (timingdelay s)" using True by (simp add: word_less_nat_alt)
    have l: "unat (LocalTime t) = unat (LocalTime s) + 10"
      using less Suc.prems(3) unfolding t(3) by (subst unat_add_lem [THEN iffD1]) simp_all
    have d: "timingdelay t = timingdelay s" using t(1) by (rule tick_delay)
    have "unat (timingdelay t) \<le> unat (LocalTime t) + 10 * n" "unat (timingdelay t) + 9 < 2 ^ 32"
      using Suc.prems(2,3) l d by simp_all
    from Suc.IH [OF t(2) this] obtain s' k where s': "delay_wait n t = Some (Inr s')" "fun_inv s'" "k \<le> n"
      "unat (LocalTime s') = unat (LocalTime t) + 10 * k" "unat (timingdelay t) \<le> unat (LocalTime s')"
      "0 < k \<longrightarrow> unat (LocalTime s') < unat (timingdelay t) + 10" by blast
    have "unat (LocalTime s') < unat (timingdelay s) + 10" using s'(4,6) l d less by (cases "k = 0") simp_all
    then show ?thesis
      using s' l d by (intro exI [of _ s'] exI [of _ "Suc k"]) (simp add: delay_wait_tick [OF True t(1)])
  qed
qed

lemma Delay_returns:
  assumes "fun_inv s" "unat (LocalTime s) + unat nCount + 9 < 2 ^ 32"
  shows "\<exists>s'. Delay ((unat nCount + 9) div 10) nCount s = Some (Inr s') \<and> fun_inv s'
    \<and> unat (LocalTime s') = unat (LocalTime s) + 10 * ((unat nCount + 9) div 10)"
proof -
  let ?s = "s\<lparr>timingdelay := LocalTime s + nCount\<rparr>"
  have u: "unat (LocalTime s + nCount) = unat (LocalTime s) + unat nCount"
    using assms(2) by (subst unat_add_lem [THEN iffD1]) simp_all
  have c: "unat nCount \<le> 10 * ((unat nCount + 9) div 10)" by presburger
  from delay_wait_returns [of ?s "(unat nCount + 9) div 10"] assms u c obtain s' k where
    "delay_wait ((unat nCount + 9) div 10) ?s = Some (Inr s')" "fun_inv s'" "k \<le> (unat nCount + 9) div 10"
    "unat (LocalTime s') = unat (LocalTime s) + 10 * k" "unat (LocalTime s + nCount) \<le> unat (LocalTime s')" by auto
  moreover from this have "k = (unat nCount + 9) div 10" using u by simp
  ultimately show ?thesis by (simp add: Delay_def)
qed

lemma Delay_wrapped:
  assumes "2 ^ 32 \<le> unat (LocalTime s) + unat nCount"
  shows "Delay fuel nCount s = Some (Inr (s\<lparr>timingdelay := LocalTime s + nCount\<rparr>))"
proof -
  have lt: "unat (LocalTime s) < 2 ^ 32" "unat nCount < 2 ^ 32"
    using unsigned_less [of "LocalTime s", where ?'a = nat] unsigned_less [of nCount, where ?'a = nat] by simp_all
  have "unat (LocalTime s + nCount) = (unat (LocalTime s) + unat nCount) mod 2 ^ 32" by (simp add: unat_word_ariths)
  also have "\<dots> = unat (LocalTime s) + unat nCount - 2 ^ 32" using assms lt by (subst mod_if) simp
  finally have "unat (LocalTime s + nCount) \<le> unat (LocalTime s)" using lt by linarith
  then have "\<not> LocalTime s + nCount > LocalTime s" by (simp add: word_less_nat_alt)
  then show ?thesis by (simp add: Delay_def delay_wait_done)
qed

text \<open>The busy wait on the system timer ends at the first reading that shows the counter off or at its end.\<close>

lemma poll_ctrl_iff:
  "poll_ctrl fuel ctrl n = Some m \<longleftrightarrow>
     n < m \<and> m \<le> n + fuel \<and> \<not> (bit (ctrl (m - 1)) 0 \<and> \<not> bit (ctrl (m - 1)) 16)
     \<and> (\<forall>k\<in>{n..<m - 1}. bit (ctrl k) 0 \<and> \<not> bit (ctrl k) 16)"
proof (induction fuel arbitrary: n)
  case (Suc fuel)
  have split: "{n..<m - 1} = insert n {Suc n..<m - 1}" if "Suc n < m" using that by auto
  show ?case
  proof (cases "bit (ctrl n) 0 \<and> \<not> bit (ctrl n) 16")
    case True
    then have "n < m \<Longrightarrow> \<not> (bit (ctrl (m - 1)) 0 \<and> \<not> bit (ctrl (m - 1)) 16) \<Longrightarrow> Suc n < m"
      by (cases "m = Suc n") auto
    then show ?thesis using True Suc.IH [of "Suc n"] split by (auto simp: Let_def)
  next
    case False
    have "m = Suc n" if "n < m" "\<forall>k\<in>{n..<m - 1}. bit (ctrl k) 0 \<and> \<not> bit (ctrl k) 16"
    proof (rule ccontr)
      assume "m \<noteq> Suc n"
      then have "n \<in> {n..<m - 1}" using that(1) by auto
      then show False using that(2) False by blast
    qed
    then show ?thesis using False by (auto simp: Let_def)
  qed
qed simp

section \<open>The scan of the DIP switches\<close>

lemma scan_dip_spec:
  assumes "i \<le> 20" "i = 0 \<or> dip = tmp"
  shows "case scan_dip samples n i tmp dip of (m, v) \<Rightarrow>
     n + (20 - i) \<le> m \<and> m \<le> n + (20 - i) + 19 * (dip_missing tmp + of_bool (dip \<noteq> tmp))
     \<and> (\<forall>b. bit v b = (bit tmp b \<or> (\<exists>k\<in>{n..<m}. bit (add_dip (samples k) 0) b)))"
  using assms
proof (induction samples n i tmp dip rule: scan_dip.induct)
  case (1 samples n i tmp dip)
  let ?t = "add_dip (samples n) tmp"
  have bits: "bit ?t b = (bit tmp b \<or> bit (add_dip (samples n) 0) b)" for b
    by (cases "samples n") (auto simp: bit_add_dip)
  note mp = add_dip_progress(1) [of "samples n" tmp] add_dip_progress(2) [of "samples n" tmp]
  define E where "E j m b = (\<exists>k\<in>{j..<m}. bit (add_dip (samples k) 0) b)" for j m b
  have split: "E n m b = (bit (add_dip (samples n) 0) b \<or> E (Suc n) m b)" if "n < m" for m b
  proof -
    have "{n..<m} = insert n {Suc n..<m}" using that by auto
    then show ?thesis by (simp add: E_def)
  qed
  note E = E_def [symmetric]
  show ?case
  proof (cases "20 \<le> i")
    case True
    then show ?thesis using 1(3-) by (subst scan_dip.simps) (auto simp: E_def)
  next
    case False
    show ?thesis
    proof (cases "dip = ?t")
      case True
      obtain m v where r: "scan_dip samples (Suc n) (Suc i) ?t dip = (m, v)" by fastforce
      have "scan_dip samples n i tmp dip = (m, v)" using False True r by (subst scan_dip.simps) (simp add: Let_def)
      moreover have "case (m, v) of (m, v) \<Rightarrow>
         Suc n + (20 - Suc i) \<le> m \<and> m \<le> Suc n + (20 - Suc i) + 19 * (dip_missing ?t + of_bool (dip \<noteq> ?t))
         \<and> (\<forall>b. bit v b = (bit ?t b \<or> E (Suc n) m b))"
        using 1(2) [OF False refl, unfolded E] True False r by simp
      moreover have "dip_missing ?t \<le> dip_missing tmp" by (rule mp(1))
      ultimately show ?thesis unfolding E using False True split [of m] bits by auto
    next
      case neq: False
      obtain m v where r: "scan_dip samples (Suc n) 1 ?t ?t = (m, v)" by fastforce
      have "scan_dip samples n i tmp dip = (m, v)" using False neq r by (subst scan_dip.simps) (simp add: Let_def)
      moreover have "case (m, v) of (m, v) \<Rightarrow>
         Suc n + (20 - 1) \<le> m \<and> m \<le> Suc n + (20 - 1) + 19 * (dip_missing ?t + of_bool (?t \<noteq> ?t))
         \<and> (\<forall>b. bit v b = (bit ?t b \<or> E (Suc n) m b))"
        using 1(1) [OF False refl, unfolded E] neq r by simp
      moreover have "dip_missing ?t < dip_missing tmp + of_bool (dip \<noteq> tmp)"
        using mp neq by (cases "?t = tmp") auto
      ultimately show ?thesis unfolding E using False neq split [of m] bits by auto
    qed
  qed
qed


lemma dip_missing_0: "dip_missing 0 = 3"
  by (simp add: dip_missing_def)

lemma dip_type_bits:
  fixes m :: nat
  assumes "\<And>b. bit v b = (\<exists>k\<in>{0..<m}. bit (add_dip (samples k) 0) b)"
  shows "bit (NOT v AND 7 :: u8) b = (b < 3 \<and> (\<forall>k<m. \<not> bit (add_dip (samples k) 0) b))"
proof -
  have seven: "(7 :: u8) = mask 3" by (simp add: mask_eq_exp_minus_1)
  show ?thesis
    unfolding seven by (auto simp: bit_simps assms Ball_def)
qed

section \<open>Initialisation\<close>

lemma scan_dip_state_inv: "length (version s) = 4 \<Longrightarrow> fun_inv (scan_dip_state samples junk s) = fun_inv s"
  by (simp add: scan_dip_state_def fun_inv_def usart_inv_def Let_def)

lemma ring_ok_init:
  "ring_ok 100 (initQueue (replicate 100 0) 100)" "ring_ok 50 (carinitQueue (replicate 50 0) 50)"
  "ring_ok 50 (carthreeinitQueue (replicate 50 0) 50)" "ring_ok 50 (cartwoinitQueue (replicate 50 0) 50)"
  "ring_ok 20 (interval_init (replicate 20 x))" "ring_ok 20 (state_init (replicate 20 y))"
  by (simp_all add: ring_ok_def initQueue_def carinitQueue_def carthreeinitQueue_def cartwoinitQueue_def
      interval_init_def state_init_def)

text \<open>What the initialisation needs of the memory: the sizes of the arrays.\<close>

definition memory_ok :: "'a fun_st_scheme \<Rightarrow> bool" where
  "memory_ok s \<longleftrightarrow> usart_inv s \<and> length (GndThreemsg s) = 100 \<and> length (GndThreeDebug s) = 100 \<and> length (version s) = 4
     \<and> length (tcp_client_list s) = 4 \<and> (\<forall>c\<in>set (tcp_client_list s). client_ok c)"

lemma main_init_ok:
  assumes "memory_ok s"
  shows "fun_inv (snd (main_init samples junk samples' junk' s))"
  using assms ring_ok_init
  by (simp add: main_init_def Let_def memory_ok_def fun_inv_def usart_inv_def scan_dip_state_def InitSendMsgQueue_def
      InitGnd2WcsIntervalQueue_def InitGnd2WcsStateQueue_def carInitSendMsgQueue_def carthreeInitSendMsgQueue_def
      cartwoInitSendMsgQueue_def)

section \<open>The tasks keep the invariant\<close>

lemma fun_gnd2wcs_state_msg_ok: "fun_inv s \<Longrightarrow> \<exists>s'. fun_gnd2wcs_state_msg s = Inr s' \<and> fun_inv s'"
  using AddSendMsgToQueue_ok [of s "0x1201"] fun_inv_queues(1) by (fastforce simp: fun_gnd2wcs_state_msg_def)

text \<open>The part of \<open>sec_process\<close> before the frequency is sent.\<close>

definition second_update :: "'a main_st_scheme \<Rightarrow> 'a main_st_scheme" where
  "second_update s =
     (let s = s\<lparr>sec_flag := 0\<rparr>;
          s = (if heart_dely s \<noteq> 0 then s\<lparr>heart_dely := heart_dely s - 1\<rparr> else s)
      in if led s then s\<lparr>led := False\<rparr> else s\<lparr>led := True\<rparr>)"

lemma second_update_fields [simp]:
  "sec_flag (second_update s) = 0" "led (second_update s) = (\<not> led s)"
  "heart_dely (second_update s) = (if heart_dely s = 0 then 0 else heart_dely s - 1)"
  "servo_start (second_update s) = servo_start s" "repair_flag (second_update s) = repair_flag s"
  "fwInitHz (second_update s) = fwInitHz s" "tcp_client_list (second_update s) = tcp_client_list s"
  "net_log (second_update s) = net_log s" "EthInitStatus (second_update s) = EthInitStatus s"
  by (simp_all add: second_update_def Let_def)

lemma sec_process_eq: "sec_process s = (if sec_flag s = 1 then
      (if servo_start s = 0 \<and> repair_flag s = 0 then RS485_OUT (uint (fwInitHz s)) (second_update s) else Inr (second_update s))
    else Inr s)"
  by (auto simp: sec_process_def second_update_def Let_def)

lemma fun_inv_RS485_OUT: "fun_inv s \<Longrightarrow> RS485_OUT v s = Inr s' \<Longrightarrow> fun_inv s'"
  using fun_inv_cong [of s' s] RS485_OUT_frame [of v s s'] more_speed_timexti by (metis fun_inv_def)

lemma fun_inv_second_update [simp]: "fun_inv (second_update s) = fun_inv s"
  by (simp add: second_update_def Let_def)

lemma handled_sec_process: "fun_inv s \<Longrightarrow> handled (sec_process s)"
  using fun_inv_RS485_OUT [of "second_update s" "uint (fwInitHz s)"] RS485_OUT_fault [of "uint (fwInitHz s)" "second_update s"]
  by (cases "RS485_OUT (uint (fwInitHz s)) (second_update s)") (simp_all add: sec_process_eq)

lemma receive_client_keeps:
  assumes inv: "fun_inv s" and i: "i < 4" and n: "length payload = unat tot" "unat tot \<le> 255"
  shows "\<exists>m' s'. receive_client port addr payload tot i (m, s) = Inr (m', s') \<and> fun_inv s'"
  using receive_other [OF inv i, of port addr payload tot m] receive_addressed [OF inv i _ n(1), of port addr m] n
    delivered_keeps [OF inv, of payload i] inv
  by (cases "addressed port addr (tcp_client_list s ! i)") auto

lemma callback_keeps:
  assumes "fun_inv s" "length payload = unat tot" "unat tot \<le> 255"
  shows "\<exists>s'. udp_receive_callback port addr payload tot s = Inr s' \<and> fun_inv s'"
proof -
  note r = receive_client_keeps [OF _ _ assms(2,3), of _ _ port addr]
  obtain m0 s0 where 0: "receive_client port addr payload tot 0 (None, s) = Inr (m0, s0)" "fun_inv s0"
    using r [OF assms(1)] by force
  obtain m1 s1 where 1: "receive_client port addr payload tot 1 (m0, s0) = Inr (m1, s1)" "fun_inv s1"
    using r [OF 0(2), of 1] by force
  obtain m2 s2 where 2: "receive_client port addr payload tot 2 (m1, s1) = Inr (m2, s2)" "fun_inv s2"
    using r [OF 1(2), of 2] by force
  obtain m3 s3 where 3: "receive_client port addr payload tot 3 (m2, s2) = Inr (m3, s3)" "fun_inv s3"
    using r [OF 2(2), of 3] by force
  show ?thesis unfolding udp_receive_callback_def by (simp add: 0 1 [unfolded One_nat_def] 2 3)
qed

text \<open>A packet whose datagrams are complete (lwIP gives all their bytes in one buffer) and short.\<close>

definition short_packet :: "datagram list \<Rightarrow> bool" where
  "short_packet ds \<longleftrightarrow> (\<forall>(port, addr, payload, tot)\<in>set ds. length payload = unat tot \<and> unat tot \<le> 255)"

lemma packet_keeps: "fun_inv s \<Longrightarrow> short_packet ds \<Longrightarrow> \<exists>s'. LwIP_Pkt_Handle ds s = Inr s' \<and> fun_inv s'"
proof (induction ds arbitrary: s)
  case (Cons d ds)
  obtain port addr payload tot where d: "d = (port, addr, payload, tot)" by (cases d)
  obtain t where "udp_receive_callback port addr payload tot s = Inr t" "fun_inv t"
    using callback_keeps [OF Cons.prems(1), of payload tot port addr] Cons.prems(2) by (auto simp: short_packet_def d)
  then show ?case using Cons.IH [of t] Cons.prems(2) by (simp add: d short_packet_def)
qed simp


section \<open>The system as a transition relation\<close>

datatype interrupt =
    I_SysTick
  | I_TIM2 bool
  | I_TIM3 bool
  | I_EXTI4 bool "nat \<Rightarrow> bool" u16 u16 u16
  | I_EXTI9_5 bool "nat \<Rightarrow> bool" u16 u16 bool "nat \<Rightarrow> bool"

fun serve :: "interrupt \<Rightarrow> 'a main_st_scheme \<Rightarrow> 'a main_st_scheme result" where
  "serve I_SysTick s = SysTick_Handler s"
| "serve (I_TIM2 pending) s = Inr (TIM2_IRQHandler pending s)"
| "serve (I_TIM3 pending) s = Inr (TIM3_IRQHandler pending s)"
| "serve (I_EXTI4 pending pin junk now later) s = EXTI4_IRQHandler pending pin junk now later s"
| "serve (I_EXTI9_5 p5 pin7 now later p7 pin10) s = EXTI9_5_IRQHandler p5 pin7 now later p7 pin10 s"

text \<open>An environment whose received datagrams are complete and shorter than the counter of the copy
  loop, and whose Ethernet block ends its reset.\<close>

definition env_ok :: "loop_env \<Rightarrow> bool" where
  "env_ok env \<longleftrightarrow> reset_ends env \<and> short_packet (datagrams env)"

text \<open>\<open>reach s0 ts s\<close>: from the initialised state \<open>s0\<close> the system can come to \<open>s\<close> with the tasks \<open>ts\<close> of
  the current pass to do. Interrupts come between any two tasks.\<close>

inductive reach :: "'a main_st_scheme \<Rightarrow> task list \<Rightarrow> 'a main_st_scheme \<Rightarrow> bool" for s0 where
  start: "reach s0 [] s0"
| pass: "reach s0 [] s \<Longrightarrow> reach s0 (main_tasks s) s"
| task: "reach s0 (t # ts) s \<Longrightarrow> env_ok env \<Longrightarrow> run_task env t s = Inr s' \<Longrightarrow> reach s0 ts s'"
| interrupt: "reach s0 ts s \<Longrightarrow> serve i s = Inr s' \<Longrightarrow> reach s0 ts s'"

lemma serve_handled: "fun_inv s \<Longrightarrow> handled (serve i s)"
  using handlers_keep [of s] by (cases i) simp_all

lemma fun_inv_LwIP [simp]: "fun_inv (LwIP_Init s) = fun_inv s" "fun_inv (LwIP_Periodic_Handle t u) = fun_inv u"
  by (simp_all add: LwIP_Init_def LwIP_Periodic_Handle_def Let_def fun_inv_def usart_inv_def log_net_def)

lemma run_task_keeps:
  assumes inv: "fun_inv s" and env: "env_ok env"
  shows "case run_task env t s of Inr s' \<Rightarrow> fun_inv s' | Inl f \<Rightarrow> f \<noteq> Hang"
proof (cases t)
  case T_Ethernet
  then show ?thesis using env inv by (simp add: Ethernet_Configuration_def env_ok_def Let_def)
next
  case T_Receive
  then show ?thesis using packet_keeps [OF inv, of "datagrams env"] env inv by (auto simp: env_ok_def)
next
  case T_Udp
  then show ?thesis using udp_client_process_keeps [OF inv, of "lwip_results env"] by simp
next
  case T_Second
  then show ?thesis using handled_sec_process [OF inv] by (cases "sec_process s") simp_all
qed (use inv send_message_keeps [OF inv] fun_gnd2wcs_state_msg_ok [OF inv] carsend_keeps [OF inv] carthreesend_keeps [OF inv]
    cartwosend_keeps [OF inv] in auto)

lemma reach_inv: "reach s0 ts s \<Longrightarrow> fun_inv s0 \<Longrightarrow> fun_inv s"
proof (induction rule: reach.induct)
  case (task t ts s env s')
  then show ?case using run_task_keeps [of s env t] by simp
next
  case (interrupt ts s i s')
  then show ?case using serve_handled [of s i] by simp
qed

section \<open>The links of the clients\<close>

definition links :: "'a fun_st_scheme \<Rightarrow> (u8 \<times> u8) list" where
  "links s = map (\<lambda>c. (tcp_client_statue c, connect_is_ok c)) (tcp_client_list s)"

lemma links_offer [simp]: "links (offer k b l s) = links s"
  by (cases "k < length (tcp_client_list s)")
     (simp_all add: links_def offer_def client_upd_def map_update list_update_beyond list_update_same_conv)

lemma links_cong: "tcp_client_list s' = tcp_client_list s \<Longrightarrow> links s' = links s"
  by (simp add: links_def)

lemma connected_links:
  "fun_inv s \<Longrightarrow> (\<forall>k<4. connected (tcp_client_list s ! k)) \<longleftrightarrow> (\<forall>k<4. fst (links s ! k) = CLIENT_CONNECT_OK \<and> snd (links s ! k) \<noteq> 0)"
  by (simp add: links_def connected_def clients_length)

lemma builders_keep:
  "send_msg_gndctrl2wcs_cmd b ty s = Inr (b', l, s') \<Longrightarrow> tcp_client_list s' = tcp_client_list s \<and> fwInitHz s' = fwInitHz s"
  "send_msg_gndctrl2wcs_cmd_interval_data b n ty s = Inr (b', l, s') \<Longrightarrow> tcp_client_list s' = tcp_client_list s \<and> fwInitHz s' = fwInitHz s"
  by (auto simp: send_msg_gndctrl2wcs_cmd_def send_msg_gndctrl2wcs_cmd_interval_data_def queue_ops run_simps split: option.splits)

lemma uart_builders_keep:
  "tcp_client_list (snd (snd (send_msg_uart_two_data b ty s))) = tcp_client_list s"
  "tcp_client_list (snd (snd (send_msg_uart_four_data b ty s))) = tcp_client_list s"
  "fwInitHz (snd (snd (send_msg_uart_two_data b ty s))) = fwInitHz s"
  "fwInitHz (snd (snd (send_msg_uart_four_data b ty s))) = fwInitHz s"
  by (simp_all add: send_msg_uart_two_data_def send_msg_uart_four_data_def Let_def)

lemma fwInitHz_offer [simp]: "fwInitHz (offer k b l s) = fwInitHz s"
  by (simp add: offer_def client_upd_def)

lemma send_message_links: "send_message_to_sever s = Inr s' \<Longrightarrow> links s' = links s \<and> fwInitHz s' = fwInitHz s"
proof -
  assume r: "send_message_to_sever s = Inr s'"
  show ?thesis
  proof (cases "tcp_send_en (tcp_client_list s ! 0) = 0")
    case True
    then obtain m t where t: "GetSendMsgFromQueue s = Inr (m, t)" "dispatch m t = Inr s'"
      using r by (auto simp: send_message_dispatch and_then_Inr_iff)
    have c: "links t = links s" "fwInitHz t = fwInitHz s" using t(1) by (auto simp: queue_ops run_simps links_def)
    have b: "links v = links t \<and> fwInitHz v = fwInitHz t" if "tcp_client_list v = tcp_client_list t \<and> fwInitHz v = fwInitHz t" for v
      using that links_cong by blast
    have u: "links (snd (snd (send_msg_uart_two_data b ty t))) = links t" "links (snd (snd (send_msg_uart_four_data b ty t))) = links t" for b ty
      using uart_builders_keep(1,2) by (metis links_cong)+
    have h: "links (v\<lparr>heart_dely := h\<rparr>) = links v" for v :: "'a fun_st_scheme" and h by (simp add: links_def)
    have "links s' = links t \<and> fwInitHz s' = fwInitHz t"
      using t(2) u h uart_builders_keep(3,4) by (auto simp: dispatch_def Let_def split_beta and_then_Inr_iff
          dest!: builders_keep [THEN b] split: if_splits)
    then show ?thesis using c by simp
  qed (use r in \<open>simp add: send_message_dispatch\<close>)
qed

section \<open>From the queue to the network\<close>

text \<open>What the sender leaves and the other tasks of a pass and the interrupts keep.\<close>

definition line_kept :: "'a main_st_scheme \<Rightarrow> 'a main_st_scheme \<Rightarrow> bool" where
  "line_kept s s' \<longleftrightarrow> tcp_client_list s' ! 0 = tcp_client_list s ! 0 \<and> links s' = links s"

lemma line_kept_refl [simp]: "line_kept s s"
  by (simp add: line_kept_def)

lemma line_kept_trans: "line_kept s t \<Longrightarrow> line_kept t u \<Longrightarrow> line_kept s u"
  by (simp add: line_kept_def)

lemma line_kept_clients: "tcp_client_list s' = tcp_client_list s \<Longrightarrow> line_kept s s'"
  by (simp add: line_kept_def links_def)

lemma line_kept_offer [simp]: "0 < k \<Longrightarrow> line_kept s (offer k b l t) = line_kept s t"
  unfolding line_kept_def links_offer by (simp add: offer_def client_upd_def)

lemma line_kept_queues [simp]:
  "line_kept s (s\<lparr>carSendQueue := q\<rparr>)" "line_kept s (s\<lparr>cartwoSendQueue := q\<rparr>)" "line_kept s (s\<lparr>carthreeSendQueue := q\<rparr>)"
  by (simp_all add: line_kept_clients)

lemma state_msg_kept: "fun_gnd2wcs_state_msg s = Inr s' \<Longrightarrow> line_kept s s' \<and> fwInitHz s' = fwInitHz s"
  by (auto simp: fun_gnd2wcs_state_msg_def queue_ops run_simps intro!: line_kept_clients split: if_splits)

lemma car_kept:
  "carsend_message_to_sever s = Inr s' \<Longrightarrow> line_kept s s' \<and> fwInitHz s' = fwInitHz s"
  "cartwosend_message_to_sever s = Inr s' \<Longrightarrow> line_kept s s' \<and> fwInitHz s' = fwInitHz s"
  "carthreesend_message_to_sever s = Inr s' \<Longrightarrow> line_kept s s' \<and> fwInitHz s' = fwInitHz s"
  by (auto simp: carsend_message_to_sever_def cartwosend_message_to_sever_def carthreesend_message_to_sever_def
      queue_ops run_simps split: if_splits)

lemma sec_kept: "sec_process s = Inr s' \<Longrightarrow> line_kept s s'"
  using RS485_OUT_frame [of "uint (fwInitHz s)" "second_update s" s'] fun_fields(3) [OF more_speed_timexti, of s' "second_update s"]
  by (auto simp: sec_process_eq intro!: line_kept_clients split: if_splits)

lemma sec_total:
  assumes "fun_inv s" "fwInitHz s < 20000"
  shows "\<exists>s'. sec_process s = Inr s'"
proof -
  have "usart_inv (second_update s)" using assms(1) fun_inv_second_update [of s] by (simp add: fun_inv_def)
  moreover have "uint (fwInitHz s) < 20000" using assms(2) by (simp add: word_less_def)
  ultimately obtain t where "RS485_OUT (uint (fwInitHz s)) (second_update s) = Inr t"
    using RS485_OUT_exti [of "second_update s" "uint (fwInitHz s)"] by auto
  then show ?thesis by (simp add: sec_process_eq)
qed

text \<open>The tasks after the sender.\<close>

lemma pass_rest:
  assumes inv: "fun_inv s" and hz: "fwInitHz s < 20000"
  shows "\<exists>s'. run_tasks env [T_State, T_Car, T_CarThree, T_CarTwo, T_Second] s = Inr s' \<and> fun_inv s' \<and> line_kept s s'"
proof -
  obtain a where a: "fun_gnd2wcs_state_msg s = Inr a" "fun_inv a" using fun_gnd2wcs_state_msg_ok [OF inv] by blast
  obtain b where b: "carsend_message_to_sever a = Inr b" "fun_inv b" using carsend_keeps [OF a(2)] by blast
  obtain c where c: "carthreesend_message_to_sever b = Inr c" "fun_inv c" using carthreesend_keeps [OF b(2)] by blast
  obtain d where d: "cartwosend_message_to_sever c = Inr d" "fun_inv d" using cartwosend_keeps [OF c(2)] by blast
  note k = state_msg_kept [OF a(1)] car_kept(1) [OF b(1)] car_kept(3) [OF c(1)] car_kept(2) [OF d(1)]
  have "fwInitHz d < 20000" using k hz by simp
  then obtain e where e: "sec_process d = Inr e" using sec_total [OF d(2)] by blast
  have "fun_inv e" using handled_sec_process [OF d(2)] e by simp
  moreover have "line_kept s e" using k sec_kept [OF e] by (meson line_kept_trans)
  ultimately show ?thesis using a b c d e by simp
qed

lemma tick_clients: "fun_inv s \<Longrightarrow> SysTick_Handler s = Inr s' \<Longrightarrow> tcp_client_list s' = tcp_client_list s"
  by (auto simp: SysTick_Handler_def Time_Update_def queue_ops run_simps split: if_splits)

lemma switch_clients:
  "TIM_EXTI_Process e now later s = Inr s' \<Longrightarrow> tcp_client_list s' = tcp_client_list s"
  "repairLocationCtrl s = Inr s' \<Longrightarrow> tcp_client_list s' = tcp_client_list s"
  using TIM_EXTI_Process_frame [of e now later s s'] repairLocationCtrl_frame [of s s'] fun_fields(3) [of s' s] by auto

lemma serve_clients: "fun_inv s \<Longrightarrow> serve i s = Inr s' \<Longrightarrow> tcp_client_list s' = tcp_client_list s"
proof (cases i)
  case (I_EXTI4 pending pin junk now later)
  assume "serve i s = Inr s'"
  then show ?thesis
    by (auto simp: I_EXTI4 EXTI4_IRQHandler_def queue_ops run_simps dest!: switch_clients split: if_splits)
next
  case (I_EXTI9_5 p5 pin7 now later p7 pin10)
  assume "serve i s = Inr s'"
  then show ?thesis
    by (auto simp: I_EXTI9_5 EXTI9_5_IRQHandler_def and_then_Inr_iff dest!: switch_clients split: if_splits)
qed (auto simp: tick_clients TIM2_IRQHandler_def TIM3_IRQHandler_def Let_def)

text \<open>The interrupts, the tasks and the passes of the loop as instances of the contract of safe steps:
  a sequence of interrupts keeps the clients, and neither a pass nor the loop hangs.\<close>

interpretation ints: viewed_steps serve "\<lambda>_. True" fun_inv "\<lambda>f. f \<noteq> Undefined" tcp_client_list
proof unfold_locales
  show "case serve i s of Inr s' \<Rightarrow> fun_inv s' | Inl f \<Rightarrow> \<not> f \<noteq> Undefined" if "fun_inv s" for i and s :: "'a main_st_scheme"
    using serve_handled [OF that, of i] by (cases "serve i s") (simp_all add: handled_def)
qed (rule serve_clients)

interpretation tasks: safe_steps "run_task env" "\<lambda>_. env_ok env" fun_inv "\<lambda>f. f = Hang"
  by unfold_locales (rule run_task_keeps)

lemma run_tasks_list: "run_tasks env ts = run_list (run_task env) ts"
proof (induction ts)
  case Nil
  show ?case by (rule ext) simp
next
  case (Cons t ts)
  show ?case by (rule ext) (simp add: Cons.IH)
qed

lemma main_pass_safe: "env_ok env \<Longrightarrow> fun_inv s \<Longrightarrow> case main_pass env s of Inr s' \<Rightarrow> fun_inv s' | Inl f \<Rightarrow> f \<noteq> Hang"
  using tasks.run_safe [of env "main_tasks s" s] by (simp add: main_pass_def run_tasks_list list_all_def)

interpretation passes: safe_steps main_pass env_ok fun_inv "\<lambda>f. f = Hang"
  by unfold_locales (rule main_pass_safe)

text \<open>The endless loop of \<open>main\<close>, for the environments of its first passes.\<close>

abbreviation main_loop :: "loop_env list \<Rightarrow> 'a main_st_scheme \<Rightarrow> 'a main_st_scheme result" where
  "main_loop \<equiv> run_list main_pass"

abbreviation serve_all :: "interrupt list \<Rightarrow> 'a main_st_scheme \<Rightarrow> 'a main_st_scheme result" where
  "serve_all \<equiv> run_list serve"

lemma serve_all_kept: "fun_inv s \<Longrightarrow> serve_all is s = Inr s' \<Longrightarrow> fun_inv s' \<and> line_kept s s'"
  using ints.run_inv [of "is" s s'] ints.run_view [of "is" s s'] line_kept_clients by (simp add: list_all_def)

text \<open>A pass without interrupts, and the loop of such passes, is a path of \<open>reach\<close>.\<close>

lemma reach_run_tasks: "reach s0 ts s \<Longrightarrow> env_ok env \<Longrightarrow> run_tasks env ts s = Inr s' \<Longrightarrow> reach s0 [] s'"
  by (induction ts arbitrary: s) (auto simp: and_then_Inr_iff intro: reach.task)

lemma reach_main_loop: "reach s0 [] s \<Longrightarrow> list_all env_ok envs \<Longrightarrow> main_loop envs s = Inr s' \<Longrightarrow> reach s0 [] s'"
proof (induction envs arbitrary: s)
  case (Cons env envs)
  then show ?case using reach_run_tasks [OF reach.pass [OF Cons.prems(1)]] by (auto simp: main_pass_def and_then_Inr_iff)
qed simp

text \<open>The beginning of a pass, without a received packet.\<close>

lemma periodic_frame [simp]:
  "tcp_client_list (LwIP_Periodic_Handle t s) = tcp_client_list s"
  "set (net_log s) \<subseteq> set (net_log (LwIP_Periodic_Handle t s))"
  by (auto simp: LwIP_Periodic_Handle_def Let_def)

lemma pass_begin_sends:
  assumes inv: "fun_inv s" and conn: "\<forall>k<4. connected (tcp_client_list s ! k)" and off: "offers 0 buf len s"
    and env: "rx_size env = 0" "pbuf_alloc_ok (lwip_results env) 0"
  shows "\<exists>s'. run_tasks env [T_Receive, T_Periodic, T_Udp] s = Inr s' \<and> fun_inv s'
    \<and> Udp_Send 0 (take (unat len) buf) \<in> set (net_log s') \<and> tcp_send_en (tcp_client_list s' ! 0) = 0"
proof -
  let ?p = "LwIP_Periodic_Handle (LocalTime s) s"
  have "fun_inv ?p" "\<forall>k<4. connected (tcp_client_list ?p ! k)" using inv conn by simp_all
  from pass_sends [OF this, of "lwip_results env"] obtain s' where s': "udp_client_process (lwip_results env) ?p = Inr s'"
    "fun_inv s'" "\<forall>k<4. tcp_client_list s' ! k = quiet (tcp_client_list s ! k)"
    "net_log s' = net_log ?p @ concat (map (\<lambda>k. send_log (lwip_results env) k (tcp_client_list s ! k)) [0, 1, 2, 3])"
    by auto
  show ?thesis
    using s' off env by (intro exI [of _ s']) (simp add: send_log_def offers_def quiet_def)
qed

lemma links_kept_connected:
  "fun_inv s \<Longrightarrow> fun_inv t \<Longrightarrow> links t = links s \<Longrightarrow> \<forall>k<4. connected (tcp_client_list s ! k) \<Longrightarrow> \<forall>k<4. connected (tcp_client_list t ! k)"
  using connected_links [of s] connected_links [of t] by simp

section \<open>Properties\<close>


text \<open>C32: The scan of the DIP switches ends and decides: whatever the pins do and whatever the
  uninitialised variable holds, it takes 20 to 96 rounds, and bit \<open>b\<close> of the inverter type is set
  exactly when no reading of switch \<open>b\<close> was high; stable pins are read exactly.\<close>

theorem dip_scan_decides:
  "let rounds = fst (scan_dip samples 0 0 0 junk); ty = inverter_type (scan_dip_state samples junk s) in
     20 \<le> rounds \<and> rounds \<le> 96
     \<and> (\<forall>b. bit ty b = (b < 3 \<and> (\<forall>k<rounds. \<not> (case samples k of (d1, d2, d3) \<Rightarrow> [d1, d2, d3] ! b))))"
proof -
  obtain m v where r: "scan_dip samples 0 0 0 junk = (m, v)" by fastforce
  from scan_dip_spec [where i = 0 and dip = junk and tmp = 0 and samples = samples and n = 0] r
  have b: "20 \<le> m" "m \<le> 20 + 19 * (3 + of_bool (junk \<noteq> 0))" "\<And>b. bit v b = (\<exists>k\<in>{0..<m}. bit (add_dip (samples k) 0) b)"
    by (simp_all add: dip_missing_0)
  have m: "m \<le> 96" using b(2) by (cases "junk = 0") simp_all
  have pin: "bit (add_dip (samples k) 0) b = (case samples k of (d1, d2, d3) \<Rightarrow> [d1, d2, d3] ! b)" if "b < 3" for k b
  proof -
    obtain d1 d2 d3 where d: "samples k = (d1, d2, d3)" by (cases "samples k")
    have "b = 0 \<or> b = 1 \<or> b = 2" using that by linarith
    then show ?thesis by (elim disjE) (simp_all add: d bit_add_dip)
  qed
  have ty: "inverter_type (scan_dip_state samples junk s) = NOT v AND 7" by (simp add: scan_dip_state_def Let_def r)
  have "bit (NOT v AND 7) b = (b < 3 \<and> (\<forall>k<m. \<not> (case samples k of (d1, d2, d3) \<Rightarrow> [d1, d2, d3] ! b)))" for b
    unfolding dip_type_bits [OF b(3)] by (cases "b < 3") (simp_all only: pin simp_thms)
  then show ?thesis unfolding ty Let_def r using b(1) m by simp
qed

text \<open>C10: A due message reaches the network: when the clients are connected, client 0 is idle and the
  content of the oldest queued message is available, the rest of the pass offers it, and at the
  beginning of the next pass, whatever interrupts come in between, a well-formed frame of its type is
  sent to the WCS, and client 0 is idle again.\<close>

theorem due_message_reaches_network:
  assumes "fun_inv s" "\<forall>k<4. connected (tcp_client_list s ! k)" "fwInitHz s < 20000"
    and "tcp_send_en (tcp_client_list s ! 0) = 0" "content_ready (due s) s"
    and "rx_size env' = 0" "pbuf_alloc_ok (lwip_results env') 0"
  shows "\<exists>s1. run_tasks env [T_Send, T_State, T_Car, T_CarThree, T_CarTwo, T_Second] s = Inr s1
    \<and> (\<forall>is s2. serve_all is s1 = Inr s2 \<longrightarrow>
        (\<exists>s3 buf len. run_tasks env' [T_Receive, T_Periodic, T_Udp] s2 = Inr s3 \<and> fun_inv s3
          \<and> recv_msg_check buf len = Inr 1 \<and> u16_at buf 9 = due s
          \<and> Udp_Send 0 (take (unat len) buf) \<in> set (net_log s3) \<and> tcp_send_en (tcp_client_list s3 ! 0) = 0))"
proof -
  obtain t buf len where t: "send_message_to_sever s = Inr t" "fun_inv t" "offers 0 buf len t"
    "recv_msg_check buf len = Inr 1" "u16_at buf 9 = due s"
    using sender_takes [OF assms(1,4)] dispatch_ready assms(5) content_ready_queue by metis
  have "fwInitHz t < 20000" using send_message_links [OF t(1)] assms(3) by simp
  then obtain s1 where s1: "run_tasks env [T_State, T_Car, T_CarThree, T_CarTwo, T_Second] t = Inr s1" "fun_inv s1"
    "line_kept t s1"
    using pass_rest [OF t(2)] by blast
  have "\<exists>s3 buf len. run_tasks env' [T_Receive, T_Periodic, T_Udp] s2 = Inr s3 \<and> fun_inv s3
          \<and> recv_msg_check buf len = Inr 1 \<and> u16_at buf 9 = due s
          \<and> Udp_Send 0 (take (unat len) buf) \<in> set (net_log s3) \<and> tcp_send_en (tcp_client_list s3 ! 0) = 0"
    if "serve_all is s1 = Inr s2" for "is" s2
  proof -
    have s2: "fun_inv s2" "line_kept t s2" using serve_all_kept [OF s1(2) that] s1(3) line_kept_trans by blast+
    have "links s2 = links s" "offers 0 buf len s2"
      using s2(2) send_message_links [OF t(1)] t(3) by (simp_all add: line_kept_def offers_def)
    then show ?thesis
      using pass_begin_sends [OF s2(1) _ _ assms(6,7)] links_kept_connected [OF assms(1) s2(1) _ assms(2)] t(4,5) by blast
  qed
  then show ?thesis using t(1) s1(1) by (intro exI [of _ s1]) simp
qed

subsection \<open>Witnesses\<close>

lemma main_boot_memory: "memory_ok main_boot"
  using main_boot_inv by (simp add: memory_ok_def fun_inv_def)


theorem dip_scan_decides_witness: "inverter_type (scan_dip_state (\<lambda>k. (False, True, True)) 0x55 main_boot) = 1"
proof -
  let ?f = "\<lambda>k :: nat. (False, True, True)"
  let ?r = "fst (scan_dip ?f 0 0 0 0x55)" and ?t = "inverter_type (scan_dip_state ?f 0x55 main_boot)"
  have r: "20 \<le> ?r" and t: "bit ?t b = (b < 3 \<and> (\<forall>k<?r. \<not> [False, True, True] ! b))" for b
    using dip_scan_decides [of ?f "0x55" main_boot] by (simp_all add: Let_def)
  have "bit ?t b = (b = 0)" for b
  proof -
    have "b < 3 \<and> \<not> [False, True, True] ! b \<longleftrightarrow> b = 0" by (auto simp: nth_Cons' split: if_splits)
    moreover have "0 < ?r" using r by simp
    ultimately show ?thesis unfolding t by blast
  qed
  then show ?thesis by (intro bit_word_eqI) (simp add: bit_1_iff)
qed

definition main_demo :: main_st where
  "main_demo = main_boot\<lparr>tcp_client_list := tcp_client_list udp_ready,
     msgSendQueue := \<lparr>queue = (replicate 100 0)[1 := 0x1222], front = 0, rear = 1, maxSize = 100\<rparr>\<rparr>"

lemma main_demo_facts:
  "fun_inv main_demo" "tcp_client_list main_demo = tcp_client_list udp_ready" "due main_demo = 0x1222" "fwInitHz main_demo < 20000"
proof -
  show "fun_inv main_demo"
    using main_boot_inv udp_ready_inv by (simp add: main_demo_def fun_inv_def usart_inv_def ring_ok_def)
  show "due main_demo = 0x1222" by (simp add: main_demo_def due_def ring_items_def ring_count_def)
  show "fwInitHz main_demo < 20000"
    by (simp add: main_demo_def main_boot_def udp_st.defs udp_boot_def fun_demo_defs Let_def)
qed (simp add: main_demo_def)

definition env_quiet :: loop_env where
  "env_quiet = \<lparr>reset_ends = True, eth_init_status = 1, rx_size = 0, datagrams = [], lwip_results = lwip_up\<rparr>"

theorem due_message_reaches_network_witness:
  "\<exists>s1 s3 buf len. run_tasks env_quiet [T_Send, T_State, T_Car, T_CarThree, T_CarTwo, T_Second] main_demo = Inr s1
    \<and> run_tasks env_quiet [T_Receive, T_Periodic, T_Udp] s1 = Inr s3
    \<and> recv_msg_check buf len = Inr 1 \<and> u16_at buf 9 = 0x1222 \<and> Udp_Send 0 (take (unat len) buf) \<in> set (net_log s3)"
proof -
  have e: "rx_size env_quiet = 0" "pbuf_alloc_ok (lwip_results env_quiet) 0" by (simp_all add: env_quiet_def lwip_up_def)
  have c: "\<forall>k<4. connected (tcp_client_list main_demo ! k)" "tcp_send_en (tcp_client_list main_demo ! 0) = 0"
    "content_ready (due main_demo) main_demo"
    using main_demo_facts(2,3) udp_ready_connected udp_ready_sends(1) by (simp_all add: content_ready_def)
  have "serve_all [] s1 = Inr s1" for s1 :: main_st by simp
  then show ?thesis
    using due_message_reaches_network [OF main_demo_facts(1) c(1) main_demo_facts(4) c(2,3) e, of env_quiet, unfolded main_demo_facts(3)]
    by blast
qed

end
