(* ===== verification/Scenario.thy ===== *)
theory Scenario
  imports MainLoop Crc
begin

text \<open>
  Runs through several components: what a pass of the main loop does to the queues of the reports, the
  way of a passing car from its interrupt to the network, and the way of a parameter datagram from the
  network to the controller. The properties they give are in \<open>Spec2Isabelle\<close>.
\<close>

section \<open>A pass and the queues of the reports\<close>

text \<open>The bytes sent for client \<open>k\<close>, in order.\<close>

fun sent_to :: "nat \<Rightarrow> net_event list \<Rightarrow> u8 list list" where
  "sent_to k [] = []"
| "sent_to k (Udp_Send j b # es) = (if j = k then b # sent_to k es else sent_to k es)"
| "sent_to k (e # es) = sent_to k es"

lemma sent_to_append [simp]: "sent_to k (es @ fs) = sent_to k es @ sent_to k fs"
  by (induction es rule: sent_to.induct) auto

abbreviation (input) "pass_head \<equiv> [T_Receive, T_Periodic, T_Udp]"
abbreviation (input) "pass_tail \<equiv> [T_Send, T_State, T_Car, T_CarThree, T_CarTwo, T_Second]"

lemma main_tasks_on: "EthInitStatus s \<noteq> 0 \<Longrightarrow> main_tasks s = pass_head @ pass_tail"
  by (simp add: main_tasks_def)

lemma run_tasks_append:
  fixes s :: "'a main_st_scheme"
  shows "run_tasks env (ts @ us) s = and_then (run_tasks env ts s) (run_tasks env us)"
  by (simp add: run_tasks_list run_list_append)

lemma pass_head_sends:
  assumes inv: "fun_inv s" and conn: "\<forall>k<4. connected (tcp_client_list s ! k)"
    and env: "rx_size env = 0" "pbuf_alloc_ok (lwip_results env) 0"
  shows "\<exists>s'. run_tasks env pass_head s = Inr s' \<and> fun_inv s' \<and> (\<forall>k<4. connected (tcp_client_list s' ! k))
    \<and> tcp_client_list s' ! 0 = quiet (tcp_client_list s ! 0) \<and> msgSendQueue s' = msgSendQueue s
    \<and> gndstatequeue s' = gndstatequeue s \<and> gnd2WcsIntervalQueue s' = gnd2WcsIntervalQueue s \<and> sec_flag s' = sec_flag s
    \<and> sent_to 0 (net_log s') = sent_to 0 (net_log s)
        @ (if tcp_send_en (tcp_client_list s ! 0) = 1 then [take (unat (tcp_send_len (tcp_client_list s ! 0))) (tcp_send_buf (tcp_client_list s ! 0))] else [])"
proof -
  let ?p = "LwIP_Periodic_Handle (LocalTime s) s" and ?c = "tcp_client_list s ! 0"
  have p: "msgSendQueue ?p = msgSendQueue s" "gndstatequeue ?p = gndstatequeue s"
    "gnd2WcsIntervalQueue ?p = gnd2WcsIntervalQueue s" "sec_flag ?p = sec_flag s" "sent_to 0 (net_log ?p) = sent_to 0 (net_log s)"
    by (simp_all add: LwIP_Periodic_Handle_def Let_def log_net_def)
  have "fun_inv ?p" "\<forall>k<4. connected (tcp_client_list ?p ! k)" using inv conn by simp_all
  from pass_sends [OF this, of "lwip_results env"] obtain s' where s': "udp_client_process (lwip_results env) ?p = Inr s'"
    "fun_inv s'" "\<forall>k<4. tcp_client_list s' ! k = quiet (tcp_client_list s ! k)"
    "net_log s' = net_log ?p @ concat (map (\<lambda>k. send_log (lwip_results env) k (tcp_client_list s ! k)) [0, 1, 2, 3])"
    "reports s' = reports ?p"
    by auto
  have q: "msgSendQueue s' = msgSendQueue s" "gndstatequeue s' = gndstatequeue s"
    "gnd2WcsIntervalQueue s' = gnd2WcsIntervalQueue s" "udp_st.more s' = udp_st.more ?p"
    using s'(5) p by (simp_all add: reports_def)
  have f: "sec_flag s' = sec_flag s" using q(4) p(4) by (cases s'; cases ?p) simp
  have o: "sent_to 0 (send_log (lwip_results env) k c) = []" if "k \<noteq> 0" for k c
    using that by (simp add: send_log_def)
  have "sent_to 0 (net_log s') = sent_to 0 (net_log s)
      @ (if tcp_send_en ?c = 1 then [take (unat (tcp_send_len ?c)) (tcp_send_buf ?c)] else [])"
    unfolding s'(4) using p(5) o env by (simp add: send_log_def)
  moreover have "\<forall>k<4. connected (tcp_client_list s' ! k)" using s'(3) conn by (simp add: quiet_def connected_def)
  ultimately show ?thesis using s'(1,2,3) q f env(1) by (intro exI [of _ s']) simp
qed

text \<open>The tasks after the sender, when no second has passed.\<close>

definition queues_kept :: "'a main_st_scheme \<Rightarrow> 'a main_st_scheme \<Rightarrow> bool" where
  "queues_kept s s' \<longleftrightarrow> line_kept s s' \<and> gndstatequeue s' = gndstatequeue s
     \<and> gnd2WcsIntervalQueue s' = gnd2WcsIntervalQueue s \<and> fun_st.more s' = fun_st.more s"

lemma queues_kept_simps [simp]:
  "0 < k \<Longrightarrow> queues_kept s (offer k b l t) = queues_kept s t" "queues_kept s s"
  "queues_kept s (s\<lparr>carSendQueue := q\<rparr>)" "queues_kept s (s\<lparr>cartwoSendQueue := q\<rparr>)" "queues_kept s (s\<lparr>carthreeSendQueue := q\<rparr>)"
proof -
  have "fun_st.more (offer k b l t) = fun_st.more t" by (simp add: offer_def)
  then show "0 < k \<Longrightarrow> queues_kept s (offer k b l t) = queues_kept s t" by (simp add: queues_kept_def)
qed (simp_all add: queues_kept_def)

lemma car_queues:
  "carsend_message_to_sever s = Inr s' \<Longrightarrow> queues_kept s s' \<and> msgSendQueue s' = msgSendQueue s"
  "cartwosend_message_to_sever s = Inr s' \<Longrightarrow> queues_kept s s' \<and> msgSendQueue s' = msgSendQueue s"
  "carthreesend_message_to_sever s = Inr s' \<Longrightarrow> queues_kept s s' \<and> msgSendQueue s' = msgSendQueue s"
  by (auto simp: carsend_message_to_sever_def cartwosend_message_to_sever_def carthreesend_message_to_sever_def
      queue_ops run_simps split: if_splits)

lemma state_msg_queues:
  assumes "fun_inv s"
  shows "\<exists>s'. fun_gnd2wcs_state_msg s = Inr s' \<and> fun_inv s' \<and> queues_kept s s'
    \<and> (if ring_items (gndstatequeue s) = [] then msgSendQueue s' = msgSendQueue s
       else appended 100 (msgSendQueue s) SEND_MSG_GNDCTRL2WCS_CMD_TYPE (msgSendQueue s'))"
proof (cases "ring_items (gndstatequeue s) = []")
  case True
  then show ?thesis using assms IsFree_zero [OF assms] by (simp add: fun_gnd2wcs_state_msg_def queues_kept_def)
next
  case False
  obtain q where q: "AddSendMsgToQueue 0x1201 s = Inr (s\<lparr>msgSendQueue := q\<rparr>)" "appended 100 (msgSendQueue s) 0x1201 q"
    using AddSendMsgToQueue_ok [OF assms] by blast
  then show ?thesis
    using False IsFree_zero [OF assms] fun_inv_queues(1) [OF assms q(2)]
    by (intro exI [of _ "s\<lparr>msgSendQueue := q\<rparr>"]) (simp add: fun_gnd2wcs_state_msg_def queues_kept_def line_kept_clients)
qed

lemma pass_rest_queues:
  assumes inv: "fun_inv s" and sec: "sec_flag s \<noteq> 1"
  shows "\<exists>s'. run_tasks env [T_State, T_Car, T_CarThree, T_CarTwo, T_Second] s = Inr s' \<and> fun_inv s' \<and> queues_kept s s'
    \<and> sec_flag s' = sec_flag s
    \<and> (if ring_items (gndstatequeue s) = [] then msgSendQueue s' = msgSendQueue s
       else appended 100 (msgSendQueue s) SEND_MSG_GNDCTRL2WCS_CMD_TYPE (msgSendQueue s'))"
proof -
  obtain a where a: "fun_gnd2wcs_state_msg s = Inr a" "fun_inv a" "queues_kept s a"
    "if ring_items (gndstatequeue s) = [] then msgSendQueue a = msgSendQueue s
     else appended 100 (msgSendQueue s) SEND_MSG_GNDCTRL2WCS_CMD_TYPE (msgSendQueue a)"
    using state_msg_queues [OF inv] by blast
  obtain b where b: "carsend_message_to_sever a = Inr b" "fun_inv b" using carsend_keeps [OF a(2)] by blast
  obtain c where c: "carthreesend_message_to_sever b = Inr c" "fun_inv c" using carthreesend_keeps [OF b(2)] by blast
  obtain d where d: "cartwosend_message_to_sever c = Inr d" "fun_inv d" using cartwosend_keeps [OF c(2)] by blast
  note k = car_queues(1) [OF b(1)] car_queues(3) [OF c(1)] car_queues(2) [OF d(1)]
  have q: "queues_kept s d" using a(3) k by (auto simp: queues_kept_def line_kept_def)
  then have f: "sec_flag d = sec_flag s" unfolding queues_kept_def by (cases s; cases d) simp
  then have e: "sec_process d = Inr d" using sec by (simp add: sec_process_def)
  show ?thesis using a b c d e q f k by (intro exI [of _ d]) simp
qed

section \<open>From the switch to the network\<close>

text \<open>The sender with an interval and with a state to report.\<close>

lemma send_interval_step:
  assumes inv: "fun_inv s" and idle: "tcp_send_en (tcp_client_list s ! 0) = 0"
    and due: "due s = SEND_MSG_GNDCTRL2WCS_CMD_INTERVAL_TYPE" and items: "ring_items (gnd2WcsIntervalQueue s) = d # rest"
  shows "\<exists>s' b. send_message_to_sever s = Inr s' \<and> fun_inv s' \<and> length b = 1500 \<and> offers 0 (interval_frame b (due s) d) 17 s'
    \<and> ring_items (msgSendQueue s') = tl (ring_items (msgSendQueue s)) \<and> gndstatequeue s' = gndstatequeue s
    \<and> ring_items (gnd2WcsIntervalQueue s') = rest \<and> fun_st.more s' = fun_st.more s"
proof -
  let ?b = "tcp_send_buf (tcp_client_list s ! 0)" and ?n = "tcp_send_len (tcp_client_list s ! 0)"
  have b: "length ?b = 1500" using client_ok_nth [OF inv, of 0] by (simp add: client_ok_def)
  obtain q0 where q0: "send_message_to_sever s = dispatch (due s) (s\<lparr>msgSendQueue := q0\<rparr>)" "fun_inv (s\<lparr>msgSendQueue := q0\<rparr>)"
    "ring_items q0 = tl (ring_items (msgSendQueue s))"
    using sender_takes [OF inv idle] by blast
  let ?s = "s\<lparr>msgSendQueue := q0\<rparr>" and ?f = "interval_frame ?b (due s) d"
  have "ring_items (gnd2WcsIntervalQueue ?s) = d # rest" using items by simp
  from send_interval_ok [OF q0(2) this, of ?b ?n "due s"] obtain q r where
    qr: "send_msg_gndctrl2wcs_cmd_interval_data ?b ?n (due s) ?s = Inr (?f, 17,
       ?s\<lparr>gnd2WcsIntervalQueue := q, carfunint := d, carSendQueue := r, positionreset := 30,
         GndThreeDebug := blit (GndThreeDebug ?s) 0 (take 6 (drop 11 ?f))\<rparr>)"
    "removed 20 (gnd2WcsIntervalQueue ?s) (Some d) q" "ring_items q = rest" "appended 50 (carSendQueue ?s) 0xA1A1 r"
    by blast
  let ?t = "?s\<lparr>gnd2WcsIntervalQueue := q, carfunint := d, carSendQueue := r, positionreset := 30,
         GndThreeDebug := blit (GndThreeDebug ?s) 0 (take 6 (drop 11 ?f))\<rparr>"
  have i: "fun_inv ?t" using q0(2) qr(2,4) by (simp add: fun_inv_def usart_inv_def removed_def appended_def)
  have "send_message_to_sever s = Inr (offer 0 ?f 17 ?t)" using q0(1) qr(1) by (simp add: dispatch_def Let_def due)
  moreover have "fun_inv (offer 0 ?f 17 ?t)" using interval_frame_fields(1) [OF b] by (intro fun_inv_offer i) simp_all
  moreover have "fun_st.more (offer 0 ?f 17 ?t) = fun_st.more s" by (simp add: offer_def)
  ultimately show ?thesis
    using offers_offer [OF i, of 0 ?f 17] b q0(3) qr(3) by (intro exI [of _ "offer 0 ?f 17 ?t"] exI [of _ ?b]) simp
qed

lemma send_report_step:
  assumes inv: "fun_inv s" and idle: "tcp_send_en (tcp_client_list s ! 0) = 0"
    and due: "due s = SEND_MSG_GNDCTRL2WCS_CMD_TYPE" and items: "ring_items (gndstatequeue s) = node # rest"
  shows "\<exists>s' b. send_message_to_sever s = Inr s' \<and> fun_inv s' \<and> length b = 1500 \<and> offers 0 (cmd_frame b (due s) node) 21 s'
    \<and> ring_items (msgSendQueue s') = tl (ring_items (msgSendQueue s)) \<and> gnd2WcsIntervalQueue s' = gnd2WcsIntervalQueue s
    \<and> ring_items (gndstatequeue s') = rest \<and> fun_st.more s' = fun_st.more s"
proof -
  let ?b = "tcp_send_buf (tcp_client_list s ! 0)"
  have b: "length ?b = 1500" using client_ok_nth [OF inv, of 0] by (simp add: client_ok_def)
  obtain q0 where q0: "send_message_to_sever s = dispatch (due s) (s\<lparr>msgSendQueue := q0\<rparr>)" "fun_inv (s\<lparr>msgSendQueue := q0\<rparr>)"
    "ring_items q0 = tl (ring_items (msgSendQueue s))"
    using sender_takes [OF inv idle] by blast
  let ?s = "s\<lparr>msgSendQueue := q0\<rparr>" and ?f = "cmd_frame ?b (due s) node"
  have items': "ring_items (gndstatequeue ?s) = node # rest" using items by simp
  from send_msg_gndctrl2wcs_cmd_ok [OF q0(2) this, of ?b "due s"] obtain q r where
    qr: "send_msg_gndctrl2wcs_cmd ?b (due s) ?s = Inr (?f, 21,
       ?s\<lparr>gndstatequeue := q, pregndposnod := node, GndThreemsg := blit (GndThreemsg ?s) 0 (take 10 (drop 11 ?f)), carthreeSendQueue := r\<rparr>)"
    "removed 20 (gndstatequeue ?s) (Some node) q" "ring_items q = rest" "appended 50 (carthreeSendQueue ?s) 0x1201 r"
    by blast
  let ?t = "?s\<lparr>gndstatequeue := q, pregndposnod := node, GndThreemsg := blit (GndThreemsg ?s) 0 (take 10 (drop 11 ?f)), carthreeSendQueue := r\<rparr>"
  have i: "fun_inv ?t" using q0(2) qr(2,4) by (simp add: fun_inv_def usart_inv_def removed_def appended_def)
  have "send_message_to_sever s = Inr (offer 0 ?f 21 ?t)"
    using q0 qr(1) items' by (simp add: dispatch_def Let_def due IsFree_zero)
  moreover have "fun_inv (offer 0 ?f 21 ?t)" using cmd_frame_fields(1) [OF b] by (intro fun_inv_offer i) simp_all
  moreover have "fun_st.more (offer 0 ?f 21 ?t) = fun_st.more s" by (simp add: offer_def)
  ultimately show ?thesis
    using offers_offer [OF i, of 0 ?f 21] b q0(3) qr(3) by (intro exI [of _ "offer 0 ?f 21 ?t"] exI [of _ ?b]) simp
qed

lemma more_log: "fun_st.more s' = fun_st.more s \<Longrightarrow> sec_flag s' = sec_flag s \<and> net_log s' = net_log s"
  by (cases s; cases s'; simp)

lemma exti4_log: "EXTI4_IRQHandler pending pin junk now later s = Inr s' \<Longrightarrow> sec_flag s' = sec_flag s \<and> net_log s' = net_log s"
proof -
  have m: "sec_flag v = sec_flag u \<and> net_log v = net_log u" if "TIM_EXTI_Process e now later u = Inr v \<or> repairLocationCtrl u = Inr v"
    for e u v using that TIM_EXTI_Process_frame repairLocationCtrl_frame more_log [OF fun_fields(7)] by blast
  assume "EXTI4_IRQHandler pending pin junk now later s = Inr s'"
  then show ?thesis
    by (auto simp: EXTI4_IRQHandler_def queue_ops run_simps dest!: m [OF disjI1] m [OF disjI2] split: if_splits)
qed

lemma due_items: "ring_items (msgSendQueue s) = m # ms \<Longrightarrow> due s = m"
  by (simp add: due_def)

lemma kept_connected:
  "fun_inv s \<Longrightarrow> fun_inv t \<Longrightarrow> line_kept s t \<Longrightarrow> \<forall>k<4. connected (tcp_client_list s ! k) \<Longrightarrow> \<forall>k<4. connected (tcp_client_list t ! k)"
  using links_kept_connected [of s t] by (simp add: line_kept_def)

lemma sent_connected:
  "fun_inv s \<Longrightarrow> fun_inv t \<Longrightarrow> send_message_to_sever s = Inr t \<Longrightarrow> \<forall>k<4. connected (tcp_client_list s ! k)
   \<Longrightarrow> \<forall>k<4. connected (tcp_client_list t ! k)"
  using send_message_links [of s t] links_kept_connected [of s t] by simp

text \<open>An offered frame is sent by the rest of its pass and the head of the next one.\<close>

lemma offered_goes_out:
  assumes inv: "fun_inv s" and conn: "\<forall>k<4. connected (tcp_client_list s ! k)" and off: "offers 0 b n s" and sec: "sec_flag s \<noteq> 1"
    and env: "rx_size env = 0" "pbuf_alloc_ok (lwip_results env) 0" and room: "length (ring_items (msgSendQueue s)) < 99"
  shows "\<exists>s'. run_tasks env ([T_State, T_Car, T_CarThree, T_CarTwo, T_Second] @ pass_head) s = Inr s' \<and> fun_inv s'
    \<and> (\<forall>k<4. connected (tcp_client_list s' ! k)) \<and> tcp_send_en (tcp_client_list s' ! 0) = 0 \<and> sec_flag s' = sec_flag s
    \<and> gndstatequeue s' = gndstatequeue s \<and> gnd2WcsIntervalQueue s' = gnd2WcsIntervalQueue s
    \<and> ring_items (msgSendQueue s') = ring_items (msgSendQueue s)
        @ (if ring_items (gndstatequeue s) = [] then [] else [SEND_MSG_GNDCTRL2WCS_CMD_TYPE])
    \<and> sent_to 0 (net_log s') = sent_to 0 (net_log s) @ [take (unat n) b]"
proof -
  obtain t where t: "run_tasks env [T_State, T_Car, T_CarThree, T_CarTwo, T_Second] s = Inr t" "fun_inv t" "queues_kept s t"
    "sec_flag t = sec_flag s"
    "if ring_items (gndstatequeue s) = [] then msgSendQueue t = msgSendQueue s
       else appended 100 (msgSendQueue s) SEND_MSG_GNDCTRL2WCS_CMD_TYPE (msgSendQueue t)"
    using pass_rest_queues [OF inv sec] by blast
  have k: "line_kept s t" "net_log t = net_log s" using t(3) more_log by (auto simp: queues_kept_def)
  have o: "offers 0 b n t" using off k(1) by (simp add: offers_def line_kept_def)
  from pass_head_sends [OF t(2) kept_connected [OF inv t(2) k(1) conn] env] obtain u where u: "run_tasks env pass_head t = Inr u"
    "fun_inv u" "\<forall>k<4. connected (tcp_client_list u ! k)" "tcp_client_list u ! 0 = quiet (tcp_client_list t ! 0)"
    "msgSendQueue u = msgSendQueue t" "gndstatequeue u = gndstatequeue t" "gnd2WcsIntervalQueue u = gnd2WcsIntervalQueue t"
    "sec_flag u = sec_flag t"
    "sent_to 0 (net_log u) = sent_to 0 (net_log t)
        @ (if tcp_send_en (tcp_client_list t ! 0) = 1 then [take (unat (tcp_send_len (tcp_client_list t ! 0))) (tcp_send_buf (tcp_client_list t ! 0))] else [])"
    by blast
  have "ring_items (msgSendQueue t) = ring_items (msgSendQueue s)
        @ (if ring_items (gndstatequeue s) = [] then [] else [0x1201])"
    using t(5) room by (auto simp: appended_def split: if_splits)
  then show ?thesis
    unfolding run_tasks_append using t u o k by (intro exI [of _ u]) (simp add: queues_kept_def offers_def quiet_def)
qed

section \<open>From the network to the controller\<close>

text \<open>A frame in a receive buffer is read like the received bytes.\<close>

lemma received_frame:
  assumes n: "length payload = unat tot" "45 \<le> unat tot" "unat tot \<le> 255" and old: "length old = 1500"
  shows "frame_ok (blit old 0 payload) tot = frame_ok payload tot" "msg_type_at (blit old 0 payload) = msg_type_at payload"
    "decode_para (blit old 0 payload) = decode_para payload"
proof -
  let ?b = "blit old 0 payload"
  have at: "?b ! i = payload ! i" if "i < unat tot" for i using that n old by (simp add: nth_blit)
  have tk: "take (unat tot) ?b = payload" using n old by (intro nth_equalityI) (simp_all add: nth_blit)
  have u16: "u16_at ?b i = u16_at payload i" if "i < 44" for i using that n(2) at by (simp add: u16_at_def)
  have u32: "u32_at ?b i = u32_at payload i" if "i < 42" for i using that n(2) at by (simp add: u32_at_def)
  have "summed ?b tot = summed payload tot"
  proof -
    have "take (unat tot - 9) (drop 9 ?b) = drop 9 (take (unat tot) ?b)" using drop_take [of 9 "unat tot" ?b] by simp
    moreover have "max 1 (unat tot - 9) = unat tot - 9" using n(2) by simp
    ultimately show ?thesis using n(1) unfolding summed_def tk by simp
  qed
  then show "frame_ok ?b tot = frame_ok payload tot" using at u16 n(2) by (simp add: frame_ok_def)
  show "msg_type_at ?b = msg_type_at payload" using u16 by (simp add: msg_type_at_def)
  have "take 11 ?b = take 11 payload"
    using arg_cong [OF tk, of "take 11"] n(2) by simp
  then show "decode_para ?b = decode_para payload" using u16 u32 by (simp add: decode_para_def)
qed

lemma start_view_clients [simp]: "start_view (s\<lparr>tcp_client_list := c\<rparr>) = start_view s" "pid_ready (s\<lparr>tcp_client_list := c\<rparr>) = pid_ready s"
  by (simp_all add: start_view_def pid_ready_def)

lemma process_only_first:
  assumes inv: "fun_inv s" and oth: "\<forall>k<4. k \<noteq> 0 \<longrightarrow> connected (tcp_client_list s ! k) \<and> tcp_send_en (tcp_client_list s ! k) \<noteq> 1"
    and first: "udp_client_section recv_message_from_sever (\<lambda>s. s\<lparr>heart_dely := HEART_DELAY\<rparr>) lw 0 s = Inr t"
  shows "udp_client_process lw s = Inr t"
proof -
  have k: "\<forall>j. j \<noteq> 0 \<longrightarrow> tcp_client_list t ! j = tcp_client_list s ! j"
    using wcs_client.section_keeps [OF inv, of 0 lw] first by simp
  have c: "connected (tcp_client_list t ! 1) \<and> tcp_send_en (tcp_client_list t ! 1) \<noteq> 1"
    "connected (tcp_client_list t ! 2) \<and> tcp_send_en (tcp_client_list t ! 2) \<noteq> 1"
    "connected (tcp_client_list t ! 3) \<and> tcp_send_en (tcp_client_list t ! 3) \<noteq> 1"
    using k oth by simp_all
  show ?thesis
    unfolding udp_client_process_def first and_then.simps
    using car_client.section_idle c(1) cartwo_client.section_idle c(2) carthree_client.section_idle c(3)
    by (metis and_then.simps(2))
qed

lemma parameter_datagram:
  assumes inv: "fun_inv s" and conn: "\<forall>k<4. connected (tcp_client_list s ! k) \<and> tcp_send_en (tcp_client_list s ! k) = 0"
    and to: "addressed port addr (tcp_client_list s ! 0)" "\<forall>i<4. i \<noteq> 0 \<longrightarrow> \<not> addressed port addr (tcp_client_list s ! i)"
    and n: "length payload = unat tot" "45 \<le> unat tot" "unat tot \<le> 255"
    and frame: "frame_ok payload tot" "msg_type_at payload = RECV_MSG_WCS2GNDCTRL_PARA_TYPE" "para_ok (decode_para payload)"
    and room: "length (ring_items (msgSendQueue s)) \<le> 97"
    and env: "rx_size env \<noteq> 0" "datagrams env = [(port, addr, payload, tot)]"
  shows "\<exists>s'. run_tasks env pass_head s = Inr s' \<and> fun_inv s'
    \<and> wcs2GndParaData s' = decode_para payload \<and> repair_flag s' = 0 \<and> pid_ready s'
    \<and> start_view s' = stage_spec (first_stage_hz s') (second_stage_hz s') (fwInitHz s') 0
    \<and> uint (fwInitHz s') = min 5000 (start_hz (decode_para payload) mod 2 ^ 16)
    \<and> ring_items (msgSendQueue s') = ring_items (msgSendQueue s)
        @ [REPLY_RECV_MSG_WCS2GNDCTRL_PARA_TYPE, REPLY_WCS_GND_VERSION_TYPE]"
proof -
  let ?d = "client_upd 0 (delivered payload) s" and ?old = "tcp_recev_buf (tcp_client_list s ! 0)"
  let ?t = "LwIP_Periodic_Handle (LocalTime ?d) ?d" and ?b = "blit ?old 0 payload"
  have old: "length ?old = 1500" using client_ok_nth [OF inv, of 0] by (simp add: client_ok_def)
  have four: "length (tcp_client_list s) = 4" using inv by (rule clients_length)
  have r: "udp_receive_callback port addr payload tot s = Inr ?d"
    using udp_receive_one [OF inv _ to n(1)] n(3) by simp
  have "fun_inv ?d" using inv n by (simp add: delivered_keeps)
  then have i: "fun_inv ?t" by simp
  have c: "tcp_client_list ?t ! 0 = delivered payload (tcp_client_list s ! 0)"
    "\<forall>k. k \<noteq> 0 \<longrightarrow> tcp_client_list ?t ! k = tcp_client_list s ! k" using four by simp_all
  have q: "msgSendQueue ?t = msgSendQueue s" by (simp add: LwIP_Periodic_Handle_def client_upd_def log_net_def Let_def)
  note f = received_frame [OF n old]
  obtain u where u: "recv_message_from_sever ?b tot ?t = Inr (0, u)" "fun_inv u"
    "wcs2GndParaData u = decode_para payload" "repair_flag u = 0" "pid_ready u"
    "start_view u = stage_spec (first_stage_hz u) (second_stage_hz u) (fwInitHz u) 0"
    "uint (fwInitHz u) = min 5000 (start_hz (decode_para payload) mod 2 ^ 16)"
    "ring_items (msgSendQueue u) = ring_items (msgSendQueue s) @ [0x9220, 0x1222]"
    using para_frame_starts [OF i, of ?b tot] f frame room n(3) old unfolding q by auto
  let ?v = "client_upd 0 (\<lambda>c. c\<lparr>tcp_recev_len := 0, tcp_client_statue := CLIENT_CONNECT_OK\<rparr>) u"
  have len: "tcp_recev_len (tcp_client_list ?t ! 0) = tot" using n(1) c(1) by (simp add: delivered_def)
  have "udp_client_section recv_message_from_sever (\<lambda>s. s\<lparr>heart_dely := HEART_DELAY\<rparr>) (lwip_results env) 0 ?t = Inr ?v"
    using wcs_client.section_receives [OF i, of 0 "lwip_results env"] u(1) c(1) len conn
    by (simp add: delivered_def connected_def)
  then have p: "udp_client_process (lwip_results env) ?t = Inr ?v"
    by (rule process_only_first [OF i, rotated]) (use c(2) conn in simp)
  have "fun_inv ?v" by (rule client_ok_upd [OF u(2)]) (simp add: client_ok_def split: if_splits)
  then show ?thesis
    using r p u env by (intro exI [of _ ?v]) (simp add: client_upd_def)
qed

end
