(* ===== verification/TcpClient.thy ===== *)
theory TcpClient
  imports UdpClient
begin

text \<open>
  The TCP half of \<open>TCPclient.c\<close>, which takes the place of \<open>UdpClient\<close> in a build without \<open>USE_UDP\<close>. The
  shipped configuration defines \<open>USE_UDP\<close>; the main loop modelled in \<open>MainLoop\<close> does not call these
  functions. lwIP is a parameter: what its functions return and what its control blocks hold is the
  argument \<open>lwip_tcp\<close>, what it is told to do is \<open>tcp_log\<close>. The objects \<open>struct echoclient\<close> live on a heap;
  a chain of packet buffers is the list of the payloads, and the null pointer is the empty list.
\<close>

section \<open>State\<close>

datatype tcp_state =
    CLOSED | LISTEN | SYN_SENT | SYN_RCVD | ESTABLISHED | FIN_WAIT_1 | FIN_WAIT_2 | CLOSE_WAIT | CLOSING | LAST_ACK | TIME_WAIT

datatype echoclient_states = ES_NOT_CONNECTED | ES_CONNECTED | ES_RECEIVED | ES_CLOSING

record echoclient =
  es_state :: echoclient_states
  es_pcb :: nat
  p_tx :: "u8 list list"

datatype tcp_event =
    Tcp_Set_Local_Port nat u16
  | Tcp_Connect nat "u8 list" u16
  | Tcp_Arg nat nat
  | Tcp_Recv nat bool          \<comment> \<open>the callback is registered or removed\<close>
  | Tcp_Sent nat bool
  | Tcp_Poll nat bool u8
  | Tcp_Recved nat u16
  | Tcp_Write nat "u8 list"
  | Tcp_Abort nat
  | Pbuf_Ref "u8 list list"
  | Pbuf_Free "u8 list list"

record tcp_st = udp_st +
  es_heap :: "nat \<Rightarrow> echoclient option"
  tcp_log :: "tcp_event list"

record tcp_pcb =
  pcb_state :: tcp_state
  nrtx :: u8
  remote_ip :: u32
  remote_port :: u16

text \<open>What lwIP answers during one call: \<open>tcp_sndbuf n\<close> and \<open>tcp_write n\<close> are the \<open>n\<close>-th answers.\<close>

record lwip_tcp =
  tcp_new :: "nat option"
  pcb_at :: "nat \<Rightarrow> tcp_pcb"
  mem_malloc :: "nat option"
  pbuf_pool :: bool
  tcp_sndbuf :: "nat \<Rightarrow> u16"
  tcp_write :: "nat \<Rightarrow> int"

abbreviation (input) "ERR_OK \<equiv> 0 :: int"
abbreviation (input) "ERR_MEM \<equiv> - 1 :: int"
abbreviation (input) "ERR_ABRT \<equiv> - 5 :: int"
abbreviation (input) "TCP_SYNMAXRTX \<equiv> 6 :: u8"

definition log_tcp :: "tcp_event list \<Rightarrow> 'a tcp_st_scheme \<Rightarrow> 'a tcp_st_scheme" where
  "log_tcp es s = s\<lparr>tcp_log := tcp_log s @ es\<rparr>"

definition es_get :: "nat option \<Rightarrow> 'a tcp_st_scheme \<Rightarrow> echoclient result" where
  "es_get p s = (case p of None \<Rightarrow> Inl Undefined | Some a \<Rightarrow> (case es_heap s a of None \<Rightarrow> Inl Undefined | Some e \<Rightarrow> Inr e))"

definition es_set :: "nat \<Rightarrow> echoclient option \<Rightarrow> 'a tcp_st_scheme \<Rightarrow> 'a tcp_st_scheme" where
  "es_set a e s = s\<lparr>es_heap := (es_heap s)(a := e)\<rparr>"

section \<open>Connecting\<close>

definition creat_tcp_connect :: "lwip_tcp \<Rightarrow> nat \<Rightarrow> 'a tcp_st_scheme \<Rightarrow> 'a tcp_st_scheme result" where
  "creat_tcp_connect lw k s =
     and_then
       (if echoclient_pcb (tcp_client_list s ! k) = None then
          (case tcp_new lw of
             None \<Rightarrow> Inl Undefined
           | Some pcb \<Rightarrow>
               let s = client_upd k (\<lambda>c. c\<lparr>echoclient_pcb := Some pcb\<rparr>) s;
                   s = log_tcp [Tcp_Set_Local_Port pcb 0] s
               in Inr (client_upd k (\<lambda>c. c\<lparr>connect_is_ok := 1, connect_dely := 0, tcp_send_en := 0, tcp_send_len := 0\<rparr>) s))
        else Inr s)
       (\<lambda>s. Inr (client_upd k (\<lambda>c. c\<lparr>tcp_client_statue := CLIENT_DIS_CONNECT\<rparr>) s))"

definition tcp_echoclient_connect :: "lwip_tcp \<Rightarrow> nat \<Rightarrow> 'a tcp_st_scheme \<Rightarrow> 'a tcp_st_scheme result" where
  "tcp_echoclient_connect lw k s =
     and_then (if connect_is_ok (tcp_client_list s ! k) = 0 then creat_tcp_connect lw k s else Inr s) (\<lambda>s.
     case echoclient_pcb (tcp_client_list s ! k) of
       None \<Rightarrow> Inr s
     | Some pcb \<Rightarrow>
         let s = get_ip_para_process k s; c = tcp_client_list s ! k;
             s = log_tcp [Tcp_Connect pcb (dest_ip c) (dest_port c)] s
         in Inr (client_upd k (\<lambda>c. c\<lparr>connect_dely := 3\<rparr>) s))"

text \<open>The loop over the clients that looks for the remote address; \<open>j\<close> is the result of \<open>match_ip\<close>.\<close>

definition is_remote :: "tcp_pcb \<Rightarrow> client \<Rightarrow> bool" where
  "is_remote pcb c \<longleftrightarrow> remote_port pcb = dest_port c \<and> match_ip (remote_ip pcb) (dest_ip c) = 4"

fun for_clients :: "(client \<Rightarrow> bool) \<Rightarrow> (nat \<Rightarrow> 'a tcp_st_scheme \<Rightarrow> 'a tcp_st_scheme) \<Rightarrow> nat list \<Rightarrow> 'a tcp_st_scheme \<Rightarrow> 'a tcp_st_scheme" where
  "for_clients P f [] s = s"
| "for_clients P f (i # is) s = for_clients P f is (if P (tcp_client_list s ! i) then f i s else s)"

definition tcp_echoclient_connection_close :: "lwip_tcp \<Rightarrow> nat \<Rightarrow> nat option \<Rightarrow> 'a tcp_st_scheme \<Rightarrow> 'a tcp_st_scheme" where
  "tcp_echoclient_connection_close lw tpcb es s =
     (let s = log_tcp [Tcp_Recv tpcb False, Tcp_Sent tpcb False, Tcp_Poll tpcb False 0] s;
          s = (case es of None \<Rightarrow> s | Some a \<Rightarrow> es_set a None s);
          s = log_tcp [Tcp_Abort tpcb] s
      in for_clients (is_remote (pcb_at lw tpcb)) (\<lambda>i. client_upd i (\<lambda>c. c\<lparr>tcp_client_statue := CLIENT_RE_CONNECT, echoclient_pcb := None,
           connect_is_ok := 0, connect_dely := 3\<rparr>)) [0, 1, 2, 3] s)"

definition tcp_echoclient_connected :: "lwip_tcp \<Rightarrow> nat \<Rightarrow> int \<Rightarrow> 'a tcp_st_scheme \<Rightarrow> int \<times> 'a tcp_st_scheme" where
  "tcp_echoclient_connected lw tpcb err s =
     (if err = ERR_OK then
        (case mem_malloc lw of
           Some es \<Rightarrow>
             let s = es_set es (Some \<lparr>es_state = ES_CONNECTED, es_pcb = tpcb, p_tx = (if pbuf_pool lw then [[]] else [])\<rparr>) s
             in if pbuf_pool lw then
                  let s = log_tcp [Tcp_Arg tpcb es, Tcp_Recv tpcb True, Tcp_Sent tpcb True, Tcp_Poll tpcb True 1] s;
                      s = for_clients (is_remote (pcb_at lw tpcb)) (\<lambda>i s. InitSendMsgQueue
                            (client_upd i (\<lambda>c. c\<lparr>tcp_client_statue := CLIENT_CONNECT_OK, connect_dely := 0\<rparr>) s)) [0, 1, 2, 3] s
                  in (ERR_OK, s)
                else (err, s)
         | None \<Rightarrow> (ERR_MEM, tcp_echoclient_connection_close lw tpcb None s))
      else (err, tcp_echoclient_connection_close lw tpcb None s))"

section \<open>Sending\<close>

text \<open>The loop of \<open>tcp_echoclient_send\<close> in its \<open>n\<close>-th round on the chain \<open>p_tx\<close>: the new chain, and what
  lwIP is told.\<close>

fun tcp_send_loop :: "lwip_tcp \<Rightarrow> nat \<Rightarrow> nat \<Rightarrow> u8 list list \<Rightarrow> u8 list list \<times> tcp_event list" where
  "tcp_send_loop lw tpcb n [] = ([], [])"
| "tcp_send_loop lw tpcb n (p # ps) =
     (if length p \<le> unat (tcp_sndbuf lw n) then
        if tcp_write lw n = ERR_OK then
          let (rest, es) = tcp_send_loop lw tpcb (Suc n) ps
          in (rest, [Tcp_Write tpcb p] @ (if ps \<noteq> [] then [Pbuf_Ref ps] else []) @ [Pbuf_Free (p # ps)] @ es)
        else (p # ps, [Tcp_Write tpcb p])
      else (p # ps, []))"

definition tcp_echoclient_send :: "lwip_tcp \<Rightarrow> nat \<Rightarrow> nat option \<Rightarrow> 'a tcp_st_scheme \<Rightarrow> 'a tcp_st_scheme result" where
  "tcp_echoclient_send lw tpcb p s =
     and_then (es_get p s) (\<lambda>es.
       let (rest, evs) = tcp_send_loop lw tpcb 0 (p_tx es)
       in Inr (log_tcp evs (es_set (the p) (Some (es\<lparr>p_tx := rest\<rparr>)) s)))"

definition tcp_echoclient_poll :: "lwip_tcp \<Rightarrow> nat option \<Rightarrow> nat \<Rightarrow> 'a tcp_st_scheme \<Rightarrow> (int \<times> 'a tcp_st_scheme) result" where
  "tcp_echoclient_poll lw arg tpcb s =
     (if arg \<noteq> None then
        and_then (es_get arg s) (\<lambda>es.
        and_then
          (if p_tx es \<noteq> [] then tcp_echoclient_send lw tpcb arg s
           else if es_state es = ES_CLOSING then Inr (tcp_echoclient_connection_close lw tpcb arg s)
           else Inr s)
          (\<lambda>s. Inr (ERR_OK, s)))
      else Inr (ERR_ABRT, log_tcp [Tcp_Abort tpcb] s))"

definition tcp_echoclient_sent :: "lwip_tcp \<Rightarrow> nat option \<Rightarrow> nat \<Rightarrow> 'a tcp_st_scheme \<Rightarrow> (int \<times> 'a tcp_st_scheme) result" where
  "tcp_echoclient_sent lw arg tpcb s =
     and_then (es_get arg s) (\<lambda>es.
     and_then (if p_tx es \<noteq> [] then tcp_echoclient_send lw tpcb arg s else Inr s) (\<lambda>s. Inr (ERR_OK, s)))"

section \<open>Receiving\<close>

text \<open>The copy loop, with a 16-bit counter here.\<close>

function copy_tcp :: "u8 list \<Rightarrow> nat \<Rightarrow> nat \<Rightarrow> nat \<Rightarrow> u8 list \<Rightarrow> u8 list result" where
  "copy_tcp payload tot off m buf =
     (if m < tot then
        and_then (rd payload m) (\<lambda>b. and_then (wr buf (off + m) b) (\<lambda>buf. copy_tcp payload tot off (Suc m) buf))
      else Inr buf)"
  by pat_completeness auto
termination
  by (relation "measure (\<lambda>(payload, tot, off, m, buf). tot - m)") auto

declare copy_tcp.simps [simp del]

text \<open>One client; the address is compared but the result is not used. \<open>m\<close> is \<open>None\<close> until the copy
  loop has set it.\<close>

definition tcp_receive_client ::
  "tcp_pcb \<Rightarrow> u8 list \<Rightarrow> u16 \<Rightarrow> nat \<Rightarrow> u16 option \<times> 'a tcp_st_scheme \<Rightarrow> (u16 option \<times> 'a tcp_st_scheme) result" where
  "tcp_receive_client pcb payload tot_len i = (\<lambda>(m, s).
     let c = tcp_client_list s ! i in
     if remote_port pcb = dest_port c \<and> tcp_client_statue c = CLIENT_CONNECT_OK then
       and_then
         (if tot_len \<le> 1500 then
            and_then (copy_tcp payload (unat tot_len) (unat (tcp_recev_len c)) 0 (tcp_recev_buf c))
              (\<lambda>buf. Inr (Some tot_len, client_upd i (\<lambda>c. c\<lparr>tcp_recev_buf := buf\<rparr>) s))
          else Inr (m, s))
         (\<lambda>(m, s). case m of
            None \<Rightarrow> Inl Undefined
          | Some k \<Rightarrow> Inr (m, client_upd i (\<lambda>c. c\<lparr>tcp_recev_len := tcp_recev_len c + k, tcp_client_statue := CLIENT_CONNECT_RECV\<rparr>) s))
     else Inr (m, s))"

text \<open>\<open>p\<close> is \<open>None\<close> for the null pointer, or the payload and the total length.\<close>

definition tcp_echoclient_recv ::
  "lwip_tcp \<Rightarrow> nat option \<Rightarrow> nat \<Rightarrow> (u8 list \<times> u16) option \<Rightarrow> int \<Rightarrow> 'a tcp_st_scheme \<Rightarrow> (int \<times> 'a tcp_st_scheme) result" where
  "tcp_echoclient_recv lw arg tpcb p err s =
     (case p of
        None \<Rightarrow>
          and_then (es_get arg s) (\<lambda>es.
            let s = es_set (the arg) (Some (es\<lparr>es_state := ES_CLOSING\<rparr>)) s
            in if p_tx es = [] then Inr (ERR_OK, tcp_echoclient_connection_close lw tpcb arg s)
               else and_then (tcp_echoclient_send lw tpcb arg s) (\<lambda>s. Inr (ERR_OK, s)))
      | Some (payload, tot_len) \<Rightarrow>
          if err \<noteq> ERR_OK then Inr (err, log_tcp [Pbuf_Free [payload]] s)
          else and_then (es_get arg s) (\<lambda>es.
            if es_state es = ES_CONNECTED then
              and_then (tcp_receive_client (pcb_at lw tpcb) payload tot_len 0 (None, s)) (\<lambda>r.
              and_then (tcp_receive_client (pcb_at lw tpcb) payload tot_len 1 r) (\<lambda>r.
              and_then (tcp_receive_client (pcb_at lw tpcb) payload tot_len 2 r) (\<lambda>r.
              and_then (tcp_receive_client (pcb_at lw tpcb) payload tot_len 3 r) (\<lambda>(m, s).
              Inr (ERR_OK, log_tcp [Tcp_Recved tpcb tot_len, Pbuf_Free [payload]] s)))))
            else Inr (ERR_OK, log_tcp [Tcp_Recved tpcb tot_len, Pbuf_Free [payload]] s)))"

section \<open>The process\<close>

text \<open>A null \<open>echoclient_pcb\<close> is dereferenced.\<close>

definition tcp_client_close_process :: "lwip_tcp \<Rightarrow> nat \<Rightarrow> 'a tcp_st_scheme \<Rightarrow> 'a tcp_st_scheme result" where
  "tcp_client_close_process lw k s =
     (if k < 4 then
        if tcp_client_statue (tcp_client_list s ! k) = CLIENT_CONNECT_OK then
          (case echoclient_pcb (tcp_client_list s ! k) of
             None \<Rightarrow> Inl Undefined
           | Some pcb \<Rightarrow> Inr (tcp_echoclient_connection_close lw pcb None s))
        else Inr s
      else Inr s)"

text \<open>The bytes \<open>tcp_write\<close> reads.\<close>

definition send_bytes :: "client \<Rightarrow> u8 list result" where
  "send_bytes c =
     (if unat (tcp_send_len c) \<le> length (tcp_send_buf c) then Inr (take (unat (tcp_send_len c)) (tcp_send_buf c)) else Inl Undefined)"

definition tcp_client_process :: "lwip_tcp \<Rightarrow> 'a tcp_st_scheme \<Rightarrow> 'a tcp_st_scheme result" where
  "tcp_client_process lw s =
     and_then
       (if tcp_client_statue (tcp_client_list s ! 0) = CLIENT_CONNECT_RECV then
          and_then (recv_message_from_sever (tcp_recev_buf (tcp_client_list s ! 0)) (tcp_recev_len (tcp_client_list s ! 0)) s)
            (\<lambda>(len, s). Inr (client_upd 0 (\<lambda>c. c\<lparr>tcp_recev_len := len, tcp_client_statue := CLIENT_CONNECT_OK\<rparr>) s))
        else Inr s)
       (\<lambda>s.
        let c = tcp_client_list s ! 0 in
        case echoclient_pcb c of
          None \<Rightarrow> Inl Undefined
        | Some p \<Rightarrow>
            let st = pcb_state (pcb_at lw p) in
            if st = CLOSED \<or> st = FIN_WAIT_1 \<or> st = FIN_WAIT_2 then
              if connect_dely c = 0 then tcp_echoclient_connect lw 0 s else Inr s
            else if st = SYN_SENT then
              if nrtx (pcb_at lw p) = TCP_SYNMAXRTX \<or> connect_dely c = 0
              then Inr (tcp_echoclient_connection_close lw p None s) else Inr s
            else if connect_is_ok c = 0 then creat_tcp_connect lw 0 s
            else if st = TIME_WAIT then Inr (log_tcp [Tcp_Abort p] s)
            else if st = ESTABLISHED then
              and_then
                (if tcp_send_en c = 1 then
                   and_then (send_bytes c) (\<lambda>b.
                   let s = log_tcp [Tcp_Write p b] s;
                       s = (if tcp_write lw 0 = ERR_OK then client_upd 0 (\<lambda>c. c\<lparr>tcp_send_en := 0\<rparr>) s else s)
                   in Inr (s\<lparr>heart_dely := 30\<rparr>))
                 else Inr s)
                (\<lambda>s.
                 if heart_dely s = 0 then
                   let (buf, len) = send_heart_msg (tcp_send_buf (tcp_client_list s ! 0)) HEART_MSG_TYPE;
                       s = client_upd 0 (\<lambda>c. c\<lparr>tcp_send_buf := buf, tcp_send_len := len\<rparr>) s
                   in and_then (send_bytes (tcp_client_list s ! 0)) (\<lambda>b. Inr ((log_tcp [Tcp_Write p b] s)\<lparr>heart_dely := 30\<rparr>))
                 else Inr s)
            else Inr s)"

section \<open>The clients with the remote address\<close>

lemma for_clients_clients:
  fixes f :: "nat \<Rightarrow> 'a tcp_st_scheme \<Rightarrow> 'a tcp_st_scheme"
  assumes f: "\<And>i u. i < length (tcp_client_list u) \<Longrightarrow> tcp_client_list (f i u) = (tcp_client_list u)[i := g (tcp_client_list u ! i)]"
    and "distinct ks" "\<forall>i\<in>set ks. i < length (tcp_client_list s)"
  shows "length (tcp_client_list (for_clients P f ks s)) = length (tcp_client_list s)
    \<and> (\<forall>j. tcp_client_list (for_clients P f ks s) ! j =
        (if j \<in> set ks \<and> P (tcp_client_list s ! j) then g (tcp_client_list s ! j) else tcp_client_list s ! j))"
  using assms(2,3)
proof (induction ks arbitrary: s)
  case (Cons i ks)
  let ?t = "if P (tcp_client_list s ! i) then f i s else s"
  have i: "i < length (tcp_client_list s)" "i \<notin> set ks" using Cons.prems by auto
  have l: "length (tcp_client_list ?t) = length (tcp_client_list s)" using f [OF i(1)] by simp
  have t: "tcp_client_list ?t ! j = (if j = i \<and> P (tcp_client_list s ! j) then g (tcp_client_list s ! j) else tcp_client_list s ! j)" for j
    using f [OF i(1)] i(1) by (cases "j = i") simp_all
  have "distinct ks" "\<forall>i\<in>set ks. i < length (tcp_client_list ?t)" using Cons.prems l by auto
  from Cons.IH [OF this] show ?case
    using l t i(2) by (auto simp del: if_split_asm)
qed simp

lemma set_four: "set [0, 1, 2, 3 :: nat] = {..<4}"
  by auto

declare for_clients.simps [simp del]

lemma for_clients_four:
  fixes f :: "nat \<Rightarrow> 'a tcp_st_scheme \<Rightarrow> 'a tcp_st_scheme"
  assumes f: "\<And>i u. i < length (tcp_client_list u) \<Longrightarrow> tcp_client_list (f i u) = (tcp_client_list u)[i := g (tcp_client_list u ! i)]"
    and "length (tcp_client_list s) = 4"
  shows "length (tcp_client_list (for_clients P f [0, 1, 2, 3] s)) = 4"
    "j < 4 \<Longrightarrow> tcp_client_list (for_clients P f [0, 1, 2, 3] s) ! j =
        (if P (tcp_client_list s ! j) then g (tcp_client_list s ! j) else tcp_client_list s ! j)"
proof -
  have "length (tcp_client_list (for_clients P f [0, 1, 2, 3] s)) = length (tcp_client_list s)
    \<and> (\<forall>j. tcp_client_list (for_clients P f [0, 1, 2, 3] s) ! j =
        (if j \<in> set [0, 1, 2, 3] \<and> P (tcp_client_list s ! j) then g (tcp_client_list s ! j) else tcp_client_list s ! j))"
    by (rule for_clients_clients) (simp_all add: f assms(2))
  then have r: "length (tcp_client_list (for_clients P f [0, 1, 2, 3] s)) = 4"
    "tcp_client_list (for_clients P f [0, 1, 2, 3] s) ! j =
        (if j \<in> {..<4} \<and> P (tcp_client_list s ! j) then g (tcp_client_list s ! j) else tcp_client_list s ! j)" for j
    unfolding set_four assms(2) by simp_all
  show "length (tcp_client_list (for_clients P f [0, 1, 2, 3] s)) = 4" by (rule r(1))
  show "j < 4 \<Longrightarrow> tcp_client_list (for_clients P f [0, 1, 2, 3] s) ! j =
        (if P (tcp_client_list s ! j) then g (tcp_client_list s ! j) else tcp_client_list s ! j)"
    using r(2) [of j] by simp
qed

text \<open>What closing leaves of a client.\<close>

definition dropped :: "client \<Rightarrow> client" where
  "dropped c = c\<lparr>tcp_client_statue := CLIENT_RE_CONNECT, echoclient_pcb := None, connect_is_ok := 0, connect_dely := 3\<rparr>"

lemma tcp_simps [simp]:
  "tcp_client_list (log_tcp es s) = tcp_client_list s" "tcp_client_list (es_set a e s) = tcp_client_list s"
  "es_heap (log_tcp es s) = es_heap s" "es_heap (es_set a e s) = (es_heap s)(a := e)"
  "es_heap (client_upd k f s) = es_heap s"
  by (simp_all add: log_tcp_def es_set_def client_upd_def)

lemma for_clients_heap: "(\<And>i u. es_heap (f i u) = es_heap u) \<Longrightarrow> es_heap (for_clients P f ks s) = es_heap s"
  by (induction ks arbitrary: s) (simp_all add: for_clients.simps)

lemma close_clients:
  assumes "length (tcp_client_list s) = 4"
  shows "i < 4 \<Longrightarrow> tcp_client_list (tcp_echoclient_connection_close lw tpcb es s) ! i =
      (if is_remote (pcb_at lw tpcb) (tcp_client_list s ! i) then dropped (tcp_client_list s ! i) else tcp_client_list s ! i)"
    "es_heap (tcp_echoclient_connection_close lw tpcb es s) = (case es of None \<Rightarrow> es_heap s | Some a \<Rightarrow> (es_heap s)(a := None))"
proof -
  let ?s = "log_tcp [Tcp_Abort tpcb] (case es of None \<Rightarrow> log_tcp [Tcp_Recv tpcb False, Tcp_Sent tpcb False, Tcp_Poll tpcb False 0] s
     | Some a \<Rightarrow> es_set a None (log_tcp [Tcp_Recv tpcb False, Tcp_Sent tpcb False, Tcp_Poll tpcb False 0] s))"
  have s: "tcp_client_list ?s = tcp_client_list s" by (simp split: option.split)
  let ?f = "\<lambda>i. client_upd i (\<lambda>c. c\<lparr>tcp_client_statue := CLIENT_RE_CONNECT, echoclient_pcb := None,
           connect_is_ok := 0, connect_dely := 3\<rparr>)"
  have c: "tcp_echoclient_connection_close lw tpcb es s = for_clients (is_remote (pcb_at lw tpcb)) ?f [0, 1, 2, 3] ?s"
    by (simp only: tcp_echoclient_connection_close_def Let_def)
  have f: "tcp_client_list (?f i u) = (tcp_client_list u)[i := dropped (tcp_client_list u ! i)]" for i and u :: "'a tcp_st_scheme"
    by (simp add: client_upd_def dropped_def)
  show "tcp_client_list (tcp_echoclient_connection_close lw tpcb es s) ! i =
      (if is_remote (pcb_at lw tpcb) (tcp_client_list s ! i) then dropped (tcp_client_list s ! i) else tcp_client_list s ! i)" if "i < 4"
    unfolding c using for_clients_four(2) [where f = ?f and g = dropped and s = ?s, OF f] that assms s by simp
  show "es_heap (tcp_echoclient_connection_close lw tpcb es s) = (case es of None \<Rightarrow> es_heap s | Some a \<Rightarrow> (es_heap s)(a := None))"
    unfolding c by (subst for_clients_heap) (simp_all split: option.split)
qed

section \<open>A received segment\<close>

lemma copy_tcp_copies:
  "m \<le> tot \<Longrightarrow> length payload = tot \<Longrightarrow> off + tot \<le> length buf \<Longrightarrow>
   copy_tcp payload tot off m buf = Inr (blit buf (off + m) (drop m payload))"
proof (induction payload tot off m buf rule: copy_tcp.induct)
  case (1 payload tot off m buf)
  show ?case
  proof (cases "m < tot")
    case True
    then have d: "drop m payload = payload ! m # drop (Suc m) payload" using 1(3) by (simp add: Cons_nth_drop_Suc)
    show ?thesis
      using 1 True by (subst copy_tcp.simps) (simp add: d)
  next
    case False
    then show ?thesis using 1 by (subst copy_tcp.simps) simp
  qed
qed

definition listening :: "tcp_pcb \<Rightarrow> client \<Rightarrow> bool" where
  "listening pcb c \<longleftrightarrow> remote_port pcb = dest_port c \<and> tcp_client_statue c = CLIENT_CONNECT_OK"

definition taken :: "u8 list \<Rightarrow> client \<Rightarrow> client" where
  "taken payload c = c\<lparr>tcp_recev_buf := blit (tcp_recev_buf c) 0 payload, tcp_recev_len := of_nat (length payload),
     tcp_client_statue := CLIENT_CONNECT_RECV\<rparr>"

text \<open>What the receiver needs of the clients.\<close>

definition buffers_ok :: "'a tcp_st_scheme \<Rightarrow> bool" where
  "buffers_ok s \<longleftrightarrow> length (tcp_client_list s) = 4 \<and> (\<forall>c\<in>set (tcp_client_list s). length (tcp_recev_buf c) = 1500
     \<and> (tcp_client_statue c = CLIENT_CONNECT_OK \<longrightarrow> tcp_recev_len c = 0))"

lemma buffers_ok_taken: "buffers_ok s \<Longrightarrow> buffers_ok (client_upd i (taken payload) s)"
  by (cases "i < 4") (auto simp: buffers_ok_def client_upd_def taken_def list_update_beyond
      dest: set_update_subset_insert [THEN subsetD])

lemma tcp_receive_step:
  assumes ok: "buffers_ok s" and i: "i < 4" and n: "length payload = unat tot" "unat tot \<le> 1500"
  shows "\<exists>m'. tcp_receive_client pcb payload tot i (m, s) =
      Inr (m', if listening pcb (tcp_client_list s ! i) then client_upd i (taken payload) s else s)"
proof (cases "listening pcb (tcp_client_list s ! i)")
  case True
  let ?c = "tcp_client_list s ! i"
  have c: "length (tcp_recev_buf ?c) = 1500" "tcp_recev_len ?c = 0" "length (tcp_client_list s) = 4"
    using ok True i by (auto simp: buffers_ok_def listening_def)
  have "tot \<le> 1500" using n(2) by (simp add: word_le_nat_alt)
  moreover have "copy_tcp payload (unat tot) 0 0 (tcp_recev_buf ?c) = Inr (blit (tcp_recev_buf ?c) 0 payload)"
    using copy_tcp_copies [of 0 "unat tot" payload 0 "tcp_recev_buf ?c"] n c(1) by simp
  ultimately show ?thesis
    using True i c n(1) by (simp add: tcp_receive_client_def listening_def client_upd_def taken_def Let_def)
next
  case False
  then show ?thesis unfolding tcp_receive_client_def Let_def prod.case listening_def [symmetric] by simp
qed

section \<open>Properties\<close>

text \<open>C40: A received TCP segment of up to 1500 bytes is handed to every connected client whose server has
  the remote port, whatever the remote address is, and to no other client: the comparison of the
  address has no effect, so the clients 1 and 2, which have the same port, get each other's data.\<close>

theorem tcp_segment_goes_to_port:
  assumes "fun_inv s" "es_get arg s = Inr es" "es_state es = ES_CONNECTED"
    and "length payload = unat tot" "unat tot \<le> 1500"
  shows "\<exists>s'. tcp_echoclient_recv lw arg tpcb (Some (payload, tot)) ERR_OK s = Inr (ERR_OK, s')
    \<and> (\<forall>i<4. let c = tcp_client_list s ! i in tcp_client_list s' ! i =
         (if remote_port (pcb_at lw tpcb) = dest_port c \<and> tcp_client_statue c = CLIENT_CONNECT_OK
          then c\<lparr>tcp_recev_buf := blit (tcp_recev_buf c) 0 payload, tcp_recev_len := tot, tcp_client_statue := CLIENT_CONNECT_RECV\<rparr>
          else c))"
proof -
  let ?p = "pcb_at lw tpcb"
  define f where "f i s = (if listening ?p (tcp_client_list s ! i) then client_upd i (taken payload) s else s)" for i and s :: "'a tcp_st_scheme"
  have ok: "buffers_ok s" using assms(1) by (auto simp: buffers_ok_def fun_inv_def client_ok_def split: if_splits)
  have keep: "buffers_ok (f i u)" if "buffers_ok u" for i u using buffers_ok_taken [OF that] that by (simp add: f_def)
  have step: "\<exists>m'. tcp_receive_client ?p payload tot i (m, u) = Inr (m', f i u)" if "buffers_ok u" "i < 4" for i m u
    using tcp_receive_step [OF that assms(4,5)] by (simp add: f_def)
  obtain m0 where 0: "tcp_receive_client ?p payload tot 0 (None, s) = Inr (m0, f 0 s)" using step [OF ok, of 0] by fastforce
  obtain m1 where 1: "tcp_receive_client ?p payload tot 1 (m0, f 0 s) = Inr (m1, f 1 (f 0 s))"
    using step [OF keep [OF ok], of 1] by fastforce
  obtain m2 where 2: "tcp_receive_client ?p payload tot 2 (m1, f 1 (f 0 s)) = Inr (m2, f 2 (f 1 (f 0 s)))"
    using step [OF keep [OF keep [OF ok]], of 2] by fastforce
  obtain m3 where 3: "tcp_receive_client ?p payload tot 3 (m2, f 2 (f 1 (f 0 s))) = Inr (m3, f 3 (f 2 (f 1 (f 0 s))))"
    using step [OF keep [OF keep [OF keep [OF ok]]], of 3] by fastforce
  let ?s = "log_tcp [Tcp_Recved tpcb tot, Pbuf_Free [payload]] (f 3 (f 2 (f 1 (f 0 s))))"
  have run: "tcp_echoclient_recv lw arg tpcb (Some (payload, tot)) ERR_OK s = Inr (ERR_OK, ?s)"
    by (simp add: tcp_echoclient_recv_def assms(2,3) 0 1 [unfolded One_nat_def] 2 [unfolded One_nat_def] 3 [unfolded One_nat_def])
  have chain: "f 3 (f 2 (f 1 (f 0 s))) = for_clients (listening ?p) (\<lambda>i. client_upd i (taken payload)) [0, 1, 2, 3] s"
    by (simp add: f_def for_clients.simps)
  have "tcp_client_list ?s ! i = (if listening ?p (tcp_client_list s ! i) then taken payload (tcp_client_list s ! i) else tcp_client_list s ! i)"
    if "i < 4" for i
    using for_clients_four(2) [of "\<lambda>i. client_upd i (taken payload)" "taken payload" s i "listening ?p"] that ok
    by (simp add: chain [unfolded One_nat_def] client_upd_def buffers_ok_def)
  then show ?thesis
    using run assms(4) by (intro exI [of _ ?s]) (simp add: listening_def taken_def Let_def)
qed

text \<open>The life of a TCP connection: when lwIP reports the connection and memory is available, every
  client whose server it is becomes connected with an empty queue of messages and the connection gets
  its structure; when the remote side closes, the rest of the chain is sent, and the next poll drops
  the connection: the structure is freed and exactly these clients wait to connect again.\<close>

theorem tcp_connection_lifecycle:
  assumes "length (tcp_client_list s) = 4" "mem_malloc lw = Some es" "pbuf_pool lw" "tcp_write lw 0 = ERR_OK"
  shows "\<exists>s1 s2 s3. tcp_echoclient_connected lw tpcb ERR_OK s = (ERR_OK, s1)
    \<and> (\<forall>i<4. let c = tcp_client_list s ! i in tcp_client_list s1 ! i =
         (if is_remote (pcb_at lw tpcb) c then c\<lparr>tcp_client_statue := CLIENT_CONNECT_OK, connect_dely := 0\<rparr> else c))
    \<and> es_heap s1 es = Some \<lparr>es_state = ES_CONNECTED, es_pcb = tpcb, p_tx = [[]]\<rparr>
    \<and> tcp_echoclient_recv lw (Some es) tpcb None err s1 = Inr (ERR_OK, s2)
    \<and> tcp_echoclient_poll lw (Some es) tpcb s2 = Inr (ERR_OK, s3) \<and> es_heap s3 es = None
    \<and> (\<forall>i<4. let c = tcp_client_list s ! i in tcp_client_list s3 ! i =
         (if is_remote (pcb_at lw tpcb) c
          then c\<lparr>tcp_client_statue := CLIENT_RE_CONNECT, echoclient_pcb := None, connect_is_ok := 0, connect_dely := 3\<rparr> else c))"
proof -
  define up where "up c = c\<lparr>tcp_client_statue := CLIENT_CONNECT_OK, connect_dely := 0\<rparr>" for c :: client
  let ?f = "\<lambda>i (s :: 'a tcp_st_scheme). InitSendMsgQueue (client_upd i (\<lambda>c. c\<lparr>tcp_client_statue := CLIENT_CONNECT_OK, connect_dely := 0\<rparr>) s)"
  let ?e = "\<lparr>es_state = ES_CONNECTED, es_pcb = tpcb, p_tx = [[]]\<rparr>"
  let ?t = "log_tcp [Tcp_Arg tpcb es, Tcp_Recv tpcb True, Tcp_Sent tpcb True, Tcp_Poll tpcb True 1] (es_set es (Some ?e) s)"
  define s1 where "s1 = for_clients (is_remote (pcb_at lw tpcb)) ?f [0, 1, 2, 3] ?t"
  have con: "tcp_echoclient_connected lw tpcb ERR_OK s = (ERR_OK, s1)"
    using assms(2,3) by (simp add: tcp_echoclient_connected_def s1_def Let_def)
  have l: "length (tcp_client_list ?t) = 4" using assms(1) by simp
  have f: "tcp_client_list (?f i u) = (tcp_client_list u)[i := up (tcp_client_list u ! i)]" for i u
    by (simp add: client_upd_def InitSendMsgQueue_def up_def)
  have l1: "length (tcp_client_list s1) = 4" unfolding s1_def by (rule for_clients_four(1) [where g = up, OF f l])
  have c1: "tcp_client_list s1 ! i = (if is_remote (pcb_at lw tpcb) (tcp_client_list s ! i) then up (tcp_client_list s ! i) else tcp_client_list s ! i)"
    if "i < 4" for i
    using for_clients_four(2) [where g = up and j = i and P = "is_remote (pcb_at lw tpcb)", OF f l] that unfolding s1_def by simp
  have h1: "es_heap s1 es = Some ?e"
    unfolding s1_def by (subst for_clients_heap) (simp_all add: InitSendMsgQueue_def)
  let ?c = "\<lparr>es_state = ES_CLOSING, es_pcb = tpcb, p_tx = [[]]\<rparr>" and ?d = "\<lparr>es_state = ES_CLOSING, es_pcb = tpcb, p_tx = []\<rparr>"
  define s2 where "s2 = log_tcp [Tcp_Write tpcb [], Pbuf_Free [[]]] (es_set es (Some ?d) (es_set es (Some ?c) s1))"
  have rec: "tcp_echoclient_recv lw (Some es) tpcb None err s1 = Inr (ERR_OK, s2)"
    using assms(4) by (simp add: tcp_echoclient_recv_def es_get_def h1 tcp_echoclient_send_def Let_def s2_def)
  let ?s3 = "tcp_echoclient_connection_close lw tpcb (Some es) s2"
  have poll: "tcp_echoclient_poll lw (Some es) tpcb s2 = Inr (ERR_OK, ?s3)"
    by (simp add: tcp_echoclient_poll_def es_get_def s2_def)
  have s2: "tcp_client_list s2 = tcp_client_list s1" by (simp add: s2_def)
  have up: "is_remote p (up c) = is_remote p c" "dropped (up c) = dropped c" for p and c :: client by (simp_all add: up_def is_remote_def dropped_def)
  have c3: "tcp_client_list ?s3 ! i = (if is_remote (pcb_at lw tpcb) (tcp_client_list s ! i) then dropped (tcp_client_list s ! i) else tcp_client_list s ! i)"
    if "i < 4" for i
    using close_clients(1) [of s2 i lw tpcb "Some es"] l1 c1 that by (simp add: s2 up)
  have "es_heap ?s3 es = None" using close_clients(2) [of s2 lw tpcb "Some es"] l1 by (simp add: s2)
  then show ?thesis
    using con c1 h1 rec poll c3 by (intro exI [of _ s1] exI [of _ s2] exI [of _ ?s3]) (simp add: up_def dropped_def Let_def)
qed

text \<open>The process needs a control block: with the null pointer it has at the start it dereferences it.\<close>

lemma tcp_client_process_null:
  assumes "echoclient_pcb (tcp_client_list s ! 0) = None" "tcp_client_statue (tcp_client_list s ! 0) \<noteq> CLIENT_CONNECT_RECV"
  shows "tcp_client_process lw s = Inl Undefined"
  using assms by (simp add: tcp_client_process_def Let_def)

text \<open>The chain is sent in order: what is written is a prefix of the chain, the last write possibly
  refused, and what is left is the rest.\<close>

lemma tcp_send_loop_order:
  "tcp_send_loop lw tpcb n ps = (rest, es) \<Longrightarrow>
   \<exists>sent. ps = sent @ rest \<and> (\<exists>refused. [b. Tcp_Write q b \<leftarrow> es] = sent @ refused \<and> length refused \<le> 1)"
proof (induction ps arbitrary: n rest es)
  case (Cons p ps)
  consider "length p > unat (tcp_sndbuf lw n)" | "length p \<le> unat (tcp_sndbuf lw n)" "tcp_write lw n \<noteq> 0"
    | "length p \<le> unat (tcp_sndbuf lw n)" "tcp_write lw n = 0" by linarith
  then show ?case
  proof cases
    case 3
    obtain r e where re: "tcp_send_loop lw tpcb (Suc n) ps = (r, e)" by fastforce
    obtain sent refused where "ps = sent @ r" "[b. Tcp_Write q b \<leftarrow> e] = sent @ refused" "length refused \<le> 1"
      using Cons.IH [OF re] by blast
    then show ?thesis using Cons.prems 3 re by (intro exI [of _ "p # sent"] conjI exI [of _ refused]) auto
  qed (use Cons.prems in auto)
qed simp

subsection \<open>Witnesses\<close>

definition tcp_demo :: tcp_st where
  "tcp_demo = udp_st.extend udp_ready \<lparr>es_heap = (\<lambda>a. if a = 7 then Some \<lparr>es_state = ES_CONNECTED, es_pcb = 1, p_tx = []\<rparr> else None),
     tcp_log = []\<rparr>"

definition lwip_tcp_up :: lwip_tcp where
  "lwip_tcp_up = \<lparr>tcp_new = Some 1, pcb_at = (\<lambda>_. \<lparr>pcb_state = ESTABLISHED, nrtx = 0, remote_ip = 0x6E0AA8C0, remote_port = 9000\<rparr>),
     mem_malloc = Some 8, pbuf_pool = True, tcp_sndbuf = (\<lambda>_. 1000), tcp_write = (\<lambda>_. 0)\<rparr>"

lemma tcp_demo_facts: "fun_inv tcp_demo" "tcp_client_list tcp_demo = tcp_client_list udp_ready"
  using udp_ready_inv by (simp_all add: tcp_demo_def fun_inv_def usart_inv_def udp_st.defs)

theorem tcp_segment_goes_to_port_witness:
  "\<exists>s'. tcp_echoclient_recv lwip_tcp_up (Some 7) 1 (Some ([1, 2], 2)) 0 tcp_demo = Inr (0, s')
    \<and> tcp_recev_len (tcp_client_list s' ! 1) = 2 \<and> tcp_recev_len (tcp_client_list s' ! 2) = 2 \<and> tcp_recev_len (tcp_client_list s' ! 3) = 0"
proof -
  have g: "es_get (Some 7) tcp_demo = Inr \<lparr>es_state = ES_CONNECTED, es_pcb = 1, p_tx = []\<rparr>"
    by (simp add: es_get_def tcp_demo_def udp_st.defs)
  show ?thesis
    using tcp_segment_goes_to_port [OF tcp_demo_facts(1) g, of "[1, 2]" 2 lwip_tcp_up 1]
    by (auto simp: less_4 tcp_demo_facts(2) udp_ready_def lwip_tcp_up_def server_def client_bss_def Let_def)
qed

theorem tcp_connection_lifecycle_witness:
  "\<exists>s1. tcp_echoclient_connected lwip_tcp_up 1 0 tcp_demo = (0, s1) \<and> tcp_client_statue (tcp_client_list s1 ! 1) = CLIENT_CONNECT_OK
    \<and> (\<exists>s2 s3. tcp_echoclient_recv lwip_tcp_up (Some 8) 1 None 0 s1 = Inr (0, s2) \<and> tcp_echoclient_poll lwip_tcp_up (Some 8) 1 s2 = Inr (0, s3)
         \<and> tcp_client_statue (tcp_client_list s3 ! 1) = CLIENT_RE_CONNECT)"
proof -
  have "is_remote (pcb_at lwip_tcp_up 1) (tcp_client_list tcp_demo ! 1)"
    by (simp add: is_remote_def match_ip_def lwip_tcp_up_def tcp_demo_facts(2) udp_ready_def server_def byte_of32_def
        drop_bit_eq_div word_div_def)
  moreover have "length (tcp_client_list tcp_demo) = 4" using tcp_demo_facts(1) by (rule clients_length)
  ultimately show ?thesis
    using tcp_connection_lifecycle [of tcp_demo lwip_tcp_up 8 1 0] by (auto simp: lwip_tcp_up_def Let_def less_4)
qed

end
