(* ===== verification/Pbuf.thy ===== *)
theory Pbuf
  imports Prelude
begin

text \<open>
  The packet buffers of lwIP (\<open>src/core/pbuf.c\<close>), as far as the firmware and the modelled layers use
  them. A chain is the list of its \<open>pbuf\<close> structures; the functions take over and return whole
  chains, whose structures have the reference count 1: \<open>pbuf_ref\<close>, \<open>pbuf_chain\<close> and \<open>pbuf_dechain\<close>
  are not modelled. A structure is kept with the memory behind it, so that hidden headers and bytes
  beyond the length are still there. The assertions are no code: \<open>LWIP_PLATFORM_ASSERT\<close> tests the
  message and not the condition.
\<close>

section \<open>State\<close>

datatype err = ERR_OK | ERR_MEM | ERR_BUF | ERR_RTE | ERR_USE | ERR_VAL | ERR_ARG

datatype pbuf_layer = PBUF_TRANSPORT | PBUF_IP | PBUF_LINK | PBUF_RAW

datatype pbuf_type = PBUF_RAM | PBUF_ROM | PBUF_REF | PBUF_POOL

record pnode =
  p_type :: pbuf_type
  p_mem :: "u8 list"      \<comment> \<open>the memory behind the structure\<close>
  p_payload :: nat        \<comment> \<open>where the payload begins in it\<close>
  p_len :: u16
  p_tot_len :: u16

type_synonym chain = "pnode list"

text \<open>The pools of \<open>memp.c\<close> are their numbers of free elements, the heap of \<open>mem.c\<close> the number of
  its live blocks. \<open>ram_ok\<close> says which requests the heap grants, \<open>junk\<close> what fresh memory holds; both
  are arbitrary functions of the number of requests so far.\<close>

record mem_st =
  pool_free :: nat
  ref_free :: nat
  arpq_free :: nat
  ram_live :: nat
  requests :: nat
  ram_ok :: "nat \<Rightarrow> nat \<Rightarrow> bool"
  junk :: "nat \<Rightarrow> nat \<Rightarrow> u8"

definition fresh_mem :: "nat \<Rightarrow> 'a mem_st_scheme \<Rightarrow> u8 list" where
  "fresh_mem n s = map (junk s (requests s)) [0..<n]"

definition memp_pool :: "'a mem_st_scheme \<Rightarrow> (u8 list \<times> 'a mem_st_scheme) option" where
  "memp_pool s =
     (if pool_free s = 0 then None
      else Some (fresh_mem 1500 s, s\<lparr>pool_free := pool_free s - 1, requests := requests s + 1\<rparr>))"

definition mem_malloc :: "nat \<Rightarrow> 'a mem_st_scheme \<Rightarrow> bool \<times> 'a mem_st_scheme" where
  "mem_malloc n s =
     (if ram_ok s (requests s) n then (True, s\<lparr>ram_live := ram_live s + 1, requests := requests s + 1\<rparr>)
      else (False, s\<lparr>requests := requests s + 1\<rparr>))"

section \<open>Operations\<close>

definition align4 :: "nat \<Rightarrow> nat" where
  "align4 n = (n + 3) div 4 * 4"

definition layer_offset :: "pbuf_layer \<Rightarrow> nat" where
  "layer_offset l = (case l of PBUF_TRANSPORT \<Rightarrow> 20 + 20 + 14 | PBUF_IP \<Rightarrow> 20 + 14 | PBUF_LINK \<Rightarrow> 14 | PBUF_RAW \<Rightarrow> 0)"

abbreviation (input) "PBUF_POOL_BUFSIZE \<equiv> 1500 :: nat"

definition free_node :: "pnode \<Rightarrow> 'a mem_st_scheme \<Rightarrow> 'a mem_st_scheme" where
  "free_node p s = (case p_type p of
      PBUF_POOL \<Rightarrow> s\<lparr>pool_free := pool_free s + 1\<rparr>
    | PBUF_RAM \<Rightarrow> s\<lparr>ram_live := ram_live s - 1\<rparr>
    | _ \<Rightarrow> s\<lparr>ref_free := ref_free s + 1\<rparr>)"

fun pbuf_free :: "chain \<Rightarrow> 'a mem_st_scheme \<Rightarrow> 'a mem_st_scheme" where
  "pbuf_free [] s = s"
| "pbuf_free (p # ps) s = pbuf_free ps (free_node p s)"

text \<open>The loop that allocates the tail of a chain from the pool. The result has the structures so far
  and whether the pool was sufficient.\<close>

function pool_tail :: "nat \<Rightarrow> 'a mem_st_scheme \<Rightarrow> chain \<times> bool \<times> 'a mem_st_scheme" where
  "pool_tail rem s =
     (if rem = 0 then ([], True, s)
      else case memp_pool s of
        None \<Rightarrow> ([], False, s)
      | Some (mem, s) \<Rightarrow>
          let l = min rem PBUF_POOL_BUFSIZE;
              q = \<lparr>p_type = PBUF_POOL, p_mem = mem, p_payload = 0, p_len = of_nat l, p_tot_len = of_nat rem\<rparr>;
              (qs, ok, s) = pool_tail (rem - l) s
          in (q # qs, ok, s))"
  by pat_completeness auto
termination
  by (relation "measure fst") auto

declare pool_tail.simps [simp del]

definition pbuf_alloc :: "pbuf_layer \<Rightarrow> u16 \<Rightarrow> pbuf_type \<Rightarrow> 'a mem_st_scheme \<Rightarrow> chain option \<times> 'a mem_st_scheme" where
  "pbuf_alloc layer sz type s =
     (let offset = layer_offset layer in
      case type of
        PBUF_POOL \<Rightarrow>
          (case memp_pool s of
             None \<Rightarrow> (None, s)
           | Some (mem, s) \<Rightarrow>
               let l = min (unat sz) (PBUF_POOL_BUFSIZE - align4 offset);
                   p = \<lparr>p_type = PBUF_POOL, p_mem = mem, p_payload = align4 offset, p_len = of_nat l, p_tot_len = sz\<rparr>;
                   (qs, ok, s) = pool_tail (unat sz - l) s
               in if ok then (Some (p # qs), s) else (None, pbuf_free (p # qs) s))
      | PBUF_RAM \<Rightarrow>
          (let mem = fresh_mem (align4 offset + align4 (unat sz)) s;
               (ok, s) = mem_malloc (16 + align4 offset + align4 (unat sz)) s
           in if ok then (Some [\<lparr>p_type = PBUF_RAM, p_mem = mem, p_payload = align4 offset, p_len = sz, p_tot_len = sz\<rparr>], s)
              else (None, s))
      | _ \<Rightarrow>
          if ref_free s = 0 then (None, s)
          else (Some [\<lparr>p_type = type, p_mem = [], p_payload = 0, p_len = sz, p_tot_len = sz\<rparr>],
                s\<lparr>ref_free := ref_free s - 1\<rparr>))"

text \<open>The kept structures and those to be freed. Running off the chain dereferences a null pointer.\<close>

fun realloc_nodes :: "u16 \<Rightarrow> u16 \<Rightarrow> chain \<Rightarrow> (chain \<times> chain) result" where
  "realloc_nodes rem_len grow [] = Inl Undefined"
| "realloc_nodes rem_len grow (q # qs) =
     (if rem_len > p_len q then
        and_then (realloc_nodes (rem_len - p_len q) grow qs) (\<lambda>(kept, gone). Inr (q\<lparr>p_tot_len := p_tot_len q + grow\<rparr> # kept, gone))
      else Inr ([q\<lparr>p_len := rem_len, p_tot_len := rem_len\<rparr>], qs))"

definition pbuf_realloc :: "chain \<Rightarrow> u16 \<Rightarrow> 'a mem_st_scheme \<Rightarrow> (chain \<times> 'a mem_st_scheme) result" where
  "pbuf_realloc p new_len s =
     (if new_len \<ge> p_tot_len (hd p) then Inr (p, s)
      else and_then (realloc_nodes new_len (new_len - p_tot_len (hd p)) p) (\<lambda>(kept, gone). Inr (kept, pbuf_free gone s)))"

text \<open>\<open>None\<close>: the call fails and leaves the chain as it is.\<close>

definition pbuf_header :: "chain \<Rightarrow> int \<Rightarrow> chain option" where
  "pbuf_header p inc = (case p of
      [] \<Rightarrow> Some []
    | q # qs \<Rightarrow>
        let moved = q\<lparr>p_payload := nat (int (p_payload q) - inc), p_len := p_len q + of_int inc, p_tot_len := p_tot_len q + of_int inc\<rparr> # qs in
        if inc = 0 then Some p
        else if inc < 0 \<and> unat (p_len q) < nat (- inc) then None
        else if p_type q = PBUF_RAM \<or> p_type q = PBUF_POOL then (if int (p_payload q) < inc then None else Some moved)
        else if inc < 0 then Some moved else None)"

definition pbuf_clen :: "chain \<Rightarrow> u8" where
  "pbuf_clen p = of_nat (length p)"

definition pbuf_cat :: "chain \<Rightarrow> chain \<Rightarrow> chain" where
  "pbuf_cat h t = (if h = [] \<or> t = [] then h else map (\<lambda>p. p\<lparr>p_tot_len := p_tot_len p + p_tot_len (hd t)\<rparr>) h @ t)"

text \<open>Reading and writing at an offset from the payload of a structure.\<close>

definition read_at :: "pnode \<Rightarrow> nat \<Rightarrow> nat \<Rightarrow> u8 list result" where
  "read_at p i n = (if p_payload p + i + n \<le> length (p_mem p) then Inr (take n (drop (p_payload p + i) (p_mem p))) else Inl Undefined)"

definition write_at :: "pnode \<Rightarrow> nat \<Rightarrow> u8 list \<Rightarrow> pnode result" where
  "write_at p i bs = (if p_payload p + i + length bs \<le> length (p_mem p) then Inr (p\<lparr>p_mem := blit (p_mem p) (p_payload p + i) bs\<rparr>)
     else Inl Undefined)"

text \<open>The \<open>do\<close> loop of \<open>pbuf_copy\<close>; \<open>to\<close> and \<open>from\<close> are the rests of the chains, \<open>ot\<close> and \<open>fo\<close> the offsets
  in their first structures. The result is the error code and the rest of the target.\<close>

definition one_packet :: "chain \<Rightarrow> bool" where
  "one_packet p = (case p of [] \<Rightarrow> True | q # qs \<Rightarrow> p_len q \<noteq> p_tot_len q \<or> qs = [])"

function copy_nodes :: "chain \<Rightarrow> u16 \<Rightarrow> chain \<Rightarrow> u16 \<Rightarrow> (err \<times> chain) result" where
  "copy_nodes [] ot from fo = Inl Undefined"
| "copy_nodes (t # ts) ot [] fo = Inl Undefined"
| "copy_nodes (t # ts) ot (f # fs) fo =
     (let len = (if uint (p_len t) - uint ot \<ge> uint (p_len f) - uint fo then p_len f - fo else p_len t - ot) in
      and_then (read_at f (unat fo) (unat len)) (\<lambda>bs.
      and_then (write_at t (unat ot) bs) (\<lambda>t'.
        let ot' = ot + len; fo' = fo + len;
            to_done = (ot' = p_len t); from_done = (fo' \<ge> p_len f);
            to' = (if to_done then ts else t' # ts); from' = (if from_done then fs else f # fs);
            back = (\<lambda>(e, rest). (e, if to_done then t' # rest else rest))
        in if \<not> one_packet from' \<or> \<not> one_packet to' then Inr (ERR_VAL, t' # ts)
           else if from' = [] then Inr (ERR_OK, t' # ts)
           else and_then (copy_nodes to' (if to_done then 0 else ot') from' (if from_done then 0 else fo')) (\<lambda>r. Inr (back r)))))"
  by pat_completeness auto
termination
  by (relation "measure (\<lambda>(to, ot, from, fo). length to + length from)") (auto simp: Let_def split: if_splits)

declare copy_nodes.simps(3) [simp del]

definition pbuf_copy :: "chain \<Rightarrow> chain \<Rightarrow> (err \<times> chain) result" where
  "pbuf_copy to from =
     (if to = [] \<or> from = [] \<or> p_tot_len (hd to) < p_tot_len (hd from) then Inr (ERR_ARG, to)
      else copy_nodes to 0 from 0)"

text \<open>The loop of \<open>pbuf_copy_partial\<close>: the bytes copied.\<close>

fun copy_out :: "chain \<Rightarrow> u16 \<Rightarrow> u16 \<Rightarrow> u8 list result" where
  "copy_out [] len offset = Inr []"
| "copy_out (p # ps) len offset =
     (if len = 0 then Inr []
      else if offset \<noteq> 0 \<and> offset \<ge> p_len p then copy_out ps len (offset - p_len p)
      else let n = (if p_len p - offset > len then len else p_len p - offset) in
        and_then (read_at p (unat offset) (unat n)) (\<lambda>bs.
        and_then (copy_out ps (len - n) 0) (\<lambda>r. Inr (bs @ r))))"

definition pbuf_copy_partial :: "chain \<Rightarrow> u16 \<Rightarrow> u16 \<Rightarrow> u8 list result" where
  "pbuf_copy_partial buf len offset = copy_out buf len offset"

fun take_nodes :: "chain \<Rightarrow> u8 list \<Rightarrow> chain result" where
  "take_nodes [] bs = (if bs = [] then Inr [] else Inl Undefined)"
| "take_nodes (p # ps) bs =
     (if bs = [] then Inr (p # ps)
      else and_then (write_at p 0 (take (unat (p_len p)) bs)) (\<lambda>p'.
           and_then (take_nodes ps (drop (unat (p_len p)) bs)) (\<lambda>ps'. Inr (p' # ps'))))"

text \<open>\<open>data\<close> are the \<open>len\<close> bytes given.\<close>

definition pbuf_take :: "chain \<Rightarrow> u8 list \<Rightarrow> (err \<times> chain) result" where
  "pbuf_take buf data =
     (if buf = [] \<or> unat (p_tot_len (hd buf)) < length data then Inr (ERR_ARG, buf)
      else and_then (take_nodes buf data) (\<lambda>b. Inr (ERR_OK, b)))"

definition pbuf_coalesce :: "chain \<Rightarrow> pbuf_layer \<Rightarrow> 'a mem_st_scheme \<Rightarrow> (chain \<times> 'a mem_st_scheme) result" where
  "pbuf_coalesce p layer s =
     (if length p \<le> 1 then Inr (p, s)
      else case pbuf_alloc layer (p_tot_len (hd p)) PBUF_RAM s of
        (None, s) \<Rightarrow> Inr (p, s)
      | (Some q, s) \<Rightarrow> and_then (pbuf_copy q p) (\<lambda>(e, q). Inr (q, pbuf_free p s)))"

section \<open>Well-formed chains and their bytes\<close>

definition pbytes :: "pnode \<Rightarrow> u8 list" where
  "pbytes p = take (unat (p_len p)) (drop (p_payload p) (p_mem p))"

definition chain_bytes :: "chain \<Rightarrow> u8 list" where
  "chain_bytes c = concat (map pbytes c)"

definition node_ok :: "pnode \<Rightarrow> bool" where
  "node_ok p \<longleftrightarrow> p_payload p + unat (p_len p) \<le> length (p_mem p)"

text \<open>The invariant \<open>pbuf.h\<close> states: the total length is the length of this and all later structures.\<close>

fun chain_ok :: "chain \<Rightarrow> bool" where
  "chain_ok [] = True"
| "chain_ok (p # ps) = (node_ok p \<and> unat (p_tot_len p) = unat (p_len p) + (case ps of [] \<Rightarrow> 0 | q # _ \<Rightarrow> unat (p_tot_len q)) \<and> chain_ok ps)"

text \<open>Same structure, perhaps other bytes.\<close>

definition same_shape :: "pnode \<Rightarrow> pnode \<Rightarrow> bool" where
  "same_shape p q \<longleftrightarrow> q = p\<lparr>p_mem := p_mem q\<rparr> \<and> length (p_mem q) = length (p_mem p)"

lemma same_shape_fields:
  "same_shape p q \<Longrightarrow> p_type q = p_type p \<and> p_payload q = p_payload p \<and> p_len q = p_len p \<and> p_tot_len q = p_tot_len p
    \<and> length (p_mem q) = length (p_mem p)"
  unfolding same_shape_def by (cases p; cases q) simp

lemma same_shape_refl [simp]: "same_shape p p"
  by (simp add: same_shape_def)

lemma chain_bytes_simps [simp]: "chain_bytes [] = []" "chain_bytes (p # ps) = pbytes p @ chain_bytes ps"
  by (simp_all add: chain_bytes_def)

lemma length_pbytes [simp]: "node_ok p \<Longrightarrow> length (pbytes p) = unat (p_len p)"
  by (simp add: pbytes_def node_ok_def)

lemma chain_tot_len: "chain_ok (p # ps) \<Longrightarrow> unat (p_tot_len p) = length (chain_bytes (p # ps))"
proof (induction ps arbitrary: p)
  case (Cons q qs)
  then show ?case using Cons.IH [of q] by (simp del: chain_bytes_simps(2) add: chain_bytes_simps(2) [of p])
qed simp

lemma shapes_ok: "chain_ok c \<Longrightarrow> list_all2 same_shape c d \<Longrightarrow> chain_ok d"
proof (induction c arbitrary: d)
  case (Cons p ps)
  from Cons.prems(2) obtain q qs where d: "d = q # qs" "same_shape p q" "list_all2 same_shape ps qs"
    by (auto simp: list_all2_Cons1)
  have "(case qs of [] \<Rightarrow> 0 | q # _ \<Rightarrow> unat (p_tot_len q)) = (case ps of [] \<Rightarrow> 0 | q # _ \<Rightarrow> unat (p_tot_len q))"
    using d(3) by (cases ps) (auto simp: list_all2_Cons1 dest: same_shape_fields)
  then show ?case
    using Cons.prems(1) Cons.IH [OF _ d(3)] d(1) same_shape_fields [OF d(2)] by (simp add: node_ok_def)
qed simp

text \<open>Reading and writing inside the length of a structure.\<close>

lemma read_at_pbytes:
  "node_ok p \<Longrightarrow> i + n \<le> unat (p_len p) \<Longrightarrow> read_at p i n = Inr (take n (drop i (pbytes p)))"
proof -
  assume a: "node_ok p" "i + n \<le> unat (p_len p)"
  have "take n (drop (p_payload p + i) (p_mem p)) = take n (drop i (pbytes p))"
    unfolding pbytes_def drop_take take_take drop_drop using a(2) by (simp add: min_def add.commute)
  then show ?thesis using a by (simp add: read_at_def node_ok_def)
qed

lemma write_at_pbytes:
  assumes "node_ok p" "i + length bs \<le> unat (p_len p)"
  shows "\<exists>p'. write_at p i bs = Inr p' \<and> same_shape p p'
    \<and> pbytes p' = take i (pbytes p) @ bs @ drop (i + length bs) (pbytes p)"
proof -
  have b: "blit (p_mem p) (p_payload p + i) bs
      = take (p_payload p + i) (p_mem p) @ bs @ drop (p_payload p + i + length bs) (p_mem p)"
    using assms by (intro blit_eq) (simp add: node_ok_def)
  let ?p = "p\<lparr>p_mem := blit (p_mem p) (p_payload p + i) bs\<rparr>"
  have "pbytes ?p = take i (pbytes p) @ bs @ drop (i + length bs) (pbytes p)"
    using assms
    by (intro nth_equalityI) (auto simp: pbytes_def node_ok_def nth_blit nth_append)
  moreover have "write_at p i bs = Inr ?p" using assms by (simp add: write_at_def node_ok_def)
  moreover have "same_shape p ?p" by (simp add: same_shape_def)
  ultimately show ?thesis by blast
qed

section \<open>What the operations do to the bytes\<close>

subsection \<open>Allocation\<close>

lemma memp_pool_Some:
  "memp_pool s = Some (mem, t) \<longleftrightarrow> 0 < pool_free s \<and> mem = fresh_mem 1500 s
     \<and> t = s\<lparr>pool_free := pool_free s - 1, requests := requests s + 1\<rparr>"
  by (auto simp: memp_pool_def)

lemma length_fresh_mem [simp]: "length (fresh_mem n s) = n"
  by (simp add: fresh_mem_def)

text \<open>The number of structures a tail of \<open>n\<close> bytes needs.\<close>

definition pool_nodes :: "nat \<Rightarrow> nat" where
  "pool_nodes n = (n + 1499) div 1500"

lemma pool_nodes_step: "0 < n \<Longrightarrow> pool_nodes n = Suc (pool_nodes (n - min n 1500))"
proof -
  assume "0 < n"
  then have "(n - min n 1500 + 1499) div 1500 + 1 = (n + 1499) div 1500"
    by (cases "n \<le> 1500") (auto simp: div_if)
  then show ?thesis by (simp add: pool_nodes_def)
qed

lemma pool_nodes_0 [simp]: "pool_nodes 0 = 0"
  by (simp add: pool_nodes_def)

definition full_pool :: "chain \<Rightarrow> bool" where
  "full_pool c \<longleftrightarrow> (\<forall>q\<in>set c. p_type q = PBUF_POOL \<and> p_len q \<noteq> 0)"

lemma pool_tail_spec:
  assumes "n < 65536" "pool_tail n s = (qs, ok, t)"
  shows "(ok \<longleftrightarrow> pool_nodes n \<le> pool_free s) \<and> length qs \<le> pool_free s
    \<and> (\<exists>r. t = s\<lparr>pool_free := pool_free s - length qs, requests := r\<rparr>) \<and> full_pool qs
    \<and> (ok \<longrightarrow> length qs = pool_nodes n \<and> chain_ok qs \<and> length (chain_bytes qs) = n)"
  using assms
proof (induction n s arbitrary: qs ok t rule: pool_tail.induct)
  case (1 n s)
  show ?case
  proof (cases "n = 0")
    case True
    then have e: "qs = []" "ok" "t = s" using 1(3) by (simp_all add: pool_tail.simps)
    have "s = s\<lparr>pool_free := pool_free s, requests := requests s\<rparr>" by simp
    then show ?thesis using e True unfolding full_pool_def by (auto intro!: exI [of _ "requests s"])
  next
    case n0: False
    show ?thesis
    proof (cases "memp_pool s")
      case None
      then have e: "qs = []" "\<not> ok" "t = s" using 1(3) n0 by (subst (asm) pool_tail.simps, simp)+
      have "pool_free s = 0" using None by (simp add: memp_pool_def split: if_splits)
      moreover have "s = s\<lparr>pool_free := pool_free s, requests := requests s\<rparr>" by simp
      ultimately show ?thesis
        using e pool_nodes_step [of n] n0 unfolding full_pool_def by (auto intro!: exI [of _ "requests s"])
    next
      case (Some a)
      obtain mem u where a: "a = (mem, u)" by (cases a)
      obtain qs' t' where rec: "pool_tail (n - min n 1500) u = (qs', ok, t')"
        and qs: "qs = \<lparr>p_type = PBUF_POOL, p_mem = mem, p_payload = 0, p_len = of_nat (min n 1500), p_tot_len = of_nat n\<rparr> # qs'" and t: "t = t'"
        using 1(3) n0 Some a by (subst (asm) pool_tail.simps) (auto simp: Let_def split: prod.splits)
      have u: "0 < pool_free s" "length mem = 1500" "u = s\<lparr>pool_free := pool_free s - 1, requests := requests s + 1\<rparr>"
        using Some a by (simp_all add: memp_pool_Some)
      have pf: "pool_free s = Suc (pool_free u)" using u(1,3) by simp
      have less: "n - min n 1500 < 65536" using 1(2) by simp
      note IH = 1(1) [OF n0 Some a [symmetric] refl refl less rec]
      obtain r where r: "t' = u\<lparr>pool_free := pool_free u - length qs', requests := r\<rparr>" using IH by blast
      have l: "unat (of_nat (min n 1500) :: u16) = min n 1500" "unat (of_nat n :: u16) = n"
        using 1(2) by (simp_all add: unat_of_nat)
      have z: "(of_nat (min n 1500) :: u16) \<noteq> 0"
      proof
        assume "(of_nat (min n 1500) :: u16) = 0"
        then have "unat (of_nat (min n 1500) :: u16) = 0" by simp
        then show False using l(1) n0 by simp
      qed
      have ok: "chain_ok qs \<and> length (chain_bytes qs) = n" if k: "ok"
      proof -
        have i: "chain_ok qs'" "length (chain_bytes qs') = n - min n 1500" using IH k by simp_all
        have "(case qs' of [] \<Rightarrow> 0 | q # _ \<Rightarrow> unat (p_tot_len q)) = n - min n 1500"
          using i chain_tot_len by (cases qs') auto
        moreover have "node_ok \<lparr>p_type = PBUF_POOL, p_mem = mem, p_payload = 0, p_len = of_nat (min n 1500), p_tot_len = of_nat n\<rparr>"
          using l u(2) by (simp add: node_ok_def)
        ultimately show ?thesis using i l unfolding qs by simp
      qed
      have "length qs \<le> pool_free s" "(ok \<longleftrightarrow> pool_nodes n \<le> pool_free s)" "ok \<longrightarrow> length qs = pool_nodes n"
        using IH pf pool_nodes_step [of n] n0 unfolding qs by auto
      moreover have "t = s\<lparr>pool_free := pool_free s - length qs, requests := r\<rparr>" using r u(3) unfolding t qs by simp
      moreover have "full_pool qs" using IH z unfolding qs full_pool_def by simp
      ultimately show ?thesis using ok by blast
    qed
  qed
qed

lemma layer_offset_aligned:
  "align4 (layer_offset l) = (case l of PBUF_TRANSPORT \<Rightarrow> 56 | PBUF_IP \<Rightarrow> 36 | PBUF_LINK \<Rightarrow> 16 | PBUF_RAW \<Rightarrow> 0)"
  by (cases l) (simp_all add: layer_offset_def align4_def)

lemma pbuf_free_pool:
  "\<forall>q\<in>set c. p_type q = PBUF_POOL \<Longrightarrow> pbuf_free c s = s\<lparr>pool_free := pool_free s + length c\<rparr>"
  by (induction c arbitrary: s) (simp_all add: free_node_def)

lemma pbuf_free_ram: "p_type q = PBUF_RAM \<Longrightarrow> pbuf_free [q] s = s\<lparr>ram_live := ram_live s - 1\<rparr>"
  by (simp add: free_node_def)

lemma pbuf_free_append: "pbuf_free (c @ d) s = pbuf_free d (pbuf_free c s)"
  by (induction c arbitrary: s) simp_all

text \<open>What the first structure holds of \<open>n\<close> bytes, and how many structures they need.\<close>

definition first_part :: "pbuf_layer \<Rightarrow> nat \<Rightarrow> nat" where
  "first_part l n = min n (1500 - align4 (layer_offset l))"

definition chain_nodes :: "pbuf_layer \<Rightarrow> nat \<Rightarrow> nat" where
  "chain_nodes l n = Suc (pool_nodes (n - first_part l n))"

lemma pbuf_alloc_pool:
  assumes "pbuf_alloc l n PBUF_POOL s = (r, t)"
  shows "if chain_nodes l (unat n) \<le> pool_free s
    then \<exists>c. r = Some c \<and> c \<noteq> [] \<and> chain_ok c \<and> length (chain_bytes c) = unat n \<and> p_tot_len (hd c) = n
      \<and> p_payload (hd c) = align4 (layer_offset l) \<and> unat (p_len (hd c)) = first_part l (unat n) \<and> length (p_mem (hd c)) = 1500
      \<and> p_type (hd c) = PBUF_POOL \<and> full_pool (tl c) \<and> length c = chain_nodes l (unat n)
      \<and> (\<exists>k. t = s\<lparr>pool_free := pool_free s - length c, requests := k\<rparr>)
    else r = None \<and> (\<exists>k. t = s\<lparr>requests := k\<rparr>)"
proof (cases "memp_pool s")
  case None
  then have "pool_free s = 0" by (simp add: memp_pool_def split: if_splits)
  then show ?thesis
    using assms None by (auto simp: pbuf_alloc_def Let_def chain_nodes_def intro!: exI [of _ "requests s"])
next
  case (Some a)
  obtain mem u where a: "a = (mem, u)" by (cases a)
  let ?f = "first_part l (unat n)"
  let ?p = "\<lparr>p_type = PBUF_POOL, p_mem = mem, p_payload = align4 (layer_offset l), p_len = of_nat ?f, p_tot_len = n\<rparr>"
  obtain qs ok v where tail: "pool_tail (unat n - ?f) u = (qs, ok, v)" by (cases "pool_tail (unat n - ?f) u") auto
  have u: "0 < pool_free s" "mem = fresh_mem 1500 s" "u = s\<lparr>pool_free := pool_free s - 1, requests := requests s + 1\<rparr>"
    using Some a by (simp_all add: memp_pool_Some)
  have pf: "pool_free s = Suc (pool_free u)" using u(1,3) by simp
  have n: "unat n < 65536" using unsigned_less [of n, where ?'a = nat] by simp
  have sp: "(ok \<longleftrightarrow> pool_nodes (unat n - ?f) \<le> pool_free u) \<and> length qs \<le> pool_free u
    \<and> (\<exists>r. v = u\<lparr>pool_free := pool_free u - length qs, requests := r\<rparr>) \<and> full_pool qs
    \<and> (ok \<longrightarrow> length qs = pool_nodes (unat n - ?f) \<and> chain_ok qs \<and> length (chain_bytes qs) = unat n - ?f)"
    using n by (intro pool_tail_spec [OF _ tail]) simp
  then obtain k where k: "v = u\<lparr>pool_free := pool_free u - length qs, requests := k\<rparr>" by blast
  have r: "(r, t) = (if ok then (Some (?p # qs), v) else (None, pbuf_free (?p # qs) v))"
    using assms Some a tail by (auto simp: pbuf_alloc_def Let_def first_part_def split: if_splits)
  have enough: "ok \<longleftrightarrow> chain_nodes l (unat n) \<le> pool_free s" using sp pf by (simp add: chain_nodes_def)
  show ?thesis
  proof (cases ok)
    case True
    have f: "unat (of_nat ?f :: u16) = ?f" "?f \<le> unat n" "?f + align4 (layer_offset l) \<le> 1500"
      using n by (auto simp: unat_of_nat first_part_def layer_offset_aligned split: pbuf_layer.splits)
    have i: "chain_ok qs" "length (chain_bytes qs) = unat n - ?f" using sp True by simp_all
    have c: "(case qs of [] \<Rightarrow> 0 | q # _ \<Rightarrow> unat (p_tot_len q)) = unat n - ?f"
      using i chain_tot_len by (cases qs) auto
    have nd: "node_ok ?p" using f u(2) by (simp add: node_ok_def)
    have "chain_ok (?p # qs)" "length (chain_bytes (?p # qs)) = unat n" using c f(1,2) nd i by simp_all
    moreover have "v = s\<lparr>pool_free := pool_free s - length (?p # qs), requests := k\<rparr>" using k u(3) by simp
    moreover have "chain_nodes l (unat n) \<le> pool_free s" "length (?p # qs) = chain_nodes l (unat n)"
      using enough True sp by (simp_all add: chain_nodes_def)
    moreover have "r = Some (?p # qs)" "t = v" using r True by simp_all
    moreover have "unat (p_len (hd (?p # qs))) = ?f" "full_pool (tl (?p # qs))" "length (p_mem (hd (?p # qs))) = 1500"
      using f(1) sp u(2) by simp_all
    ultimately show ?thesis by (simp only: if_True) (intro exI [of _ "?p # qs"], auto)
  next
    case False
    have "\<forall>q\<in>set (?p # qs). p_type q = PBUF_POOL" using sp by (auto simp: full_pool_def)
    then have "t = v\<lparr>pool_free := pool_free v + Suc (length qs)\<rparr>" using r False pbuf_free_pool [of "?p # qs" v] by simp
    moreover have "pool_free v + Suc (length qs) = pool_free s" using sp pf by (simp add: k)
    moreover have "v\<lparr>pool_free := pool_free s\<rparr> = s\<lparr>requests := k\<rparr>" unfolding k u(3) by simp
    ultimately have "t = s\<lparr>requests := k\<rparr>" by (simp only:)
    moreover have "r = None" "\<not> chain_nodes l (unat n) \<le> pool_free s" using r False enough by simp_all
    ultimately show ?thesis by (simp only: if_False) blast
  qed
qed

subsection \<open>Taking data, hiding and revealing headers, trimming\<close>

lemma take_nodes_spec:
  assumes "chain_ok c" "length bs \<le> length (chain_bytes c)"
  shows "\<exists>d. take_nodes c bs = Inr d \<and> list_all2 same_shape c d \<and> chain_bytes d = bs @ drop (length bs) (chain_bytes c)"
  using assms
proof (induction c arbitrary: bs)
  case (Cons p ps)
  show ?case
  proof (cases "bs = []")
    case True
    then show ?thesis by (auto simp: list_all2_same)
  next
    case False
    let ?n = "unat (p_len p)"
    have ok: "node_ok p" "length (pbytes p) = ?n" "chain_ok ps" using Cons.prems(1) by simp_all
    obtain p' where p': "write_at p 0 (take ?n bs) = Inr p'" "same_shape p p'"
      "pbytes p' = take ?n bs @ drop (length (take ?n bs)) (pbytes p)"
      using write_at_pbytes [of p 0 "take ?n bs"] ok by auto
    have less: "length (drop ?n bs) \<le> length (chain_bytes ps)" using Cons.prems(2) ok(2) by simp
    obtain d where d: "take_nodes ps (drop ?n bs) = Inr d" "list_all2 same_shape ps d"
      "chain_bytes d = drop ?n bs @ drop (length (drop ?n bs)) (chain_bytes ps)"
      using Cons.IH [OF ok(3), of "drop ?n bs"] less by blast
    have "chain_bytes (p' # d) = bs @ drop (length bs) (chain_bytes (p # ps))"
      using p'(3) d(3) ok(2) by (cases "length bs \<le> ?n") simp_all
    then show ?thesis using False p'(1,2) d(1,2) by (intro exI [of _ "p' # d"]) simp
  qed
qed simp

lemma pbuf_take_spec:
  assumes "chain_ok c" "c \<noteq> []" "length bs \<le> length (chain_bytes c)"
  shows "\<exists>d. pbuf_take c bs = Inr (ERR_OK, d) \<and> list_all2 same_shape c d \<and> chain_ok d
    \<and> chain_bytes d = bs @ drop (length bs) (chain_bytes c)"
proof -
  obtain p ps where c: "c = p # ps" using assms(2) by (cases c) auto
  have "unat (p_tot_len p) = length (chain_bytes c)" using assms(1) chain_tot_len unfolding c by blast
  then show ?thesis
    using take_nodes_spec [OF assms(1,3)] assms shapes_ok [OF assms(1)] by (fastforce simp: pbuf_take_def c)
qed

lemma unat_sub_int: "n \<le> unat x \<Longrightarrow> unat (x + of_int (- int n) :: u16) = unat x - n"
proof -
  assume a: "n \<le> unat x"
  then have "n < 65536" using unsigned_less [of x, where ?'a = nat] by simp
  then have u: "unat (of_nat n :: u16) = n" by (simp add: unat_of_nat)
  have "unat (x - of_nat n) = unat x - n" using a u by (subst unat_sub) (simp_all add: word_le_nat_alt)
  then show ?thesis by simp
qed

lemma pbuf_header_hide:
  assumes "chain_ok (p # ps)" "n \<le> unat (p_len p)"
  shows "\<exists>q. pbuf_header (p # ps) (- int n) = Some (q # ps) \<and> chain_ok (q # ps)
    \<and> chain_bytes (q # ps) = drop n (chain_bytes (p # ps)) \<and> p_payload q = p_payload p + n \<and> p_mem q = p_mem p
    \<and> p_type q = p_type p \<and> unat (p_len q) = unat (p_len p) - n"
proof (cases "n = 0")
  case False
  let ?q = "p\<lparr>p_payload := p_payload p + n, p_len := p_len p + of_int (- int n), p_tot_len := p_tot_len p + of_int (- int n)\<rparr>"
  have t: "n \<le> unat (p_tot_len p)" using assms by simp
  have l: "unat (p_len ?q) = unat (p_len p) - n" "unat (p_tot_len ?q) = unat (p_tot_len p) - n"
    using unat_sub_int [OF assms(2)] unat_sub_int [OF t] by simp_all
  have "pbuf_header (p # ps) (- int n) = Some (?q # ps)"
    using assms(2) False by (simp add: pbuf_header_def Let_def nat_add_distrib)
  moreover have "pbytes ?q = drop n (pbytes p)"
    using l(1) assms(2) by (simp add: pbytes_def drop_take add.commute)
  moreover have "chain_ok (?q # ps)" using assms l by (simp add: node_ok_def)
  moreover have "drop n (chain_bytes (p # ps)) = drop n (pbytes p) @ chain_bytes ps" using assms by simp
  ultimately show ?thesis using l(1) by (intro exI [of _ ?q]) simp
qed (use assms in \<open>simp add: pbuf_header_def\<close>)

lemma pbuf_header_short: "unat (p_len p) < n \<Longrightarrow> pbuf_header (p # ps) (- int n) = None"
  by (simp add: pbuf_header_def Let_def)

lemma pbuf_header_reveal:
  assumes "chain_ok (p # ps)" "n \<le> p_payload p" "p_type p = PBUF_RAM \<or> p_type p = PBUF_POOL"
    and "unat (p_tot_len p) + n < 65536"
  shows "\<exists>q. pbuf_header (p # ps) (int n) = Some (q # ps) \<and> chain_ok (q # ps)
    \<and> chain_bytes (q # ps) = take n (drop (p_payload p - n) (p_mem p)) @ chain_bytes (p # ps)
    \<and> p_payload q = p_payload p - n \<and> p_mem q = p_mem p \<and> p_type q = p_type p \<and> unat (p_len q) = unat (p_len p) + n"
proof (cases "n = 0")
  case False
  let ?q = "p\<lparr>p_payload := p_payload p - n, p_len := p_len p + of_nat n, p_tot_len := p_tot_len p + of_nat n\<rparr>"
  have m: "unat (p_len p) \<le> unat (p_tot_len p)" using assms(1) by simp
  have l: "unat (p_len ?q) = unat (p_len p) + n" "unat (p_tot_len ?q) = unat (p_tot_len p) + n"
    using assms(4) m by (simp_all add: unat_word_ariths unat_of_nat)
  have "pbuf_header (p # ps) (int n) = Some (?q # ps)"
    using assms(2,3) False by (simp add: pbuf_header_def Let_def nat_diff_distrib)
  moreover have "pbytes ?q = take n (drop (p_payload p - n) (p_mem p)) @ pbytes p"
    using l(1) assms(1,2) by (simp add: pbytes_def take_add add.commute [of _ n])
  moreover have "chain_ok (?q # ps)" using assms l by (simp add: node_ok_def)
  ultimately show ?thesis using l(1) by (intro exI [of _ ?q]) simp
qed (use assms in \<open>simp add: pbuf_header_def\<close>)

lemma realloc_nodes_spec:
  assumes "chain_ok (q # qs)" "rem \<le> p_tot_len q"
  shows "\<exists>p ps gone. realloc_nodes rem (rem - p_tot_len q) (q # qs) = Inr (p # ps, gone) \<and> chain_ok (p # ps)
    \<and> chain_bytes (p # ps) = take (unat rem) (chain_bytes (q # qs)) \<and> p_tot_len p = rem
    \<and> map p_type (p # ps @ gone) = map p_type (q # qs)
    \<and> p_mem p = p_mem q \<and> p_payload p = p_payload q \<and> unat (p_len p) = min (unat (p_len q)) (unat rem)"
  using assms
proof (induction qs arbitrary: q rem)
  case Nil
  have le: "unat rem \<le> unat (p_len q)" using Nil by (simp add: word_le_nat_alt)
  let ?p = "q\<lparr>p_len := rem, p_tot_len := rem\<rparr>"
  have "realloc_nodes rem (rem - p_tot_len q) [q] = Inr ([?p], [])" using le by (simp add: word_less_nat_alt)
  then show ?case using le Nil by (intro exI [of _ ?p]) (simp add: pbytes_def node_ok_def min_def)
next
  case (Cons r rs)
  have tot: "unat (p_tot_len q) = unat (p_len q) + unat (p_tot_len r)" "chain_ok (r # rs)" "node_ok q"
    using Cons.prems(1) by simp_all
  show ?case
  proof (cases "rem > p_len q")
    case True
    have lt: "unat (p_len q) < unat rem" using True by (simp add: word_less_nat_alt)
    have u: "unat (rem - p_len q) = unat rem - unat (p_len q)" using True by (simp add: unat_sub)
    have le: "rem - p_len q \<le> p_tot_len r" using Cons.prems(2) u tot(1) by (simp add: word_le_nat_alt)
    have w: "p_tot_len q = p_len q + p_tot_len r"
    proof (rule word_eq_iff_unsigned [where ?'a = nat, THEN iffD2])
      have "unat (p_len q) + unat (p_tot_len r) < 65536"
        using unsigned_less [of "p_tot_len q", where ?'a = nat] tot(1) by simp
      then show "unat (p_tot_len q) = unat (p_len q + p_tot_len r)" using tot(1) by (simp add: unat_word_ariths)
    qed
    have g: "rem - p_tot_len q = rem - p_len q - p_tot_len r" unfolding w by simp
    obtain p ps gone where IH: "realloc_nodes (rem - p_len q) (rem - p_len q - p_tot_len r) (r # rs) = Inr (p # ps, gone)"
      "chain_ok (p # ps)" "chain_bytes (p # ps) = take (unat (rem - p_len q)) (chain_bytes (r # rs))"
      "p_tot_len p = rem - p_len q" "map p_type (p # ps @ gone) = map p_type (r # rs)"
      using Cons.IH [OF tot(2) le] by blast
    let ?q = "q\<lparr>p_tot_len := p_tot_len q + (rem - p_tot_len q)\<rparr>"
    have "realloc_nodes rem (rem - p_tot_len q) (q # r # rs) = Inr (?q # p # ps, gone)"
      unfolding g realloc_nodes.simps(2) [of rem _ q] using True IH(1) by (simp del: realloc_nodes.simps)
    moreover have "unat rem = unat (p_len q) + unat (p_tot_len p)" using u lt IH(4) by simp
    then have "chain_ok (?q # p # ps)" using IH(2) tot(3) by (simp add: node_ok_def)
    moreover have "chain_bytes (?q # p # ps) = take (unat rem) (chain_bytes (q # r # rs))"
      using IH(3) u lt tot(3) by (simp add: pbytes_def node_ok_def)
    ultimately show ?thesis using IH(5) lt by (intro exI [of _ ?q] exI [of _ "p # ps"] exI [of _ gone]) simp
  next
    case False
    then have le: "unat rem \<le> unat (p_len q)" by (simp add: word_less_nat_alt)
    let ?p = "q\<lparr>p_len := rem, p_tot_len := rem\<rparr>"
    have "realloc_nodes rem (rem - p_tot_len q) (q # r # rs) = Inr ([?p], r # rs)" using False by simp
    moreover have "pbytes ?p = take (unat rem) (pbytes q)" using le by (simp add: pbytes_def min_def)
    moreover have "take (unat rem) (chain_bytes (q # r # rs)) = take (unat rem) (pbytes q)" using le tot(3) by simp
    ultimately show ?thesis
      using le tot(3) by (intro exI [of _ ?p] exI [of _ "[]"] exI [of _ "r # rs"]) (simp add: node_ok_def min_def del: chain_bytes_simps(2) add: chain_bytes_simps(2) [of ?p])
  qed
qed

lemma pbuf_realloc_spec:
  assumes "chain_ok (q # qs)"
  shows "\<exists>p ps gone. pbuf_realloc (q # qs) n s = Inr (p # ps, pbuf_free gone s) \<and> chain_ok (p # ps)
    \<and> chain_bytes (p # ps) = take (unat n) (chain_bytes (q # qs)) \<and> p_tot_len p = min n (p_tot_len q)
    \<and> map p_type (p # ps @ gone) = map p_type (q # qs)
    \<and> p_mem p = p_mem q \<and> p_payload p = p_payload q \<and> unat (p_len p) = min (unat (p_len q)) (unat n)"
proof (cases "n \<ge> p_tot_len q")
  case True
  have "length (chain_bytes (q # qs)) \<le> unat n" using True chain_tot_len [OF assms] by (simp add: word_le_nat_alt)
  moreover have "unat (p_len q) \<le> unat n" using True assms by (simp add: word_le_nat_alt)
  ultimately show ?thesis
    using True assms by (intro exI [of _ q] exI [of _ qs] exI [of _ "[]"]) (simp add: pbuf_realloc_def min_def)
next
  case False
  then have le: "n \<le> p_tot_len q" by simp
  from realloc_nodes_spec [OF assms le] obtain p ps gone where r: "realloc_nodes n (n - p_tot_len q) (q # qs) = Inr (p # ps, gone)"
    "chain_ok (p # ps)" "chain_bytes (p # ps) = take (unat n) (chain_bytes (q # qs))" "p_tot_len p = n"
    "map p_type (p # ps @ gone) = map p_type (q # qs)"
    "p_mem p = p_mem q" "p_payload p = p_payload q" "unat (p_len p) = min (unat (p_len q)) (unat n)" by blast
  moreover have "pbuf_realloc (q # qs) n s = Inr (p # ps, pbuf_free gone s)" "min n (p_tot_len q) = n"
    using False le r(1) by (simp_all add: pbuf_realloc_def min_def del: realloc_nodes.simps)
  ultimately show ?thesis by metis
qed

lemma copy_out_spec: "chain_ok c \<Longrightarrow> copy_out c n off = Inr (take (unat n) (drop (unat off) (chain_bytes c)))"
proof (induction c arbitrary: n off)
  case (Cons p ps)
  have ok: "node_ok p" "length (pbytes p) = unat (p_len p)" "chain_ok ps" using Cons.prems by simp_all
  show ?case
  proof (cases "n = 0 \<or> off \<noteq> 0 \<and> off \<ge> p_len p")
    case True
    then show ?thesis
      using Cons.IH [OF ok(3)] ok(2) by (auto simp: word_le_nat_alt unat_sub)
  next
    case False
    then have off: "unat off \<le> unat (p_len p)" by (auto simp: word_le_nat_alt not_le)
    then have s: "unat (p_len p - off) = unat (p_len p) - unat off" by (simp add: unat_sub word_le_nat_alt)
    let ?n = "if p_len p - off > n then n else p_len p - off"
    have n: "unat ?n = min (unat n) (unat (p_len p) - unat off)" using s by (simp add: word_less_nat_alt min_def)
    have "?n \<le> n" by (simp add: not_less)
    then have m: "unat (n - ?n) = unat n - unat ?n" by (simp add: unat_sub)
    have r: "read_at p (unat off) (unat ?n) = Inr (take (unat ?n) (drop (unat off) (pbytes p)))"
      using off n by (intro read_at_pbytes [OF ok(1)]) simp
    have "copy_out (p # ps) n off = Inr (take (unat ?n) (drop (unat off) (pbytes p)) @ take (unat (n - ?n)) (chain_bytes ps))"
      using False r Cons.IH [OF ok(3)] by (auto simp: Let_def)
    also have "take (unat ?n) (drop (unat off) (pbytes p)) @ take (unat (n - ?n)) (chain_bytes ps)
        = take (unat n) (drop (unat off) (chain_bytes (p # ps)))"
      unfolding m n using off ok(2) by (simp add: min_def)
    finally show ?thesis .
  qed
qed simp

subsection \<open>Copying between chains of different shapes\<close>

text \<open>No structure after the first is empty.\<close>

definition no_gaps :: "chain \<Rightarrow> bool" where
  "no_gaps c \<longleftrightarrow> (\<forall>p\<in>set (tl c). p_len p \<noteq> 0)"

lemma one_packet_chain: "chain_ok c \<Longrightarrow> no_gaps c \<Longrightarrow> one_packet c"
proof (cases c)
  case (Cons p ps)
  assume a: "chain_ok c" "no_gaps c"
  show ?thesis
  proof (cases ps)
    case (Cons q qs)
    have "p_len q \<noteq> 0" "node_ok q" "unat (p_tot_len q) = unat (p_len q) + (case qs of [] \<Rightarrow> 0 | q # _ \<Rightarrow> unat (p_tot_len q))"
      "unat (p_tot_len p) = unat (p_len p) + unat (p_tot_len q)"
      using a \<open>c = p # ps\<close> Cons by (simp_all add: no_gaps_def)
    moreover have "0 < unat (p_len q)" using calculation(1) by (simp add: unat_gt_0)
    ultimately have "unat (p_tot_len p) \<noteq> unat (p_len p)" by linarith
    then show ?thesis using \<open>c = p # ps\<close> by (auto simp: one_packet_def)
  qed (simp add: one_packet_def \<open>c = p # ps\<close>)
qed (simp add: one_packet_def)

lemma splice_within:
  assumes "ot + (length F - fo) \<le> length T" "fo \<le> length F"
  shows "take (ot + (length F - fo)) ((take ot T @ drop fo F @ drop (ot + (length F - fo)) T) @ TS) @ FS
      @ drop (ot + (length F - fo) + length FS) ((take ot T @ drop fo F @ drop (ot + (length F - fo)) T) @ TS)
    = take ot (T @ TS) @ drop fo (F @ FS) @ drop (ot + (length (F @ FS) - fo)) (T @ TS)"
proof -
  define k where "k = length F - fo"
  have "length F + length FS - fo = k + length FS" using assms(2) unfolding k_def by simp
  then show ?thesis
    using assms unfolding k_def [symmetric] by (simp add: k_def [symmetric] ac_simps)
qed

lemma same_shapes_trans:
  "list_all2 same_shape (t' # ts) d \<Longrightarrow> same_shape t t' \<Longrightarrow> list_all2 same_shape (t # ts) d"
  by (cases t; cases t') (auto simp: list_all2_Cons1 same_shape_def)

lemma copy_nodes_spec:
  assumes "chain_ok (t # ts)" "chain_ok (f # fs)" "no_gaps (t # ts)" "no_gaps (f # fs)"
    and "ot \<le> p_len t" "fo \<le> p_len f"
    and "length (chain_bytes (f # fs)) - unat fo \<le> length (chain_bytes (t # ts)) - unat ot"
  shows "\<exists>d. copy_nodes (t # ts) ot (f # fs) fo = Inr (ERR_OK, d) \<and> list_all2 same_shape (t # ts) d
    \<and> chain_bytes d = take (unat ot) (chain_bytes (t # ts)) @ drop (unat fo) (chain_bytes (f # fs))
        @ drop (unat ot + (length (chain_bytes (f # fs)) - unat fo)) (chain_bytes (t # ts))"
  using assms
proof (induction "length ts + length fs" arbitrary: t ts f fs ot fo rule: less_induct)
  case less
  let ?len = "if uint (p_len t) - uint ot \<ge> uint (p_len f) - uint fo then p_len f - fo else p_len t - ot"
  let ?ru = "unat (p_len t) - unat ot" and ?rf = "unat (p_len f) - unat fo"
  have nt: "node_ok t" "length (pbytes t) = unat (p_len t)" "chain_ok ts" using less.prems(1) by simp_all
  have nf: "node_ok f" "length (pbytes f) = unat (p_len f)" "chain_ok fs" using less.prems(2) by simp_all
  have le: "unat ot \<le> unat (p_len t)" "unat fo \<le> unat (p_len f)" using less.prems(5,6) by (simp_all add: word_le_nat_alt)
  have s: "unat (p_len t - ot) = ?ru" "unat (p_len f - fo) = ?rf" using less.prems(5,6) by (simp_all add: unat_sub)
  have c: "uint (p_len t) - uint ot \<ge> uint (p_len f) - uint fo \<longleftrightarrow> ?rf \<le> ?ru"
    using le by (simp only: uint_nat) linarith
  have len: "unat ?len = min ?rf ?ru" using s c by simp
  obtain bs where bs: "bs = take (unat ?len) (drop (unat fo) (pbytes f))" by blast
  have lbs: "length bs = min ?rf ?ru" unfolding bs using len nf(2) by simp
  have rd: "read_at f (unat fo) (unat ?len) = Inr bs"
    unfolding bs by (rule read_at_pbytes [OF nf(1)]) (use le len in simp)
  have le2: "unat ot + length bs \<le> unat (p_len t)" unfolding lbs using le by linarith
  obtain t' where t': "write_at t (unat ot) bs = Inr t'" "same_shape t t'"
    "pbytes t' = take (unat ot) (pbytes t) @ bs @ drop (unat ot + length bs) (pbytes t)"
    using write_at_pbytes [OF nt(1) le2] by blast
  have sh: "p_len t' = p_len t" using same_shape_fields [OF t'(2)] by blast
  have tl: "unat (p_len t) < 65536" "unat (p_len f) < 65536"
    using unsigned_less [of "p_len t", where ?'a = nat] unsigned_less [of "p_len f", where ?'a = nat] by simp_all
  have ot': "unat (ot + ?len) = unat ot + min ?rf ?ru" using tl le len by (simp add: unat_word_ariths)
  have fo': "unat (fo + ?len) = unat fo + min ?rf ?ru" using tl le len by (simp add: unat_word_ariths)
  have td: "ot + ?len = p_len t \<longleftrightarrow> ?ru \<le> ?rf"
    unfolding word_eq_iff_unsigned [where ?'a = nat, of "ot + ?len"] ot' using le by (auto simp: min_def)
  have fd: "fo + ?len \<ge> p_len f \<longleftrightarrow> ?rf \<le> ?ru"
    unfolding word_le_nat_alt fo' using le by (auto simp: min_def)
  let ?to = "if ?ru \<le> ?rf then ts else t' # ts" and ?from = "if ?rf \<le> ?ru then fs else f # fs"
  have sh2: "list_all2 same_shape (t # ts) (t' # ts)" using t'(2) by (simp add: list_all2_same)
  have ok2: "chain_ok (t' # ts)" by (rule shapes_ok [OF less.prems(1) sh2])
  have gaps: "no_gaps ts" "no_gaps fs" "no_gaps (t' # ts)"
    using less.prems(3,4) by (cases ts; cases fs; simp add: no_gaps_def)+
  have one: "one_packet ?to" "one_packet ?from"
    using one_packet_chain nt(3) nf(3) gaps ok2 less.prems(2,4) by (simp_all split: if_splits)
  have step: "copy_nodes (t # ts) ot (f # fs) fo =
      (if ?from = [] then Inr (ERR_OK, t' # ts)
       else and_then (copy_nodes ?to (if ?ru \<le> ?rf then 0 else ot + ?len) ?from (if ?rf \<le> ?ru then 0 else fo + ?len))
         (\<lambda>r. Inr (case r of (e, rest) \<Rightarrow> (e, if ?ru \<le> ?rf then t' # rest else rest))))"
    unfolding copy_nodes.simps(3) Let_def rd and_then.simps t'(1) td fd using one
    by (auto split: prod.splits)
  have tb: "length (chain_bytes (t # ts)) = unat (p_len t) + length (chain_bytes ts)"
    "length (chain_bytes (f # fs)) = unat (p_len f) + length (chain_bytes fs)" using nt nf by simp_all
  have room: "?rf + length (chain_bytes fs) \<le> ?ru + length (chain_bytes ts)"
    using less.prems(7) le unfolding tb by linarith
  consider (last) "?rf \<le> ?ru" "fs = []" | (source) "?rf < ?ru" "fs \<noteq> []" | (both) "?rf = ?ru" "fs \<noteq> []" | (target) "?ru < ?rf"
    by linarith
  then show ?case
  proof cases
    case last
    then have "copy_nodes (t # ts) ot (f # fs) fo = Inr (ERR_OK, t' # ts)" unfolding step by simp
    moreover have "bs = drop (unat fo) (pbytes f)" unfolding bs len using last(1) nf(2) by simp
    ultimately show ?thesis
      using t'(3) sh2 last nt(2) nf(2) le by (intro exI [of _ "t' # ts"]) simp
  next
    case source
    then obtain g gs where g: "fs = g # gs" by (cases fs) auto
    have rm: "length (chain_bytes (g # gs)) - unat (0 :: u16) \<le> length (chain_bytes (t' # ts)) - unat (ot + ?len)"
      using room source(1) ok2 sh unfolding ot' g [symmetric] by simp
    have ol: "ot + ?len \<le> p_len t'" unfolding sh word_le_nat_alt ot' using le by linarith
    obtain d where d: "copy_nodes (t' # ts) (ot + ?len) (g # gs) 0 = Inr (ERR_OK, d)" "list_all2 same_shape (t' # ts) d"
      "chain_bytes d = take (unat (ot + ?len)) (chain_bytes (t' # ts)) @ drop (unat (0 :: u16)) (chain_bytes (g # gs))
        @ drop (unat (ot + ?len) + (length (chain_bytes (g # gs)) - unat (0 :: u16))) (chain_bytes (t' # ts))"
      using less.hyps [of ts gs t' g "ot + ?len" 0] ok2 nf(3) gaps ol rm unfolding g by auto
    have b: "bs = drop (unat fo) (pbytes f)" unfolding bs len using source(1) nf(2) by simp
    have ot'': "unat (ot + ?len) = unat ot + (length (pbytes f) - unat fo)" unfolding ot' using source(1) nf(2) by simp
    have t'': "pbytes t' = take (unat ot) (pbytes t) @ drop (unat fo) (pbytes f) @ drop (unat ot + (length (pbytes f) - unat fo)) (pbytes t)"
      unfolding t'(3) b by simp
    have "copy_nodes (t # ts) ot (f # fs) fo = Inr (ERR_OK, d)" unfolding step using d(1) source by (simp add: g)
    moreover have "list_all2 same_shape (t # ts) d" using d(2) t'(2) by (rule same_shapes_trans)
    moreover have "chain_bytes d = take (unat ot) (chain_bytes (t # ts)) @ drop (unat fo) (chain_bytes (f # fs))
        @ drop (unat ot + (length (chain_bytes (f # fs)) - unat fo)) (chain_bytes (t # ts))"
      unfolding d(3) ot'' t'' g [symmetric] chain_bytes_simps unsigned_0 drop_0 diff_zero
      by (rule splice_within) (use source(1) le nt(2) nf(2) in simp_all)
    ultimately show ?thesis by blast
  next
    case both
    then obtain g gs where g: "fs = g # gs" by (cases fs) auto
    have "0 < unat (p_len g)" using less.prems(4) unfolding g no_gaps_def by (simp add: unat_gt_0)
    then have "0 < length (chain_bytes ts)" using room both(1) nf(3) unfolding g by (auto simp del: length_greater_0_conv)
    then obtain u us where u: "ts = u # us" by (cases ts) auto
    have rm: "length (chain_bytes (g # gs)) - unat (0 :: u16) \<le> length (chain_bytes (u # us)) - unat (0 :: u16)"
      using room both(1) unfolding g u by simp
    obtain d where d: "copy_nodes (u # us) 0 (g # gs) 0 = Inr (ERR_OK, d)" "list_all2 same_shape (u # us) d"
      "chain_bytes d = take (unat (0 :: u16)) (chain_bytes (u # us)) @ drop (unat (0 :: u16)) (chain_bytes (g # gs))
        @ drop (unat (0 :: u16) + (length (chain_bytes (g # gs)) - unat (0 :: u16))) (chain_bytes (u # us))"
      using less.hyps [of us gs u g 0 0] nt(3) nf(3) gaps rm unfolding g u by auto
    have b: "bs = drop (unat fo) (pbytes f)" unfolding bs len using both(1) nf(2) by simp
    have e: "unat ot + (length (chain_bytes (f # fs)) - unat fo) = unat (p_len t) + length (chain_bytes fs)"
      unfolding tb(2) using both(1) le by linarith
    have "copy_nodes (t # ts) ot (f # fs) fo = Inr (ERR_OK, t' # d)" unfolding step using d(1) both by (simp add: g u)
    moreover have "list_all2 same_shape (t # ts) (t' # d)" using d(2) t'(2) u by simp
    moreover have "chain_bytes (t' # d) = take (unat ot) (chain_bytes (t # ts)) @ drop (unat fo) (chain_bytes (f # fs))
        @ drop (unat ot + (length (chain_bytes (f # fs)) - unat fo)) (chain_bytes (t # ts))"
      unfolding e using d(3) le nt(2) nf(2) b t'(3) both(1) by (simp add: g u)
    ultimately show ?thesis by blast
  next
    case target
    have "0 < length (chain_bytes ts)" using room target by linarith
    then obtain u us where u: "ts = u # us" by (cases ts) auto
    have rm: "length (chain_bytes (f # fs)) - unat (fo + ?len) \<le> length (chain_bytes (u # us)) - unat (0 :: u16)"
      using room target le unfolding fo' tb(2) u [symmetric] by simp
    have ol: "fo + ?len \<le> p_len f" unfolding word_le_nat_alt fo' using le by linarith
    obtain d where d: "copy_nodes (u # us) 0 (f # fs) (fo + ?len) = Inr (ERR_OK, d)" "list_all2 same_shape (u # us) d"
      "chain_bytes d = take (unat (0 :: u16)) (chain_bytes (u # us)) @ drop (unat (fo + ?len)) (chain_bytes (f # fs))
        @ drop (unat (0 :: u16) + (length (chain_bytes (f # fs)) - unat (fo + ?len))) (chain_bytes (u # us))"
      using less.hyps [of us fs u f 0 "fo + ?len"] nt(3) less.prems(2,4) gaps rm ol unfolding u by auto
    have b: "bs = take ?ru (drop (unat fo) (pbytes f))" unfolding bs len using target nf(2) by simp
    have e: "unat ot + (length (chain_bytes (f # fs)) - unat fo) = unat (p_len t) + (length (chain_bytes (f # fs)) - unat (fo + ?len))"
      unfolding fo' tb(2) using target le by linarith
    have "copy_nodes (t # ts) ot (f # fs) fo = Inr (ERR_OK, t' # d)" unfolding step using d(1) target by (simp add: u)
    moreover have "list_all2 same_shape (t # ts) (t' # d)" using d(2) t'(2) u by simp
    moreover have "chain_bytes (t' # d) = take (unat ot) (chain_bytes (t # ts)) @ drop (unat fo) (chain_bytes (f # fs))
        @ drop (unat ot + (length (chain_bytes (f # fs)) - unat fo)) (chain_bytes (t # ts))"
    proof -
      define K where "K = length (chain_bytes (f # fs)) - unat (fo + ?len)"
      have bs2: "bs = take ?ru (drop (unat fo) (chain_bytes (f # fs)))" unfolding b using target nf(2) by simp
      have "bs @ drop (unat (fo + ?len)) (chain_bytes (f # fs)) = drop (unat fo) (chain_bytes (f # fs))"
        unfolding bs2 fo' using target append_take_drop_id [of ?ru "drop (unat fo) (chain_bytes (f # fs))"]
        by (simp only: drop_drop min.absorb2 less_imp_le add.commute)
      moreover have "chain_bytes (t' # d) = take (unat ot) (pbytes t) @ (bs @ drop (unat (fo + ?len)) (chain_bytes (f # fs)))
          @ drop K (chain_bytes ts)"
        using t'(3) d(3) le nt(2) lbs target unfolding K_def [symmetric] u [symmetric] by simp
      moreover have "drop (unat (p_len t) + K) (chain_bytes (t # ts)) = drop K (chain_bytes ts)" using nt(2) by simp
      moreover have "take (unat ot) (chain_bytes (t # ts)) = take (unat ot) (pbytes t)" using le nt(2) by simp
      ultimately show ?thesis unfolding e K_def [symmetric] by (simp only:)
    qed
    ultimately show ?thesis by blast
  qed
qed

lemma pbuf_copy_spec:
  assumes "chain_ok to" "chain_ok from" "no_gaps to" "no_gaps from" "to \<noteq> []" "from \<noteq> []"
    and "length (chain_bytes from) \<le> length (chain_bytes to)"
  shows "\<exists>d. pbuf_copy to from = Inr (ERR_OK, d) \<and> list_all2 same_shape to d
    \<and> chain_bytes d = chain_bytes from @ drop (length (chain_bytes from)) (chain_bytes to)"
proof -
  obtain t ts f fs where c: "to = t # ts" "from = f # fs" using assms(5,6) by (cases "to"; cases "from") auto
  have "\<not> p_tot_len t < p_tot_len f"
    using assms(7) chain_tot_len [of t ts] chain_tot_len [of f fs] assms(1,2) unfolding c word_less_nat_alt by simp
  then show ?thesis
    using copy_nodes_spec [of t ts f fs 0 0] assms unfolding c by (simp add: pbuf_copy_def)
qed

lemma full_pool_no_gaps: "full_pool (tl c) \<Longrightarrow> no_gaps c"
  by (simp add: full_pool_def no_gaps_def)

lemma align4_le: "n \<le> align4 n"
  by (simp add: align4_def)

lemma pbuf_alloc_ram:
  assumes "pbuf_alloc l n PBUF_RAM s = (r, t)"
  shows "(r = None \<and> t = s\<lparr>requests := requests s + 1\<rparr>)
    \<or> (\<exists>p. r = Some [p] \<and> chain_ok [p] \<and> p_type p = PBUF_RAM \<and> p_len p = n \<and> p_tot_len p = n
         \<and> p_payload p = align4 (layer_offset l) \<and> t = s\<lparr>ram_live := ram_live s + 1, requests := requests s + 1\<rparr>)"
  using assms align4_le [of "unat n"]
  by (auto simp: pbuf_alloc_def mem_malloc_def Let_def node_ok_def split: if_splits)

text \<open>The copy into one structure keeps the bytes, whatever the shape was before.\<close>

lemma pbuf_coalesce_spec:
  assumes "chain_ok p" "no_gaps p" "p \<noteq> []"
  shows "\<exists>q t. pbuf_coalesce p l s = Inr (q, t) \<and> chain_ok q \<and> q \<noteq> [] \<and> chain_bytes q = chain_bytes p
    \<and> (q = p \<and> (\<exists>k. t = s\<lparr>requests := k\<rparr>)
       \<or> length q = 1 \<and> p_type (hd q) = PBUF_RAM \<and> p_payload (hd q) = align4 (layer_offset l)
         \<and> t = pbuf_free p (s\<lparr>ram_live := ram_live s + 1, requests := requests s + 1\<rparr>))"
proof (cases "length p \<le> 1")
  case True
  have "s = s\<lparr>requests := requests s\<rparr>" by simp
  then show ?thesis using True assms by (auto simp: pbuf_coalesce_def intro!: exI [of _ "requests s"])
next
  case False
  obtain r t where al: "pbuf_alloc l (p_tot_len (hd p)) PBUF_RAM s = (r, t)" by fastforce
  show ?thesis using pbuf_alloc_ram [OF al]
  proof (elim disjE conjE exE)
    assume "r = None" "t = s\<lparr>requests := requests s + 1\<rparr>"
    then show ?thesis using False al assms by (auto simp: pbuf_coalesce_def intro!: exI [of _ "requests s + 1"])
  next
    fix q assume q: "r = Some [q]" "chain_ok [q]" "p_type q = PBUF_RAM" "p_len q = p_tot_len (hd p)" "p_payload q = align4 (layer_offset l)"
      "t = s\<lparr>ram_live := ram_live s + 1, requests := requests s + 1\<rparr>"
    obtain f fs where c: "p = f # fs" using assms(3) by (cases p) auto
    have l: "length (chain_bytes p) = length (chain_bytes [q])"
      using chain_tot_len [of f fs] assms(1) q(2,4) unfolding c by simp
    obtain d where d: "pbuf_copy [q] p = Inr (ERR_OK, d)" "list_all2 same_shape [q] d"
      "chain_bytes d = chain_bytes p @ drop (length (chain_bytes p)) (chain_bytes [q])"
      using pbuf_copy_spec [of "[q]" p] q(2) assms l by (auto simp: no_gaps_def)
    obtain q' where q': "d = [q']" "same_shape q q'" using d(2) by (auto simp: list_all2_Cons1)
    have "chain_ok d" by (rule shapes_ok [OF q(2) d(2)])
    moreover have "pbuf_coalesce p l s = Inr (d, pbuf_free p t)" using False al q(1) d(1) by (simp add: pbuf_coalesce_def)
    ultimately show ?thesis using d(3) l q q' same_shape_fields [OF q'(2)] by auto
  qed
qed

end
