(* ===== verification/EthDriver.thy ===== *)
theory EthDriver
  imports Pbuf
begin

text \<open>
  The driver between lwIP and the Ethernet DMA: \<open>port/ethernetif.c\<close> and the functions of
  \<open>stm32_eth.c\<close> it uses. Descriptors and buffers are named by their index in \<open>DMATxDscrTab\<close>,
  \<open>DMARxDscrTab\<close>, \<open>Tx_Buff\<close> and \<open>Rx_Buff\<close>. The DMA engine is hardware; \<open>dma_receive\<close> and \<open>dma_transmit\<close>
  are its steps as the reference manual describes them for chained descriptors.
\<close>

section \<open>Rings of descriptors\<close>

text \<open>A ring of slots with a producer and a consumer: the slots from the consumer's position \<open>a\<close> up to
  the producer's position \<open>b\<close> are full, the others are not. For transmission the processor
  produces and the DMA consumes, for reception it is the other way round.\<close>

definition ring_next :: "nat \<Rightarrow> nat \<Rightarrow> nat" where
  "ring_next n i = (if i < n - 1 then i + 1 else 0)"

definition slots_ok :: "('d \<Rightarrow> bool) \<Rightarrow> nat \<Rightarrow> nat \<Rightarrow> nat \<Rightarrow> 'd list \<Rightarrow> bool" where
  "slots_ok full slots a b xs \<longleftrightarrow> length xs = slots \<and> a < slots \<and>
     (\<exists>k. k \<le> slots \<and> b = (a + k) mod slots \<and> list_all full (take k (rotate a xs)) \<and> list_all (\<lambda>x. \<not> full x) (drop k (rotate a xs)))"

definition waiting :: "('d \<Rightarrow> bool) \<Rightarrow> nat \<Rightarrow> 'd list \<Rightarrow> 'd list" where
  "waiting full a xs = takeWhile full (rotate a xs)"

locale desc_ring =
  fixes full :: "'d \<Rightarrow> bool" and slots :: nat
  assumes slots_pos: "0 < slots"
begin

lemma ring_next_mod: "i < slots \<Longrightarrow> ring_next slots i = (i + 1) mod slots"
  by (auto simp: ring_next_def mod_if)

lemma takeWhile_split:
  assumes "list_all full (take k ys)" "list_all (\<lambda>x. \<not> full x) (drop k ys)"
  shows "takeWhile full ys = take k ys"
proof -
  have "takeWhile full (take k ys @ drop k ys) = take k ys @ takeWhile full (drop k ys)"
    using assms(1) by (intro takeWhile_append2) (simp add: list_all_iff)
  moreover have "takeWhile full (drop k ys) = []"
    using assms(2) by (cases "drop k ys") auto
  ultimately show ?thesis by simp
qed

lemma ring_index_inj:
  assumes "k < slots" "i < slots" "(a + k) mod slots = (a + i) mod slots"
  shows "k = i"
proof (cases "k \<le> i")
  case True
  then have "slots dvd (a + i) - (a + k)" using assms(3) mod_eq_dvd_iff_nat [of "a + k" "a + i" slots] by simp
  then show ?thesis using assms(2) True by (auto dest: dvd_imp_le)
next
  case False
  then have "slots dvd (a + k) - (a + i)" using assms(3) mod_eq_dvd_iff_nat [of "a + i" "a + k" slots] by simp
  then show ?thesis using assms(1) False by (auto dest: dvd_imp_le)
qed

lemma rotate_update:
  assumes "length xs = slots" "k < slots"
  shows "rotate a (xs[(a + k) mod slots := y]) = (rotate a xs)[k := y]"
proof (rule nth_equalityI)
  fix i assume "i < length (rotate a (xs[(a + k) mod slots := y]))"
  then have i: "i < slots" using assms by simp
  then show "rotate a (xs[(a + k) mod slots := y]) ! i = (rotate a xs)[k := y] ! i"
    using ring_index_inj [OF assms(2) i, of a] assms slots_pos by (cases "k = i") (auto simp: nth_rotate nth_list_update)
qed simp

text \<open>The empty ring, and filling and emptying a slot.\<close>

lemma empty_ok: "length xs = slots \<Longrightarrow> list_all (\<lambda>x. \<not> full x) xs \<Longrightarrow> a < slots \<Longrightarrow> slots_ok full slots a a xs \<and> waiting full a xs = []"
proof -
  assume a: "length xs = slots" "list_all (\<lambda>x. \<not> full x) xs" "a < slots"
  have n: "list_all (\<lambda>x. \<not> full x) (rotate a xs)" using a(2) by (simp add: list_all_iff)
  have "slots_ok full slots a a xs" using a n unfolding slots_ok_def by (intro conjI exI [of _ 0]) auto
  moreover have "waiting full a xs = []" unfolding waiting_def using n by (cases "rotate a xs") auto
  ultimately show ?thesis ..
qed

lemma waiting_bounded: "slots_ok full slots a b xs \<Longrightarrow> length (waiting full a xs) \<le> slots"
  using length_takeWhile_le [of full "rotate a xs"] by (auto simp: slots_ok_def waiting_def)

lemma positions: "slots_ok full slots a b xs \<Longrightarrow> a < slots \<and> b < slots \<and> length xs = slots"
  unfolding slots_ok_def using slots_pos mod_less_divisor by blast

lemma room_iff: "slots_ok full slots a b xs \<Longrightarrow> \<not> full (xs ! b) \<longleftrightarrow> length (waiting full a xs) < slots"
proof -
  assume "slots_ok full slots a b xs"
  then obtain k where k: "length xs = slots" "a < slots" "k \<le> slots" "b = (a + k) mod slots"
    "list_all full (take k (rotate a xs))" "list_all (\<lambda>x. \<not> full x) (drop k (rotate a xs))" unfolding slots_ok_def by blast
  have w: "length (waiting full a xs) = k" using takeWhile_split [OF k(5,6)] k(1,3) by (simp add: waiting_def)
  show ?thesis
  proof (cases "k < slots")
    case True
    then have "xs ! b = drop k (rotate a xs) ! 0" using k(1,4) by (simp add: nth_rotate)
    moreover have "drop k (rotate a xs) \<noteq> []" using True k(1) by simp
    ultimately have "\<not> full (xs ! b)" using k(6) by (cases "drop k (rotate a xs)") auto
    then show ?thesis using w True by simp
  next
    case False
    then have e: "k = slots" using k(3) by simp
    then have "xs ! b = rotate a xs ! 0" using k(1,2,4) slots_pos by (simp add: nth_rotate)
    moreover have "list_all full (rotate a xs)" using k(1,5) e by simp
    ultimately have "full (xs ! b)" using k(1) slots_pos by (simp add: list_all_length)
    then show ?thesis using w e by simp
  qed
qed

lemma waiting_iff: "slots_ok full slots a b xs \<Longrightarrow> full (xs ! a) \<longleftrightarrow> waiting full a xs \<noteq> []"
proof -
  assume ok: "slots_ok full slots a b xs"
  then have l: "length xs = slots" "a < slots" by (simp_all add: slots_ok_def)
  then have "rotate a xs \<noteq> []" by auto
  moreover have "hd (rotate a xs) = xs ! a" using l \<open>rotate a xs \<noteq> []\<close> by (simp add: hd_conv_nth nth_rotate)
  ultimately show ?thesis unfolding waiting_def by (cases "rotate a xs") auto
qed

lemma fill:
  assumes "slots_ok full slots a b xs" "\<not> full (xs ! b)" "full y"
  shows "slots_ok full slots a (ring_next slots b) (xs[b := y]) \<and> waiting full a (xs[b := y]) = waiting full a xs @ [y]"
proof -
  obtain k where k: "length xs = slots" "a < slots" "k \<le> slots" "b = (a + k) mod slots"
    "list_all full (take k (rotate a xs))" "list_all (\<lambda>x. \<not> full x) (drop k (rotate a xs))"
    using assms(1) unfolding slots_ok_def by blast
  have w: "waiting full a xs = take k (rotate a xs)" using takeWhile_split [OF k(5,6)] by (simp add: waiting_def)
  have lt: "k < slots" using room_iff [OF assms(1)] assms(2) w k(1,3) by simp
  have r: "rotate a (xs[b := y]) = (rotate a xs)[k := y]" unfolding k(4) by (rule rotate_update [OF k(1) lt])
  have t: "take (Suc k) ((rotate a xs)[k := y]) = take k (rotate a xs) @ [y]"
    using lt k(1) by (simp add: take_Suc_conv_app_nth)
  have d: "drop (Suc k) ((rotate a xs)[k := y]) = drop (Suc k) (rotate a xs)" by simp
  have "drop (Suc k) (rotate a xs) = tl (drop k (rotate a xs))" by (simp add: drop_Suc tl_drop)
  then have f: "list_all full (take (Suc k) (rotate a (xs[b := y])))" "list_all (\<lambda>x. \<not> full x) (drop (Suc k) (rotate a (xs[b := y])))"
    unfolding r t d using k(5,6) assms(3) by (auto simp: list_all_iff dest: list.set_sel(2) [rotated]) (metis list.sel(2) list.set_sel(2))
  have "ring_next slots b = (a + Suc k) mod slots" using k(4) slots_pos by (simp add: ring_next_mod mod_Suc_eq)
  then have "slots_ok full slots a (ring_next slots b) (xs[b := y])" unfolding slots_ok_def using k(1,2) lt f by (intro conjI exI [of _ "Suc k"]) auto
  moreover have "waiting full a (xs[b := y]) = waiting full a xs @ [y]" using takeWhile_split [OF f] w unfolding waiting_def r t by simp
  ultimately show ?thesis ..
qed

lemma empty_slot:
  assumes "slots_ok full slots a b xs" "full (xs ! a)" "\<not> full y"
  shows "slots_ok full slots (ring_next slots a) b (xs[a := y]) \<and> waiting full a xs = xs ! a # waiting full (ring_next slots a) (xs[a := y])"
proof -
  obtain k where k: "length xs = slots" "a < slots" "k \<le> slots" "b = (a + k) mod slots"
    "list_all full (take k (rotate a xs))" "list_all (\<lambda>x. \<not> full x) (drop k (rotate a xs))"
    using assms(1) unfolding slots_ok_def by blast
  have w: "waiting full a xs = take k (rotate a xs)" using takeWhile_split [OF k(5,6)] by (simp add: waiting_def)
  then have "k \<noteq> 0" using waiting_iff [OF assms(1)] assms(2) by auto
  then obtain j where j: "k = Suc j" by (cases k) auto
  have "xs \<noteq> []" using k(1,2) by auto
  then have ne: "rotate a xs \<noteq> []" "hd (rotate a xs) = xs ! a"
    using k(1,2) hd_rotate_conv_nth [of xs a] by simp_all
  then obtain zs where zs: "rotate a xs = xs ! a # zs" by (cases "rotate a xs") auto
  have lz: "length zs = slots - 1" using zs k(1) by (metis length_rotate length_Cons diff_Suc_1)
  have "rotate a (xs[(a + 0) mod slots := y]) = (rotate a xs)[0 := y]" using k(1) slots_pos by (rule rotate_update)
  then have "rotate a (xs[a := y]) = y # zs" using k(2) zs by simp
  then have "rotate (Suc a) (xs[a := y]) = zs @ [y]" by simp
  moreover have "rotate (ring_next slots a) (xs[a := y]) = rotate (Suc a) (xs[a := y])"
    using k(1,2) rotate_conv_mod [of "Suc a" "xs[a := y]"] by (simp add: ring_next_mod)
  ultimately have r: "rotate (ring_next slots a) (xs[a := y]) = zs @ [y]" by simp
  have f: "list_all full (take j (zs @ [y]))" "list_all (\<lambda>x. \<not> full x) (drop j (zs @ [y]))"
    using k(3,5,6) lz assms(3) unfolding zs j by simp_all
  have "b = (ring_next slots a + j) mod slots" using k(2,4) j by (simp add: ring_next_mod mod_add_left_eq)
  then have "slots_ok full slots (ring_next slots a) b (xs[a := y])"
    unfolding slots_ok_def r using k(1,2,3) j f slots_pos by (intro conjI exI [of _ j]) (auto simp: ring_next_mod)
  moreover have "waiting full a xs = xs ! a # waiting full (ring_next slots a) (xs[a := y])"
    using k(3) lz unfolding w zs j unfolding waiting_def r takeWhile_split [OF f] by simp
  ultimately show ?thesis ..
qed

lemma full_ring: "slots_ok full slots a b xs \<Longrightarrow> length (waiting full a xs) = slots \<Longrightarrow> b = a"
proof -
  assume ok: "slots_ok full slots a b xs" and l: "length (waiting full a xs) = slots"
  then obtain k where k: "length xs = slots" "a < slots" "k \<le> slots" "b = (a + k) mod slots"
    "list_all full (take k (rotate a xs))" "list_all (\<lambda>x. \<not> full x) (drop k (rotate a xs))" unfolding slots_ok_def by blast
  have "k = slots" using l takeWhile_split [OF k(5,6)] k(1,3) by (simp add: waiting_def)
  then show ?thesis using k(2,4) by simp
qed

lemma overwrite:
  assumes "slots_ok full slots a b xs" "full (xs ! a)" "full y"
  shows "slots_ok full slots a b (xs[a := y]) \<and> waiting full a (xs[a := y]) = y # tl (waiting full a xs)"
proof -
  obtain k where k: "length xs = slots" "a < slots" "k \<le> slots" "b = (a + k) mod slots"
    "list_all full (take k (rotate a xs))" "list_all (\<lambda>x. \<not> full x) (drop k (rotate a xs))"
    using assms(1) unfolding slots_ok_def by blast
  have w: "waiting full a xs = take k (rotate a xs)" using takeWhile_split [OF k(5,6)] by (simp add: waiting_def)
  then have "k \<noteq> 0" using waiting_iff [OF assms(1)] assms(2) by auto
  then obtain j where j: "k = Suc j" by (cases k) auto
  have "xs \<noteq> []" using k(1,2) by auto
  then obtain z zs where zs: "rotate a xs = z # zs" by (cases "rotate a xs") auto
  have "rotate a (xs[(a + 0) mod slots := y]) = (rotate a xs)[0 := y]" using k(1) slots_pos by (rule rotate_update)
  then have r: "rotate a (xs[a := y]) = y # zs" using k(2) zs by simp
  have f: "list_all full (take k (y # zs))" "list_all (\<lambda>x. \<not> full x) (drop k (y # zs))"
    using k(5,6) assms(3) unfolding zs j by simp_all
  have "slots_ok full slots a b (xs[a := y])" unfolding slots_ok_def r using k(1-4) f by auto
  moreover have "waiting full a (xs[a := y]) = y # tl (waiting full a xs)"
    unfolding w zs unfolding waiting_def r takeWhile_split [OF f] by (simp add: j)
  ultimately show ?thesis ..
qed

end

section \<open>State\<close>

record dma_desc =
  d_status :: u32
  d_control :: u32    \<comment> \<open>\<open>ControlBufferSize\<close>\<close>
  d_buffer :: nat     \<comment> \<open>\<open>Buffer1Addr\<close>\<close>
  d_next :: nat       \<comment> \<open>\<open>Buffer2NextDescAddr\<close>\<close>

text \<open>The part of \<open>struct netif\<close> that the modelled code reads. Addresses are 32-bit numbers as the
  processor loads them: the first byte on the wire is the least significant one.\<close>

record netif =
  nif_ip_addr :: u32
  nif_netmask :: u32
  nif_gw :: u32
  nif_hwaddr :: "u8 list"
  nif_mtu :: u16
  nif_flags :: u8

record eth_st = mem_st +
  MACaddr :: "u8 list"
  netif :: netif
  DMARxDscrTab :: "dma_desc list"
  DMATxDscrTab :: "dma_desc list"
  Rx_Buff :: "u8 list list"
  Tx_Buff :: "u8 list list"
  DMARxDescToGet :: nat
  DMATxDescToSet :: nat
  DMASR :: u32
  dma_rx :: nat            \<comment> \<open>the descriptor the receiving DMA fills next\<close>
  dma_tx :: nat            \<comment> \<open>the descriptor the sending DMA looks at next\<close>
  wire :: "u8 list list"   \<comment> \<open>the frames sent\<close>

abbreviation (input) "ETH_RXBUFNB \<equiv> 4 :: nat"
abbreviation (input) "ETH_TXBUFNB \<equiv> 2 :: nat"
abbreviation (input) "ETH_MAX_PACKET_SIZE \<equiv> 1520 :: nat"

abbreviation (input) "DESC_OWN \<equiv> 0x80000000 :: u32"
abbreviation (input) "RX_FL \<equiv> 0x3FFF0000 :: u32"
abbreviation (input) "RX_ES \<equiv> 0x8000 :: u32"
abbreviation (input) "RX_FS \<equiv> 0x200 :: u32"
abbreviation (input) "RX_LS \<equiv> 0x100 :: u32"
abbreviation (input) "RX_DIC \<equiv> 0x80000000 :: u32"
abbreviation (input) "RX_RCH \<equiv> 0x4000 :: u32"
abbreviation (input) "TX_LS \<equiv> 0x20000000 :: u32"
abbreviation (input) "TX_FS \<equiv> 0x10000000 :: u32"
abbreviation (input) "TX_TCH \<equiv> 0x00100000 :: u32"
abbreviation (input) "TX_TBS1 \<equiv> 0x1FFF :: u32"
abbreviation (input) "TX_CIC_FULL \<equiv> 0x00C00000 :: u32"
abbreviation (input) "DMASR_RBUS \<equiv> 0x80 :: u32"
abbreviation (input) "DMASR_TBUS \<equiv> 4 :: u32"
abbreviation (input) "NETIF_FLAG_UP \<equiv> 1 :: u8"
abbreviation (input) "NETIF_FLAG_BROADCAST \<equiv> 2 :: u8"
abbreviation (input) "NETIF_FLAG_LINK_UP \<equiv> 0x10 :: u8"
abbreviation (input) "NETIF_FLAG_ETHARP \<equiv> 0x20 :: u8"

section \<open>Initialisation\<close>

definition ETH_DMATxDescChainInit :: "nat \<Rightarrow> 'a eth_st_scheme \<Rightarrow> 'a eth_st_scheme" where
  "ETH_DMATxDescChainInit n s = s\<lparr>DMATxDescToSet := 0,
     DMATxDscrTab := map (\<lambda>i. (DMATxDscrTab s ! i)\<lparr>d_status := TX_TCH, d_buffer := i, d_next := (if i < n - 1 then i + 1 else 0)\<rparr>) [0..<n],
     dma_tx := 0\<rparr>"

definition ETH_DMARxDescChainInit :: "nat \<Rightarrow> 'a eth_st_scheme \<Rightarrow> 'a eth_st_scheme" where
  "ETH_DMARxDescChainInit n s = s\<lparr>DMARxDescToGet := 0,
     DMARxDscrTab := map (\<lambda>i. \<lparr>d_status = DESC_OWN, d_control = RX_RCH OR of_nat ETH_MAX_PACKET_SIZE, d_buffer = i,
       d_next = (if i < n - 1 then i + 1 else 0)\<rparr>) [0..<n],
     dma_rx := 0\<rparr>"

definition ETH_DMARxDescReceiveITConfig :: "bool \<Rightarrow> dma_desc \<Rightarrow> dma_desc" where
  "ETH_DMARxDescReceiveITConfig on d =
     (if on then d\<lparr>d_control := d_control d AND NOT RX_DIC\<rparr> else d\<lparr>d_control := d_control d OR RX_DIC\<rparr>)"

definition ETH_DMATxDescChecksumInsertionConfig :: "u32 \<Rightarrow> dma_desc \<Rightarrow> dma_desc" where
  "ETH_DMATxDescChecksumInsertionConfig ck d = d\<lparr>d_status := d_status d OR ck\<rparr>"

text \<open>The writes to the address registers of the MAC and to the enable bits (\<open>ETH_Start\<close>) are left out: the DMA
  engine below works whenever it owns a descriptor.\<close>

definition set_mac_address :: "u8 list \<Rightarrow> 'a eth_st_scheme \<Rightarrow> 'a eth_st_scheme" where
  "set_mac_address macadd s = s\<lparr>MACaddr := take 6 macadd\<rparr>"

definition low_level_init :: "'a eth_st_scheme \<Rightarrow> 'a eth_st_scheme" where
  "low_level_init s =
     (let s = s\<lparr>netif := (netif s)\<lparr>nif_hwaddr := MACaddr s, nif_mtu := 1500,
            nif_flags := NETIF_FLAG_BROADCAST OR NETIF_FLAG_ETHARP OR NETIF_FLAG_LINK_UP\<rparr>\<rparr>;
          s = ETH_DMATxDescChainInit ETH_TXBUFNB s;
          s = ETH_DMARxDescChainInit ETH_RXBUFNB s;
          s = s\<lparr>DMARxDscrTab := map (ETH_DMARxDescReceiveITConfig True) (DMARxDscrTab s)\<rparr>
      in s\<lparr>DMATxDscrTab := map (ETH_DMATxDescChecksumInsertionConfig TX_CIC_FULL) (DMATxDscrTab s)\<rparr>)"

text \<open>\<open>ERR_MEM\<close> when the heap has no room for \<open>struct ethernetif\<close>.\<close>

definition ethernetif_init :: "'a eth_st_scheme \<Rightarrow> err \<times> 'a eth_st_scheme" where
  "ethernetif_init s = (let (ok, s) = mem_malloc 8 s in if ok then (ERR_OK, low_level_init s) else (ERR_MEM, s))"

section \<open>Transmission\<close>

text \<open>Writing ones to bits of \<open>DMASR\<close> clears them.\<close>

definition clear_DMASR :: "u32 \<Rightarrow> 'a eth_st_scheme \<Rightarrow> 'a eth_st_scheme" where
  "clear_DMASR v s = s\<lparr>DMASR := DMASR s AND NOT v\<rparr>"

definition ETH_GetCurrentTxBuffer :: "'a eth_st_scheme \<Rightarrow> nat" where
  "ETH_GetCurrentTxBuffer s = d_buffer (DMATxDscrTab s ! DMATxDescToSet s)"

definition ETH_TxPkt_ChainMode :: "u16 \<Rightarrow> 'a eth_st_scheme \<Rightarrow> bool \<times> 'a eth_st_scheme" where
  "ETH_TxPkt_ChainMode FrameLength s =
     (let i = DMATxDescToSet s; d = DMATxDscrTab s ! i in
      if d_status d AND DESC_OWN \<noteq> 0 then (False, s)
      else let d = d\<lparr>d_control := ucast FrameLength AND TX_TBS1, d_status := d_status d OR (TX_LS OR TX_FS) OR DESC_OWN\<rparr>;
               s = s\<lparr>DMATxDscrTab := (DMATxDscrTab s)[i := d]\<rparr>;
               s = (if DMASR s AND DMASR_TBUS \<noteq> 0 then clear_DMASR DMASR_TBUS s else s)
           in (True, s\<lparr>DMATxDescToSet := d_next d\<rparr>))"

text \<open>The loop of \<open>low_level_output\<close>: \<open>l\<close> is the index in the buffer.\<close>

fun copy_out_frame :: "chain \<Rightarrow> nat \<Rightarrow> u8 list \<Rightarrow> (nat \<times> u8 list) result" where
  "copy_out_frame [] l buf = Inr (l, buf)"
| "copy_out_frame (q # qs) l buf =
     and_then (read_at q 0 (unat (p_len q))) (\<lambda>bs.
       if l + length bs \<le> length buf then copy_out_frame qs (l + length bs) (blit buf l bs) else Inl Undefined)"

text \<open>The frame is written into the buffer before \<open>ETH_TxPkt_ChainMode\<close> looks at the owner of the
  descriptor, and the result of that function is not used.\<close>

definition low_level_output :: "chain \<Rightarrow> 'a eth_st_scheme \<Rightarrow> (err \<times> 'a eth_st_scheme) result" where
  "low_level_output p s =
     (let b = ETH_GetCurrentTxBuffer s in
      and_then (copy_out_frame p 0 (Tx_Buff s ! b)) (\<lambda>(l, buf).
        Inr (ERR_OK, snd (ETH_TxPkt_ChainMode (of_nat l) (s\<lparr>Tx_Buff := (Tx_Buff s)[b := buf]\<rparr>)))))"

section \<open>Reception\<close>

record FrameTypeDef =
  fr_length :: u32
  fr_buffer :: "nat option"
  fr_descriptor :: "nat option"

definition ETH_GetRxPktSize :: "'a eth_st_scheme \<Rightarrow> u32" where
  "ETH_GetRxPktSize s =
     (let st = d_status (DMARxDscrTab s ! DMARxDescToGet s) in
      if st AND DESC_OWN = 0 \<and> st AND RX_ES = 0 \<and> st AND RX_LS \<noteq> 0 \<and> st AND RX_FS \<noteq> 0 then drop_bit 16 (st AND RX_FL) else 0)"

definition resume_reception :: "'a eth_st_scheme \<Rightarrow> 'a eth_st_scheme" where
  "resume_reception s = (if DMASR s AND DMASR_RBUS \<noteq> 0 then clear_DMASR DMASR_RBUS s else s)"

definition ETH_RxPkt_ChainMode :: "'a eth_st_scheme \<Rightarrow> FrameTypeDef \<times> 'a eth_st_scheme" where
  "ETH_RxPkt_ChainMode s =
     (let i = DMARxDescToGet s; d = DMARxDscrTab s ! i; st = d_status d in
      if st AND DESC_OWN \<noteq> 0 then (\<lparr>fr_length = 0, fr_buffer = None, fr_descriptor = None\<rparr>, resume_reception s)
      else let frame = (if st AND RX_ES = 0 \<and> st AND RX_LS \<noteq> 0 \<and> st AND RX_FS \<noteq> 0
                 then \<lparr>fr_length = drop_bit 16 (st AND RX_FL) - 4, fr_buffer = Some (d_buffer d), fr_descriptor = Some i\<rparr>
                 else \<lparr>fr_length = 0, fr_buffer = None, fr_descriptor = Some i\<rparr>)
           in (frame, s\<lparr>DMARxDescToGet := d_next d\<rparr>))"

text \<open>The loop of \<open>low_level_input\<close>; \<open>bs\<close> is the rest of the buffer from \<open>l\<close> on.\<close>

fun copy_in_frame :: "chain \<Rightarrow> u8 list \<Rightarrow> chain result" where
  "copy_in_frame [] bs = Inr []"
| "copy_in_frame (q # qs) bs =
     (if length bs < unat (p_len q) then Inl Undefined
      else and_then (write_at q 0 (take (unat (p_len q)) bs)) (\<lambda>q'.
           and_then (copy_in_frame qs (drop (unat (p_len q)) bs)) (\<lambda>qs'. Inr (q' # qs'))))"

definition low_level_input :: "'a eth_st_scheme \<Rightarrow> (chain option \<times> 'a eth_st_scheme) result" where
  "low_level_input s =
     (let (frame, s) = ETH_RxPkt_ChainMode s;
          buf = (case fr_buffer frame of None \<Rightarrow> [] | Some b \<Rightarrow> Rx_Buff s ! b);
          (p, s) = pbuf_alloc PBUF_RAW (ucast (fr_length frame)) PBUF_POOL s
      in and_then (case p of None \<Rightarrow> Inr None | Some c \<Rightarrow> and_then (copy_in_frame c buf) (\<lambda>c. Inr (Some c))) (\<lambda>p.
         case fr_descriptor frame of
           None \<Rightarrow> Inl Undefined
         | Some i \<Rightarrow> Inr (p, resume_reception (s\<lparr>DMARxDscrTab := (DMARxDscrTab s)[i := (DMARxDscrTab s ! i)\<lparr>d_status := DESC_OWN\<rparr>]\<rparr>))))"

section \<open>The DMA engine\<close>

text \<open>The DMA closes its current descriptor with the status \<open>st\<close> after writing \<open>bs\<close> to its buffer, if it
  owns the descriptor; otherwise it reports that no buffer is available.\<close>

definition dma_receive :: "u32 \<Rightarrow> u8 list \<Rightarrow> 'a eth_st_scheme \<Rightarrow> 'a eth_st_scheme" where
  "dma_receive st bs s =
     (let i = dma_rx s; d = DMARxDscrTab s ! i in
      if d_status d AND DESC_OWN \<noteq> 0
      then s\<lparr>Rx_Buff := (Rx_Buff s)[d_buffer d := blit (Rx_Buff s ! d_buffer d) 0 bs],
             DMARxDscrTab := (DMARxDscrTab s)[i := d\<lparr>d_status := st AND NOT DESC_OWN\<rparr>], dma_rx := d_next d\<rparr>
      else s\<lparr>DMASR := DMASR s OR DMASR_RBUS\<rparr>)"

text \<open>The status of a good frame of \<open>n\<close> bytes without its checksum.\<close>

definition good_status :: "nat \<Rightarrow> u32" where
  "good_status n = RX_FS OR RX_LS OR push_bit 16 (of_nat (n + 4))"

definition dma_transmit :: "'a eth_st_scheme \<Rightarrow> 'a eth_st_scheme" where
  "dma_transmit s =
     (let i = dma_tx s; d = DMATxDscrTab s ! i in
      if d_status d AND DESC_OWN \<noteq> 0
      then s\<lparr>wire := wire s @ [take (unat (d_control d AND TX_TBS1)) (Tx_Buff s ! d_buffer d)],
             DMATxDscrTab := (DMATxDscrTab s)[i := d\<lparr>d_status := d_status d AND NOT DESC_OWN\<rparr>], dma_tx := d_next d\<rparr>
      else s\<lparr>DMASR := DMASR s OR DMASR_TBUS\<rparr>)"

section \<open>The rings of the driver\<close>

lemma own_bit: "st AND DESC_OWN \<noteq> 0 \<longleftrightarrow> bit st 31" for st :: u32
proof -
  have "push_bit 31 (1 :: u32) = DESC_OWN" by simp
  then show ?thesis using bit_iff_and_push_bit_not_eq_0 [of st 31] by simp
qed

lemma own_bits [simp]:
  "bit (st OR a OR DESC_OWN) 31" "\<not> bit (st AND NOT DESC_OWN) 31" "bit DESC_OWN 31" for st :: u32
proof -
  show *: "bit DESC_OWN 31" using own_bit [of DESC_OWN] by simp
  show "bit (st OR a OR DESC_OWN) 31" "\<not> bit (st AND NOT DESC_OWN) 31"
    using * by (simp_all add: bit_or_iff bit_and_iff bit_not_iff)
qed

definition tx_full :: "dma_desc \<times> u8 list \<Rightarrow> bool" where
  "tx_full x \<longleftrightarrow> bit (d_status (fst x)) 31"

definition rx_full :: "dma_desc \<times> u8 list \<Rightarrow> bool" where
  "rx_full x \<longleftrightarrow> \<not> bit (d_status (fst x)) 31"

interpretation tx: desc_ring tx_full 2
  by unfold_locales simp

interpretation rx: desc_ring rx_full 4
  by unfold_locales simp

definition tx_slots :: "'a eth_st_scheme \<Rightarrow> (dma_desc \<times> u8 list) list" where
  "tx_slots s = zip (DMATxDscrTab s) (Tx_Buff s)"

definition rx_slots :: "'a eth_st_scheme \<Rightarrow> (dma_desc \<times> u8 list) list" where
  "rx_slots s = zip (DMARxDscrTab s) (Rx_Buff s)"

text \<open>The frames handed over and not yet sent, and the frames received and not yet read with the status
  of their descriptors, oldest first.\<close>

definition tx_queue :: "'a eth_st_scheme \<Rightarrow> u8 list list" where
  "tx_queue s = map (\<lambda>(d, b). take (unat (d_control d AND TX_TBS1)) b) (waiting tx_full (dma_tx s) (tx_slots s))"

definition rx_queue :: "'a eth_st_scheme \<Rightarrow> (u32 \<times> u8 list) list" where
  "rx_queue s = map (\<lambda>(d, b). (d_status d, b)) (waiting rx_full (DMARxDescToGet s) (rx_slots s))"

text \<open>Each descriptor has the buffer of its own index and points to its successor.\<close>

definition wired :: "nat \<Rightarrow> dma_desc list \<Rightarrow> bool" where
  "wired n tab \<longleftrightarrow> length tab = n \<and> (\<forall>i<n. d_buffer (tab ! i) = i \<and> d_next (tab ! i) = ring_next n i)"

definition buffers :: "nat \<Rightarrow> u8 list list \<Rightarrow> bool" where
  "buffers n bufs \<longleftrightarrow> length bufs = n \<and> (\<forall>b\<in>set bufs. length b = ETH_MAX_PACKET_SIZE)"

definition tx_ok :: "'a eth_st_scheme \<Rightarrow> bool" where
  "tx_ok s \<longleftrightarrow> wired 2 (DMATxDscrTab s) \<and> buffers 2 (Tx_Buff s)
     \<and> slots_ok tx_full 2 (dma_tx s) (DMATxDescToSet s) (tx_slots s)"

definition rx_ok :: "'a eth_st_scheme \<Rightarrow> bool" where
  "rx_ok s \<longleftrightarrow> wired 4 (DMARxDscrTab s) \<and> buffers 4 (Rx_Buff s)
     \<and> slots_ok rx_full 4 (DMARxDescToGet s) (dma_rx s) (rx_slots s)"

definition eth_ok :: "'a eth_st_scheme \<Rightarrow> bool" where
  "eth_ok s \<longleftrightarrow> tx_ok s \<and> rx_ok s"

lemma wired_update: "wired n tab \<Longrightarrow> i < n \<Longrightarrow> d_buffer d = i \<Longrightarrow> d_next d = ring_next n i \<Longrightarrow> wired n (tab[i := d])"
  by (auto simp: wired_def nth_list_update)

lemma buffers_update: "buffers n bufs \<Longrightarrow> length b = ETH_MAX_PACKET_SIZE \<Longrightarrow> buffers n (bufs[i := b])"
  by (auto simp: buffers_def dest!: set_update_subset_insert [THEN subsetD])

lemma buffers_nth: "buffers n bufs \<Longrightarrow> i < n \<Longrightarrow> length (bufs ! i) = ETH_MAX_PACKET_SIZE"
  by (simp add: buffers_def)

text \<open>Only the sending side of the driver changes.\<close>

definition tx_only :: "'a eth_st_scheme \<Rightarrow> 'a eth_st_scheme \<Rightarrow> bool" where
  "tx_only s t \<longleftrightarrow> (\<exists>a b c d. t = s\<lparr>Tx_Buff := a, DMATxDscrTab := b, DMATxDescToSet := c, DMASR := d\<rparr>)"

lemma tx_onlyD:
  assumes "tx_only s t"
  shows "mem_st.more t = mem_st.more t" "netif t = netif s" "MACaddr t = MACaddr s" "eth_st.more t = eth_st.more s"
    "pool_free t = pool_free s" "ref_free t = ref_free s" "arpq_free t = arpq_free s" "ram_live t = ram_live s"
    "requests t = requests s" "ram_ok t = ram_ok s" "junk t = junk s" "wire t = wire s" "dma_tx t = dma_tx s"
    "rx_queue t = rx_queue s" "rx_ok t = rx_ok s" "DMARxDescToGet t = DMARxDescToGet s" "dma_rx t = dma_rx s"
  using assms by (auto simp: tx_only_def rx_queue_def rx_slots_def rx_ok_def)

lemma tx_onlyI:
  "t = s\<lparr>Tx_Buff := Tx_Buff t, DMATxDscrTab := DMATxDscrTab t, DMATxDescToSet := DMATxDescToSet t, DMASR := DMASR t\<rparr> \<Longrightarrow> tx_only s t"
  unfolding tx_only_def by blast

lemma tx_only_refl: "tx_only s s"
  by (rule tx_onlyI) simp

lemma tx_only_trans: "tx_only s t \<Longrightarrow> tx_only t u \<Longrightarrow> tx_only s u"
  by (fastforce simp: tx_only_def)

subsection \<open>Sending\<close>

lemma copy_out_frame_spec:
  assumes "chain_ok p" "l + length (chain_bytes p) \<le> length buf"
  shows "copy_out_frame p l buf = Inr (l + length (chain_bytes p), blit buf l (chain_bytes p))"
  using assms
proof (induction p arbitrary: l buf)
  case (Cons q qs)
  have q: "node_ok q" "chain_ok qs" using Cons.prems(1) by simp_all
  have r: "read_at q 0 (unat (p_len q)) = Inr (pbytes q)" using read_at_pbytes [OF q(1), of 0 "unat (p_len q)"] q(1) by simp
  have "copy_out_frame qs (l + length (pbytes q)) (blit buf l (pbytes q))
      = Inr (l + length (pbytes q) + length (chain_bytes qs), blit (blit buf l (pbytes q)) (l + length (pbytes q)) (chain_bytes qs))"
    using Cons.prems(2) by (intro Cons.IH [OF q(2)]) simp
  then show ?case using Cons.prems(2) r by (simp add: add.assoc blit_append)
qed simp

text \<open>With a free descriptor the bytes of the packet join the queue.\<close>

lemma tbs1_length: "n < 8192 \<Longrightarrow> unat (ucast (of_nat n :: u16) AND TX_TBS1 :: u32) = n"
proof -
  assume a: "n < 8192"
  have m: "(0x1FFF :: u32) = mask 13" by (simp add: mask_eq_exp_minus_1)
  have "unat (ucast (of_nat n :: u16) :: u32) = n" using a by (simp add: unsigned_ucast_eq unat_of_nat take_bit_nat_eq_self_iff)
  then show ?thesis using a unfolding m by (simp add: unsigned_take_bit_eq take_bit_nat_eq_self_iff flip: take_bit_eq_mask)
qed

definition TxPkt_desc :: "nat \<Rightarrow> dma_desc \<Rightarrow> dma_desc" where
  "TxPkt_desc n d = d\<lparr>d_control := ucast (of_nat n :: u16) AND TX_TBS1, d_status := d_status d OR (TX_LS OR TX_FS) OR DESC_OWN\<rparr>"

lemma TxPkt_desc_fields [simp]:
  "bit (d_status (TxPkt_desc n d)) 31" "d_buffer (TxPkt_desc n d) = d_buffer d" "d_next (TxPkt_desc n d) = d_next d"
proof -
  have "d_status (TxPkt_desc n d) = d_status d OR (TX_LS OR TX_FS) OR DESC_OWN" by (simp add: TxPkt_desc_def)
  then show "bit (d_status (TxPkt_desc n d)) 31" by (simp only: own_bits)
qed (simp_all add: TxPkt_desc_def)

lemma TxPkt_desc_length: "n < 8192 \<Longrightarrow> unat (d_control (TxPkt_desc n d) AND TX_TBS1) = n"
  using tbs1_length [of n] by (simp add: TxPkt_desc_def and.assoc)

lemma low_level_output_eq:
  assumes "tx_ok s" "chain_ok p" "length (chain_bytes p) \<le> ETH_MAX_PACKET_SIZE"
  shows "\<exists>r. low_level_output p s = Inr (ERR_OK,
    if tx_full (tx_slots s ! DMATxDescToSet s)
    then s\<lparr>Tx_Buff := (Tx_Buff s)[DMATxDescToSet s := blit (Tx_Buff s ! DMATxDescToSet s) 0 (chain_bytes p)]\<rparr>
    else s\<lparr>Tx_Buff := (Tx_Buff s)[DMATxDescToSet s := blit (Tx_Buff s ! DMATxDescToSet s) 0 (chain_bytes p)],
           DMATxDscrTab := (DMATxDscrTab s)[DMATxDescToSet s := TxPkt_desc (length (chain_bytes p)) (DMATxDscrTab s ! DMATxDescToSet s)],
           DMASR := r, DMATxDescToSet := ring_next 2 (DMATxDescToSet s)\<rparr>)"
proof -
  let ?i = "DMATxDescToSet s"
  have i: "?i < 2" "length (tx_slots s) = 2" using assms(1) tx.positions by (auto simp: tx_ok_def)
  have w: "wired 2 (DMATxDscrTab s)" "buffers 2 (Tx_Buff s)" using assms(1) by (simp_all add: tx_ok_def)
  have d: "d_buffer (DMATxDscrTab s ! ?i) = ?i" "d_next (DMATxDscrTab s ! ?i) = ring_next 2 ?i" "length (DMATxDscrTab s) = 2"
    using w(1) i(1) by (simp_all add: wired_def)
  have b: "length (Tx_Buff s ! ?i) = ETH_MAX_PACKET_SIZE" by (rule buffers_nth [OF w(2) i(1)])
  have f: "tx_full (tx_slots s ! ?i) \<longleftrightarrow> bit (d_status (DMATxDscrTab s ! ?i)) 31"
    using i d(3) w(2) by (simp add: tx_full_def tx_slots_def buffers_def)
  have c: "copy_out_frame p 0 (Tx_Buff s ! ?i) = Inr (length (chain_bytes p), blit (Tx_Buff s ! ?i) 0 (chain_bytes p))"
    using copy_out_frame_spec [OF assms(2), of 0 "Tx_Buff s ! ?i"] assms(3) b by simp
  show ?thesis
  proof (cases "bit (d_status (DMATxDscrTab s ! ?i)) 31")
    case True
    then show ?thesis
      unfolding low_level_output_def Let_def ETH_GetCurrentTxBuffer_def d(1) c and_then.simps prod.case f
      by (simp add: ETH_TxPkt_ChainMode_def Let_def own_bit)
  next
    case False
    let ?s = "s\<lparr>Tx_Buff := (Tx_Buff s)[?i := blit (Tx_Buff s ! ?i) 0 (chain_bytes p)],
      DMATxDscrTab := (DMATxDscrTab s)[?i := TxPkt_desc (length (chain_bytes p)) (DMATxDscrTab s ! ?i)]\<rparr>"
    have "low_level_output p s = Inr (ERR_OK, (if DMASR s AND DMASR_TBUS \<noteq> 0 then clear_DMASR DMASR_TBUS ?s else ?s)\<lparr>DMATxDescToSet := ring_next 2 ?i\<rparr>)"
      unfolding low_level_output_def Let_def ETH_GetCurrentTxBuffer_def d(1) c and_then.simps prod.case
      using False d(2) by (simp add: ETH_TxPkt_ChainMode_def Let_def own_bit TxPkt_desc_def)
    then show ?thesis
      unfolding f using False
      by (intro exI [of _ "if DMASR s AND DMASR_TBUS \<noteq> 0 then DMASR s AND NOT DMASR_TBUS else DMASR s"]) (simp add: clear_DMASR_def)
  qed
qed

lemma tx_slots_update [simp]:
  "zip ((DMATxDscrTab s)[i := d]) ((Tx_Buff s)[i := b]) = (tx_slots s)[i := (d, b)]"
  by (simp add: tx_slots_def zip_update)

lemma tx_slot:
  assumes "tx_ok s" "i < 2"
  shows "tx_slots s ! i = (DMATxDscrTab s ! i, Tx_Buff s ! i)" "length (Tx_Buff s ! i) = ETH_MAX_PACKET_SIZE"
    "d_buffer (DMATxDscrTab s ! i) = i" "d_next (DMATxDscrTab s ! i) = ring_next 2 i"
  using assms buffers_nth [of 2 "Tx_Buff s" i] by (simp_all add: tx_ok_def tx_slots_def wired_def buffers_def)

lemma length_tx_queue: "length (tx_queue s) = length (waiting tx_full (dma_tx s) (tx_slots s))"
  by (simp add: tx_queue_def)

lemma low_level_output_room:
  assumes "tx_ok s" "chain_ok p" "length (chain_bytes p) \<le> ETH_MAX_PACKET_SIZE" "length (tx_queue s) < 2"
  shows "\<exists>t. low_level_output p s = Inr (ERR_OK, t) \<and> tx_only s t \<and> tx_ok t \<and> tx_queue t = tx_queue s @ [chain_bytes p]"
proof -
  let ?i = "DMATxDescToSet s"
  let ?b = "blit (Tx_Buff s ! ?i) 0 (chain_bytes p)" and ?d = "TxPkt_desc (length (chain_bytes p)) (DMATxDscrTab s ! ?i)"
  have ok: "slots_ok tx_full 2 (dma_tx s) ?i (tx_slots s)" "wired 2 (DMATxDscrTab s)" "buffers 2 (Tx_Buff s)"
    using assms(1) by (simp_all add: tx_ok_def)
  have i: "?i < 2" using tx.positions [OF ok(1)] by simp
  note sl = tx_slot [OF assms(1) i]
  have room: "\<not> tx_full (tx_slots s ! ?i)" using tx.room_iff [OF ok(1)] assms(4) by (simp add: length_tx_queue)
  have full: "tx_full (?d, ?b)" by (simp add: tx_full_def)
  obtain r where r: "low_level_output p s = Inr (ERR_OK, s\<lparr>Tx_Buff := (Tx_Buff s)[?i := ?b],
      DMATxDscrTab := (DMATxDscrTab s)[?i := ?d], DMASR := r, DMATxDescToSet := ring_next 2 ?i\<rparr>)" (is "_ = Inr (_, ?t)")
    using low_level_output_eq [OF assms(1-3)] room by auto
  have e: "tx_slots ?t = (tx_slots s)[?i := (?d, ?b)]" by (simp add: tx_slots_def zip_update)
  note f = tx.fill [OF ok(1) room full]
  have "unat (d_control ?d AND TX_TBS1) = length (chain_bytes p)"
    using assms(3) by (simp add: TxPkt_desc_length)
  then have "tx_queue ?t = tx_queue s @ [chain_bytes p]"
    unfolding tx_queue_def e using f assms(3) sl(2) by (simp add: blit_eq)
  moreover have "tx_ok ?t"
    unfolding tx_ok_def e using f ok(2,3) i sl by (simp add: wired_update buffers_update)
  moreover have "tx_only s ?t" by (rule tx_onlyI) simp
  ultimately show ?thesis using r by blast
qed

text \<open>Without one the packet is reported as sent and overwrites the frame that is next.\<close>

lemma low_level_output_full:
  assumes "tx_ok s" "chain_ok p" "length (chain_bytes p) \<le> ETH_MAX_PACKET_SIZE" "tx_queue s = [f, g]"
  shows "\<exists>t. low_level_output p s = Inr (ERR_OK, t) \<and> tx_only s t \<and> tx_ok t
    \<and> tx_queue t = [take (length f) (chain_bytes p) @ drop (length (chain_bytes p)) f, g]"
proof -
  let ?i = "DMATxDescToSet s"
  let ?b = "blit (Tx_Buff s ! ?i) 0 (chain_bytes p)" and ?d = "DMATxDscrTab s ! ?i"
  have ok: "slots_ok tx_full 2 (dma_tx s) ?i (tx_slots s)" "wired 2 (DMATxDscrTab s)" "buffers 2 (Tx_Buff s)"
    using assms(1) by (simp_all add: tx_ok_def)
  have i: "?i < 2" using tx.positions [OF ok(1)] by simp
  note sl = tx_slot [OF assms(1) i]
  have l: "length (waiting tx_full (dma_tx s) (tx_slots s)) = 2" using assms(4) length_tx_queue [of s] by simp
  have a: "?i = dma_tx s" by (rule tx.full_ring [OF ok(1) l])
  have full: "tx_full (tx_slots s ! ?i)" using tx.room_iff [OF ok(1)] l by simp
  then have full': "tx_full (tx_slots s ! dma_tx s)" "tx_full (?d, ?b)" using a sl(1) by (simp_all add: tx_full_def)
  let ?t = "s\<lparr>Tx_Buff := (Tx_Buff s)[?i := ?b]\<rparr>"
  have r: "low_level_output p s = Inr (ERR_OK, ?t)" using low_level_output_eq [OF assms(1-3)] full by simp
  have e: "tx_slots ?t = (tx_slots s)[dma_tx s := (?d, ?b)]"
    unfolding tx_slots_def using a zip_update [of "DMATxDscrTab s" ?i ?d "Tx_Buff s" ?b] by simp
  note f = tx.overwrite [OF ok(1) full']
  obtain x y where w: "waiting tx_full (dma_tx s) (tx_slots s) = [x, y]" using l by (auto simp: numeral_2_eq_2 length_Suc_conv)
  have "tx_slots s ! dma_tx s = x"
    using tx.empty_slot [OF ok(1) full'(1), of "(?d\<lparr>d_status := 0\<rparr>, ?b)"] w by (simp add: tx_full_def)
  then have x: "x = (?d, Tx_Buff s ! ?i)" using a sl(1) by simp
  let ?L = "unat (d_control ?d AND TX_TBS1)"
  have fg: "f = take ?L (Tx_Buff s ! ?i)" "g = (\<lambda>(d, b). take (unat (d_control d AND TX_TBS1)) b) y"
    using assms(4) w x unfolding tx_queue_def by simp_all
  have "take ?L ?b = take (length f) (chain_bytes p) @ drop (length (chain_bytes p)) f"
    unfolding fg(1) using sl(2) assms(3) by (simp add: blit_eq drop_take min_def)
  then have "tx_queue ?t = [take (length f) (chain_bytes p) @ drop (length (chain_bytes p)) f, g]"
    unfolding tx_queue_def e using f w fg(2) by simp
  moreover have "tx_ok ?t"
    unfolding tx_ok_def e using f ok sl a by (simp add: buffers_update)
  moreover have "tx_only s ?t" by (rule tx_onlyI) simp
  ultimately show ?thesis using r by blast
qed

lemma d_status_set: "d_status (d\<lparr>d_status := x\<rparr>) = x"
  by simp

text \<open>The DMA sends the oldest frame.\<close>

lemma dma_transmit_frame:
  assumes "tx_ok s" "tx_queue s = f # fs"
  shows "tx_ok (dma_transmit s) \<and> wire (dma_transmit s) = wire s @ [f] \<and> tx_queue (dma_transmit s) = fs"
proof -
  let ?i = "dma_tx s"
  let ?d = "DMATxDscrTab s ! ?i" and ?b = "Tx_Buff s ! ?i"
  let ?d' = "?d\<lparr>d_status := d_status ?d AND NOT DESC_OWN\<rparr>"
  have ok: "slots_ok tx_full 2 ?i (DMATxDescToSet s) (tx_slots s)" "wired 2 (DMATxDscrTab s)" "buffers 2 (Tx_Buff s)"
    using assms(1) by (simp_all add: tx_ok_def)
  have i: "?i < 2" using tx.positions [OF ok(1)] by simp
  note sl = tx_slot [OF assms(1) i]
  have "waiting tx_full ?i (tx_slots s) \<noteq> []" using assms(2) by (auto simp: tx_queue_def)
  then have full: "tx_full (tx_slots s ! ?i)" using tx.waiting_iff [OF ok(1)] by simp
  have own: "d_status ?d AND DESC_OWN \<noteq> 0" using full sl(1) unfolding own_bit by (simp add: tx_full_def)
  have "\<not> tx_full (?d', ?b)" unfolding tx_full_def by (simp only: fst_conv d_status_set own_bits not_False_eq_True)
  note f = tx.empty_slot [OF ok(1) full this]
  have t: "dma_transmit s = s\<lparr>wire := wire s @ [take (unat (d_control ?d AND TX_TBS1)) ?b],
      DMATxDscrTab := (DMATxDscrTab s)[?i := ?d'], dma_tx := ring_next 2 ?i\<rparr>"
    using own sl(3,4) by (simp add: dma_transmit_def Let_def)
  have e: "tx_slots (dma_transmit s) = (tx_slots s)[?i := (?d', ?b)]"
    unfolding t tx_slots_def using zip_update [of "DMATxDscrTab s" ?i ?d' "Tx_Buff s" ?b] by simp
  have q: "tx_queue s = take (unat (d_control ?d AND TX_TBS1)) ?b # tx_queue (dma_transmit s)"
    unfolding tx_queue_def e using f sl(1) by (simp add: t)
  have "wired 2 ((DMATxDscrTab s)[?i := ?d'])" using ok(2) i sl by (simp add: wired_update)
  then have "tx_ok (dma_transmit s)" unfolding tx_ok_def e using f ok(3) by (simp add: t)
  then show ?thesis using q assms(2) by (simp add: t)
qed

lemma dma_transmit_idle: "tx_ok s \<Longrightarrow> tx_queue s = [] \<Longrightarrow> dma_transmit s = s\<lparr>DMASR := DMASR s OR DMASR_TBUS\<rparr>"
proof -
  assume a: "tx_ok s" "tx_queue s = []"
  have ok: "slots_ok tx_full 2 (dma_tx s) (DMATxDescToSet s) (tx_slots s)" using a(1) by (simp add: tx_ok_def)
  have i: "dma_tx s < 2" using tx.positions [OF ok] by simp
  have "\<not> tx_full (tx_slots s ! dma_tx s)" using tx.waiting_iff [OF ok] a(2) by (simp add: tx_queue_def)
  then have "d_status (DMATxDscrTab s ! dma_tx s) AND DESC_OWN = 0"
    using tx_slot(1) [OF a(1) i] own_bit by (auto simp: tx_full_def)
  then show ?thesis by (simp add: dma_transmit_def Let_def)
qed

subsection \<open>Receiving\<close>

lemma rx_slot:
  assumes "rx_ok s" "i < 4"
  shows "rx_slots s ! i = (DMARxDscrTab s ! i, Rx_Buff s ! i)" "length (Rx_Buff s ! i) = ETH_MAX_PACKET_SIZE"
    "d_buffer (DMARxDscrTab s ! i) = i" "d_next (DMARxDscrTab s ! i) = ring_next 4 i" "length (rx_slots s) = 4"
  using assms buffers_nth [of 4 "Rx_Buff s" i] by (simp_all add: rx_ok_def rx_slots_def wired_def buffers_def)

lemma dma_receive_room:
  assumes "rx_ok s" "length (rx_queue s) < 4" "length bs \<le> ETH_MAX_PACKET_SIZE"
  shows "\<exists>rest. rx_ok (dma_receive st bs s) \<and> rx_queue (dma_receive st bs s) = rx_queue s @ [(st AND NOT DESC_OWN, bs @ rest)]
    \<and> length (bs @ rest) = ETH_MAX_PACKET_SIZE"
proof -
  let ?i = "dma_rx s"
  let ?d = "DMARxDscrTab s ! ?i" and ?b = "blit (Rx_Buff s ! ?i) 0 bs"
  let ?d' = "?d\<lparr>d_status := st AND NOT DESC_OWN\<rparr>"
  have ok: "slots_ok rx_full 4 (DMARxDescToGet s) ?i (rx_slots s)" "wired 4 (DMARxDscrTab s)" "buffers 4 (Rx_Buff s)"
    using assms(1) by (simp_all add: rx_ok_def)
  have i: "?i < 4" using rx.positions [OF ok(1)] by simp
  note sl = rx_slot [OF assms(1) i]
  have room: "\<not> rx_full (rx_slots s ! ?i)" using rx.room_iff [OF ok(1)] assms(2) by (simp add: rx_queue_def)
  have own: "d_status ?d AND DESC_OWN \<noteq> 0" using room sl(1) unfolding own_bit by (simp add: rx_full_def)
  have "rx_full (?d', ?b)" unfolding rx_full_def by (simp only: fst_conv d_status_set own_bits not_False_eq_True)
  note f = rx.fill [OF ok(1) room this]
  have t: "dma_receive st bs s = s\<lparr>Rx_Buff := (Rx_Buff s)[?i := ?b], DMARxDscrTab := (DMARxDscrTab s)[?i := ?d'], dma_rx := ring_next 4 ?i\<rparr>"
    using own sl(3,4) by (simp add: dma_receive_def Let_def)
  have e: "rx_slots (dma_receive st bs s) = (rx_slots s)[?i := (?d', ?b)]"
    unfolding t rx_slots_def by (simp add: zip_update)
  have b: "?b = bs @ drop (length bs) (Rx_Buff s ! ?i)" using assms(3) sl(2) by (simp add: blit_eq)
  have l: "length ?b = ETH_MAX_PACKET_SIZE" using sl(2) by simp
  have q: "rx_queue (dma_receive st bs s) = rx_queue s @ [(st AND NOT DESC_OWN, ?b)]"
    unfolding rx_queue_def e using f by (simp add: t)
  have "wired 4 ((DMARxDscrTab s)[?i := ?d'])" "buffers 4 ((Rx_Buff s)[?i := ?b])"
    using ok(2,3) i sl l by (simp_all add: wired_update buffers_update)
  then have "rx_ok (dma_receive st bs s)" unfolding rx_ok_def e using f by (simp add: t)
  then show ?thesis using q b l by metis
qed

lemma dma_receive_full:
  "rx_ok s \<Longrightarrow> length (rx_queue s) = 4 \<Longrightarrow> dma_receive st bs s = s\<lparr>DMASR := DMASR s OR DMASR_RBUS\<rparr>"
proof -
  assume a: "rx_ok s" "length (rx_queue s) = 4"
  have ok: "slots_ok rx_full 4 (DMARxDescToGet s) (dma_rx s) (rx_slots s)" using a(1) by (simp add: rx_ok_def)
  have i: "dma_rx s < 4" using rx.positions [OF ok] by simp
  have "rx_full (rx_slots s ! dma_rx s)" using rx.room_iff [OF ok] a(2) by (simp add: rx_queue_def)
  then have "d_status (DMARxDscrTab s ! dma_rx s) AND DESC_OWN = 0"
    using rx_slot(1) [OF a(1) i] own_bit by (auto simp: rx_full_def)
  then show ?thesis by (simp add: dma_receive_def Let_def)
qed

text \<open>A whole frame without errors.\<close>

definition good_frame :: "u32 \<Rightarrow> bool" where
  "good_frame st \<longleftrightarrow> st AND RX_ES = 0 \<and> st AND RX_LS \<noteq> 0 \<and> st AND RX_FS \<noteq> 0"

lemma ETH_GetRxPktSize_queue:
  assumes "rx_ok s"
  shows "ETH_GetRxPktSize s = (case rx_queue s of [] \<Rightarrow> 0 | (st, _) # _ \<Rightarrow> if good_frame st then drop_bit 16 (st AND RX_FL) else 0)"
proof -
  let ?i = "DMARxDescToGet s"
  have ok: "slots_ok rx_full 4 ?i (dma_rx s) (rx_slots s)" using assms by (simp add: rx_ok_def)
  have i: "?i < 4" using rx.positions [OF ok] by simp
  note sl = rx_slot [OF assms i]
  have own: "d_status (DMARxDscrTab s ! ?i) AND DESC_OWN = 0 \<longleftrightarrow> rx_full (rx_slots s ! ?i)"
    using sl(1) own_bit by (auto simp: rx_full_def)
  show ?thesis
  proof (cases "waiting rx_full ?i (rx_slots s)")
    case Nil
    then have "d_status (DMARxDscrTab s ! ?i) AND DESC_OWN \<noteq> 0" using own rx.waiting_iff [OF ok] by simp
    then show ?thesis by (simp add: ETH_GetRxPktSize_def Let_def rx_queue_def Nil)
  next
    case (Cons x xs)
    then have full: "rx_full (rx_slots s ! ?i)" using rx.waiting_iff [OF ok] by simp
    have "x = (DMARxDscrTab s ! ?i, Rx_Buff s ! ?i)"
      using rx.empty_slot [OF ok full, of "(\<lparr>d_status = DESC_OWN, d_control = 0, d_buffer = 0, d_next = 0\<rparr>, [])"] Cons sl(1)
      by (simp add: rx_full_def)
    then show ?thesis using full own by (simp add: ETH_GetRxPktSize_def Let_def rx_queue_def Cons good_frame_def)
  qed
qed

lemma ucast_of_nat_u32: "(ucast (of_nat n :: u32) :: u16) = of_nat n"
proof (rule word_eq_iff_unsigned [where ?'a = nat, THEN iffD2])
  show "unat (ucast (of_nat n :: u32) :: u16) = unat (of_nat n :: u16)"
    by (simp add: unsigned_ucast_eq unsigned_of_nat take_bit_take_bit)
qed

lemma same_shapes_maps:
  "list_all2 same_shape c d \<Longrightarrow> map p_type d = map p_type c \<and> map p_len d = map p_len c \<and> map p_payload d = map p_payload c
    \<and> map (length \<circ> p_mem) d = map (length \<circ> p_mem) c"
  by (induction rule: list_all2_induct) (auto dest: same_shape_fields)

lemma no_gaps_lens: "no_gaps c \<longleftrightarrow> 0 \<notin> set (tl (map p_len c))"
  by (cases c) (auto simp: no_gaps_def)

text \<open>What reception makes of a frame of \<open>n\<close> bytes.\<close>

definition pool_frame :: "chain \<Rightarrow> nat \<Rightarrow> bool" where
  "pool_frame c n \<longleftrightarrow> c \<noteq> [] \<and> chain_ok c \<and> no_gaps c \<and> (\<forall>p\<in>set c. p_type p = PBUF_POOL)
     \<and> length (chain_bytes c) = n \<and> p_payload (hd c) = 0 \<and> length (p_mem (hd c)) = 1500
     \<and> unat (p_len (hd c)) = min n 1500"

lemma pool_frame_shapes: "pool_frame c n \<Longrightarrow> list_all2 same_shape c d \<Longrightarrow> length (chain_bytes d) = n \<Longrightarrow> pool_frame d n"
proof -
  assume a: "pool_frame c n" "list_all2 same_shape c d" "length (chain_bytes d) = n"
  note m = same_shapes_maps [OF a(2)]
  have ne: "c \<noteq> []" "d \<noteq> []" using a(1,2) by (auto simp: pool_frame_def)
  have "chain_ok d" using shapes_ok [OF _ a(2)] a(1) by (simp add: pool_frame_def)
  moreover have "no_gaps d" using a(1) m by (simp add: pool_frame_def no_gaps_lens)
  moreover have "set (map p_type d) = set (map p_type c)" using m by simp
  then have "\<forall>p\<in>set d. p_type p = PBUF_POOL" using a(1) by (auto simp: pool_frame_def)
  moreover have "same_shape (hd c) (hd d)" using a(2) ne by (cases c; cases d) auto
  then have "p_payload (hd d) = p_payload (hd c)" "p_len (hd d) = p_len (hd c)" "length (p_mem (hd d)) = length (p_mem (hd c))"
    using same_shape_fields by blast+
  ultimately show ?thesis using a(1,3) ne unfolding pool_frame_def by simp
qed

lemma copy_in_frame_spec:
  assumes "chain_ok c" "length (chain_bytes c) \<le> length bs"
  shows "\<exists>d. copy_in_frame c bs = Inr d \<and> list_all2 same_shape c d \<and> chain_bytes d = take (length (chain_bytes c)) bs"
  using assms
proof (induction c arbitrary: bs)
  case (Cons p ps)
  let ?n = "unat (p_len p)"
  have ok: "node_ok p" "length (pbytes p) = ?n" "chain_ok ps" using Cons.prems(1) by simp_all
  have le: "?n \<le> length bs" "length (chain_bytes ps) \<le> length (drop ?n bs)" using Cons.prems(2) ok(2) by simp_all
  have w: "0 + length (take ?n bs) \<le> ?n" by simp
  obtain p' where p': "write_at p 0 (take ?n bs) = Inr p'" "same_shape p p'"
    "pbytes p' = take 0 (pbytes p) @ take ?n bs @ drop (0 + length (take ?n bs)) (pbytes p)"
    using write_at_pbytes [OF ok(1) w] by blast
  obtain d where d: "copy_in_frame ps (drop ?n bs) = Inr d" "list_all2 same_shape ps d"
    "chain_bytes d = take (length (chain_bytes ps)) (drop ?n bs)" using Cons.IH [OF ok(3) le(2)] by blast
  have "pbytes p' = take ?n bs" using p'(3) ok(2) le(1) by simp
  then show ?case using p'(1,2) d le(1) ok(2) by (intro exI [of _ "p' # d"]) (simp add: take_add)
qed simp

lemma layer_raw: "align4 (layer_offset PBUF_RAW) = 0"
  by (simp add: layer_offset_aligned)

text \<open>A good frame is taken over when the pool has room for it, and dropped otherwise; its descriptor
  goes back to the DMA.\<close>

lemma low_level_input_frame:
  assumes "rx_ok s" "rx_queue s = (st, b) # q" "good_frame st" "drop_bit 16 (st AND RX_FL) = of_nat (n + 4)" "n \<le> ETH_MAX_PACKET_SIZE"
  shows "\<exists>r t a k d g m. low_level_input s = Inr (r, t)
    \<and> t = s\<lparr>pool_free := a, requests := k, DMARxDscrTab := d, DMARxDescToGet := g, DMASR := m\<rparr> \<and> rx_ok t \<and> rx_queue t = q
    \<and> (if chain_nodes PBUF_RAW n \<le> pool_free s
       then \<exists>c. r = Some c \<and> pool_frame c n \<and> chain_bytes c = take n b \<and> a + length c = pool_free s
       else r = None \<and> a = pool_free s)"
proof -
  let ?i = "DMARxDescToGet s" and ?len = "of_nat n :: u16"
  let ?d = "DMARxDscrTab s ! ?i"
  have ok: "slots_ok rx_full 4 ?i (dma_rx s) (rx_slots s)" "wired 4 (DMARxDscrTab s)" "buffers 4 (Rx_Buff s)"
    using assms(1) by (simp_all add: rx_ok_def)
  have i: "?i < 4" using rx.positions [OF ok(1)] by simp
  note sl = rx_slot [OF assms(1) i]
  have "waiting rx_full ?i (rx_slots s) \<noteq> []" using assms(2) by (auto simp: rx_queue_def)
  then have full: "rx_full (rx_slots s ! ?i)" using rx.waiting_iff [OF ok(1)] by simp
  then have own: "d_status ?d AND DESC_OWN = 0" using sl(1) own_bit by (auto simp: rx_full_def)
  let ?d' = "?d\<lparr>d_status := DESC_OWN\<rparr>"
  have "\<not> rx_full (?d', Rx_Buff s ! ?i)" unfolding rx_full_def by (simp only: fst_conv d_status_set own_bits not_True_eq_False not_False_eq_True)
  note f = rx.empty_slot [OF ok(1) full this]
  have hd: "d_status ?d = st" "Rx_Buff s ! ?i = b" using assms(2) f sl(1) by (simp_all add: rx_queue_def)
  have ln: "ucast (of_nat (n + 4) - 4 :: u32) = ?len"
    by (simp add: of_nat_add ucast_of_nat_u32)
  let ?s = "s\<lparr>DMARxDescToGet := ring_next 4 ?i\<rparr>"
  have rx: "ETH_RxPkt_ChainMode s = (\<lparr>fr_length = of_nat (n + 4) - 4, fr_buffer = Some ?i, fr_descriptor = Some ?i\<rparr>, ?s)"
    using own hd assms(3,4) sl(3,4) by (simp add: ETH_RxPkt_ChainMode_def Let_def good_frame_def)
  obtain p u where al: "pbuf_alloc PBUF_RAW ?len PBUF_POOL ?s = (p, u)" by fastforce
  have n: "unat ?len = n" using assms(5) by (simp add: unat_of_nat)
  note al' = pbuf_alloc_pool [OF al, unfolded n]
  have pf: "pool_free ?s = pool_free s" by simp
  have al'': "\<exists>a k. u = ?s\<lparr>pool_free := a, requests := k\<rparr> \<and> (if chain_nodes PBUF_RAW n \<le> pool_free s
      then \<exists>c. p = Some c \<and> pool_frame c n \<and> a + length c = pool_free s else p = None \<and> a = pool_free s)"
  proof (cases "chain_nodes PBUF_RAW n \<le> pool_free s")
    case True
    then obtain c k where c: "p = Some c" "c \<noteq> []" "chain_ok c" "length (chain_bytes c) = n" "p_payload (hd c) = align4 (layer_offset PBUF_RAW)"
      "unat (p_len (hd c)) = first_part PBUF_RAW n" "length (p_mem (hd c)) = 1500" "p_type (hd c) = PBUF_POOL" "full_pool (tl c)"
      "length c = chain_nodes PBUF_RAW n" "u = ?s\<lparr>pool_free := pool_free s - length c, requests := k\<rparr>"
      using al' unfolding pf by auto
    have "\<forall>p\<in>set c. p_type p = PBUF_POOL" using c(2,8,9) by (cases c) (auto simp: full_pool_def)
    then have "pool_frame c n"
      using c by (simp add: pool_frame_def full_pool_no_gaps layer_raw first_part_def)
    then show ?thesis using c(1,10,11) True by auto
  next
    case False
    then obtain k where "p = None" "u = ?s\<lparr>requests := k\<rparr>" using al' unfolding pf by auto
    then show ?thesis using False by (intro exI [of _ "pool_free s"] exI [of _ k]) simp
  qed
  then obtain a k where u: "u = ?s\<lparr>pool_free := a, requests := k\<rparr>"
    and a: "if chain_nodes PBUF_RAW n \<le> pool_free s then \<exists>c. p = Some c \<and> pool_frame c n \<and> a + length c = pool_free s
      else p = None \<and> a = pool_free s" by blast
  have "\<exists>r. (case p of None \<Rightarrow> Inr None | Some c \<Rightarrow> and_then (copy_in_frame c b) (\<lambda>c. Inr (Some c))) = Inr r
      \<and> (if chain_nodes PBUF_RAW n \<le> pool_free s
         then \<exists>c. r = Some c \<and> pool_frame c n \<and> chain_bytes c = take n b \<and> a + length c = pool_free s
         else r = None \<and> a = pool_free s)"
  proof (cases "chain_nodes PBUF_RAW n \<le> pool_free s")
    case True
    then obtain c where c: "p = Some c" "pool_frame c n" "a + length c = pool_free s" using a by auto
    then have "chain_ok c" "length (chain_bytes c) \<le> length b" using sl(2) hd(2) assms(5) by (simp_all add: pool_frame_def)
    then obtain d where d: "copy_in_frame c b = Inr d" "list_all2 same_shape c d" "chain_bytes d = take n b"
      using copy_in_frame_spec [of c b] c(2) by (auto simp: pool_frame_def)
    have "pool_frame d n" using pool_frame_shapes [OF c(2) d(2)] d(3) sl(2) hd(2) assms(5) by simp
    then show ?thesis using True c(1,3) d list_all2_lengthD [OF d(2)] by simp
  qed (use a in simp)
  then obtain r where r: "(case p of None \<Rightarrow> Inr None | Some c \<Rightarrow> and_then (copy_in_frame c b) (\<lambda>c. Inr (Some c))) = Inr r"
    "if chain_nodes PBUF_RAW n \<le> pool_free s
         then \<exists>c. r = Some c \<and> pool_frame c n \<and> chain_bytes c = take n b \<and> a + length c = pool_free s
         else r = None \<and> a = pool_free s" by blast
  have hd': "Rx_Buff ?s ! ?i = b" using hd(2) by simp
  let ?t = "resume_reception (u\<lparr>DMARxDscrTab := (DMARxDscrTab s)[?i := ?d']\<rparr>)"
  have "low_level_input s = Inr (r, ?t)"
    unfolding low_level_input_def Let_def rx prod.case FrameTypeDef.simps ln al option.case hd' r(1) and_then.simps by (simp add: u)
  moreover have t: "?t = s\<lparr>pool_free := a, requests := k, DMARxDscrTab := (DMARxDscrTab s)[?i := ?d'], DMARxDescToGet := ring_next 4 ?i,
      DMASR := DMASR ?t\<rparr>"
    unfolding u by (simp add: resume_reception_def clear_DMASR_def)
  moreover have e: "rx_slots ?t = (rx_slots s)[?i := (?d', Rx_Buff s ! ?i)]"
    using zip_update [of "DMARxDscrTab s" ?i ?d' "Rx_Buff s" "Rx_Buff s ! ?i"] by (subst t) (simp add: rx_slots_def)
  moreover have "rx_queue ?t = q"
    using f assms(2) unfolding rx_queue_def e by (subst t) (simp add: rx_queue_def)
  moreover have "wired 4 ((DMARxDscrTab s)[?i := ?d'])" using ok(2) i sl by (simp add: wired_update)
  then have "rx_ok ?t" using f ok(3) unfolding rx_ok_def e by (subst (1 2 3 4) t) simp
  ultimately show ?thesis using r(2) by blast
qed

text \<open>The status of a good frame reads back.\<close>

lemma one_bit: "n < 32 \<Longrightarrow> bit (push_bit n (1 :: u32)) k \<longleftrightarrow> k = n"
  by (auto simp: bit_simps bit_1_iff)

lemma good_status_reads:
  assumes "n \<le> 16000"
  shows "good_frame (good_status n AND NOT DESC_OWN)" "drop_bit 16 ((good_status n AND NOT DESC_OWN) AND RX_FL) = of_nat (n + 4)"
proof -
  let ?m = "of_nat (n + 4) :: u32"
  have m: "take_bit 14 ?m = ?m"
    by (rule word_eq_iff_unsigned [where ?'a = nat, THEN iffD2]) (use assms in \<open>simp add: unsigned_take_bit_eq unat_of_nat take_bit_nat_eq_self_iff del: of_nat_add\<close>)
  have small: "bit ?m k \<longleftrightarrow> k < 14 \<and> bit ?m k" for k using m bit_take_bit_iff [of 14 ?m k] by simp
  have masks: "RX_FL = push_bit 16 (mask 14 :: u32)" "NOT DESC_OWN = (mask 31 :: u32)" "RX_FS = push_bit 9 (1 :: u32)" "RX_LS = push_bit 8 (1 :: u32)" "RX_ES = push_bit 15 (1 :: u32)"
    by (simp_all add: mask_eq_exp_minus_1)
  have st: "good_status n = push_bit 9 1 OR push_bit 8 1 OR push_bit 16 ?m"
    unfolding good_status_def masks by simp
  have b: "bit (good_status n AND NOT DESC_OWN) k \<longleftrightarrow> k = 9 \<or> k = 8 \<or> 16 \<le> k \<and> k < 30 \<and> bit ?m (k - 16)" for k
  proof -
    have "bit (good_status n AND NOT DESC_OWN) k \<longleftrightarrow> (k = 9 \<or> k = 8 \<or> bit (push_bit 16 ?m) k) \<and> bit (mask 31 :: u32) k"
      unfolding st masks by (simp only: bit_or_iff bit_and_iff one_bit)
    then show ?thesis using small [of "k - 16"] by (auto simp: bit_push_bit_iff bit_mask_iff)
  qed
  show "drop_bit 16 ((good_status n AND NOT DESC_OWN) AND RX_FL) = ?m"
  proof (rule bit_word_eqI)
    fix k assume "k < LENGTH(32)"
    have "bit (drop_bit 16 ((good_status n AND NOT DESC_OWN) AND RX_FL)) k
        \<longleftrightarrow> bit (good_status n AND NOT DESC_OWN) (16 + k) \<and> bit RX_FL (16 + k)" by (simp only: bit_drop_bit_eq bit_and_iff comp_apply)
    also have "\<dots> \<longleftrightarrow> k < 14 \<and> bit ?m k" unfolding b unfolding masks by (auto simp: bit_simps)
    finally show "bit (drop_bit 16 ((good_status n AND NOT DESC_OWN) AND RX_FL)) k = bit ?m k" using small [of k] by simp
  qed
  show "good_frame (good_status n AND NOT DESC_OWN)"
  proof -
    define x where "x = good_status n AND NOT DESC_OWN"
    have "\<not> bit x 15" "bit x 9" "bit x 8" unfolding x_def b by simp_all
    then have "x AND push_bit 15 1 = 0" "x AND push_bit 9 1 \<noteq> 0" "x AND push_bit 8 1 \<noteq> 0"
      using bit_iff_and_push_bit_not_eq_0 [of x] by blast+
    then show ?thesis unfolding good_frame_def x_def [symmetric] masks(3-5) by blast
  qed
qed

lemma low_level_init_ok:
  assumes "buffers 4 (Rx_Buff s)" "buffers 2 (Tx_Buff s)"
  shows "eth_ok (low_level_init s) \<and> rx_queue (low_level_init s) = [] \<and> tx_queue (low_level_init s) = []"
proof -
  let ?t = "low_level_init s"
  note defs = low_level_init_def Let_def ETH_DMATxDescChainInit_def ETH_DMARxDescChainInit_def
    ETH_DMATxDescChecksumInsertionConfig_def ETH_DMARxDescReceiveITConfig_def
  have l: "length (Rx_Buff s) = 4" "length (Tx_Buff s) = 2" using assms by (simp_all add: buffers_def)
  have w: "wired 4 (DMARxDscrTab ?t)" "wired 2 (DMATxDscrTab ?t)" by (simp_all add: wired_def defs ring_next_def)
  have "\<forall>d\<in>set (DMARxDscrTab ?t). d_status d = DESC_OWN" by (auto simp: defs)
  then have "\<not> rx_full x" if "x \<in> set (rx_slots ?t)" for x
    using that own_bits(3) set_zip_leftD [of "fst x" "snd x"] by (auto simp: rx_slots_def rx_full_def)
  then have r: "list_all (\<lambda>x. \<not> rx_full x) (rx_slots ?t)" by (simp add: list_all_iff)
  have "\<not> bit (TX_TCH OR TX_CIC_FULL) 31" using own_bit [of "TX_TCH OR TX_CIC_FULL"] by simp
  moreover have "\<forall>d\<in>set (DMATxDscrTab ?t). d_status d = TX_TCH OR TX_CIC_FULL" by (auto simp: defs)
  ultimately have "\<not> tx_full x" if "x \<in> set (tx_slots ?t)" for x
    using that set_zip_leftD [of "fst x" "snd x"] by (auto simp: tx_slots_def tx_full_def)
  then have t: "list_all (\<lambda>x. \<not> tx_full x) (tx_slots ?t)" by (simp add: list_all_iff)
  have "slots_ok rx_full 4 (DMARxDescToGet ?t) (dma_rx ?t) (rx_slots ?t) \<and> waiting rx_full (DMARxDescToGet ?t) (rx_slots ?t) = []"
    using rx.empty_ok [OF _ r, of 0] w(1) l by (simp add: defs rx_slots_def)
  moreover have "slots_ok tx_full 2 (dma_tx ?t) (DMATxDescToSet ?t) (tx_slots ?t) \<and> waiting tx_full (dma_tx ?t) (tx_slots ?t) = []"
    using tx.empty_ok [OF _ t, of 0] w(2) l by (simp add: defs tx_slots_def)
  moreover have "Rx_Buff ?t = Rx_Buff s" "Tx_Buff ?t = Tx_Buff s" by (simp_all add: defs)
  ultimately show ?thesis using w assms by (simp add: eth_ok_def rx_ok_def tx_ok_def rx_queue_def tx_queue_def)
qed

text \<open>An unreadable frame at the head hides all later ones: the main loop reads only frames whose size
  \<open>ETH_GetRxPktSize\<close> reports.\<close>

lemma dma_receive_prefix:
  assumes "rx_ok s" "length bs \<le> ETH_MAX_PACKET_SIZE"
  shows "rx_ok (dma_receive st bs s) \<and> (\<exists>x. rx_queue (dma_receive st bs s) = rx_queue s @ x)"
proof (cases "length (rx_queue s) < 4")
  case True
  then show ?thesis using dma_receive_room [OF assms(1) True assms(2)] by blast
next
  case False
  have "slots_ok rx_full 4 (DMARxDescToGet s) (dma_rx s) (rx_slots s)" using assms(1) by (simp add: rx_ok_def)
  then have "length (rx_queue s) = 4" using rx.waiting_bounded False by (auto simp: rx_queue_def not_less intro: le_antisym)
  then have e: "dma_receive st bs s = s\<lparr>DMASR := DMASR s OR DMASR_RBUS\<rparr>" using dma_receive_full [OF assms(1)] by blast
  show ?thesis using assms(1) unfolding e by (simp add: rx_ok_def rx_queue_def rx_slots_def)
qed

lemma blocked_receiver:
  assumes "rx_ok s" "rx_queue s = (st, b) # q" "\<not> good_frame st" "\<forall>(st, bs)\<in>set frames. length bs \<le> ETH_MAX_PACKET_SIZE"
  shows "ETH_GetRxPktSize (fold (\<lambda>(st, bs). dma_receive st bs) frames s) = 0"
proof -
  have "rx_ok (fold (\<lambda>(st, bs). dma_receive st bs) frames s)
      \<and> (\<exists>q'. rx_queue (fold (\<lambda>(st, bs). dma_receive st bs) frames s) = (st, b) # q')"
    using assms(1,2,4)
  proof (induction frames arbitrary: s q)
    case (Cons f fs)
    obtain st' bs where f: "f = (st', bs)" by (cases f)
    have "rx_ok (dma_receive st' bs s) \<and> (\<exists>x. rx_queue (dma_receive st' bs s) = rx_queue s @ x)"
      using Cons.prems(1,3) by (intro dma_receive_prefix) (auto simp: f)
    then show ?case using Cons.IH [of "dma_receive st' bs s"] Cons.prems(2,3) by (auto simp: f)
  qed auto
  then obtain q' where q': "rx_ok (fold (\<lambda>(st, bs). dma_receive st bs) frames s)"
    "rx_queue (fold (\<lambda>(st, bs). dma_receive st bs) frames s) = (st, b) # q'" by blast
  show ?thesis unfolding ETH_GetRxPktSize_queue [OF q'(1)] q'(2) using assms(3) by simp
qed

end
