(* ===== verification/Etharp.thy ===== *)
theory Etharp
  imports EthDriver
begin

text \<open>
  Address resolution: \<open>src/netif/etharp.c\<close> with the address tests of \<open>ip_addr.c\<close> and \<open>ip_addr.h\<close>. There is
  one interface, so the entries do not name theirs, and \<open>netif->linkoutput\<close> is \<open>low_level_output\<close>.
  A queue of packets of an entry is the list of its chains. The callers only free a packet after
  sending it, which depends on the types of its structures alone, so the functions that send do not
  return the packet with its headers.
\<close>

section \<open>Addresses\<close>

definition ip_addr_netcmp :: "u32 \<Rightarrow> u32 \<Rightarrow> u32 \<Rightarrow> bool" where
  "ip_addr_netcmp a b m \<longleftrightarrow> a AND m = b AND m"

definition ip_addr_isbroadcast :: "u32 \<Rightarrow> netif \<Rightarrow> bool" where
  "ip_addr_isbroadcast addr nif =
     (if NOT addr = 0 \<or> addr = 0 then True
      else if nif_flags nif AND NETIF_FLAG_BROADCAST = 0 then False
      else if addr = nif_ip_addr nif then False
      else ip_addr_netcmp addr (nif_ip_addr nif) (nif_netmask nif) \<and> addr AND NOT (nif_netmask nif) = 0xFFFFFFFF AND NOT (nif_netmask nif))"

definition ip_addr_ismulticast :: "u32 \<Rightarrow> bool" where
  "ip_addr_ismulticast addr \<longleftrightarrow> addr AND 0xF0 = 0xE0"

text \<open>The four bytes of an address in memory and on the wire.\<close>

definition ip_bytes :: "u32 \<Rightarrow> u8 list" where
  "ip_bytes a = [byte_of32 a 0, byte_of32 a 1, byte_of32 a 2, byte_of32 a 3]"

definition ip_of :: "u8 list \<Rightarrow> u32" where
  "ip_of bs = mk32 (bs ! 0) (bs ! 1) (bs ! 2) (bs ! 3)"

text \<open>A 16-bit field in network byte order.\<close>

definition be16 :: "u16 \<Rightarrow> u8 list" where
  "be16 w = [hi8 w, lo8 w]"

definition of_be16 :: "u8 list \<Rightarrow> u16" where
  "of_be16 bs = mk16 (bs ! 1) (bs ! 0)"

section \<open>State\<close>

datatype etharp_state = ETHARP_STATE_EMPTY | ETHARP_STATE_PENDING | ETHARP_STATE_STABLE

record etharp_entry =
  ae_q :: "chain list"
  ae_ipaddr :: u32
  ae_ethaddr :: "u8 list"
  ae_state :: etharp_state
  ae_ctime :: u8

record arp_st = eth_st +
  arp_table :: "etharp_entry list"
  etharp_cached_entry :: nat

abbreviation (input) "ARP_TABLE_SIZE \<equiv> 10 :: nat"
abbreviation (input) "ARP_MAXAGE \<equiv> 240 :: u8"
abbreviation (input) "ARP_MAXPENDING \<equiv> 2 :: u8"

abbreviation (input) "ethbroadcast \<equiv> replicate 6 (0xFF :: u8)"
abbreviation (input) "ethzero \<equiv> replicate 6 (0 :: u8)"

definition set_entry :: "nat \<Rightarrow> (etharp_entry \<Rightarrow> etharp_entry) \<Rightarrow> 'a arp_st_scheme \<Rightarrow> 'a arp_st_scheme" where
  "set_entry i f s = s\<lparr>arp_table := (arp_table s)[i := f (arp_table s ! i)]\<rparr>"

section \<open>The table\<close>

fun free_etharp_q :: "chain list \<Rightarrow> 'a arp_st_scheme \<Rightarrow> 'a arp_st_scheme" where
  "free_etharp_q [] s = s"
| "free_etharp_q (p # ps) s = (let s = pbuf_free p s in free_etharp_q ps (s\<lparr>arpq_free := arpq_free s + 1\<rparr>))"

definition tmr_entry :: "nat \<Rightarrow> 'a arp_st_scheme \<Rightarrow> 'a arp_st_scheme" where
  "tmr_entry i s =
     (let s = set_entry i (\<lambda>e. e\<lparr>ae_ctime := ae_ctime e + 1\<rparr>) s; e = arp_table s ! i in
      if ae_state e = ETHARP_STATE_STABLE \<and> ae_ctime e \<ge> ARP_MAXAGE \<or> ae_state e = ETHARP_STATE_PENDING \<and> ae_ctime e \<ge> ARP_MAXPENDING
      then set_entry i (\<lambda>e. e\<lparr>ae_q := [], ae_state := ETHARP_STATE_EMPTY\<rparr>) (free_etharp_q (ae_q e) s)
      else s)"

definition etharp_tmr :: "'a arp_st_scheme \<Rightarrow> 'a arp_st_scheme" where
  "etharp_tmr s = fold tmr_entry [0..<ARP_TABLE_SIZE] s"

text \<open>The candidates the search of \<open>find_entry\<close> remembers; \<open>ARP_TABLE_SIZE\<close> stands for none.\<close>

record candidates =
  cd_empty :: nat
  cd_old_pending :: nat
  cd_old_queue :: nat
  cd_old_stable :: nat
  cd_age_pending :: u8
  cd_age_queue :: u8
  cd_age_stable :: u8

definition no_candidates :: candidates where
  "no_candidates = \<lparr>cd_empty = ARP_TABLE_SIZE, cd_old_pending = ARP_TABLE_SIZE, cd_old_queue = ARP_TABLE_SIZE,
     cd_old_stable = ARP_TABLE_SIZE, cd_age_pending = 0, cd_age_queue = 0, cd_age_stable = 0\<rparr>"

text \<open>The sweep over the entries from index \<open>i\<close> on: a match, or the candidates.\<close>

fun find_scan :: "u32 \<Rightarrow> etharp_entry list \<Rightarrow> nat \<Rightarrow> candidates \<Rightarrow> nat + candidates" where
  "find_scan ip [] i c = Inr c"
| "find_scan ip (e # es) i c =
     (if cd_empty c = ARP_TABLE_SIZE \<and> ae_state e = ETHARP_STATE_EMPTY then find_scan ip es (Suc i) (c\<lparr>cd_empty := i\<rparr>)
      else if ae_state e = ETHARP_STATE_PENDING then
        (if ip = ae_ipaddr e then Inl i
         else if ae_q e \<noteq> [] then
           find_scan ip es (Suc i) (if ae_ctime e \<ge> cd_age_queue c then c\<lparr>cd_old_queue := i, cd_age_queue := ae_ctime e\<rparr> else c)
         else find_scan ip es (Suc i) (if ae_ctime e \<ge> cd_age_pending c then c\<lparr>cd_old_pending := i, cd_age_pending := ae_ctime e\<rparr> else c))
      else if ae_state e = ETHARP_STATE_STABLE then
        (if ip = ae_ipaddr e then Inl i
         else find_scan ip es (Suc i) (if ae_ctime e \<ge> cd_age_stable c then c\<lparr>cd_old_stable := i, cd_age_stable := ae_ctime e\<rparr> else c))
      else find_scan ip es (Suc i) c)"

text \<open>The entry to recycle, \<open>None\<close> if there is none.\<close>

definition recycle :: "candidates \<Rightarrow> nat option" where
  "recycle c =
     (if cd_empty c < ARP_TABLE_SIZE then Some (cd_empty c)
      else if cd_old_stable c < ARP_TABLE_SIZE then Some (cd_old_stable c)
      else if cd_old_pending c < ARP_TABLE_SIZE then Some (cd_old_pending c)
      else if cd_old_queue c < ARP_TABLE_SIZE then Some (cd_old_queue c)
      else None)"

definition find_entry :: "u32 \<Rightarrow> bool \<Rightarrow> bool \<Rightarrow> 'a arp_st_scheme \<Rightarrow> nat option \<times> 'a arp_st_scheme" where
  "find_entry ip try_hard find_only s =
     (let k = etharp_cached_entry s in
      if ae_state (arp_table s ! k) = ETHARP_STATE_STABLE \<and> ip = ae_ipaddr (arp_table s ! k) then (Some k, s)
      else case find_scan ip (take ARP_TABLE_SIZE (arp_table s)) 0 no_candidates of
        Inl i \<Rightarrow> (Some i, s\<lparr>etharp_cached_entry := i\<rparr>)
      | Inr c \<Rightarrow>
          if cd_empty c = ARP_TABLE_SIZE \<and> \<not> try_hard \<or> find_only then (None, s)
          else case recycle c of
            None \<Rightarrow> (None, s)
          | Some i \<Rightarrow>
              let s = (if \<not> cd_empty c < ARP_TABLE_SIZE \<and> \<not> cd_old_stable c < ARP_TABLE_SIZE \<and> \<not> cd_old_pending c < ARP_TABLE_SIZE
                       then set_entry i (\<lambda>e. e\<lparr>ae_q := []\<rparr>) (free_etharp_q (ae_q (arp_table s ! i)) s) else s);
                  s = set_entry i (\<lambda>e. e\<lparr>ae_state := ETHARP_STATE_EMPTY, ae_ipaddr := ip, ae_ctime := 0\<rparr>) s
              in (Some i, s\<lparr>etharp_cached_entry := i\<rparr>))"

section \<open>Sending\<close>

text \<open>\<open>ETHTYPE_IP\<close> is 0x0800 and \<open>ETHTYPE_ARP\<close> 0x0806.\<close>

definition etharp_send_ip :: "chain \<Rightarrow> u8 list \<Rightarrow> u8 list \<Rightarrow> 'a arp_st_scheme \<Rightarrow> (err \<times> 'a arp_st_scheme) result" where
  "etharp_send_ip p src dst s = (case p of
      [] \<Rightarrow> Inl Undefined
    | q # qs \<Rightarrow> and_then (write_at q 0 (dst @ src @ be16 0x0800)) (\<lambda>q. low_level_output (q # qs) s))"

text \<open>The loop that sends the packets queued on entry \<open>i\<close>.\<close>

fun send_queued :: "nat \<Rightarrow> u8 list \<Rightarrow> chain list \<Rightarrow> 'a arp_st_scheme \<Rightarrow> 'a arp_st_scheme result" where
  "send_queued i ethaddr [] s = Inr s"
| "send_queued i ethaddr (p # ps) s =
     (let s = set_entry i (\<lambda>e. e\<lparr>ae_q := ps\<rparr>) s; s = s\<lparr>arpq_free := arpq_free s + 1\<rparr> in
      and_then (etharp_send_ip p (nif_hwaddr (netif s)) ethaddr s) (\<lambda>(_, s). send_queued i ethaddr ps (pbuf_free p s)))"

definition update_arp_entry :: "u32 \<Rightarrow> u8 list \<Rightarrow> bool \<Rightarrow> 'a arp_st_scheme \<Rightarrow> (err \<times> 'a arp_st_scheme) result" where
  "update_arp_entry ip ethaddr try_hard s =
     (if ip = 0 \<or> ip_addr_isbroadcast ip (netif s) \<or> ip_addr_ismulticast ip then Inr (ERR_ARG, s)
      else case find_entry ip try_hard False s of
        (None, s) \<Rightarrow> Inr (ERR_MEM, s)
      | (Some i, s) \<Rightarrow>
          let s = set_entry i (\<lambda>e. e\<lparr>ae_state := ETHARP_STATE_STABLE, ae_ethaddr := ethaddr, ae_ctime := 0\<rparr>) s
          in and_then (send_queued i ethaddr (ae_q (arp_table s ! i)) s) (\<lambda>s. Inr (ERR_OK, s)))"

definition etharp_find_addr :: "u32 \<Rightarrow> 'a arp_st_scheme \<Rightarrow> (nat \<times> u8 list \<times> u32) option \<times> 'a arp_st_scheme" where
  "etharp_find_addr ip s = (case find_entry ip False True s of
      (None, s) \<Rightarrow> (None, s)
    | (Some i, s) \<Rightarrow> let e = arp_table s ! i in
        if ae_state e = ETHARP_STATE_STABLE then (Some (i, ae_ethaddr e, ae_ipaddr e), s) else (None, s))"

text \<open>The 42 bytes of an ARP frame.\<close>

definition arp_frame ::
  "u8 list \<Rightarrow> u8 list \<Rightarrow> u16 \<Rightarrow> u8 list \<Rightarrow> u32 \<Rightarrow> u8 list \<Rightarrow> u32 \<Rightarrow> u8 list" where
  "arp_frame ethdst ethsrc opcode hwsrc ipsrc hwdst ipdst =
     ethdst @ ethsrc @ be16 0x0806 @ be16 1 @ be16 0x0800 @ be16 0x0604 @ be16 opcode
     @ hwsrc @ ip_bytes ipsrc @ hwdst @ ip_bytes ipdst"

definition etharp_raw ::
  "u8 list \<Rightarrow> u8 list \<Rightarrow> u8 list \<Rightarrow> u32 \<Rightarrow> u8 list \<Rightarrow> u32 \<Rightarrow> u16 \<Rightarrow> 'a arp_st_scheme \<Rightarrow> (err \<times> 'a arp_st_scheme) result" where
  "etharp_raw ethsrc ethdst hwsrc ipsrc hwdst ipdst opcode s = (case pbuf_alloc PBUF_RAW 42 PBUF_RAM s of
      (Some (p # ps), s) \<Rightarrow>
        and_then (write_at p 0 (arp_frame ethdst ethsrc opcode hwsrc ipsrc hwdst ipdst)) (\<lambda>p.
        and_then (low_level_output (p # ps) s) (\<lambda>(result, s). Inr (result, pbuf_free (p # ps) s)))
    | (_, s) \<Rightarrow> Inr (ERR_MEM, s))"

definition etharp_request :: "u32 \<Rightarrow> 'a arp_st_scheme \<Rightarrow> (err \<times> 'a arp_st_scheme) result" where
  "etharp_request ip s = (let hw = nif_hwaddr (netif s) in
     etharp_raw hw ethbroadcast hw (nif_ip_addr (netif s)) ethzero ip 1 s)"

text \<open>The part of \<open>etharp_query\<close> that queues the packet on the pending entry \<open>i\<close>. The copy has the total length of
  the first structure that is not in ROM. Without such a structure the packet itself is queued; its reference count is
  not modelled. \<open>result\<close> is what the request returned; it stays when the packet cannot be queued.\<close>

definition queue_packet :: "err \<Rightarrow> nat \<Rightarrow> chain \<Rightarrow> 'a arp_st_scheme \<Rightarrow> (err \<times> 'a arp_st_scheme) result" where
  "queue_packet result i q s =
     (and_then
        (case List.find (\<lambda>p. p_type p \<noteq> PBUF_ROM) q of
           Some p \<Rightarrow>
             (case pbuf_alloc PBUF_RAW (p_tot_len p) PBUF_RAM s of
                (None, s) \<Rightarrow> Inr (None, s)
              | (Some p, s) \<Rightarrow> and_then (pbuf_copy p q) (\<lambda>(e, p). if e = ERR_OK then Inr (Some p, s) else Inr (None, pbuf_free p s)))
         | None \<Rightarrow> Inr (Some q, s))
        (\<lambda>(p, s). case p of
            None \<Rightarrow> Inr (result, s)
          | Some p \<Rightarrow>
              if arpq_free s = 0 then Inr (result, pbuf_free p s)
              else Inr (ERR_OK, set_entry i (\<lambda>e. e\<lparr>ae_q := ae_q e @ [p]\<rparr>) (s\<lparr>arpq_free := arpq_free s - 1\<rparr>))))"

definition etharp_query :: "u32 \<Rightarrow> chain \<Rightarrow> 'a arp_st_scheme \<Rightarrow> (err \<times> 'a arp_st_scheme) result" where
  "etharp_query ip q s =
     (if ip_addr_isbroadcast ip (netif s) \<or> ip_addr_ismulticast ip \<or> ip = 0 then Inr (ERR_ARG, s)
      else case find_entry ip True False s of
        (None, s) \<Rightarrow> Inr (ERR_MEM, s)
      | (Some i, s) \<Rightarrow>
          let s = (if ae_state (arp_table s ! i) = ETHARP_STATE_EMPTY then set_entry i (\<lambda>e. e\<lparr>ae_state := ETHARP_STATE_PENDING\<rparr>) s else s)
          in if ae_state (arp_table s ! i) = ETHARP_STATE_PENDING
             then and_then (etharp_request ip s) (\<lambda>(result, s). queue_packet result i q s)
             else etharp_send_ip q (nif_hwaddr (netif s)) (ae_ethaddr (arp_table s ! i)) s)"

definition etharp_output :: "chain \<Rightarrow> u32 \<Rightarrow> 'a arp_st_scheme \<Rightarrow> (err \<times> 'a arp_st_scheme) result" where
  "etharp_output q ip s = (case pbuf_header q 14 of
      None \<Rightarrow> Inr (ERR_BUF, s)
    | Some q \<Rightarrow>
        let hw = nif_hwaddr (netif s) in
        if ip_addr_isbroadcast ip (netif s) then etharp_send_ip q hw ethbroadcast s
        else if ip_addr_ismulticast ip then
          etharp_send_ip q hw [1, 0, 0x5E, byte_of32 ip 1 AND 0x7F, byte_of32 ip 2, byte_of32 ip 3] s
        else if \<not> ip_addr_netcmp ip (nif_ip_addr (netif s)) (nif_netmask (netif s)) then
          (if nif_gw (netif s) \<noteq> 0 then etharp_query (nif_gw (netif s)) q s else Inr (ERR_RTE, s))
        else etharp_query ip q s)"

section \<open>Input\<close>

definition etharp_ip_input :: "chain \<Rightarrow> 'a arp_st_scheme \<Rightarrow> 'a arp_st_scheme result" where
  "etharp_ip_input p s =
     (case p of [] \<Rightarrow> Inl Undefined | q # _ \<Rightarrow>
      and_then (read_at q 26 4) (\<lambda>src.
        if \<not> ip_addr_netcmp (ip_of src) (nif_ip_addr (netif s)) (nif_netmask (netif s)) then Inr s
        else and_then (read_at q 6 6) (\<lambda>ethsrc.
             and_then (update_arp_entry (ip_of src) ethsrc False s) (\<lambda>(_, s). Inr s))))"

text \<open>\<open>ethaddr\<close> is the hardware address of the interface. \<open>hdr\<close> are the 42 bytes of the ARP frame.\<close>

definition etharp_arp_input :: "u8 list \<Rightarrow> chain \<Rightarrow> 'a arp_st_scheme \<Rightarrow> 'a arp_st_scheme result" where
  "etharp_arp_input ethaddr p s =
     (case p of [] \<Rightarrow> Inl Undefined | q # qs \<Rightarrow>
      if p_len q < 42 then Inr (pbuf_free p s)
      else and_then (read_at q 0 42) (\<lambda>hdr.
        if of_be16 (drop 14 hdr) \<noteq> 1 \<or> of_be16 (drop 18 hdr) \<noteq> 0x0604 \<or> of_be16 (drop 16 hdr) \<noteq> 0x0800 \<or> of_be16 (drop 12 hdr) \<noteq> 0x0806
        then Inr (pbuf_free p s)
        else
          let sip = ip_of (drop 28 hdr); dip = ip_of (drop 38 hdr); shw = take 6 (drop 22 hdr);
              for_us = (if nif_ip_addr (netif s) = 0 then False else dip = nif_ip_addr (netif s)) in
          and_then (update_arp_entry sip shw for_us s) (\<lambda>(_, s).
          and_then
            (if of_be16 (drop 20 hdr) = 1 \<and> for_us then
               and_then (write_at q 0 (arp_frame shw ethaddr 2 ethaddr (nif_ip_addr (netif s)) shw sip)) (\<lambda>q.
               and_then (low_level_output (q # qs) s) (\<lambda>(_, s). Inr s))
             else Inr s)
            (\<lambda>s. Inr (pbuf_free p s)))))"

section \<open>The search\<close>

definition live :: "etharp_entry \<Rightarrow> bool" where
  "live e \<longleftrightarrow> ae_state e \<noteq> ETHARP_STATE_EMPTY"

text \<open>Index \<open>i\<close> is the oldest of the first \<open>k\<close> entries with \<open>P\<close>, the last one if several are as old;
  \<open>ARP_TABLE_SIZE\<close> if there is none.\<close>

definition oldest :: "etharp_entry list \<Rightarrow> nat \<Rightarrow> (etharp_entry \<Rightarrow> bool) \<Rightarrow> nat \<Rightarrow> u8 \<Rightarrow> bool" where
  "oldest T k P i age \<longleftrightarrow>
     (if i = ARP_TABLE_SIZE then age = 0 \<and> (\<forall>j<k. \<not> P (T ! j))
      else i < k \<and> P (T ! i) \<and> age = ae_ctime (T ! i) \<and> (\<forall>j<k. P (T ! j) \<longrightarrow> ae_ctime (T ! j) \<le> age))"

lemma oldest_other: "oldest T k P i age \<Longrightarrow> \<not> P (T ! k) \<Longrightarrow> oldest T (Suc k) P i age"
  by (auto simp: oldest_def less_Suc_eq split: if_splits)

lemma oldest_new: "oldest T k P i age \<Longrightarrow> k < ARP_TABLE_SIZE \<Longrightarrow> P (T ! k) \<Longrightarrow> ae_ctime (T ! k) \<ge> age \<Longrightarrow> oldest T (Suc k) P k (ae_ctime (T ! k))"
  by (auto simp: oldest_def less_Suc_eq split: if_splits)

lemma oldest_keep: "oldest T k P i age \<Longrightarrow> \<not> ae_ctime (T ! k) \<ge> age \<Longrightarrow> oldest T (Suc k) P i age"
  by (auto simp: oldest_def less_Suc_eq split: if_splits)

abbreviation "is_stable (e :: etharp_entry) \<equiv> ae_state e = ETHARP_STATE_STABLE"
abbreviation "is_idle (e :: etharp_entry) \<equiv> ae_state e = ETHARP_STATE_PENDING \<and> ae_q e = []"
abbreviation "is_queueing (e :: etharp_entry) \<equiv> ae_state e = ETHARP_STATE_PENDING \<and> ae_q e \<noteq> []"

definition cand_ok :: "u32 \<Rightarrow> etharp_entry list \<Rightarrow> nat \<Rightarrow> candidates \<Rightarrow> bool" where
  "cand_ok ip T k c \<longleftrightarrow>
     (if cd_empty c = ARP_TABLE_SIZE then \<forall>j<k. live (T ! j) else cd_empty c < k \<and> \<not> live (T ! cd_empty c))
     \<and> oldest T k is_stable (cd_old_stable c) (cd_age_stable c)
     \<and> oldest T k is_idle (cd_old_pending c) (cd_age_pending c)
     \<and> oldest T k is_queueing (cd_old_queue c) (cd_age_queue c)
     \<and> (\<forall>j<k. live (T ! j) \<longrightarrow> ae_ipaddr (T ! j) \<noteq> ip)"

lemma cand_ok_step:
  assumes "cand_ok ip T k c" "k < ARP_TABLE_SIZE" "live (T ! k) \<longrightarrow> ae_ipaddr (T ! k) \<noteq> ip"
  shows "cd_empty c = ARP_TABLE_SIZE \<Longrightarrow> \<not> live (T ! k) \<Longrightarrow> cand_ok ip T (Suc k) (c\<lparr>cd_empty := k\<rparr>)"
    and "cd_empty c \<noteq> ARP_TABLE_SIZE \<Longrightarrow> \<not> live (T ! k) \<Longrightarrow> cand_ok ip T (Suc k) c"
    and "is_queueing (T ! k) \<Longrightarrow> cand_ok ip T (Suc k)
      (if ae_ctime (T ! k) \<ge> cd_age_queue c then c\<lparr>cd_old_queue := k, cd_age_queue := ae_ctime (T ! k)\<rparr> else c)"
    and "is_idle (T ! k) \<Longrightarrow> cand_ok ip T (Suc k)
      (if ae_ctime (T ! k) \<ge> cd_age_pending c then c\<lparr>cd_old_pending := k, cd_age_pending := ae_ctime (T ! k)\<rparr> else c)"
    and "is_stable (T ! k) \<Longrightarrow> cand_ok ip T (Suc k)
      (if ae_ctime (T ! k) \<ge> cd_age_stable c then c\<lparr>cd_old_stable := k, cd_age_stable := ae_ctime (T ! k)\<rparr> else c)"
  using assms unfolding cand_ok_def
  by (auto simp: less_Suc_eq live_def oldest_other oldest_new oldest_keep split: if_splits)

lemma find_scan_spec:
  assumes "T = pre @ es" "k = length pre" "length T \<le> ARP_TABLE_SIZE" "cand_ok ip T k c"
  shows "case find_scan ip es k c of
      Inl i \<Rightarrow> i < length T \<and> live (T ! i) \<and> ae_ipaddr (T ! i) = ip
    | Inr c' \<Rightarrow> cand_ok ip T (length T) c'"
  using assms
proof (induction es arbitrary: pre k c)
  case (Cons e es)
  have e: "T ! k = e" "k < ARP_TABLE_SIZE" "k < length T" using Cons.prems(1-3) by simp_all
  have IH: "cand_ok ip T (Suc k) c' \<Longrightarrow> case find_scan ip es (Suc k) c' of
      Inl i \<Rightarrow> i < length T \<and> live (T ! i) \<and> ae_ipaddr (T ! i) = ip | Inr c' \<Rightarrow> cand_ok ip T (length T) c'" for c'
    by (rule Cons.IH [of "pre @ [e]"]) (use Cons.prems in simp_all)
  note step = cand_ok_step [OF Cons.prems(4) e(2), unfolded e(1)]
  show ?case
  proof (cases "ae_state e")
    case ETHARP_STATE_EMPTY
    then show ?thesis using IH step(1,2) by (cases "cd_empty c = ARP_TABLE_SIZE") (simp_all add: live_def)
  next
    case ETHARP_STATE_PENDING
    then show ?thesis using IH step(3,4) e by (cases "ip = ae_ipaddr e"; cases "ae_q e = []") (simp_all add: live_def)
  next
    case ETHARP_STATE_STABLE
    then show ?thesis using IH step(5) e by (cases "ip = ae_ipaddr e") (simp_all add: live_def)
  qed
qed simp

lemma cand_ok_start: "cand_ok ip T 0 no_candidates"
  by (simp add: cand_ok_def no_candidates_def oldest_def)

section \<open>The invariant of the table\<close>

text \<open>Packets on a queue are single structures on the heap, with room for the Ethernet header.\<close>

definition queued_ok :: "chain \<Rightarrow> bool" where
  "queued_ok c \<longleftrightarrow> (\<exists>p. c = [p] \<and> p_type p = PBUF_RAM \<and> chain_ok c \<and> 14 \<le> unat (p_len p) \<and> unat (p_len p) \<le> 1514)"

definition entry_ok :: "etharp_entry \<Rightarrow> bool" where
  "entry_ok e \<longleftrightarrow> (ae_state e = ETHARP_STATE_PENDING \<or> ae_q e = []) \<and> list_all queued_ok (ae_q e)
     \<and> (ae_state e = ETHARP_STATE_STABLE \<longrightarrow> length (ae_ethaddr e) = 6)"

definition queued :: "'a arp_st_scheme \<Rightarrow> nat" where
  "queued s = sum_list (map (length \<circ> ae_q) (arp_table s))"

text \<open>At most one live entry for an address.\<close>

definition one_each :: "etharp_entry list \<Rightarrow> bool" where
  "one_each T \<longleftrightarrow> (\<forall>i<length T. \<forall>j<length T. live (T ! i) \<and> live (T ! j) \<and> ae_ipaddr (T ! i) = ae_ipaddr (T ! j) \<longrightarrow> i = j)"

definition arp_ok :: "'a arp_st_scheme \<Rightarrow> bool" where
  "arp_ok s \<longleftrightarrow> length (arp_table s) = ARP_TABLE_SIZE \<and> etharp_cached_entry s < ARP_TABLE_SIZE \<and> list_all entry_ok (arp_table s)
     \<and> one_each (arp_table s) \<and> length (nif_hwaddr (netif s)) = 6 \<and> queued s \<le> ram_live s"

text \<open>The memory of the queues is accounted for: what the pool of queue elements and the heap lose is on
  the queues.\<close>

definition balanced :: "'a arp_st_scheme \<Rightarrow> 'a arp_st_scheme \<Rightarrow> bool" where
  "balanced s t \<longleftrightarrow> ram_live t + queued s = ram_live s + queued t \<and> arpq_free t + queued t = arpq_free s + queued s"

text \<open>What the functions of this file leave alone.\<close>

definition arp_frame_only :: "'a arp_st_scheme \<Rightarrow> 'a arp_st_scheme \<Rightarrow> bool" where
  "arp_frame_only s t \<longleftrightarrow> netif t = netif s \<and> MACaddr t = MACaddr s \<and> rx_queue t = rx_queue s \<and> rx_ok t = rx_ok s
     \<and> pool_free t = pool_free s \<and> ref_free t = ref_free s \<and> ram_ok t = ram_ok s \<and> junk t = junk s \<and> wire t = wire s
     \<and> arp_st.more t = arp_st.more s"

lemma arp_frame_refl [simp]: "arp_frame_only s s"
  by (simp add: arp_frame_only_def)

lemma arp_frame_trans [trans]: "arp_frame_only s t \<Longrightarrow> arp_frame_only t u \<Longrightarrow> arp_frame_only s u"
  by (simp add: arp_frame_only_def)

lemma balanced_refl [simp]: "balanced s s"
  by (simp add: balanced_def)

lemma balanced_trans [trans]: "balanced s t \<Longrightarrow> balanced t u \<Longrightarrow> balanced s u"
  by (simp add: balanced_def)

lemma find_scan_table:
  assumes "arp_ok s"
  shows "case find_scan ip (take ARP_TABLE_SIZE (arp_table s)) 0 no_candidates of
      Inl i \<Rightarrow> i < ARP_TABLE_SIZE \<and> live (arp_table s ! i) \<and> ae_ipaddr (arp_table s ! i) = ip
    | Inr c \<Rightarrow> cand_ok ip (arp_table s) ARP_TABLE_SIZE c"
proof -
  have l: "length (arp_table s) = ARP_TABLE_SIZE" using assms by (simp add: arp_ok_def)
  then have t: "take ARP_TABLE_SIZE (arp_table s) = arp_table s" by simp
  have "case find_scan ip (arp_table s) 0 no_candidates of
      Inl i \<Rightarrow> i < length (arp_table s) \<and> live (arp_table s ! i) \<and> ae_ipaddr (arp_table s ! i) = ip
    | Inr c \<Rightarrow> cand_ok ip (arp_table s) (length (arp_table s)) c"
    by (rule find_scan_spec [of _ "[]"]) (simp_all add: l cand_ok_start)
  then show ?thesis unfolding t l .
qed

lemma find_entry_hit:
  assumes "arp_ok s" "i < ARP_TABLE_SIZE" "live (arp_table s ! i)" "ae_ipaddr (arp_table s ! i) = ip"
  shows "find_entry ip try only s = (Some i, s\<lparr>etharp_cached_entry := i\<rparr>)"
proof -
  have T: "length (arp_table s) = ARP_TABLE_SIZE" "etharp_cached_entry s < ARP_TABLE_SIZE" "one_each (arp_table s)"
    using assms(1) by (simp_all add: arp_ok_def)
  have u: "j = i" if "j < ARP_TABLE_SIZE" "live (arp_table s ! j)" "ae_ipaddr (arp_table s ! j) = ip" for j
    using T(1,3) assms(2-4) that unfolding one_each_def by metis
  show ?thesis
  proof (cases "ae_state (arp_table s ! etharp_cached_entry s) = ETHARP_STATE_STABLE \<and> ip = ae_ipaddr (arp_table s ! etharp_cached_entry s)")
    case True
    then have "etharp_cached_entry s = i" using u [OF T(2)] by (simp add: live_def)
    then have "s\<lparr>etharp_cached_entry := i\<rparr> = s" by simp
    then show ?thesis using True \<open>etharp_cached_entry s = i\<close> by (simp add: find_entry_def)
  next
    case False
    have "find_scan ip (take ARP_TABLE_SIZE (arp_table s)) 0 no_candidates = Inl i"
    proof (cases "find_scan ip (take ARP_TABLE_SIZE (arp_table s)) 0 no_candidates")
      case (Inl j)
      then have "j = i" using find_scan_table [OF assms(1), of ip] u by simp
      then show ?thesis using Inl by simp
    next
      case (Inr c)
      then have "cand_ok ip (arp_table s) ARP_TABLE_SIZE c" using find_scan_table [OF assms(1), of ip] by simp
      then have "ae_ipaddr (arp_table s ! i) \<noteq> ip" using assms(2,3) unfolding cand_ok_def by blast
      then show ?thesis using assms(4) by simp
    qed
    then show ?thesis using False unfolding find_entry_def Let_def by (simp only: if_False sum.case)
  qed
qed

lemma queued_update:
  assumes "i < length T"
  shows "sum_list (map (length \<circ> ae_q) (T[i := e])) + length (ae_q (T ! i)) = sum_list (map (length \<circ> ae_q) T) + length (ae_q (e :: etharp_entry))"
proof -
  let ?f = "length \<circ> ae_q"
  have "?f (T ! i) \<le> sum_list (map ?f T)" using assms by (intro member_le_sum_list) auto
  then show ?thesis using sum_list_update [of i "map ?f T" "?f e"] assms by (simp add: map_update)
qed

lemma free_etharp_q_queued:
  "list_all queued_ok ps \<Longrightarrow> free_etharp_q ps s = s\<lparr>ram_live := ram_live s - length ps, arpq_free := arpq_free s + length ps\<rparr>"
proof (induction ps arbitrary: s)
  case (Cons p ps)
  then obtain q where q: "p = [q]" "p_type q = PBUF_RAM" by (auto simp: queued_ok_def)
  have "pbuf_free p s = s\<lparr>ram_live := ram_live s - 1\<rparr>" unfolding q(1) by (rule pbuf_free_ram [OF q(2)])
  then show ?case using Cons by (simp add: Let_def)
qed simp

lemma one_each_update:
  assumes "one_each T" "i < length T" "live e \<Longrightarrow> \<forall>j<length T. j \<noteq> i \<and> live (T ! j) \<longrightarrow> ae_ipaddr (T ! j) \<noteq> ae_ipaddr e"
  shows "one_each (T[i := e])"
  using assms unfolding one_each_def by (auto simp: nth_list_update)

lemma entries_update: "list_all entry_ok T \<Longrightarrow> entry_ok e \<Longrightarrow> list_all entry_ok (T[i := e])"
  by (auto simp: list_all_iff dest!: set_update_subset_insert [THEN subsetD])

lemma arp_entry_ok: "arp_ok s \<Longrightarrow> i < ARP_TABLE_SIZE \<Longrightarrow> entry_ok (arp_table s ! i)"
  by (simp add: arp_ok_def list_all_length)

lemma recycle_spec:
  assumes "cand_ok ip T ARP_TABLE_SIZE c" "length T = ARP_TABLE_SIZE"
  shows "\<exists>i. recycle c = Some i \<and> i < ARP_TABLE_SIZE
    \<and> (\<not> live (T ! i) \<and> cd_empty c < ARP_TABLE_SIZE
       \<or> (\<forall>j<ARP_TABLE_SIZE. live (T ! j)) \<and> \<not> cd_empty c < ARP_TABLE_SIZE \<and>
         (is_stable (T ! i) \<and> cd_old_stable c < ARP_TABLE_SIZE \<and> (\<forall>j<ARP_TABLE_SIZE. is_stable (T ! j) \<longrightarrow> ae_ctime (T ! j) \<le> ae_ctime (T ! i))
          \<or> (\<forall>j<ARP_TABLE_SIZE. \<not> is_stable (T ! j)) \<and> \<not> cd_old_stable c < ARP_TABLE_SIZE \<and>
            (is_idle (T ! i) \<and> cd_old_pending c < ARP_TABLE_SIZE
             \<or> is_queueing (T ! i) \<and> \<not> cd_old_pending c < ARP_TABLE_SIZE)))"
proof -
  note c = assms(1)[unfolded cand_ok_def oldest_def]
  show ?thesis
  proof (cases "cd_empty c = ARP_TABLE_SIZE")
    case False
    then show ?thesis using c by (auto simp: recycle_def)
  next
    case empty: True
    then have live: "\<forall>j<ARP_TABLE_SIZE. live (T ! j)" using c by simp
    show ?thesis
    proof (cases "cd_old_stable c = ARP_TABLE_SIZE")
      case False
      then show ?thesis using c empty live by (auto simp: recycle_def)
    next
      case st: True
      then have ns: "\<forall>j<ARP_TABLE_SIZE. \<not> is_stable (T ! j)" using c by simp
      show ?thesis
      proof (cases "cd_old_pending c = ARP_TABLE_SIZE")
        case False
        then show ?thesis using c empty live st ns by (auto simp: recycle_def)
      next
        case pe: True
        have "live (T ! 0)" "\<not> is_stable (T ! 0)" "\<not> is_idle (T ! 0)" using live ns c pe by (simp_all add: zero_less_numeral)
        then have "is_queueing (T ! 0)" by (cases "ae_state (T ! 0)") (auto simp: live_def)
        then have "cd_old_queue c \<noteq> ARP_TABLE_SIZE" using c zero_less_numeral by metis
        then show ?thesis using c empty live st ns pe by (auto simp: recycle_def)
      qed
    qed
  qed
qed

text \<open>The entry as \<open>find_entry\<close> leaves it, and which one it is when the address is not in the table.\<close>

definition fresh_entry :: "u32 \<Rightarrow> etharp_entry \<Rightarrow> etharp_entry" where
  "fresh_entry ip e = e\<lparr>ae_q := [], ae_state := ETHARP_STATE_EMPTY, ae_ipaddr := ip, ae_ctime := 0\<rparr>"

definition least_loss :: "etharp_entry list \<Rightarrow> nat \<Rightarrow> bool" where
  "least_loss T i \<longleftrightarrow> i < ARP_TABLE_SIZE \<and>
     (if \<exists>j<ARP_TABLE_SIZE. \<not> live (T ! j) then \<not> live (T ! i)
      else if \<exists>j<ARP_TABLE_SIZE. is_stable (T ! j)
        then is_stable (T ! i) \<and> (\<forall>j<ARP_TABLE_SIZE. is_stable (T ! j) \<longrightarrow> ae_ctime (T ! j) \<le> ae_ctime (T ! i))
      else if \<exists>j<ARP_TABLE_SIZE. is_idle (T ! j) then is_idle (T ! i)
      else is_queueing (T ! i))"

lemma find_entry_only:
  assumes "arp_ok s" "\<forall>j<ARP_TABLE_SIZE. live (arp_table s ! j) \<longrightarrow> ae_ipaddr (arp_table s ! j) \<noteq> ip"
    and "only \<or> \<not> try \<and> (\<forall>j<ARP_TABLE_SIZE. live (arp_table s ! j))"
  shows "find_entry ip try only s = (None, s)"
proof -
  have k: "etharp_cached_entry s < ARP_TABLE_SIZE" using assms(1) by (simp add: arp_ok_def)
  have nc: "\<not> (ae_state (arp_table s ! etharp_cached_entry s) = ETHARP_STATE_STABLE \<and> ip = ae_ipaddr (arp_table s ! etharp_cached_entry s))"
    using assms(2) k by (auto simp: live_def)
  obtain c where c: "find_scan ip (take ARP_TABLE_SIZE (arp_table s)) 0 no_candidates = Inr c" "cand_ok ip (arp_table s) ARP_TABLE_SIZE c"
    using find_scan_table [OF assms(1), of ip] assms(2) by (cases "find_scan ip (take ARP_TABLE_SIZE (arp_table s)) 0 no_candidates") auto
  have "cd_empty c = ARP_TABLE_SIZE \<and> \<not> try \<or> only"
    using assms(3) c(2) by (auto simp: cand_ok_def split: if_splits)
  then show ?thesis unfolding find_entry_def Let_def c(1) using nc by simp
qed

lemma find_entry_new:
  assumes "arp_ok s" "\<forall>j<ARP_TABLE_SIZE. live (arp_table s ! j) \<longrightarrow> ae_ipaddr (arp_table s ! j) \<noteq> ip"
    and "try \<or> (\<exists>j<ARP_TABLE_SIZE. \<not> live (arp_table s ! j))"
  shows "\<exists>i R A. let t = s\<lparr>ram_live := R, arpq_free := A, arp_table := (arp_table s)[i := fresh_entry ip (arp_table s ! i)], etharp_cached_entry := i\<rparr> in
    find_entry ip try False s = (Some i, t) \<and> least_loss (arp_table s) i \<and> arp_ok t \<and> balanced s t"
proof -
  let ?T = "arp_table s"
  have T: "length ?T = ARP_TABLE_SIZE" "etharp_cached_entry s < ARP_TABLE_SIZE" "list_all entry_ok ?T" "one_each ?T"
    "queued s \<le> ram_live s" using assms(1) by (simp_all add: arp_ok_def)
  have nc: "\<not> (ae_state (?T ! etharp_cached_entry s) = ETHARP_STATE_STABLE \<and> ip = ae_ipaddr (?T ! etharp_cached_entry s))"
    using assms(2) T(2) by (auto simp: live_def)
  obtain c where c: "find_scan ip (take ARP_TABLE_SIZE ?T) 0 no_candidates = Inr c" "cand_ok ip ?T ARP_TABLE_SIZE c"
    using find_scan_table [OF assms(1), of ip] assms(2) by (cases "find_scan ip (take ARP_TABLE_SIZE ?T) 0 no_candidates") auto
  have go: "\<not> (cd_empty c = ARP_TABLE_SIZE \<and> \<not> try \<or> False)"
    using assms(3) c(2) by (auto simp: cand_ok_def split: if_splits)
  obtain i where i: "recycle c = Some i" "i < ARP_TABLE_SIZE" and ch: "\<not> live (?T ! i) \<and> cd_empty c < ARP_TABLE_SIZE
       \<or> (\<forall>j<ARP_TABLE_SIZE. live (?T ! j)) \<and> \<not> cd_empty c < ARP_TABLE_SIZE \<and>
         (is_stable (?T ! i) \<and> cd_old_stable c < ARP_TABLE_SIZE \<and> (\<forall>j<ARP_TABLE_SIZE. is_stable (?T ! j) \<longrightarrow> ae_ctime (?T ! j) \<le> ae_ctime (?T ! i))
          \<or> (\<forall>j<ARP_TABLE_SIZE. \<not> is_stable (?T ! j)) \<and> \<not> cd_old_stable c < ARP_TABLE_SIZE \<and>
            (is_idle (?T ! i) \<and> cd_old_pending c < ARP_TABLE_SIZE
             \<or> is_queueing (?T ! i) \<and> \<not> cd_old_pending c < ARP_TABLE_SIZE))"
    using recycle_spec [OF c(2) T(1)] by blast
  let ?q = "ae_q (?T ! i)" and ?last = "\<not> cd_empty c < ARP_TABLE_SIZE \<and> \<not> cd_old_stable c < ARP_TABLE_SIZE \<and> \<not> cd_old_pending c < ARP_TABLE_SIZE"
  have eo: "entry_ok (?T ! i)" by (rule arp_entry_ok [OF assms(1) i(2)])
  have nq: "?q = []" if "\<not> ?last" using ch that eo by (auto simp: entry_ok_def live_def)
  let ?t = "s\<lparr>ram_live := ram_live s - length ?q, arpq_free := arpq_free s + length ?q, arp_table := ?T[i := fresh_entry ip (?T ! i)], etharp_cached_entry := i\<rparr>"
  have "find_entry ip try False s = (Some i, ?t)"
  proof (cases ?last)
    case True
    have f: "free_etharp_q ?q s = s\<lparr>ram_live := ram_live s - length ?q, arpq_free := arpq_free s + length ?q\<rparr>"
      using eo by (intro free_etharp_q_queued) (simp add: entry_ok_def)
    show ?thesis unfolding find_entry_def Let_def c(1) sum.case i(1) option.case
      using nc go True i(2) T(1) by (auto simp: f set_entry_def fresh_entry_def)
  next
    case False
    let ?u = "set_entry i (\<lambda>e. e\<lparr>ae_state := ETHARP_STATE_EMPTY, ae_ipaddr := ip, ae_ctime := 0\<rparr>) s"
    have "find_entry ip try False s = (Some i, ?u\<lparr>etharp_cached_entry := i\<rparr>)"
      unfolding find_entry_def Let_def c(1) sum.case i(1) option.case by (simp only: nc go False if_False)
    moreover have "?t = ?u\<lparr>etharp_cached_entry := i\<rparr>"
    proof -
      have "fresh_entry ip (?T ! i) = (?T ! i)\<lparr>ae_state := ETHARP_STATE_EMPTY, ae_ipaddr := ip, ae_ctime := 0\<rparr>"
        using nq [OF False] by (cases "?T ! i") (simp add: fresh_entry_def)
      then show ?thesis using nq [OF False] by (simp add: set_entry_def)
    qed
    ultimately show ?thesis by simp
  qed
  moreover have "least_loss ?T i"
  proof -
    have "\<not> cd_old_pending c < ARP_TABLE_SIZE \<Longrightarrow> \<forall>j<ARP_TABLE_SIZE. \<not> is_idle (?T ! j)"
      using c(2) by (auto simp: cand_ok_def oldest_def split: if_splits)
    then consider "\<not> live (?T ! i)"
      | "\<forall>j<ARP_TABLE_SIZE. live (?T ! j)" "is_stable (?T ! i)" "\<forall>j<ARP_TABLE_SIZE. is_stable (?T ! j) \<longrightarrow> ae_ctime (?T ! j) \<le> ae_ctime (?T ! i)"
      | "\<forall>j<ARP_TABLE_SIZE. live (?T ! j)" "\<forall>j<ARP_TABLE_SIZE. \<not> is_stable (?T ! j)" "is_idle (?T ! i)"
      | "\<forall>j<ARP_TABLE_SIZE. live (?T ! j)" "\<forall>j<ARP_TABLE_SIZE. \<not> is_stable (?T ! j)" "\<forall>j<ARP_TABLE_SIZE. \<not> is_idle (?T ! j)" "is_queueing (?T ! i)"
      using ch by blast
    then show ?thesis
    proof cases
      case 1
      then have "\<exists>j<ARP_TABLE_SIZE. \<not> live (?T ! j)" using i(2) by blast
      then show ?thesis using 1 i(2) unfolding least_loss_def by (simp only: if_True simp_thms)
    next
      case 2
      then have "\<not> (\<exists>j<ARP_TABLE_SIZE. \<not> live (?T ! j))" "\<exists>j<ARP_TABLE_SIZE. is_stable (?T ! j)" using i(2) by blast+
      then show ?thesis using 2 i(2) unfolding least_loss_def by (simp only: if_True if_False simp_thms)
    next
      case 3
      then have "\<not> (\<exists>j<ARP_TABLE_SIZE. \<not> live (?T ! j))" "\<not> (\<exists>j<ARP_TABLE_SIZE. is_stable (?T ! j))" "\<exists>j<ARP_TABLE_SIZE. is_idle (?T ! j)" using i(2) by blast+
      then show ?thesis using 3(3) i(2) unfolding least_loss_def by (simp only: if_True if_False simp_thms)
    next
      case 4
      then have "\<not> (\<exists>j<ARP_TABLE_SIZE. \<not> live (?T ! j))" "\<not> (\<exists>j<ARP_TABLE_SIZE. is_stable (?T ! j))" "\<not> (\<exists>j<ARP_TABLE_SIZE. is_idle (?T ! j))" by blast+
      then show ?thesis using 4(4) i(2) unfolding least_loss_def by (simp only: if_True if_False simp_thms)
    qed
  qed
  moreover have q: "queued ?t + length ?q = queued s"
    using queued_update [of i ?T "fresh_entry ip (?T ! i)"] i(2) T(1) by (simp add: queued_def fresh_entry_def)
  moreover have "arp_ok ?t"
    unfolding arp_ok_def using assms(1) i(2) q T
    by (auto simp: arp_ok_def entries_update entry_ok_def fresh_entry_def live_def intro!: one_each_update)
  moreover have "balanced s ?t" using q T(5) by (simp add: balanced_def)
  ultimately show ?thesis by (auto simp: Let_def)
qed

section \<open>Sending packets\<close>

lemma tx_only_arp:
  assumes "tx_only s (t :: 'a arp_st_scheme)"
  shows "arp_table t = arp_table s" "etharp_cached_entry t = etharp_cached_entry s" "arp_st.more t = arp_st.more s"
    "arp_frame_only s t" "balanced s t" "arp_ok t = arp_ok s"
  using assms by (auto simp: tx_only_def arp_frame_only_def balanced_def queued_def arp_ok_def rx_queue_def rx_slots_def rx_ok_def)

lemma low_level_output_any:
  assumes "tx_ok s" "chain_ok p" "length (chain_bytes p) \<le> ETH_MAX_PACKET_SIZE"
  shows "\<exists>t. low_level_output p s = Inr (ERR_OK, t) \<and> tx_only s t \<and> tx_ok t
    \<and> (length (tx_queue s) < 2 \<longrightarrow> tx_queue t = tx_queue s @ [chain_bytes p])"
proof (cases "length (tx_queue s) < 2")
  case True
  then show ?thesis using low_level_output_room [OF assms] by blast
next
  case False
  have "slots_ok tx_full 2 (dma_tx s) (DMATxDescToSet s) (tx_slots s)" using assms(1) by (simp add: tx_ok_def)
  then have "length (tx_queue s) = 2" using False tx.waiting_bounded by (fastforce simp: length_tx_queue)
  then obtain f g where "tx_queue s = [f, g]" by (auto simp: numeral_2_eq_2 length_Suc_conv)
  then show ?thesis using low_level_output_full [OF assms] False by blast
qed

definition eth_frame :: "u8 list \<Rightarrow> u8 list \<Rightarrow> u16 \<Rightarrow> u8 list \<Rightarrow> u8 list" where
  "eth_frame dst src type payload = dst @ src @ be16 type @ payload"

lemma length_be16 [simp]: "length (be16 w) = 2"
  by (simp add: be16_def)

lemma length_ip_bytes [simp]: "length (ip_bytes a) = 4"
  by (simp add: ip_bytes_def)

lemma write_header:
  assumes "chain_ok (q # qs)" "length h \<le> unat (p_len q)"
  shows "\<exists>r. write_at q 0 h = Inr r \<and> same_shape q r \<and> chain_ok (r # qs) \<and> chain_bytes (r # qs) = h @ drop (length h) (chain_bytes (q # qs))"
proof -
  have n: "node_ok q" "length (pbytes q) = unat (p_len q)" "0 + length h \<le> unat (p_len q)" using assms by simp_all
  obtain r where r: "write_at q 0 h = Inr r" "same_shape q r" "pbytes r = take 0 (pbytes q) @ h @ drop (0 + length h) (pbytes q)"
    using write_at_pbytes [OF n(1,3)] by blast
  have "list_all2 same_shape (q # qs) (r # qs)" using r(2) by (simp add: list_all2_same)
  then have "chain_ok (r # qs)" by (rule shapes_ok [OF assms(1)])
  then show ?thesis using r n assms(2) by simp
qed

lemma etharp_send_ip_frame:
  assumes "tx_ok s" "chain_ok p" "p \<noteq> []" "14 \<le> unat (p_len (hd p))" "length (chain_bytes p) \<le> 1514"
    and "length src = 6" "length dst = 6"
  shows "\<exists>t. etharp_send_ip p src dst s = Inr (ERR_OK, t) \<and> tx_only s t \<and> tx_ok t
    \<and> (length (tx_queue s) < 2 \<longrightarrow> tx_queue t = tx_queue s @ [eth_frame dst src 0x0800 (drop 14 (chain_bytes p))])"
proof -
  obtain q qs where p: "p = q # qs" using assms(3) by (cases p) auto
  let ?h = "dst @ src @ be16 0x0800"
  have h: "length ?h = 14" using assms(6,7) by simp
  obtain r where r: "write_at q 0 ?h = Inr r" "chain_ok (r # qs)" "chain_bytes (r # qs) = ?h @ drop 14 (chain_bytes (q # qs))"
    using write_header [of q qs ?h] assms(2,4) h unfolding p by auto
  have len: "length (chain_bytes (r # qs)) \<le> ETH_MAX_PACKET_SIZE" unfolding r(3) using h assms(5) unfolding p by simp
  have f: "chain_bytes (r # qs) = eth_frame dst src 0x0800 (drop 14 (chain_bytes p))" using r(3) p by (simp add: eth_frame_def)
  have "etharp_send_ip p src dst s = low_level_output (r # qs) s" unfolding etharp_send_ip_def p list.case r(1) and_then.simps ..
  then show ?thesis using low_level_output_any [OF assms(1) r(2) len] unfolding f by simp
qed

lemma send_queued_spec:
  assumes "tx_ok s" "list_all queued_ok ps" "i < length (arp_table s)" "ae_q (arp_table s ! i) = ps"
    and "length (nif_hwaddr (netif s)) = 6" "length ethaddr = 6"
  shows "\<exists>t. send_queued i ethaddr ps s = Inr t \<and> tx_ok t \<and> arp_frame_only s t
    \<and> arp_table t = (arp_table s)[i := (arp_table s ! i)\<lparr>ae_q := []\<rparr>] \<and> etharp_cached_entry t = etharp_cached_entry s
    \<and> arpq_free t = arpq_free s + length ps \<and> ram_live t = ram_live s - length ps
    \<and> (length (tx_queue s) + length ps \<le> 2 \<longrightarrow> tx_queue t = tx_queue s
         @ map (\<lambda>p. eth_frame ethaddr (nif_hwaddr (netif s)) 0x0800 (drop 14 (chain_bytes p))) ps)"
  using assms
proof (induction ps arbitrary: s)
  case Nil
  then have "(arp_table s)[i := (arp_table s ! i)\<lparr>ae_q := []\<rparr>] = arp_table s"
    by (cases "arp_table s ! i") (auto intro!: nth_equalityI simp: nth_list_update)
  then show ?case using Nil by simp
next
  case (Cons p ps)
  obtain q where q: "p = [q]" "p_type q = PBUF_RAM" "chain_ok p" "14 \<le> unat (p_len q)" "unat (p_len q) \<le> 1514"
    using Cons.prems(2) by (auto simp: queued_ok_def)
  let ?s = "(set_entry i (\<lambda>e. e\<lparr>ae_q := ps\<rparr>) s)\<lparr>arpq_free := arpq_free s + 1\<rparr>"
  have s: "tx_ok ?s" "tx_queue ?s = tx_queue s" "netif ?s = netif s"
    using Cons.prems(1) by (simp_all add: tx_ok_def tx_queue_def tx_slots_def set_entry_def)
  have len: "length (chain_bytes p) \<le> 1514" using q by simp
  obtain u where u: "etharp_send_ip p (nif_hwaddr (netif s)) ethaddr ?s = Inr (ERR_OK, u)" "tx_only ?s u" "tx_ok u"
    "length (tx_queue s) < 2 \<longrightarrow> tx_queue u = tx_queue s @ [eth_frame ethaddr (nif_hwaddr (netif s)) 0x0800 (drop 14 (chain_bytes p))]"
    using etharp_send_ip_frame [OF s(1) q(3) _ _ len Cons.prems(5,6)] q(1,4) unfolding s(2) by auto
  have f: "pbuf_free p u = u\<lparr>ram_live := ram_live u - 1\<rparr>" unfolding q(1) by (rule pbuf_free_ram [OF q(2)])
  let ?v = "u\<lparr>ram_live := ram_live u - 1\<rparr>"
  have fr: "arp_frame_only s u"
  proof -
    have "arp_frame_only s ?s" by (simp add: arp_frame_only_def set_entry_def rx_queue_def rx_slots_def rx_ok_def)
    then show ?thesis using tx_only_arp(4) [OF u(2)] by (rule arp_frame_trans)
  qed
  have v: "tx_ok ?v" "tx_queue ?v = tx_queue u" "arp_frame_only s ?v"
    using u(3) fr by (simp_all add: tx_ok_def tx_queue_def tx_slots_def arp_frame_only_def rx_queue_def rx_slots_def rx_ok_def)
  have tab: "arp_table ?v = (arp_table s)[i := (arp_table s ! i)\<lparr>ae_q := ps\<rparr>]" using tx_only_arp(1) [OF u(2)] by (simp add: set_entry_def)
  have nv: "netif ?v = netif s" using v(3) by (simp add: arp_frame_only_def)
  obtain t where t: "send_queued i ethaddr ps ?v = Inr t" "tx_ok t" "arp_frame_only ?v t"
    "arp_table t = (arp_table ?v)[i := (arp_table ?v ! i)\<lparr>ae_q := []\<rparr>]" "etharp_cached_entry t = etharp_cached_entry ?v"
    "arpq_free t = arpq_free ?v + length ps" "ram_live t = ram_live ?v - length ps"
    "length (tx_queue ?v) + length ps \<le> 2 \<longrightarrow> tx_queue t = tx_queue ?v
         @ map (\<lambda>p. eth_frame ethaddr (nif_hwaddr (netif ?v)) 0x0800 (drop 14 (chain_bytes p))) ps"
    using Cons.IH [OF v(1)] Cons.prems(2,3,5,6) tab nv by auto
  have "arp_table t = (arp_table s)[i := (arp_table s ! i)\<lparr>ae_q := []\<rparr>]"
    using t(4) tab Cons.prems(3) by simp
  moreover have "send_queued i ethaddr (p # ps) s = Inr t"
    using u(1) t(1) f s(3) by (simp add: Let_def set_entry_def)
  moreover have "arp_frame_only s t" using v(3) t(3) by (rule arp_frame_trans)
  moreover have "etharp_cached_entry t = etharp_cached_entry s" "arpq_free t = arpq_free s + length (p # ps)" "ram_live t = ram_live s - length (p # ps)"
    using t(5-7) tx_only_arp(2) [OF u(2)] tx_onlyD(7,8) [OF u(2)] by (simp_all add: set_entry_def)
  moreover have "length (tx_queue s) + length (p # ps) \<le> 2 \<longrightarrow> tx_queue t = tx_queue s
         @ map (\<lambda>p. eth_frame ethaddr (nif_hwaddr (netif s)) 0x0800 (drop 14 (chain_bytes p))) (p # ps)"
    using t(8) u(4) v(2) nv by auto
  ultimately show ?case using t(2) by blast
qed

section \<open>Learning an address\<close>

definition unicast :: "u32 \<Rightarrow> netif \<Rightarrow> bool" where
  "unicast ip nif \<longleftrightarrow> ip \<noteq> 0 \<and> \<not> ip_addr_isbroadcast ip nif \<and> \<not> ip_addr_ismulticast ip"

definition resolved :: "u8 list \<Rightarrow> etharp_entry \<Rightarrow> etharp_entry" where
  "resolved ethaddr e = e\<lparr>ae_state := ETHARP_STATE_STABLE, ae_ethaddr := ethaddr, ae_ctime := 0, ae_q := []\<rparr>"

definition knows :: "u32 \<Rightarrow> etharp_entry list \<Rightarrow> bool" where
  "knows ip T \<longleftrightarrow> (\<exists>i<ARP_TABLE_SIZE. live (T ! i) \<and> ae_ipaddr (T ! i) = ip)"

lemma arp_ok_table:
  assumes "arp_ok s" "i < ARP_TABLE_SIZE" "entry_ok e" "ae_ipaddr e = ae_ipaddr (arp_table s ! i)" "live e \<Longrightarrow> live (arp_table s ! i)"
    and "arp_table t = (arp_table s)[i := e]" "etharp_cached_entry t < ARP_TABLE_SIZE" "netif t = netif s" "balanced s t"
  shows "arp_ok t"
proof -
  have T: "length (arp_table s) = ARP_TABLE_SIZE" "list_all entry_ok (arp_table s)" "one_each (arp_table s)" "queued s \<le> ram_live s"
    using assms(1) by (simp_all add: arp_ok_def)
  have "one_each ((arp_table s)[i := e])"
  proof (rule one_each_update [OF T(3)])
    show "i < length (arp_table s)" using assms(2) T(1) by simp
    assume "live e"
    then have "live (arp_table s ! i)" by (rule assms(5))
    then show "\<forall>j<length (arp_table s). j \<noteq> i \<and> live (arp_table s ! j) \<longrightarrow> ae_ipaddr (arp_table s ! j) \<noteq> ae_ipaddr e"
      using T(1,3) assms(2,4) unfolding one_each_def by metis
  qed
  moreover have "queued t \<le> ram_live t" using assms(9) T(4) unfolding balanced_def by linarith
  ultimately show ?thesis
    using T assms(1,3,6-8) by (simp add: arp_ok_def entries_update)
qed

lemma update_arp_entry_hit:
  assumes "arp_ok s" "tx_ok s" "unicast ip (netif s)" "i < ARP_TABLE_SIZE" "live (arp_table s ! i)" "ae_ipaddr (arp_table s ! i) = ip"
    and "length ethaddr = 6"
  shows "\<exists>t. update_arp_entry ip ethaddr try s = Inr (ERR_OK, t) \<and> arp_ok t \<and> tx_ok t \<and> arp_frame_only s t \<and> balanced s t
    \<and> arp_table t = (arp_table s)[i := resolved ethaddr (arp_table s ! i)]
    \<and> (length (tx_queue s) + length (ae_q (arp_table s ! i)) \<le> 2 \<longrightarrow> tx_queue t = tx_queue s
         @ map (\<lambda>p. eth_frame ethaddr (nif_hwaddr (netif s)) 0x0800 (drop 14 (chain_bytes p))) (ae_q (arp_table s ! i)))"
proof -
  let ?T = "arp_table s" and ?q = "ae_q (arp_table s ! i)"
  have T: "length ?T = ARP_TABLE_SIZE" "length (nif_hwaddr (netif s)) = 6" "queued s \<le> ram_live s" using assms(1) by (simp_all add: arp_ok_def)
  let ?u = "set_entry i (\<lambda>e. e\<lparr>ae_state := ETHARP_STATE_STABLE, ae_ethaddr := ethaddr, ae_ctime := 0\<rparr>) (s\<lparr>etharp_cached_entry := i\<rparr>)"
  have eo: "entry_ok (?T ! i)" by (rule arp_entry_ok [OF assms(1,4)])
  have u: "tx_ok ?u" "tx_queue ?u = tx_queue s" "netif ?u = netif s" "arp_frame_only s ?u" "etharp_cached_entry ?u = i"
    using assms(2) by (simp_all add: tx_ok_def tx_queue_def tx_slots_def set_entry_def arp_frame_only_def rx_queue_def rx_slots_def rx_ok_def)
  have ui: "arp_table ?u ! i = (?T ! i)\<lparr>ae_state := ETHARP_STATE_STABLE, ae_ethaddr := ethaddr, ae_ctime := 0\<rparr>" "i < length (arp_table ?u)"
    using assms(4) T(1) by (simp_all add: set_entry_def)
  have q: "list_all queued_ok ?q" "ae_q (arp_table ?u ! i) = ?q" using eo ui by (simp_all add: entry_ok_def)
  have hw: "length (nif_hwaddr (netif ?u)) = 6" using T(2) u(3) by simp
  obtain t where t: "send_queued i ethaddr ?q ?u = Inr t" "tx_ok t" "arp_frame_only ?u t"
    "arp_table t = (arp_table ?u)[i := (arp_table ?u ! i)\<lparr>ae_q := []\<rparr>]" "etharp_cached_entry t = etharp_cached_entry ?u"
    "arpq_free t = arpq_free ?u + length ?q" "ram_live t = ram_live ?u - length ?q"
    "length (tx_queue ?u) + length ?q \<le> 2 \<longrightarrow> tx_queue t = tx_queue ?u
         @ map (\<lambda>p. eth_frame ethaddr (nif_hwaddr (netif ?u)) 0x0800 (drop 14 (chain_bytes p))) ?q"
    using send_queued_spec [OF u(1) q(1) ui(2) q(2) hw assms(7)] by blast
  have tab: "arp_table t = ?T[i := resolved ethaddr (?T ! i)]"
    unfolding t(4) ui(1) using assms(4) T(1) by (simp add: set_entry_def resolved_def)
  have "queued t + length ?q = queued s"
    using queued_update [of i ?T "resolved ethaddr (?T ! i)"] assms(4) T(1) unfolding queued_def tab by (simp add: resolved_def)
  then have b: "balanced s t" using t(6,7) T(3) by (simp add: balanced_def set_entry_def)
  have fr: "arp_frame_only s t" using u(4) t(3) by (rule arp_frame_trans)
  have "arp_ok t"
    by (rule arp_ok_table [OF assms(1,4) _ _ _ tab])
      (use eo assms(4,5,7) t(5) u(5) fr b in \<open>simp_all add: entry_ok_def resolved_def arp_frame_only_def\<close>)
  moreover have "update_arp_entry ip ethaddr try s = Inr (ERR_OK, t)"
    using assms(3) find_entry_hit [OF assms(1,4-6), of "try" False] t(1) q(2) by (simp add: update_arp_entry_def unicast_def Let_def)
  ultimately show ?thesis using t(2,8) u(2,3) tab b fr by metis
qed

lemma update_arp_entry_new:
  assumes "arp_ok s" "tx_ok s" "unicast ip (netif s)" "\<not> knows ip (arp_table s)" "length ethaddr = 6"
    and "try \<or> (\<exists>j<ARP_TABLE_SIZE. \<not> live (arp_table s ! j))"
  shows "\<exists>i t. update_arp_entry ip ethaddr try s = Inr (ERR_OK, t) \<and> least_loss (arp_table s) i \<and> arp_ok t \<and> tx_ok t
    \<and> arp_frame_only s t \<and> balanced s t \<and> arp_table t = (arp_table s)[i := resolved ethaddr (fresh_entry ip (arp_table s ! i))]
    \<and> tx_queue t = tx_queue s"
proof -
  have nk: "\<forall>j<ARP_TABLE_SIZE. live (arp_table s ! j) \<longrightarrow> ae_ipaddr (arp_table s ! j) \<noteq> ip" using assms(4) by (auto simp: knows_def)
  obtain i R A u where f: "find_entry ip try False s = (Some i, u)" "least_loss (arp_table s) i" "arp_ok u" "balanced s u"
    and ue: "u = s\<lparr>ram_live := R, arpq_free := A, arp_table := (arp_table s)[i := fresh_entry ip (arp_table s ! i)], etharp_cached_entry := i\<rparr>"
    using find_entry_new [OF assms(1) nk assms(6)] unfolding Let_def by blast
  have i: "i < ARP_TABLE_SIZE" using f(2) by (simp add: least_loss_def)
  have T: "length (arp_table s) = ARP_TABLE_SIZE" "length (nif_hwaddr (netif s)) = 6" using assms(1) by (simp_all add: arp_ok_def)
  let ?t = "set_entry i (\<lambda>e. e\<lparr>ae_state := ETHARP_STATE_STABLE, ae_ethaddr := ethaddr, ae_ctime := 0\<rparr>) u"
  have tab: "arp_table ?t = (arp_table s)[i := resolved ethaddr (fresh_entry ip (arp_table s ! i))]"
    using i T(1) by (cases "arp_table s ! i") (simp add: ue set_entry_def resolved_def fresh_entry_def)
  have q: "ae_q (arp_table ?t ! i) = []" using i T(1) unfolding tab by (simp add: resolved_def)
  have t: "tx_ok ?t" "tx_queue ?t = tx_queue s" "arp_frame_only s ?t"
    using assms(2) by (simp_all add: ue tx_ok_def tx_queue_def tx_slots_def set_entry_def arp_frame_only_def rx_queue_def rx_slots_def rx_ok_def)
  have "queued ?t = queued u"
    using queued_update [of i "arp_table s" "resolved ethaddr (fresh_entry ip (arp_table s ! i))"]
      queued_update [of i "arp_table s" "fresh_entry ip (arp_table s ! i)"] i T(1) unfolding queued_def tab
    by (simp add: ue resolved_def fresh_entry_def)
  then have b: "balanced s ?t" using f(4) by (simp add: balanced_def set_entry_def)
  have "one_each (arp_table ?t)"
    unfolding tab using assms(1) i nk T(1) by (intro one_each_update) (auto simp: arp_ok_def resolved_def fresh_entry_def)
  moreover have "list_all entry_ok (arp_table ?t)"
    unfolding tab using assms(1,5) by (intro entries_update) (simp_all add: arp_ok_def entry_ok_def resolved_def fresh_entry_def)
  moreover have "queued ?t \<le> ram_live ?t" using b assms(1) unfolding balanced_def arp_ok_def by linarith
  ultimately have "arp_ok ?t" using i T tab by (simp add: arp_ok_def set_entry_def ue)
  moreover have "update_arp_entry ip ethaddr try s = Inr (ERR_OK, ?t)"
    using assms(3) f(1) q by (simp add: update_arp_entry_def unicast_def Let_def)
  ultimately show ?thesis using f(2) t tab b by blast
qed

lemma update_arp_entry_full:
  assumes "arp_ok s" "unicast ip (netif s)" "\<not> knows ip (arp_table s)" "\<forall>j<ARP_TABLE_SIZE. live (arp_table s ! j)"
  shows "update_arp_entry ip ethaddr False s = Inr (ERR_MEM, s)"
proof -
  have "find_entry ip False False s = (None, s)"
    using assms(3,4) by (intro find_entry_only [OF assms(1)]) (auto simp: knows_def)
  then show ?thesis using assms(2) by (simp add: update_arp_entry_def unicast_def)
qed

text \<open>In every case the table stays sound and no memory is lost.\<close>

lemma update_arp_entry_safe:
  assumes "arp_ok s" "tx_ok s" "length ethaddr = 6"
  shows "\<exists>e t. update_arp_entry ip ethaddr try s = Inr (e, t) \<and> arp_ok t \<and> tx_ok t \<and> arp_frame_only s t \<and> balanced s t"
proof -
  consider "\<not> unicast ip (netif s)" | "unicast ip (netif s)" "knows ip (arp_table s)"
    | "unicast ip (netif s)" "\<not> knows ip (arp_table s)" "try \<or> (\<exists>j<ARP_TABLE_SIZE. \<not> live (arp_table s ! j))"
    | "unicast ip (netif s)" "\<not> knows ip (arp_table s)" "\<not> try" "\<forall>j<ARP_TABLE_SIZE. live (arp_table s ! j)" by blast
  then show ?thesis
  proof cases
    case 1
    then have "update_arp_entry ip ethaddr try s = Inr (ERR_ARG, s)" by (auto simp: update_arp_entry_def unicast_def)
    then show ?thesis using assms(1,2) by simp
  next
    case 2
    then obtain i where "i < ARP_TABLE_SIZE" "live (arp_table s ! i)" "ae_ipaddr (arp_table s ! i) = ip" by (auto simp: knows_def)
    then show ?thesis using update_arp_entry_hit [OF assms(1,2) 2(1) _ _ _ assms(3)] by metis
  next
    case 3
    then show ?thesis using update_arp_entry_new [OF assms(1,2) 3(1,2) assms(3) 3(3)] by metis
  next
    case 4
    then show ?thesis using update_arp_entry_full [OF assms(1) 4(1,2,4)] assms(1,2) by simp
  qed
qed

section \<open>Asking for an address\<close>

definition heap_grants :: "'a mem_st_scheme \<Rightarrow> bool" where
  "heap_grants s \<longleftrightarrow> (\<forall>k n. ram_ok s k n)"

text \<open>The state apart from the counter of requests and the sending side is as before: the buffer of the
  ARP frame is returned.\<close>

lemma length_arp_frame:
  "length a = 6 \<Longrightarrow> length b = 6 \<Longrightarrow> length c = 6 \<Longrightarrow> length d = 6 \<Longrightarrow> length (arp_frame a b opc c x d y) = 42"
  by (simp add: arp_frame_def)

lemma etharp_raw_frame:
  assumes "tx_ok s" "length ethdst = 6" "length ethsrc = 6" "length hwsrc = 6" "length hwdst = 6"
  shows "\<exists>e t. etharp_raw ethsrc ethdst hwsrc ipsrc hwdst ipdst opc s = Inr (e, t) \<and> tx_ok t
    \<and> (\<exists>a b c d. t = s\<lparr>requests := requests s + 1, Tx_Buff := a, DMATxDscrTab := b, DMATxDescToSet := c, DMASR := d\<rparr>)
    \<and> (heap_grants s \<longrightarrow> e = ERR_OK \<and> (length (tx_queue s) < 2 \<longrightarrow>
         tx_queue t = tx_queue s @ [arp_frame ethdst ethsrc opc hwsrc ipsrc hwdst ipdst]))"
proof -
  let ?f = "arp_frame ethdst ethsrc opc hwsrc ipsrc hwdst ipdst"
  have lf: "length ?f = 42" using assms(2-5) by (rule length_arp_frame)
  obtain r u where al: "pbuf_alloc PBUF_RAW 42 PBUF_RAM s = (r, u)" by fastforce
  have g: "heap_grants s \<Longrightarrow> r \<noteq> None" using al by (auto simp: pbuf_alloc_def mem_malloc_def heap_grants_def Let_def)
  show ?thesis using pbuf_alloc_ram [OF al]
  proof (elim disjE conjE exE)
    assume r: "r = None" "u = s\<lparr>requests := requests s + 1\<rparr>"
    have "tx_ok u" using assms(1) by (simp add: r(2) tx_ok_def tx_slots_def)
    moreover have "\<exists>a b c d. u = s\<lparr>requests := requests s + 1, Tx_Buff := a, DMATxDscrTab := b, DMATxDescToSet := c, DMASR := d\<rparr>"
      unfolding r(2) by (rule exI [of _ "Tx_Buff s"], rule exI [of _ "DMATxDscrTab s"], rule exI [of _ "DMATxDescToSet s"], rule exI [of _ "DMASR s"]) simp
    moreover have "\<not> heap_grants s" using g r(1) by blast
    ultimately show ?thesis using r(1) al by (simp add: etharp_raw_def)
  next
    fix p assume p: "r = Some [p]" "chain_ok [p]" "p_type p = PBUF_RAM" "p_len p = 42" "p_tot_len p = 42"
      "u = s\<lparr>ram_live := ram_live s + 1, requests := requests s + 1\<rparr>"
    have l: "length ?f \<le> unat (p_len p)" using lf p(4) by simp
    obtain q where q: "write_at p 0 ?f = Inr q" "same_shape p q" "chain_ok [q]" "chain_bytes [q] = ?f @ drop (length ?f) (chain_bytes [p])"
      using write_header [OF p(2) l] by blast
    have "length (chain_bytes [p]) = 42" using p(2,4) by simp
    then have b: "chain_bytes [q] = ?f" using q(4) lf by simp
    have u: "tx_ok u" "tx_queue u = tx_queue s" using assms(1) by (simp_all add: p(6) tx_ok_def tx_queue_def tx_slots_def)
    obtain v where v: "low_level_output [q] u = Inr (ERR_OK, v)" "tx_only u v" "tx_ok v"
      "length (tx_queue s) < 2 \<longrightarrow> tx_queue v = tx_queue s @ [?f]"
      using low_level_output_any [OF u(1) q(3)] b lf u(2) by auto
    have "p_type q = PBUF_RAM" using same_shape_fields [OF q(2)] p(3) by simp
    then have f: "pbuf_free [q] v = v\<lparr>ram_live := ram_live v - 1\<rparr>" by (rule pbuf_free_ram)
    let ?t = "v\<lparr>ram_live := ram_live v - 1\<rparr>"
    have "etharp_raw ethsrc ethdst hwsrc ipsrc hwdst ipdst opc s = Inr (ERR_OK, ?t)"
      using al p(1) q(1) v(1) f by (simp add: etharp_raw_def)
    moreover obtain a b c d where "v = u\<lparr>Tx_Buff := a, DMATxDscrTab := b, DMATxDescToSet := c, DMASR := d\<rparr>" using v(2) unfolding tx_only_def by blast
    then have "\<exists>a b c d. ?t = s\<lparr>requests := requests s + 1, Tx_Buff := a, DMATxDscrTab := b, DMATxDescToSet := c, DMASR := d\<rparr>"
      by (intro exI [of _ a] exI [of _ b] exI [of _ c] exI [of _ d]) (simp add: p(6))
    moreover have "tx_ok ?t" "tx_queue ?t = tx_queue v" using v(3) by (simp_all add: tx_ok_def tx_queue_def tx_slots_def)
    ultimately show ?thesis using v(4) by auto
  qed
qed

lemma etharp_request_frame:
  assumes "arp_ok s" "tx_ok s"
  shows "\<exists>e t. etharp_request ip s = Inr (e, t) \<and> tx_ok t \<and> arp_ok t \<and> arp_frame_only s t \<and> balanced s t
    \<and> arp_table t = arp_table s \<and> arpq_free t = arpq_free s
    \<and> (heap_grants s \<longrightarrow> e = ERR_OK \<and> (length (tx_queue s) < 2 \<longrightarrow> tx_queue t = tx_queue s
         @ [arp_frame ethbroadcast (nif_hwaddr (netif s)) 1 (nif_hwaddr (netif s)) (nif_ip_addr (netif s)) ethzero ip]))"
proof -
  have hw: "length (nif_hwaddr (netif s)) = 6" using assms(1) by (simp add: arp_ok_def)
  have bz: "length ethbroadcast = 6" "length ethzero = 6" by simp_all
  obtain e t a b c d where t: "etharp_request ip s = Inr (e, t)" "tx_ok t"
    "t = s\<lparr>requests := requests s + 1, Tx_Buff := a, DMATxDscrTab := b, DMATxDescToSet := c, DMASR := d\<rparr>"
    "heap_grants s \<longrightarrow> e = ERR_OK \<and> (length (tx_queue s) < 2 \<longrightarrow> tx_queue t = tx_queue s
         @ [arp_frame ethbroadcast (nif_hwaddr (netif s)) 1 (nif_hwaddr (netif s)) (nif_ip_addr (netif s)) ethzero ip])"
    using etharp_raw_frame [OF assms(2) bz(1) hw hw bz(2), of "nif_ip_addr (netif s)" ip 1]
    unfolding etharp_request_def Let_def by blast
  have k: "arp_table t = arp_table s" "arpq_free t = arpq_free s" "ram_live t = ram_live s" "netif t = netif s"
    "etharp_cached_entry t = etharp_cached_entry s" unfolding t(3) by simp_all
  have "arp_frame_only s t" unfolding t(3) by (simp add: arp_frame_only_def rx_queue_def rx_slots_def rx_ok_def)
  moreover have "balanced s t" using k(1-3) by (simp add: balanced_def queued_def)
  moreover have "arp_ok t" using assms(1) k by (simp only: arp_ok_def queued_def)
  ultimately show ?thesis using t(1,2,4) k(1,2) by blast
qed

definition packet_ok :: "chain \<Rightarrow> bool" where
  "packet_ok q \<longleftrightarrow> q \<noteq> [] \<and> chain_ok q \<and> no_gaps q \<and> p_type (hd q) \<noteq> PBUF_ROM
     \<and> 14 \<le> unat (p_len (hd q)) \<and> length (chain_bytes q) \<le> 1514"

text \<open>The copy that waits for the address has the bytes of the packet.\<close>

lemma queue_packet_spec:
  assumes "arp_ok s" "tx_ok s" "i < ARP_TABLE_SIZE" "ae_state (arp_table s ! i) = ETHARP_STATE_PENDING" "packet_ok q"
  shows "\<exists>e t x. queue_packet r i q s = Inr (e, t) \<and> arp_ok t \<and> tx_ok t \<and> tx_queue t = tx_queue s \<and> arp_frame_only s t \<and> balanced s t
    \<and> arp_table t = (arp_table s)[i := (arp_table s ! i)\<lparr>ae_q := ae_q (arp_table s ! i) @ x\<rparr>]
    \<and> (heap_grants s \<and> 0 < arpq_free s \<longrightarrow> e = ERR_OK \<and> arpq_free t + 1 = arpq_free s \<and> (\<exists>p. x = [p] \<and> chain_bytes p = chain_bytes q))"
proof -
  let ?T = "arp_table s"
  obtain f fs where q: "q = f # fs" using assms(5) by (cases q) (auto simp: packet_ok_def)
  have cp: "chain_ok q" "no_gaps q" "14 \<le> unat (p_len f)" "length (chain_bytes q) \<le> 1514" "p_type f \<noteq> PBUF_ROM"
    using assms(5) unfolding packet_ok_def q list.sel by blast+
  have fd: "List.find (\<lambda>p. p_type p \<noteq> PBUF_ROM) q = Some f" using cp(5) q by simp
  have tot: "unat (p_tot_len f) = length (chain_bytes q)" using chain_tot_len [of f fs] cp(1) unfolding q by simp
  have f14: "14 \<le> length (chain_bytes q)" using cp(1,3) unfolding q by simp
  have T: "length ?T = ARP_TABLE_SIZE" "queued s \<le> ram_live s" using assms(1) by (simp_all add: arp_ok_def)
  have same: "?T[i := (?T ! i)\<lparr>ae_q := ae_q (?T ! i) @ []\<rparr>] = ?T"
    by simp
  obtain p u where al: "pbuf_alloc PBUF_RAW (p_tot_len f) PBUF_RAM s = (p, u)" by fastforce
  have g: "heap_grants s \<Longrightarrow> p \<noteq> None" using al by (auto simp: pbuf_alloc_def mem_malloc_def heap_grants_def Let_def)
  have only: "arp_ok (s\<lparr>requests := k\<rparr>) \<and> tx_ok (s\<lparr>requests := k\<rparr>) \<and> tx_queue (s\<lparr>requests := k\<rparr>) = tx_queue s \<and> arp_frame_only s (s\<lparr>requests := k\<rparr>) \<and> balanced s (s\<lparr>requests := k\<rparr>)" for k
    using assms(1,2) by (simp add: arp_ok_def queued_def tx_ok_def tx_queue_def tx_slots_def arp_frame_only_def balanced_def rx_queue_def rx_slots_def rx_ok_def)
  show ?thesis using pbuf_alloc_ram [OF al]
  proof (elim disjE conjE exE)
    assume p: "p = None" "u = s\<lparr>requests := requests s + 1\<rparr>"
    have ng: "\<not> heap_grants s" using g p(1) by blast
    have "queue_packet r i q s = Inr (r, s\<lparr>requests := requests s + 1\<rparr>)"
      using al p fd by (simp add: queue_packet_def Let_def)
    then show ?thesis using only [of "requests s + 1"] same ng
      by (intro exI [of _ r] exI [of _ "s\<lparr>requests := requests s + 1\<rparr>"] exI [of _ "[]"]) simp
  next
    fix n assume n: "p = Some [n]" "chain_ok [n]" "p_type n = PBUF_RAM" "p_len n = p_tot_len f"
      "u = s\<lparr>ram_live := ram_live s + 1, requests := requests s + 1\<rparr>"
    have l: "length (chain_bytes [n]) = length (chain_bytes q)" using n(2,4) tot q by simp
    obtain d where d: "pbuf_copy [n] q = Inr (ERR_OK, d)" "list_all2 same_shape [n] d"
      "chain_bytes d = chain_bytes q @ drop (length (chain_bytes q)) (chain_bytes [n])"
      using pbuf_copy_spec [of "[n]" q] n(2) cp(1,2) l q by (auto simp: no_gaps_def)
    obtain m where m: "d = [m]" "same_shape n m" using d(2) by (auto simp: list_all2_Cons1)
    have bytes: "chain_bytes d = chain_bytes q" using d(3) l by simp
    have ok: "chain_ok d" by (rule shapes_ok [OF n(2) d(2)])
    have mf: "p_type m = PBUF_RAM" "unat (p_len m) = length (chain_bytes q)" using same_shape_fields [OF m(2)] n(3,4) tot q by simp_all
    have qo: "queued_ok d" using ok m(1) mf f14 cp(4) by (simp add: queued_ok_def)
    show ?thesis
    proof (cases "arpq_free s = 0")
      case True
      have fr: "pbuf_free d u = u\<lparr>ram_live := ram_live u - 1\<rparr>" unfolding m(1) by (rule pbuf_free_ram [OF mf(1)])
      have "pbuf_free d u = s\<lparr>requests := requests s + 1\<rparr>" using fr by (simp add: n(5))
      then have "queue_packet r i q s = Inr (r, s\<lparr>requests := requests s + 1\<rparr>)"
        using al n(1,5) d(1) fd True by (simp add: queue_packet_def Let_def)
      then show ?thesis using only [of "requests s + 1"] same True
        by (intro exI [of _ r] exI [of _ "s\<lparr>requests := requests s + 1\<rparr>"] exI [of _ "[]"]) simp
    next
      case False
      let ?e = "(?T ! i)\<lparr>ae_q := ae_q (?T ! i) @ [d]\<rparr>"
      let ?t = "set_entry i (\<lambda>e. e\<lparr>ae_q := ae_q e @ [d]\<rparr>) (u\<lparr>arpq_free := arpq_free u - 1\<rparr>)"
      have tab: "arp_table ?t = ?T[i := ?e]" by (simp add: set_entry_def n(5))
      have qu: "queued ?t = queued s + 1"
        using queued_update [of i ?T ?e] assms(3) T(1) unfolding queued_def tab by simp
      have b: "balanced s ?t" using qu False T(2) by (simp add: balanced_def set_entry_def n(5))
      have eo: "entry_ok ?e" using arp_entry_ok [OF assms(1,3)] assms(4) qo by (simp add: entry_ok_def)
      have fr: "arp_frame_only s ?t" "tx_ok ?t" "tx_queue ?t = tx_queue s"
        using assms(2) by (simp_all add: set_entry_def n(5) tx_ok_def tx_queue_def tx_slots_def arp_frame_only_def rx_queue_def rx_slots_def rx_ok_def)
      have "arp_ok ?t"
        by (rule arp_ok_table [OF assms(1,3) eo _ _ tab _ _ b])
          (use assms(1) in \<open>simp_all add: live_def set_entry_def n(5) arp_ok_def\<close>)
      moreover have "queue_packet r i q s = Inr (ERR_OK, ?t)"
        using al n(1,5) d(1) fd False by (simp add: queue_packet_def Let_def)
      moreover have "arpq_free ?t + 1 = arpq_free s" using False by (simp add: set_entry_def n(5))
      ultimately show ?thesis using b fr tab bytes by blast
    qed
  qed
qed

lemma find_entry_try:
  assumes "arp_ok s"
  shows "\<exists>i u. find_entry ip True False s = (Some i, u) \<and> i < ARP_TABLE_SIZE \<and> arp_ok u \<and> balanced s u \<and> arp_frame_only s u
    \<and> tx_ok u = tx_ok s \<and> tx_queue u = tx_queue s \<and> arpq_free s \<le> arpq_free u \<and> ae_ipaddr (arp_table u ! i) = ip
    \<and> (if knows ip (arp_table s) then arp_table u = arp_table s \<and> live (arp_table s ! i)
       else arp_table u = (arp_table s)[i := fresh_entry ip (arp_table s ! i)] \<and> least_loss (arp_table s) i)"
proof (cases "knows ip (arp_table s)")
  case True
  then obtain i where i: "i < ARP_TABLE_SIZE" "live (arp_table s ! i)" "ae_ipaddr (arp_table s ! i) = ip" by (auto simp: knows_def)
  let ?u = "s\<lparr>etharp_cached_entry := i\<rparr>"
  have "arp_ok ?u" using assms i(1) by (simp add: arp_ok_def queued_def)
  moreover have "balanced s ?u" "arp_frame_only s ?u" "tx_ok ?u = tx_ok s" "tx_queue ?u = tx_queue s"
    by (simp_all add: balanced_def queued_def arp_frame_only_def rx_queue_def rx_slots_def rx_ok_def tx_ok_def tx_queue_def tx_slots_def)
  ultimately show ?thesis using True i find_entry_hit [OF assms i, of True False] by (intro exI [of _ i] exI [of _ ?u]) simp
next
  case False
  then have nk: "\<forall>j<ARP_TABLE_SIZE. live (arp_table s ! j) \<longrightarrow> ae_ipaddr (arp_table s ! j) \<noteq> ip" by (auto simp: knows_def)
  obtain i R A u where f: "find_entry ip True False s = (Some i, u)" "least_loss (arp_table s) i" "arp_ok u" "balanced s u"
    and ue: "u = s\<lparr>ram_live := R, arpq_free := A, arp_table := (arp_table s)[i := fresh_entry ip (arp_table s ! i)], etharp_cached_entry := i\<rparr>"
    using find_entry_new [OF assms nk, of True] unfolding Let_def by blast
  have i: "i < ARP_TABLE_SIZE" "length (arp_table s) = ARP_TABLE_SIZE" using f(2) assms by (simp_all add: least_loss_def arp_ok_def)
  have "queued u \<le> queued s"
    using queued_update [of i "arp_table s" "fresh_entry ip (arp_table s ! i)"] i unfolding queued_def by (simp add: ue fresh_entry_def)
  then have "arpq_free s \<le> arpq_free u" using f(4) unfolding balanced_def by linarith
  moreover have "arp_frame_only s u" "tx_ok u = tx_ok s" "tx_queue u = tx_queue s"
    by (simp_all add: ue arp_frame_only_def rx_queue_def rx_slots_def rx_ok_def tx_ok_def tx_queue_def tx_slots_def)
  moreover have "arp_table u = (arp_table s)[i := fresh_entry ip (arp_table s ! i)]" by (simp add: ue)
  moreover have "ae_ipaddr (arp_table u ! i) = ip" using i by (simp add: ue fresh_entry_def)
  ultimately show ?thesis using False f i(1) by (intro exI [of _ i] exI [of _ u]) (simp only: if_False simp_thms)
qed

lemma packet_bounds: "packet_ok q \<Longrightarrow> chain_ok q \<and> q \<noteq> [] \<and> 14 \<le> unat (p_len (hd q)) \<and> length (chain_bytes q) \<le> 1514"
  by (simp add: packet_ok_def)

lemma etharp_query_stable:
  assumes "arp_ok s" "tx_ok s" "unicast ip (netif s)" "i < ARP_TABLE_SIZE" "is_stable (arp_table s ! i)" "ae_ipaddr (arp_table s ! i) = ip"
    and "packet_ok q"
  shows "\<exists>t. etharp_query ip q s = Inr (ERR_OK, t) \<and> arp_ok t \<and> tx_ok t \<and> arp_frame_only s t \<and> balanced s t \<and> arp_table t = arp_table s
    \<and> (length (tx_queue s) < 2 \<longrightarrow> tx_queue t = tx_queue s
         @ [eth_frame (ae_ethaddr (arp_table s ! i)) (nif_hwaddr (netif s)) 0x0800 (drop 14 (chain_bytes q))])"
proof -
  let ?u = "s\<lparr>etharp_cached_entry := i\<rparr>"
  have lv: "live (arp_table s ! i)" using assms(5) by (simp add: live_def)
  have f: "find_entry ip True False s = (Some i, ?u)" by (rule find_entry_hit [OF assms(1,4) lv assms(6)])
  have u: "tx_ok ?u" "tx_queue ?u = tx_queue s" "arp_frame_only s ?u" "balanced s ?u"
    using assms(2) by (simp_all add: tx_ok_def tx_queue_def tx_slots_def arp_frame_only_def balanced_def queued_def rx_queue_def rx_slots_def rx_ok_def)
  have ok: "arp_ok ?u" using assms(1,4) by (simp add: arp_ok_def queued_def)
  have len: "length (nif_hwaddr (netif s)) = 6" "length (ae_ethaddr (arp_table s ! i)) = 6"
    using assms(1,5) arp_entry_ok [OF assms(1,4)] by (simp_all add: arp_ok_def entry_ok_def)
  note p = packet_bounds [OF assms(7)]
  obtain t where t: "etharp_send_ip q (nif_hwaddr (netif s)) (ae_ethaddr (arp_table s ! i)) ?u = Inr (ERR_OK, t)" "tx_only ?u t" "tx_ok t"
    "length (tx_queue ?u) < 2 \<longrightarrow> tx_queue t = tx_queue ?u @ [eth_frame (ae_ethaddr (arp_table s ! i)) (nif_hwaddr (netif s)) 0x0800 (drop 14 (chain_bytes q))]"
    using etharp_send_ip_frame [OF u(1) _ _ _ _ len] p by blast
  note tu = tx_only_arp [OF t(2)]
  have "etharp_query ip q s = Inr (ERR_OK, t)"
    using assms(3,5) f t(1) by (simp add: etharp_query_def unicast_def Let_def)
  moreover have "arp_ok t" "arp_table t = arp_table s" using tu ok by simp_all
  moreover have "arp_frame_only s t" using u(3) tu(4) by (rule arp_frame_trans)
  moreover have "balanced s t" using u(4) tu(5) by (rule balanced_trans)
  ultimately show ?thesis using t(3,4) u(2) by metis
qed

definition waiting_for :: "u32 \<Rightarrow> etharp_entry list \<Rightarrow> chain list" where
  "waiting_for ip T = concat (map ae_q (filter (\<lambda>e. ae_state e = ETHARP_STATE_PENDING \<and> ae_ipaddr e = ip) T))"

definition arp_request :: "netif \<Rightarrow> u32 \<Rightarrow> u8 list" where
  "arp_request nif ip = arp_frame ethbroadcast (nif_hwaddr nif) 1 (nif_hwaddr nif) (nif_ip_addr nif) ethzero ip"

text \<open>For an address without a stable entry the packet is queued behind the packets already waiting for it and a request goes out.\<close>

lemma etharp_query_pending:
  assumes "arp_ok s" "tx_ok s" "unicast ip (netif s)" "packet_ok q"
    and "\<forall>j<ARP_TABLE_SIZE. \<not> (is_stable (arp_table s ! j) \<and> ae_ipaddr (arp_table s ! j) = ip)"
  shows "\<exists>e t i x. etharp_query ip q s = Inr (e, t) \<and> arp_ok t \<and> tx_ok t \<and> arp_frame_only s t \<and> balanced s t \<and> i < ARP_TABLE_SIZE
    \<and> ae_state (arp_table t ! i) = ETHARP_STATE_PENDING \<and> ae_ipaddr (arp_table t ! i) = ip
    \<and> ae_q (arp_table t ! i) = (if knows ip (arp_table s) then ae_q (arp_table s ! i) else []) @ x
    \<and> (if knows ip (arp_table s) then live (arp_table s ! i) \<and> ae_ipaddr (arp_table s ! i) = ip else least_loss (arp_table s) i)
    \<and> (heap_grants s \<and> 0 < arpq_free s \<longrightarrow> e = ERR_OK \<and> (\<exists>p. x = [p] \<and> chain_bytes p = chain_bytes q)
         \<and> (length (tx_queue s) < 2 \<longrightarrow> tx_queue t = tx_queue s @ [arp_request (netif s) ip]))"
proof -
  have T: "length (arp_table s) = ARP_TABLE_SIZE" using assms(1) by (simp add: arp_ok_def)
  obtain i u where u: "find_entry ip True False s = (Some i, u)" "i < ARP_TABLE_SIZE" "arp_ok u" "balanced s u" "arp_frame_only s u"
    "tx_ok u = tx_ok s" "tx_queue u = tx_queue s" "arpq_free s \<le> arpq_free u" "ae_ipaddr (arp_table u ! i) = ip"
    "if knows ip (arp_table s) then arp_table u = arp_table s \<and> live (arp_table s ! i)
       else arp_table u = (arp_table s)[i := fresh_entry ip (arp_table s ! i)] \<and> least_loss (arp_table s) i"
    using find_entry_try [OF assms(1)] by blast
  let ?e = "(arp_table u ! i)\<lparr>ae_state := ETHARP_STATE_PENDING\<rparr>"
  define v where "v = (if ae_state (arp_table u ! i) = ETHARP_STATE_EMPTY then set_entry i (\<lambda>e. e\<lparr>ae_state := ETHARP_STATE_PENDING\<rparr>) u else u)"
  have lu: "length (arp_table u) = ARP_TABLE_SIZE" using u(3) by (simp add: arp_ok_def)
  have v: "arp_ok v \<and> balanced s v \<and> arp_frame_only s v \<and> tx_ok v \<and> tx_queue v = tx_queue s \<and> arpq_free v = arpq_free u
      \<and> ae_state (arp_table v ! i) = ETHARP_STATE_PENDING \<and> ae_ipaddr (arp_table v ! i) = ip \<and> heap_grants v = heap_grants s
      \<and> ae_q (arp_table v ! i) = (if knows ip (arp_table s) then ae_q (arp_table s ! i) else [])"
  proof (cases "knows ip (arp_table s)")
    case True
    then have same: "arp_table u = arp_table s" "live (arp_table s ! i)" using u(10) by simp_all
    then have "ae_state (arp_table s ! i) = ETHARP_STATE_PENDING"
      using assms(5) u(2,9) by (cases "ae_state (arp_table s ! i)") (auto simp: live_def)
    then show ?thesis using same u assms(2) True by (simp add: v_def heap_grants_def arp_frame_only_def)
  next
    case False
    then have tab: "arp_table u = (arp_table s)[i := fresh_entry ip (arp_table s ! i)]" using u(10) by simp
    then have ui: "arp_table u ! i = fresh_entry ip (arp_table s ! i)" using u(2) T by simp
    then have vd: "v = set_entry i (\<lambda>e. e\<lparr>ae_state := ETHARP_STATE_PENDING\<rparr>) u" by (simp add: v_def fresh_entry_def)
    have tv: "arp_table v = (arp_table s)[i := (fresh_entry ip (arp_table s ! i))\<lparr>ae_state := ETHARP_STATE_PENDING\<rparr>]"
      using u(2) T by (simp add: vd set_entry_def tab)
    have "queued v = queued u"
      using queued_update [of i "arp_table s" "(fresh_entry ip (arp_table s ! i))\<lparr>ae_state := ETHARP_STATE_PENDING\<rparr>"]
        queued_update [of i "arp_table s" "fresh_entry ip (arp_table s ! i)"] u(2) T unfolding queued_def tv tab
      by (simp add: fresh_entry_def)
    moreover have k: "ram_live v = ram_live u" "arpq_free v = arpq_free u" "netif v = netif u" "etharp_cached_entry v = etharp_cached_entry u"
      by (simp_all add: vd set_entry_def)
    ultimately have b: "balanced s v" "queued v \<le> ram_live v" using u(3,4) by (simp_all add: balanced_def arp_ok_def)
    have "one_each (arp_table v)" unfolding tv
      using assms(1) u(2) False T by (intro one_each_update) (auto simp: arp_ok_def knows_def fresh_entry_def)
    moreover have "list_all entry_ok (arp_table v)" unfolding tv
      using assms(1) by (intro entries_update) (simp_all add: arp_ok_def entry_ok_def fresh_entry_def)
    ultimately have ok: "arp_ok v" using b(2) u(3) k T tv by (simp add: arp_ok_def)
    have fr: "arp_frame_only u v" "tx_ok v = tx_ok u" "tx_queue v = tx_queue u"
      by (simp_all add: vd set_entry_def arp_frame_only_def rx_queue_def rx_slots_def rx_ok_def tx_ok_def tx_queue_def tx_slots_def)
    have "arp_frame_only s v" using u(5) fr(1) by (rule arp_frame_trans)
    then show ?thesis
      using ok b(1) fr(2,3) u(2,6,7) assms(2) False T by (simp add: k(2) tv fresh_entry_def heap_grants_def arp_frame_only_def)
  qed
  have vi: "ae_state (arp_table v ! i) = ETHARP_STATE_PENDING" "arp_ok v" "tx_ok v" "netif v = netif s" "heap_grants v = heap_grants s"
    "tx_queue v = tx_queue s" using v by (simp_all add: arp_frame_only_def)
  obtain e t where req: "etharp_request ip v = Inr (e, t)" "tx_ok t" "arp_ok t" "arp_frame_only v t" "balanced v t"
    "arp_table t = arp_table v" "arpq_free t = arpq_free v"
    "heap_grants v \<longrightarrow> e = ERR_OK \<and> (length (tx_queue v) < 2 \<longrightarrow> tx_queue t = tx_queue v @ [arp_request (netif v) ip])"
    using etharp_request_frame [OF vi(2,3), of ip] unfolding arp_request_def by blast
  have ti: "ae_state (arp_table t ! i) = ETHARP_STATE_PENDING" using req(6) vi(1) by simp
  obtain e' w x where qp: "queue_packet e i q t = Inr (e', w)" "arp_ok w" "tx_ok w" "tx_queue w = tx_queue t" "arp_frame_only t w" "balanced t w"
    "arp_table w = (arp_table t)[i := (arp_table t ! i)\<lparr>ae_q := ae_q (arp_table t ! i) @ x\<rparr>]"
    "heap_grants t \<and> 0 < arpq_free t \<longrightarrow> e' = ERR_OK \<and> arpq_free w + 1 = arpq_free t \<and> (\<exists>p. x = [p] \<and> chain_bytes p = chain_bytes q)"
    using queue_packet_spec [OF req(3,2) u(2) ti assms(4)] by blast
  have "etharp_query ip q s = Inr (e', w)"
    using assms(3) u(1) vi(1) req(1) qp(1) by (simp add: etharp_query_def unicast_def Let_def flip: v_def)
  moreover have "arp_frame_only s w" using v req(4) qp(5) arp_frame_trans by blast
  moreover have "balanced s w" using v req(5) qp(6) balanced_trans by blast
  moreover have lt: "length (arp_table t) = ARP_TABLE_SIZE" using req(3) by (simp add: arp_ok_def)
  moreover have "arp_table w ! i = (arp_table v ! i)\<lparr>ae_q := ae_q (arp_table v ! i) @ x\<rparr>" using qp(7) req(6) u(2) lt by simp
  then have "ae_state (arp_table w ! i) = ETHARP_STATE_PENDING" "ae_ipaddr (arp_table w ! i) = ip"
    "ae_q (arp_table w ! i) = (if knows ip (arp_table s) then ae_q (arp_table s ! i) else []) @ x" using v by simp_all
  moreover have "if knows ip (arp_table s) then live (arp_table s ! i) \<and> ae_ipaddr (arp_table s ! i) = ip else least_loss (arp_table s) i"
    using u(9,10) by (auto split: if_splits)
  moreover have "heap_grants t = heap_grants s" using req(4) vi(5) by (simp add: heap_grants_def arp_frame_only_def)
  moreover have "0 < arpq_free s \<longrightarrow> 0 < arpq_free t" using u(8) v req(7) by simp
  ultimately show ?thesis
    using qp(2-4,8) req(8) vi(4-6) u(2) by (intro exI [of _ e'] exI [of _ w] exI [of _ i] exI [of _ x]) simp
qed

section \<open>Ageing\<close>

definition aged :: "etharp_entry \<Rightarrow> etharp_entry" where
  "aged e = (let e = e\<lparr>ae_ctime := ae_ctime e + 1\<rparr> in
     if ae_state e = ETHARP_STATE_STABLE \<and> ae_ctime e \<ge> ARP_MAXAGE \<or> ae_state e = ETHARP_STATE_PENDING \<and> ae_ctime e \<ge> ARP_MAXPENDING
     then e\<lparr>ae_q := [], ae_state := ETHARP_STATE_EMPTY\<rparr> else e)"

lemma tmr_entry_spec:
  assumes "arp_ok s" "tx_ok s" "i < ARP_TABLE_SIZE"
  shows "arp_ok (tmr_entry i s) \<and> tx_ok (tmr_entry i s) \<and> tx_queue (tmr_entry i s) = tx_queue s \<and> arp_frame_only s (tmr_entry i s)
    \<and> balanced s (tmr_entry i s) \<and> arp_table (tmr_entry i s) = (arp_table s)[i := aged (arp_table s ! i)]"
proof -
  let ?T = "arp_table s" and ?t = "tmr_entry i s"
  let ?e = "(?T ! i)\<lparr>ae_ctime := ae_ctime (?T ! i) + 1\<rparr>"
  have T: "length ?T = ARP_TABLE_SIZE" using assms(1) by (simp add: arp_ok_def)
  have eo: "entry_ok (?T ! i)" by (rule arp_entry_ok [OF assms(1,3)])
  let ?old = "ae_state ?e = ETHARP_STATE_STABLE \<and> ae_ctime ?e \<ge> ARP_MAXAGE \<or> ae_state ?e = ETHARP_STATE_PENDING \<and> ae_ctime ?e \<ge> ARP_MAXPENDING"
  have f: "free_etharp_q (ae_q (?T ! i)) u = u\<lparr>ram_live := ram_live u - length (ae_q (?T ! i)), arpq_free := arpq_free u + length (ae_q (?T ! i))\<rparr>" for u :: "'a arp_st_scheme"
    using eo by (intro free_etharp_q_queued) (simp add: entry_ok_def)
  have eq: "?t = (if ?old then s\<lparr>ram_live := ram_live s - length (ae_q (?T ! i)), arpq_free := arpq_free s + length (ae_q (?T ! i)),
      arp_table := ?T[i := aged (?T ! i)]\<rparr> else s\<lparr>arp_table := ?T[i := aged (?T ! i)]\<rparr>)"
    using assms(3) T by (simp add: tmr_entry_def Let_def set_entry_def aged_def f)
  have tab: "arp_table ?t = ?T[i := aged (?T ! i)]" unfolding eq by simp
  have q: "queued ?t + length (ae_q (?T ! i)) = queued s + length (ae_q (aged (?T ! i)))"
    using queued_update [of i ?T "aged (?T ! i)"] assms(3) T unfolding queued_def tab by simp
  have "balanced s ?t"
  proof (cases ?old)
    case True
    then have "ae_q (aged (?T ! i)) = []" by (simp add: aged_def)
    then show ?thesis using q assms(1) True unfolding balanced_def by (auto simp: eq arp_ok_def)
  next
    case False
    then have "ae_q (aged (?T ! i)) = ae_q (?T ! i)" by (auto simp: aged_def Let_def)
    then show ?thesis using q False unfolding balanced_def by (auto simp: eq)
  qed
  moreover have ao: "entry_ok (aged (?T ! i))" "ae_ipaddr (aged (?T ! i)) = ae_ipaddr (?T ! i)" "live (aged (?T ! i)) \<Longrightarrow> live (?T ! i)"
    using eo by (auto simp: aged_def Let_def entry_ok_def live_def split: if_splits)
  moreover have fr: "arp_frame_only s ?t" "tx_ok ?t = tx_ok s" "tx_queue ?t = tx_queue s" "etharp_cached_entry ?t = etharp_cached_entry s"
    unfolding eq by (simp_all add: arp_frame_only_def rx_queue_def rx_slots_def rx_ok_def tx_ok_def tx_queue_def tx_slots_def)
  moreover have "arp_ok ?t"
    by (rule arp_ok_table [OF assms(1,3) ao tab])
      (use calculation assms(1) in \<open>simp_all add: arp_frame_only_def arp_ok_def\<close>)
  ultimately show ?thesis using assms(2) tab by simp
qed

lemma etharp_tmr_spec:
  assumes "arp_ok s" "tx_ok s"
  shows "arp_ok (etharp_tmr s) \<and> tx_ok (etharp_tmr s) \<and> tx_queue (etharp_tmr s) = tx_queue s \<and> arp_frame_only s (etharp_tmr s)
    \<and> balanced s (etharp_tmr s) \<and> arp_table (etharp_tmr s) = map aged (arp_table s)"
proof -
  have T: "length (arp_table s) = ARP_TABLE_SIZE" using assms(1) by (simp add: arp_ok_def)
  have "let t = fold tmr_entry [0..<n] s in arp_ok t \<and> tx_ok t \<and> tx_queue t = tx_queue s \<and> arp_frame_only s t
      \<and> balanced s t \<and> arp_table t = map aged (take n (arp_table s)) @ drop n (arp_table s)" if "n \<le> ARP_TABLE_SIZE" for n
    using that
  proof (induction n)
    case (Suc n)
    let ?t = "fold tmr_entry [0..<n] s"
    have t: "arp_ok ?t" "tx_ok ?t" "tx_queue ?t = tx_queue s" "arp_frame_only s ?t" "balanced s ?t"
      "arp_table ?t = map aged (take n (arp_table s)) @ drop n (arp_table s)" using Suc by (simp_all add: Let_def)
    have n: "n < ARP_TABLE_SIZE" using Suc.prems by simp
    note sp = tmr_entry_spec [OF t(1,2) n]
    have "(map aged (take n (arp_table s)) @ drop n (arp_table s))[n := aged (arp_table s ! n)]
        = map aged (take (Suc n) (arp_table s)) @ drop (Suc n) (arp_table s)"
      using n T by (simp add: list_update_append take_Suc_conv_app_nth Cons_nth_drop_Suc [symmetric])
    moreover have "arp_table ?t ! n = arp_table s ! n" using n T unfolding t(6) by (simp add: nth_append)
    ultimately show ?case using sp t arp_frame_trans balanced_trans by (auto simp: Let_def)
  qed (simp add: assms)
  from this [of ARP_TABLE_SIZE] show ?thesis unfolding etharp_tmr_def using T by (simp add: Let_def)
qed

text \<open>How long an entry lives that is not refreshed.\<close>

lemma aged_empty: "\<not> live e \<Longrightarrow> \<not> live ((aged ^^ n) e)"
  by (induction n) (auto simp: aged_def Let_def live_def)

lemma aged_dead: "\<not> live ((aged ^^ k) e) \<Longrightarrow> k \<le> n \<Longrightarrow> \<not> live ((aged ^^ n) e)"
proof -
  assume a: "\<not> live ((aged ^^ k) e)" "k \<le> n"
  have "(aged ^^ n) e = (aged ^^ (n - k)) ((aged ^^ k) e)" using funpow_add [of "n - k" k aged] a(2) by simp
  then show ?thesis using aged_empty [OF a(1)] by simp
qed

lemma next_age: "unat a < 240 \<Longrightarrow> unat (a + 1 :: u8) = unat a + 1"
  by (subst unat_add_lem [THEN iffD1]) simp_all

lemma aged_steps:
  "is_stable e \<Longrightarrow> unat (ae_ctime e) + 1 < 240 \<Longrightarrow> is_stable (aged e) \<and> unat (ae_ctime (aged e)) = unat (ae_ctime e) + 1
     \<and> ae_ipaddr (aged e) = ae_ipaddr e \<and> ae_ethaddr (aged e) = ae_ethaddr e"
  "is_stable e \<Longrightarrow> unat (ae_ctime e) = 239 \<Longrightarrow> \<not> live (aged e)"
  "ae_state e = ETHARP_STATE_PENDING \<Longrightarrow> ae_ctime e = 0 \<Longrightarrow> ae_state (aged e) = ETHARP_STATE_PENDING \<and> ae_ctime (aged e) = 1 \<and> ae_q (aged e) = ae_q e"
  "ae_state e = ETHARP_STATE_PENDING \<Longrightarrow> ae_ctime e = 1 \<Longrightarrow> \<not> live (aged e)"
  by (simp_all add: aged_def Let_def live_def word_le_nat_alt next_age)

text \<open>A stable entry that is not refreshed is used for 239 ticks, a pending one for one tick.\<close>

lemma stable_lifetime:
  assumes "is_stable e" "ae_ctime e = 0"
  shows "if n < 240 then is_stable ((aged ^^ n) e) \<and> ae_ipaddr ((aged ^^ n) e) = ae_ipaddr e \<and> ae_ethaddr ((aged ^^ n) e) = ae_ethaddr e
    else \<not> live ((aged ^^ n) e)"
proof -
  have s: "is_stable ((aged ^^ n) e) \<and> unat (ae_ctime ((aged ^^ n) e)) = n \<and> ae_ipaddr ((aged ^^ n) e) = ae_ipaddr e
      \<and> ae_ethaddr ((aged ^^ n) e) = ae_ethaddr e" if "n < 240" for n
    using that
  proof (induction n)
    case (Suc n)
    then show ?case using aged_steps(1) [of "(aged ^^ n) e"] by simp
  qed (use assms in simp)
  have "\<not> live ((aged ^^ 240) e)"
    using s [of 239] aged_steps(2) [of "(aged ^^ 239) e"] funpow.simps(2) [of 239 aged] by simp
  then have "240 \<le> n \<Longrightarrow> \<not> live ((aged ^^ n) e)" by (rule aged_dead)
  then show ?thesis using s [of n] by (simp add: not_less)
qed

lemma pending_lifetime:
  assumes "ae_state e = ETHARP_STATE_PENDING" "ae_ctime e = 0"
  shows "ae_state (aged e) = ETHARP_STATE_PENDING \<and> ae_q (aged e) = ae_q e \<and> (2 \<le> n \<longrightarrow> \<not> live ((aged ^^ n) e))"
proof -
  note one = aged_steps(3) [OF assms]
  have "\<not> live (aged (aged e))" using aged_steps(4) one by blast
  then have "\<not> live ((aged ^^ 2) e)" by (simp add: numeral_2_eq_2)
  then show ?thesis using one aged_dead by blast
qed

section \<open>Input\<close>

lemma of_be16_bytes [simp]: "of_be16 (be16 w @ rest) = w"
  by (simp add: of_be16_def be16_def)

lemma ip_of_bytes [simp]: "ip_of (ip_bytes a @ rest) = a" "ip_of (ip_bytes a) = a"
  using mk32_byte_of32 [of a] by (simp_all add: ip_of_def ip_bytes_def)

lemma arp_fields:
  assumes "length dst = 6" "length src = 6" "length shw = 6" "length dhw = 6"
  shows "of_be16 (drop 12 (arp_frame dst src opc shw sip dhw dip)) = 0x0806" "of_be16 (drop 14 (arp_frame dst src opc shw sip dhw dip)) = 1"
    "of_be16 (drop 16 (arp_frame dst src opc shw sip dhw dip)) = 0x0800" "of_be16 (drop 18 (arp_frame dst src opc shw sip dhw dip)) = 0x0604"
    "of_be16 (drop 20 (arp_frame dst src opc shw sip dhw dip)) = opc" "take 6 (drop 22 (arp_frame dst src opc shw sip dhw dip)) = shw"
    "ip_of (drop 28 (arp_frame dst src opc shw sip dhw dip)) = sip" "ip_of (drop 38 (arp_frame dst src opc shw sip dhw dip)) = dip"
  using assms by (simp_all add: arp_frame_def)

definition directed :: "u32 \<Rightarrow> netif \<Rightarrow> bool" where
  "directed ip nif \<longleftrightarrow> nif_ip_addr nif \<noteq> 0 \<and> ip = nif_ip_addr nif"

lemma etharp_arp_input_eq:
  assumes "chain_ok (q # qs)" "42 \<le> unat (p_len q)" "take 42 (pbytes q) = arp_frame dst src opc shw sip dhw dip"
    and "length dst = 6" "length src = 6" "length shw = 6" "length dhw = 6"
  shows "etharp_arp_input hw (q # qs) s =
    and_then (update_arp_entry sip shw (directed dip (netif s)) s) (\<lambda>(_, t).
      and_then
        (if opc = 1 \<and> directed dip (netif s) then
           and_then (write_at q 0 (arp_frame shw hw 2 hw (nif_ip_addr (netif t)) shw sip)) (\<lambda>q.
           and_then (low_level_output (q # qs) t) (\<lambda>(_, t). Inr t))
         else Inr t)
        (\<lambda>t. Inr (pbuf_free (q # qs) t)))"
proof -
  have r: "read_at q 0 42 = Inr (arp_frame dst src opc shw sip dhw dip)"
    using read_at_pbytes [of q 0 42] assms(1-3) by simp
  have p: "\<not> p_len q < 42" using assms(2) by (simp add: word_less_nat_alt)
  show ?thesis
    using r p by (simp add: etharp_arp_input_def Let_def arp_fields [OF assms(4-7)] directed_def)
qed

lemma dma_transmit_arp:
  "arp_table (dma_transmit s) = arp_table s" "arp_ok (dma_transmit s) = arp_ok s" "balanced s (dma_transmit s)"
  "netif (dma_transmit s) = netif s" "heap_grants (dma_transmit s) = heap_grants s" "arp_st.more (dma_transmit s) = arp_st.more s"
  "rx_queue (dma_transmit s) = rx_queue s" "rx_ok (dma_transmit s) = rx_ok s" "pool_free (dma_transmit s) = pool_free s"
  by (simp_all add: dma_transmit_def Let_def arp_ok_def queued_def balanced_def heap_grants_def rx_queue_def rx_slots_def rx_ok_def)

lemma free_node_eq:
  "\<exists>a b c. free_node p s = s\<lparr>pool_free := a, ram_live := b, ref_free := c\<rparr>"
  by (rule exI [of _ "pool_free (free_node p s)"], rule exI [of _ "ram_live (free_node p s)"], rule exI [of _ "ref_free (free_node p s)"])
    (cases "p_type p"; simp add: free_node_def)

lemma pbuf_free_eq: "\<exists>a b c. pbuf_free p s = s\<lparr>pool_free := a, ram_live := b, ref_free := c\<rparr>"
proof (induction p arbitrary: s)
  case Nil
  have "s = s\<lparr>pool_free := pool_free s, ram_live := ram_live s, ref_free := ref_free s\<rparr>" by simp
  then show ?case unfolding pbuf_free.simps by blast
next
  case (Cons q qs)
  obtain a b c where f: "free_node q s = s\<lparr>pool_free := a, ram_live := b, ref_free := c\<rparr>" using free_node_eq by blast
  obtain a' b' c' where "pbuf_free qs (free_node q s) = (free_node q s)\<lparr>pool_free := a', ram_live := b', ref_free := c'\<rparr>" using Cons.IH by blast
  then show ?case unfolding pbuf_free.simps f by auto
qed

lemma pbuf_free_eth:
  "arp_table (pbuf_free c s) = arp_table s" "tx_ok (pbuf_free c s) = tx_ok s" "tx_queue (pbuf_free c s) = tx_queue s"
  "netif (pbuf_free c s) = netif s" "wire (pbuf_free c s) = wire s" "rx_queue (pbuf_free c s) = rx_queue s" "rx_ok (pbuf_free c s) = rx_ok s"
  "arp_st.more (pbuf_free c s) = arp_st.more s" "etharp_cached_entry (pbuf_free c s) = etharp_cached_entry s" "arpq_free (pbuf_free c s) = arpq_free s"
proof -
  obtain x y z where e: "pbuf_free c s = s\<lparr>pool_free := x, ram_live := y, ref_free := z\<rparr>" using pbuf_free_eq by blast
  show "arp_table (pbuf_free c s) = arp_table s" "tx_ok (pbuf_free c s) = tx_ok s" "tx_queue (pbuf_free c s) = tx_queue s"
    "netif (pbuf_free c s) = netif s" "wire (pbuf_free c s) = wire s" "rx_queue (pbuf_free c s) = rx_queue s" "rx_ok (pbuf_free c s) = rx_ok s"
    "arp_st.more (pbuf_free c s) = arp_st.more s" "etharp_cached_entry (pbuf_free c s) = etharp_cached_entry s" "arpq_free (pbuf_free c s) = arpq_free s"
    unfolding e by (simp_all add: tx_ok_def tx_queue_def tx_slots_def rx_queue_def rx_slots_def rx_ok_def)
qed

text \<open>Every packet that lwIP hands to \<open>etharp_arp_input\<close> is consumed, and the table stays sound.\<close>

lemma etharp_arp_input_safe:
  assumes "arp_ok s" "tx_ok s" "pool_frame c n" "n \<le> ETH_MAX_PACKET_SIZE"
  shows "\<exists>t. etharp_arp_input (nif_hwaddr (netif s)) c s = Inr (pbuf_free c t) \<and> arp_ok t \<and> tx_ok t \<and> arp_frame_only s t \<and> balanced s t"
proof -
  obtain q qs where c: "c = q # qs" using assms(3) by (cases c) (auto simp: pool_frame_def)
  have "chain_ok c" "length (chain_bytes c) \<le> ETH_MAX_PACKET_SIZE" using assms(3,4) by (simp_all add: pool_frame_def)
  then have ch: "chain_ok (q # qs)" "length (chain_bytes (q # qs)) \<le> ETH_MAX_PACKET_SIZE" unfolding c .
  show ?thesis
  proof (cases "p_len q < 42")
    case True
    then show ?thesis using assms(1,2) by (intro exI [of _ s]) (simp add: etharp_arp_input_def c)
  next
    case False
    then have l: "0 + 42 \<le> unat (p_len q)" by (simp add: word_less_nat_alt)
    have nq: "node_ok q" using ch(1) by simp
    obtain hdr where h: "hdr = take 42 (pbytes q)" by blast
    have r: "read_at q 0 42 = Inr hdr" using read_at_pbytes [OF nq l] h by simp
    have lh: "length hdr = 42" using h l nq by simp
    let ?bad = "of_be16 (drop 14 hdr) \<noteq> 1 \<or> of_be16 (drop 18 hdr) \<noteq> 0x0604 \<or> of_be16 (drop 16 hdr) \<noteq> 0x0800 \<or> of_be16 (drop 12 hdr) \<noteq> 0x0806"
    show ?thesis
    proof (cases ?bad)
      case True
      then show ?thesis using assms(1,2) False r by (intro exI [of _ s]) (auto simp: etharp_arp_input_def c)
    next
      case good: False
      let ?sip = "ip_of (drop 28 hdr)" and ?dip = "ip_of (drop 38 hdr)" and ?shw = "take 6 (drop 22 hdr)"
      have ls: "length ?shw = 6" using lh by simp
      obtain e t where t: "update_arp_entry ?sip ?shw (directed ?dip (netif s)) s = Inr (e, t)" "arp_ok t" "tx_ok t" "arp_frame_only s t" "balanced s t"
        using update_arp_entry_safe [OF assms(1,2) ls] by blast
      let ?rep = "arp_frame ?shw (nif_hwaddr (netif s)) 2 (nif_hwaddr (netif s)) (nif_ip_addr (netif t)) ?shw ?sip"
      have lr: "length ?rep = 42" using length_arp_frame ls assms(1) by (simp add: arp_ok_def)
      obtain w where w: "write_at q 0 ?rep = Inr w" "chain_ok (w # qs)" "chain_bytes (w # qs) = ?rep @ drop 42 (chain_bytes (q # qs))"
        using write_header [OF ch(1), of ?rep] l lr by auto
      have lw: "length (chain_bytes (w # qs)) \<le> ETH_MAX_PACKET_SIZE" using w(3) lr ch l nq by simp
      obtain u where u: "low_level_output (w # qs) t = Inr (ERR_OK, u)" "tx_only t u" "tx_ok u"
        using low_level_output_any [OF t(3) w(2) lw] by blast
      note tu = tx_only_arp [OF u(2)]
      have d: "(if nif_ip_addr (netif s) = 0 then False else ?dip = nif_ip_addr (netif s)) = directed ?dip (netif s)"
        by (simp add: directed_def)
      have eq: "etharp_arp_input (nif_hwaddr (netif s)) c s = Inr (pbuf_free c (if of_be16 (drop 20 hdr) = 1 \<and> directed ?dip (netif s) then u else t))"
        using w(1) u(1) unfolding etharp_arp_input_def c list.case r and_then.simps Let_def d
        by (simp only: False good if_False t(1) and_then.simps prod.case) (simp split: if_split)
      have "arp_ok u" "arp_frame_only s u" "balanced s u"
        using tu t arp_frame_trans balanced_trans by blast+
      then show ?thesis using eq t u(3) by (cases "of_be16 (drop 20 hdr) = 1 \<and> directed ?dip (netif s)") auto
    qed
  qed
qed

lemma etharp_ip_input_safe:
  assumes "arp_ok s" "tx_ok s" "pool_frame c n"
  shows "\<exists>t. etharp_ip_input c s = Inr t \<and> arp_ok t \<and> tx_ok t \<and> arp_frame_only s t \<and> balanced s t"
proof -
  obtain q qs where c: "c = q # qs" using assms(3) by (cases c) (auto simp: pool_frame_def)
  have m: "p_payload q = 0" "length (p_mem q) = 1500" using assms(3) c by (simp_all add: pool_frame_def)
  obtain src eth where r: "read_at q 26 4 = Inr src" "read_at q 6 6 = Inr eth" "length eth = 6"
    using m by (simp add: read_at_def)
  show ?thesis
  proof (cases "ip_addr_netcmp (ip_of src) (nif_ip_addr (netif s)) (nif_netmask (netif s))")
    case True
    obtain e t where "update_arp_entry (ip_of src) eth False s = Inr (e, t)" "arp_ok t" "tx_ok t" "arp_frame_only s t" "balanced s t"
      using update_arp_entry_safe [OF assms(1,2) r(3)] by blast
    then show ?thesis using True r by (simp add: etharp_ip_input_def c)
  next
    case False
    then show ?thesis using r assms(1,2) by (simp add: etharp_ip_input_def c)
  qed
qed

section \<open>Output\<close>

text \<open>A packet of the IP layer, with room for the Ethernet header in front.\<close>

definition ip_packet :: "chain \<Rightarrow> bool" where
  "ip_packet q \<longleftrightarrow> q \<noteq> [] \<and> chain_ok q \<and> no_gaps q \<and> (p_type (hd q) = PBUF_RAM \<or> p_type (hd q) = PBUF_POOL)
     \<and> 14 \<le> p_payload (hd q) \<and> length (chain_bytes q) \<le> 1500"

lemma ip_packet_header:
  assumes "ip_packet q"
  shows "\<exists>r. pbuf_header q 14 = Some r \<and> packet_ok r \<and> drop 14 (chain_bytes r) = chain_bytes q"
proof -
  obtain f fs where q: "q = f # fs" using assms by (cases q) (auto simp: ip_packet_def)
  have p: "chain_ok (f # fs)" "no_gaps (f # fs)" "p_type f = PBUF_RAM \<or> p_type f = PBUF_POOL" "14 \<le> p_payload f" "length (chain_bytes (f # fs)) \<le> 1500"
    using assms unfolding ip_packet_def q list.sel by blast+
  have tot: "unat (p_tot_len f) = length (chain_bytes (f # fs))" by (rule chain_tot_len [OF p(1)])
  have lt: "unat (p_tot_len f) + 14 < 65536" using tot p(5) by simp
  obtain r where r: "pbuf_header (f # fs) (int 14) = Some (r # fs)" "chain_ok (r # fs)"
    "chain_bytes (r # fs) = take 14 (drop (p_payload f - 14) (p_mem f)) @ chain_bytes (f # fs)" "p_type r = p_type f"
    "unat (p_len r) = unat (p_len f) + 14"
    using pbuf_header_reveal [OF p(1,4,3) lt] by blast
  have "p_payload f + unat (p_len f) \<le> length (p_mem f)" using p(1) by (simp add: node_ok_def)
  then have l: "length (take 14 (drop (p_payload f - 14) (p_mem f))) = 14" using p(4) by simp
  have "no_gaps (r # fs)" using p(2) by (simp add: no_gaps_def)
  moreover have "length (chain_bytes (r # fs)) \<le> 1514" unfolding r(3) length_append l using p(5) by simp
  ultimately have "packet_ok (r # fs)" using r(2,4,5) p(3) by (auto simp: packet_ok_def simp del: chain_ok.simps chain_bytes_simps)
  moreover have "drop 14 (chain_bytes (r # fs)) = chain_bytes (f # fs)" unfolding r(3) using l by simp
  ultimately show ?thesis using r(1) q by auto
qed

text \<open>The host a packet for \<open>ip\<close> is sent to: \<open>ip\<close> itself on the own network, otherwise the gateway.\<close>

definition next_hop :: "u32 \<Rightarrow> netif \<Rightarrow> u32" where
  "next_hop ip nif = (if ip_addr_netcmp ip (nif_ip_addr nif) (nif_netmask nif) then ip else nif_gw nif)"

lemma etharp_output_query:
  assumes "ip_packet q" "\<not> ip_addr_isbroadcast ip (netif s)" "\<not> ip_addr_ismulticast ip" "nif_gw (netif s) \<noteq> 0"
  shows "\<exists>r. etharp_output q ip s = etharp_query (next_hop ip (netif s)) r s \<and> packet_ok r \<and> drop 14 (chain_bytes r) = chain_bytes q"
  using ip_packet_header [OF assms(1)] assms(2-4) by (auto simp: etharp_output_def Let_def next_hop_def)

lemma etharp_query_safe:
  assumes "arp_ok s" "tx_ok s" "packet_ok q"
  shows "\<exists>e t. etharp_query ip q s = Inr (e, t) \<and> arp_ok t \<and> tx_ok t \<and> arp_frame_only s t \<and> balanced s t"
proof (cases "unicast ip (netif s)")
  case True
  show ?thesis
  proof (cases "\<exists>j<ARP_TABLE_SIZE. is_stable (arp_table s ! j) \<and> ae_ipaddr (arp_table s ! j) = ip")
    case st: True
    then obtain j where j: "j < ARP_TABLE_SIZE" "is_stable (arp_table s ! j)" "ae_ipaddr (arp_table s ! j) = ip" by blast
    show ?thesis using etharp_query_stable [OF assms(1,2) True j assms(3)] by blast
  next
    case False
    then show ?thesis using etharp_query_pending [OF assms(1,2) True assms(3)] by blast
  qed
next
  case False
  then have "etharp_query ip q s = Inr (ERR_ARG, s)" by (auto simp: etharp_query_def unicast_def)
  then show ?thesis using assms(1,2) by simp
qed

lemma etharp_output_safe:
  assumes "arp_ok s" "tx_ok s" "ip_packet q"
  shows "\<exists>e t. etharp_output q ip s = Inr (e, t) \<and> arp_ok t \<and> tx_ok t \<and> arp_frame_only s t \<and> balanced s t"
proof -
  obtain r where r: "pbuf_header q 14 = Some r" "packet_ok r" "drop 14 (chain_bytes r) = chain_bytes q"
    using ip_packet_header [OF assms(3)] by blast
  note rb = packet_bounds [OF r(2)]
  have hw: "length (nif_hwaddr (netif s)) = 6" using assms(1) by (simp add: arp_ok_def)
  have send: "\<exists>e t. etharp_send_ip r (nif_hwaddr (netif s)) dst s = Inr (e, t) \<and> arp_ok t \<and> tx_ok t \<and> arp_frame_only s t \<and> balanced s t"
    if "length dst = 6" for dst
    using etharp_send_ip_frame [OF assms(2) _ _ _ _ hw that, of r] rb tx_only_arp [of s] assms(1) by metis
  have m: "length [1, 0, 0x5E, byte_of32 ip 1 AND 0x7F, byte_of32 ip 2, byte_of32 ip 3] = 6" "length ethbroadcast = 6" by simp_all
  consider "ip_addr_isbroadcast ip (netif s)" | "\<not> ip_addr_isbroadcast ip (netif s)" "ip_addr_ismulticast ip"
    | "\<not> ip_addr_isbroadcast ip (netif s)" "\<not> ip_addr_ismulticast ip" by blast
  then show ?thesis
  proof cases
    case 1
    then show ?thesis using send [OF m(2)] r(1) by (simp add: etharp_output_def)
  next
    case 2
    then show ?thesis using send [OF m(1)] r(1) unfolding etharp_output_def by (simp only: option.case Let_def if_False if_True)
  next
    case 3
    have q: "\<exists>e t. etharp_query ip' r s = Inr (e, t) \<and> arp_ok t \<and> tx_ok t \<and> arp_frame_only s t \<and> balanced s t" for ip'
      by (rule etharp_query_safe [OF assms(1,2) r(2)])
    show ?thesis using 3 r(1) q [of ip] q [of "nif_gw (netif s)"] assms(1,2)
      by (cases "ip_addr_netcmp ip (nif_ip_addr (netif s)) (nif_netmask (netif s))"; cases "nif_gw (netif s) = 0")
        (simp_all add: etharp_output_def Let_def)
  qed
qed

section \<open>Resolution and answers\<close>

text \<open>C16: A packet for a host whose address is unknown is not lost: a broadcast request for the address
  goes out, the packet waits, and when the host answers, the packet is sent to the hardware address in
  the answer, with the Ethernet header in front and the same bytes after it; the address is then
  known.\<close>

theorem arp_resolution:
  assumes "arp_ok s" "tx_ok s" "tx_queue s = []" "heap_grants s" "0 < arpq_free s"
    and "unicast ip (netif s)" "\<not> knows ip (arp_table s)" "packet_ok q"
    and "chain_ok (r # rs)" "42 \<le> unat (p_len r)" "length mac = 6" "length dst = 6" "length dhw = 6"
    and "take 42 (pbytes r) = arp_frame dst mac 2 mac ip dhw dip"
  shows "\<exists>t u i. etharp_query ip q s = Inr (ERR_OK, t) \<and> tx_queue t = [arp_request (netif s) ip]
    \<and> etharp_arp_input (nif_hwaddr (netif s)) (r # rs) (dma_transmit t) = Inr u \<and> wire u = wire s @ [arp_request (netif s) ip]
    \<and> tx_queue u = [eth_frame mac (nif_hwaddr (netif s)) 0x0800 (drop 14 (chain_bytes q))]
    \<and> i < ARP_TABLE_SIZE \<and> arp_table u ! i = \<lparr>ae_q = [], ae_ipaddr = ip, ae_ethaddr = mac, ae_state = ETHARP_STATE_STABLE, ae_ctime = 0\<rparr>"
proof -
  have ns: "\<forall>j<ARP_TABLE_SIZE. \<not> (is_stable (arp_table s ! j) \<and> ae_ipaddr (arp_table s ! j) = ip)"
    using assms(7) by (auto simp: knows_def live_def)
  obtain e t i x where t0: "etharp_query ip q s = Inr (e, t)" "arp_ok t" "tx_ok t" "arp_frame_only s t" "i < ARP_TABLE_SIZE"
    "ae_state (arp_table t ! i) = ETHARP_STATE_PENDING" "ae_ipaddr (arp_table t ! i) = ip" "ae_q (arp_table t ! i) = [] @ x"
    "heap_grants s \<and> 0 < arpq_free s \<longrightarrow> e = ERR_OK \<and> (\<exists>p. x = [p] \<and> chain_bytes p = chain_bytes q)
         \<and> (length (tx_queue s) < 2 \<longrightarrow> tx_queue t = tx_queue s @ [arp_request (netif s) ip])"
    using etharp_query_pending [OF assms(1,2,6,8) ns] assms(7) by (simp only: if_False) blast
  obtain p where t: "e = ERR_OK" "x = [p]" "chain_bytes p = chain_bytes q" "tx_queue t = [arp_request (netif s) ip]"
    using t0(9) assms(3-5) by auto
  let ?d = "dma_transmit t"
  note d = dma_transmit_frame [OF t0(3) t(4)]
  note da = dma_transmit_arp [of t]
  have nt: "netif t = netif s" "wire t = wire s" using t0(4) by (simp_all add: arp_frame_only_def)
  have di: "arp_ok ?d" "unicast ip (netif ?d)" "live (arp_table ?d ! i)" "ae_ipaddr (arp_table ?d ! i) = ip" "ae_q (arp_table ?d ! i) = [p]"
    using t0(2,6-8) t(2) da nt assms(6) by (simp_all add: live_def)
  have df: "tx_ok ?d" "wire ?d = wire s @ [arp_request (netif s) ip]" "tx_queue ?d = []" "netif ?d = netif s"
    using d da(4) nt by simp_all
  obtain v where v: "update_arp_entry ip mac (directed dip (netif ?d)) ?d = Inr (ERR_OK, v)" "arp_frame_only ?d v"
    "arp_table v = (arp_table ?d)[i := resolved mac (arp_table ?d ! i)]"
    "length (tx_queue ?d) + length (ae_q (arp_table ?d ! i)) \<le> 2 \<longrightarrow> tx_queue v = tx_queue ?d
         @ map (\<lambda>p. eth_frame mac (nif_hwaddr (netif ?d)) 0x0800 (drop 14 (chain_bytes p))) (ae_q (arp_table ?d ! i))"
    using update_arp_entry_hit [OF di(1) df(1) di(2) t0(5) di(3,4) assms(11)] by blast
  have "etharp_arp_input (nif_hwaddr (netif s)) (r # rs) ?d = Inr (pbuf_free (r # rs) v)"
    using etharp_arp_input_eq [OF assms(9,10,14,12,11,11,13), of "nif_hwaddr (netif s)" ?d] v(1) by simp
  moreover have "tx_queue v = [eth_frame mac (nif_hwaddr (netif s)) 0x0800 (drop 14 (chain_bytes q))]"
    using v(4) di(5) df(3,4) t(3) by simp
  moreover have "wire v = wire s @ [arp_request (netif s) ip]" using v(2) df(2) by (simp add: arp_frame_only_def)
  moreover have "length (arp_table ?d) = ARP_TABLE_SIZE" using di(1) by (simp add: arp_ok_def)
  then have "arp_table v ! i = \<lparr>ae_q = [], ae_ipaddr = ip, ae_ethaddr = mac, ae_state = ETHARP_STATE_STABLE, ae_ctime = 0\<rparr>"
    using v(3) t0(5) di(4) by (cases "arp_table ?d ! i") (simp add: resolved_def)
  ultimately show ?thesis
    using t0(1,5) t(1,4) by (intro exI [of _ t] exI [of _ "pbuf_free (r # rs) v"] exI [of _ i]) (simp add: pbuf_free_eth del: pbuf_free.simps)
qed

text \<open>A request for the address of the interface is answered to the host that asked, with the request's
  addresses swapped and the own hardware address filled in, and the host's address is learned.\<close>

theorem arp_request_answered:
  assumes "arp_ok s" "tx_ok s" "tx_queue s = []" "unicast ip (netif s)" "\<not> knows ip (arp_table s)" "nif_ip_addr (netif s) \<noteq> 0"
    and "chain_ok (r # rs)" "42 \<le> unat (p_len r)" "length (chain_bytes (r # rs)) \<le> ETH_MAX_PACKET_SIZE"
    and "length mac = 6" "length dst = 6" "length dhw = 6"
    and "take 42 (pbytes r) = arp_frame dst mac 1 mac ip dhw (nif_ip_addr (netif s))"
  shows "\<exists>u i. etharp_arp_input (nif_hwaddr (netif s)) (r # rs) s = Inr u
    \<and> tx_queue u = [arp_frame mac (nif_hwaddr (netif s)) 2 (nif_hwaddr (netif s)) (nif_ip_addr (netif s)) mac ip @ drop 42 (chain_bytes (r # rs))]
    \<and> i < ARP_TABLE_SIZE \<and> least_loss (arp_table s) i
    \<and> arp_table u ! i = \<lparr>ae_q = [], ae_ipaddr = ip, ae_ethaddr = mac, ae_state = ETHARP_STATE_STABLE, ae_ctime = 0\<rparr>"
proof -
  let ?hw = "nif_hwaddr (netif s)"
  have d: "directed (nif_ip_addr (netif s)) (netif s)" using assms(6) by (simp add: directed_def)
  obtain i v where v: "update_arp_entry ip mac True s = Inr (ERR_OK, v)" "least_loss (arp_table s) i" "arp_ok v" "tx_ok v"
    "arp_frame_only s v" "arp_table v = (arp_table s)[i := resolved mac (fresh_entry ip (arp_table s ! i))]" "tx_queue v = tx_queue s"
    using update_arp_entry_new [OF assms(1,2,4,5,10), of True] by auto
  let ?rep = "arp_frame mac ?hw 2 ?hw (nif_ip_addr (netif s)) mac ip"
  have hw: "length ?hw = 6" "length (arp_table s) = ARP_TABLE_SIZE" using assms(1) by (simp_all add: arp_ok_def)
  have lr: "length ?rep = 42" using length_arp_frame hw(1) assms(10) by simp
  obtain w where w: "write_at r 0 ?rep = Inr w" "chain_ok (w # rs)" "chain_bytes (w # rs) = ?rep @ drop 42 (chain_bytes (r # rs))"
    using write_header [OF assms(7), of ?rep] assms(8) lr by auto
  have "42 \<le> length (chain_bytes (r # rs))" using assms(7,8) by simp
  then have lw: "length (chain_bytes (w # rs)) \<le> ETH_MAX_PACKET_SIZE"
    unfolding w(3) length_append length_drop lr using assms(9) by linarith
  obtain u where u: "low_level_output (w # rs) v = Inr (ERR_OK, u)" "tx_only v u" "tx_queue u = [chain_bytes (w # rs)]"
    using low_level_output_any [OF v(4) w(2) lw] v(7) assms(3) by auto
  have nv: "netif v = netif s" using v(5) by (simp add: arp_frame_only_def)
  have "etharp_arp_input ?hw (r # rs) s = Inr (pbuf_free (r # rs) u)"
    using etharp_arp_input_eq [OF assms(7,8,13,11,10,10,12), of ?hw s] d v(1) nv w(1) u(1) by simp
  moreover have "i < ARP_TABLE_SIZE" using v(2) by (simp add: least_loss_def)
  moreover have "arp_table u ! i = \<lparr>ae_q = [], ae_ipaddr = ip, ae_ethaddr = mac, ae_state = ETHARP_STATE_STABLE, ae_ctime = 0\<rparr>"
    using v(6) tx_only_arp(1) [OF u(2)] calculation(2) hw(2)
    by (cases "arp_table s ! i") (simp add: resolved_def fresh_entry_def)
  ultimately show ?thesis
    using v(2) u(3) w(3) by (intro exI [of _ "pbuf_free (r # rs) u"] exI [of _ i]) (simp add: pbuf_free_eth del: pbuf_free.simps chain_bytes_simps)
qed

section \<open>Witnesses\<close>

text \<open>An interface just initialised with the address of the firmware, an empty table and full pools.\<close>

definition arp_demo :: arp_st where
  "arp_demo = low_level_init \<lparr>pool_free = 10, ref_free = 100, arpq_free = 30, ram_live = 0, requests = 0,
     ram_ok = \<lambda>_ _. True, junk = \<lambda>_ _. 0, MACaddr = [2, 0, 0, 0, 0, 100],
     netif = \<lparr>nif_ip_addr = 0x640AA8C0, nif_netmask = 0x00FFFFFF, nif_gw = 0x010AA8C0, nif_hwaddr = [], nif_mtu = 0, nif_flags = 0\<rparr>,
     DMARxDscrTab = [], DMATxDscrTab = [], Rx_Buff = replicate 4 (replicate 1520 0), Tx_Buff = replicate 2 (replicate 1520 0),
     DMARxDescToGet = 0, DMATxDescToSet = 0, DMASR = 0, dma_rx = 0, dma_tx = 0, wire = [],
     arp_table = replicate 10 \<lparr>ae_q = [], ae_ipaddr = 0, ae_ethaddr = ethzero, ae_state = ETHARP_STATE_EMPTY, ae_ctime = 0\<rparr>,
     etharp_cached_entry = 0\<rparr>"

lemma arp_demo_fields:
  "netif arp_demo = \<lparr>nif_ip_addr = 0x640AA8C0, nif_netmask = 0x00FFFFFF, nif_gw = 0x010AA8C0, nif_hwaddr = [2, 0, 0, 0, 0, 100],
     nif_mtu = 1500, nif_flags = 0x32\<rparr>"
  "arp_table arp_demo = replicate 10 \<lparr>ae_q = [], ae_ipaddr = 0, ae_ethaddr = ethzero, ae_state = ETHARP_STATE_EMPTY, ae_ctime = 0\<rparr>"
  "etharp_cached_entry arp_demo = 0" "ram_live arp_demo = 0" "pool_free arp_demo = 10" "arpq_free arp_demo = 30"
  "ram_ok arp_demo = (\<lambda>_ _. True)" "wire arp_demo = []"
  by (simp_all add: arp_demo_def low_level_init_def Let_def ETH_DMATxDescChainInit_def ETH_DMARxDescChainInit_def)

lemma arp_demo_ok:
  "arp_ok arp_demo" "tx_ok arp_demo" "rx_ok arp_demo" "tx_queue arp_demo = []" "rx_queue arp_demo = []" "heap_grants arp_demo"
proof -
  have b: "buffers n (replicate n (replicate ETH_MAX_PACKET_SIZE 0))" for n by (simp add: buffers_def)
  have "eth_ok arp_demo \<and> rx_queue arp_demo = [] \<and> tx_queue arp_demo = []"
    unfolding arp_demo_def by (rule low_level_init_ok) (simp_all only: mem_st.simps eth_st.simps b)
  then show "tx_ok arp_demo" "rx_ok arp_demo" "tx_queue arp_demo = []" "rx_queue arp_demo = []"
    by (simp_all add: eth_ok_def)
  have T: "length (arp_table arp_demo) = 10" "\<And>i. i < 10 \<Longrightarrow> ae_state (arp_table arp_demo ! i) = ETHARP_STATE_EMPTY \<and> ae_q (arp_table arp_demo ! i) = []"
    unfolding arp_demo_fields(2) by simp_all
  have "queued arp_demo = 0" by (simp add: queued_def arp_demo_fields(2) map_replicate_const sum_list_replicate)
  moreover have "one_each (arp_table arp_demo)" using T by (simp add: one_each_def live_def)
  moreover have "list_all entry_ok (arp_table arp_demo)" using T by (simp add: list_all_length entry_ok_def)
  ultimately show "arp_ok arp_demo" using T(1) arp_demo_fields(1,3) by (simp add: arp_ok_def)
  show "heap_grants arp_demo" by (simp add: heap_grants_def arp_demo_fields(7))
qed

text \<open>A packet of one structure.\<close>

definition one_node :: "u8 list \<Rightarrow> chain" where
  "one_node bs = [\<lparr>p_type = PBUF_RAM, p_mem = bs, p_payload = 0, p_len = of_nat (length bs), p_tot_len = of_nat (length bs)\<rparr>]"

lemma arp_demo_unknown: "\<not> knows ip (arp_table arp_demo)"
  by (auto simp: knows_def live_def arp_demo_fields(2))

lemma arp_demo_unicast: "unicast 0x0D0AA8C0 (netif arp_demo)"
  by (simp add: unicast_def ip_addr_isbroadcast_def ip_addr_netcmp_def ip_addr_ismulticast_def arp_demo_fields(1))

theorem arp_resolution_witness:
  "\<exists>t u i. etharp_query 0x0D0AA8C0 (one_node (replicate 60 7)) arp_demo = Inr (ERR_OK, t)
     \<and> etharp_arp_input [2, 0, 0, 0, 0, 100] (one_node (arp_frame [2, 0, 0, 0, 0, 100] [2, 0, 0, 0, 0, 13] 2
           [2, 0, 0, 0, 0, 13] 0x0D0AA8C0 [2, 0, 0, 0, 0, 100] 0x640AA8C0)) (dma_transmit t) = Inr u
     \<and> wire u = [arp_request (netif arp_demo) 0x0D0AA8C0]
     \<and> tx_queue u = [eth_frame [2, 0, 0, 0, 0, 13] [2, 0, 0, 0, 0, 100] 0x0800 (replicate 46 7)]
     \<and> ae_ethaddr (arp_table u ! i) = [2, 0, 0, 0, 0, 13]"
proof -
  let ?a = "arp_frame [2, 0, 0, 0, 0, 100] [2, 0, 0, 0, 0, 13] 2 [2, 0, 0, 0, 0, 13] 0x0D0AA8C0 [2, 0, 0, 0, 0, 100] 0x640AA8C0"
  obtain r where r: "one_node ?a = [r]" by (simp add: one_node_def)
  have l: "length ?a = 42" by (simp add: arp_frame_def)
  have rp: "chain_ok [r]" "42 \<le> unat (p_len r)" "take 42 (pbytes r) = ?a"
    using r l by (auto simp: one_node_def node_ok_def pbytes_def unat_of_nat take_bit_nat_def)
  have q: "packet_ok (one_node (replicate 60 7))"
    by (simp add: packet_ok_def one_node_def node_ok_def no_gaps_def chain_bytes_def pbytes_def)
  have b: "drop 14 (chain_bytes (one_node (replicate 60 7))) = replicate 46 7"
    by (simp add: one_node_def chain_bytes_def pbytes_def)
  have f: "0 < arpq_free arp_demo" by (simp add: arp_demo_fields(6))
  have l6: "length [2, 0, 0, 0, 0, a :: u8] = 6" for a by simp
  obtain t u i where "etharp_query 0x0D0AA8C0 (one_node (replicate 60 7)) arp_demo = Inr (ERR_OK, t)"
    "etharp_arp_input (nif_hwaddr (netif arp_demo)) [r] (dma_transmit t) = Inr u" "wire u = wire arp_demo @ [arp_request (netif arp_demo) 0x0D0AA8C0]"
    "tx_queue u = [eth_frame [2, 0, 0, 0, 0, 13] (nif_hwaddr (netif arp_demo)) 0x0800 (replicate 46 7)]"
    "arp_table u ! i = \<lparr>ae_q = [], ae_ipaddr = 0x0D0AA8C0, ae_ethaddr = [2, 0, 0, 0, 0, 13], ae_state = ETHARP_STATE_STABLE, ae_ctime = 0\<rparr>"
    using arp_resolution [OF arp_demo_ok(1,2,4,6) f arp_demo_unicast arp_demo_unknown q rp(1,2) l6 l6 l6 rp(3)]
    unfolding b by blast
  then show ?thesis using arp_demo_fields(1,8) r by (intro exI [of _ t] exI [of _ u] exI [of _ i]) simp
qed

theorem arp_request_answered_witness:
  "\<exists>u. etharp_arp_input [2, 0, 0, 0, 0, 100]
       (one_node (arp_frame ethbroadcast [2, 0, 0, 0, 0, 13] 1 [2, 0, 0, 0, 0, 13] 0x0D0AA8C0 ethzero 0x640AA8C0)) arp_demo = Inr u
     \<and> tx_queue u = [arp_frame [2, 0, 0, 0, 0, 13] [2, 0, 0, 0, 0, 100] 2 [2, 0, 0, 0, 0, 100] 0x640AA8C0 [2, 0, 0, 0, 0, 13] 0x0D0AA8C0]"
proof -
  let ?a = "arp_frame ethbroadcast [2, 0, 0, 0, 0, 13] 1 [2, 0, 0, 0, 0, 13] 0x0D0AA8C0 ethzero 0x640AA8C0"
  obtain r where r: "one_node ?a = [r]" by (simp add: one_node_def)
  have l: "length ?a = 42" by (simp add: arp_frame_def)
  have rp: "chain_ok [r]" "42 \<le> unat (p_len r)" "pbytes r = ?a" "chain_bytes [r] = ?a"
    using r l by (auto simp: one_node_def node_ok_def pbytes_def chain_bytes_def)
  have n: "nif_ip_addr (netif arp_demo) = 0x640AA8C0" "nif_hwaddr (netif arp_demo) = [2, 0, 0, 0, 0, 100]"
    by (simp_all add: arp_demo_fields(1))
  have t: "take 42 (pbytes r) = arp_frame ethbroadcast [2, 0, 0, 0, 0, 13] 1 [2, 0, 0, 0, 0, 13] 0x0D0AA8C0 ethzero (nif_ip_addr (netif arp_demo))"
    unfolding n rp(3) using l by simp
  have lc: "length (chain_bytes [r]) \<le> ETH_MAX_PACKET_SIZE" unfolding rp(4) l by simp
  show ?thesis
    using arp_request_answered [OF arp_demo_ok(1,2,4) arp_demo_unicast arp_demo_unknown _ rp(1,2) lc _ _ _ t] n r rp(4) l by auto
qed

text \<open>C20: When both frames of the ring wait for the DMA, sending a packet still reports success: its bytes overwrite the frame
  that goes out next, whose length stays.\<close>

theorem full_ring_overwrites:
  assumes "tx_ok s" "chain_ok p" "length (chain_bytes p) \<le> ETH_MAX_PACKET_SIZE" "tx_queue s = [f, g]"
  shows "\<exists>t. low_level_output p s = Inr (ERR_OK, t) \<and> tx_ok t
    \<and> tx_queue t = [take (length f) (chain_bytes p) @ drop (length (chain_bytes p)) f, g]"
  using low_level_output_full [OF assms] by blast

theorem full_ring_overwrites_witness:
  "\<exists>(s :: arp_st) t. tx_queue s = [[1, 2, 3], [4]] \<and> low_level_output (one_node [7, 8]) s = Inr (ERR_OK, t)
     \<and> tx_queue t = [[7, 8, 3], [4]]"
proof -
  have n: "chain_ok (one_node bs)" "chain_bytes (one_node bs) = bs" if "length bs \<le> 3" for bs
    using that by (simp_all add: one_node_def node_ok_def pbytes_def unat_of_nat take_bit_nat_def)
  have p: "chain_ok (one_node [1, 2, 3])" "chain_bytes (one_node [1, 2, 3]) = [1, 2, 3]" "chain_ok (one_node [4])" "chain_bytes (one_node [4]) = [4]"
    "chain_ok (one_node [7, 8])" "chain_bytes (one_node [7, 8]) = [7, 8]"
    by (rule n; simp)+
  obtain a :: arp_st where a: "tx_ok a" "tx_queue a = [[1, 2, 3]]"
    using low_level_output_room [OF arp_demo_ok(2) p(1)] arp_demo_ok(4) unfolding p(2) by auto
  obtain b :: arp_st where b: "tx_ok b" "tx_queue b = [[1, 2, 3], [4]]"
    using low_level_output_room [OF a(1) p(3)] a(2) unfolding p(4) by auto
  show ?thesis using full_ring_overwrites [OF b(1) p(5) _ b(2)] b(2) unfolding p(6) by fastforce
qed

end
