(* ===== verification/Ip.thy ===== *)
theory Ip
  imports Etharp
begin

text \<open>
  \<open>netif.c\<close> and the sending half of \<open>ip.c\<close>: the interface, the route, the IP header and the handover to
  \<open>etharp_output\<close>. The firmware has one interface, so that \<open>netif_list\<close> and \<open>netif_default\<close> are flags.
  Checksums are left to the hardware (\<open>CHECKSUM_BY_HARDWARE\<close>), options are not sent.
\<close>

section \<open>State\<close>

text \<open>\<open>nif_listed\<close> says whether \<open>netif_list\<close> holds the interface, \<open>nif_loop\<close> whether its \<open>next\<close> points
  to itself (it was added twice), \<open>nif_default\<close> whether it is \<open>netif_default\<close>. \<open>ip_id\<close> is the static
  variable of \<open>ip_output_if\<close>.\<close>

record ip_st = arp_st +
  ip_id :: u16
  nif_listed :: bool
  nif_loop :: bool
  nif_default :: bool

text \<open>Fragmentation, reassembly and TCP are called through this record; \<open>IpFrag\<close> and \<open>Reass\<close> give the first two,
  TCP is not modelled. \<open>p\<close> is owned by the caller of \<open>call_ip_frag\<close> and given away to \<open>call_ip_reass\<close> and \<open>call_tcp_input\<close>.\<close>

record 's others =
  call_ip_frag :: "chain \<Rightarrow> u32 \<Rightarrow> 's \<Rightarrow> (err \<times> 's) result"
  call_ip_reass :: "chain \<Rightarrow> 's \<Rightarrow> (chain option \<times> 's) result"
  call_tcp_input :: "chain \<Rightarrow> 's \<Rightarrow> 's result"

text \<open>An instance that drops what it is given.\<close>

definition drop_others :: "'a mem_st_scheme others" where
  "drop_others = \<lparr>call_ip_frag = (\<lambda>p ip s. Inr (ERR_MEM, s)), call_ip_reass = (\<lambda>p s. Inr (None, pbuf_free p s)), call_tcp_input = (\<lambda>p s. Inr (pbuf_free p s))\<rparr>"

section \<open>The interface\<close>

text \<open>No TCP connection exists when the address is set, so that none is aborted.\<close>

definition netif_set_ipaddr :: "u32 \<Rightarrow> 'a ip_st_scheme \<Rightarrow> 'a ip_st_scheme" where
  "netif_set_ipaddr ipaddr s = s\<lparr>netif := (netif s)\<lparr>nif_ip_addr := ipaddr\<rparr>\<rparr>"

definition netif_set_netmask :: "u32 \<Rightarrow> 'a ip_st_scheme \<Rightarrow> 'a ip_st_scheme" where
  "netif_set_netmask netmask s = s\<lparr>netif := (netif s)\<lparr>nif_netmask := netmask\<rparr>\<rparr>"

definition netif_set_gw :: "u32 \<Rightarrow> 'a ip_st_scheme \<Rightarrow> 'a ip_st_scheme" where
  "netif_set_gw gw s = s\<lparr>netif := (netif s)\<lparr>nif_gw := gw\<rparr>\<rparr>"

definition netif_set_addr :: "u32 \<Rightarrow> u32 \<Rightarrow> u32 \<Rightarrow> 'a ip_st_scheme \<Rightarrow> 'a ip_st_scheme" where
  "netif_set_addr ipaddr netmask gw s = netif_set_gw gw (netif_set_netmask netmask (netif_set_ipaddr ipaddr s))"

definition netif_add :: "u32 \<Rightarrow> u32 \<Rightarrow> u32 \<Rightarrow> 'a ip_st_scheme \<Rightarrow> bool \<times> 'a ip_st_scheme" where
  "netif_add ipaddr netmask gw s =
     (let s = s\<lparr>netif := (netif s)\<lparr>nif_ip_addr := 0, nif_netmask := 0, nif_gw := 0, nif_flags := 0\<rparr>\<rparr>;
          s = netif_set_addr ipaddr netmask gw s;
          (e, s) = ethernetif_init s
      in if e \<noteq> ERR_OK then (False, s) else (True, s\<lparr>nif_loop := nif_listed s, nif_listed := True\<rparr>))"

definition netif_set_default :: "'a ip_st_scheme \<Rightarrow> 'a ip_st_scheme" where
  "netif_set_default s = s\<lparr>nif_default := True\<rparr>"

definition netif_set_up :: "'a ip_st_scheme \<Rightarrow> 'a ip_st_scheme result" where
  "netif_set_up s =
     (if nif_flags (netif s) AND NETIF_FLAG_UP = 0 then
        let s = s\<lparr>netif := (netif s)\<lparr>nif_flags := nif_flags (netif s) OR NETIF_FLAG_UP\<rparr>\<rparr> in
        if nif_flags (netif s) AND NETIF_FLAG_ETHARP \<noteq> 0
        then and_then (etharp_request (nif_ip_addr (netif s)) s) (\<lambda>(_, s). Inr s)
        else Inr s
      else Inr s)"

definition netif_set_down :: "'a ip_st_scheme \<Rightarrow> 'a ip_st_scheme" where
  "netif_set_down s =
     (if nif_flags (netif s) AND NETIF_FLAG_UP \<noteq> 0
      then s\<lparr>netif := (netif s)\<lparr>nif_flags := nif_flags (netif s) AND NOT NETIF_FLAG_UP\<rparr>\<rparr> else s)"

definition netif_is_up :: "'a eth_st_scheme \<Rightarrow> bool" where
  "netif_is_up s \<longleftrightarrow> nif_flags (netif s) AND NETIF_FLAG_UP \<noteq> 0"

section \<open>Output\<close>

text \<open>Whether \<open>ip_route\<close> finds the interface. A list that is a circle is searched for ever.\<close>

definition ip_route :: "u32 \<Rightarrow> 'a ip_st_scheme \<Rightarrow> bool result" where
  "ip_route dest s =
     (if nif_listed s \<and> netif_is_up s \<and> ip_addr_netcmp dest (nif_ip_addr (netif s)) (nif_netmask (netif s)) then Inr True
      else if nif_listed s \<and> nif_loop s then Inl Hang
      else if \<not> nif_default s \<or> \<not> netif_is_up s then Inr False
      else Inr True)"

text \<open>\<open>struct ip_hdr\<close> without options; the checksum field is 0 because the hardware fills it in.\<close>

definition ip_header :: "u8 \<Rightarrow> u16 \<Rightarrow> u16 \<Rightarrow> u8 \<Rightarrow> u8 \<Rightarrow> u32 \<Rightarrow> u32 \<Rightarrow> u8 list" where
  "ip_header tos len i ttl proto src dest =
     [0x45, tos] @ be16 len @ be16 i @ be16 0 @ [ttl, proto] @ be16 0 @ ip_bytes src @ ip_bytes dest"

text \<open>The end of \<open>ip_output_if\<close>.\<close>

definition ip_transmit :: "'a ip_st_scheme others \<Rightarrow> chain \<Rightarrow> u32 \<Rightarrow> 'a ip_st_scheme \<Rightarrow> (err \<times> 'a ip_st_scheme) result" where
  "ip_transmit ot p dest s =
     (if nif_mtu (netif s) \<noteq> 0 \<and> nif_mtu (netif s) < p_tot_len (hd p) then call_ip_frag ot p dest s else etharp_output p dest s)"

text \<open>\<open>dest\<close> is \<open>None\<close> for \<open>IP_HDRINCL\<close>. An address that is null is 0.\<close>

definition ip_output_if ::
  "'a ip_st_scheme others \<Rightarrow> chain \<Rightarrow> u32 \<Rightarrow> u32 option \<Rightarrow> u8 \<Rightarrow> u8 \<Rightarrow> u8 \<Rightarrow> 'a ip_st_scheme \<Rightarrow> (err \<times> 'a ip_st_scheme) result" where
  "ip_output_if ot p src dest ttl tos proto s = (case dest of
      Some dest \<Rightarrow>
        (case pbuf_header p 20 of
           None \<Rightarrow> Inr (ERR_BUF, s)
         | Some [] \<Rightarrow> Inl Undefined
         | Some (q # qs) \<Rightarrow>
             let src = (if src = 0 then nif_ip_addr (netif s) else src) in
             and_then (write_at q 0 (ip_header tos (p_tot_len q) (ip_id s) ttl proto src dest)) (\<lambda>q.
               ip_transmit ot (q # qs) dest (s\<lparr>ip_id := ip_id s + 1\<rparr>)))
    | None \<Rightarrow>
        (case p of
           [] \<Rightarrow> Inl Undefined
         | q # qs \<Rightarrow> and_then (read_at q 16 4) (\<lambda>bs. ip_transmit ot p (ip_of bs) s)))"

definition ip_output ::
  "'a ip_st_scheme others \<Rightarrow> chain \<Rightarrow> u32 \<Rightarrow> u32 \<Rightarrow> u8 \<Rightarrow> u8 \<Rightarrow> u8 \<Rightarrow> 'a ip_st_scheme \<Rightarrow> (err \<times> 'a ip_st_scheme) result" where
  "ip_output ot p src dest ttl tos proto s =
     and_then (ip_route dest s) (\<lambda>found. if found then ip_output_if ot p src (Some dest) ttl tos proto s else Inr (ERR_RTE, s))"

section \<open>Headers\<close>

text \<open>A packet with room for \<open>k\<close> more bytes in front.\<close>

definition room :: "nat \<Rightarrow> chain \<Rightarrow> bool" where
  "room k q \<longleftrightarrow> q \<noteq> [] \<and> chain_ok q \<and> no_gaps q \<and> (p_type (hd q) = PBUF_RAM \<or> p_type (hd q) = PBUF_POOL) \<and> k \<le> p_payload (hd q)"

lemma ip_packet_room: "ip_packet q \<longleftrightarrow> room 14 q \<and> length (chain_bytes q) \<le> 1500"
  by (auto simp: ip_packet_def room_def)

lemma room_mono: "room k q \<Longrightarrow> j \<le> k \<Longrightarrow> room j q"
  by (auto simp: room_def)

lemma push_header:
  assumes "room (n + k) q" "length (chain_bytes q) + n < 65536"
  shows "\<exists>f fs. pbuf_header q (int n) = Some (f # fs) \<and> unat (p_tot_len f) = length (chain_bytes q) + n
    \<and> (\<forall>h. length h = n \<longrightarrow> (\<exists>g. write_at f 0 h = Inr g \<and> room k (g # fs) \<and> chain_bytes (g # fs) = h @ chain_bytes q
         \<and> p_tot_len g = p_tot_len f \<and> map p_type (g # fs) = map p_type q))"
proof -
  obtain p ps where q: "q = p # ps" using assms(1) by (cases q) (auto simp: room_def)
  have p: "chain_ok (p # ps)" "no_gaps (p # ps)" "p_type p = PBUF_RAM \<or> p_type p = PBUF_POOL" "n + k \<le> p_payload p"
    using assms(1) unfolding room_def q list.sel by blast+
  have tot: "unat (p_tot_len p) = length (chain_bytes (p # ps))" by (rule chain_tot_len [OF p(1)])
  have lt: "unat (p_tot_len p) + n < 65536" using tot assms(2) q by simp
  obtain f where f: "pbuf_header (p # ps) (int n) = Some (f # ps)" "chain_ok (f # ps)"
    "chain_bytes (f # ps) = take n (drop (p_payload p - n) (p_mem p)) @ chain_bytes (p # ps)" "p_payload f = p_payload p - n"
    "p_type f = p_type p" "unat (p_len f) = unat (p_len p) + n"
    using pbuf_header_reveal [OF p(1) _ p(3) lt] p(4) by auto
  have "p_payload p + unat (p_len p) \<le> length (p_mem p)" using p(1) by (simp add: node_ok_def)
  then have l: "length (take n (drop (p_payload p - n) (p_mem p))) = n" using p(4) by simp
  have ft: "unat (p_tot_len f) = length (chain_bytes q) + n"
    unfolding chain_tot_len [OF f(2)] f(3) length_append l q by simp
  have w: "\<exists>g. write_at f 0 h = Inr g \<and> room k (g # ps) \<and> chain_bytes (g # ps) = h @ chain_bytes q \<and> p_tot_len g = p_tot_len f
      \<and> map p_type (g # ps) = map p_type q"
    if h: "length h = n" for h
  proof -
    obtain g where g: "write_at f 0 h = Inr g" "same_shape f g" "chain_ok (g # ps)"
      "chain_bytes (g # ps) = h @ drop (length h) (chain_bytes (f # ps))"
      using write_header [OF f(2), of h] f(6) h by auto
    have "no_gaps (g # ps)" using p(2) by (simp add: no_gaps_def)
    then have "room k (g # ps)" using g(2,3) f(4,5) p(3,4) by (auto simp: room_def same_shape_fields simp del: chain_ok.simps)
    moreover have "chain_bytes (g # ps) = h @ chain_bytes q" unfolding g(4) f(3) h using l q by simp
    ultimately show ?thesis using g(1,2) f(5) by (auto simp: same_shape_fields q)
  qed
  show ?thesis unfolding q using f(1) ft w q by (intro exI [of _ f] exI [of _ ps]) auto
qed

text \<open>The interface is configured, up, and the only route.\<close>

definition net_up :: "'a ip_st_scheme \<Rightarrow> bool" where
  "net_up s \<longleftrightarrow> netif_is_up s \<and> nif_listed s \<and> \<not> nif_loop s \<and> nif_default s \<and> nif_mtu (netif s) = 1500"

lemma ip_route_up: "net_up s \<Longrightarrow> ip_route dest s = Inr True"
  by (simp add: net_up_def ip_route_def)

lemma length_ip_header [simp]: "length (ip_header tos len i ttl proto src dest) = 20"
  by (simp add: ip_header_def)

lemma ip_output_if_packet:
  assumes "room 34 p" "length (chain_bytes p) \<le> 1480" "nif_mtu (netif s) = 1500"
  shows "\<exists>q. ip_packet q \<and> ip_output_if ot p src (Some dest) ttl tos proto s = etharp_output q dest (s\<lparr>ip_id := ip_id s + 1\<rparr>)
    \<and> chain_bytes q = ip_header tos (of_nat (length (chain_bytes p) + 20)) (ip_id s) ttl proto
        (if src = 0 then nif_ip_addr (netif s) else src) dest @ chain_bytes p"
proof -
  have pre: "room (20 + 14) p" "length (chain_bytes p) + 20 < 65536" using assms(1,2) by simp_all
  obtain f fs where f: "pbuf_header p (int 20) = Some (f # fs)" "unat (p_tot_len f) = length (chain_bytes p) + 20"
    "\<And>h. length h = 20 \<Longrightarrow> \<exists>g. write_at f 0 h = Inr g \<and> room 14 (g # fs) \<and> chain_bytes (g # fs) = h @ chain_bytes p
       \<and> p_tot_len g = p_tot_len f \<and> map p_type (g # fs) = map p_type p"
    using push_header [OF pre] by blast
  let ?src = "if src = 0 then nif_ip_addr (netif s) else src"
  let ?h = "ip_header tos (p_tot_len f) (ip_id s) ttl proto ?src dest"
  obtain g where g: "write_at f 0 ?h = Inr g" "room 14 (g # fs)" "chain_bytes (g # fs) = ?h @ chain_bytes p" "p_tot_len g = p_tot_len f"
    using f(3) [of ?h] by auto
  have t: "p_tot_len f = of_nat (length (chain_bytes p) + 20)" using arg_cong [OF f(2), of "of_nat :: nat \<Rightarrow> u16"] by simp
  have "\<not> (1500 :: u16) < p_tot_len f" using f(2) assms(2) by (simp add: word_less_nat_alt)
  then have "ip_output_if ot p src (Some dest) ttl tos proto s = etharp_output (g # fs) dest (s\<lparr>ip_id := ip_id s + 1\<rparr>)"
    using f(1) g(1,4) assms(3) by (simp add: ip_output_if_def ip_transmit_def Let_def)
  moreover have "ip_packet (g # fs)"
    unfolding ip_packet_room using g(2) assms(2) by (simp only: g(3) length_append length_ip_header) simp
  ultimately show ?thesis using g(3) t by (intro exI [of _ "g # fs"]) simp
qed

section \<open>Packets for a known host\<close>

definition known_at :: "u32 \<Rightarrow> u8 list \<Rightarrow> etharp_entry list \<Rightarrow> bool" where
  "known_at ip mac T \<longleftrightarrow> (\<exists>i<ARP_TABLE_SIZE. is_stable (T ! i) \<and> ae_ipaddr (T ! i) = ip \<and> ae_ethaddr (T ! i) = mac)"

text \<open>A host, or a gateway on the way to it, that frames can be addressed to.\<close>

definition reachable :: "u32 \<Rightarrow> netif \<Rightarrow> bool" where
  "reachable ip nif \<longleftrightarrow> \<not> ip_addr_isbroadcast ip nif \<and> \<not> ip_addr_ismulticast ip \<and> nif_gw nif \<noteq> 0 \<and> unicast (next_hop ip nif) nif"

lemma etharp_output_known:
  assumes "arp_ok s" "tx_ok s" "ip_packet q" "reachable ip (netif s)" "known_at (next_hop ip (netif s)) mac (arp_table s)"
  shows "\<exists>t. etharp_output q ip s = Inr (ERR_OK, t) \<and> arp_ok t \<and> tx_ok t \<and> arp_frame_only s t \<and> balanced s t \<and> arp_table t = arp_table s
    \<and> (length (tx_queue s) < 2 \<longrightarrow> tx_queue t = tx_queue s @ [eth_frame mac (nif_hwaddr (netif s)) 0x0800 (chain_bytes q)])"
proof -
  have r: "\<not> ip_addr_isbroadcast ip (netif s)" "\<not> ip_addr_ismulticast ip" "nif_gw (netif s) \<noteq> 0" "unicast (next_hop ip (netif s)) (netif s)"
    using assms(4) by (simp_all add: reachable_def)
  obtain p where p: "etharp_output q ip s = etharp_query (next_hop ip (netif s)) p s" "packet_ok p" "drop 14 (chain_bytes p) = chain_bytes q"
    using etharp_output_query [OF assms(3) r(1-3)] by blast
  obtain i where i: "i < ARP_TABLE_SIZE" "is_stable (arp_table s ! i)" "ae_ipaddr (arp_table s ! i) = next_hop ip (netif s)"
    "ae_ethaddr (arp_table s ! i) = mac"
    using assms(5) unfolding known_at_def by blast
  show ?thesis using etharp_query_stable [OF assms(1,2) r(4) i(1-3) p(2)] unfolding p(1,3) i(4) .
qed

section \<open>What the layers above see\<close>

text \<open>What output and input leave alone: all but the heap, the queues, the ARP table and \<open>ip_id\<close>.\<close>

definition ip_frame_only :: "'a ip_st_scheme \<Rightarrow> 'a ip_st_scheme \<Rightarrow> bool" where
  "ip_frame_only s t \<longleftrightarrow> netif t = netif s \<and> MACaddr t = MACaddr s \<and> rx_queue t = rx_queue s \<and> rx_ok t = rx_ok s
     \<and> pool_free t = pool_free s \<and> ref_free t = ref_free s \<and> ram_ok t = ram_ok s \<and> junk t = junk s \<and> wire t = wire s
     \<and> nif_listed t = nif_listed s \<and> nif_loop t = nif_loop s \<and> nif_default t = nif_default s \<and> ip_st.more t = ip_st.more s"

lemma ip_frame_refl [simp]: "ip_frame_only s s"
  by (simp add: ip_frame_only_def)

lemma ip_frame_trans: "ip_frame_only s t \<Longrightarrow> ip_frame_only t u \<Longrightarrow> ip_frame_only s u"
  by (simp add: ip_frame_only_def)

lemma ip_fields: "arp_st.more s = arp_st.more (t :: 'a ip_st_scheme) \<longleftrightarrow>
    ip_id s = ip_id t \<and> nif_listed s = nif_listed t \<and> nif_loop s = nif_loop t \<and> nif_default s = nif_default t \<and> ip_st.more s = ip_st.more t"
  by (cases s; cases t) simp

lemma arp_frame_ip: "arp_frame_only s t \<Longrightarrow> ip_frame_only s t"
  by (auto simp: arp_frame_only_def ip_frame_only_def ip_fields)

lemma net_up_frame: "ip_frame_only s t \<Longrightarrow> net_up t = net_up s"
  by (simp add: ip_frame_only_def net_up_def netif_is_up_def)

lemma ip_id_update [simp]:
  "arp_ok (s\<lparr>ip_id := x\<rparr>) = arp_ok s" "tx_ok (s\<lparr>ip_id := x\<rparr>) = tx_ok s" "tx_queue (s\<lparr>ip_id := x\<rparr>) = tx_queue s"
  "rx_ok (s\<lparr>ip_id := x\<rparr>) = rx_ok s" "rx_queue (s\<lparr>ip_id := x\<rparr>) = rx_queue s"
  "balanced (s\<lparr>ip_id := x\<rparr>) t = balanced s t" "ip_frame_only (s\<lparr>ip_id := x\<rparr>) t = ip_frame_only s t"
  by (simp_all add: arp_ok_def queued_def tx_ok_def tx_slots_def tx_queue_def rx_ok_def rx_slots_def rx_queue_def balanced_def ip_frame_only_def)

lemma ip_output_if_safe:
  assumes "arp_ok s" "tx_ok s" "net_up s" "room 34 p" "length (chain_bytes p) \<le> 1480"
  shows "\<exists>e t. ip_output_if ot p src (Some dest) ttl tos proto s = Inr (e, t) \<and> arp_ok t \<and> tx_ok t \<and> ip_frame_only s t \<and> balanced s t"
proof -
  have m: "nif_mtu (netif s) = 1500" using assms(3) by (simp add: net_up_def)
  obtain q where q: "ip_packet q" "ip_output_if ot p src (Some dest) ttl tos proto s = etharp_output q dest (s\<lparr>ip_id := ip_id s + 1\<rparr>)"
    using ip_output_if_packet [OF assms(4,5) m] by blast
  show ?thesis unfolding q(2) using etharp_output_safe [of "s\<lparr>ip_id := ip_id s + 1\<rparr>" q dest] assms(1,2) q(1) arp_frame_ip by fastforce
qed

end
