(* ===== verification/Chksum.thy ===== *)
theory Chksum
  imports Pbuf
begin

text \<open>
  The Internet checksum of lwIP, \<open>inet_chksum.c\<close>: the sum over a byte string and over a packet whose
  bytes are spread over several structures. The sums are computed with end-around carry; \<open>oc\<close> is the
  number such a sum leaves. \<open>inet_chksum_pseudo\<close> is not called in this configuration (the hardware makes
  and checks the UDP and TCP checksums) and not modelled.
\<close>

section \<open>Definitions\<close>

text \<open>\<open>htons\<close> and \<open>SWAP_BYTES_IN_WORD\<close> on a 16-bit word.\<close>

definition htons :: "u16 \<Rightarrow> u16" where
  "htons w = push_bit 8 (w AND 0xFF) OR drop_bit 8 (w AND 0xFF00)"

definition SWAP_BYTES_IN_WORD :: "u32 \<Rightarrow> u32" where
  "SWAP_BYTES_IN_WORD w = push_bit 8 (w AND 0xFF) OR drop_bit 8 (w AND 0xFF00)"

definition FOLD_U32T :: "u32 \<Rightarrow> u32" where
  "FOLD_U32T u = drop_bit 16 u + (u AND 0xFFFF)"

text \<open>The loop of \<open>lwip_standard_chksum\<close> (\<open>LWIP_CHKSUM_ALGORITHM\<close> is 1): \<open>src\<close> has 16 bits, \<open>acc\<close> 32.\<close>

fun sum_octets :: "u8 list \<Rightarrow> u32 \<Rightarrow> u32" where
  "sum_octets (a # b # bs) acc = sum_octets bs (acc + ucast (push_bit 8 (ucast a) OR ucast b :: u16))"
| "sum_octets [a] acc = acc + ucast (push_bit 8 (ucast a) :: u16)"
| "sum_octets [] acc = acc"

definition lwip_standard_chksum :: "u8 list \<Rightarrow> u16" where
  "lwip_standard_chksum bs =
     (let acc = sum_octets bs 0;
          acc = FOLD_U32T acc;
          acc = (if acc AND 0xFFFF0000 \<noteq> 0 then FOLD_U32T acc else acc)
      in htons (ucast acc))"

definition inet_chksum :: "u8 list \<Rightarrow> u16" where
  "inet_chksum bs = NOT (lwip_standard_chksum bs)"

text \<open>The loops over the structures of a packet; the result is \<open>acc\<close> and \<open>swapped\<close>.\<close>

fun chksum_nodes :: "chain \<Rightarrow> u32 \<Rightarrow> bool \<Rightarrow> (u32 \<times> bool) result" where
  "chksum_nodes [] acc swapped = Inr (acc, swapped)"
| "chksum_nodes (q # qs) acc swapped =
     and_then (read_at q 0 (unat (p_len q))) (\<lambda>bs.
       let acc = FOLD_U32T (acc + ucast (lwip_standard_chksum bs)) in
       if odd (unat (p_len q)) then chksum_nodes qs (SWAP_BYTES_IN_WORD acc) (\<not> swapped) else chksum_nodes qs acc swapped)"

definition inet_chksum_pbuf :: "chain \<Rightarrow> u16 result" where
  "inet_chksum_pbuf p = and_then (chksum_nodes p 0 False) (\<lambda>(acc, swapped).
     let acc = (if swapped then SWAP_BYTES_IN_WORD acc else acc) in Inr (ucast (NOT (acc AND 0xFFFF))))"

section \<open>Sums in one's complement\<close>

text \<open>The sum of the 16-bit words, the first octet the most significant one, as a number.\<close>

fun wsum :: "u8 list \<Rightarrow> nat" where
  "wsum (a # b # bs) = 256 * unat a + unat b + wsum bs"
| "wsum [a] = 256 * unat a"
| "wsum [] = 0"

text \<open>The number the end-around carry leaves: 0 only for 0, otherwise a representative modulo 65535 in
  1..65535.\<close>

definition oc :: "nat \<Rightarrow> nat" where
  "oc n = (if n = 0 then 0 else (n - 1) mod 65535 + 1)"

lemma oc_0 [simp]: "oc 0 = 0"
  by (simp add: oc_def)

lemma oc_small: "n \<le> 65535 \<Longrightarrow> oc n = n"
  by (simp add: oc_def)

lemma oc_le: "oc n \<le> 65535"
  unfolding oc_def using mod_less_divisor [of 65535 "n - 1"] by auto

lemma oc_eq_0 [simp]: "oc n = 0 \<longleftrightarrow> n = 0"
  by (simp add: oc_def)

lemma oc_eqI:
  assumes "m = 0 \<longleftrightarrow> n = 0" "m mod 65535 = n mod 65535"
  shows "oc m = oc n"
proof (cases "m = 0")
  case False
  obtain k l where kl: "m = Suc k" "n = Suc l" using assms(1) False by (metis not0_implies_Suc)
  obtain q r where "m + 65535 * q = n + 65535 * r" using assms(2) unfolding nat_mod_eq_iff by blast
  then have "k + 65535 * q = l + 65535 * r" using kl by linarith
  then have "k mod 65535 = l mod 65535" unfolding nat_mod_eq_iff by blast
  then show ?thesis using kl by (simp add: oc_def)
qed (use assms in simp)

lemma oc_mod [simp]: "oc n mod 65535 = n mod 65535"
proof (cases "n = 0")
  case False
  have "((n - 1) mod 65535 + 1) mod 65535 = (n - 1 + 1) mod 65535" by (rule mod_add_left_eq)
  then show ?thesis using False by (simp add: oc_def)
qed simp

lemma oc_add: "oc (oc m + oc n) = oc (m + n)"
  by (rule oc_eqI) (simp, metis mod_add_eq oc_mod)

lemma oc_mult: "0 < k \<Longrightarrow> oc (k * oc n) = oc (k * n)"
  by (rule oc_eqI) (simp, metis mod_mult_right_eq oc_mod)

lemma oc_idem [simp]: "oc (oc n) = oc n"
  by (rule oc_small) (rule oc_le)

lemma oc_65536: "oc (65536 * n) = oc n"
proof (rule oc_eqI)
  have "65536 * n = n + 65535 * n" by simp
  then show "65536 * n mod 65535 = n mod 65535" by (metis mod_mult_self2)
qed simp

lemma fold_nat: "oc (n div 65536 + n mod 65536) = oc n"
proof -
  obtain d m where dm: "n div 65536 = d" "n mod 65536 = m" by blast
  have n: "n = 65536 * d + m" using div_mult_mod_eq [of n 65536] dm by simp
  have "oc (d + m) = oc n"
  proof (rule oc_eqI)
    show "d + m = 0 \<longleftrightarrow> n = 0" using n by auto
    have "n = d + m + 65535 * d" using n by simp
    then show "(d + m) mod 65535 = n mod 65535" by (metis mod_mult_self2)
  qed
  then show ?thesis using dm by simp
qed

lemma fold_small:
  assumes "n \<le> 131070"
  shows "n div 65536 + n mod 65536 = oc n"
proof (cases "n < 65536")
  case True
  then show ?thesis using oc_small [of n] by simp
next
  case False
  then have "n div 65536 = 1" using assms by (intro div_nat_eqI) simp_all
  then have "n div 65536 + n mod 65536 \<le> 65535" using assms mult_div_mod_eq [of 65536 n] by simp
  then show ?thesis using fold_nat oc_small by metis
qed

text \<open>The sum behind an odd number of octets counts 256 times.\<close>

lemma wsum_shift: "\<exists>e. wsum (a # bs) + 65535 * e = 256 * unat a + 256 * wsum bs"
proof (induction bs arbitrary: a rule: wsum.induct)
  case (1 b c bs)
  obtain e where "wsum (c # bs) + 65535 * e = 256 * unat c + 256 * wsum bs" using "1.IH" by blast
  then have "wsum (a # b # c # bs) + 65535 * (e + unat b) = 256 * unat a + 256 * wsum (b # c # bs)"
    by simp
  then show ?case by blast
next
  case (2 b)
  show ?case by (intro exI [of _ "unat b"]) simp
qed simp

lemma wsum_append_even: "even (length as) \<Longrightarrow> wsum (as @ bs) = wsum as + wsum bs"
  by (induction as rule: wsum.induct) auto

lemma wsum_zero: "wsum bs = 0 \<longleftrightarrow> (\<forall>b\<in>set bs. b = 0)"
  by (induction bs rule: wsum.induct) (auto simp: unat_eq_zero)

lemma wsum_append_odd:
  assumes "odd (length as)"
  shows "oc (wsum (as @ bs)) = oc (wsum as + 256 * wsum bs)"
proof (rule oc_eqI)
  show "wsum (as @ bs) = 0 \<longleftrightarrow> wsum as + 256 * wsum bs = 0" by (auto simp: wsum_zero)
  obtain cs a where as: "as = cs @ [a]" using assms by (cases as rule: rev_cases) auto
  have "wsum (as @ bs) = wsum cs + wsum (a # bs)" "wsum as = wsum cs + 256 * unat a"
    using assms unfolding as by (simp_all add: wsum_append_even)
  moreover obtain e where "wsum (a # bs) + 65535 * e = 256 * unat a + 256 * wsum bs" using wsum_shift by blast
  ultimately have "wsum (as @ bs) + 65535 * e = wsum as + 256 * wsum bs" by simp
  then show "wsum (as @ bs) mod 65535 = (wsum as + 256 * wsum bs) mod 65535" by (metis mod_mult_self2)
qed

lemma unat_less_byte: "unat (a :: u8) < 256"
  using unsigned_less [of a, where 'a = nat] by simp

lemma wsum_bound: "2 * wsum bs \<le> 65536 * (length bs + 1)"
proof (induction bs rule: wsum.induct)
  case (1 a b bs)
  have "unat a \<le> 255" "unat b \<le> 255" using unat_less_byte [of a] unat_less_byte [of b] by linarith+
  then show ?case using "1.IH" by simp
next
  case (2 a)
  have "unat a \<le> 255" using unat_less_byte [of a] by linarith
  then show ?case by simp
qed simp


section \<open>The checksum of a byte string\<close>

lemma unat_mk16: "unat (mk16 lo hi) = 256 * unat hi + unat lo"
proof -
  have d: "\<not> bit (ucast lo :: u16) n \<or> \<not> bit (push_bit 8 (ucast hi) :: u16) n" for n by (auto simp: bit_simps dest: bit_imp_le_length)
  have "mk16 lo hi = ucast lo + push_bit 8 (ucast hi)" unfolding mk16_def by (rule disjunctive_add [symmetric]) (rule d)
  moreover have "push_bit 8 (ucast hi) = (256 * ucast hi :: u16)" by (simp add: push_bit_eq_mult)
  ultimately show ?thesis using unat_less_byte [of lo] unat_less_byte [of hi]
    by (simp add: unat_word_ariths unsigned_ucast_eq take_bit_eq_mod)
qed

lemma unat_octets: "unat (push_bit 8 (ucast a) OR ucast b :: u16) = 256 * unat (a :: u8) + unat (b :: u8)"
  using unat_mk16 [of b a] by (simp add: mk16_def or.commute)

lemma unat_octet: "unat (push_bit 8 (ucast a) :: u16) = 256 * unat (a :: u8)"
  using unat_octets [of a 0] by simp

lemma unat_up: "unat (ucast (w :: u16) :: u32) = unat w"
proof -
  have "unat w < 2 ^ 16" using unsigned_less [of w, where 'a = nat] by simp
  then have "take_bit 32 (unat w) = unat w" by (simp add: take_bit_nat_eq_self_iff)
  then show ?thesis by (simp add: unsigned_ucast_eq)
qed

lemma unat_sum_octets: "unat acc + wsum bs < 2 ^ 32 \<Longrightarrow> unat (sum_octets bs acc) = unat acc + wsum bs"
proof (induction bs acc rule: sum_octets.induct)
  case (1 a b bs acc)
  have "unat (acc + ucast (push_bit 8 (ucast a) OR ucast b :: u16)) = unat acc + (256 * unat a + unat b)"
    using "1.prems" by (subst unat_add_lem [THEN iffD1]) (simp_all add: unat_up unat_octets)
  then show ?case using "1.IH" "1.prems" by simp
next
  case (2 a acc)
  then show ?case by (simp add: unat_add_lem [THEN iffD1] unat_up unat_octet)
qed simp

lemma unat_FOLD: "unat (FOLD_U32T u) = unat u div 65536 + unat u mod 65536"
proof -
  have m: "(0xFFFF :: u32) = mask 16" by (simp add: mask_eq_exp_minus_1)
  have "unat (drop_bit 16 u) = unat u div 65536" by (simp add: drop_bit_eq_div unat_div_distrib)
  moreover have "unat (u AND 0xFFFF) = unat u mod 65536"
    unfolding m take_bit_eq_mask [symmetric] by (simp add: take_bit_eq_mod unat_mod_distrib)
  moreover have "unat u div 65536 + unat u mod 65536 < 2 ^ 32"
  proof -
    have "unat u < 2 ^ 32" using unsigned_less [of u, where 'a = nat] by simp
    then have "unat u div 65536 < 65536" by (simp add: less_mult_imp_div_less)
    moreover have "unat u mod 65536 < 65536" by simp
    ultimately show ?thesis by simp
  qed
  ultimately show ?thesis unfolding FOLD_U32T_def by (subst unat_add_lem [THEN iffD1]) simp_all
qed

lemma unat_lo8: "unat (lo8 w) = unat w mod 256"
  unfolding lo8_ucast by (simp add: unsigned_ucast_eq take_bit_eq_mod)

lemma unat_hi8: "unat (hi8 w) = unat w div 256"
proof -
  have "unat w < 65536" using unsigned_less [of w, where 'a = nat] by simp
  then have "unat w div 256 < 256" by (simp add: less_mult_imp_div_less)
  then show ?thesis unfolding hi8_ucast by (simp add: unsigned_ucast_eq take_bit_eq_mod drop_bit_eq_div unat_div_distrib)
qed

lemma unat_swap:
  "unat (htons w) = 256 * (unat w mod 256) + unat w div 256"
proof -
  have m: "(0xFF :: u16) = mask 8" "(0xFF00 :: u16) = push_bit 8 (mask 8)" by (simp_all add: mask_eq_exp_minus_1)
  have "htons w = mk16 (hi8 w) (lo8 w)"
    unfolding htons_def mk16_def lo8_ucast hi8_ucast m by (rule bit_word_eqI) (auto simp: bit_simps)
  then show ?thesis by (simp add: unat_mk16 unat_lo8 unat_hi8)
qed

lemma swap_oc:
  assumes "n \<le> 65535"
  shows "256 * (n mod 256) + n div 256 = oc (256 * n)"
proof -
  obtain d m where dm: "n div 256 = d" "n mod 256 = m" by blast
  have n: "n = 256 * d + m" using div_mult_mod_eq [of n 256] dm by simp
  have b: "m < 256" "d < 256" using dm assms by auto
  have "oc (256 * m + d) = oc (256 * n)"
  proof (rule oc_eqI)
    show "256 * m + d = 0 \<longleftrightarrow> 256 * n = 0" using n by auto
    have "256 * n = 256 * m + d + 65535 * d" using n by simp
    then show "(256 * m + d) mod 65535 = (256 * n) mod 65535" by (metis mod_mult_self2)
  qed
  moreover have "256 * m + d \<le> 65535" using b by linarith
  ultimately show ?thesis using oc_small dm by simp
qed

lemma unat_htons: "unat (htons w) = oc (256 * unat w)"
proof -
  have "unat w \<le> 65535" using unsigned_less [of w, where 'a = nat] by simp
  then show ?thesis unfolding unat_swap by (rule swap_oc)
qed


lemma unat_SWAP:
  assumes "unat w \<le> 65535"
  shows "unat (SWAP_BYTES_IN_WORD w) = oc (256 * unat w)"
proof -
  have e: "w = ucast (ucast w :: u16)" 
  proof (rule word_unat_eq_iff [THEN iffD2])
    have "unat (ucast w :: u16) = unat w" using assms by (simp add: unsigned_ucast_eq take_bit_nat_eq_self_iff)
    then show "unat w = unat (ucast (ucast w :: u16) :: u32)" by (simp add: unat_up)
  qed
  have m: "(0xFF :: u32) = mask 8" "(0xFF00 :: u32) = push_bit 8 (mask 8)" "(0xFF :: u16) = mask 8" "(0xFF00 :: u16) = push_bit 8 (mask 8)"
    by (simp_all add: mask_eq_exp_minus_1)
  have "SWAP_BYTES_IN_WORD (ucast v) = ucast (htons v)" for v :: u16
    unfolding SWAP_BYTES_IN_WORD_def htons_def m by (rule bit_word_eqI) (auto simp: bit_simps dest: bit_imp_le_length)
  from this [of "ucast w"] have "unat (SWAP_BYTES_IN_WORD w) = unat (htons (ucast w))" using e unat_up by metis
  moreover have "unat (ucast w :: u16) = unat w" using e unat_up by metis
  ultimately show ?thesis by (simp add: unat_htons)
qed

lemma unat_lwip_standard_chksum:
  assumes "length bs \<le> 65535"
  shows "unat (lwip_standard_chksum bs) = oc (256 * wsum bs)"
proof -
  let ?a = "sum_octets bs 0" and ?f = "FOLD_U32T (sum_octets bs 0)"
  have w: "2 * wsum bs \<le> 4294967296" using wsum_bound [of bs] assms by simp
  then have a: "unat ?a = wsum bs" using unat_sum_octets [of 0 bs] by simp
  have f: "unat ?f \<le> 98303" "oc (unat ?f) = oc (wsum bs)"
    using w fold_nat [of "wsum bs"] unfolding unat_FOLD a by simp_all
  define g where "g = (if ?f AND 0xFFFF0000 \<noteq> 0 then FOLD_U32T ?f else ?f)"
  have h: "?f AND 0xFFFF0000 \<noteq> 0 \<longleftrightarrow> 65536 \<le> unat ?f"
  proof -
    have m: "(0xFFFF0000 :: u32) = NOT (mask 16)" by (simp add: mask_eq_exp_minus_1)
    have "?f AND 0xFFFF0000 = 0 \<longleftrightarrow> take_bit 16 ?f = ?f"
      unfolding m by (auto simp: bit_eq_iff bit_simps)
    also have "\<dots> \<longleftrightarrow> unat ?f < 2 ^ 16" by (simp add: word_unat_eq_iff unsigned_take_bit_eq take_bit_nat_eq_self_iff)
    finally have "?f AND 0xFFFF0000 = 0 \<longleftrightarrow> unat ?f < 65536" by simp
    then show ?thesis by (simp only: not_less [symmetric] simp_thms)
  qed
  have g: "unat g = oc (wsum bs)"
  proof (cases "65536 \<le> unat ?f")
    case True
    have "unat ?f div 65536 + unat ?f mod 65536 = oc (unat ?f)" using f(1) by (intro fold_small) simp
    then show ?thesis using True h f(2) by (simp add: g_def unat_FOLD)
  next
    case False
    then show ?thesis using h f oc_small by (simp add: g_def)
  qed
  have "unat (ucast g :: u16) = unat g" using g oc_le [of "wsum bs"] by (simp add: unsigned_ucast_eq take_bit_nat_eq_self_iff)
  then have "unat (htons (ucast g)) = oc (256 * oc (wsum bs))" unfolding unat_htons g by simp
  also have "\<dots> = oc (256 * wsum bs)" by (rule oc_mult) simp
  finally show ?thesis by (simp add: lwip_standard_chksum_def Let_def g_def)
qed


section \<open>The checksum of a packet\<close>

text \<open>The accumulator after the octets \<open>bs\<close>: the swaps keep it independent of how they are cut.\<close>

definition chk_acc :: "u8 list \<Rightarrow> nat" where
  "chk_acc bs = (if even (length bs) then oc (256 * wsum bs) else oc (wsum bs))"

lemma chk_acc_le: "chk_acc bs \<le> 65535"
  by (simp add: chk_acc_def oc_le)

lemma chksum_nodes_spec:
  assumes "chain_ok c" "unat acc = chk_acc bs"
  shows "\<exists>a. chksum_nodes c acc (odd (length bs)) = Inr (a, odd (length (bs @ chain_bytes c))) \<and> unat a = chk_acc (bs @ chain_bytes c)"
  using assms
proof (induction c arbitrary: acc bs)
  case (Cons q qs)
  have q: "node_ok q" "chain_ok qs" using Cons.prems(1) by simp_all
  then have l: "length (pbytes q) = unat (p_len q)" "length (pbytes q) \<le> 65535"
    using unsigned_less [of "p_len q", where 'a = nat] by simp_all
  let ?s = "lwip_standard_chksum (pbytes q)" and ?a = "FOLD_U32T (acc + ucast (lwip_standard_chksum (pbytes q)))"
  have r: "read_at q 0 (unat (p_len q)) = Inr (pbytes q)" using q(1) by (simp add: read_at_def pbytes_def node_ok_def)
  have s: "unat ?s = oc (256 * wsum (pbytes q))" by (rule unat_lwip_standard_chksum [OF l(2)])
  have "unat (acc + ucast ?s) = chk_acc bs + oc (256 * wsum (pbytes q))"
    using chk_acc_le [of bs] oc_le [of "256 * wsum (pbytes q)"] Cons.prems(2) s
    by (subst unat_add_lem [THEN iffD1]) (simp_all add: unat_up)
  moreover have "chk_acc bs + oc (256 * wsum (pbytes q)) \<le> 131070"
    using chk_acc_le [of bs] oc_le [of "256 * wsum (pbytes q)"] by simp
  ultimately have "unat ?a = oc (chk_acc bs + oc (256 * wsum (pbytes q)))" unfolding unat_FOLD using fold_small by simp
  also have "\<dots> = oc (if even (length bs) then 256 * wsum (bs @ pbytes q) else wsum (bs @ pbytes q))"
    using oc_add [of "256 * wsum bs" "256 * wsum (pbytes q)"] oc_add [of "wsum bs" "256 * wsum (pbytes q)"]
    by (simp add: chk_acc_def wsum_append_even wsum_append_odd)
  finally have a: "unat ?a = \<dots>" .
  have sw: "oc (256 * oc (256 * w)) = oc w" "oc (256 * oc w) = oc (256 * w)" for w
    using oc_mult [of 256 "256 * w"] oc_mult [of 256 w] oc_65536 by simp_all
  have "unat (SWAP_BYTES_IN_WORD ?a) = oc (256 * unat ?a)" using a oc_le by (intro unat_SWAP) simp
  then have t: "odd (unat (p_len q)) \<Longrightarrow> unat (SWAP_BYTES_IN_WORD ?a) = chk_acc (bs @ pbytes q)"
    and u: "even (unat (p_len q)) \<Longrightarrow> unat ?a = chk_acc (bs @ pbytes q)"
    unfolding a chk_acc_def using sw l(1) by simp_all
  show ?case
    using Cons.IH [OF q(2) t] Cons.IH [OF q(2) u] r l(1) by (cases "odd (unat (p_len q))") (simp_all add: Let_def del: chain_ok.simps)
qed simp

lemma inet_chksum_pbuf_eq:
  assumes "chain_ok c" "length (chain_bytes c) \<le> 65535"
  shows "inet_chksum_pbuf c = Inr (inet_chksum (chain_bytes c))"
proof -
  let ?b = "chain_bytes c"
  obtain a where a: "chksum_nodes c 0 False = Inr (a, odd (length ?b))" "unat a = chk_acc ?b"
    using chksum_nodes_spec [OF assms(1), of 0 "[]"] by (auto simp: chk_acc_def)
  define g where "g = (if odd (length ?b) then SWAP_BYTES_IN_WORD a else a)"
  have "unat g = oc (256 * wsum ?b)"
    using a(2) unat_SWAP [of a] chk_acc_le [of ?b] oc_mult [of 256 "wsum ?b"] by (simp add: g_def chk_acc_def)
  then have "unat g = unat (lwip_standard_chksum ?b)" using unat_lwip_standard_chksum [OF assms(2)] by simp
  then have "g = ucast (lwip_standard_chksum ?b)" by (simp add: word_unat_eq_iff unat_up)
  moreover have "ucast (NOT (ucast v AND 0xFFFF) :: u32) = NOT v" for v :: u16
  proof -
    have m: "(0xFFFF :: u32) = mask 16" by (simp add: mask_eq_exp_minus_1)
    show ?thesis unfolding m by (rule bit_word_eqI) (auto simp: bit_simps)
  qed
  ultimately show ?thesis by (simp add: inet_chksum_pbuf_def a(1) Let_def inet_chksum_def g_def)
qed


section \<open>Checking\<close>

lemma unat_not: "unat (NOT w :: u16) = 65535 - unat w"
proof -
  have "NOT w = 0xFFFF - w" by (simp add: not_eq_complement)
  moreover have "w \<le> 0xFFFF" using unsigned_less [of w, where 'a = nat] by (simp add: word_le_nat_alt)
  ultimately show ?thesis by (simp add: unat_sub)
qed

lemma dvd_256: "(65535 :: nat) dvd 256 * n \<longleftrightarrow> 65535 dvd n"
proof
  assume "65535 dvd 256 * n"
  then have "65535 dvd 256 * (256 * n)" by (rule dvd_mult)
  moreover have "256 * (256 * n) = n + 65535 * n" by simp
  ultimately show "65535 dvd n" by (simp only: dvd_add_left_iff dvd_triv_left)
qed simp

lemma oc_full: "oc n = 65535 \<longleftrightarrow> n \<noteq> 0 \<and> 65535 dvd n"
proof
  assume "oc n = 65535"
  then have "n mod 65535 = 0" using oc_mod [of n] by (metis mod_self)
  moreover have "n \<noteq> 0" using \<open>oc n = 65535\<close> by (cases "n = 0") simp_all
  ultimately show "n \<noteq> 0 \<and> 65535 dvd n" by (simp add: dvd_eq_mod_eq_0)
next
  assume "n \<noteq> 0 \<and> 65535 dvd n"
  then have "oc n = oc 65535" by (intro oc_eqI) (simp_all add: dvd_eq_mod_eq_0)
  then show "oc n = 65535" by (simp add: oc_small)
qed

lemma inet_chksum_zero:
  assumes "length bs \<le> 65535"
  shows "inet_chksum bs = 0 \<longleftrightarrow> wsum bs \<noteq> 0 \<and> 65535 dvd wsum bs"
proof -
  have "inet_chksum bs = 0 \<longleftrightarrow> 65535 - unat (lwip_standard_chksum bs) = 0"
    unfolding inet_chksum_def unat_not [symmetric] by (simp add: unat_eq_zero)
  also have "\<dots> \<longleftrightarrow> oc (256 * wsum bs) = 65535"
    unfolding unat_lwip_standard_chksum [OF assms] using oc_le [of "256 * wsum bs"] by auto
  finally show ?thesis unfolding oc_full dvd_256 by simp
qed

lemma wsum_even_parts:
  "even (length as) \<Longrightarrow> wsum (as @ [a, b] @ cs) = wsum as + (256 * unat a + unat b) + wsum cs"
  by (simp add: wsum_append_even)

text \<open>A packet whose checksum field, zero when the checksum was computed, holds the checksum is accepted.\<close>

theorem inet_chksum_accepts:
  assumes "even (length as)" "length (as @ [0, 0] @ cs) \<le> 65535" "v = inet_chksum (as @ [0, 0] @ cs)"
  shows "inet_chksum (as @ [lo8 v, hi8 v] @ cs) = 0"
proof -
  let ?W = "wsum as + wsum cs"
  have v: "unat v = 65535 - oc (256 * ?W)"
    using assms(2) unfolding assms(3) inet_chksum_def unat_not
    by (simp add: unat_lwip_standard_chksum wsum_even_parts [OF assms(1), of 0 0, simplified])
  have "mk16 (hi8 v) (lo8 v) = htons v" by (rule word_unat_eq_iff [THEN iffD2]) (simp add: unat_mk16 unat_swap unat_lo8 unat_hi8)
  then have "256 * unat (lo8 v) + unat (hi8 v) = oc (256 * unat v)" using unat_mk16 unat_htons by metis
  then have w: "wsum (as @ [lo8 v, hi8 v] @ cs) = ?W + oc (256 * unat v)" using wsum_even_parts [OF assms(1)] by simp
  have s: "oc (256 * ?W) \<le> 65535" by (rule oc_le)
  have "oc (256 * (?W + oc (256 * unat v))) = 65535"
  proof -
    have "oc (256 * (?W + oc (256 * unat v))) = oc (oc (256 * ?W) + oc (256 * oc (256 * unat v)))"
      by (simp add: oc_add distrib_left)
    also have "oc (256 * oc (256 * unat v)) = oc (unat v)" using oc_mult [of 256 "256 * unat v"] oc_65536 by simp
    also have "oc (oc (256 * ?W) + oc (unat v)) = oc (oc (256 * ?W) + unat v)" using oc_add [of "oc (256 * ?W)" "unat v"] by simp
    also have "oc (256 * ?W) + unat v = 65535" using v s by simp
    finally show ?thesis by (simp add: oc_small)
  qed
  then show ?thesis unfolding oc_full dvd_256 using assms(2) by (subst inet_chksum_zero) (simp_all only: w, simp_all)
qed

lemma wsum_update:
  assumes "i < length bs"
  shows "wsum (bs[i := b]) + (if even i then 256 else 1) * unat (bs ! i) = wsum bs + (if even i then 256 else 1) * unat b"
  using assms
proof (induction bs arbitrary: i rule: wsum.induct)
  case (1 x y bs)
  show ?case
  proof (cases i)
    case (Suc j)
    then show ?thesis using "1.IH" [of "j - 1"] "1.prems" by (cases j) auto
  qed simp
next
  case (2 x)
  then show ?case by simp
qed simp

text \<open>A change of one byte changes the checksum.\<close>

theorem inet_chksum_detects:
  assumes "i < length bs" "length bs \<le> 65535" "b \<noteq> bs ! i"
  shows "inet_chksum (bs[i := b]) \<noteq> inet_chksum bs"
proof
  assume "inet_chksum (bs[i := b]) = inet_chksum bs"
  then have "NOT (NOT (lwip_standard_chksum (bs[i := b]))) = NOT (NOT (lwip_standard_chksum bs))" by (simp only: inet_chksum_def)
  then have "unat (lwip_standard_chksum (bs[i := b])) = unat (lwip_standard_chksum bs)" by simp
  then have "oc (256 * wsum (bs[i := b])) = oc (256 * wsum bs)" using assms(2) by (simp add: unat_lwip_standard_chksum)
  then have m: "256 * wsum (bs[i := b]) mod 65535 = 256 * wsum bs mod 65535" using oc_mod by metis
  define k :: nat where "k = (if even i then 256 else 1)"
  have "wsum (bs[i := b]) + k * unat (bs ! i) = wsum bs + k * unat b"
    using wsum_update [OF assms(1), of b] unfolding k_def .
  moreover obtain q r where "256 * wsum (bs[i := b]) + 65535 * q = 256 * wsum bs + 65535 * r"
    using m unfolding nat_mod_eq_iff by blast
  ultimately have e: "256 * (k * unat (bs ! i)) + 65535 * r = 256 * (k * unat b) + 65535 * q" by linarith
  define x where "x = unat (bs ! i)"
  define y where "y = unat b"
  have e: "256 * (k * x) + 65535 * r = 256 * (k * y) + 65535 * q" using e by (simp only: x_def y_def)
  have "\<bar>int x - int y\<bar> < 256" using unat_less_byte [of b] unat_less_byte [of "bs ! i"] unfolding x_def y_def by linarith
  moreover have "int x - int y \<noteq> 0" using assms(3) by (simp add: x_def y_def word_uint_eq_iff)
  moreover have "65535 dvd int x - int y \<or> 65535 dvd 256 * (int x - int y)"
  proof (cases "even i")
    case True
    then have "65536 * x + 65535 * r = 65536 * y + 65535 * q" using e by (simp add: k_def)
    then have "int (65536 * x + 65535 * r) = int (65536 * y + 65535 * q)" by simp
    then have "int x - int y = 65535 * (int q - int r - int x + int y)" by simp
    then show ?thesis by (metis dvd_triv_left)
  next
    case False
    then have "256 * x + 65535 * r = 256 * y + 65535 * q" using e by (simp add: k_def)
    then have "int (256 * x + 65535 * r) = int (256 * y + 65535 * q)" by simp
    then have "256 * (int x - int y) = 65535 * (int q - int r)" by simp
    then show ?thesis by (metis dvd_triv_left)
  qed
  ultimately show False using dvd_imp_le_int [of "int x - int y" 65535] dvd_imp_le_int [of "256 * (int x - int y)" 65535] by auto
qed

text \<open>C17: The checksum of a packet is the checksum of its bytes, however they are spread over buffers of even or odd lengths.\<close>

theorem inet_chksum_pbuf_bytes:
  assumes "chain_ok c" "length (chain_bytes c) \<le> 65535"
  shows "inet_chksum_pbuf c = Inr (inet_chksum (chain_bytes c))"
  by (rule inet_chksum_pbuf_eq [OF assms])

theorem inet_chksum_pbuf_bytes_witness:
  "inet_chksum_pbuf [\<lparr>p_type = PBUF_POOL, p_mem = [1, 2, 3], p_payload = 0, p_len = 3, p_tot_len = 5\<rparr>,
      \<lparr>p_type = PBUF_POOL, p_mem = [4, 5], p_payload = 0, p_len = 2, p_tot_len = 2\<rparr>]
   = Inr (inet_chksum [1, 2, 3, 4, 5])"
proof -
  let ?c = "[\<lparr>p_type = PBUF_POOL, p_mem = [1, 2, 3], p_payload = 0, p_len = 3, p_tot_len = 5\<rparr>,
      \<lparr>p_type = PBUF_POOL, p_mem = [4, 5], p_payload = 0, p_len = 2, p_tot_len = 2\<rparr>] :: chain"
  have b: "chain_bytes ?c = [1, 2, 3, 4, 5]" by (simp add: pbytes_def take_Cons')
  have "chain_ok ?c" by (simp add: node_ok_def)
  then show ?thesis using inet_chksum_pbuf_bytes [of ?c] unfolding b by simp
qed

theorem inet_chksum_accepts_witness:
  "inet_chksum ([0x45, 0, 0, 28] @ [lo8 0xE2A9, hi8 0xE2A9] @ [10, 1, 7]) = 0"
proof -
  have "0xE2A9 = inet_chksum ([0x45, 0, 0, 28] @ [0, 0] @ [10, 1, 7 :: u8])"
    by (simp add: inet_chksum_def lwip_standard_chksum_def FOLD_U32T_def Let_def htons_def drop_bit_eq_div word_div_def)
  then show ?thesis using inet_chksum_accepts [of "[0x45, 0, 0, 28]" "[10, 1, 7]"] by simp
qed

end
