(* ===== verification/Icmp.thy ===== *)
theory Icmp
  imports Ip Chksum
begin

text \<open>
  \<open>icmp.c\<close>: error messages and the answer to echo requests; and packets as the reception hands them up, in
  buffers of the pool with the payload pointer moved over the headers already read.
\<close>

section \<open>Definitions\<close>

abbreviation (input) "IP_PROTO_ICMP \<equiv> 1 :: u8"
abbreviation (input) "ICMP_TTL \<equiv> 255 :: u8"
abbreviation (input) "ICMP_ER \<equiv> 0 :: u8"
abbreviation (input) "ICMP_DUR \<equiv> 3 :: u8"
abbreviation (input) "ICMP_ECHO \<equiv> 8 :: u8"
abbreviation (input) "ICMP_TE \<equiv> 11 :: u8"

text \<open>The length of the IP header in bytes, from its first byte.\<close>

definition hlen_of :: "u8 list \<Rightarrow> nat" where
  "hlen_of h = 4 * unat (h ! 0 AND 0x0F)"

text \<open>The 36 bytes of the message before and after its checksum is stored.\<close>

definition icmp_message :: "u8 \<Rightarrow> u8 \<Rightarrow> u16 \<Rightarrow> u8 list \<Rightarrow> u8 list" where
  "icmp_message type code chksum original = [type, code, lo8 chksum, hi8 chksum, 0, 0, 0, 0] @ original"

definition icmp_send_response ::
  "'a ip_st_scheme others \<Rightarrow> chain \<Rightarrow> u8 \<Rightarrow> u8 \<Rightarrow> 'a ip_st_scheme \<Rightarrow> 'a ip_st_scheme result" where
  "icmp_send_response ot p type code s = (case pbuf_alloc PBUF_IP 36 PBUF_RAM s of
      (Some (q # qs), s) \<Rightarrow>
        and_then (case p of [] \<Rightarrow> Inl Undefined | f # _ \<Rightarrow> read_at f 0 28) (\<lambda>original.
        and_then (write_at q 0 (icmp_message type code (inet_chksum (icmp_message type code 0 original)) original)) (\<lambda>q.
        and_then (ip_output ot (q # qs) 0 (ip_of (drop 12 original)) ICMP_TTL 0 IP_PROTO_ICMP s) (\<lambda>(_, s).
          Inr (pbuf_free (q # qs) s))))
    | (_, s) \<Rightarrow> Inr s)"

definition icmp_dest_unreach :: "'a ip_st_scheme others \<Rightarrow> chain \<Rightarrow> u8 \<Rightarrow> 'a ip_st_scheme \<Rightarrow> 'a ip_st_scheme result" where
  "icmp_dest_unreach ot p t s = icmp_send_response ot p ICMP_DUR t s"

definition icmp_time_exceeded :: "'a ip_st_scheme others \<Rightarrow> chain \<Rightarrow> u8 \<Rightarrow> 'a ip_st_scheme \<Rightarrow> 'a ip_st_scheme result" where
  "icmp_time_exceeded ot p t s = icmp_send_response ot p ICMP_TE t s"

text \<open>Writing through a pointer into the memory behind a structure.\<close>

definition poke :: "nat \<Rightarrow> u8 list \<Rightarrow> pnode \<Rightarrow> pnode result" where
  "poke i bs p = (if i + length bs \<le> length (p_mem p) then Inr (p\<lparr>p_mem := blit (p_mem p) i bs\<rparr>) else Inl Undefined)"

text \<open>The answer to an echo request. \<open>q\<close> has the payload pointer at the ICMP header; the IP header \<open>h\<close> is
  at \<open>iphdr\<close> in its memory.\<close>

definition icmp_echo_reply ::
  "'a ip_st_scheme others \<Rightarrow> nat \<Rightarrow> u8 list \<Rightarrow> chain \<Rightarrow> 'a ip_st_scheme \<Rightarrow> 'a ip_st_scheme result" where
  "icmp_echo_reply ot iphdr h p s = (case p of [] \<Rightarrow> Inl Undefined | q # qs \<Rightarrow>
      and_then (poke (iphdr + 12) (take 4 (drop 16 h)) q) (\<lambda>q.
      and_then (poke (iphdr + 16) (take 4 (drop 12 h)) q) (\<lambda>q.
      and_then (poke (p_payload q) [ICMP_ER] q) (\<lambda>q.
      and_then (poke (p_payload q + 2) [0, 0] q) (\<lambda>q.
      and_then (poke (iphdr + 8) [ICMP_TTL] q) (\<lambda>q.
      and_then (poke (iphdr + 10) [0, 0] q) (\<lambda>q.
        case pbuf_header (q # qs) (int (hlen_of h)) of
          None \<Rightarrow> Inr (pbuf_free (q # qs) s)
        | Some p \<Rightarrow> and_then (ip_output_if ot p (ip_of (drop 16 h)) None ICMP_TTL 0 IP_PROTO_ICMP s) (\<lambda>(_, s). Inr (pbuf_free p s)))))))))"

text \<open>Making room for the headers below: a copy on the heap when the packet has none. The error paths
  after the allocation free the packet and lose the copy. The result is the position of the IP header and the packet at its ICMP
  header, or nothing when the packet was freed.\<close>

definition icmp_echo_room :: "nat \<Rightarrow> nat \<Rightarrow> chain \<Rightarrow> 'a ip_st_scheme \<Rightarrow> ((nat \<times> chain) option \<times> 'a ip_st_scheme) result" where
  "icmp_echo_room iphdr hlen p s = (case pbuf_header p 34 of
      Some r \<Rightarrow> (case pbuf_header r (- 34) of
          None \<Rightarrow> Inr (None, pbuf_free r s)
        | Some p \<Rightarrow> Inr (Some (iphdr, p), s))
    | None \<Rightarrow> (case pbuf_header p (int hlen) of
          None \<Rightarrow> Inr (None, pbuf_free p s)
        | Some p \<Rightarrow> (case p of [] \<Rightarrow> Inl Undefined | f # _ \<Rightarrow>
            (case pbuf_alloc PBUF_LINK (p_tot_len f) PBUF_RAM s of
               (None, s) \<Rightarrow> Inr (None, pbuf_free p s)
             | (Some r, s) \<Rightarrow> and_then (pbuf_copy r p) (\<lambda>(e, r).
                 if e \<noteq> ERR_OK then Inr (None, pbuf_free p s)
                 else (case pbuf_header r (- int hlen) of
                    None \<Rightarrow> Inr (None, pbuf_free p s)
                  | Some t \<Rightarrow> Inr (Some (p_payload (hd r), t), pbuf_free p s)))))))"

definition icmp_input :: "'a ip_st_scheme others \<Rightarrow> chain \<Rightarrow> 'a ip_st_scheme \<Rightarrow> 'a ip_st_scheme result" where
  "icmp_input ot p s = (case p of [] \<Rightarrow> Inl Undefined | q # qs \<Rightarrow>
      and_then (read_at q 0 20) (\<lambda>h.
      let hlen = hlen_of h; dest = ip_of (drop 16 h) in
      case pbuf_header p (- int hlen) of
        None \<Rightarrow> Inr (pbuf_free p s)
      | Some p \<Rightarrow>
          (case p of [] \<Rightarrow> Inl Undefined | f # _ \<Rightarrow>
           if p_tot_len f < 4 then Inr (pbuf_free p s)
           else and_then (read_at f 0 1) (\<lambda>type.
             if type \<noteq> [ICMP_ECHO] then Inr (pbuf_free p s)
             else if ip_addr_ismulticast dest \<or> ip_addr_isbroadcast dest (netif s) then Inr (pbuf_free p s)
             else if p_tot_len f < 8 then Inr (pbuf_free p s)
             else and_then (inet_chksum_pbuf p) (\<lambda>ck.
               if ck \<noteq> 0 then Inr (pbuf_free p s)
               else and_then (icmp_echo_room (p_payload q) hlen p s) (\<lambda>(r, s). case r of
                  None \<Rightarrow> Inr s
                | Some (iphdr, p) \<Rightarrow> icmp_echo_reply ot iphdr h p s))))))"


section \<open>Error messages\<close>

lemma heap_bracket:
  assumes "arp_ok s" "u = s\<lparr>ram_live := ram_live s + 1, requests := k\<rparr>" "arp_ok t" "tx_ok t" "ip_frame_only u t" "balanced u t"
  shows "arp_ok (t\<lparr>ram_live := ram_live t - 1\<rparr>) \<and> tx_ok (t\<lparr>ram_live := ram_live t - 1\<rparr>) \<and> ip_frame_only s (t\<lparr>ram_live := ram_live t - 1\<rparr>)
    \<and> balanced s (t\<lparr>ram_live := ram_live t - 1\<rparr>) \<and> tx_queue (t\<lparr>ram_live := ram_live t - 1\<rparr>) = tx_queue t"
proof -
  have q: "queued s \<le> ram_live s" using assms(1) by (simp add: arp_ok_def)
  have b: "ram_live t + queued s = ram_live s + 1 + queued t" "arpq_free t + queued t = arpq_free s + queued s"
    using assms(6) by (simp_all add: assms(2) balanced_def queued_def)
  then have l: "queued t \<le> ram_live t - 1" "ram_live t - 1 + queued s = ram_live s + queued t" using q by linarith+
  have "arp_ok (t\<lparr>ram_live := ram_live t - 1\<rparr>)" using assms(3) l(1) by (simp add: arp_ok_def queued_def)
  moreover have "ip_frame_only s (t\<lparr>ram_live := ram_live t - 1\<rparr>)"
    using assms(5) by (simp add: assms(2) ip_frame_only_def rx_queue_def rx_slots_def rx_ok_def)
  moreover have "balanced s (t\<lparr>ram_live := ram_live t - 1\<rparr>)" using b l(2) by (simp add: balanced_def queued_def)
  moreover have "tx_ok (t\<lparr>ram_live := ram_live t - 1\<rparr>)" "tx_queue (t\<lparr>ram_live := ram_live t - 1\<rparr>) = tx_queue t"
    using assms(4) by (simp_all add: tx_ok_def tx_queue_def tx_slots_def)
  ultimately show ?thesis by blast
qed

lemma requests_frame:
  "arp_ok (s\<lparr>requests := k\<rparr>) = arp_ok s" "tx_ok (s\<lparr>requests := k\<rparr>) = tx_ok s" "tx_queue (s\<lparr>requests := k\<rparr>) = tx_queue s"
  "ip_frame_only s (s\<lparr>requests := k\<rparr>)" "balanced s (s\<lparr>requests := k\<rparr>)"
  by (simp_all add: arp_ok_def queued_def tx_ok_def tx_slots_def tx_queue_def balanced_def ip_frame_only_def rx_queue_def rx_slots_def rx_ok_def)

lemma heap_frame:
  "arp_ok s \<Longrightarrow> arp_ok (s\<lparr>ram_live := Suc (ram_live s), requests := k\<rparr>)" "tx_ok (s\<lparr>ram_live := j, requests := k\<rparr>) = tx_ok s"
  "tx_queue (s\<lparr>ram_live := j, requests := k\<rparr>) = tx_queue s" "net_up (s\<lparr>ram_live := j, requests := k\<rparr>) = net_up s"
  by (simp_all add: arp_ok_def queued_def tx_ok_def tx_slots_def tx_queue_def net_up_def netif_is_up_def)

lemma length_icmp_message [simp]: "length (icmp_message type code ck original) = 8 + length original"
  by (simp add: icmp_message_def)

text \<open>The message has the header and the first 8 bytes of the packet, and a checksum over its 36 bytes.\<close>

lemma icmp_send_response_spec:
  assumes "arp_ok s" "tx_ok s" "net_up s" "p_payload f + 28 \<le> length (p_mem f)"
  shows "\<exists>t. icmp_send_response ot (f # fs) type code s = Inr t \<and> arp_ok t \<and> tx_ok t \<and> ip_frame_only s t \<and> balanced s t
    \<and> (heap_grants s \<and> length (tx_queue s) < 2 \<and> original = take 28 (drop (p_payload f) (p_mem f)) \<and> src = ip_of (drop 12 original)
         \<and> reachable src (netif s) \<and> known_at (next_hop src (netif s)) mac (arp_table s)
       \<longrightarrow> tx_queue t = tx_queue s @ [eth_frame mac (nif_hwaddr (netif s)) 0x0800
             (ip_header 0 56 (ip_id s) ICMP_TTL IP_PROTO_ICMP (nif_ip_addr (netif s)) src
              @ icmp_message type code (inet_chksum (icmp_message type code 0 original)) original)])"
proof -
  let ?o = "take 28 (drop (p_payload f) (p_mem f))"
  let ?m = "icmp_message type code (inet_chksum (icmp_message type code 0 ?o)) ?o" and ?src = "ip_of (drop 12 ?o)"
  have lm: "length ?m = 36" using assms(4) by simp
  have o: "read_at f 0 28 = Inr ?o" using assms(4) by (simp add: read_at_def)
  obtain r u where al: "pbuf_alloc PBUF_IP 36 PBUF_RAM s = (r, u)" by fastforce
  have g: "heap_grants s \<Longrightarrow> r \<noteq> None" using al by (auto simp: pbuf_alloc_def mem_malloc_def heap_grants_def Let_def)
  show ?thesis using pbuf_alloc_ram [OF al]
  proof (elim disjE conjE exE)
    assume r: "r = None" "u = s\<lparr>requests := requests s + 1\<rparr>"
    have "\<not> heap_grants s" using g r(1) by blast
    then show ?thesis using r al assms(1,2) by (simp add: icmp_send_response_def requests_frame)
  next
    fix p assume p: "r = Some [p]" "chain_ok [p]" "p_type p = PBUF_RAM" "p_len p = 36" "p_tot_len p = 36"
      "p_payload p = align4 (layer_offset PBUF_IP)" "u = s\<lparr>ram_live := ram_live s + 1, requests := requests s + 1\<rparr>"
    have l: "length ?m \<le> unat (p_len p)" using lm p(4) by simp
    obtain q where q: "write_at p 0 ?m = Inr q" "same_shape p q" "chain_ok [q]" "chain_bytes [q] = ?m @ drop (length ?m) (chain_bytes [p])"
      using write_header [OF p(2) l] by blast
    have "length (chain_bytes [p]) = 36" using p(2,4) by simp
    then have b: "chain_bytes [q] = ?m" using q(4) lm by simp
    note sh = same_shape_fields [OF q(2)]
    have rm: "room 34 [q]" using q(3) sh p(3,6) by (simp add: room_def no_gaps_def align4_def layer_offset_def)
    have u: "arp_ok u" "tx_ok u" "net_up u" "tx_queue u = tx_queue s" "netif u = netif s" "arp_table u = arp_table s" "ip_id u = ip_id s"
      using assms(1-3) unfolding p(7) by (simp_all add: heap_frame)
    have lb: "length (chain_bytes [q]) \<le> 1480" unfolding b lm by simp
    obtain e t where t: "ip_output_if ot [q] 0 (Some ?src) ICMP_TTL 0 IP_PROTO_ICMP u = Inr (e, t)" "arp_ok t" "tx_ok t" "ip_frame_only u t" "balanced u t"
      using ip_output_if_safe [OF u(1-3) rm lb, of ot 0 ?src ICMP_TTL 0 IP_PROTO_ICMP] by blast
    have "pbuf_free [q] t = t\<lparr>ram_live := ram_live t - 1\<rparr>" using sh p(3) by (intro pbuf_free_ram) simp
    then have res: "icmp_send_response ot (f # fs) type code s = Inr (t\<lparr>ram_live := ram_live t - 1\<rparr>)"
      using al p(1) o q(1) t(1) ip_route_up [OF u(3)] by (simp add: icmp_send_response_def ip_output_def)
    have "tx_queue t = tx_queue s @ [eth_frame mac (nif_hwaddr (netif s)) 0x0800
          (ip_header 0 56 (ip_id s) ICMP_TTL IP_PROTO_ICMP (nif_ip_addr (netif s)) ?src @ ?m)]"
      if a: "length (tx_queue s) < 2" "reachable ?src (netif s)" "known_at (next_hop ?src (netif s)) mac (arp_table s)"
    proof -
      have mt: "nif_mtu (netif u) = 1500" using u(3) by (simp add: net_up_def)
      obtain w where w: "ip_packet w" "ip_output_if ot [q] 0 (Some ?src) ICMP_TTL 0 IP_PROTO_ICMP u = etharp_output w ?src (u\<lparr>ip_id := ip_id u + 1\<rparr>)"
        "chain_bytes w = ip_header 0 (of_nat (36 + 20)) (ip_id u) ICMP_TTL IP_PROTO_ICMP (nif_ip_addr (netif u)) ?src @ ?m"
        using ip_output_if_packet [OF rm lb mt, of ot 0 ?src ICMP_TTL 0 IP_PROTO_ICMP] unfolding b lm by auto
      show ?thesis
        using etharp_output_known [of "u\<lparr>ip_id := ip_id u + 1\<rparr>" w ?src mac] w t(1) u a by auto
    qed
    then show ?thesis using res heap_bracket [OF assms(1) p(7) t(2-5)] by auto
  qed
qed


section \<open>Received packets\<close>

text \<open>A packet in buffers of the pool with the payload pointer at index \<open>k\<close> of the first buffer.\<close>

definition received :: "nat \<Rightarrow> chain \<Rightarrow> bool" where
  "received k c \<longleftrightarrow> c \<noteq> [] \<and> chain_ok c \<and> no_gaps c \<and> (\<forall>p\<in>set c. p_type p = PBUF_POOL)
     \<and> p_payload (hd c) = k \<and> length (p_mem (hd c)) = 1500"

lemma received_Cons:
  "received k (q # qs) \<longleftrightarrow> chain_ok (q # qs) \<and> no_gaps (q # qs) \<and> (\<forall>p\<in>set (q # qs). p_type p = PBUF_POOL) \<and> p_payload q = k \<and> length (p_mem q) = 1500"
  by (simp add: received_def)

lemma received_head:
  assumes "received k (q # qs)" "chain_ok (r # qs)" "p_type r = p_type q" "p_payload r = j" "length (p_mem r) = length (p_mem q)"
  shows "received j (r # qs)"
proof -
  have q: "no_gaps (q # qs)" "p_type q = PBUF_POOL" "\<forall>p\<in>set qs. p_type p = PBUF_POOL" "length (p_mem q) = 1500"
    using assms(1) by (auto simp: received_Cons simp del: chain_ok.simps)
  have "no_gaps (r # qs)" using q(1) by (simp add: no_gaps_def)
  moreover have "\<forall>p\<in>set (r # qs). p_type p = PBUF_POOL" using q(2,3) assms(3) by simp
  ultimately show ?thesis unfolding received_Cons using assms(2,4,5) q(4) by (intro conjI) simp_all
qed

lemma pbuf_free_types: "map p_type c = map p_type d \<Longrightarrow> pbuf_free c s = pbuf_free d s"
proof (induction c arbitrary: d s)
  case (Cons p ps)
  then obtain q qs where "d = q # qs" "p_type p = p_type q" "map p_type ps = map p_type qs" by (cases d) auto
  then show ?case using Cons.IH [of qs] by (simp add: free_node_def)
qed simp

lemma received_hide:
  assumes "received k (q # qs)" "n \<le> unat (p_len q)"
  shows "\<exists>r. pbuf_header (q # qs) (- int n) = Some (r # qs) \<and> received (k + n) (r # qs) \<and> chain_bytes (r # qs) = drop n (chain_bytes (q # qs))
    \<and> p_mem r = p_mem q \<and> p_type r = p_type q \<and> unat (p_len r) = unat (p_len q) - n"
proof -
  have q: "chain_ok (q # qs)" "no_gaps (q # qs)" "\<forall>p\<in>set (q # qs). p_type p = PBUF_POOL" "p_payload q = k" "length (p_mem q) = 1500"
    using assms(1) unfolding received_Cons by blast+
  obtain r where r: "pbuf_header (q # qs) (- int n) = Some (r # qs)" "chain_ok (r # qs)" "chain_bytes (r # qs) = drop n (chain_bytes (q # qs))"
    "p_payload r = p_payload q + n" "p_mem r = p_mem q" "p_type r = p_type q" "unat (p_len r) = unat (p_len q) - n"
    using pbuf_header_hide [OF q(1) assms(2)] by blast
  have "received (k + n) (r # qs)" using r(4,5) q(4) by (intro received_head [OF assms(1) r(2,6)]) simp_all
  then show ?thesis using r by blast
qed

lemma received_reveal:
  assumes "received (k + n) (q # qs)" "length (chain_bytes (q # qs)) + n < 65536"
  shows "\<exists>r. pbuf_header (q # qs) (int n) = Some (r # qs) \<and> received k (r # qs)
    \<and> chain_bytes (r # qs) = take n (drop k (p_mem q)) @ chain_bytes (q # qs) \<and> p_mem r = p_mem q \<and> p_type r = p_type q
    \<and> unat (p_len r) = unat (p_len q) + n"
proof -
  have q: "chain_ok (q # qs)" "no_gaps (q # qs)" "\<forall>p\<in>set (q # qs). p_type p = PBUF_POOL" "p_payload q = k + n" "length (p_mem q) = 1500"
    using assms(1) unfolding received_Cons by blast+
  have t: "unat (p_tot_len q) + n < 65536" unfolding chain_tot_len [OF q(1)] by (rule assms(2))
  have le: "n \<le> p_payload q" and ty: "p_type q = PBUF_RAM \<or> p_type q = PBUF_POOL" using q(3,4) by simp_all
  obtain r where r: "pbuf_header (q # qs) (int n) = Some (r # qs)" "chain_ok (r # qs)"
    "chain_bytes (r # qs) = take n (drop (p_payload q - n) (p_mem q)) @ chain_bytes (q # qs)"
    "p_payload r = p_payload q - n" "p_mem r = p_mem q" "p_type r = p_type q" "unat (p_len r) = unat (p_len q) + n"
    using pbuf_header_reveal [OF q(1) le ty t] by blast
  have "received k (r # qs)" using r(4,5) q(4) by (intro received_head [OF assms(1) r(2,6)]) simp_all
  then show ?thesis using r q(4) by auto
qed

lemma received_mem:
  assumes "received k (q # qs)" "length M = length (p_mem q)"
  shows "received k (q\<lparr>p_mem := M\<rparr> # qs)"
proof -
  have "chain_ok (q # qs)" "p_payload q = k" using assms(1) unfolding received_Cons by blast+
  then have "chain_ok (q\<lparr>p_mem := M\<rparr> # qs)" using assms(2) by (simp add: node_ok_def)
  then show ?thesis using assms(2) \<open>p_payload q = k\<close> by (intro received_head [OF assms(1)]) simp_all
qed

lemma received_room: "received k c \<Longrightarrow> j \<le> k \<Longrightarrow> room j c"
  by (auto simp: received_def room_def)

lemma pbuf_header_undo:
  assumes "received k (q # qs)" "n \<le> k" "length (chain_bytes (q # qs)) + n < 65536"
  shows "\<exists>r. pbuf_header (q # qs) (int n) = Some r \<and> pbuf_header r (- int n) = Some (q # qs)"
proof (cases "n = 0")
  case True
  then show ?thesis by (simp add: pbuf_header_def)
next
  case False
  have q: "chain_ok (q # qs)" "p_payload q = k" "p_type q = PBUF_POOL" using assms(1) by (simp_all add: received_Cons)
  have "unat (p_tot_len q) + n < 65536" unfolding chain_tot_len [OF q(1)] by (rule assms(3))
  moreover have "unat (p_len q) \<le> unat (p_tot_len q)" using q(1) by simp
  ultimately have "unat (p_len q + of_nat n) = unat (p_len q) + n"
    by (simp add: unat_word_ariths unat_of_nat)
  then show ?thesis using False q(2,3) assms(2) by (simp add: pbuf_header_def Let_def)
qed

section \<open>Echo\<close>

definition echo_mem :: "nat \<Rightarrow> nat \<Rightarrow> u8 list \<Rightarrow> u8 list \<Rightarrow> u8 list" where
  "echo_mem i k h M = blit (blit (blit (blit (blit (blit M (i + 12) (take 4 (drop 16 h))) (i + 16) (take 4 (drop 12 h)))
     k [ICMP_ER]) (k + 2) [0, 0]) (i + 8) [ICMP_TTL]) (i + 10) [0, 0]"

lemma icmp_echo_reply_eq:
  assumes "i + 20 \<le> length (p_mem q)" "p_payload q + 4 \<le> length (p_mem q)" "length h = 20"
  shows "icmp_echo_reply ot i h (q # qs) s =
    (let q = q\<lparr>p_mem := echo_mem i (p_payload q) h (p_mem q)\<rparr> in
     case pbuf_header (q # qs) (int (hlen_of h)) of
       None \<Rightarrow> Inr (pbuf_free (q # qs) s)
     | Some p \<Rightarrow> and_then (ip_output_if ot p (ip_of (drop 16 h)) None ICMP_TTL 0 IP_PROTO_ICMP s) (\<lambda>(_, s). Inr (pbuf_free p s)))"
  using assms by (simp add: icmp_echo_reply_def poke_def echo_mem_def Let_def)

lemma echo_mem_bytes:
  assumes "length pre = i" "length a = 8" "length src = 4" "length dst = 4" "take 20 (drop i M) = h"
    and "M = pre @ a @ [ttl, proto, c1, c2] @ src @ dst @ [t, code, k1, k2] @ rest"
  shows "echo_mem i (i + 20) h M = pre @ a @ [ICMP_TTL, proto, 0, 0] @ dst @ src @ [ICMP_ER, code, 0, 0] @ rest"
proof -
  have h: "h = a @ [ttl, proto, c1, c2] @ src @ dst" unfolding assms(5) [symmetric] assms(6) using assms(1-4) by simp
  have step: "blit (x @ y @ z) (length x) w = x @ w @ z" if "length w = length y" for x y z w :: "u8 list"
    using that by (simp add: blit_eq)
  let ?R = "[t, code, k1, k2] @ rest" and ?P = "[ttl, proto, c1, c2]"
  have 1: "blit M (i + 12) dst = pre @ a @ ?P @ dst @ dst @ ?R"
    using step [of dst src "pre @ a @ ?P" "dst @ ?R"] assms(1-4) unfolding assms(6) by simp
  have 2: "blit (pre @ a @ ?P @ dst @ dst @ ?R) (i + 16) src = pre @ a @ ?P @ dst @ src @ ?R"
    using step [of src dst "pre @ a @ ?P @ dst" ?R] assms(1-4) by simp
  have 3: "blit (pre @ a @ ?P @ dst @ src @ ?R) (i + 20) [ICMP_ER] = pre @ a @ ?P @ dst @ src @ [ICMP_ER, code, k1, k2] @ rest"
    using step [of "[ICMP_ER]" "[t]" "pre @ a @ ?P @ dst @ src" "[code, k1, k2] @ rest"] assms(1-4) by simp
  have 4: "blit (pre @ a @ ?P @ dst @ src @ [ICMP_ER, code, k1, k2] @ rest) (i + 20 + 2) [0, 0]
      = pre @ a @ ?P @ dst @ src @ [ICMP_ER, code, 0, 0] @ rest"
    using step [of "[0, 0]" "[k1, k2]" "pre @ a @ ?P @ dst @ src @ [ICMP_ER, code]" rest] assms(1-4) by (simp add: add.commute)
  let ?E = "dst @ src @ [ICMP_ER, code, 0, 0] @ rest"
  have 5: "blit (pre @ a @ ?P @ ?E) (i + 8) [ICMP_TTL] = pre @ a @ [ICMP_TTL, proto, c1, c2] @ ?E"
    using step [of "[ICMP_TTL]" "[ttl]" "pre @ a" "[proto, c1, c2] @ ?E"] assms(1-4) by simp
  have 6: "blit (pre @ a @ [ICMP_TTL, proto, c1, c2] @ ?E) (i + 10) [0, 0] = pre @ a @ [ICMP_TTL, proto, 0, 0] @ ?E"
    using step [of "[0, 0]" "[c1, c2]" "pre @ a @ [ICMP_TTL, proto]" ?E] assms(1-4) by simp
  have "take 4 (drop 16 h) = dst" "take 4 (drop 12 h) = src" unfolding h using assms(2-4) by simp_all
  then show ?thesis unfolding echo_mem_def using 1 2 3 4 5 6 by (simp only:)
qed


lemma echo_mem_dest:
  assumes "i + 20 \<le> k" "k + 4 \<le> length M" "length h = 20"
  shows "take 4 (drop (i + 16) (echo_mem i k h M)) = take 4 (drop 12 h)"
proof (rule nth_equalityI)
  show "length (take 4 (drop (i + 16) (echo_mem i k h M))) = length (take 4 (drop 12 h))"
    using assms by (simp add: echo_mem_def)
  fix j assume "j < length (take 4 (drop (i + 16) (echo_mem i k h M)))"
  then have "j < 4" by simp
  then show "take 4 (drop (i + 16) (echo_mem i k h M)) ! j = take 4 (drop 12 h) ! j"
    using assms by (simp add: echo_mem_def nth_blit)
qed

text \<open>What makes a packet with the IP header \<open>h\<close>, the type \<open>type\<close> and the message \<open>m\<close> an echo request that is answered.\<close>

definition echo_request :: "netif \<Rightarrow> u8 list \<Rightarrow> u8 \<Rightarrow> u8 list \<Rightarrow> bool" where
  "echo_request nif h type m \<longleftrightarrow> 8 \<le> length m \<and> type = ICMP_ECHO \<and> inet_chksum m = 0
     \<and> \<not> ip_addr_ismulticast (ip_of (drop 16 h)) \<and> \<not> ip_addr_isbroadcast (ip_of (drop 16 h)) nif"

lemma hlen_le: "hlen_of h \<le> 60"
proof -
  have "h ! 0 AND 0x0F \<le> 0x0F" by (rule word_and_le1)
  then have "unat (h ! 0 AND 0x0F) \<le> 15" by (simp add: word_le_nat_alt)
  then show ?thesis by (simp add: hlen_of_def)
qed

lemma icmp_echo_room_received:
  assumes "received (14 + n) (r # rs)" "20 \<le> n" "length (chain_bytes (r # rs)) \<le> 1500"
  shows "icmp_echo_room i n (r # rs) s = Inr (Some (i, r # rs), s)"
proof -
  obtain x where "pbuf_header (r # rs) (int 34) = Some x" "pbuf_header x (- int 34) = Some (r # rs)"
    using pbuf_header_undo [OF assms(1), of 34] assms(2,3) by auto
  then show ?thesis by (simp add: icmp_echo_room_def)
qed

text \<open>The answer: the packet \<open>r\<close>, at its ICMP header, goes back with the changed memory.\<close>

lemma icmp_echo_reply_received:
  assumes "received (14 + hlen_of h) (r # qs)" "length (chain_bytes (r # qs)) + hlen_of h \<le> 1500" "length h = 20" "20 \<le> hlen_of h"
    and "nif_mtu (netif s) = 1500"
  shows "\<exists>f. received 14 (f # qs) \<and> p_mem f = echo_mem 14 (14 + hlen_of h) h (p_mem r) \<and> unat (p_len f) = unat (p_len r) + hlen_of h
    \<and> icmp_echo_reply ot 14 h (r # qs) s = and_then (etharp_output (f # qs) (ip_of (drop 12 h)) s) (\<lambda>(_, t). Inr (pbuf_free (r # qs) t))"
proof -
  let ?n = "hlen_of h"
  have r: "p_payload r = 14 + ?n" "length (p_mem r) = 1500" using assms(1) unfolding received_Cons by blast+
  define M where "M = echo_mem 14 (14 + ?n) h (p_mem r)"
  have lM: "length M = 1500" using r(2) by (simp add: M_def echo_mem_def)
  let ?r = "r\<lparr>p_mem := M\<rparr>"
  have rc: "received (14 + ?n) (?r # qs)" using received_mem [OF assms(1)] lM r(2) by simp
  have "length (pbytes ?r) = length (pbytes r)" using lM r(2) by (simp add: pbytes_def)
  then have lb: "length (chain_bytes (?r # qs)) = length (chain_bytes (r # qs))" by simp
  then have "length (chain_bytes (?r # qs)) + ?n < 65536" using assms(2) by simp
  from received_reveal [OF rc this] obtain f where f: "pbuf_header (?r # qs) (int ?n) = Some (f # qs)" "received 14 (f # qs)"
    "chain_bytes (f # qs) = take ?n (drop 14 M) @ chain_bytes (?r # qs)" "p_mem f = M" "p_type f = p_type r" "unat (p_len f) = unat (p_len r) + ?n"
    by auto
  have fp: "p_payload f = 14" "chain_ok (f # qs)" using f(2) unfolding received_Cons by blast+
  have "length (take ?n (drop 14 M)) = ?n" using lM hlen_le [of h] by simp
  then have lf: "length (chain_bytes (f # qs)) \<le> 1500" unfolding f(3) length_append lb using assms(2) by simp
  then have tot: "\<not> (1500 :: u16) < p_tot_len f" using chain_tot_len [OF fp(2)] by (simp add: word_less_nat_alt)
  have "take 4 (drop (14 + 16) M) = take 4 (drop 12 h)"
    unfolding M_def using r(2) hlen_le [of h] assms(3,4) by (intro echo_mem_dest) simp_all
  then have rd: "read_at f 16 4 = Inr (take 4 (drop 12 h))" using fp(1) f(4) lM by (simp add: read_at_def)
  have ipo: "ip_of (take 4 (drop 12 h)) = ip_of (drop 12 h)" by (simp add: ip_of_def)
  have free: "pbuf_free (f # qs) t = pbuf_free (r # qs) t" for t :: "'a ip_st_scheme" by (rule pbuf_free_types) (simp add: f(5))
  have "icmp_echo_reply ot 14 h (r # qs) s = and_then (etharp_output (f # qs) (ip_of (drop 12 h)) s) (\<lambda>(_, t). Inr (pbuf_free (r # qs) t))"
    using icmp_echo_reply_eq [of 14 r h ot qs s] r assms(3,5) hlen_le [of h] f(1) rd tot ipo free
    by (simp add: M_def [symmetric] Let_def ip_output_if_def ip_transmit_def del: pbuf_free.simps)
  then show ?thesis using f(2,4,6) by (auto simp: M_def simp del: pbuf_free.simps)
qed

lemma icmp_input_eq:
  assumes "received 14 (q # qs)" "length (chain_bytes (q # qs)) \<le> 1500" "h = take 20 (drop 14 (p_mem q))" "20 \<le> hlen_of h"
    and "nif_mtu (netif s) = 1500"
  shows "\<exists>f. received 14 (f # qs) \<and> p_mem f = echo_mem 14 (14 + hlen_of h) h (p_mem q) \<and> unat (p_len f) = unat (p_len q)
    \<and> icmp_input ot (q # qs) s =
      (if hlen_of h \<le> unat (p_len q) \<and> echo_request (netif s) h (p_mem q ! (14 + hlen_of h)) (drop (hlen_of h) (chain_bytes (q # qs)))
       then and_then (etharp_output (f # qs) (ip_of (drop 12 h)) s) (\<lambda>(_, t). Inr (pbuf_free (q # qs) t))
       else Inr (pbuf_free (q # qs) s))"
proof -
  let ?n = "hlen_of h" and ?m = "drop (hlen_of h) (chain_bytes (q # qs))"
  have q: "chain_ok (q # qs)" "p_payload q = 14" "length (p_mem q) = 1500" using assms(1) unfolding received_Cons by blast+
  have h: "read_at q 0 20 = Inr h" "length h = 20" using q(2,3) by (simp_all add: read_at_def assms(3))
  show ?thesis
  proof (cases "?n \<le> unat (p_len q)")
    case False
    define M where "M = echo_mem 14 (14 + ?n) h (p_mem q)"
    have f: "received 14 (q\<lparr>p_mem := M\<rparr> # qs)" by (rule received_mem [OF assms(1)]) (simp add: M_def echo_mem_def)
    from False have "pbuf_header (q # qs) (- int ?n) = None" by (intro pbuf_header_short) simp
    then have "icmp_input ot (q # qs) s = Inr (pbuf_free (q # qs) s)" using h by (simp add: icmp_input_def Let_def del: pbuf_free.simps)
    then show ?thesis using f False by (intro exI [of _ "q\<lparr>p_mem := M\<rparr>"]) (simp add: M_def del: pbuf_free.simps)
  next
    case True
    obtain r where r: "pbuf_header (q # qs) (- int ?n) = Some (r # qs)" "received (14 + ?n) (r # qs)" "chain_bytes (r # qs) = ?m"
      "p_mem r = p_mem q" "p_type r = p_type q" "unat (p_len r) = unat (p_len q) - ?n"
      using received_hide [OF assms(1) True] by blast
    have rr: "chain_ok (r # qs)" "p_payload r = 14 + ?n" "length (p_mem r) = 1500" using r(2) unfolding received_Cons by blast+
    have lm: "length ?m + ?n \<le> 1500" using assms(2) True q(1) by simp
    then have lr: "length (chain_bytes (r # qs)) \<le> 1500" "length (chain_bytes (r # qs)) + ?n \<le> 1500" unfolding r(3) by linarith+
    have free: "pbuf_free (r # qs) t = pbuf_free (q # qs) t" for t :: "'a ip_st_scheme" by (rule pbuf_free_types) (simp add: r(5))
    have tot: "unat (p_tot_len r) = length ?m" unfolding chain_tot_len [OF rr(1)] r(3) ..
    have lt: "p_tot_len r < 4 \<longleftrightarrow> length ?m < 4" "p_tot_len r < 8 \<longleftrightarrow> length ?m < 8" using tot by (simp_all add: word_less_nat_alt)
    have ty: "read_at r 0 1 = Inr [p_mem q ! (14 + ?n)]"
      using rr(2,3) r(4) hlen_le [of h] by (simp add: read_at_def take_Suc_conv_app_nth hd_drop_conv_nth take_Suc)
    have ck: "inet_chksum_pbuf (r # qs) = Inr (inet_chksum ?m)"
      using inet_chksum_pbuf_eq [OF rr(1)] lm unfolding r(3) by simp
    have rm: "icmp_echo_room (p_payload q) ?n (r # qs) s = Inr (Some (14, r # qs), s)"
      unfolding q(2) by (rule icmp_echo_room_received [OF r(2) assms(4) lr(1)])
    obtain f where f: "received 14 (f # qs)" "p_mem f = echo_mem 14 (14 + ?n) h (p_mem r)" "unat (p_len f) = unat (p_len r) + ?n"
      "icmp_echo_reply ot 14 h (r # qs) s = and_then (etharp_output (f # qs) (ip_of (drop 12 h)) s) (\<lambda>(_, t). Inr (pbuf_free (r # qs) t))"
      using icmp_echo_reply_received [OF r(2) lr(2) h(2) assms(4,5)] by blast
    have "icmp_input ot (q # qs) s =
      (if echo_request (netif s) h (p_mem q ! (14 + ?n)) ?m then icmp_echo_reply ot 14 h (r # qs) s else Inr (pbuf_free (r # qs) s))"
      using h r(1) lt ty ck rm by (auto simp: icmp_input_def Let_def echo_request_def simp del: pbuf_free.simps)
    then show ?thesis using f r(4,6) True unfolding free by (intro exI [of _ f]) (simp del: pbuf_free.simps)
  qed
qed


lemma received_same_length:
  assumes "received k (f # qs)" "received k (q # qs)" "unat (p_len f) = unat (p_len q)"
  shows "length (chain_bytes (f # qs)) = length (chain_bytes (q # qs))"
proof -
  have "node_ok f" "node_ok q" using assms(1,2) by (simp_all add: received_Cons)
  then show ?thesis using assms(3) by simp
qed

text \<open>With a header of at least five words every packet is handled safely and freed.\<close>

lemma icmp_input_safe:
  assumes "arp_ok s" "tx_ok s" "net_up s" "received 14 (q # qs)" "length (chain_bytes (q # qs)) \<le> 1500"
    and "20 \<le> hlen_of (take 20 (drop 14 (p_mem q)))"
  shows "\<exists>t. icmp_input ot (q # qs) s = Inr (pbuf_free (q # qs) t) \<and> arp_ok t \<and> tx_ok t \<and> ip_frame_only s t \<and> balanced s t"
proof -
  let ?h = "take 20 (drop 14 (p_mem q))"
  have m: "nif_mtu (netif s) = 1500" using assms(3) by (simp add: net_up_def)
  obtain f where f: "received 14 (f # qs)" "unat (p_len f) = unat (p_len q)"
    "icmp_input ot (q # qs) s =
      (if hlen_of ?h \<le> unat (p_len q) \<and> echo_request (netif s) ?h (p_mem q ! (14 + hlen_of ?h)) (drop (hlen_of ?h) (chain_bytes (q # qs)))
       then and_then (etharp_output (f # qs) (ip_of (drop 12 ?h)) s) (\<lambda>(_, t). Inr (pbuf_free (q # qs) t))
       else Inr (pbuf_free (q # qs) s))"
    using icmp_input_eq [OF assms(4,5) refl assms(6) m, of ot] by blast
  have "ip_packet (f # qs)"
    unfolding ip_packet_room using received_room [OF f(1)] received_same_length [OF f(1) assms(4) f(2)] assms(5) by simp
  then obtain e t where t: "etharp_output (f # qs) (ip_of (drop 12 ?h)) s = Inr (e, t)" "arp_ok t" "tx_ok t" "arp_frame_only s t" "balanced s t"
    using etharp_output_safe [OF assms(1,2)] by blast
  show ?thesis
  proof (cases "hlen_of ?h \<le> unat (p_len q) \<and> echo_request (netif s) ?h (p_mem q ! (14 + hlen_of ?h)) (drop (hlen_of ?h) (chain_bytes (q # qs)))")
    case True
    then show ?thesis using t(2-5) arp_frame_ip unfolding f(3) t(1) by auto
  next
    case False
    then show ?thesis using assms(1,2) unfolding f(3) by (auto simp: balanced_def simp del: pbuf_free.simps)
  qed
qed

lemma chain_bytes_replace:
  assumes "p_mem q = pre @ x @ z" "p_mem f = pre @ y @ z" "length x = length y" "p_payload q = length pre" "p_payload f = length pre"
    and "unat (p_len f) = unat (p_len q)" "length x \<le> unat (p_len q)" "chain_bytes (q # qs) = x @ w"
  shows "chain_bytes (f # qs) = y @ w"
proof -
  have "pbytes q = x @ take (unat (p_len q) - length x) z" "pbytes f = y @ take (unat (p_len q) - length x) z"
    using assms(1-7) by (simp_all add: pbytes_def)
  then show ?thesis using assms(8) by simp
qed

text \<open>C18: An echo request for the interface with a checksum that comes out right is answered to its sender: the reply has the
  addresses swapped, the time to live renewed, the type changed and the rest of the request. Both of its checksum fields are 0,
  as the code leaves them for the hardware to fill.\<close>

theorem ping_answered:
  assumes "arp_ok s" "tx_ok s" "net_up s" "length (tx_queue s) < 2"
    and "received 14 (q # qs)" "length (chain_bytes (q # qs)) \<le> 1500" "24 \<le> unat (p_len q)"
    and "chain_bytes (q # qs) = [0x45, tos] @ a @ [ttl, 1, c1, c2] @ ip_bytes src @ ip_bytes (nif_ip_addr (netif s)) @ m"
    and "m = [8, code, k1, k2] @ rest" "length a = 6" "4 \<le> length rest" "inet_chksum m = 0"
    and "unicast (nif_ip_addr (netif s)) (netif s)" "reachable src (netif s)" "known_at (next_hop src (netif s)) mac (arp_table s)"
  shows "\<exists>t. icmp_input ot (q # qs) s = Inr (pbuf_free (q # qs) t) \<and> arp_ok t \<and> tx_ok t
    \<and> tx_queue t = tx_queue s @ [eth_frame mac (nif_hwaddr (netif s)) 0x0800
        ([0x45, tos] @ a @ [255, 1, 0, 0] @ ip_bytes (nif_ip_addr (netif s)) @ ip_bytes src @ [0, code, 0, 0] @ rest)]"
proof -
  let ?ip = "nif_ip_addr (netif s)"
  let ?a = "[0x45, tos] @ a"
  have q: "p_payload q = 14" "length (p_mem q) = 1500" "node_ok q" using assms(5) by (simp_all add: received_Cons)
  have lip: "length (ip_bytes x) = 4" for x by simp
  define x where "x = ?a @ [ttl, 1, c1, c2] @ ip_bytes src @ ip_bytes ?ip @ [8, code, k1, k2]"
  define z where "z = drop 24 (drop 14 (p_mem q))"
  define y where "y = ?a @ [255, 1, 0, 0] @ ip_bytes ?ip @ ip_bytes src @ [0, code, 0, 0]"
  have lx: "length x = 24" "length y = 24" using assms(10) by (simp_all add: x_def y_def)
  have cb: "chain_bytes (q # qs) = x @ rest" using assms(8,9) by (simp add: x_def)
  have "take 24 (chain_bytes (q # qs)) = take 24 (drop 14 (p_mem q))" using assms(7) q by (simp add: pbytes_def)
  then have t: "take 24 (drop 14 (p_mem q)) = x" unfolding cb using lx by simp
  have M: "p_mem q = take 14 (p_mem q) @ x @ z" unfolding z_def t [symmetric] by (simp only: append_take_drop_id)
  define h where "h = take 20 (drop 14 (p_mem q))"
  have "h = take 20 x" unfolding h_def t [symmetric] by simp
  then have h: "h = ?a @ [ttl, 1, c1, c2] @ ip_bytes src @ ip_bytes ?ip" using assms(10) by (simp add: x_def)
  have hl: "hlen_of h = 20" by (simp add: h hlen_of_def)
  have hd: "drop 12 h = ip_bytes src @ ip_bytes ?ip" "drop 16 h = ip_bytes ?ip" using assms(10) by (simp_all add: h)
  have ty: "p_mem q ! 34 = 8"
  proof -
    have "p_mem q ! 34 = take 24 (drop 14 (p_mem q)) ! 20" using q(2) by simp
    also have "\<dots> = 8" unfolding t using assms(10) by (simp add: x_def nth_append)
    finally show ?thesis .
  qed
  have m: "drop 20 (chain_bytes (q # qs)) = m" unfolding assms(8) using assms(10) by simp
  have mt: "nif_mtu (netif s) = 1500" using assms(3) by (simp add: net_up_def)
  have echo: "echo_request (netif s) h (p_mem q ! (14 + 20)) m"
    using ty assms(9,11-13) hd(2) by (simp add: echo_request_def unicast_def)
  have ge: "20 \<le> hlen_of h" by (simp add: hl)
  obtain f where f: "received 14 (f # qs)" "p_mem f = echo_mem 14 (14 + 20) h (p_mem q)" "unat (p_len f) = unat (p_len q)"
    "icmp_input ot (q # qs) s = and_then (etharp_output (f # qs) src s) (\<lambda>(_, t). Inr (pbuf_free (q # qs) t))"
    using icmp_input_eq [OF assms(5,6) h_def ge mt, of ot] echo m assms(7) unfolding hl hd ip_of_bytes by auto
  have l14: "length (take 14 (p_mem q)) = 14" using q(2) by simp
  have "p_mem f = take 14 (p_mem q) @ y @ z"
    using echo_mem_bytes [OF l14 _ lip lip h_def [symmetric], of ?a ttl 1 c1 c2 src ?ip 8 code k1 k2 z] assms(10) M
    unfolding f(2) x_def y_def by simp
  then have fb: "chain_bytes (f # qs) = y @ rest"
    using chain_bytes_replace [OF M, of f y qs rest] lx q(1,2) f(1,3) assms(7) cb by (simp add: received_Cons)
  have ipk: "ip_packet (f # qs)"
    unfolding ip_packet_room using received_room [OF f(1)] received_same_length [OF f(1) assms(5) f(3)] assms(6) by simp
  obtain t where t: "etharp_output (f # qs) src s = Inr (ERR_OK, t)" "arp_ok t" "tx_ok t" "arp_frame_only s t"
    "tx_queue t = tx_queue s @ [eth_frame mac (nif_hwaddr (netif s)) 0x0800 (y @ rest)]"
    using etharp_output_known [OF assms(1,2) ipk assms(14,15)] assms(4) unfolding fb by blast
  show ?thesis using f(4) t by (intro exI [of _ t]) (simp add: y_def del: pbuf_free.simps)
qed


text \<open>C19: Nothing checks that the header has five words. A packet of 16 bytes whose header claims two words passes
  as an echo request; it is copied to a heap block of its size, and swapping the addresses writes behind the block.\<close>

theorem short_header_overflow:
  assumes "received 14 [q]" "p_len q = 16" "h = take 20 (drop 14 (p_mem q))" "hlen_of h = 8"
    and "p_mem q ! 22 = 8" "inet_chksum (drop 8 (chain_bytes [q])) = 0" "unicast (ip_of (drop 16 h)) (netif s)" "heap_grants s"
  shows "icmp_input ot [q] s = Inl Undefined"
proof -
  have q: "chain_ok [q]" "p_payload q = 14" "length (p_mem q) = 1500" "p_type q = PBUF_POOL" using assms(1) by (simp_all add: received_Cons)
  have h: "read_at q 0 20 = Inr h" using q(2,3) by (simp add: read_at_def assms(3))
  obtain r where r: "pbuf_header [q] (- int 8) = Some [r]" "received (14 + 8) [r]" "chain_bytes [r] = drop 8 (chain_bytes [q])"
    "p_mem r = p_mem q" "p_type r = p_type q" "unat (p_len r) = unat (p_len q) - 8"
    using received_hide [OF assms(1), of 8] assms(2) by auto
  have rr: "chain_ok [r]" "p_payload r = 22" "length (p_mem r) = 1500" using r(2) by (simp_all add: received_Cons)
  have lr: "length (chain_bytes [r]) = 8" using rr(1) r(6) assms(2) by simp
  have tot: "unat (p_tot_len r) = 8" using chain_tot_len [OF rr(1)] lr by simp
  have lt: "\<not> p_tot_len r < 4" "\<not> p_tot_len r < 8" using tot by (simp_all add: word_less_nat_alt)
  have ty: "read_at r 0 1 = Inr [8]" using rr(2,3) r(4) assms(5) by (simp add: read_at_def take_Suc hd_drop_conv_nth)
  have ck: "inet_chksum_pbuf [r] = Inr 0"
    using inet_chksum_pbuf_eq [OF rr(1)] lr assms(6) unfolding r(3) by simp
  have none: "pbuf_header [r] 34 = None" using rr(2) r(5) q(4) by (simp add: pbuf_header_def Let_def)
  obtain f where f: "pbuf_header [r] (int 8) = Some [f]" "received 14 [f]" "unat (p_len f) = 16"
    using received_reveal [OF r(2)] lr r(6) assms(2) by auto
  have ff: "chain_ok [f]" "p_type f = PBUF_POOL" using f(2) by (simp_all add: received_Cons)
  have nf: "node_ok f" "unat (p_tot_len f) = unat (p_len f)" using ff(1) by simp_all
  have ft: "p_tot_len f = 16" using nf(2) f(3) by (simp add: word_unat_eq_iff)
  define n where "n = \<lparr>p_type = PBUF_RAM, p_mem = fresh_mem 32 s, p_payload = 16, p_len = 16, p_tot_len = 16\<rparr>"
  define u where "u = s\<lparr>ram_live := ram_live s + 1, requests := requests s + 1\<rparr>"
  have al: "pbuf_alloc PBUF_LINK 16 PBUF_RAM s = (Some [n], u)"
    using assms(8) by (simp add: pbuf_alloc_def mem_malloc_def heap_grants_def Let_def align4_def layer_offset_def n_def u_def)
  have n: "chain_ok [n]" "length (chain_bytes [n]) = 16" by (simp_all add: n_def node_ok_def pbytes_def)
  have "length (chain_bytes [f]) \<le> length (chain_bytes [n])" using n(2) nf(1) f(3) by simp
  then obtain d where d: "pbuf_copy [n] [f] = Inr (ERR_OK, d)" "list_all2 same_shape [n] d"
    using pbuf_copy_spec [OF n(1) ff(1)] by (auto simp: no_gaps_def)
  obtain m where m: "d = [m]" "same_shape n m" using d(2) by (auto simp: list_all2_Cons1)
  have mf: "p_type m = PBUF_RAM" "p_payload m = 16" "p_len m = 16" "length (p_mem m) = 32"
    using same_shape_fields [OF m(2)] by (simp_all add: n_def)
  define g where "g = m\<lparr>p_payload := 24, p_len := p_len m + of_int (- int 8), p_tot_len := p_tot_len m + of_int (- int 8)\<rparr>"
  have g: "pbuf_header [m] (- int 8) = Some [g]" using mf by (simp add: pbuf_header_def Let_def g_def)
  have rm: "icmp_echo_room 14 8 [r] s = Inr (Some (16, [g]), pbuf_free [f] u)"
    using none f(1) ft al d(1) m(1) g mf(2) by (simp add: icmp_echo_room_def del: pbuf_free.simps)
  have "length (p_mem g) = 32" using mf(4) by (simp add: g_def)
  then have "icmp_echo_reply ot 16 h [g] v = Inl Undefined" for v :: "'a ip_st_scheme"
    using assms(3) q(3) by (simp add: icmp_echo_reply_def poke_def)
  moreover have "\<not> ip_addr_ismulticast (ip_of (drop 16 h))" "\<not> ip_addr_isbroadcast (ip_of (drop 16 h)) (netif s)"
    using assms(7) by (simp_all add: unicast_def)
  ultimately show ?thesis using h assms(4) r(1) lt ty ck rm q(2) by (simp add: icmp_input_def Let_def)
qed

section \<open>Witnesses\<close>

text \<open>The demonstration interface, up, with one known host.\<close>

definition ip_demo :: ip_st where
  "ip_demo = arp_st.extend (arp_demo\<lparr>netif := (netif arp_demo)\<lparr>nif_flags := 0x33\<rparr>,
     arp_table := (arp_table arp_demo)[0 := \<lparr>ae_q = [], ae_ipaddr = 0x0D0AA8C0, ae_ethaddr = [2, 0, 0, 0, 0, 13],
       ae_state = ETHARP_STATE_STABLE, ae_ctime = 0\<rparr>]\<rparr>)
     \<lparr>ip_id = 0, nif_listed = True, nif_loop = False, nif_default = True\<rparr>"

lemma ip_demo_fields:
  "netif ip_demo = \<lparr>nif_ip_addr = 0x640AA8C0, nif_netmask = 0x00FFFFFF, nif_gw = 0x010AA8C0, nif_hwaddr = [2, 0, 0, 0, 0, 100],
     nif_mtu = 1500, nif_flags = 0x33\<rparr>"
  "arp_table ip_demo = (replicate 10 \<lparr>ae_q = [], ae_ipaddr = 0, ae_ethaddr = ethzero, ae_state = ETHARP_STATE_EMPTY, ae_ctime = 0\<rparr>)
     [0 := \<lparr>ae_q = [], ae_ipaddr = 0x0D0AA8C0, ae_ethaddr = [2, 0, 0, 0, 0, 13], ae_state = ETHARP_STATE_STABLE, ae_ctime = 0\<rparr>]"
  "etharp_cached_entry ip_demo = 0" "ram_live ip_demo = 0" "pool_free ip_demo = 10" "arpq_free ip_demo = 30"
  "ram_ok ip_demo = (\<lambda>_ _. True)" "ip_id ip_demo = 0" "nif_listed ip_demo" "\<not> nif_loop ip_demo" "nif_default ip_demo"
  using arp_demo_fields by (simp_all add: ip_demo_def arp_st.defs)

lemma ip_demo_ok:
  "arp_ok ip_demo" "tx_ok ip_demo" "rx_ok ip_demo" "tx_queue ip_demo = []" "rx_queue ip_demo = []" "heap_grants ip_demo" "net_up ip_demo"
proof -
  show "tx_ok ip_demo" "rx_ok ip_demo" "tx_queue ip_demo = []" "rx_queue ip_demo = []"
    using arp_demo_ok unfolding ip_demo_def arp_st.defs
    by (simp_all add: tx_ok_def tx_slots_def tx_queue_def rx_ok_def rx_slots_def rx_queue_def)
  show "heap_grants ip_demo" by (simp add: heap_grants_def ip_demo_fields(7))
  show "net_up ip_demo" by (simp add: net_up_def netif_is_up_def ip_demo_fields)
  have T: "length (arp_table ip_demo) = 10" "\<And>i. i < 10 \<Longrightarrow> ae_q (arp_table ip_demo ! i) = [] \<and> (ae_state (arp_table ip_demo ! i) \<noteq> ETHARP_STATE_EMPTY \<longrightarrow> i = 0)
      \<and> length (ae_ethaddr (arp_table ip_demo ! i)) = 6"
    unfolding ip_demo_fields(2) by (auto simp: nth_list_update)
  have z: "\<forall>n \<in> set (map (length \<circ> ae_q) (arp_table ip_demo)). n = 0" using T by (auto simp: in_set_conv_nth)
  then have "sum_list (map (length \<circ> ae_q) (arp_table ip_demo)) = 0" by (simp add: sum_list_eq_0_iff)
  then have "queued ip_demo = 0" by (simp add: queued_def)
  moreover have "one_each (arp_table ip_demo)" using T unfolding one_each_def live_def by metis
  moreover have "list_all entry_ok (arp_table ip_demo)" using T by (simp add: list_all_length entry_ok_def)
  ultimately show "arp_ok ip_demo" using T(1) ip_demo_fields(1,3) by (simp add: arp_ok_def)
qed

lemma ip_demo_host:
  "reachable 0x0D0AA8C0 (netif ip_demo)" "known_at (next_hop 0x0D0AA8C0 (netif ip_demo)) [2, 0, 0, 0, 0, 13] (arp_table ip_demo)"
  "unicast 0x640AA8C0 (netif ip_demo)"
proof -
  have n: "next_hop 0x0D0AA8C0 (netif ip_demo) = 0x0D0AA8C0" by (simp add: next_hop_def ip_addr_netcmp_def ip_demo_fields(1))
  show "reachable 0x0D0AA8C0 (netif ip_demo)"
    unfolding reachable_def n by (simp add: unicast_def ip_addr_isbroadcast_def ip_addr_netcmp_def ip_addr_ismulticast_def ip_demo_fields(1))
  show "known_at (next_hop 0x0D0AA8C0 (netif ip_demo)) [2, 0, 0, 0, 0, 13] (arp_table ip_demo)"
    unfolding n known_at_def ip_demo_fields(2) by (intro exI [of _ 0]) simp
  show "unicast 0x640AA8C0 (netif ip_demo)"
    by (simp add: unicast_def ip_addr_isbroadcast_def ip_addr_netcmp_def ip_addr_ismulticast_def ip_demo_fields(1))
qed

text \<open>A received packet in one buffer of the pool.\<close>

definition pool_node :: "u8 list \<Rightarrow> pnode" where
  "pool_node bs = \<lparr>p_type = PBUF_POOL, p_mem = replicate 14 0 @ bs @ replicate (1486 - length bs) 0, p_payload = 14,
     p_len = of_nat (length bs), p_tot_len = of_nat (length bs)\<rparr>"

lemma pool_node:
  assumes "length bs \<le> 1486"
  shows "received 14 [pool_node bs]" "chain_bytes [pool_node bs] = bs" "unat (p_len (pool_node bs)) = length bs"
    "drop 14 (p_mem (pool_node bs)) = bs @ replicate (1486 - length bs) 0"
proof -
  have l: "unat (of_nat (length bs) :: u16) = length bs" using assms by (simp add: unat_of_nat take_bit_nat_def)
  then show "received 14 [pool_node bs]" "chain_bytes [pool_node bs] = bs" "unat (p_len (pool_node bs)) = length bs"
    "drop 14 (p_mem (pool_node bs)) = bs @ replicate (1486 - length bs) 0"
    using assms by (auto simp: received_def pool_node_def node_ok_def no_gaps_def pbytes_def)
qed

theorem ping_answered_witness:
  "\<exists>q t. icmp_input drop_others [q] ip_demo = Inr t
     \<and> tx_queue t = [eth_frame [2, 0, 0, 0, 0, 13] [2, 0, 0, 0, 0, 100] 0x0800
        ([0x45, 0, 0, 28, 0, 0, 0, 0, 255, 1, 0, 0, 192, 168, 10, 100, 192, 168, 10, 13, 0, 0, 0, 0, 0, 1, 0, 1])]"
proof -
  let ?m = "[8, 0, 0xF7, 0xFD, 0, 1, 0, 1] :: u8 list"
  let ?b = "[0x45, 0, 0, 28, 0, 0, 0, 0, 64, 1, 0, 0] @ ip_bytes 0x0D0AA8C0 @ ip_bytes 0x640AA8C0 @ ?m"
  let ?q = "pool_node ?b"
  have n: "nif_ip_addr (netif ip_demo) = 0x640AA8C0" by (simp add: ip_demo_fields(1))
  have ib: "ip_bytes 0x0D0AA8C0 = [192, 168, 10, 13]" "ip_bytes 0x640AA8C0 = [192, 168, 10, 100]"
    by (simp_all add: ip_bytes_def byte_of32_def drop_bit_eq_div word_div_def)
  have l: "length ?b = 28" "length ?b \<le> 1486" by simp_all
  note p = pool_node [OF l(2)]
  have ck: "inet_chksum ?m = 0"
    by (simp add: inet_chksum_def lwip_standard_chksum_def FOLD_U32T_def Let_def htons_def drop_bit_eq_div word_div_def)
  have len: "length (chain_bytes [?q]) \<le> 1500" "24 \<le> unat (p_len ?q)" unfolding p(2,3) using l by simp_all
  have cb: "chain_bytes [?q] = [0x45, 0] @ [0, 28, 0, 0, 0, 0] @ [64, 1, 0, 0] @ ip_bytes 0x0D0AA8C0 @ ip_bytes (nif_ip_addr (netif ip_demo)) @ ?m"
    unfolding p(2) n by simp
  have tx: "length (tx_queue ip_demo) < 2" by (simp add: ip_demo_ok(4))
  have m: "?m = [8, 0, 0xF7, 0xFD] @ [0, 1, 0, 1]" by simp
  have l6: "length [0, 28, 0, 0, 0, 0 :: u8] = 6" "4 \<le> length [0, 1, 0, 1 :: u8]" by simp_all
  have uni: "unicast (nif_ip_addr (netif ip_demo)) (netif ip_demo)" unfolding n by (rule ip_demo_host(3))
  from ping_answered [OF ip_demo_ok(1,2,7) tx p(1) len cb m l6 ck uni ip_demo_host(1,2), of drop_others] obtain t where
    t: "icmp_input drop_others [?q] ip_demo = Inr (pbuf_free [?q] t)" "tx_queue t = tx_queue ip_demo @ [eth_frame [2, 0, 0, 0, 0, 13] (nif_hwaddr (netif ip_demo)) 0x0800
        ([0x45, 0] @ [0, 28, 0, 0, 0, 0] @ [255, 1, 0, 0] @ ip_bytes (nif_ip_addr (netif ip_demo)) @ ip_bytes 0x0D0AA8C0 @ [0, 0, 0, 0] @ [0, 1, 0, 1])]"
    by blast
  have "tx_queue (pbuf_free [?q] t) = [eth_frame [2, 0, 0, 0, 0, 13] [2, 0, 0, 0, 0, 100] 0x0800
        ([0x45, 0, 0, 28, 0, 0, 0, 0, 255, 1, 0, 0, 192, 168, 10, 100, 192, 168, 10, 13, 0, 0, 0, 0, 0, 1, 0, 1])]"
    using t(2) unfolding n ib pbuf_free_eth(3) by (simp add: ip_demo_ok(4) ip_demo_fields(1))
  then show ?thesis using t(1) by blast
qed

theorem short_header_overflow_witness:
  "\<exists>q. received 14 [q] \<and> icmp_input drop_others [q] ip_demo = Inl Undefined"
proof -
  let ?b = "[0x42, 0, 0, 16, 0, 0, 0, 0, 8, 1, 0x2D, 0x49] @ ip_bytes 0x0D0AA8C0"
  let ?q = "(pool_node ?b)\<lparr>p_mem := replicate 14 0 @ ?b @ ip_bytes 0x640AA8C0 @ replicate 1466 0\<rparr>"
  have ib: "ip_bytes 0x0D0AA8C0 = [192, 168, 10, 13]" by (simp add: ip_bytes_def byte_of32_def drop_bit_eq_div word_div_def)
  have l: "length ?b = 16" by simp
  have r: "received 14 [?q]" "chain_bytes [?q] = ?b" "p_len ?q = 16"
    by (auto simp: received_def pool_node_def node_ok_def no_gaps_def pbytes_def)
  let ?h = "?b @ ip_bytes 0x640AA8C0"
  have h: "?h = take 20 (drop 14 (p_mem ?q))" by simp
  have m: "p_mem ?q ! 22 = 8" by (simp add: nth_append)
  have d8: "drop 8 (chain_bytes [?q]) = [8, 1, 0x2D, 0x49, 192, 168, 10, 13]" unfolding r(2) by (simp add: ib)
  have ck: "inet_chksum (drop 8 (chain_bytes [?q])) = 0"
    unfolding d8
    by (simp add: inet_chksum_def lwip_standard_chksum_def FOLD_U32T_def Let_def htons_def drop_bit_eq_div word_div_def)
  have u: "unicast (ip_of (drop 16 ?h)) (netif ip_demo)" using ip_demo_host(3) by simp
  have hl: "hlen_of ?h = 8" by (simp add: hlen_of_def)
  show ?thesis using short_header_overflow [OF r(1,3) h hl m ck u ip_demo_ok(6)] r(1) by blast
qed

end
