(* ===== verification/Udp.thy ===== *)
theory Udp
  imports Icmp
begin

text \<open>
  \<open>udp.c\<close>: the protocol control blocks, binding and connecting, sending, and the choice of the block an
  incoming datagram belongs to. The receive function is an argument of \<open>udp_input\<close>.
\<close>

section \<open>State\<close>

text \<open>The protocol control blocks are numbered by their places in the pool of \<open>memp.c\<close>. The receive
  function of a block is the one the program registers for all of them; \<open>up_recv\<close> says whether it is set.\<close>

record udp_pcb =
  up_local_ip :: u32
  up_remote_ip :: u32
  up_tos :: u8
  up_ttl :: u8
  up_flags :: u8
  up_local_port :: u16
  up_remote_port :: u16
  up_recv :: bool

record stack_st = ip_st +
  pcb_mem :: "udp_pcb list"
  pcb_free :: "nat list"   \<comment> \<open>the free list of \<open>MEMP_UDP_PCB\<close>\<close>
  udp_pcbs :: "nat list"   \<comment> \<open>the active list\<close>

abbreviation (input) "MEMP_NUM_UDP_PCB \<equiv> 6 :: nat"
abbreviation (input) "UDP_FLAGS_CONNECTED \<equiv> 4 :: u8"
abbreviation (input) "UDP_LOCAL_PORT_RANGE_START \<equiv> 4096 :: u16"
abbreviation (input) "UDP_LOCAL_PORT_RANGE_END \<equiv> 0x7FFF :: u16"
abbreviation (input) "IP_PROTO_UDP \<equiv> 17 :: u8"
abbreviation (input) "ICMP_DUR_PORT \<equiv> 3 :: u8"

text \<open>The receive function: block, packet, address and port of the sender.\<close>

type_synonym 's receiver = "nat \<Rightarrow> chain \<Rightarrow> u32 \<Rightarrow> u16 \<Rightarrow> 's \<Rightarrow> 's result"

definition pcb_of :: "nat \<Rightarrow> 'a stack_st_scheme \<Rightarrow> udp_pcb" where
  "pcb_of k s = pcb_mem s ! k"

definition set_pcb :: "nat \<Rightarrow> (udp_pcb \<Rightarrow> udp_pcb) \<Rightarrow> 'a stack_st_scheme \<Rightarrow> 'a stack_st_scheme" where
  "set_pcb k f s = s\<lparr>pcb_mem := (pcb_mem s)[k := f (pcb_mem s ! k)]\<rparr>"

section \<open>Blocks\<close>

definition udp_new :: "'a stack_st_scheme \<Rightarrow> nat option \<times> 'a stack_st_scheme" where
  "udp_new s = (case pcb_free s of
      [] \<Rightarrow> (None, s)
    | k # ks \<Rightarrow> (Some k, set_pcb k (\<lambda>_. \<lparr>up_local_ip = 0, up_remote_ip = 0, up_tos = 0, up_ttl = 255, up_flags = 0,
        up_local_port = 0, up_remote_port = 0, up_recv = False\<rparr>) (s\<lparr>pcb_free := ks\<rparr>)))"

text \<open>The search for an unused port: \<open>used\<close> are the ports of the active blocks, \<open>rest\<close> those not compared
  yet. The search starts again with the next port when the port is used.\<close>

function scan_ports :: "u16 list \<Rightarrow> u16 list \<Rightarrow> u16 \<Rightarrow> u16 option" where
  "scan_ports used rest port = (case rest of
      [] \<Rightarrow> Some port
    | p # ps \<Rightarrow>
        if port = UDP_LOCAL_PORT_RANGE_END then None
        else if p = port then scan_ports used used (port + 1)
        else scan_ports used ps port)"
  by pat_completeness auto
termination
proof (relation "measures [\<lambda>(used, rest, port). unat (UDP_LOCAL_PORT_RANGE_END - port), \<lambda>(used, rest, port). length rest]", goal_cases)
  case (2 used rest port p ps)
  define x where "x = UDP_LOCAL_PORT_RANGE_END - port"
  have "x \<noteq> 0" using 2(2) by (simp add: x_def)
  then have "unat (x - 1) < unat x" by (simp add: unat_minus_one unat_gt_0)
  moreover have "UDP_LOCAL_PORT_RANGE_END - (port + 1) = x - 1" unfolding x_def by (rule diff_diff_eq [symmetric])
  ultimately show ?case by (simp only: in_measures prod.case x_def simp_thms)
qed auto

declare scan_ports.simps [simp del]

definition udp_bind :: "nat \<Rightarrow> u32 \<Rightarrow> u16 \<Rightarrow> 'a stack_st_scheme \<Rightarrow> err \<times> 'a stack_st_scheme" where
  "udp_bind k ipaddr port s =
     (let rebind = k \<in> set (udp_pcbs s);
          s = set_pcb k (\<lambda>p. p\<lparr>up_local_ip := ipaddr\<rparr>) s;
          used = map (\<lambda>i. up_local_port (pcb_of i s)) (udp_pcbs s)
      in case (if port = 0 then scan_ports used used UDP_LOCAL_PORT_RANGE_START else Some port) of
           None \<Rightarrow> (ERR_USE, s)
         | Some port \<Rightarrow>
             let s = set_pcb k (\<lambda>p. p\<lparr>up_local_port := port\<rparr>) s
             in (ERR_OK, if rebind then s else s\<lparr>udp_pcbs := k # udp_pcbs s\<rparr>))"

definition udp_connect :: "nat \<Rightarrow> u32 \<Rightarrow> u16 \<Rightarrow> 'a stack_st_scheme \<Rightarrow> err \<times> 'a stack_st_scheme" where
  "udp_connect k ipaddr port s =
     (let (e, s) = (if up_local_port (pcb_of k s) = 0 then udp_bind k (up_local_ip (pcb_of k s)) 0 s else (ERR_OK, s)) in
      if e \<noteq> ERR_OK then (e, s)
      else
        let s = set_pcb k (\<lambda>p. p\<lparr>up_remote_ip := ipaddr, up_remote_port := port, up_flags := up_flags p OR UDP_FLAGS_CONNECTED\<rparr>) s
        in (ERR_OK, if k \<in> set (udp_pcbs s) then s else s\<lparr>udp_pcbs := k # udp_pcbs s\<rparr>))"

definition udp_disconnect :: "nat \<Rightarrow> 'a stack_st_scheme \<Rightarrow> 'a stack_st_scheme" where
  "udp_disconnect k s = set_pcb k (\<lambda>p. p\<lparr>up_remote_ip := 0, up_remote_port := 0, up_flags := up_flags p AND NOT UDP_FLAGS_CONNECTED\<rparr>) s"

definition udp_recv :: "nat \<Rightarrow> 'a stack_st_scheme \<Rightarrow> 'a stack_st_scheme" where
  "udp_recv k s = set_pcb k (\<lambda>p. p\<lparr>up_recv := True\<rparr>) s"

definition udp_remove :: "nat \<Rightarrow> 'a stack_st_scheme \<Rightarrow> 'a stack_st_scheme" where
  "udp_remove k s = s\<lparr>udp_pcbs := remove1 k (udp_pcbs s), pcb_free := k # pcb_free s\<rparr>"

section \<open>Sending\<close>

text \<open>The packet with the UDP header in front, and the header to be freed after sending when it needed a
  structure of its own (\<open>pbuf_chain\<close> takes a reference to the packet, which therefore stays).\<close>

definition udp_headroom :: "chain \<Rightarrow> 'a stack_st_scheme \<Rightarrow> (chain \<times> chain) option \<times> 'a stack_st_scheme" where
  "udp_headroom p s = (case pbuf_header p 8 of
      Some q \<Rightarrow> (Some (q, []), s)
    | None \<Rightarrow> (case pbuf_alloc PBUF_IP 8 PBUF_RAM s of
          (None, s) \<Rightarrow> (None, s)
        | (Some q, s) \<Rightarrow> (Some (pbuf_cat q p, q), s)))"

definition udp_sendto_if :: "'a stack_st_scheme others \<Rightarrow> nat \<Rightarrow> chain \<Rightarrow> u32 \<Rightarrow> u16 \<Rightarrow> 'a stack_st_scheme \<Rightarrow> (err \<times> 'a stack_st_scheme) result" where
  "udp_sendto_if ot k p dst_ip dst_port s =
     (let (e, s) = (if up_local_port (pcb_of k s) = 0 then udp_bind k (up_local_ip (pcb_of k s)) 0 s else (ERR_OK, s)) in
      if e \<noteq> ERR_OK then Inr (e, s)
      else case udp_headroom p s of
        (None, s) \<Rightarrow> Inr (ERR_MEM, s)
      | (Some ([], own), s) \<Rightarrow> Inl Undefined
      | (Some (q # qs, own), s) \<Rightarrow>
          let pcb = pcb_of k s in
          and_then (write_at q 0 (be16 (up_local_port pcb) @ be16 dst_port)) (\<lambda>q.
          and_then (write_at q 6 [0, 0]) (\<lambda>q.
          if up_local_ip pcb \<noteq> 0 \<and> up_local_ip pcb \<noteq> nif_ip_addr (netif s) then Inr (ERR_VAL, pbuf_free own s)
          else
            let src_ip = (if up_local_ip pcb = 0 then nif_ip_addr (netif s) else up_local_ip pcb) in
            and_then (write_at q 4 (be16 (p_tot_len q))) (\<lambda>q.
            and_then (ip_output_if ot (q # qs) src_ip (Some dst_ip) (up_ttl pcb) (up_tos pcb) IP_PROTO_UDP s) (\<lambda>(e, s).
              Inr (e, pbuf_free own s))))))"

definition udp_sendto :: "'a stack_st_scheme others \<Rightarrow> nat \<Rightarrow> chain \<Rightarrow> u32 \<Rightarrow> u16 \<Rightarrow> 'a stack_st_scheme \<Rightarrow> (err \<times> 'a stack_st_scheme) result" where
  "udp_sendto ot k p dst_ip dst_port s =
     and_then (ip_route dst_ip s) (\<lambda>found. if found then udp_sendto_if ot k p dst_ip dst_port s else Inr (ERR_RTE, s))"

definition udp_send :: "'a stack_st_scheme others \<Rightarrow> nat \<Rightarrow> chain \<Rightarrow> 'a stack_st_scheme \<Rightarrow> (err \<times> 'a stack_st_scheme) result" where
  "udp_send ot k p s = udp_sendto ot k p (up_remote_ip (pcb_of k s)) (up_remote_port (pcb_of k s)) s"

section \<open>Receiving\<close>

text \<open>The loop over the active blocks: \<open>l\<close> compares the local, \<open>r\<close> the remote address and port, \<open>u\<close> says whether
  a block is unconnected. The result is the block and the list, with a full match moved to its front.\<close>

fun udp_scan :: "(nat \<Rightarrow> bool) \<Rightarrow> (nat \<Rightarrow> bool) \<Rightarrow> (nat \<Rightarrow> bool) \<Rightarrow> nat list \<Rightarrow> nat option \<Rightarrow> nat list \<Rightarrow> nat option \<times> nat list" where
  "udp_scan l r u seen uncon [] = (uncon, seen)"
| "udp_scan l r u seen uncon (k # ks) =
     (let uncon = (if l k \<and> uncon = None \<and> u k then Some k else uncon) in
      if l k \<and> r k then (Some k, if seen \<noteq> [] then k # seen @ ks else k # ks)
      else udp_scan l r u (seen @ [k]) uncon ks)"

definition local_match :: "bool \<Rightarrow> u32 \<Rightarrow> u16 \<Rightarrow> udp_pcb \<Rightarrow> bool" where
  "local_match broadcast ip port pcb \<longleftrightarrow>
     up_local_port pcb = port \<and> (\<not> broadcast \<and> up_local_ip pcb = 0 \<or> up_local_ip pcb = ip \<or> broadcast)"

definition remote_match :: "u32 \<Rightarrow> u16 \<Rightarrow> udp_pcb \<Rightarrow> bool" where
  "remote_match ip port pcb \<longleftrightarrow> up_remote_port pcb = port \<and> (up_remote_ip pcb = 0 \<or> up_remote_ip pcb = ip)"

definition unconnected :: "udp_pcb \<Rightarrow> bool" where
  "unconnected pcb \<longleftrightarrow> up_flags pcb AND UDP_FLAGS_CONNECTED = 0"

definition udp_input :: "'a stack_st_scheme others \<Rightarrow> 'a stack_st_scheme receiver \<Rightarrow> chain \<Rightarrow> 'a stack_st_scheme \<Rightarrow> 'a stack_st_scheme result" where
  "udp_input ot recv p s = (case p of [] \<Rightarrow> Inl Undefined | q # _ \<Rightarrow>
      and_then (read_at q 0 20) (\<lambda>h.
      let hlen = hlen_of h; src_ip = ip_of (drop 12 h); dest_ip = ip_of (drop 16 h) in
      if unat (p_tot_len q) < hlen + 8 then Inr (pbuf_free p s)
      else case pbuf_header p (- int hlen) of
        None \<Rightarrow> Inr (pbuf_free p s)
      | Some p \<Rightarrow> (case p of [] \<Rightarrow> Inl Undefined | f # _ \<Rightarrow>
          and_then (read_at f 0 8) (\<lambda>udphdr.
          let broadcast = ip_addr_isbroadcast dest_ip (netif s);
              src = of_be16 udphdr; dest = of_be16 (drop 2 udphdr);
              (pcb, pcbs) = udp_scan (\<lambda>k. local_match broadcast dest_ip dest (pcb_of k s)) (\<lambda>k. remote_match src_ip src (pcb_of k s))
                              (\<lambda>k. unconnected (pcb_of k s)) [] None (udp_pcbs s);
              s = s\<lparr>udp_pcbs := pcbs\<rparr>
          in
          if pcb \<noteq> None \<or> nif_ip_addr (netif s) = dest_ip then
            (case pbuf_header p (- 8) of
               None \<Rightarrow> Inr (pbuf_free p s)
             | Some p \<Rightarrow> (case pcb of
                 Some k \<Rightarrow> if up_recv (pcb_of k s) then recv k p src_ip src s else Inr (pbuf_free p s)
               | None \<Rightarrow>
                   and_then
                     (if \<not> broadcast \<and> \<not> ip_addr_ismulticast dest_ip
                      then icmp_dest_unreach ot (case pbuf_header p (int (hlen + 8)) of Some r \<Rightarrow> r | None \<Rightarrow> p) ICMP_DUR_PORT s
                      else Inr s)
                     (\<lambda>s. Inr (pbuf_free p s))))
          else Inr (pbuf_free p s)))))"


section \<open>Ports\<close>

text \<open>The port found is the first one from \<open>port\<close> on that no active block has.\<close>

lemma scan_ports_Some:
  assumes "scan_ports used rest port = Some p" "set rest \<subseteq> set used" "\<forall>x\<in>set used - set rest. x \<noteq> port" "port \<le> UDP_LOCAL_PORT_RANGE_END"
  shows "p \<notin> set used \<and> port \<le> p \<and> p \<le> UDP_LOCAL_PORT_RANGE_END \<and> (\<forall>x. port \<le> x \<and> x < p \<longrightarrow> x \<in> set used)"
  using assms
proof (induction used rest port rule: scan_ports.induct)
  case (1 used rest port)
  show ?case
  proof (cases rest)
    case Nil
    then show ?thesis using "1.prems" by (auto simp: scan_ports.simps)
  next
    case (Cons q qs)
    have e: "port \<noteq> UDP_LOCAL_PORT_RANGE_END" using "1.prems"(1) Cons by (auto simp: scan_ports.simps)
    show ?thesis
    proof (cases "q = port")
      case True
      have s: "scan_ports used used (port + 1) = Some p" using "1.prems"(1) Cons e True by (subst (asm) scan_ports.simps) simp
      have lt: "port < UDP_LOCAL_PORT_RANGE_END" using e "1.prems"(4) by simp
      then have l: "port + 1 \<le> UDP_LOCAL_PORT_RANGE_END" "port < port + 1" by (simp_all add: inc_le word_less_nat_alt unat_word_ariths)
      have "p \<notin> set used \<and> port + 1 \<le> p \<and> p \<le> UDP_LOCAL_PORT_RANGE_END \<and> (\<forall>x. port + 1 \<le> x \<and> x < p \<longrightarrow> x \<in> set used)"
        using "1.IH"(1) [OF Cons e True s] l(1) by simp
      moreover have "port \<in> set used" using Cons True "1.prems"(2) by auto
      moreover have "port + 1 \<le> x" if "port \<le> x" "x \<noteq> port" for x using that inc_le [of port x] by simp
      ultimately show ?thesis using l(2) by (metis order.strict_implies_order order.trans)
    next
      case False
      have "scan_ports used qs port = Some p" using "1.prems"(1) Cons e False by (subst (asm) scan_ports.simps) simp
      then show ?thesis using "1.IH"(2) [OF Cons e False] "1.prems"(2-4) Cons False by auto
    qed
  qed
qed

section \<open>Choosing the block\<close>

lemma find_append: "List.find P (xs @ ys) = (case List.find P xs of None \<Rightarrow> List.find P ys | Some x \<Rightarrow> Some x)"
  by (induction xs) simp_all

lemma udp_scan_seen:
  assumes "\<forall>x\<in>set seen. \<not> (l x \<and> r x)" "unc = List.find (\<lambda>k. l k \<and> u k) seen"
  shows "udp_scan l r u seen unc ks = (case List.find (\<lambda>k. l k \<and> r k) ks of
      Some k \<Rightarrow> (Some k, k # remove1 k (seen @ ks))
    | None \<Rightarrow> (List.find (\<lambda>k. l k \<and> u k) (seen @ ks), seen @ ks))"
  using assms
proof (induction ks arbitrary: seen unc)
  case (Cons k ks)
  have f: "(if l k \<and> unc = None \<and> u k then Some k else unc) = List.find (\<lambda>k. l k \<and> u k) (seen @ [k])"
    unfolding find_append Cons.prems(2) [symmetric] by (cases unc) simp_all
  have a: "(seen @ [k]) @ ks = seen @ k # ks" by simp
  show ?case
  proof (cases "l k \<and> r k")
    case True
    then have "k \<notin> set seen" using Cons.prems(1) by auto
    then show ?thesis using True by (auto simp: remove1_append Let_def)
  next
    case False
    then have "\<forall>x\<in>set (seen @ [k]). \<not> (l x \<and> r x)" using Cons.prems(1) by auto
    from Cons.IH [OF this f] have "udp_scan l r u seen unc (k # ks) = (case List.find (\<lambda>k. l k \<and> r k) ks of
        Some j \<Rightarrow> (Some j, j # remove1 j (seen @ k # ks)) | None \<Rightarrow> (List.find (\<lambda>k. l k \<and> u k) (seen @ k # ks), seen @ k # ks))"
      using False unfolding a by (auto simp: Let_def)
    moreover have "List.find (\<lambda>k. l k \<and> r k) (k # ks) = List.find (\<lambda>k. l k \<and> r k) ks" using False by auto
    ultimately show ?thesis by (simp only:)
  qed
qed simp

text \<open>The first block that matches on both sides, or else the first unconnected block that matches locally.\<close>

lemma udp_scan_spec:
  "udp_scan l r u [] None ks = (case List.find (\<lambda>k. l k \<and> r k) ks of
      Some k \<Rightarrow> (Some k, k # remove1 k ks)
    | None \<Rightarrow> (List.find (\<lambda>k. l k \<and> u k) ks, ks))"
  using udp_scan_seen [of "[]" l r None u ks] by (simp only: append_Nil find.simps list.set ball_empty simp_thms)


lemma pcb_of_set [simp]: "i < length (pcb_mem s) \<Longrightarrow> pcb_of j (set_pcb i f s) = (if j = i then f (pcb_of i s) else pcb_of j s)"
  by (simp add: pcb_of_def set_pcb_def)

lemma set_pcb_fields [simp]: "udp_pcbs (set_pcb k f s) = udp_pcbs s" "length (pcb_mem (set_pcb k f s)) = length (pcb_mem s)"
  "pcb_free (set_pcb k f s) = pcb_free s"
  by (simp_all add: set_pcb_def)

text \<open>An automatic bind takes the lowest port from 4096 on that no active block has.\<close>

theorem udp_bind_chooses_port:
  assumes "k < length (pcb_mem s)" "udp_bind k ipaddr 0 s = (ERR_OK, t)"
  shows "4096 \<le> up_local_port (pcb_of k t) \<and> up_local_port (pcb_of k t) \<le> 0x7FFF \<and> k \<in> set (udp_pcbs t)
    \<and> (\<forall>i\<in>set (udp_pcbs s). up_local_port (pcb_of i s) \<noteq> up_local_port (pcb_of k t))
    \<and> (\<forall>p. 4096 \<le> p \<and> p < up_local_port (pcb_of k t) \<longrightarrow> (\<exists>i\<in>set (udp_pcbs s). up_local_port (pcb_of i s) = p))"
proof -
  let ?s = "set_pcb k (\<lambda>p. p\<lparr>up_local_ip := ipaddr\<rparr>) s"
  let ?used = "map (\<lambda>i. up_local_port (pcb_of i ?s)) (udp_pcbs s)"
  have used: "?used = map (\<lambda>i. up_local_port (pcb_of i s)) (udp_pcbs s)" using assms(1) by simp
  obtain p where p: "scan_ports ?used ?used UDP_LOCAL_PORT_RANGE_START = Some p"
    using assms(2) by (auto simp: udp_bind_def Let_def split: option.splits)
  have t: "up_local_port (pcb_of k t) = p" "k \<in> set (udp_pcbs t)"
    using assms p by (auto simp: udp_bind_def Let_def pcb_of_def set_pcb_def split: if_splits)
  have "p \<notin> set ?used \<and> UDP_LOCAL_PORT_RANGE_START \<le> p \<and> p \<le> UDP_LOCAL_PORT_RANGE_END
    \<and> (\<forall>x. UDP_LOCAL_PORT_RANGE_START \<le> x \<and> x < p \<longrightarrow> x \<in> set ?used)"
    by (rule scan_ports_Some [OF p]) simp_all
  then show ?thesis unfolding t(1) used using t(2) by auto
qed

section \<open>A datagram on its way out\<close>

definition udp_header :: "u16 \<Rightarrow> u16 \<Rightarrow> u16 \<Rightarrow> u8 list" where
  "udp_header sport dport len = be16 sport @ be16 dport @ be16 len @ [0, 0]"

lemma length_udp_header [simp]: "length (udp_header sport dport len) = 8"
  by (simp add: udp_header_def)

lemma blit_header:
  assumes "off + 8 \<le> length M" "length a = 4" "length b = 2" "length c = 2"
  shows "blit (blit (blit M off a) (off + 6) c) (off + 4) b = blit M off (a @ b @ c)"
  using assms by (intro nth_equalityI) (auto simp: nth_blit nth_append add.commute)

lemma write_udp_header:
  assumes "write_at q 0 (be16 sport @ be16 dport @ be16 len @ [0, 0]) = Inr g"
  shows "\<exists>a b. write_at q 0 (be16 sport @ be16 dport) = Inr a \<and> write_at a 6 [0, 0] = Inr b \<and> p_tot_len b = p_tot_len q \<and> write_at b 4 (be16 len) = Inr g"
proof -
  have l: "p_payload q + 8 \<le> length (p_mem q)" "g = q\<lparr>p_mem := blit (p_mem q) (p_payload q) (be16 sport @ be16 dport @ be16 len @ [0, 0])\<rparr>"
    using assms by (auto simp: write_at_def split: if_splits)
  show ?thesis using l(1) blit_header [OF l(1), of "be16 sport @ be16 dport" "be16 len" "[0, 0]"]
    by (simp add: write_at_def l(2) del: blit.simps)
qed

text \<open>A block that may send: bound, and to the address of the interface or to all.\<close>

definition may_send :: "nat \<Rightarrow> 'a stack_st_scheme \<Rightarrow> bool" where
  "may_send k s \<longleftrightarrow> up_local_port (pcb_of k s) \<noteq> 0 \<and> (up_local_ip (pcb_of k s) = 0 \<or> up_local_ip (pcb_of k s) = nif_ip_addr (netif s))"

lemma udp_sendto_if_output:
  assumes "may_send k s" "room 42 p" "length (chain_bytes p) \<le> 1472"
  shows "\<exists>q. room 34 q \<and> chain_bytes q = udp_header (up_local_port (pcb_of k s)) dst_port (of_nat (length (chain_bytes p) + 8)) @ chain_bytes p
    \<and> udp_sendto_if ot k p dst_ip dst_port s
      = ip_output_if ot q (nif_ip_addr (netif s)) (Some dst_ip) (up_ttl (pcb_of k s)) (up_tos (pcb_of k s)) IP_PROTO_UDP s"
proof -
  have pre: "room (8 + 34) p" "length (chain_bytes p) + 8 < 65536" using assms(2,3) by simp_all
  obtain f fs where f: "pbuf_header p (int 8) = Some (f # fs)" "unat (p_tot_len f) = length (chain_bytes p) + 8"
    "\<And>h. length h = 8 \<Longrightarrow> \<exists>g. write_at f 0 h = Inr g \<and> room 34 (g # fs) \<and> chain_bytes (g # fs) = h @ chain_bytes p
       \<and> p_tot_len g = p_tot_len f \<and> map p_type (g # fs) = map p_type p"
    using push_header [OF pre] by blast
  let ?h = "udp_header (up_local_port (pcb_of k s)) dst_port (p_tot_len f)"
  obtain g where g: "write_at f 0 ?h = Inr g" "room 34 (g # fs)" "chain_bytes (g # fs) = ?h @ chain_bytes p" "p_tot_len g = p_tot_len f"
    using f(3) [of ?h] by auto
  obtain a b where ab: "write_at f 0 (be16 (up_local_port (pcb_of k s)) @ be16 dst_port) = Inr a" "write_at a 6 [0, 0] = Inr b"
    "p_tot_len b = p_tot_len f" "write_at b 4 (be16 (p_tot_len f)) = Inr g"
    using write_udp_header [OF g(1) [unfolded udp_header_def]] by blast
  have t: "p_tot_len f = of_nat (length (chain_bytes p) + 8)" using arg_cong [OF f(2), of "of_nat :: nat \<Rightarrow> u16"] by simp
  have id: "and_then r (\<lambda>(e, s). Inr (e, pbuf_free [] s)) = r" for r :: "(err \<times> 'a stack_st_scheme) result"
    by (cases r) auto
  have "udp_sendto_if ot k p dst_ip dst_port s
      = ip_output_if ot (g # fs) (nif_ip_addr (netif s)) (Some dst_ip) (up_ttl (pcb_of k s)) (up_tos (pcb_of k s)) IP_PROTO_UDP s"
    using assms(1) f(1) ab id by (auto simp: udp_sendto_if_def udp_headroom_def may_send_def Let_def)
  then show ?thesis using g(2,3) t by (intro exI [of _ "g # fs"]) simp
qed


text \<open>A datagram for a known host leaves as one Ethernet frame with the IP and UDP headers of the block and the
  interface in front of its bytes; sending keeps the tables and accounts for all memory.\<close>

definition udp_frame :: "u8 list \<Rightarrow> u8 list \<Rightarrow> u8 \<Rightarrow> u16 \<Rightarrow> u8 \<Rightarrow> u32 \<Rightarrow> u32 \<Rightarrow> u16 \<Rightarrow> u16 \<Rightarrow> u8 list \<Rightarrow> u8 list" where
  "udp_frame dst src tos i ttl sip dip sport dport bs = eth_frame dst src 0x0800
     (ip_header tos (of_nat (length bs + 28)) i ttl IP_PROTO_UDP sip dip @ udp_header sport dport (of_nat (length bs + 8)) @ bs)"

theorem udp_send_frame:
  assumes "arp_ok s" "tx_ok s" "net_up s" "may_send k s" "room 42 p" "length (chain_bytes p) \<le> 1472"
    and "up_remote_ip (pcb_of k s) = ip" "reachable ip (netif s)" "known_at (next_hop ip (netif s)) mac (arp_table s)"
    and "nif_ip_addr (netif s) \<noteq> 0" "length (tx_queue s) < 2"
  shows "\<exists>t. udp_send ot k p s = Inr (ERR_OK, t) \<and> arp_ok t \<and> tx_ok t \<and> ip_frame_only s t \<and> balanced s t \<and> arp_table t = arp_table s
    \<and> tx_queue t = tx_queue s @ [udp_frame mac (nif_hwaddr (netif s)) (up_tos (pcb_of k s)) (ip_id s) (up_ttl (pcb_of k s))
        (nif_ip_addr (netif s)) ip (up_local_port (pcb_of k s)) (up_remote_port (pcb_of k s)) (chain_bytes p)]"
proof -
  let ?c = "pcb_of k s" and ?own = "nif_ip_addr (netif s)"
  obtain q where q: "room 34 q" "chain_bytes q = udp_header (up_local_port ?c) (up_remote_port ?c) (of_nat (length (chain_bytes p) + 8)) @ chain_bytes p"
    "udp_sendto_if ot k p ip (up_remote_port ?c) s = ip_output_if ot q ?own (Some ip) (up_ttl ?c) (up_tos ?c) IP_PROTO_UDP s"
    using udp_sendto_if_output [OF assms(4-6)] by blast
  have lq: "length (chain_bytes q) = length (chain_bytes p) + 8" unfolding q(2) by simp
  have m: "nif_mtu (netif s) = 1500" using assms(3) by (simp add: net_up_def)
  have "length (chain_bytes q) \<le> 1480" using lq assms(6) by simp
  from ip_output_if_packet [OF q(1) this m, of ot ?own ip "up_ttl ?c" "up_tos ?c" IP_PROTO_UDP]
  obtain r where r: "ip_packet r" "ip_output_if ot q ?own (Some ip) (up_ttl ?c) (up_tos ?c) IP_PROTO_UDP s = etharp_output r ip (s\<lparr>ip_id := ip_id s + 1\<rparr>)"
    "chain_bytes r = ip_header (up_tos ?c) (of_nat (length (chain_bytes q) + 20)) (ip_id s) (up_ttl ?c) IP_PROTO_UDP ?own ip @ chain_bytes q"
    using assms(10) by auto
  let ?s = "s\<lparr>ip_id := ip_id s + 1\<rparr>"
  obtain t where t: "etharp_output r ip ?s = Inr (ERR_OK, t)" "arp_ok t" "tx_ok t" "arp_frame_only ?s t" "balanced ?s t" "arp_table t = arp_table s"
    "tx_queue t = tx_queue s @ [eth_frame mac (nif_hwaddr (netif s)) 0x0800 (chain_bytes r)]"
    using etharp_output_known [of ?s r ip mac] assms(1,2,8,9,11) r(1) by auto
  have "udp_send ot k p s = Inr (ERR_OK, t)"
    using q(3) r(2) t(1) ip_route_up [OF assms(3)] assms(7) by (simp add: udp_send_def udp_sendto_def)
  moreover have "ip_frame_only s t" "balanced s t" using arp_frame_ip [OF t(4)] t(5) by simp_all
  ultimately show ?thesis using t(2,3,6,7) r(3) q(2) lq by (simp add: udp_frame_def add.commute)
qed


section \<open>A datagram on its way in\<close>

lemma icmp_send_response_head:
  assumes "p_payload f = p_payload g" "p_mem f = p_mem g"
  shows "icmp_send_response ot (f # fs) type code s = icmp_send_response ot (g # gs) type code s"
proof -
  have "read_at f 0 28 = read_at g 0 28" using assms by (simp add: read_at_def)
  then show ?thesis by (simp add: icmp_send_response_def cong: option.case_cong list.case_cong prod.case_cong)
qed

text \<open>The block for a packet with the IP header \<open>h\<close> and the UDP header \<open>u\<close>, and the list after the search.\<close>

definition udp_lookup :: "u8 list \<Rightarrow> u8 list \<Rightarrow> 'a stack_st_scheme \<Rightarrow> nat option \<times> nat list" where
  "udp_lookup h u s =
     (let dest_ip = ip_of (drop 16 h) in
      udp_scan (\<lambda>k. local_match (ip_addr_isbroadcast dest_ip (netif s)) dest_ip (of_be16 (drop 2 u)) (pcb_of k s))
        (\<lambda>k. remote_match (ip_of (drop 12 h)) (of_be16 u) (pcb_of k s)) (\<lambda>k. unconnected (pcb_of k s)) [] None (udp_pcbs s))"

lemma udp_input_eq:
  assumes "received 14 (q # qs)" "length (chain_bytes (q # qs)) \<le> 1520"
    and "h = take 20 (drop 14 (p_mem q))" "n = hlen_of h" "u = take 8 (drop (14 + n) (p_mem q))"
    and "udp_lookup h u s = (pcb, pcbs)" "t = s\<lparr>udp_pcbs := pcbs\<rparr>"
  shows "\<exists>f. (n + 8 \<le> unat (p_len q) \<longrightarrow> received (22 + n) (f # qs) \<and> p_mem f = p_mem q \<and> p_type f = p_type q
        \<and> chain_bytes (f # qs) = drop (n + 8) (chain_bytes (q # qs)))
    \<and> udp_input ot recv (q # qs) s =
      (if length (chain_bytes (q # qs)) < n + 8 \<or> unat (p_len q) < n then Inr (pbuf_free (q # qs) s)
       else if pcb = None \<and> nif_ip_addr (netif s) \<noteq> ip_of (drop 16 h) \<or> unat (p_len q) < n + 8 then Inr (pbuf_free (q # qs) t)
       else case pcb of
         Some k \<Rightarrow> if up_recv (pcb_of k s) then recv k (f # qs) (ip_of (drop 12 h)) (of_be16 u) t else Inr (pbuf_free (q # qs) t)
       | None \<Rightarrow> if \<not> ip_addr_isbroadcast (ip_of (drop 16 h)) (netif s) \<and> \<not> ip_addr_ismulticast (ip_of (drop 16 h))
           then and_then (icmp_dest_unreach ot (q # qs) ICMP_DUR_PORT t) (\<lambda>t. Inr (pbuf_free (q # qs) t)) else Inr (pbuf_free (q # qs) t))"
proof -
  have q: "chain_ok (q # qs)" "p_payload q = 14" "length (p_mem q) = 1500" using assms(1) unfolding received_Cons by blast+
  have h: "read_at q 0 20 = Inr h" "length h = 20" using q(2,3) by (simp_all add: read_at_def assms(3))
  have n60: "n \<le> 60" unfolding assms(4) by (rule hlen_le)
  have tot: "unat (p_tot_len q) = length (chain_bytes (q # qs))" by (rule chain_tot_len [OF q(1)])
  show ?thesis
  proof (cases "length (chain_bytes (q # qs)) < n + 8 \<or> unat (p_len q) < n")
    case True
    have "n + 8 \<le> unat (p_len q) \<longrightarrow> False" using True q(1) by auto
    moreover have "udp_input ot recv (q # qs) s = Inr (pbuf_free (q # qs) s)"
      using True h tot pbuf_header_short [of q n qs] by (auto simp: udp_input_def Let_def assms(4) [symmetric] simp del: pbuf_free.simps chain_bytes_simps)
    ultimately show ?thesis using True by (auto simp del: pbuf_free.simps chain_bytes_simps)
  next
    case False
    then have ge: "n + 8 \<le> length (chain_bytes (q # qs))" "n \<le> unat (p_len q)" by simp_all
    obtain r where r: "pbuf_header (q # qs) (- int n) = Some (r # qs)" "received (14 + n) (r # qs)" "chain_bytes (r # qs) = drop n (chain_bytes (q # qs))"
      "p_mem r = p_mem q" "p_type r = p_type q" "unat (p_len r) = unat (p_len q) - n"
      using received_hide [OF assms(1) ge(2)] by blast
    have rr: "p_payload r = 14 + n" "length (p_mem r) = 1500" using r(2) unfolding received_Cons by blast+
    have u: "read_at r 0 8 = Inr u" using rr r(4) n60 by (simp add: read_at_def assms(5))
    have free: "pbuf_free (r # qs) v = pbuf_free (q # qs) v" for v :: "'a stack_st_scheme" by (rule pbuf_free_types) (simp add: r(5))
    let ?bc = "ip_addr_isbroadcast (ip_of (drop 16 h)) (netif s)" and ?mc = "ip_addr_ismulticast (ip_of (drop 16 h))"
    have look: "udp_scan (\<lambda>k. local_match ?bc (ip_of (drop 16 h)) (of_be16 (drop 2 u)) (pcb_of k s))
        (\<lambda>k. remote_match (ip_of (drop 12 h)) (of_be16 u) (pcb_of k s)) (\<lambda>k. unconnected (pcb_of k s)) [] None (udp_pcbs s) = (pcb, pcbs)"
      using assms(6) by (simp add: udp_lookup_def Let_def)
    have t: "netif t = netif s" "pcb_of k t = pcb_of k s" for k by (simp_all add: assms(7) pcb_of_def)
    have eq: "udp_input ot recv (q # qs) s =
       (if pcb \<noteq> None \<or> nif_ip_addr (netif t) = ip_of (drop 16 h) then
          (case pbuf_header (r # qs) (- 8) of
             None \<Rightarrow> Inr (pbuf_free (r # qs) t)
           | Some p \<Rightarrow> (case pcb of
               Some k \<Rightarrow> if up_recv (pcb_of k t) then recv k p (ip_of (drop 12 h)) (of_be16 u) t else Inr (pbuf_free p t)
             | None \<Rightarrow>
                 and_then
                   (if \<not> ?bc \<and> \<not> ?mc
                    then icmp_dest_unreach ot (case pbuf_header p (int (n + 8)) of Some r \<Rightarrow> r | None \<Rightarrow> p) ICMP_DUR_PORT t
                    else Inr t)
                   (\<lambda>s. Inr (pbuf_free p s))))
        else Inr (pbuf_free (r # qs) t))"
    proof -
      have nt: "\<not> unat (p_tot_len q) < n + 8" using tot ge(1) by simp
      show ?thesis
        unfolding udp_input_def list.case h(1) and_then.simps Let_def assms(4) [symmetric] r(1) option.case u look prod.case
          assms(7) [symmetric] if_not_P [OF nt] by (rule refl)
    qed
    show ?thesis
    proof (cases "n + 8 \<le> unat (p_len q)")
      case short: False
      then have "pbuf_header (r # qs) (- int 8) = None" using r(6) by (intro pbuf_header_short) simp
      then show ?thesis using short False unfolding eq free t(1) by (auto simp del: pbuf_free.simps chain_bytes_simps)
    next
      case True
      have "8 \<le> unat (p_len r)" using True r(6) by simp
      from received_hide [OF r(2) this] obtain f where f: "pbuf_header (r # qs) (- int 8) = Some (f # qs)" "received (14 + n + 8) (f # qs)"
        "chain_bytes (f # qs) = drop 8 (chain_bytes (r # qs))" "p_mem f = p_mem r" "p_type f = p_type r" by blast
      have fb: "chain_bytes (f # qs) = drop (n + 8) (chain_bytes (q # qs))" unfolding f(3) r(3) drop_drop by (simp only: add.commute)
      have fr: "received (22 + n) (f # qs)" using f(2) by (simp add: add.commute add.left_commute)
      have "received (14 + (n + 8)) (f # qs)" "length (chain_bytes (f # qs)) + (n + 8) < 65536"
        using f(2) assms(2) n60 unfolding fb by (simp_all add: add.assoc del: chain_bytes_simps)
      from received_reveal [OF this] obtain g where g: "pbuf_header (f # qs) (int (n + 8)) = Some (g # qs)" "received 14 (g # qs)" "p_mem g = p_mem f"
        by blast
      have "p_payload g = p_payload q" "p_mem g = p_mem q" using g(2,3) f(4) r(4) q(2) by (simp_all add: received_Cons)
      then have un: "icmp_dest_unreach ot (g # qs) c v = icmp_dest_unreach ot (q # qs) c v" for c and v :: "'a stack_st_scheme"
        unfolding icmp_dest_unreach_def by (rule icmp_send_response_head)
      have ffree: "pbuf_free (f # qs) v = pbuf_free (q # qs) v" for v :: "'a stack_st_scheme" by (rule pbuf_free_types) (simp add: r(5) f(5))
      have e8: "pbuf_header (r # qs) (- 8) = Some (f # qs)" using f(1) by simp
      show ?thesis
        using True False fr fb f(4,5) r(4,5) unfolding eq e8 option.case free ffree g(1) un t
        by (intro exI [of _ f]) (auto split: option.splits simp del: pbuf_free.simps chain_bytes_simps)
    qed
  qed
qed


lemma received_prefix:
  assumes "received 14 (q # qs)" "n \<le> unat (p_len q)"
  shows "take n (drop 14 (p_mem q)) = take n (chain_bytes (q # qs))"
proof -
  have "p_payload q = 14" "node_ok q" using assms(1) by (simp_all add: received_Cons)
  then show ?thesis using assms(2) by (simp add: pbytes_def node_ok_def)
qed

text \<open>A datagram for the address and port of an active block that is connected to its sender, or open to all, reaches the
  receive function with its payload, and the block moves to the front.\<close>

theorem udp_datagram_delivered:
  assumes "received 14 (q # qs)" "length (chain_bytes (q # qs)) \<le> 1520" "28 \<le> unat (p_len q)"
    and "chain_bytes (q # qs) = [0x45, tos] @ a @ [ttl, proto, c1, c2] @ ip_bytes sip @ ip_bytes dip @ be16 sport @ be16 dport @ v @ payload"
    and "length a = 6" "length v = 4"
    and "List.find (\<lambda>k. local_match (ip_addr_isbroadcast dip (netif s)) dip dport (pcb_of k s) \<and> remote_match sip sport (pcb_of k s)) (udp_pcbs s) = Some k"
    and "up_recv (pcb_of k s)"
  shows "\<exists>f. received 42 (f # qs) \<and> chain_bytes (f # qs) = payload \<and> p_mem f = p_mem q \<and> p_type f = p_type q
    \<and> udp_input ot recv (q # qs) s = recv k (f # qs) sip sport (s\<lparr>udp_pcbs := k # remove1 k (udp_pcbs s)\<rparr>)"
proof -
  define h where "h = take 20 (drop 14 (p_mem q))"
  define u where "u = take 8 (drop (14 + 20) (p_mem q))"
  have lip: "length (ip_bytes x) = 4" for x by simp
  have h: "h = [0x45, tos] @ a @ [ttl, proto, c1, c2] @ ip_bytes sip @ ip_bytes dip"
    unfolding h_def using received_prefix [OF assms(1), of 20] assms(3,5) unfolding assms(4) by simp
  have "u = drop 20 (take 28 (drop 14 (p_mem q)))" by (simp add: u_def drop_take)
  then have u: "u = be16 sport @ be16 dport @ v"
    using received_prefix [OF assms(1,3)] assms(5,6) unfolding assms(4) by simp
  have n: "hlen_of h = 20" by (simp add: h hlen_of_def)
  have f: "ip_of (drop 12 h) = sip" "ip_of (drop 16 h) = dip" "of_be16 u = sport" "of_be16 (drop 2 u) = dport"
    using assms(5) by (simp_all add: h u)
  have look: "udp_lookup h u s = (Some k, k # remove1 k (udp_pcbs s))"
    unfolding udp_lookup_def Let_def f udp_scan_spec assms(7) by simp
  let ?t = "s\<lparr>udp_pcbs := k # remove1 k (udp_pcbs s)\<rparr>"
  have len: "\<not> (length (chain_bytes (q # qs)) < 20 + 8 \<or> unat (p_len q) < 20)" "20 + 8 \<le> unat (p_len q)"
  proof -
    have "unat (p_len q) \<le> length (chain_bytes (q # qs))" using assms(1) by (simp add: received_Cons)
    then show "\<not> (length (chain_bytes (q # qs)) < 20 + 8 \<or> unat (p_len q) < 20)" "20 + 8 \<le> unat (p_len q)"
      using assms(3) by linarith+
  qed
  then have c: "\<not> (Some k = None \<and> nif_ip_addr (netif s) \<noteq> dip \<or> unat (p_len q) < 20 + 8)" by simp
  obtain g where g: "received (22 + 20) (g # qs)" "p_mem g = p_mem q" "p_type g = p_type q" "chain_bytes (g # qs) = drop (20 + 8) (chain_bytes (q # qs))"
    "udp_input ot recv (q # qs) s = recv k (g # qs) sip sport ?t"
    using udp_input_eq [OF assms(1,2) h_def n [symmetric] u_def look refl, of ot recv] len(2)
    unfolding f if_not_P [OF len(1)] if_not_P [OF c] option.case if_P [OF assms(8)] by blast
  have "chain_bytes (g # qs) = payload" unfolding g(4) assms(4) using assms(5,6) by simp
  then show ?thesis using g(1-3,5) by auto
qed

end
