(* ===== verification/NetInput.thy ===== *)
theory NetInput
  imports Udp "HOL-Library.Multiset"
begin

text \<open>
  The way of a received frame: \<open>ip_input\<close> (\<open>ip.c\<close>), \<open>ethernet_input\<close> (\<open>etharp.c\<close>) and
  \<open>ethernetif_input\<close> (\<open>ethernetif.c\<close>), which the main loop calls when a frame waits in the
  receive ring. The locale \<open>frees_packets\<close> is the contract of a receive function (it frees its
  packet and leaves the stack alone); under it every frame with a regular header is consumed without
  a fault and every buffer it occupied is back in the pool.
\<close>

section \<open>Definitions\<close>

text \<open>The search for an interface the packet is for. After the receiving interface the list is searched,
  which has no other; when it is a circle the search does not end.\<close>

definition ip_for_us :: "u32 \<Rightarrow> 'a ip_st_scheme \<Rightarrow> bool result" where
  "ip_for_us dest s =
     (if netif_is_up s \<and> nif_ip_addr (netif s) \<noteq> 0 \<and> (dest = nif_ip_addr (netif s) \<or> ip_addr_isbroadcast dest (netif s)) then Inr True
      else if nif_listed s \<and> nif_loop s then Inl Hang
      else Inr False)"

abbreviation (input) "ICMP_DUR_PROTO \<equiv> 2 :: u8"
abbreviation (input) "IP_PROTO_TCP \<equiv> 6 :: u8"

text \<open>The delivery to the upper layers; there are no raw blocks, so that \<open>raw_input\<close> takes no packet.\<close>

definition ip_deliver :: "'a stack_st_scheme others \<Rightarrow> 'a stack_st_scheme receiver \<Rightarrow> chain \<Rightarrow> 'a stack_st_scheme \<Rightarrow> 'a stack_st_scheme result" where
  "ip_deliver ot recv p s = (case p of [] \<Rightarrow> Inl Undefined | q # _ \<Rightarrow>
     and_then (read_at q 0 20) (\<lambda>h.
       if h ! 9 = IP_PROTO_UDP then udp_input ot recv p s
       else if h ! 9 = IP_PROTO_TCP then call_tcp_input ot p s
       else if h ! 9 = IP_PROTO_ICMP then icmp_input ot p s
       else and_then
         (if \<not> ip_addr_isbroadcast (ip_of (drop 16 h)) (netif s) \<and> \<not> ip_addr_ismulticast (ip_of (drop 16 h))
          then icmp_dest_unreach ot p ICMP_DUR_PROTO s else Inr s)
         (\<lambda>s. Inr (pbuf_free p s))))"

definition ip_input :: "'a stack_st_scheme others \<Rightarrow> 'a stack_st_scheme receiver \<Rightarrow> chain \<Rightarrow> 'a stack_st_scheme \<Rightarrow> 'a stack_st_scheme result" where
  "ip_input ot recv p s = (case p of [] \<Rightarrow> Inl Undefined | q # _ \<Rightarrow>
     and_then (read_at q 0 20) (\<lambda>h.
     let hlen = hlen_of h; len = of_be16 (drop 2 h); src = ip_of (drop 12 h); dest = ip_of (drop 16 h) in
     if drop_bit 4 (h ! 0) \<noteq> 4 then Inr (pbuf_free p s)
     else if unat (p_len q) < hlen \<or> p_tot_len q < len then Inr (pbuf_free p s)
     else and_then (pbuf_realloc p len s) (\<lambda>(p, s).
       and_then (ip_for_us dest s) (\<lambda>mine.
       if ip_addr_isbroadcast src (netif s) \<or> ip_addr_ismulticast src then Inr (pbuf_free p s)
       else if \<not> mine then Inr (pbuf_free p s)
       else if of_be16 (drop 6 h) AND 0x3FFF \<noteq> 0 then
         and_then (call_ip_reass ot p s) (\<lambda>(r, s). case r of None \<Rightarrow> Inr s | Some p \<Rightarrow> ip_deliver ot recv p s)
       else ip_deliver ot recv p s))))"

definition ethernet_input :: "'a stack_st_scheme others \<Rightarrow> 'a stack_st_scheme receiver \<Rightarrow> chain \<Rightarrow> 'a stack_st_scheme \<Rightarrow> 'a stack_st_scheme result" where
  "ethernet_input ot recv p s = (case p of [] \<Rightarrow> Inl Undefined | q # _ \<Rightarrow>
     and_then (read_at q 12 2) (\<lambda>type.
       if of_be16 type = 0x0800 then
         and_then (etharp_ip_input p s) (\<lambda>s.
         case pbuf_header p (- 14) of
           None \<Rightarrow> Inr (pbuf_free p s)
         | Some p \<Rightarrow> ip_input ot recv p s)
       else if of_be16 type = 0x0806 then etharp_arp_input (nif_hwaddr (netif s)) p s
       else Inr (pbuf_free p s)))"

definition ethernetif_input :: "'a stack_st_scheme others \<Rightarrow> 'a stack_st_scheme receiver \<Rightarrow> 'a stack_st_scheme \<Rightarrow> (err \<times> 'a stack_st_scheme) result" where
  "ethernetif_input ot recv s =
     and_then (low_level_input s) (\<lambda>(r, s). case r of
         None \<Rightarrow> Inr (ERR_MEM, s)
       | Some p \<Rightarrow> and_then (ethernet_input ot recv p s) (\<lambda>s. Inr (ERR_OK, s)))"

text \<open>The reception of a pass of the main loop: \<open>LwIP_Pkt_Handle\<close> when a frame is waiting.\<close>

definition net_receive :: "'a stack_st_scheme others \<Rightarrow> 'a stack_st_scheme receiver \<Rightarrow> 'a stack_st_scheme \<Rightarrow> 'a stack_st_scheme result" where
  "net_receive ot recv s =
     (if ETH_GetRxPktSize s \<noteq> 0 then and_then (ethernetif_input ot recv s) (\<lambda>(_, s). Inr s) else Inr s)"

section \<open>What handling a packet leaves alone\<close>

definition stack_kept :: "'a stack_st_scheme \<Rightarrow> 'a stack_st_scheme \<Rightarrow> bool" where
  "stack_kept s t \<longleftrightarrow> netif t = netif s \<and> MACaddr t = MACaddr s \<and> rx_queue t = rx_queue s \<and> rx_ok t = rx_ok s
     \<and> ref_free t = ref_free s \<and> ram_ok t = ram_ok s \<and> junk t = junk s \<and> wire t = wire s
     \<and> nif_listed t = nif_listed s \<and> nif_loop t = nif_loop s \<and> nif_default t = nif_default s
     \<and> pcb_mem t = pcb_mem s \<and> pcb_free t = pcb_free s \<and> mset (udp_pcbs t) = mset (udp_pcbs s)"

text \<open>The \<open>n\<close> buffers of a packet are returned, its contents acted upon.\<close>

definition consumed :: "nat \<Rightarrow> 'a stack_st_scheme \<Rightarrow> 'a stack_st_scheme \<Rightarrow> bool" where
  "consumed n s t \<longleftrightarrow> arp_ok t \<and> tx_ok t \<and> stack_kept s t \<and> balanced s t \<and> pool_free t = pool_free s + n"

lemma stack_kept_refl [simp]: "stack_kept s s"
  by (simp add: stack_kept_def)

lemma stack_kept_trans: "stack_kept s t \<Longrightarrow> stack_kept t u \<Longrightarrow> stack_kept s u"
  by (simp add: stack_kept_def)

lemma consumed_trans: "consumed m s t \<Longrightarrow> consumed n t u \<Longrightarrow> consumed (m + n) s u"
  using stack_kept_trans balanced_trans by (fastforce simp: consumed_def)

lemma stack_fields: "ip_st.more s = ip_st.more (t :: 'a stack_st_scheme) \<longleftrightarrow>
    pcb_mem s = pcb_mem t \<and> pcb_free s = pcb_free t \<and> udp_pcbs s = udp_pcbs t \<and> stack_st.more s = stack_st.more t"
  by (cases s; cases t) simp

lemma consumed_frame:
  "arp_ok t \<Longrightarrow> tx_ok t \<Longrightarrow> ip_frame_only s t \<Longrightarrow> balanced s t \<Longrightarrow> consumed 0 s t"
  by (auto simp: consumed_def stack_kept_def ip_frame_only_def stack_fields)

lemma consumed_pool:
  assumes "arp_ok s" "tx_ok s"
  shows "consumed n s (s\<lparr>pool_free := pool_free s + n\<rparr>)"
  using assms
  by (simp add: consumed_def stack_kept_def arp_ok_def tx_ok_def tx_slots_def queued_def balanced_def rx_queue_def rx_slots_def rx_ok_def)

lemma consumed_free:
  assumes "arp_ok s" "tx_ok s" "\<forall>p\<in>set c. p_type p = PBUF_POOL"
  shows "consumed (length c) s (pbuf_free c s)"
  unfolding pbuf_free_pool [OF assms(3)] by (rule consumed_pool [OF assms(1,2)])

lemma consumed_then_free:
  assumes "consumed 0 s t" "\<forall>p\<in>set c. p_type p = PBUF_POOL"
  shows "consumed (length c) s (pbuf_free c t)"
proof -
  have "arp_ok t" "tx_ok t" using assms(1) by (simp_all add: consumed_def)
  from consumed_trans [OF assms(1) consumed_free [OF this assms(2)]] show ?thesis by simp
qed

lemma consumed_list:
  assumes "arp_ok s" "tx_ok s" "mset ks = mset (udp_pcbs s)"
  shows "consumed 0 s (s\<lparr>udp_pcbs := ks\<rparr>)"
  using assms
  by (simp add: consumed_def stack_kept_def arp_ok_def tx_ok_def tx_slots_def queued_def balanced_def rx_queue_def rx_slots_def rx_ok_def)

lemma consumed_more:
  assumes "arp_ok s" "tx_ok s"
  shows "consumed 0 s (stack_st.more_update f s)"
  using assms
  by (simp add: consumed_def stack_kept_def arp_ok_def tx_ok_def tx_slots_def queued_def balanced_def rx_queue_def rx_slots_def rx_ok_def)

lemma consumed_net_up: "consumed n s t \<Longrightarrow> net_up t = net_up s"
  by (simp add: consumed_def stack_kept_def net_up_def netif_is_up_def)

lemma received_pool: "received k c \<Longrightarrow> \<forall>p\<in>set c. p_type p = PBUF_POOL"
  by (simp add: received_def)


lemma realloc_nodes_lens:
  "realloc_nodes rem g c = Inr (kept, gone) \<Longrightarrow> \<forall>p\<in>set c. p_len p \<noteq> 0 \<Longrightarrow> rem \<noteq> 0 \<Longrightarrow> \<forall>p\<in>set kept. p_len p \<noteq> 0"
proof (induction rem g c arbitrary: kept rule: realloc_nodes.induct)
  case (2 rem g q qs)
  show ?case
  proof (cases "rem > p_len q")
    case True
    then obtain k where k: "realloc_nodes (rem - p_len q) g qs = Inr (k, gone)" "kept = q\<lparr>p_tot_len := p_tot_len q + g\<rparr> # k"
      using "2.prems"(1) by (auto simp: and_then_Inr_iff)
    have "rem - p_len q \<noteq> 0" using True by auto
    then show ?thesis using "2.IH" [OF True k(1)] "2.prems"(2) k(2) by auto
  next
    case False
    then show ?thesis using "2.prems" by auto
  qed
qed simp

lemma pbuf_realloc_no_gaps:
  assumes "pbuf_realloc (q # qs) n s = Inr (c, t)" "no_gaps (q # qs)"
  shows "no_gaps c"
proof (cases "n \<ge> p_tot_len q")
  case True
  then show ?thesis using assms by (simp add: pbuf_realloc_def)
next
  case False
  define g where "g = n - p_tot_len q"
  obtain gone where r: "realloc_nodes n g (q # qs) = Inr (c, gone)"
    using assms(1) False by (auto simp: pbuf_realloc_def and_then_Inr_iff g_def simp del: realloc_nodes.simps)
  show ?thesis
  proof (cases "n > p_len q")
    case True
    then obtain k where k: "realloc_nodes (n - p_len q) g qs = Inr (k, gone)" "c = q\<lparr>p_tot_len := p_tot_len q + g\<rparr> # k"
      using r by (auto simp: and_then_Inr_iff)
    have "n - p_len q \<noteq> 0" using True by auto
    then show ?thesis using realloc_nodes_lens [OF k(1)] assms(2) k(2) by (simp add: no_gaps_def)
  next
    case False
    then show ?thesis using r by (auto simp: no_gaps_def)
  qed
qed

text \<open>Trimming a received packet to the length its header names.\<close>

lemma received_realloc:
  assumes "received k (q # qs)"
  shows "\<exists>p ps gone. pbuf_realloc (q # qs) n s = Inr (p # ps, pbuf_free gone s) \<and> received k (p # ps)
    \<and> chain_bytes (p # ps) = take (unat n) (chain_bytes (q # qs)) \<and> p_mem p = p_mem q
    \<and> (\<forall>r\<in>set gone. p_type r = PBUF_POOL) \<and> length (p # ps) + length gone = length (q # qs) \<and> unat (p_len p) = min (unat (p_len q)) (unat n)"
proof -
  have q: "chain_ok (q # qs)" "no_gaps (q # qs)" "\<forall>p\<in>set (q # qs). p_type p = PBUF_POOL" "p_payload q = k" "length (p_mem q) = 1500"
    using assms unfolding received_Cons by blast+
  obtain p ps gone where r: "pbuf_realloc (q # qs) n s = Inr (p # ps, pbuf_free gone s)" "chain_ok (p # ps)"
    "chain_bytes (p # ps) = take (unat n) (chain_bytes (q # qs))" "map p_type (p # ps @ gone) = map p_type (q # qs)"
    "p_mem p = p_mem q" "p_payload p = p_payload q" "unat (p_len p) = min (unat (p_len q)) (unat n)"
    using pbuf_realloc_spec [OF q(1), of n s] by blast
  have "set (map p_type (p # ps @ gone)) \<subseteq> {PBUF_POOL}" unfolding r(4) using q(3) by auto
  then have ty: "\<forall>r\<in>set (p # ps). p_type r = PBUF_POOL" "\<forall>r\<in>set gone. p_type r = PBUF_POOL" by auto
  have "length (map p_type (p # ps @ gone)) = length (map p_type (q # qs))" using r(4) by (rule arg_cong)
  then have "length (p # ps) + length gone = length (q # qs)" by simp
  moreover have "received k (p # ps)"
    unfolding received_Cons using r(2,5,6) ty(1) q(4,5) pbuf_realloc_no_gaps [OF r(1) q(2)] by (intro conjI) simp_all
  ultimately show ?thesis using r(1,3,5,7) ty(2) by blast
qed

section \<open>Safety\<close>

text \<open>Headers whose packets are consumed by the modelled code: no TCP, no fragment, and an IP header
  of at least five words in front of an ICMP message.\<close>

definition benign :: "u8 list \<Rightarrow> bool" where
  "benign h \<longleftrightarrow> h ! 9 \<noteq> IP_PROTO_TCP \<and> (h ! 9 = IP_PROTO_ICMP \<longrightarrow> 20 \<le> hlen_of h) \<and> of_be16 (drop 6 h) AND 0x3FFF = 0"

definition benign_frame :: "u8 list \<Rightarrow> bool" where
  "benign_frame f \<longleftrightarrow> 60 \<le> length f \<and> length f \<le> 1514 \<and> (of_be16 (drop 12 f) = 0x0800 \<longrightarrow> benign (take 20 (drop 14 f)))"

text \<open>The contract of a receive function: it frees the packet and changes nothing of the stack.\<close>

locale frees_packets =
  fixes recv :: "'a stack_st_scheme receiver"
  assumes recv_frees: "received j c \<Longrightarrow> \<exists>f. recv k c ip port s = Inr (pbuf_free c (stack_st.more_update f s))"
begin

lemma recv_consumed:
  assumes "received j c" "arp_ok s" "tx_ok s"
  shows "\<exists>t. recv k c ip port s = Inr t \<and> consumed (length c) s t"
proof -
  obtain f where f: "recv k c ip port s = Inr (pbuf_free c (stack_st.more_update f s))" using recv_frees [OF assms(1)] by blast
  then show ?thesis using consumed_then_free [OF consumed_more [OF assms(2,3)] received_pool [OF assms(1)]] by blast
qed

lemma udp_input_safe:
  assumes "arp_ok s" "tx_ok s" "net_up s" "received 14 (q # qs)" "length (chain_bytes (q # qs)) \<le> 1520"
  shows "\<exists>t. udp_input ot recv (q # qs) s = Inr t \<and> consumed (length (q # qs)) s t"
proof -
  define h where "h = take 20 (drop 14 (p_mem q))"
  define n where "n = hlen_of h"
  define u where "u = take 8 (drop (14 + n) (p_mem q))"
  obtain pcb pcbs where look: "udp_lookup h u s = (pcb, pcbs)" by fastforce
  define t where "t = s\<lparr>udp_pcbs := pcbs\<rparr>"
  have "mset pcbs = mset (udp_pcbs s)"
    using look by (auto simp: udp_lookup_def Let_def udp_scan_spec find_Some_iff split: option.splits)
  then have t: "consumed 0 s t" unfolding t_def by (rule consumed_list [OF assms(1,2)])
  then have ta: "arp_ok t" "tx_ok t" "net_up t" using consumed_net_up [OF t] assms(3) by (simp_all add: consumed_def)
  note pool = received_pool [OF assms(4)]
  obtain f where f: "n + 8 \<le> unat (p_len q) \<longrightarrow> received (22 + n) (f # qs)"
    and eq: "udp_input ot recv (q # qs) s =
      (if length (chain_bytes (q # qs)) < n + 8 \<or> unat (p_len q) < n then Inr (pbuf_free (q # qs) s)
       else if pcb = None \<and> nif_ip_addr (netif s) \<noteq> ip_of (drop 16 h) \<or> unat (p_len q) < n + 8 then Inr (pbuf_free (q # qs) t)
       else case pcb of
         Some k \<Rightarrow> if up_recv (pcb_of k s) then recv k (f # qs) (ip_of (drop 12 h)) (of_be16 u) t else Inr (pbuf_free (q # qs) t)
       | None \<Rightarrow> if \<not> ip_addr_isbroadcast (ip_of (drop 16 h)) (netif s) \<and> \<not> ip_addr_ismulticast (ip_of (drop 16 h))
           then and_then (icmp_dest_unreach ot (q # qs) ICMP_DUR_PORT t) (\<lambda>t. Inr (pbuf_free (q # qs) t)) else Inr (pbuf_free (q # qs) t))"
    using udp_input_eq [OF assms(4,5) h_def n_def u_def look t_def, of ot recv] by blast
  have fs: "\<exists>v. Inr (pbuf_free (q # qs) s) = Inr v \<and> consumed (length (q # qs)) s v" using consumed_free [OF assms(1,2) pool] by blast
  have ft: "\<exists>v. Inr (pbuf_free (q # qs) t) = Inr v \<and> consumed (length (q # qs)) s v" using consumed_then_free [OF t pool] by blast
  have rc: "\<exists>v. recv k (f # qs) ip port t = Inr v \<and> consumed (length (q # qs)) s v" if "n + 8 \<le> unat (p_len q)" for k ip port
    using recv_consumed [OF f [THEN mp, OF that] ta(1,2), of k ip port] consumed_trans [OF t] by fastforce
  have un: "\<exists>v. and_then (icmp_dest_unreach ot (q # qs) c t) (\<lambda>t. Inr (pbuf_free (q # qs) t)) = Inr v \<and> consumed (length (q # qs)) s v" for c
  proof -
    have "p_payload q + 28 \<le> length (p_mem q)" using assms(4) by (simp add: received_Cons)
    then obtain v where v: "icmp_dest_unreach ot (q # qs) c t = Inr v" "arp_ok v" "tx_ok v" "ip_frame_only t v" "balanced t v"
      using icmp_send_response_spec [OF ta] unfolding icmp_dest_unreach_def by blast
    have "consumed 0 s v" using consumed_trans [OF t consumed_frame [OF v(2-5)]] by simp
    from consumed_then_free [OF this pool] show ?thesis using v(1) by auto
  qed
  show ?thesis unfolding eq using fs ft rc un by (auto split: option.split simp del: pbuf_free.simps chain_bytes_simps list.size)
qed

lemma ip_deliver_safe:
  assumes "arp_ok s" "tx_ok s" "net_up s" "received 14 (q # qs)" "length (chain_bytes (q # qs)) \<le> 1500" "benign (take 20 (drop 14 (p_mem q)))"
  shows "\<exists>t. ip_deliver ot recv (q # qs) s = Inr t \<and> consumed (length (q # qs)) s t"
proof -
  let ?h = "take 20 (drop 14 (p_mem q))"
  have q: "p_payload q = 14" "length (p_mem q) = 1500" using assms(4) by (simp_all add: received_Cons)
  have h: "read_at q 0 20 = Inr ?h" using q by (simp add: read_at_def)
  note pool = received_pool [OF assms(4)]
  have "length (chain_bytes (q # qs)) \<le> 1520" using assms(5) by simp
  note udp = udp_input_safe [OF assms(1-4) this, of ot]
  have icmp: "\<exists>t. icmp_input ot (q # qs) s = Inr t \<and> consumed (length (q # qs)) s t" if "20 \<le> hlen_of ?h"
    using icmp_input_safe [OF assms(1-5) that, of ot] consumed_then_free [OF consumed_frame pool] by blast
  have other: "\<exists>t. and_then (if b then icmp_dest_unreach ot (q # qs) c s else Inr s) (\<lambda>s. Inr (pbuf_free (q # qs) s)) = Inr t \<and> consumed (length (q # qs)) s t" for b c
  proof (cases b)
    case True
    have "p_payload q + 28 \<le> length (p_mem q)" using q by simp
    then obtain v where v: "icmp_dest_unreach ot (q # qs) c s = Inr v" "arp_ok v" "tx_ok v" "ip_frame_only s v" "balanced s v"
      using icmp_send_response_spec [OF assms(1-3)] unfolding icmp_dest_unreach_def by blast
    then show ?thesis using consumed_then_free [OF consumed_frame [OF v(2-5)] pool] True by auto
  next
    case False
    then show ?thesis using consumed_free [OF assms(1,2) pool] by (auto simp del: pbuf_free.simps)
  qed
  show ?thesis
    using h assms(6) udp icmp other
    by (auto simp: ip_deliver_def benign_def simp del: pbuf_free.simps chain_bytes_simps list.size)
qed

lemma ip_input_safe:
  assumes "arp_ok s" "tx_ok s" "net_up s" "received 14 (q # qs)" "length (chain_bytes (q # qs)) \<le> 1500" "benign (take 20 (drop 14 (p_mem q)))"
  shows "\<exists>t. ip_input ot recv (q # qs) s = Inr t \<and> consumed (length (q # qs)) s t"
proof -
  let ?h = "take 20 (drop 14 (p_mem q))" and ?len = "of_be16 (drop 2 (take 20 (drop 14 (p_mem q))))"
  have q: "p_payload q = 14" "length (p_mem q) = 1500" using assms(4) by (simp_all add: received_Cons)
  have h: "read_at q 0 20 = Inr ?h" using q by (simp add: read_at_def)
  obtain p ps gone where r: "pbuf_realloc (q # qs) ?len s = Inr (p # ps, pbuf_free gone s)" "received 14 (p # ps)"
    "chain_bytes (p # ps) = take (unat ?len) (chain_bytes (q # qs))" "p_mem p = p_mem q" "\<forall>r\<in>set gone. p_type r = PBUF_POOL"
    "length (p # ps) + length gone = length (q # qs)"
    using received_realloc [OF assms(4)] by blast
  let ?s = "pbuf_free gone s"
  have g: "consumed (length gone) s ?s" by (rule consumed_free [OF assms(1,2) r(5)])
  then have sa: "arp_ok ?s" "tx_ok ?s" "net_up ?s" using consumed_net_up [OF g] assms(3) by (simp_all add: consumed_def)
  have both: "consumed (length (q # qs)) s t" if "consumed (length (p # ps)) ?s t" for t
    using consumed_trans [OF g that] r(6) by (simp add: add.commute del: list.size)
  have lp: "length (chain_bytes (p # ps)) \<le> 1500" unfolding r(3) using assms(5) by simp
  have bp: "benign (take 20 (drop 14 (p_mem p)))" using assms(6) r(4) by simp
  obtain t where t: "ip_deliver ot recv (p # ps) ?s = Inr t" "consumed (length (p # ps)) ?s t"
    using ip_deliver_safe [OF sa r(2) lp bp] by blast
  have nl: "\<not> nif_loop ?s" using sa(3) by (simp add: net_up_def)
  then obtain b where b: "ip_for_us (ip_of (drop 16 ?h)) ?s = Inr b"
    by (cases "netif_is_up ?s \<and> nif_ip_addr (netif ?s) \<noteq> 0 \<and> (ip_of (drop 16 ?h) = nif_ip_addr (netif ?s) \<or> ip_addr_isbroadcast (ip_of (drop 16 ?h)) (netif ?s))")
      (auto simp: ip_for_us_def)
  have fs: "\<exists>t. Inr (pbuf_free (q # qs) s) = Inr t \<and> consumed (length (q # qs)) s t"
    using consumed_free [OF assms(1,2) received_pool [OF assms(4)]] by blast
  have fp: "\<exists>t. Inr (pbuf_free (p # ps) ?s) = Inr t \<and> consumed (length (q # qs)) s t"
    using both [OF consumed_free [OF sa(1,2) received_pool [OF r(2)]]] by blast
  have fd: "\<exists>t. ip_deliver ot recv (p # ps) ?s = Inr t \<and> consumed (length (q # qs)) s t" using t both by blast
  have nf: "of_be16 (drop 6 ?h) AND 0x3FFF = 0" using assms(6) by (simp add: benign_def)
  have eq: "ip_input ot recv (q # qs) s =
    (if drop_bit 4 (?h ! 0) \<noteq> 4 then Inr (pbuf_free (q # qs) s)
     else if unat (p_len q) < hlen_of ?h \<or> p_tot_len q < ?len then Inr (pbuf_free (q # qs) s)
     else if ip_addr_isbroadcast (ip_of (drop 12 ?h)) (netif ?s) \<or> ip_addr_ismulticast (ip_of (drop 12 ?h)) then Inr (pbuf_free (p # ps) ?s)
     else if \<not> b then Inr (pbuf_free (p # ps) ?s)
     else ip_deliver ot recv (p # ps) ?s)"
    unfolding ip_input_def list.case h and_then.simps Let_def r(1) prod.case b nf by simp
  show ?thesis unfolding eq using fs fp fd by (simp del: pbuf_free.simps list.size)
qed

text \<open>Every frame is consumed without a fault and all its buffers return to the pool.\<close>

lemma ethernet_input_safe:
  assumes "arp_ok s" "tx_ok s" "net_up s" "pool_frame c n" "benign_frame (chain_bytes c)"
  shows "\<exists>t. ethernet_input ot recv c s = Inr t \<and> consumed (length c) s t"
proof -
  obtain q qs where c: "c = q # qs" using assms(4) by (cases c) (auto simp: pool_frame_def)
  have n: "60 \<le> n" "n \<le> 1514" "length (chain_bytes c) = n" using assms(4,5) by (auto simp: benign_frame_def pool_frame_def)
  have rc: "received 0 (q # qs)" using assms(4) unfolding c by (simp add: pool_frame_def received_Cons)
  have q: "p_payload q = 0" "length (p_mem q) = 1500" "unat (p_len q) = min n 1500" "node_ok q"
    using assms(4) unfolding c by (auto simp: pool_frame_def)
  note pool = received_pool [OF rc]
  have pre: "take k (p_mem q) = take k (chain_bytes c)" if "k \<le> 60" for k
    using q n(1) that unfolding c by (simp add: pbytes_def)
  have sub: "take k (drop i (p_mem q)) = take k (drop i (chain_bytes c))" if "i + k \<le> 60" for i k
  proof -
    have "take k (drop i (p_mem q)) = drop i (take (i + k) (p_mem q))" by (simp add: take_drop add.commute)
    also have "\<dots> = drop i (take (i + k) (chain_bytes c))" using pre [OF that] by simp
    also have "\<dots> = take k (drop i (chain_bytes c))" by (simp add: take_drop add.commute)
    finally show ?thesis .
  qed
  have ty: "read_at q 12 2 = Inr (take 2 (drop 12 (chain_bytes c)))" using q(1,2) sub [of 12 2] by (simp add: read_at_def)
  have tt: "of_be16 (take 2 xs) = of_be16 xs" for xs by (simp add: of_be16_def)
  have fr: "\<exists>t. Inr (pbuf_free (q # qs) s) = Inr t \<and> consumed (length (q # qs)) s t" using consumed_free [OF assms(1,2) pool] by blast
  have le: "n \<le> ETH_MAX_PACKET_SIZE" using n(2) by simp
  have arp: "\<exists>t. etharp_arp_input (nif_hwaddr (netif s)) (q # qs) s = Inr t \<and> consumed (length (q # qs)) s t"
    using etharp_arp_input_safe [OF assms(1,2,4) le] consumed_then_free [OF consumed_frame pool] arp_frame_ip unfolding c by blast
  have ip: "\<exists>t. and_then (etharp_ip_input (q # qs) s) (\<lambda>s. case pbuf_header (q # qs) (- 14) of None \<Rightarrow> Inr (pbuf_free (q # qs) s)
        | Some p \<Rightarrow> ip_input ot recv p s) = Inr t \<and> consumed (length (q # qs)) s t" if ipt: "of_be16 (drop 12 (chain_bytes c)) = 0x0800"
  proof -
    obtain t where t: "etharp_ip_input (q # qs) s = Inr t" "arp_ok t" "tx_ok t" "arp_frame_only s t" "balanced s t"
      using etharp_ip_input_safe [OF assms(1,2,4)] unfolding c by blast
    have h0: "consumed 0 s t" by (rule consumed_frame [OF t(2,3) arp_frame_ip [OF t(4)] t(5)])
    have up: "net_up t" using consumed_net_up [OF h0] assms(3) by simp
    have "14 \<le> unat (p_len q)" using q(3) n(1) by simp
    from received_hide [OF rc this] obtain r where r: "pbuf_header (q # qs) (- int 14) = Some (r # qs)" "received (0 + 14) (r # qs)"
      "chain_bytes (r # qs) = drop 14 (chain_bytes (q # qs))" "p_mem r = p_mem q" by blast
    have "length (chain_bytes (r # qs)) \<le> 1500" unfolding r(3) using n(2,3) c by simp
    moreover have "benign (take 20 (drop 14 (p_mem r)))" unfolding r(4) sub [of 14 20, simplified] using assms(5) ipt by (simp add: benign_frame_def)
    ultimately obtain u where "ip_input ot recv (r # qs) t = Inr u" "consumed (length (r # qs)) t u"
      using ip_input_safe [OF t(2,3) up, of r qs ot] r(2) by auto
    note u = this
    have "consumed (length (q # qs)) s u" using consumed_trans [OF h0 u(2)] by simp
    with t(1) r(1) u(1) show ?thesis by (auto simp del: list.size)
  qed
  have bt: "benign (take 20 (drop 14 (chain_bytes c)))" if "of_be16 (drop 12 (chain_bytes c)) = 0x0800"
    using assms(5) that by (simp add: benign_frame_def)
  have "\<exists>t. ethernet_input ot recv (q # qs) s = Inr t \<and> consumed (length (q # qs)) s t"
    unfolding ethernet_input_def list.case ty and_then.simps tt using fr arp ip by (simp del: pbuf_free.simps list.size)
  then show ?thesis unfolding c .
qed

end

end
