(* ===== verification/NetStack.thy ===== *)
theory NetStack
  imports NetInput
begin

text \<open>
  The stack as the main loop of the firmware drives it: the start (\<open>LwIP_Init\<close>), opening a client
  (\<open>udp_echoclient_connect\<close>), a pass over a received frame, the ARP timer, and the transmission of a
  datagram (\<open>udp_send_process\<close>), together with the steps of the DMA engine. \<open>net_inv\<close> is the invariant;
  it is kept by every step, so that no run of regular frames and datagrams fails or loses a buffer.
  The receive callback is represented by what it is called with: \<open>inbox\<close> lists port and address of the
  block, the bytes behind the payload pointer and the length, which are the arguments of
  \<open>udp_receive_callback\<close> in \<open>UdpClient\<close>.
\<close>

section \<open>State\<close>

record net_st = stack_st +
  inbox :: "(u16 \<times> u32 \<times> u8 list \<times> u16) list"

text \<open>The bytes behind the \<open>payload\<close> pointer, as many as the packet has if its first structure holds them.\<close>

definition payload_bytes :: "chain \<Rightarrow> u8 list" where
  "payload_bytes p = (case p of [] \<Rightarrow> [] | q # _ \<Rightarrow> take (unat (p_tot_len q)) (drop (p_payload q) (p_mem q)))"

definition deliver :: "'a net_st_scheme receiver" where
  "deliver k p addr port s = (case p of [] \<Rightarrow> Inl Undefined | q # _ \<Rightarrow>
     Inr (pbuf_free p (s\<lparr>inbox := inbox s @ [(up_remote_port (pcb_of k s), up_remote_ip (pcb_of k s), payload_bytes p, p_tot_len q)]\<rparr>)))"

interpretation app: frees_packets deliver
proof unfold_locales
  fix j k c and ip :: u32 and port :: u16 and s :: "'a net_st_scheme"
  assume "received j c"
  then obtain q qs where c: "c = q # qs" by (cases c) (auto simp: received_def)
  let ?x = "inbox s @ [(up_remote_port (pcb_of k s), up_remote_ip (pcb_of k s), payload_bytes c, p_tot_len q)]"
  have "s\<lparr>inbox := ?x\<rparr> = stack_st.more_update (\<lambda>_. stack_st.more (s\<lparr>inbox := ?x\<rparr>)) s" by (cases s) simp
  then show "\<exists>f. deliver k c ip port s = Inr (pbuf_free c (stack_st.more_update f s))"
    unfolding c deliver_def list.case by metis
qed

section \<open>The operations of the main loop\<close>

text \<open>\<open>udp_send_process\<close> with the stack below it.\<close>

definition udp_transmit :: "'a stack_st_scheme others \<Rightarrow> nat \<Rightarrow> u8 list \<Rightarrow> u16 \<Rightarrow> 'a stack_st_scheme \<Rightarrow> 'a stack_st_scheme result" where
  "udp_transmit ot k buf len s = (case pbuf_alloc PBUF_TRANSPORT len PBUF_POOL s of
      (None, s) \<Rightarrow> Inr s
    | (Some p, s) \<Rightarrow>
        if unat len \<le> length buf then
          and_then (pbuf_take p (take (unat len) buf)) (\<lambda>(_, p).
          and_then (udp_send ot k p s) (\<lambda>(_, s). Inr (pbuf_free p s)))
        else Inl Undefined)"

text \<open>\<open>LwIP_Init\<close> with the stack below it, and \<open>udp_echoclient_connect\<close>.\<close>

definition lwip_start :: "u8 list \<Rightarrow> u32 \<Rightarrow> u32 \<Rightarrow> u32 \<Rightarrow> 'a stack_st_scheme \<Rightarrow> 'a stack_st_scheme result" where
  "lwip_start mac ip netmask gw s =
     (let s = set_mac_address mac s;
          (_, s) = netif_add ip netmask gw s
      in netif_set_up (netif_set_default s))"

definition udp_open :: "u32 \<Rightarrow> u16 \<Rightarrow> 'a stack_st_scheme \<Rightarrow> (nat option \<times> 'a stack_st_scheme)" where
  "udp_open ip port s = (case udp_new s of
      (None, s) \<Rightarrow> (None, s)
    | (Some k, s) \<Rightarrow>
        let (_, s) = udp_bind k 0 9902 s;
            (e, s) = udp_connect k ip port s
        in (Some k, if e = ERR_OK then udp_recv k s else s))"

datatype stack_event =
    Frame_In "u8 list"        \<comment> \<open>a good frame arrives\<close>
  | Frame_Out                 \<comment> \<open>the DMA sends a frame\<close>
  | Receive_Pass
  | Arp_Tick
  | Send nat "u8 list" u16

fun stack_step :: "'a net_st_scheme others \<Rightarrow> stack_event \<Rightarrow> 'a net_st_scheme \<Rightarrow> 'a net_st_scheme result" where
  "stack_step ot (Frame_In f) s = Inr (dma_receive (good_status (length f)) f s)"
| "stack_step ot Frame_Out s = Inr (dma_transmit s)"
| "stack_step ot Receive_Pass s = net_receive ot deliver s"
| "stack_step ot Arp_Tick s = Inr (etharp_tmr s)"
| "stack_step ot (Send k buf len) s = udp_transmit ot k buf len s"

section \<open>The invariant\<close>

definition good_rx :: "u32 \<times> u8 list \<Rightarrow> bool" where
  "good_rx = (\<lambda>(st, b). \<exists>n. st = good_status n AND NOT DESC_OWN \<and> n \<le> length b \<and> benign_frame (take n b))"

definition net_inv :: "'b stack_st_scheme \<Rightarrow> 'a stack_st_scheme \<Rightarrow> bool" where
  "net_inv s0 s \<longleftrightarrow> arp_ok s \<and> tx_ok s \<and> rx_ok s \<and> net_up s \<and> list_all good_rx (rx_queue s)
     \<and> ram_live s + queued s0 = ram_live s0 + queued s \<and> arpq_free s + queued s = arpq_free s0 + queued s0
     \<and> pool_free s = pool_free s0 \<and> netif s = netif s0 \<and> pcb_mem s = pcb_mem s0 \<and> mset (udp_pcbs s) = mset (udp_pcbs s0)"

lemma net_inv_consumed:
  assumes "net_inv s0 s" "consumed 0 s t"
  shows "net_inv s0 t"
  using assms consumed_net_up [OF assms(2)]
  by (simp add: net_inv_def consumed_def stack_kept_def balanced_def)

lemma dma_receive_eq: "\<exists>a b c d. dma_receive st bs s = s\<lparr>Rx_Buff := a, DMARxDscrTab := b, dma_rx := c, DMASR := d\<rparr>"
proof -
  let ?t = "dma_receive st bs s"
  have "?t = s\<lparr>Rx_Buff := Rx_Buff ?t, DMARxDscrTab := DMARxDscrTab ?t, dma_rx := dma_rx ?t, DMASR := DMASR ?t\<rparr>"
    by (simp add: dma_receive_def Let_def)
  then show ?thesis by blast
qed

lemma rx_update_inv:
  assumes "net_inv s0 s" "t = s\<lparr>Rx_Buff := a, DMARxDscrTab := b, dma_rx := c, DMASR := d, DMARxDescToGet := e, requests := r\<rparr>"
    "rx_ok t" "list_all good_rx (rx_queue t)"
  shows "net_inv s0 t"
proof -
  have "arp_ok t = arp_ok s" "tx_ok t = tx_ok s" "net_up t = net_up s" "queued t = queued s"
    unfolding assms(2) by (simp_all add: arp_ok_def queued_def tx_ok_def tx_slots_def net_up_def netif_is_up_def)
  moreover have "ram_live t = ram_live s" "arpq_free t = arpq_free s" "pool_free t = pool_free s" "netif t = netif s"
    "pcb_mem t = pcb_mem s" "udp_pcbs t = udp_pcbs s"
    unfolding assms(2) by simp_all
  ultimately show ?thesis using assms(1,3,4) by (simp add: net_inv_def)
qed

lemma frame_in_inv:
  assumes "net_inv s0 s" "benign_frame f"
  shows "net_inv s0 (dma_receive (good_status (length f)) f s)"
proof -
  let ?t = "dma_receive (good_status (length f)) f s"
  have rx: "rx_ok s" "list_all good_rx (rx_queue s)" using assms(1) by (simp_all add: net_inv_def)
  obtain a b c d where e: "?t = s\<lparr>Rx_Buff := a, DMARxDscrTab := b, dma_rx := c, DMASR := d\<rparr>" using dma_receive_eq by blast
  then have e: "?t = s\<lparr>Rx_Buff := a, DMARxDscrTab := b, dma_rx := c, DMASR := d, DMARxDescToGet := DMARxDescToGet s, requests := requests s\<rparr>" by simp
  have l: "length f \<le> ETH_MAX_PACKET_SIZE" using assms(2) by (simp add: benign_frame_def)
  have "rx_ok ?t \<and> list_all good_rx (rx_queue ?t)"
  proof (cases "length (rx_queue s) < 4")
    case True
    from dma_receive_room [OF rx(1) True l, of "good_status (length f)"] obtain rest where
      r: "rx_ok ?t" "rx_queue ?t = rx_queue s @ [(good_status (length f) AND NOT DESC_OWN, f @ rest)]" by blast
    have "good_rx (good_status (length f) AND NOT DESC_OWN, f @ rest)"
      unfolding good_rx_def prod.case using assms(2) by (intro exI [of _ "length f"]) simp
    then show ?thesis using r rx(2) by simp
  next
    case False
    have "slots_ok rx_full 4 (DMARxDescToGet s) (dma_rx s) (rx_slots s)" using rx(1) by (simp add: rx_ok_def)
    then have "length (rx_queue s) = 4" using rx.waiting_bounded False by (auto simp: rx_queue_def not_less intro: le_antisym)
    then have u: "?t = s\<lparr>DMASR := DMASR s OR DMASR_RBUS\<rparr>" using dma_receive_full [OF rx(1)] by blast
    show ?thesis using rx unfolding u by (simp add: rx_ok_def rx_queue_def rx_slots_def)
  qed
  then show ?thesis using rx_update_inv [OF assms(1) e] by blast
qed

lemma frame_out_inv:
  assumes "net_inv s0 s"
  shows "net_inv s0 (dma_transmit s)"
proof -
  have tx: "tx_ok s" using assms by (simp add: net_inv_def)
  have "tx_ok (dma_transmit s)"
  proof (cases "tx_queue s")
    case Nil
    show ?thesis unfolding dma_transmit_idle [OF tx Nil] using tx by (simp add: tx_ok_def tx_slots_def)
  next
    case (Cons f fs)
    then show ?thesis using dma_transmit_frame [OF tx] by blast
  qed
  moreover have "net_up (dma_transmit s) = net_up s" "queued (dma_transmit s) = queued s" "ram_live (dma_transmit s) = ram_live s"
    "arpq_free (dma_transmit s) = arpq_free s" "pcb_mem (dma_transmit s) = pcb_mem s" "udp_pcbs (dma_transmit s) = udp_pcbs s"
    by (simp_all add: dma_transmit_def Let_def net_up_def netif_is_up_def queued_def)
  ultimately show ?thesis using assms by (simp add: net_inv_def dma_transmit_arp)
qed


section \<open>A pass\<close>

lemma good_rx_head:
  assumes "good_rx (st, b)"
  shows "\<exists>n. n \<le> length b \<and> benign_frame (take n b) \<and> good_frame st \<and> drop_bit 16 (st AND RX_FL) = of_nat (n + 4)
    \<and> 60 \<le> n \<and> n \<le> 1514 \<and> drop_bit 16 (st AND RX_FL) \<noteq> 0"
proof -
  obtain n where n: "st = good_status n AND NOT DESC_OWN" "n \<le> length b" "benign_frame (take n b)"
    using assms by (auto simp: good_rx_def)
  then have l: "60 \<le> n" "n \<le> 1514" by (simp_all add: benign_frame_def)
  then have "n \<le> 16000" by simp
  note st = good_status_reads [OF this, folded n(1)]
  have "unat (of_nat (n + 4) :: u32) = n + 4" using l(2) by (simp add: unat_of_nat take_bit_nat_def del: of_nat_add)
  then have "(of_nat (n + 4) :: u32) \<noteq> 0" by (metis add_is_0 unsigned_0 zero_neq_numeral)
  then show ?thesis using n(2,3) st l by auto
qed

lemma consumed_alloc:
  assumes "u = s\<lparr>pool_free := pool_free s - n, requests := k\<rparr>" "n \<le> pool_free s" "consumed n u v"
  shows "consumed 0 s v"
  using assms(2,3) unfolding consumed_def stack_kept_def balanced_def assms(1)
  by (simp add: rx_queue_def rx_slots_def rx_ok_def queued_def)

lemma pool_update:
  "arp_ok (s\<lparr>pool_free := a\<rparr>) = arp_ok s" "tx_ok (s\<lparr>pool_free := a\<rparr>) = tx_ok s" "net_up (s\<lparr>pool_free := a\<rparr>) = net_up s"
  by (simp_all add: arp_ok_def queued_def tx_ok_def tx_slots_def net_up_def netif_is_up_def)

text \<open>One pass on a waiting frame: it goes to \<open>ethernet_input\<close> when the pool has buffers for it and is dropped otherwise.\<close>

lemma net_receive_head:
  assumes "net_inv s0 s" "rx_queue s = (st, b) # q" "good_frame st" "drop_bit 16 (st AND RX_FL) = of_nat (n + 4)" "n \<le> 1514"
    "drop_bit 16 (st AND RX_FL) \<noteq> 0"
  shows "\<exists>u k d g m. u = s\<lparr>requests := k, DMARxDscrTab := d, DMARxDescToGet := g, DMASR := m\<rparr> \<and> net_inv s0 u \<and> rx_queue u = q
    \<and> (if chain_nodes PBUF_RAW n \<le> pool_free s
       then \<exists>c. pool_frame c n \<and> chain_bytes c = take n b \<and> length c \<le> pool_free s
          \<and> net_receive ot recv s = ethernet_input ot recv c (u\<lparr>pool_free := pool_free s - length c\<rparr>)
       else net_receive ot recv s = Inr u)"
proof -
  have s: "rx_ok s" "list_all good_rx q" using assms(1,2) by (simp_all add: net_inv_def)
  have "n \<le> ETH_MAX_PACKET_SIZE" using assms(5) by simp
  from low_level_input_frame [OF s(1) assms(2-4) this]
  obtain r t a k d g m where t: "low_level_input s = Inr (r, t)"
    "t = s\<lparr>pool_free := a, requests := k, DMARxDscrTab := d, DMARxDescToGet := g, DMASR := m\<rparr>" "rx_ok t" "rx_queue t = q"
    and r: "if chain_nodes PBUF_RAW n \<le> pool_free s then \<exists>c. r = Some c \<and> pool_frame c n \<and> chain_bytes c = take n b \<and> a + length c = pool_free s
       else r = None \<and> a = pool_free s" by blast
  have size: "ETH_GetRxPktSize s \<noteq> 0" using ETH_GetRxPktSize_queue [OF s(1)] assms(2,3,6) by simp
  let ?u = "s\<lparr>requests := k, DMARxDscrTab := d, DMARxDescToGet := g, DMASR := m\<rparr>"
  have u: "?u = s\<lparr>Rx_Buff := Rx_Buff s, DMARxDscrTab := d, dma_rx := dma_rx s, DMASR := m, DMARxDescToGet := g, requests := k\<rparr>" by simp
  have "rx_ok ?u" "rx_queue ?u = q" using t(3,4) unfolding t(2) by (simp_all add: rx_ok_def rx_slots_def rx_queue_def)
  then have inv: "net_inv s0 ?u" "rx_queue ?u = q" using rx_update_inv [OF assms(1) u] s(2) by simp_all
  have id: "and_then x (\<lambda>s. Inr (ERR_OK, s)) = (case x of Inr s \<Rightarrow> Inr (ERR_OK, s) | Inl f \<Rightarrow> Inl f)" for x :: "'a stack_st_scheme result"
    by (cases x) simp_all
  have fin: "net_receive ot recv s = (case r of None \<Rightarrow> Inr t | Some c \<Rightarrow> ethernet_input ot recv c t)"
    using size t(1) by (cases r; cases "ethernet_input ot recv (the r) t") (simp_all add: net_receive_def ethernetif_input_def)
  show ?thesis
  proof (cases "chain_nodes PBUF_RAW n \<le> pool_free s")
    case True
    then obtain c where c: "r = Some c" "pool_frame c n" "chain_bytes c = take n b" "a + length c = pool_free s" using r by auto
    have "t = ?u\<lparr>pool_free := pool_free s - length c\<rparr>" unfolding t(2) c(4) [symmetric] by simp
    then show ?thesis using inv fin c True by (intro exI [of _ ?u] exI [of _ k] exI [of _ d] exI [of _ g] exI [of _ m]) auto
  next
    case False
    then have "t = ?u" "r = None" using r unfolding t(2) by auto
    then show ?thesis using inv fin False by (intro exI [of _ ?u] exI [of _ k] exI [of _ d] exI [of _ g] exI [of _ m]) auto
  qed
qed

context frees_packets
begin

lemma net_receive_step:
  assumes "net_inv s0 s"
  shows "\<exists>t. net_receive ot recv s = Inr t \<and> net_inv s0 t \<and> rx_queue t = tl (rx_queue s)"
proof (cases "rx_queue s")
  case Nil
  have "rx_ok s" using assms by (simp add: net_inv_def)
  from ETH_GetRxPktSize_queue [OF this] show ?thesis using assms by (simp add: net_receive_def Nil)
next
  case (Cons x q)
  obtain st b where x: "x = (st, b)" by (cases x)
  have "good_rx (st, b)" using assms by (simp add: net_inv_def Cons x)
  from good_rx_head [OF this] obtain n where n: "benign_frame (take n b)" "good_frame st" "drop_bit 16 (st AND RX_FL) = of_nat (n + 4)"
    "n \<le> 1514" "drop_bit 16 (st AND RX_FL) \<noteq> 0" by blast
  from net_receive_head [OF assms Cons [unfolded x] n(2-5), of ot recv] obtain u where
    u: "net_inv s0 u" "rx_queue u = q" "pool_free u = pool_free s"
      "if chain_nodes PBUF_RAW n \<le> pool_free s
       then \<exists>c. pool_frame c n \<and> chain_bytes c = take n b \<and> length c \<le> pool_free s
          \<and> net_receive ot recv s = ethernet_input ot recv c (u\<lparr>pool_free := pool_free s - length c\<rparr>)
       else net_receive ot recv s = Inr u" by auto
  show ?thesis
  proof (cases "chain_nodes PBUF_RAW n \<le> pool_free s")
    case True
    then obtain c where c: "pool_frame c n" "chain_bytes c = take n b" "length c \<le> pool_free s"
      "net_receive ot recv s = ethernet_input ot recv c (u\<lparr>pool_free := pool_free s - length c\<rparr>)" using u(4) by auto
    let ?t = "u\<lparr>pool_free := pool_free s - length c\<rparr>"
    have t: "arp_ok ?t" "tx_ok ?t" "net_up ?t"
      using u(1) unfolding net_inv_def pool_update by blast+
    from ethernet_input_safe [OF t c(1)] n(1) c(2) obtain v where v: "ethernet_input ot recv c ?t = Inr v" "consumed (length c) ?t v" by metis
    have "consumed 0 u v" by (rule consumed_alloc [where n = "length c" and k = "requests u"]) (use v(2) c(3) u(3) in simp_all)
    then have "net_inv s0 v" "rx_queue v = q" using net_inv_consumed [OF u(1)] u(2) by (simp_all add: consumed_def stack_kept_def)
    then show ?thesis using c(4) v(1) Cons by simp
  next
    case False
    then show ?thesis using u Cons by auto
  qed
qed

end

section \<open>Sending\<close>

lemma alloc_room:
  assumes "chain_ok c" "c \<noteq> []" "full_pool (tl c)" "p_type (hd c) = PBUF_POOL" "p_payload (hd c) = align4 (layer_offset PBUF_TRANSPORT)"
    and "list_all2 same_shape c d" "chain_ok d"
  shows "room 42 d \<and> map p_type d = map p_type c"
proof -
  obtain p ps where c: "c = p # ps" using assms(2) by (cases c) auto
  then obtain q qs where d: "d = q # qs" "same_shape p q" "list_all2 same_shape ps qs" using assms(6) by (auto simp: list_all2_Cons1)
  have m: "map p_len d = map p_len c" "map p_type d = map p_type c" using same_shapes_maps [OF assms(6)] by simp_all
  have "no_gaps c" using full_pool_no_gaps [OF assms(3)] .
  then have "no_gaps d" unfolding no_gaps_lens m(1) .
  moreover have "p_payload q = 56" "p_type q = PBUF_POOL"
    using assms(4,5) same_shape_fields [OF d(2)] by (simp_all add: c layer_offset_aligned)
  ultimately show ?thesis using assms(7) m(2) by (simp add: room_def d(1) del: chain_ok.simps)
qed


lemma transmit_packet:
  assumes "pbuf_alloc PBUF_TRANSPORT len PBUF_POOL s = (Some c, u)" "unat len \<le> length buf"
  shows "\<exists>d n. u = s\<lparr>pool_free := pool_free s - length d, requests := n\<rparr> \<and> length d \<le> pool_free s \<and> room 42 d
    \<and> (\<forall>p\<in>set d. p_type p = PBUF_POOL) \<and> chain_bytes d = take (unat len) buf
    \<and> udp_transmit ot k buf len s = and_then (udp_send ot k d u) (\<lambda>(_, s). Inr (pbuf_free d s))"
proof -
  note a = pbuf_alloc_pool [OF assms(1)]
  have c: "c \<noteq> []" "chain_ok c" "length (chain_bytes c) = unat len" "p_payload (hd c) = align4 (layer_offset PBUF_TRANSPORT)"
    "p_type (hd c) = PBUF_POOL" "full_pool (tl c)" "length c \<le> pool_free s" "\<exists>n. u = s\<lparr>pool_free := pool_free s - length c, requests := n\<rparr>"
    using a by (auto split: if_splits)
  have "length (take (unat len) buf) \<le> length (chain_bytes c)" using c(3) by simp
  from pbuf_take_spec [OF c(2,1) this] obtain d where d: "pbuf_take c (take (unat len) buf) = Inr (ERR_OK, d)" "list_all2 same_shape c d" "chain_ok d"
    "chain_bytes d = take (unat len) buf @ drop (length (take (unat len) buf)) (chain_bytes c)" by blast
  have b: "chain_bytes d = take (unat len) buf" using d(4) c(3) assms(2) by simp
  have r: "room 42 d" "map p_type d = map p_type c" using alloc_room [OF c(2,1,6,5,4) d(2,3)] by blast+
  have "p_type x = PBUF_POOL" if "x \<in> set c" for x
    using that c(1,5,6) by (cases c) (auto simp: full_pool_def)
  then have "set (map p_type c) \<subseteq> {PBUF_POOL}" by auto
  then have ty: "\<forall>p\<in>set d. p_type p = PBUF_POOL" unfolding r(2) [symmetric] by auto
  have ld: "length d = length c" using d(2) by (simp add: list_all2_lengthD)
  have "udp_transmit ot k buf len s = and_then (udp_send ot k d u) (\<lambda>(_, s). Inr (pbuf_free d s))"
    using assms d(1) by (simp add: udp_transmit_def)
  then show ?thesis using c(7,8) [folded ld] r(1) ty b by blast
qed

lemma udp_send_safe:
  assumes "arp_ok s" "tx_ok s" "net_up s" "may_send k s" "room 42 p" "length (chain_bytes p) \<le> 1472"
  shows "\<exists>e t. udp_send ot k p s = Inr (e, t) \<and> consumed 0 s t"
proof -
  let ?c = "pcb_of k s"
  obtain q where q: "room 34 q" "chain_bytes q = udp_header (up_local_port ?c) (up_remote_port ?c) (of_nat (length (chain_bytes p) + 8)) @ chain_bytes p"
    "udp_sendto_if ot k p (up_remote_ip ?c) (up_remote_port ?c) s
      = ip_output_if ot q (nif_ip_addr (netif s)) (Some (up_remote_ip ?c)) (up_ttl ?c) (up_tos ?c) IP_PROTO_UDP s"
    using udp_sendto_if_output [OF assms(4-6)] by blast
  have "length (chain_bytes q) \<le> 1480" unfolding q(2) using assms(6) by simp
  from ip_output_if_safe [OF assms(1-3) q(1) this] obtain e t where
    t: "ip_output_if ot q (nif_ip_addr (netif s)) (Some (up_remote_ip ?c)) (up_ttl ?c) (up_tos ?c) IP_PROTO_UDP s = Inr (e, t)"
    "arp_ok t" "tx_ok t" "ip_frame_only s t" "balanced s t" by blast
  have "udp_send ot k p s = Inr (e, t)" using q(3) t(1) ip_route_up [OF assms(3)] by (simp add: udp_send_def udp_sendto_def)
  then show ?thesis using consumed_frame [OF t(2-5)] by blast
qed

lemma requests_consumed:
  assumes "arp_ok s" "tx_ok s"
  shows "consumed 0 s (s\<lparr>requests := n\<rparr>)"
  using assms
  by (simp add: consumed_def stack_kept_def arp_ok_def tx_ok_def tx_slots_def queued_def balanced_def rx_queue_def rx_slots_def rx_ok_def)

lemma udp_transmit_safe:
  assumes "arp_ok s" "tx_ok s" "net_up s" "may_send k s" "unat len \<le> length buf" "unat len \<le> 1472"
  shows "\<exists>t. udp_transmit ot k buf len s = Inr t \<and> consumed 0 s t"
proof (cases "pbuf_alloc PBUF_TRANSPORT len PBUF_POOL s")
  case (Pair r u)
  show ?thesis
  proof (cases r)
    case None
    then obtain n where "u = s\<lparr>requests := n\<rparr>" using pbuf_alloc_pool [OF Pair] by (auto split: if_splits)
    then show ?thesis using Pair None requests_consumed [OF assms(1,2), of n] by (simp add: udp_transmit_def)
  next
    case (Some c)
    from transmit_packet [OF Pair [unfolded Some] assms(5), of ot k] obtain d n where
      d: "u = s\<lparr>pool_free := pool_free s - length d, requests := n\<rparr>" "length d \<le> pool_free s" "room 42 d"
      "\<forall>p\<in>set d. p_type p = PBUF_POOL" "chain_bytes d = take (unat len) buf"
      "udp_transmit ot k buf len s = and_then (udp_send ot k d u) (\<lambda>(_, s). Inr (pbuf_free d s))" by blast
    have u: "arp_ok u" "tx_ok u" "net_up u" "may_send k u"
      using assms(1-4) unfolding d(1)
      by (simp_all add: arp_ok_def queued_def tx_ok_def tx_slots_def net_up_def netif_is_up_def may_send_def pcb_of_def)
    have "length (chain_bytes d) \<le> 1472" unfolding d(5) using assms(6) by simp
    from udp_send_safe [OF u d(3) this] obtain e t where t: "udp_send ot k d u = Inr (e, t)" "consumed 0 u t" by blast
    have "consumed (length d) u (pbuf_free d t)" by (rule consumed_then_free [OF t(2) d(4)])
    from consumed_alloc [OF d(1,2) this] show ?thesis using d(6) t(1) by auto
  qed
qed

section \<open>All steps\<close>

text \<open>The events the stack is safe under: regular frames, and datagrams of a bound block that fit a frame.\<close>

fun allowed_event :: "'b stack_st_scheme \<Rightarrow> stack_event \<Rightarrow> bool" where
  "allowed_event s0 (Frame_In f) = benign_frame f"
| "allowed_event s0 (Send k buf len) = (may_send k s0 \<and> unat len \<le> length buf \<and> unat len \<le> 1472)"
| "allowed_event s0 _ = True"

lemma stack_step_safe:
  assumes "allowed_event s0 e" "net_inv s0 s"
  shows "\<exists>t. stack_step ot e s = Inr t \<and> net_inv s0 t"
proof (cases e)
  case (Frame_In f)
  then show ?thesis using frame_in_inv [OF assms(2)] assms(1) by simp
next
  case Frame_Out
  then show ?thesis using frame_out_inv [OF assms(2)] by simp
next
  case Receive_Pass
  then show ?thesis using app.net_receive_step [OF assms(2)] by auto
next
  case Arp_Tick
  have s: "arp_ok s" "tx_ok s" using assms(2) by (simp_all add: net_inv_def)
  from etharp_tmr_spec [OF this] have "consumed 0 s (etharp_tmr s)" by (intro consumed_frame arp_frame_ip) simp_all
  then show ?thesis using net_inv_consumed [OF assms(2)] Arp_Tick by simp
next
  case (Send k buf len)
  have s: "arp_ok s" "tx_ok s" "net_up s" using assms(2) by (simp_all add: net_inv_def)
  have "may_send k s" using assms Send by (simp add: net_inv_def may_send_def pcb_of_def)
  from udp_transmit_safe [OF s this, of len buf ot] show ?thesis using assms(1) Send net_inv_consumed [OF assms(2)] by auto
qed

interpretation stack: safe_steps "stack_step ot" "allowed_event s0" "net_inv s0" "\<lambda>_. True" for ot s0
  by unfold_locales (use stack_step_safe [of _ _ _ ot] in fastforce)

section \<open>Properties of runs\<close>

text \<open>C5: Whatever regular frames arrive, whatever datagrams of bound blocks are sent and in whatever order frames are
  received, sent and timed out, no step fails, the rings, the ARP table and the interface stay well-formed, and no buffer is lost.\<close>

theorem stack_stays_well_formed:
  assumes "net_inv s0 s0" "list_all (allowed_event s0) es"
  shows "\<exists>t. run_list (stack_step ot) es s0 = Inr t \<and> arp_ok t \<and> tx_ok t \<and> rx_ok t \<and> net_up t \<and> list_all good_rx (rx_queue t)
    \<and> pool_free t = pool_free s0 \<and> ram_live t + queued s0 = ram_live s0 + queued t \<and> arpq_free t + queued t = arpq_free s0 + queued s0
    \<and> pcb_mem t = pcb_mem s0"
proof -
  from stack.run_safe [OF assms(2,1), of ot] obtain t where "run_list (stack_step ot) es s0 = Inr t" "net_inv s0 t"
    by (cases "run_list (stack_step ot) es s0") simp_all
  then show ?thesis by (simp add: net_inv_def)
qed

text \<open>As many passes as frames wait handle them all, one frame a pass.\<close>

theorem waiting_frames_handled:
  assumes "net_inv s0 s" "n \<le> length (rx_queue s)"
  shows "\<exists>t. run_list (stack_step ot) (replicate n Receive_Pass) s = Inr t \<and> net_inv s0 t \<and> rx_queue t = drop n (rx_queue s)"
  using assms
proof (induction n arbitrary: s)
  case (Suc n)
  obtain t where t: "net_receive ot deliver s = Inr t" "net_inv s0 t" "rx_queue t = tl (rx_queue s)"
    using app.net_receive_step [OF Suc.prems(1)] by blast
  have "n \<le> length (rx_queue t)" using Suc.prems(2) t(3) by simp
  from Suc.IH [OF t(2) this] show ?case using t(1,3) by (auto simp: drop_Suc)
qed simp

section \<open>A datagram on the wire\<close>

definition datagram_frame ::
  "u8 list \<Rightarrow> u8 list \<Rightarrow> u8 \<Rightarrow> u16 \<Rightarrow> u8 \<Rightarrow> u8 list \<Rightarrow> u32 \<Rightarrow> u32 \<Rightarrow> u16 \<Rightarrow> u16 \<Rightarrow> u8 list \<Rightarrow> u8 list \<Rightarrow> u8 list" where
  "datagram_frame dst src tos i ttl ck sip dip sport dport v payload =
     dst @ src @ be16 0x0800 @ [0x45, tos] @ be16 (of_nat (length payload + 28)) @ be16 i @ be16 0 @ [ttl, 17] @ ck
     @ ip_bytes sip @ ip_bytes dip @ be16 sport @ be16 dport @ v @ payload"

lemma udp_frame_datagram:
  "udp_frame dst src tos i ttl sip dip sport dport bs
   = datagram_frame dst src tos i ttl (be16 0) sip dip sport dport (be16 (of_nat (length bs + 8)) @ [0, 0]) bs"
  by (simp add: udp_frame_def datagram_frame_def eth_frame_def ip_header_def udp_header_def)

lemma ethernet_input_datagram:
  assumes "arp_ok s" "tx_ok s" "net_up s" "pool_frame c (length f)" "chain_bytes c = f" "f = datagram_frame dst src tos i ttl ck sip dip sport dport v payload @ pad"
    and "length dst = 6" "length src = 6" "length ck = 2" "length v = 4" "60 \<le> length f" "length f \<le> 1500"
    and "dip = nif_ip_addr (netif s)" "dip \<noteq> 0" "\<not> ip_addr_isbroadcast sip (netif s)" "\<not> ip_addr_ismulticast sip"
    and "List.find (\<lambda>k. local_match (ip_addr_isbroadcast dip (netif s)) dip dport (pcb_of k s) \<and> remote_match sip sport (pcb_of k s)) (udp_pcbs s) = Some k"
    and "up_recv (pcb_of k s)"
  shows "\<exists>g gs u. received 42 (g # gs) \<and> chain_bytes (g # gs) = payload \<and> payload_bytes (g # gs) = payload
    \<and> p_tot_len g = of_nat (length payload)
    \<and> ethernet_input ot recv c s = recv k (g # gs) sip sport u \<and> pcb_mem u = pcb_mem s \<and> stack_st.more u = stack_st.more s"
proof -
  obtain q qs where c: "c = q # qs" using assms(4) by (cases c) (auto simp: pool_frame_def)
  have rc: "received 0 (q # qs)" using assms(4) unfolding c by (simp add: pool_frame_def received_Cons)
  have q: "p_payload q = 0" "length (p_mem q) = 1500" "unat (p_len q) = length f" "node_ok q"
    using assms(4,12) unfolding c by (auto simp: pool_frame_def)
  have cb: "chain_bytes (q # qs) = f" using assms(5) c by simp
  have pre: "take j (p_mem q) = take j f" if "j \<le> length f" for j
  proof -
    have "pbytes q @ chain_bytes qs = f" using cb by simp
    then have "take (length (pbytes q)) f = pbytes q" by (metis append_eq_conv_conj)
    then have "take (length f) (p_mem q) = f" using q assms(12) by (simp add: pbytes_def min_def)
    then show ?thesis using that by (metis take_take min.absorb1)
  qed
  have fl: "length f = length payload + length pad + 42" unfolding assms(6) datagram_frame_def using assms(7-10) by simp
  have f12: "drop 12 f = be16 0x0800 @ drop 14 f" "drop 14 f = [0x45, tos] @ be16 (of_nat (length payload + 28)) @ be16 i @ be16 0 @ [ttl, 17] @ ck
     @ ip_bytes sip @ ip_bytes dip @ be16 sport @ be16 dport @ v @ payload @ pad"
    unfolding assms(6) datagram_frame_def using assms(7-10) by simp_all
  have ty: "read_at q 12 2 = Inr (be16 0x0800)"
  proof -
    have "take 2 (drop 12 (p_mem q)) = drop 12 (take 14 (p_mem q))" by (simp add: take_drop)
    also have "\<dots> = take 2 (drop 12 f)" using pre [of 14] assms(11) by (simp add: take_drop)
    finally show ?thesis using q(1,2) f12 by (simp add: read_at_def)
  qed
  obtain a where a: "etharp_ip_input (q # qs) s = Inr a" "arp_ok a" "tx_ok a" "arp_frame_only s a" "balanced s a"
    using etharp_ip_input_safe [OF assms(1,2,4)] assms(12) unfolding c by auto
  have ip: "ip_frame_only s a" by (rule arp_frame_ip [OF a(4)])
  have na: "netif a = netif s" "pcb_mem a = pcb_mem s" "udp_pcbs a = udp_pcbs s" "stack_st.more a = stack_st.more s" "net_up a"
    using ip assms(3) net_up_frame [OF ip] by (simp_all add: ip_frame_only_def stack_fields)
  have "14 \<le> unat (p_len q)" using q(3) assms(11) by simp
  from received_hide [OF rc this] obtain r where r: "pbuf_header (q # qs) (- int 14) = Some (r # qs)" "received (0 + 14) (r # qs)"
    "chain_bytes (r # qs) = drop 14 (chain_bytes (q # qs))" "p_mem r = p_mem q" "unat (p_len r) = unat (p_len q) - 14" by blast
  have rr: "received 14 (r # qs)" "chain_bytes (r # qs) = drop 14 f" "unat (p_len r) = length f - 14"
    using r(2,5) q(3) unfolding r(3) cb by simp_all
  have e1: "ethernet_input ot recv c s = ip_input ot recv (r # qs) a"
    using ty a(1) r(1) of_be16_bytes [of "0x0800" "[]"] unfolding c ethernet_input_def by simp
  let ?h = "[0x45, tos] @ be16 (of_nat (length payload + 28)) @ be16 i @ be16 0 @ [ttl, 17] @ ck @ ip_bytes sip @ ip_bytes dip"
  let ?n = "of_nat (length payload + 28) :: u16"
  have n: "unat ?n = length payload + 28" using fl assms(12) by (simp add: unat_of_nat take_bit_nat_def del: of_nat_add)
  have rm: "p_payload r = 14" "length (p_mem r) = 1500" using rr(1) by (simp_all add: received_Cons)
  have "20 \<le> unat (p_len r)" using rr(3) assms(11) by simp
  then have "take 20 (drop 14 (p_mem r)) = take 20 (drop 14 f)"
    using received_prefix [OF rr(1)] unfolding rr(2) by blast
  also have "\<dots> = ?h" unfolding f12(2) using assms(9) by simp
  finally have h: "read_at r 0 20 = Inr ?h" using rm by (simp add: read_at_def)
  have h9: "?h ! 9 = 17" by (simp add: be16_def)
  have hf: "?h ! 0 = 0x45" "of_be16 (drop 2 ?h) = ?n" "of_be16 (drop 6 ?h) = 0" "ip_of (drop 12 ?h) = sip" "ip_of (drop 16 ?h) = dip"
    "hlen_of ?h = 20"
    using assms(9) by (simp_all add: hlen_of_def)
  obtain p ps gone where z: "pbuf_realloc (r # qs) ?n a = Inr (p # ps, pbuf_free gone a)" "received 14 (p # ps)"
    "chain_bytes (p # ps) = take (unat ?n) (chain_bytes (r # qs))" "p_mem p = p_mem r" "unat (p_len p) = min (unat (p_len r)) (unat ?n)"
    using received_realloc [OF rr(1)] by blast
  let ?b = "pbuf_free gone a"
  have pb: "chain_bytes (p # ps) = [0x45, tos] @ (be16 ?n @ be16 i @ be16 0) @ [ttl, 17, ck ! 0, ck ! 1] @ ip_bytes sip @ ip_bytes dip
      @ be16 sport @ be16 dport @ v @ payload"
  proof -
    obtain x y where "ck = [x, y]" using assms(9) by (metis (no_types) One_nat_def Suc_1 length_0_conv length_Suc_conv)
    note xy = this
    let ?P = "[0x45, tos] @ (be16 ?n @ be16 i @ be16 0) @ [ttl, 17, ck ! 0, ck ! 1] @ ip_bytes sip @ ip_bytes dip @ be16 sport @ be16 dport @ v @ payload"
    have "drop 14 f = ?P @ pad" unfolding f12(2) by (simp add: xy)
    moreover have "length ?P = length payload + 28" using assms(10) by simp
    ultimately show ?thesis unfolding z(3) rr(2) n by (metis append_eq_conv_conj)
  qed
  obtain x y w where b: "?b = a\<lparr>pool_free := x, ram_live := y, ref_free := w\<rparr>" using pbuf_free_eq by blast
  have bf: "netif ?b = netif s" "pcb_of j ?b = pcb_of j s" "udp_pcbs ?b = udp_pcbs s" "netif_is_up ?b" "pcb_mem ?b = pcb_mem s" "stack_st.more ?b = stack_st.more s" for j
    using na unfolding b by (simp_all add: pcb_of_def netif_is_up_def net_up_def)
  have mine: "ip_for_us dip ?b = Inr True" using bf(1,4) assms(13,14) by (simp add: ip_for_us_def)
  have "chain_ok (r # qs)" using rr(1) unfolding received_Cons by blast
  then have tot: "unat (p_tot_len r) = length f - 14" using chain_tot_len rr(2) by (metis length_drop)
  have nt: "\<not> p_tot_len r < ?n"
    unfolding word_less_nat_alt n tot using fl by simp
  have pl: "28 \<le> unat (p_len p)" "length (chain_bytes (p # ps)) \<le> 1520"
    using z(5) rr(3) n fl assms(11,12) unfolding pb by (simp_all add: assms(9,10))
  have e2: "ip_input ot recv (r # qs) a = ip_deliver ot recv (p # ps) ?b"
  proof -
    have v4: "drop_bit 4 (0x45 :: u8) = 4" by simp
    have l: "\<not> unat (p_len r) < 20" using rr(3) assms(11) by simp
    show ?thesis unfolding ip_input_def list.case h and_then.simps Let_def hf z(1) prod.case mine
      using v4 l nt assms(15,16) bf(1) by simp
  qed
  have e3: "ip_deliver ot recv (p # ps) ?b = udp_input ot recv (p # ps) ?b"
  proof -
    have "p_payload p = 14" "length (p_mem p) = 1500" using z(2) by (simp_all add: received_Cons)
    then have rp: "read_at p 0 20 = Inr ?h" using h z(4) rm by (simp add: read_at_def)
    show ?thesis unfolding ip_deliver_def list.case rp and_then.simps h9 by (simp only: simp_thms if_True)
  qed
  have fd: "List.find (\<lambda>k. local_match (ip_addr_isbroadcast dip (netif ?b)) dip dport (pcb_of k ?b) \<and> remote_match sip sport (pcb_of k ?b)) (udp_pcbs ?b) = Some k"
    unfolding bf by (rule assms(17))
  have l6: "length (be16 ?n @ be16 i @ be16 0) = 6" by simp
  have rv: "up_recv (pcb_of k ?b)" unfolding bf by (rule assms(18))
  from udp_datagram_delivered [OF z(2) pl(2,1) pb l6 assms(10) fd rv, of ot recv] obtain g where
    g: "received 42 (g # ps)" "chain_bytes (g # ps) = payload" "p_mem g = p_mem p"
      "udp_input ot recv (p # ps) ?b = recv k (g # ps) sip sport (?b\<lparr>udp_pcbs := k # remove1 k (udp_pcbs ?b)\<rparr>)" by blast
  have gt: "p_tot_len g = of_nat (length payload)"
  proof -
    have "chain_ok (g # ps)" using g(1) unfolding received_Cons by blast
    then have "unat (p_tot_len g) = length payload" using chain_tot_len g(2) by metis
    moreover have "p_tot_len g = of_nat (unat (p_tot_len g))" by simp
    ultimately show ?thesis by (simp only:)
  qed
  have "payload_bytes (g # ps) = payload"
  proof -
    have u: "unat (p_tot_len g) = length payload" unfolding gt using fl assms(12) by (simp add: unat_of_nat take_bit_nat_def)
    have "take (length payload) (drop 42 (p_mem q)) = drop 42 (take (length payload + 42) (p_mem q))" by (simp add: take_drop)
    also have "\<dots> = take (length payload) (drop 42 f)" using pre [of "length payload + 42"] fl by (simp add: take_drop)
    also have "\<dots> = payload" unfolding assms(6) datagram_frame_def using assms(7-10) by simp
    finally have "take (length payload) (drop 42 (p_mem q)) = payload" .
    moreover have "p_payload g = 42" using g(1) by (simp add: received_Cons)
    ultimately show ?thesis using g(3) z(4) r(4) u by (simp add: payload_bytes_def)
  qed
  then show ?thesis using e1 e2 e3 g gt bf(5,6)
    by (intro exI [of _ g] exI [of _ ps] exI [of _ "?b\<lparr>udp_pcbs := k # remove1 k (udp_pcbs ?b)\<rparr>"]) simp
qed


lemma datagram_frame_benign:
  assumes "f = datagram_frame dst src tos i ttl ck sip dip sport dport v payload @ pad" "length dst = 6" "length src = 6" "length ck = 2"
    "60 \<le> length f" "length f \<le> 1500"
  shows "benign_frame f"
proof -
  let ?h = "[0x45, tos] @ be16 (of_nat (length payload + 28)) @ be16 i @ be16 0 @ [ttl, 17] @ ck @ ip_bytes sip @ ip_bytes dip"
  have "take 20 (drop 14 f) = ?h" unfolding assms(1) datagram_frame_def using assms(2-4) by simp
  moreover have "?h ! 9 = 17" by (simp add: be16_def)
  moreover have "of_be16 (drop 6 ?h) = 0" by simp
  ultimately have "benign (take 20 (drop 14 f))" unfolding benign_def by (simp only:) simp
  then show ?thesis using assms(5,6) by (simp add: benign_frame_def)
qed

lemma inbox_more: "stack_st.more s = stack_st.more t \<Longrightarrow> inbox s = inbox t"
  by (cases s; cases t) simp

lemma arrived_frame_seen:
  assumes "rx_ok s" "rx_queue s = []" "length f \<le> 1514"
  shows "ETH_GetRxPktSize (dma_receive (good_status (length f)) f s) = of_nat (length f + 4)" "(of_nat (length f + 4) :: u32) \<noteq> 0"
proof -
  have le: "length f \<le> ETH_MAX_PACKET_SIZE" "length f \<le> 16000" and room: "length (rx_queue s) < 4" using assms(2,3) by simp_all
  from dma_receive_room [OF assms(1) room le(1), of "good_status (length f)"] obtain rest where
    r: "rx_ok (dma_receive (good_status (length f)) f s)"
      "rx_queue (dma_receive (good_status (length f)) f s) = [(good_status (length f) AND NOT DESC_OWN, f @ rest)]"
    using assms(2) by auto
  show "ETH_GetRxPktSize (dma_receive (good_status (length f)) f s) = of_nat (length f + 4)"
    unfolding ETH_GetRxPktSize_queue [OF r(1)] r(2) using good_status_reads [OF le(2)] by simp
  have "unat (of_nat (length f + 4) :: u32) = length f + 4" using assms(3) by (simp add: unat_of_nat take_bit_nat_def del: of_nat_add)
  then show "(of_nat (length f + 4) :: u32) \<noteq> 0" by (metis add_is_0 unsigned_0 zero_neq_numeral)
qed

text \<open>A datagram on the wire in the callback's arguments.\<close>

lemma inbox_datagram:
  assumes "net_inv s0 s" "rx_queue s = []" "0 < pool_free s"
    and "f = datagram_frame dst src tos i ttl ck sip dip sport dport v payload @ pad"
    and "length dst = 6" "length src = 6" "length ck = 2" "length v = 4" "60 \<le> length f" "length f \<le> 1500"
    and "dip = nif_ip_addr (netif s)" "dip \<noteq> 0" "\<not> ip_addr_isbroadcast sip (netif s)" "\<not> ip_addr_ismulticast sip"
    and "List.find (\<lambda>k. local_match (ip_addr_isbroadcast dip (netif s)) dip dport (pcb_of k s) \<and> remote_match sip sport (pcb_of k s)) (udp_pcbs s) = Some k"
    and "up_recv (pcb_of k s)"
  shows "\<exists>t. run_list (stack_step ot) [Frame_In f, Receive_Pass] s = Inr t \<and> net_inv s0 t \<and> rx_queue t = []
    \<and> inbox t = inbox s @ [(up_remote_port (pcb_of k s), up_remote_ip (pcb_of k s), payload, of_nat (length payload))]"
proof -
  let ?a = "dma_receive (good_status (length f)) f s"
  have b: "benign_frame f" by (rule datagram_frame_benign [OF assms(4-7,9,10)])
  have rx: "rx_ok s" "length (rx_queue s) < 4" using assms(1,2) by (simp_all add: net_inv_def)
  have le: "length f \<le> ETH_MAX_PACKET_SIZE" "length f \<le> 16000" "length f \<le> 1514" using assms(10) by simp_all
  obtain rest where ar: "rx_queue ?a = [(good_status (length f) AND NOT DESC_OWN, f @ rest)]"
    using dma_receive_room [OF rx le(1), of "good_status (length f)"] assms(2) by auto
  have ai: "net_inv s0 ?a" by (rule frame_in_inv [OF assms(1) b])
  obtain x y z w where ae: "?a = s\<lparr>Rx_Buff := x, DMARxDscrTab := y, dma_rx := z, DMASR := w\<rparr>" using dma_receive_eq by blast
  have af: "netif ?a = netif s" "pcb_of j ?a = pcb_of j s" "udp_pcbs ?a = udp_pcbs s" "pool_free ?a = pool_free s" "inbox ?a = inbox s" for j
    unfolding ae by (simp_all add: pcb_of_def)
  note st = good_status_reads [OF le(2)]
  have "rx_ok s" using rx(1) .
  note nz0 = arrived_frame_seen(2) [OF this assms(2) le(3)]
  from st(2) nz0 have nz: "drop_bit 16 ((good_status (length f) AND NOT DESC_OWN) AND RX_FL) \<noteq> 0" by simp
  have one: "chain_nodes PBUF_RAW (length f) \<le> pool_free ?a"
    using assms(3,10) af(4) by (simp add: chain_nodes_def first_part_def layer_offset_aligned)
  from net_receive_head [OF ai ar st le(3) nz, of ot deliver] one obtain u c where
    u: "net_inv s0 u" "netif u = netif ?a" "pcb_mem u = pcb_mem ?a" "udp_pcbs u = udp_pcbs ?a" "inbox u = inbox ?a" "stack_st.more u = stack_st.more ?a"
    and c: "pool_frame c (length f)" "chain_bytes c = take (length f) (f @ rest)"
      "net_receive ot deliver ?a = ethernet_input ot deliver c (u\<lparr>pool_free := pool_free ?a - length c\<rparr>)" by auto
  let ?t = "u\<lparr>pool_free := pool_free ?a - length c\<rparr>"
  have t: "arp_ok ?t" "tx_ok ?t" "net_up ?t" using u(1) unfolding net_inv_def pool_update by blast+
  have tf: "netif ?t = netif s" "pcb_of j ?t = pcb_of j s" "udp_pcbs ?t = udp_pcbs s" "inbox ?t = inbox s" for j
    using u(2-5) af by (simp_all add: pcb_of_def)
  have cf: "chain_bytes c = f" using c(2) by simp
  from ethernet_input_datagram [OF t c(1) cf assms(4-10), unfolded tf, OF assms(11-16), of ot deliver] obtain g gs v where
    g: "received 42 (g # gs)" "payload_bytes (g # gs) = payload" "p_tot_len g = of_nat (length payload)"
      "ethernet_input ot deliver c ?t = deliver k (g # gs) sip sport v" "pcb_mem v = pcb_mem ?t" "stack_st.more v = stack_st.more ?t" by blast
  have vf: "pcb_of k v = pcb_of k s" "inbox v = inbox s"
    using g(5) tf(2) [of k] inbox_more [OF g(6)] tf(4) by (simp_all add: pcb_of_def)
  let ?e = "(up_remote_port (pcb_of k s), up_remote_ip (pcb_of k s), payload, of_nat (length payload))"
  have d: "deliver k (g # gs) sip sport v = Inr (pbuf_free (g # gs) (v\<lparr>inbox := inbox s @ [?e]\<rparr>))"
    using g(2,3) vf by (simp add: deliver_def del: pbuf_free.simps)
  obtain x' y' z' where "pbuf_free (g # gs) (v\<lparr>inbox := inbox s @ [?e]\<rparr>) = v\<lparr>inbox := inbox s @ [?e], pool_free := x', ram_live := y', ref_free := z'\<rparr>"
    using pbuf_free_eq [of "g # gs" "v\<lparr>inbox := inbox s @ [?e]\<rparr>"] by auto
  then have "inbox (pbuf_free (g # gs) (v\<lparr>inbox := inbox s @ [?e]\<rparr>)) = inbox s @ [?e]" by simp
  moreover obtain r where "net_receive ot deliver ?a = Inr r" "net_inv s0 r" "rx_queue r = []"
    using app.net_receive_step [OF ai, of ot] ar by auto
  ultimately show ?thesis using c(3) g(4) d by auto
qed

text \<open>A datagram on the wire that is addressed to the interface and to a block connected to its sender is
  handed to the receive callback unchanged by the next pass, whatever the sender put in the fields the hardware checks and
  behind the datagram.\<close>

theorem datagram_reaches_inbox:
  assumes "net_inv s0 s" "rx_queue s = []" "0 < pool_free s"
    and "f = datagram_frame dst src tos i ttl ck sip dip sport dport v payload @ pad"
    and "length dst = 6" "length src = 6" "length ck = 2" "length v = 4" "60 \<le> length f" "length f \<le> 1500"
    and "dip = nif_ip_addr (netif s)" "dip \<noteq> 0" "\<not> ip_addr_isbroadcast sip (netif s)" "\<not> ip_addr_ismulticast sip"
    and "List.find (\<lambda>k. local_match (ip_addr_isbroadcast dip (netif s)) dip dport (pcb_of k s) \<and> remote_match sip sport (pcb_of k s)) (udp_pcbs s) = Some k"
    and "up_recv (pcb_of k s)"
  shows "\<exists>t. run_list (stack_step ot) [Frame_In f, Receive_Pass] s = Inr t \<and> net_inv s0 t \<and> rx_queue t = []
    \<and> inbox t = inbox s @ [(up_remote_port (pcb_of k s), up_remote_ip (pcb_of k s), payload, of_nat (length payload))]"
  by (rule inbox_datagram [OF assms])

section \<open>Sending a datagram\<close>

text \<open>What sending does to the ring, for a host whose address is known.\<close>

lemma bytes_in_ring:
  assumes "net_inv s0 s" "may_send k s" "unat len \<le> length buf" "unat len \<le> 1444" "0 < pool_free s"
    and "up_remote_ip (pcb_of k s) = ip" "reachable ip (netif s)" "known_at (next_hop ip (netif s)) mac (arp_table s)"
    and "nif_ip_addr (netif s) \<noteq> 0" "length (tx_queue s) < 2"
  shows "\<exists>t. udp_transmit ot k buf len s = Inr t \<and> net_inv s0 t \<and> arp_table t = arp_table s
    \<and> tx_queue t = tx_queue s @ [udp_frame mac (nif_hwaddr (netif s)) (up_tos (pcb_of k s)) (ip_id s) (up_ttl (pcb_of k s))
        (nif_ip_addr (netif s)) ip (up_local_port (pcb_of k s)) (up_remote_port (pcb_of k s)) (take (unat len) buf)]"
proof -
  have s: "arp_ok s" "tx_ok s" "net_up s" using assms(1) by (simp_all add: net_inv_def)
  obtain r u where al: "pbuf_alloc PBUF_TRANSPORT len PBUF_POOL s = (r, u)" by fastforce
  have "chain_nodes PBUF_TRANSPORT (unat len) \<le> pool_free s"
    using assms(4,5) by (simp add: chain_nodes_def first_part_def layer_offset_aligned)
  then obtain c where "r = Some c" using pbuf_alloc_pool [OF al] by auto
  with al have "pbuf_alloc PBUF_TRANSPORT len PBUF_POOL s = (Some c, u)" by simp
  from transmit_packet [OF this assms(3), of ot k] obtain d n where
    d: "u = s\<lparr>pool_free := pool_free s - length d, requests := n\<rparr>" "length d \<le> pool_free s" "room 42 d"
      "\<forall>p\<in>set d. p_type p = PBUF_POOL" "chain_bytes d = take (unat len) buf"
      "udp_transmit ot k buf len s = and_then (udp_send ot k d u) (\<lambda>(_, s). Inr (pbuf_free d s))" by blast
  have u: "arp_ok u" "tx_ok u" "net_up u" "may_send k u"
    using s assms(2) unfolding d(1)
    by (simp_all add: arp_ok_def queued_def tx_ok_def tx_slots_def net_up_def netif_is_up_def may_send_def pcb_of_def)
  have uf: "netif u = netif s" "pcb_of k u = pcb_of k s" "arp_table u = arp_table s" "tx_queue u = tx_queue s" "ip_id u = ip_id s"
    unfolding d(1) by (simp_all add: pcb_of_def tx_queue_def tx_slots_def)
  have "length (chain_bytes d) \<le> 1472" unfolding d(5) using assms(4) by simp
  from udp_send_frame [OF u d(3) this, unfolded uf, OF assms(6-10), of ot] obtain t where
    t: "udp_send ot k d u = Inr (ERR_OK, t)" "arp_ok t" "tx_ok t" "ip_frame_only u t" "balanced u t" "arp_table t = arp_table s"
      "tx_queue t = tx_queue s @ [udp_frame mac (nif_hwaddr (netif s)) (up_tos (pcb_of k s)) (ip_id s) (up_ttl (pcb_of k s))
        (nif_ip_addr (netif s)) ip (up_local_port (pcb_of k s)) (up_remote_port (pcb_of k s)) (take (unat len) buf)]" unfolding d(5) by blast
  have "consumed (length d) u (pbuf_free d t)" by (rule consumed_then_free [OF consumed_frame [OF t(2-5)] d(4)])
  from net_inv_consumed [OF assms(1) consumed_alloc [OF d(1,2) this]] have "net_inv s0 (pbuf_free d t)" .
  then show ?thesis using d(6) t(1,6,7) by (simp add: pbuf_free_eth)
qed

text \<open>The bytes the firmware offers for a known host leave as one frame behind the frames already waiting; the buffer of
  the packet returns to the pool.\<close>

theorem offered_bytes_reach_ring:
  assumes "net_inv s0 s" "may_send k s" "unat len \<le> length buf" "unat len \<le> 1444" "0 < pool_free s"
    and "up_remote_ip (pcb_of k s) = ip" "reachable ip (netif s)" "known_at (next_hop ip (netif s)) mac (arp_table s)"
    and "nif_ip_addr (netif s) \<noteq> 0" "length (tx_queue s) < 2"
  shows "\<exists>t. udp_transmit ot k buf len s = Inr t \<and> net_inv s0 t \<and> arp_table t = arp_table s
    \<and> tx_queue t = tx_queue s @ [udp_frame mac (nif_hwaddr (netif s)) (up_tos (pcb_of k s)) (ip_id s) (up_ttl (pcb_of k s))
        (nif_ip_addr (netif s)) ip (up_local_port (pcb_of k s)) (up_remote_port (pcb_of k s)) (take (unat len) buf)]"
  by (rule bytes_in_ring [OF assms])

section \<open>The start\<close>

text \<open>Memory as the start-up code leaves it.\<close>

definition fresh_net :: "'a ip_st_scheme \<Rightarrow> bool" where
  "fresh_net s \<longleftrightarrow> buffers 4 (Rx_Buff s) \<and> buffers 2 (Tx_Buff s) \<and> length (arp_table s) = ARP_TABLE_SIZE
     \<and> (\<forall>e\<in>set (arp_table s). ae_state e = ETHARP_STATE_EMPTY \<and> ae_q e = []) \<and> etharp_cached_entry s < ARP_TABLE_SIZE
     \<and> \<not> nif_listed s \<and> heap_grants s"

lemma empty_table:
  assumes "length (arp_table s) = ARP_TABLE_SIZE" "\<forall>e\<in>set (arp_table s). ae_state e = ETHARP_STATE_EMPTY \<and> ae_q e = []"
    "etharp_cached_entry s < ARP_TABLE_SIZE" "length (nif_hwaddr (netif s)) = 6"
  shows "arp_ok s"
proof -
  have T: "ae_state (arp_table s ! i) = ETHARP_STATE_EMPTY \<and> ae_q (arp_table s ! i) = []" if "i < ARP_TABLE_SIZE" for i
    using assms(1,2) that by simp
  have "queued s = 0" using assms(2) by (auto simp: queued_def sum_list_eq_0_iff)
  moreover have "one_each (arp_table s)" using T assms(1) by (simp add: one_each_def live_def)
  moreover have "list_all entry_ok (arp_table s)" using assms(2) by (auto simp: list_all_iff entry_ok_def)
  ultimately show ?thesis using assms by (simp add: arp_ok_def)
qed

text \<open>C24: \<open>LwIP_Init\<close> leaves a well-formed stack with the interface up under its addresses, and announces its address in one broadcast.\<close>

theorem stack_starts:
  assumes "fresh_net s" "length mac = 6"
  shows "\<exists>t. lwip_start mac ip netmask gw s = Inr t \<and> net_inv t t \<and> rx_queue t = []
    \<and> tx_queue t = [arp_frame ethbroadcast mac 1 mac ip ethzero ip]
    \<and> netif t = \<lparr>nif_ip_addr = ip, nif_netmask = netmask, nif_gw = gw, nif_hwaddr = mac, nif_mtu = 1500, nif_flags = 0x33\<rparr>
    \<and> pool_free t = pool_free s \<and> pcb_mem t = pcb_mem s \<and> pcb_free t = pcb_free s \<and> udp_pcbs t = udp_pcbs s"
proof -
  let ?n = "\<lparr>nif_ip_addr = ip, nif_netmask = netmask, nif_gw = gw, nif_hwaddr = mac, nif_mtu = 1500, nif_flags = 0x32\<rparr>"
  have f: "buffers 4 (Rx_Buff s)" "buffers 2 (Tx_Buff s)" "length (arp_table s) = ARP_TABLE_SIZE"
    "\<forall>e\<in>set (arp_table s). ae_state e = ETHARP_STATE_EMPTY \<and> ae_q e = []" "etharp_cached_entry s < ARP_TABLE_SIZE"
    "\<not> nif_listed s" "heap_grants s" using assms(1) unfolding fresh_net_def by blast+
  define a where "a = netif_set_addr ip netmask gw ((set_mac_address mac s)\<lparr>netif := (netif s)\<lparr>nif_ip_addr := 0, nif_netmask := 0, nif_gw := 0, nif_flags := 0\<rparr>\<rparr>)"
  define b where "b = a\<lparr>ram_live := ram_live a + 1, requests := requests a + 1\<rparr>"
  define c where "c = low_level_init b"
  define u where "u = c\<lparr>nif_loop := False, nif_listed := True, nif_default := True, netif := (netif c)\<lparr>nif_flags := 0x33\<rparr>\<rparr>"
  have af: "Rx_Buff b = Rx_Buff s" "Tx_Buff b = Tx_Buff s" "MACaddr b = mac" "ram_ok a = ram_ok s" "nif_listed a = nif_listed s"
    using assms(2) by (simp_all add: b_def a_def netif_set_addr_def netif_set_ipaddr_def netif_set_netmask_def netif_set_gw_def set_mac_address_def)
  have "eth_ok c \<and> rx_queue c = [] \<and> tx_queue c = []" unfolding c_def using low_level_init_ok [of b] f(1,2) af(1,2) by simp
  then have c: "tx_ok c" "rx_ok c" "rx_queue c = []" "tx_queue c = []" by (simp_all add: eth_ok_def)
  have cn: "netif c = ?n" "arp_table c = arp_table s" "etharp_cached_entry c = etharp_cached_entry s" "pool_free c = pool_free s"
    "pcb_mem c = pcb_mem s" "pcb_free c = pcb_free s" "udp_pcbs c = udp_pcbs s" "ram_ok c = ram_ok s" "nif_listed c = nif_listed s"
    using assms(2)
    by (simp_all add: c_def b_def a_def low_level_init_def Let_def ETH_DMATxDescChainInit_def ETH_DMARxDescChainInit_def
      netif_set_addr_def netif_set_ipaddr_def netif_set_netmask_def netif_set_gw_def set_mac_address_def)
  have u: "tx_ok u" "rx_ok u" "rx_queue u = []" "tx_queue u = []" "netif u = ?n\<lparr>nif_flags := 0x33\<rparr>" "arp_table u = arp_table s" "pool_free u = pool_free s"
    "etharp_cached_entry u = etharp_cached_entry s" "pcb_mem u = pcb_mem s" "pcb_free u = pcb_free s" "udp_pcbs u = udp_pcbs s" "heap_grants u" "net_up u"
    using c cn f(7)
    by (simp_all add: u_def tx_ok_def tx_slots_def tx_queue_def rx_ok_def rx_slots_def rx_queue_def heap_grants_def net_up_def netif_is_up_def)
  have ao: "arp_ok u" using f(3-5) u(5,6,8) assms(2) by (intro empty_table) simp_all
  have "ethernetif_init a = (ERR_OK, c)"
    using f(7) af(4) by (simp add: ethernetif_init_def mem_malloc_def heap_grants_def c_def b_def)
  then have "netif_add ip netmask gw (set_mac_address mac s) = (True, c\<lparr>nif_loop := False, nif_listed := True\<rparr>)"
    using f(6) cn(9) by (simp add: netif_add_def Let_def a_def set_mac_address_def)
  then have e: "lwip_start mac ip netmask gw s = and_then (etharp_request ip u) (\<lambda>(_, s). Inr s)"
    using cn(1) by (simp add: lwip_start_def netif_set_default_def netif_set_up_def Let_def u_def)
  from etharp_request_frame [OF ao u(1), of ip] u(4,5,12) obtain r t where
    t: "etharp_request ip u = Inr (r, t)" "tx_ok t" "arp_ok t" "arp_frame_only u t" "balanced u t" "tx_queue t = [arp_frame ethbroadcast mac 1 mac ip ethzero ip]"
    by auto
  have k: "consumed 0 u t" by (rule consumed_frame [OF t(3,2) arp_frame_ip [OF t(4)] t(5)])
  have q: "queued u = 0" using f(4) u(6) by (auto simp: queued_def sum_list_eq_0_iff)
  have "net_inv u u" using ao u q by (simp add: net_inv_def)
  from net_inv_consumed [OF this k] have "net_inv t t" by (simp add: net_inv_def)
  moreover have "netif t = netif u" "rx_queue t = rx_queue u" "pool_free t = pool_free u" "stack_st.more t = stack_st.more u"
    "pcb_mem t = pcb_mem u" "pcb_free t = pcb_free u" "udp_pcbs t = udp_pcbs u"
    using arp_frame_ip [OF t(4)] by (simp_all add: ip_frame_only_def stack_fields)
  ultimately show ?thesis using e t(1,6) u by simp
qed

section \<open>The clients\<close>

definition server_ip :: "nat \<Rightarrow> u32" where
  "server_ip k = (if k = 1 then 0x6E0AA8C0 else if k = 2 then 0x6F0AA8C0 else 0x0D0AA8C0)"

definition server_port :: "nat \<Rightarrow> u16" where
  "server_port k = (if k = 0 then 9902 else if k = 3 then 9912 else 9000)"

definition client_pcb :: "nat \<Rightarrow> udp_pcb" where
  "client_pcb k = \<lparr>up_local_ip = 0, up_remote_ip = server_ip k, up_tos = 0, up_ttl = 255, up_flags = UDP_FLAGS_CONNECTED,
     up_local_port = 9902, up_remote_port = server_port k, up_recv = True\<rparr>"

lemma udp_open_client:
  assumes "pcb_free s = k # ks" "k < length (pcb_mem s)" "k \<notin> set (udp_pcbs s)"
  shows "udp_open (server_ip k) (server_port k) s
    = (Some k, s\<lparr>pcb_free := ks, pcb_mem := (pcb_mem s)[k := client_pcb k], udp_pcbs := k # udp_pcbs s\<rparr>)"
  using assms by (simp add: udp_open_def udp_new_def udp_bind_def udp_connect_def udp_recv_def set_pcb_def pcb_of_def client_pcb_def Let_def)

definition clients_open :: "'a stack_st_scheme \<Rightarrow> bool" where
  "clients_open s \<longleftrightarrow> (\<forall>k<4. pcb_of k s = client_pcb k) \<and> mset (udp_pcbs s) = mset [0, 1, 2, 3]"

definition open_clients :: "'a stack_st_scheme \<Rightarrow> 'a stack_st_scheme" where
  "open_clients s = fold (\<lambda>k s. snd (udp_open (server_ip k) (server_port k) s)) [0, 1, 2, 3] s"

lemma open_clients_open:
  assumes "pcb_free s = [0, 1, 2, 3, 4, 5]" "length (pcb_mem s) = 6" "udp_pcbs s = []"
  shows "\<exists>P. open_clients s = s\<lparr>pcb_free := [4, 5], pcb_mem := P, udp_pcbs := [3, 2, 1, 0]\<rparr>" "clients_open (open_clients s)"
proof -
  let ?P = "(pcb_mem s)[0 := client_pcb 0, 1 := client_pcb 1, 2 := client_pcb 2, 3 := client_pcb 3]"
  have e: "open_clients s = s\<lparr>pcb_free := [4, 5], pcb_mem := ?P, udp_pcbs := [3, 2, 1, 0]\<rparr>"
    using assms by (simp add: open_clients_def udp_open_client)
  then show "\<exists>P. open_clients s = s\<lparr>pcb_free := [4, 5], pcb_mem := P, udp_pcbs := [3, 2, 1, 0]\<rparr>" by blast
  have "pcb_of k (open_clients s) = client_pcb k" if "k < 4" for k
    using that assms(2) unfolding e lt_4 by (auto simp: pcb_of_def)
  then show "clients_open (open_clients s)" by (simp add: clients_open_def e)
qed

lemma find_only: "k \<in> set xs \<Longrightarrow> P k \<Longrightarrow> \<forall>j\<in>set xs. P j \<longrightarrow> j = k \<Longrightarrow> List.find P xs = Some k"
proof (induction xs)
  case (Cons x xs)
  show ?case
  proof (cases "P x")
    case True
    then have "x = k" using Cons.prems(3) by simp
    then show ?thesis using True by simp
  next
    case False
    then have k: "k \<in> set xs" using Cons.prems(1,2) by auto
    have "\<forall>j\<in>set xs. P j \<longrightarrow> j = k" using Cons.prems(3) unfolding list.set by blast
    from Cons.IH [OF k Cons.prems(2) this] show ?thesis using False by simp
  qed
qed simp

text \<open>The block of a client is the one that a datagram of its server selects.\<close>

lemma client_selected:
  assumes "clients_open s" "k < 4"
  shows "List.find (\<lambda>j. local_match b dip 9902 (pcb_of j s) \<and> remote_match (server_ip k) (server_port k) (pcb_of j s)) (udp_pcbs s) = Some k"
proof (rule find_only)
  have m: "set (udp_pcbs s) = {0, 1, 2, 3}" using assms(1) mset_eq_setD [of "udp_pcbs s" "[0, 1, 2, 3]"] by (simp add: clients_open_def)
  show "k \<in> set (udp_pcbs s)" using assms(2) unfolding m lt_4 by auto
  have p: "pcb_of j s = client_pcb j" if "j < 4" for j using assms(1) that by (simp add: clients_open_def)
  show "local_match b dip 9902 (pcb_of k s) \<and> remote_match (server_ip k) (server_port k) (pcb_of k s)"
    unfolding p [OF assms(2)] by (simp add: local_match_def remote_match_def client_pcb_def)
  show "\<forall>j\<in>set (udp_pcbs s). local_match b dip 9902 (pcb_of j s) \<and> remote_match (server_ip k) (server_port k) (pcb_of j s) \<longrightarrow> j = k"
    unfolding m using assms(2) p unfolding lt_4
    by (auto simp: remote_match_def client_pcb_def server_ip_def server_port_def)
qed


section \<open>Witnesses\<close>

definition net_boot :: net_st where
  "net_boot = stack_st.extend (ip_st.extend (arp_st.extend arp_demo \<lparr>ip_id = 0, nif_listed = False, nif_loop = False, nif_default = False\<rparr>)
     \<lparr>pcb_mem = replicate 6 (client_pcb 0), pcb_free = [0, 1, 2, 3, 4, 5], udp_pcbs = []\<rparr>) \<lparr>inbox = []\<rparr>"

definition net_demo :: net_st where
  "net_demo = stack_st.extend (ip_st.extend ip_demo
     \<lparr>pcb_mem = map client_pcb [0, 1, 2, 3, 3, 3], pcb_free = [4, 5], udp_pcbs = [3, 2, 1, 0]\<rparr>) \<lparr>inbox = []\<rparr>"

lemma net_demo_fields:
  "netif net_demo = netif ip_demo" "arp_table net_demo = arp_table ip_demo" "pool_free net_demo = 10" "ip_id net_demo = 0"
  "udp_pcbs net_demo = [3, 2, 1, 0]" "inbox net_demo = []" "tx_queue net_demo = []" "rx_queue net_demo = []"
  using ip_demo_fields ip_demo_ok(4,5) by (simp_all add: net_demo_def stack_st.defs ip_st.defs tx_queue_def tx_slots_def rx_queue_def rx_slots_def)

lemma net_demo_clients: "clients_open net_demo" "pcb_of 0 net_demo = client_pcb 0"
proof -
  have "pcb_of k net_demo = client_pcb k" if "k < 4" for k
    using that unfolding lt_4 by (auto simp: pcb_of_def net_demo_def stack_st.defs ip_st.defs)
  then show "clients_open net_demo" "pcb_of 0 net_demo = client_pcb 0" by (simp_all add: clients_open_def net_demo_fields(5))
qed

lemma net_demo_inv: "net_inv net_demo net_demo"
proof -
  have "arp_ok net_demo = arp_ok ip_demo" "tx_ok net_demo = tx_ok ip_demo" "rx_ok net_demo = rx_ok ip_demo" "net_up net_demo = net_up ip_demo"
    by (simp_all add: net_demo_def stack_st.defs ip_st.defs arp_ok_def queued_def tx_ok_def tx_slots_def rx_ok_def rx_slots_def net_up_def netif_is_up_def)
  then show ?thesis using ip_demo_ok by (simp add: net_inv_def net_demo_fields(8))
qed

lemma net_demo_sends: "may_send 0 net_demo"
  by (simp add: may_send_def net_demo_clients(2) client_pcb_def)

theorem stack_starts_witness:
  "\<exists>t. lwip_start [0, 0, 0, 0, 0, 3] 0x640AA8C0 0x00FFFFFF 0x010AA8C0 net_boot = Inr t \<and> net_inv t t
     \<and> tx_queue t = [arp_frame ethbroadcast [0, 0, 0, 0, 0, 3] 1 [0, 0, 0, 0, 0, 3] 0x640AA8C0 ethzero 0x640AA8C0]"
proof -
  have r: "Rx_Buff net_boot = replicate 4 (replicate 1520 0)" "Tx_Buff net_boot = replicate 2 (replicate 1520 0)"
    by (simp_all add: net_boot_def stack_st.defs ip_st.defs arp_st.defs arp_demo_def low_level_init_def Let_def
      ETH_DMATxDescChainInit_def ETH_DMARxDescChainInit_def)
  have "fresh_net net_boot"
    unfolding fresh_net_def r
    using arp_demo_fields by (simp add: net_boot_def stack_st.defs ip_st.defs arp_st.defs buffers_def heap_grants_def)
  from stack_starts [OF this, of "[0, 0, 0, 0, 0, 3]" "0x640AA8C0" "0x00FFFFFF" "0x010AA8C0"] show ?thesis by auto
qed

theorem stack_stays_well_formed_witness:
  "\<exists>t. run_list (stack_step drop_others) [Frame_In (replicate 60 0), Receive_Pass, Send 0 [1, 2, 3] 3, Frame_Out, Arp_Tick] net_demo = Inr t
     \<and> arp_ok t \<and> tx_ok t \<and> rx_ok t \<and> pool_free t = 10"
proof -
  have "(of_be16 (drop 12 (replicate 60 0))) \<noteq> 0x0800" by (simp add: of_be16_def mk16_def)
  then have "benign_frame (replicate 60 0)" by (simp add: benign_frame_def)
  then have "list_all (allowed_event net_demo) [Frame_In (replicate 60 0), Receive_Pass, Send 0 [1, 2, 3] 3, Frame_Out, Arp_Tick]"
    using net_demo_sends by simp
  from stack_stays_well_formed [OF net_demo_inv this, of drop_others] show ?thesis unfolding net_demo_fields(3) by blast
qed

theorem datagram_reaches_inbox_witness:
  "\<exists>t. run_list (stack_step drop_others) [Frame_In (datagram_frame [2, 0, 0, 0, 0, 100] [2, 0, 0, 0, 0, 13] 0 7 64 [1, 2] 0x0D0AA8C0 0x640AA8C0 9902 9902
        [0, 11, 5, 6] [1, 2, 3] @ replicate 15 0), Receive_Pass] net_demo = Inr t
     \<and> inbox t = [(9902, 0x0D0AA8C0, [1, 2, 3], 3)]"
proof -
  let ?f = "datagram_frame [2, 0, 0, 0, 0, 100] [2, 0, 0, 0, 0, 13] 0 7 64 [1, 2] 0x0D0AA8C0 0x640AA8C0 9902 9902 [0, 11, 5, 6] [1, 2, 3] @ replicate 15 0"
  have l: "length ?f = 60" by (simp add: datagram_frame_def)
  have n: "nif_ip_addr (netif net_demo) = 0x640AA8C0" by (simp add: net_demo_fields(1) ip_demo_fields(1))
  have src: "\<not> ip_addr_isbroadcast 0x0D0AA8C0 (netif net_demo)" "\<not> ip_addr_ismulticast 0x0D0AA8C0"
    using ip_demo_host(1) unfolding reachable_def net_demo_fields(1) by blast+
  have fd: "List.find (\<lambda>k. local_match (ip_addr_isbroadcast 0x640AA8C0 (netif net_demo)) 0x640AA8C0 9902 (pcb_of k net_demo)
      \<and> remote_match 0x0D0AA8C0 9902 (pcb_of k net_demo)) (udp_pcbs net_demo) = Some 0"
    using client_selected [OF net_demo_clients(1), of 0] by (simp add: server_ip_def server_port_def)
  have rv: "up_recv (pcb_of 0 net_demo)" "up_remote_port (pcb_of 0 net_demo) = 9902" "up_remote_ip (pcb_of 0 net_demo) = 0x0D0AA8C0"
    unfolding net_demo_clients(2) by (simp_all add: client_pcb_def server_ip_def server_port_def)
  have p: "0 < pool_free net_demo" by (simp add: net_demo_fields(3))
  have ls: "length [2, 0, 0, 0, 0, 100 :: u8] = 6" "length [2, 0, 0, 0, 0, 13 :: u8] = 6" "length [1, 2 :: u8] = 2" "length [0, 11, 5, 6 :: u8] = 4"
    "60 \<le> length ?f" "length ?f \<le> 1500" "(0x640AA8C0 :: u32) \<noteq> 0"
    using l by simp_all
  from datagram_reaches_inbox [OF net_demo_inv net_demo_fields(8) p refl ls(1-6) n [symmetric] ls(7) src fd rv(1), of drop_others] obtain t where
    "run_list (stack_step drop_others) [Frame_In ?f, Receive_Pass] net_demo = Inr t" "inbox t = inbox net_demo @ [(9902, 0x0D0AA8C0, [1, 2, 3], of_nat (length [1, 2, 3 :: u8]))]"
    unfolding rv by blast
  then show ?thesis using net_demo_fields(6) by auto
qed

theorem offered_bytes_reach_ring_witness:
  "\<exists>t. udp_transmit drop_others 0 [1, 2, 3, 4] 3 net_demo = Inr t
     \<and> tx_queue t = [udp_frame [2, 0, 0, 0, 0, 13] [2, 0, 0, 0, 0, 100] 0 0 255 0x640AA8C0 0x0D0AA8C0 9902 9902 [1, 2, 3]]"
proof -
  have n: "nif_ip_addr (netif net_demo) = 0x640AA8C0" "nif_hwaddr (netif net_demo) = [2, 0, 0, 0, 0, 100]"
    by (simp_all add: net_demo_fields(1) ip_demo_fields(1))
  have pc: "up_remote_ip (pcb_of 0 net_demo) = 0x0D0AA8C0" "up_remote_port (pcb_of 0 net_demo) = 9902" "up_local_port (pcb_of 0 net_demo) = 9902"
    "up_tos (pcb_of 0 net_demo) = 0" "up_ttl (pcb_of 0 net_demo) = 255"
    unfolding net_demo_clients(2) by (simp_all add: client_pcb_def server_ip_def server_port_def)
  have h: "reachable 0x0D0AA8C0 (netif net_demo)" "known_at (next_hop 0x0D0AA8C0 (netif net_demo)) [2, 0, 0, 0, 0, 13] (arp_table net_demo)"
    using ip_demo_host(1,2) by (simp_all add: net_demo_fields)
  have k: "unat (3 :: u16) \<le> length [1, 2, 3, 4 :: u8]" "unat (3 :: u16) \<le> 1444" "0 < pool_free net_demo" "nif_ip_addr (netif net_demo) \<noteq> 0"
    "length (tx_queue net_demo) < 2"
    by (simp_all add: net_demo_fields(3,7) n)
  show ?thesis
    using offered_bytes_reach_ring [OF net_demo_inv net_demo_sends k(1-3) pc(1) h k(4,5), of drop_others]
    unfolding pc n net_demo_fields(4,7) by auto
qed

end
