(* ===== verification/IpFrag.thy ===== *)
theory IpFrag
  imports Icmp
begin

text \<open>
  The sending half of \<open>ip_frag.c\<close>: a packet longer than the MTU leaves in fragments, which are made one
  after the other in a static buffer. The properties are for the MTU of the driver, 1500.
\<close>

section \<open>Definitions\<close>

abbreviation (input) "IP_MF \<equiv> 0x2000 :: u16"
abbreviation (input) "IP_OFFMASK \<equiv> 0x1FFF :: u16"

text \<open>Setting length and offset in a header of 20 bytes and computing its checksum anew. The checksum is
  stored as the machine has it, the other fields in network byte order.\<close>

definition set_ip_fields :: "u16 \<Rightarrow> u16 \<Rightarrow> u8 list \<Rightarrow> u8 list" where
  "set_ip_fields len off h =
     (let g = take 2 h @ be16 len @ take 2 (drop 4 h) @ be16 off @ take 2 (drop 8 h) @ [0, 0] @ drop 12 h;
          ck = inet_chksum g
      in take 10 g @ [lo8 ck, hi8 ck] @ drop 12 g)"

text \<open>The loop: \<open>r\<close> is \<open>rambuf\<close>, whose memory is the static buffer from its aligned start. \<open>pbuf_chain\<close> takes a
  reference to \<open>rambuf\<close>, which freeing the header gives back. An MTU of 20 to 27 bytes leaves no room for a block of data, and the
  loop does not end; a smaller MTU is not modelled (it is 1500).\<close>

function frag_loop ::
  "chain \<Rightarrow> u32 \<Rightarrow> u16 \<Rightarrow> u16 \<Rightarrow> u16 \<Rightarrow> u16 \<Rightarrow> u16 \<Rightarrow> pnode \<Rightarrow> 'a arp_st_scheme \<Rightarrow> (err \<times> 'a arp_st_scheme) result" where
  "frag_loop p dest mtu omf left ofo poff r s =
     (if left = 0 then Inr (ERR_OK, pbuf_free [r] s)
      else if mtu < 20 then Inl Undefined
      else
        let last = (left \<le> mtu - 20);
            tmp = omf OR (IP_OFFMASK AND ofo);
            tmp = (if last then tmp else tmp OR IP_MF);
            nfb = (mtu - 20) div 8;
            cop = (if last then left else nfb * 8)
        in if cop = 0 \<or> left < cop then Inl Hang
           else and_then (pbuf_copy_partial p cop poff) (\<lambda>bs.
             and_then (write_at r 20 bs) (\<lambda>r.
             and_then (read_at r 0 20) (\<lambda>h.
             and_then (write_at r 0 (set_ip_fields (cop + 20) tmp h)) (\<lambda>r.
             and_then (if last then pbuf_realloc [r] (left + 20) s else Inr ([r], s)) (\<lambda>(r, s).
             case (r, pbuf_alloc PBUF_LINK 0 PBUF_RAM s) of
               (r # _, Some (head # _), s) \<Rightarrow>
                 and_then (etharp_output (pbuf_cat [head] [r]) dest s) (\<lambda>(_, s).
                   frag_loop p dest mtu omf (left - cop) (ofo + nfb) (poff + of_nat (length bs)) r (pbuf_free [head] s))
             | (r, _, s) \<Rightarrow> Inr (ERR_MEM, pbuf_free r s)))))))"
  by pat_completeness auto
termination
  by (relation "measure (\<lambda>(p, dest, mtu, omf, left, ofo, poff, r, s). unat left)")
     (auto simp: Let_def word_less_nat_alt unat_sub word_le_nat_alt unat_gt_0 split: if_splits)

declare frag_loop.simps [simp del]

definition ip_frag :: "chain \<Rightarrow> u32 \<Rightarrow> 'a arp_st_scheme \<Rightarrow> (err \<times> 'a arp_st_scheme) result" where
  "ip_frag p dest s = (case pbuf_alloc PBUF_LINK 0 PBUF_REF s of
      (Some (r # _), s) \<Rightarrow> (case p of
          [] \<Rightarrow> Inl Undefined
        | q # _ \<Rightarrow> and_then (read_at q 0 20) (\<lambda>h.
            let mtu = nif_mtu (netif s);
                r = r\<lparr>p_mem := h @ replicate 1481 0, p_payload := 0, p_len := mtu, p_tot_len := mtu\<rparr>;
                tmp = of_be16 (drop 6 h)
            in frag_loop p dest mtu (tmp AND IP_MF) (p_tot_len q - 20) (tmp AND IP_OFFMASK) 20 r s))
    | (_, s) \<Rightarrow> Inr (ERR_MEM, s))"


section \<open>The fragments\<close>

text \<open>The fragments of a datagram with the data \<open>d\<close> on an interface with an MTU of 1500.\<close>

function frag_packets :: "u8 list \<Rightarrow> u16 \<Rightarrow> u16 \<Rightarrow> u8 list \<Rightarrow> u8 list list" where
  "frag_packets h omf ofo d =
     (if d = [] then []
      else if length d \<le> 1480 then [set_ip_fields (of_nat (length d + 20)) (omf OR (IP_OFFMASK AND ofo)) h @ d]
      else (set_ip_fields 1500 (omf OR (IP_OFFMASK AND ofo) OR IP_MF) h @ take 1480 d) # frag_packets h omf (ofo + 185) (drop 1480 d))"
  by pat_completeness auto
termination by (relation "measure (\<lambda>(h, omf, ofo, d). length d)") auto

declare frag_packets.simps [simp del]

lemma length_set_ip_fields [simp]: "length h = 20 \<Longrightarrow> length (set_ip_fields len off h) = 20"
  by (simp add: set_ip_fields_def Let_def)

lemma set_ip_fields_again: "length h = 20 \<Longrightarrow> set_ip_fields len off (set_ip_fields len' off' h) = set_ip_fields len off h"
  by (simp add: set_ip_fields_def Let_def)

text \<open>What the header of a fragment says, checked byte by byte: \<open>h\<close> is the header of the packet, \<open>k\<close> the place of the
  fragment's first byte among its data.\<close>

definition fragment_at :: "u8 list \<Rightarrow> nat \<Rightarrow> bool \<Rightarrow> u8 list \<Rightarrow> bool" where
  "fragment_at h k final f \<longleftrightarrow> 20 < length f \<and> length f \<le> 1500 \<and> (final \<or> length f = 1500)
     \<and> unat (of_be16 (drop 2 f)) = length f
     \<and> of_be16 (drop 6 f) AND IP_OFFMASK = (of_be16 (drop 6 h) + of_nat (k div 8)) AND IP_OFFMASK
     \<and> (of_be16 (drop 6 f) AND IP_MF = 0 \<longleftrightarrow> final \<and> of_be16 (drop 6 h) AND IP_MF = 0)
     \<and> inet_chksum (take 20 f) = 0
     \<and> take 2 f = take 2 h \<and> take 2 (drop 4 f) = take 2 (drop 4 h) \<and> take 2 (drop 8 f) = take 2 (drop 8 h)
     \<and> take 8 (drop 12 f) = drop 12 h"

text \<open>The packets carry the data \<open>d\<close> from place \<open>k\<close> on, one after the other.\<close>

fun fragments_from :: "u8 list \<Rightarrow> nat \<Rightarrow> u8 list \<Rightarrow> u8 list list \<Rightarrow> bool" where
  "fragments_from h k d [] \<longleftrightarrow> d = []"
| "fragments_from h k d (f # fs) \<longleftrightarrow> fragment_at h k (fs = []) f \<and> take (length f - 20) d = drop 20 f
     \<and> fragments_from h (k + (length f - 20)) (drop (length f - 20) d) fs"

lemma set_ip_fields_header:
  assumes "length h = 20"
  shows "of_be16 (drop 2 (set_ip_fields l j h)) = l" "of_be16 (drop 6 (set_ip_fields l j h)) = j" "inet_chksum (set_ip_fields l j h) = 0"
    "take 2 (set_ip_fields l j h) = take 2 h" "take 2 (drop 4 (set_ip_fields l j h)) = take 2 (drop 4 h)"
    "take 2 (drop 8 (set_ip_fields l j h)) = take 2 (drop 8 h)" "drop 12 (set_ip_fields l j h) = drop 12 h"
proof -
  let ?a = "take 2 h @ be16 l @ take 2 (drop 4 h) @ be16 j @ take 2 (drop 8 h)" and ?c = "drop 12 h"
  let ?v = "inet_chksum (?a @ [0, 0] @ ?c)"
  have a: "length ?a = 10" using assms by simp
  have g: "take 2 h @ be16 l @ take 2 (drop 4 h) @ be16 j @ take 2 (drop 8 h) @ [0, 0] @ drop 12 h = ?a @ [0, 0] @ ?c" by simp
  have t: "take 10 (?a @ [0, 0] @ ?c) = ?a" "drop 12 (?a @ [0, 0] @ ?c) = ?c" using a by simp_all
  have e: "set_ip_fields l j h = ?a @ [lo8 ?v, hi8 ?v] @ ?c" unfolding set_ip_fields_def Let_def g t ..
  have ev: "even (length ?a)" "length (?a @ [0, 0] @ ?c) \<le> 65535" using a assms by simp_all
  show "inet_chksum (set_ip_fields l j h) = 0" unfolding e by (rule inet_chksum_accepts [OF ev refl])
  show "of_be16 (drop 2 (set_ip_fields l j h)) = l" "of_be16 (drop 6 (set_ip_fields l j h)) = j"
    "take 2 (set_ip_fields l j h) = take 2 h" "take 2 (drop 4 (set_ip_fields l j h)) = take 2 (drop 4 h)"
    "take 2 (drop 8 (set_ip_fields l j h)) = take 2 (drop 8 h)" "drop 12 (set_ip_fields l j h) = drop 12 h"
    using assms by (simp_all add: set_ip_fields_def Let_def)
qed

lemma offset_bits:
  fixes x y :: u16
  shows "((x AND IP_MF) OR (IP_OFFMASK AND y)) AND IP_OFFMASK = y AND IP_OFFMASK"
    "((x AND IP_MF) OR (IP_OFFMASK AND y)) AND IP_MF = x AND IP_MF"
    "((x AND IP_MF) OR (IP_OFFMASK AND y) OR IP_MF) AND IP_OFFMASK = y AND IP_OFFMASK"
    "((x AND IP_MF) OR (IP_OFFMASK AND y) OR IP_MF) AND IP_MF \<noteq> 0"
proof -
  have z: "IP_MF AND IP_OFFMASK = 0" by simp
  have "(x AND IP_MF) AND IP_OFFMASK = x AND (IP_MF AND IP_OFFMASK)" "(IP_OFFMASK AND y) AND IP_MF = y AND (IP_MF AND IP_OFFMASK)"
    by (simp_all only: ac_simps)
  then have a: "(x AND IP_MF) AND IP_OFFMASK = 0" "(IP_OFFMASK AND y) AND IP_MF = 0" unfolding z by simp_all
  have b: "(IP_OFFMASK AND y) AND IP_OFFMASK = y AND IP_OFFMASK" "(x AND IP_MF) AND IP_MF = x AND IP_MF" by (simp_all add: ac_simps)
  show "((x AND IP_MF) OR (IP_OFFMASK AND y)) AND IP_OFFMASK = y AND IP_OFFMASK"
    "((x AND IP_MF) OR (IP_OFFMASK AND y)) AND IP_MF = x AND IP_MF"
    "((x AND IP_MF) OR (IP_OFFMASK AND y) OR IP_MF) AND IP_OFFMASK = y AND IP_OFFMASK"
    unfolding bit.conj_disj_distrib2 a b by simp_all
  have "((x AND IP_MF) OR (IP_OFFMASK AND y) OR IP_MF) AND IP_MF = (x AND IP_MF) OR IP_MF"
    unfolding bit.conj_disj_distrib2 a b by simp
  moreover have "bit ((x AND IP_MF) OR IP_MF) 13" by (simp add: bit_or_iff)
  ultimately show "((x AND IP_MF) OR (IP_OFFMASK AND y) OR IP_MF) AND IP_MF \<noteq> 0" by (metis bit_0_eq bot_apply bot_bool_def)
qed

lemma offset_add:
  fixes x y z :: u16
  assumes "x AND IP_OFFMASK = y AND IP_OFFMASK"
  shows "(x + z) AND IP_OFFMASK = (y + z) AND IP_OFFMASK"
proof -
  have m: "IP_OFFMASK = mask 13" by (simp add: mask_eq_exp_minus_1)
  have "(x + z) AND IP_OFFMASK = ((x AND IP_OFFMASK) + z) AND IP_OFFMASK" unfolding m by (simp only: mask_eqs)
  also have "\<dots> = (y + z) AND IP_OFFMASK" unfolding assms unfolding m by (simp only: mask_eqs)
  finally show ?thesis .
qed

lemma be16_prefix: "2 \<le> length a \<Longrightarrow> of_be16 (a @ b) = of_be16 a"
  unfolding of_be16_def by (auto simp: nth_append)

lemma frag_packets_fragments:
  assumes "length h = 20" "k = 8 * j" "ofo AND IP_OFFMASK = (of_be16 (drop 6 h) + of_nat j) AND IP_OFFMASK" "length d < 65516"
  shows "fragments_from h k d (frag_packets h (of_be16 (drop 6 h) AND IP_MF) ofo d)"
  using assms(2-)
proof (induction "length d" arbitrary: k j ofo d rule: less_induct)
  case less
  let ?x = "of_be16 (drop 6 h)"
  note hd = set_ip_fields_header [OF assms(1)] and bits = offset_bits [of ?x ofo] and lg = length_set_ip_fields [OF assms(1)]
  consider "d = []" | "d \<noteq> []" "length d \<le> 1480" | "1480 < length d" by linarith
  then show ?case
  proof cases
    case 1
    then show ?thesis by (simp add: frag_packets.simps)
  next
    case 2
    let ?H = "set_ip_fields (of_nat (length d + 20)) ((?x AND IP_MF) OR (IP_OFFMASK AND ofo)) h"
    have e: "frag_packets h (?x AND IP_MF) ofo d = [?H @ d]" using 2 by (subst frag_packets.simps) simp
    have l: "unat (of_nat (length d + 20) :: u16) = length d + 20" using 2(2) by (simp add: unat_of_nat take_bit_nat_def del: of_nat_add)
    have "fragment_at h k True (?H @ d)"
      unfolding fragment_at_def using 2 less.prems(1,2) by (simp add: lg hd bits l assms(1) be16_prefix del: of_nat_add)
    then show ?thesis unfolding e by (simp add: lg)
  next
    case 3
    let ?H = "set_ip_fields 1500 ((?x AND IP_MF) OR (IP_OFFMASK AND ofo) OR IP_MF) h"
    let ?fs = "frag_packets h (?x AND IP_MF) (ofo + 185) (drop 1480 d)"
    have e: "frag_packets h (?x AND IP_MF) ofo d = (?H @ take 1480 d) # ?fs" using 3 by (subst frag_packets.simps) auto
    have ne: "?fs \<noteq> []" using 3 by (subst frag_packets.simps) auto
    have "(ofo + 185) AND IP_OFFMASK = (?x + of_nat (j + 185)) AND IP_OFFMASK"
      using offset_add [OF less.prems(2), of 185] by (simp add: add.assoc)
    then have rest: "fragments_from h (k + 1480) (drop 1480 d) ?fs"
      using less.hyps [of "drop 1480 d" "k + 1480" "j + 185" "ofo + 185"] 3 less.prems(1,3) by simp
    have "fragment_at h k False (?H @ take 1480 d)"
      unfolding fragment_at_def using 3 less.prems(1,2) by (simp add: lg hd bits assms(1) be16_prefix)
    then show ?thesis unfolding e using rest ne 3 by (simp add: lg)
  qed
qed

text \<open>The packets are handed to \<open>etharp_output\<close> one after the other, each behind a header structure of the heap.\<close>

inductive handed :: "u32 \<Rightarrow> u8 list list \<Rightarrow> 'a ip_st_scheme \<Rightarrow> 'a ip_st_scheme \<Rightarrow> bool" for dest where
  none: "handed dest [] s s"
| one: "pbuf_alloc PBUF_LINK 0 PBUF_RAM s = (Some [p], u) \<Longrightarrow> chain_ok q \<Longrightarrow> chain_bytes q = f \<Longrightarrow> etharp_output q dest u = Inr (e, t)
    \<Longrightarrow> handed dest fs (pbuf_free [p] t) v \<Longrightarrow> handed dest (f # fs) s v"

lemma etharp_output_step:
  assumes "arp_ok s" "tx_ok s" "ip_packet q"
  shows "\<exists>e t. etharp_output q ip s = Inr (e, t) \<and> arp_ok t \<and> tx_ok t \<and> ip_frame_only s t \<and> balanced s t
    \<and> (reachable ip (netif s) \<and> known_at (next_hop ip (netif s)) mac (arp_table s) \<longrightarrow> arp_table t = arp_table s
       \<and> (length (tx_queue s) < 2 \<longrightarrow> tx_queue t = tx_queue s @ [eth_frame mac (nif_hwaddr (netif s)) 0x0800 (chain_bytes q)]))"
proof (cases "reachable ip (netif s) \<and> known_at (next_hop ip (netif s)) mac (arp_table s)")
  case True
  then show ?thesis using etharp_output_known [OF assms, of ip mac] arp_frame_ip by metis
next
  case False
  then show ?thesis using etharp_output_safe [OF assms, of ip] arp_frame_ip by metis
qed

text \<open>A filled fragment as the loop hands it to \<open>etharp_output\<close>.\<close>

lemma fragment_packet:
  assumes "chain_ok [head]" "p_type head = PBUF_RAM" "p_len head = 0" "p_tot_len head = 0" "p_payload head = 16"
    and "chain_ok [r]" "p_len r \<noteq> 0" "unat (p_len r) \<le> 1500"
  shows "ip_packet (pbuf_cat [head] [r])" "chain_bytes (pbuf_cat [head] [r]) = chain_bytes [r]"
  using assms by (simp_all add: pbuf_cat_def ip_packet_def no_gaps_def node_ok_def pbytes_def)

section \<open>One fragment\<close>

definition frag_buffer :: "u8 list \<Rightarrow> pnode \<Rightarrow> bool" where
  "frag_buffer h r \<longleftrightarrow> p_type r = PBUF_REF \<and> p_payload r = 0 \<and> p_len r = 1500 \<and> p_tot_len r = 1500 \<and> length (p_mem r) = 1501
     \<and> (\<forall>l j. set_ip_fields l j (take 20 (p_mem r)) = set_ip_fields l j h)"

text \<open>Filling the buffer, and cutting it for the last fragment.\<close>

lemma frag_fill:
  assumes "frag_buffer h r" "length bs = unat cop" "cop \<noteq> 0" "cop \<le> 1480" "fin \<or> cop = 1480" "length h = 20"
  shows "\<exists>r'. and_then (write_at r 20 bs) (\<lambda>r. and_then (read_at r 0 20) (\<lambda>h.
           and_then (write_at r 0 (set_ip_fields (cop + 20) tmp h)) (\<lambda>r.
           and_then (if fin then pbuf_realloc [r] (cop + 20) s else Inr ([r], s)) g))) = g ([r'], s)
    \<and> chain_ok [r'] \<and> p_type r' = PBUF_REF \<and> p_len r' = cop + 20 \<and> unat (p_len r') = unat cop + 20
    \<and> chain_bytes [r'] = set_ip_fields (cop + 20) tmp h @ bs \<and> (\<not> fin \<longrightarrow> frag_buffer h r')"
proof -
  have r: "p_type r = PBUF_REF" "p_payload r = 0" "p_len r = 1500" "p_tot_len r = 1500" "length (p_mem r) = 1501"
    "\<And>l j. set_ip_fields l j (take 20 (p_mem r)) = set_ip_fields l j h"
    using assms(1) by (simp_all add: frag_buffer_def)
  have c: "unat cop \<le> 1480" using assms(4) by (simp add: word_le_nat_alt)
  have lc: "unat (cop + 20) = unat cop + 20" using c by (simp add: unat_word_ariths)
  let ?t = "take 20 (p_mem r)" and ?H = "set_ip_fields (cop + 20) tmp h" and ?z = "drop (20 + length bs) (p_mem r)"
  have lt: "length ?t = 20" using r(5) by simp
  have w1: "write_at r 20 bs = Inr (r\<lparr>p_mem := ?t @ bs @ ?z\<rparr>)" using r(2,5) assms(2) c by (simp add: write_at_def blit_eq)
  have lH: "length ?H = 20" using assms(6) by simp
  have w2: "write_at (r\<lparr>p_mem := ?t @ bs @ ?z\<rparr>) 0 ?H = Inr (r\<lparr>p_mem := ?H @ bs @ ?z\<rparr>)"
    using r(2,5) lt lH by (simp add: write_at_def blit_eq)
  have rd: "read_at (r\<lparr>p_mem := ?t @ bs @ ?z\<rparr>) 0 20 = Inr ?t" using r(2) lt by (simp add: read_at_def)
  let ?r = "r\<lparr>p_mem := ?H @ bs @ ?z\<rparr>"
  let ?r' = "if fin then ?r\<lparr>p_len := cop + 20, p_tot_len := cop + 20\<rparr> else ?r"
  have cut: "pbuf_realloc [?r] (cop + 20) s = Inr ([?r\<lparr>p_len := cop + 20, p_tot_len := cop + 20\<rparr>], s)"
  proof (cases "cop = 1480")
    case True
    have "?r = ?r\<lparr>p_len := 1500, p_tot_len := 1500\<rparr>" using r(3,4) by simp
    then show ?thesis using True r(4) by (simp add: pbuf_realloc_def)
  next
    case False
    have "unat cop \<noteq> 1480" using False by (simp add: word_unat_eq_iff)
    then have "\<not> (1500 :: u16) \<le> cop + 20" "\<not> (1500 :: u16) < cop + 20" using c lc by (simp_all add: word_le_nat_alt word_less_nat_alt)
    then show ?thesis using r(3,4) by (simp add: pbuf_realloc_def)
  qed
  have f: "p_len ?r' = cop + 20" "p_tot_len ?r' = cop + 20" "p_payload ?r' = 0" "p_type ?r' = PBUF_REF" "p_mem ?r' = ?H @ bs @ ?z"
    using r assms(5) by auto
  have "chain_ok [?r']" using f lc lH assms(2) by (simp add: node_ok_def)
  moreover have "chain_bytes [?r'] = ?H @ bs" using f lc lH assms(2) by (simp add: pbytes_def)
  moreover have "frag_buffer h ?r'" if "\<not> fin"
    using that r lt lH assms(2,6) c by (simp add: frag_buffer_def set_ip_fields_again)
  ultimately show ?thesis
    using w1 w2 rd cut r(6) f lc
    by (intro exI [of _ ?r'])  (cases fin; simp)
qed

text \<open>Sending a filled fragment: the header structure comes and goes.\<close>

lemma frag_send:
  assumes "arp_ok s" "tx_ok s" "chain_ok [r]" "p_len r \<noteq> 0" "unat (p_len r) \<le> 1500"
  shows "(\<exists>k. pbuf_alloc PBUF_LINK 0 PBUF_RAM s = (None, s\<lparr>requests := k\<rparr>) \<and> \<not> heap_grants s)
    \<or> (\<exists>p u e t. pbuf_alloc PBUF_LINK 0 PBUF_RAM s = (Some [p], u) \<and> etharp_output (pbuf_cat [p] [r]) dest u = Inr (e, t)
       \<and> chain_ok (pbuf_cat [p] [r]) \<and> chain_bytes (pbuf_cat [p] [r]) = chain_bytes [r]
       \<and> arp_ok (pbuf_free [p] t) \<and> tx_ok (pbuf_free [p] t) \<and> ip_frame_only s (pbuf_free [p] t) \<and> balanced s (pbuf_free [p] t)
       \<and> (reachable dest (netif s) \<and> known_at (next_hop dest (netif s)) mac (arp_table s) \<longrightarrow> arp_table (pbuf_free [p] t) = arp_table s
          \<and> (length (tx_queue s) < 2 \<longrightarrow>
             tx_queue (pbuf_free [p] t) = tx_queue s @ [eth_frame mac (nif_hwaddr (netif s)) 0x0800 (chain_bytes [r])])))"
proof -
  obtain a u where al: "pbuf_alloc PBUF_LINK 0 PBUF_RAM s = (a, u)" by fastforce
  have g: "heap_grants s \<Longrightarrow> a \<noteq> None" using al by (auto simp: pbuf_alloc_def mem_malloc_def heap_grants_def Let_def)
  show ?thesis using pbuf_alloc_ram [OF al]
  proof (elim disjE conjE exE)
    assume "a = None" "u = s\<lparr>requests := requests s + 1\<rparr>"
    then show ?thesis using al g by auto
  next
    fix p assume p: "a = Some [p]" "chain_ok [p]" "p_type p = PBUF_RAM" "p_len p = 0" "p_tot_len p = 0"
      "p_payload p = align4 (layer_offset PBUF_LINK)" "u = s\<lparr>ram_live := ram_live s + 1, requests := requests s + 1\<rparr>"
    have "p_payload p = 16" using p(6) by (simp add: align4_def layer_offset_def)
    note pk = fragment_packet [OF p(2-5) this assms(3-5)]
    have u: "arp_ok u" "tx_ok u" "tx_queue u = tx_queue s" "netif u = netif s" "arp_table u = arp_table s"
      using assms(1,2) unfolding p(7) by (simp_all add: heap_frame)
    obtain e t where t: "etharp_output (pbuf_cat [p] [r]) dest u = Inr (e, t)" "arp_ok t" "tx_ok t" "ip_frame_only u t" "balanced u t"
      "reachable dest (netif s) \<and> known_at (next_hop dest (netif s)) mac (arp_table s) \<longrightarrow> arp_table t = arp_table s
       \<and> (length (tx_queue s) < 2 \<longrightarrow> tx_queue t = tx_queue s @ [eth_frame mac (nif_hwaddr (netif s)) 0x0800 (chain_bytes [r])])"
      using etharp_output_step [OF u(1,2) pk(1), of dest mac] unfolding u pk(2) by blast
    have fr: "pbuf_free [p] t = t\<lparr>ram_live := ram_live t - 1\<rparr>" using p(3) by (rule pbuf_free_ram)
    note hb = heap_bracket [OF assms(1) p(7) t(2-5)]
    have "arp_table (t\<lparr>ram_live := ram_live t - 1\<rparr>) = arp_table t" by simp
    moreover have "chain_ok (pbuf_cat [p] [r])" using pk(1) unfolding ip_packet_def by blast
    ultimately show ?thesis using al p(1) t(1,6) hb pk(2)
      by (intro disjI2 exI [of _ p] exI [of _ u] exI [of _ e] exI [of _ t]) (simp only: fr simp_thms)
  qed
qed

lemma frag_loop_spec:
  assumes "arp_ok s" "tx_ok s" "chain_ok p" "unat left + unat poff = length (chain_bytes p)" "frag_buffer h r" "length h = 20"
  shows "\<exists>e t. frag_loop p dest 1500 omf left ofo poff r s = Inr (e, t\<lparr>ref_free := ref_free t + 1\<rparr>)
    \<and> arp_ok t \<and> tx_ok t \<and> ip_frame_only s t \<and> balanced s t
    \<and> (heap_grants s \<longrightarrow> e = ERR_OK \<and> handed dest (frag_packets h omf ofo (drop (unat poff) (chain_bytes p))) s t)
    \<and> (heap_grants s \<and> reachable dest (netif s) \<and> known_at (next_hop dest (netif s)) mac (arp_table s) \<longrightarrow> e = ERR_OK \<and> arp_table t = arp_table s
       \<and> (length (tx_queue s) + length (frag_packets h omf ofo (drop (unat poff) (chain_bytes p))) \<le> 2 \<longrightarrow>
          tx_queue t = tx_queue s @ map (eth_frame mac (nif_hwaddr (netif s)) 0x0800) (frag_packets h omf ofo (drop (unat poff) (chain_bytes p)))))"
  using assms
proof (induction "unat left" arbitrary: left ofo poff r s rule: less_induct)
  case less
  have rt: "p_type r = PBUF_REF" using less.prems(5) by (simp add: frag_buffer_def)
  have free: "pbuf_free [q] s = s\<lparr>ref_free := ref_free s + 1\<rparr>" if "p_type q = PBUF_REF" for q and s :: "'a ip_st_scheme"
    using that by (simp add: free_node_def)
  show ?case
  proof (cases "left = 0")
    case True
    then have "drop (unat poff) (chain_bytes p) = []" using less.prems(4) by simp
    then show ?thesis
      unfolding frag_loop.simps [of p dest 1500 omf left] if_P [OF True] free [OF rt]
      by (intro exI [of _ ERR_OK] exI [of _ s]) (use less.prems in \<open>simp add: frag_packets.simps balanced_def handed.none\<close>)
  next
    case False
    let ?D = "drop (unat poff) (chain_bytes p)"
    define fin where "fin = (left \<le> 1480)"
    define cop where "cop = (if fin then left else 1480)"
    define tmp where "tmp = (if fin then omf OR (IP_OFFMASK AND ofo) else (omf OR (IP_OFFMASK AND ofo)) OR IP_MF)"
    have D: "length ?D = unat left" using less.prems(4) by simp
    have u: "unat left \<noteq> 0" using False by (simp add: unat_eq_0)
    have c: "cop \<noteq> 0" "cop \<le> 1480" "cop \<le> left" "fin \<or> cop = 1480" using False by (auto simp: cop_def fin_def)
    have uc: "unat cop = (if fin then unat left else 1480)" "fin \<longleftrightarrow> unat left \<le> 1480" by (simp_all add: cop_def fin_def word_le_nat_alt)
    have bs: "pbuf_copy_partial p cop poff = Inr (take (unat cop) ?D)"
      unfolding pbuf_copy_partial_def by (rule copy_out_spec [OF less.prems(3)])
    have lb: "length (take (unat cop) ?D) = unat cop" using c(3) D by (simp add: word_le_nat_alt)
    have unf: "frag_loop p dest 1500 omf left ofo poff r s =
       and_then (write_at r 20 (take (unat cop) ?D)) (\<lambda>r. and_then (read_at r 0 20) (\<lambda>h.
         and_then (write_at r 0 (set_ip_fields (cop + 20) tmp h)) (\<lambda>r.
         and_then (if fin then pbuf_realloc [r] (cop + 20) s else Inr ([r], s)) (\<lambda>(r, s).
         case (r, pbuf_alloc PBUF_LINK 0 PBUF_RAM s) of
           (r # _, Some (head # _), s) \<Rightarrow>
             and_then (etharp_output (pbuf_cat [head] [r]) dest s) (\<lambda>(_, s).
               frag_loop p dest 1500 omf (left - cop) (ofo + 185) (poff + of_nat (unat cop)) r (pbuf_free [head] s))
         | (r, _, s) \<Rightarrow> Inr (ERR_MEM, pbuf_free r s)))))"
    proof -
      have n: "\<not> (cop = 0 \<or> left < cop)" "\<not> (1500 :: u16) < 20" using c(1,3) by auto
      have e: "(left \<le> 1500 - 20) = fin" "185 * 8 = (1480 :: u16)" "(1500 - 20) div 8 = (185 :: u16)"
        "(if fin then left else 1480) = cop" "(if fin then omf OR IP_OFFMASK AND ofo else (omf OR IP_OFFMASK AND ofo) OR IP_MF) = tmp"
        by (simp_all add: fin_def cop_def tmp_def)
      have cut: "(if fin then pbuf_realloc [r] (left + 20) s else Inr ([r], s)) = (if fin then pbuf_realloc [r] (cop + 20) s else Inr ([r], s))"
        for r and s :: "'a ip_st_scheme" by (simp add: cop_def)
      show ?thesis
        unfolding frag_loop.simps [of p dest 1500 omf left] if_not_P [OF False] if_not_P [OF n(2)] Let_def e if_not_P [OF n(1)] bs
          and_then.simps cut lb ..
    qed
    let ?g = "\<lambda>(r, s). case (r, pbuf_alloc PBUF_LINK 0 PBUF_RAM s) of
           (r # _, Some (head # _), s) \<Rightarrow>
             and_then (etharp_output (pbuf_cat [head] [r]) dest s) (\<lambda>(_, s).
               frag_loop p dest 1500 omf (left - cop) (ofo + 185) (poff + of_nat (unat cop)) r (pbuf_free [head] s))
         | (r, _, s) \<Rightarrow> Inr (ERR_MEM, pbuf_free r s)"
    let ?H = "set_ip_fields (cop + 20) tmp h" and ?F = "frag_packets h omf (ofo + 185) (drop (unat cop) ?D)"
    have F: "frag_packets h omf ofo ?D = (?H @ take (unat cop) ?D) # ?F"
    proof -
      have "of_nat (unat left + 20) = left + 20" by simp
      then show ?thesis
        using u D uc c by (subst frag_packets.simps)
          (auto simp: tmp_def cop_def or.assoc frag_packets.simps [of h omf "ofo + 185" "[]"] simp flip: length_0_conv)
    qed
    obtain r' where r': "frag_loop p dest 1500 omf left ofo poff r s = ?g ([r'], s)" "chain_ok [r']" "p_type r' = PBUF_REF" "p_len r' = cop + 20"
      "unat (p_len r') = unat cop + 20" "chain_bytes [r'] = ?H @ take (unat cop) ?D" "\<not> fin \<longrightarrow> frag_buffer h r'"
      using frag_fill [OF less.prems(5) lb c(1,2,4) less.prems(6), of tmp s ?g] unfolding unf by blast
    have nz: "p_len r' \<noteq> 0" "unat (p_len r') \<le> 1500" using r'(5) c(2) by (auto simp: word_le_nat_alt simp flip: unat_gt_0)
    show ?thesis using frag_send [OF less.prems(1,2) r'(2) nz, of dest mac]
    proof (elim disjE exE conjE)
      fix k assume k: "pbuf_alloc PBUF_LINK 0 PBUF_RAM s = (None, s\<lparr>requests := k\<rparr>)" "\<not> heap_grants s"
      then have "frag_loop p dest 1500 omf left ofo poff r s = Inr (ERR_MEM, (s\<lparr>requests := k\<rparr>)\<lparr>ref_free := ref_free (s\<lparr>requests := k\<rparr>) + 1\<rparr>)"
        unfolding r'(1) by (simp add: free [OF r'(3)] del: pbuf_free.simps)
      then show ?thesis using k(2) less.prems(1,2)
        by (intro exI [of _ ERR_MEM] exI [of _ "s\<lparr>requests := k\<rparr>"]) (simp add: requests_frame)
    next
      fix a u e t
      assume a: "pbuf_alloc PBUF_LINK 0 PBUF_RAM s = (Some [a], u)" "etharp_output (pbuf_cat [a] [r']) dest u = Inr (e, t)"
        and hq: "chain_ok (pbuf_cat [a] [r'])" "chain_bytes (pbuf_cat [a] [r']) = chain_bytes [r']"
        and v: "arp_ok (pbuf_free [a] t)" "tx_ok (pbuf_free [a] t)" "ip_frame_only s (pbuf_free [a] t)" "balanced s (pbuf_free [a] t)"
        and k: "reachable dest (netif s) \<and> known_at (next_hop dest (netif s)) mac (arp_table s) \<longrightarrow> arp_table (pbuf_free [a] t) = arp_table s
          \<and> (length (tx_queue s) < 2 \<longrightarrow>
             tx_queue (pbuf_free [a] t) = tx_queue s @ [eth_frame mac (nif_hwaddr (netif s)) 0x0800 (chain_bytes [r'])])"
      define w where "w = pbuf_free [a] t"
      note v = v [folded w_def] and k = k [folded w_def]
      have ho: "handed dest ((?H @ take (unat cop) ?D) # fs) s x" if "handed dest fs w x" for fs x
        by (rule handed.one [OF a(1) hq(1) _ a(2)]) (use hq(2) r'(6) that in \<open>simp_all add: w_def\<close>)
      have L: "frag_loop p dest 1500 omf left ofo poff r s = frag_loop p dest 1500 omf (left - cop) (ofo + 185) (poff + of_nat (unat cop)) r' w"
        unfolding r'(1) prod.case list.case option.case a and_then.simps w_def ..
      have wf: "netif w = netif s" "heap_grants w = heap_grants s" using v(3) by (simp_all add: ip_frame_only_def heap_grants_def)
      show ?thesis
      proof (cases fin)
        case True
        then have z: "left - cop = 0" "?F = []" using D by (simp_all add: cop_def frag_packets.simps)
        have "frag_loop p dest 1500 omf left ofo poff r s = Inr (ERR_OK, w\<lparr>ref_free := ref_free w + 1\<rparr>)"
          unfolding L frag_loop.simps [of p dest 1500 omf "left - cop"] if_P [OF z(1)] free [OF r'(3)] ..
        then show ?thesis using v k ho [OF handed.none] unfolding F z(2) r'(6) by (intro exI [of _ ERR_OK] exI [of _ w]) auto
      next
        case False
        have lt: "length (chain_bytes p) < 65536"
        proof (cases p)
          case (Cons q qs)
          then show ?thesis using chain_tot_len [of q qs] less.prems(3) unsigned_less [of "p_tot_len q", where 'a = nat] by simp
        qed simp
        have c80: "cop = 1480" "1480 < unat left" using False uc(2) by (simp_all add: cop_def)
        have ul: "unat (left - cop) = unat left - 1480" using c(3) unfolding c80(1) by (simp add: unat_sub)
        have up: "unat (poff + of_nat (unat cop)) = unat poff + 1480" using lt less.prems(4) c80 by (simp add: unat_word_ariths)
        have dr: "drop (unat (poff + of_nat (unat cop))) (chain_bytes p) = drop (unat cop) ?D" unfolding up drop_drop using uc(1) False by (simp add: add.commute)
        have "unat (left - cop) < unat left" "unat (left - cop) + unat (poff + of_nat (unat cop)) = length (chain_bytes p)"
          unfolding ul up using less.prems(4) c80(2) by simp_all
        from less.hyps [OF this(1) v(1,2) less.prems(3) this(2) r'(7) [THEN mp, OF False] less.prems(6), of "ofo + 185", unfolded wf dr]
        obtain e' x where x: "frag_loop p dest 1500 omf left ofo poff r s = Inr (e', x\<lparr>ref_free := ref_free x + 1\<rparr>)" "arp_ok x" "tx_ok x"
          "ip_frame_only w x" "balanced w x"
          "heap_grants s \<longrightarrow> e' = ERR_OK \<and> handed dest ?F w x"
          "heap_grants s \<and> reachable dest (netif s) \<and> known_at (next_hop dest (netif s)) mac (arp_table w) \<longrightarrow> e' = ERR_OK \<and> arp_table x = arp_table w
            \<and> (length (tx_queue w) + length ?F \<le> 2 \<longrightarrow> tx_queue x = tx_queue w @ map (eth_frame mac (nif_hwaddr (netif s)) 0x0800) ?F)"
          unfolding L by blast
        have "ip_frame_only s x" "balanced s x" using ip_frame_trans [OF v(3) x(4)] balanced_trans [OF v(4) x(5)] .
        then show ?thesis using x(1-3,6,7) k ho unfolding F r'(6) by (intro exI [of _ e'] exI [of _ x]) auto
      qed
    qed
  qed
qed

section \<open>A packet\<close>

lemma ref_update:
  "arp_ok (s\<lparr>ref_free := a\<rparr>) = arp_ok s" "tx_ok (s\<lparr>ref_free := a\<rparr>) = tx_ok s" "heap_grants (s\<lparr>ref_free := a\<rparr>) = heap_grants s"
  "tx_queue (s\<lparr>ref_free := a\<rparr>) = tx_queue s" "balanced (s\<lparr>ref_free := a\<rparr>) (t\<lparr>ref_free := b\<rparr>) = balanced s t"
  by (simp_all add: arp_ok_def queued_def tx_ok_def tx_slots_def tx_queue_def heap_grants_def balanced_def)

lemma ref_frame:
  assumes "ip_frame_only (s\<lparr>ref_free := ref_free s - 1\<rparr>) t" "0 < ref_free s"
  shows "ip_frame_only s (t\<lparr>ref_free := ref_free t + 1\<rparr>)" "ref_free t + 1 = ref_free s"
  using assms by (simp_all add: ip_frame_only_def rx_queue_def rx_slots_def rx_ok_def)

text \<open>C14: A packet longer than the MTU leaves in fragments: each has at most 1500 bytes, says its own length and the place of its
  bytes in the data, has the flag for more fragments unless it is the last, a checksum over its header that comes out right and
  the other fields of the packet's header, and together they carry the data in order. However many they are, they are handed to
  \<open>etharp_output\<close> one after the other; frames for the host follow those in the ring, as long as it has room for them; all
  buffers come back, also when the heap refuses a header.\<close>

theorem datagram_fragmented:
  assumes "arp_ok s" "tx_ok s" "net_up s" "chain_ok (q # qs)" "20 \<le> unat (p_len q)" "0 < ref_free s"
    and "h = take 20 (chain_bytes (q # qs))" "d = drop 20 (chain_bytes (q # qs))"
    and "fs = frag_packets h (of_be16 (drop 6 h) AND IP_MF) (of_be16 (drop 6 h) AND IP_OFFMASK) d"
  shows "fragments_from h 0 d fs
    \<and> (\<exists>e t. ip_frag (q # qs) dest s = Inr (e, t) \<and> arp_ok t \<and> tx_ok t \<and> ip_frame_only s t \<and> balanced s t
    \<and> (heap_grants s \<longrightarrow> e = ERR_OK \<and> (\<exists>u. handed dest fs (s\<lparr>ref_free := ref_free s - 1\<rparr>) u \<and> t = u\<lparr>ref_free := ref_free u + 1\<rparr>))
    \<and> (heap_grants s \<and> reachable dest (netif s) \<and> known_at (next_hop dest (netif s)) mac (arp_table s)
       \<longrightarrow> e = ERR_OK \<and> arp_table t = arp_table s
         \<and> (length (tx_queue s) + length fs \<le> 2 \<longrightarrow> tx_queue t = tx_queue s @ map (eth_frame mac (nif_hwaddr (netif s)) 0x0800) fs)))"
proof -
  let ?u = "s\<lparr>ref_free := ref_free s - 1\<rparr>" and ?C = "chain_bytes (q # qs)"
  let ?r = "\<lparr>p_type = PBUF_REF, p_mem = h @ replicate 1481 0, p_payload = 0, p_len = 1500, p_tot_len = 1500\<rparr>"
  have n: "node_ok q" "length (pbytes q) = unat (p_len q)" using assms(4) by simp_all
  have h: "take 20 (pbytes q) = h" "length h = 20" using assms(5,7) n(2) by simp_all
  have rd: "read_at q 0 20 = Inr h" using read_at_pbytes [OF n(1), of 0 20] assms(5) h(1) by simp
  have tot: "unat (p_tot_len q) = length ?C" by (rule chain_tot_len [OF assms(4)])
  have ge: "20 \<le> length ?C" using assms(5) n(2) by simp
  have "unat (p_tot_len q - 20) = length ?C - 20" using tot ge by (simp add: unat_sub word_le_nat_alt)
  then have len: "unat (p_tot_len q - 20) + unat (20 :: u16) = length ?C" using ge by simp
  have "frag_buffer h ?r" using h(2) by (simp add: frag_buffer_def)
  moreover have eq: "ip_frag (q # qs) dest s
      = frag_loop (q # qs) dest 1500 (of_be16 (drop 6 h) AND IP_MF) (p_tot_len q - 20) (of_be16 (drop 6 h) AND IP_OFFMASK) 20 ?r ?u"
    using assms(3,6) rd by (simp add: ip_frag_def pbuf_alloc_def net_up_def Let_def)
  ultimately obtain e t where t: "ip_frag (q # qs) dest s = Inr (e, t\<lparr>ref_free := ref_free t + 1\<rparr>)" "arp_ok t" "tx_ok t"
    "ip_frame_only ?u t" "balanced ?u t" "heap_grants s \<longrightarrow> e = ERR_OK \<and> handed dest fs ?u t"
    "heap_grants s \<and> reachable dest (netif s) \<and> known_at (next_hop dest (netif s)) mac (arp_table s) \<longrightarrow> e = ERR_OK \<and> arp_table t = arp_table s
       \<and> (length (tx_queue s) + length fs \<le> 2 \<longrightarrow> tx_queue t = tx_queue s @ map (eth_frame mac (nif_hwaddr (netif s)) 0x0800) fs)"
    using frag_loop_spec [of ?u "q # qs" "p_tot_len q - 20" 20 h ?r dest "of_be16 (drop 6 h) AND IP_MF" "of_be16 (drop 6 h) AND IP_OFFMASK" mac]
      assms(1,2,4) len h(2) unfolding eq by (auto simp: ref_update assms(8,9) simp del: chain_ok.simps chain_bytes_simps)
  have "balanced s (t\<lparr>ref_free := ref_free t + 1\<rparr>)" using t(5) by (simp add: balanced_def queued_def)
  moreover have "length d < 65516"
    using tot unsigned_less [of "p_tot_len q", where 'a = nat] ge unfolding assms(8) by simp
  then have "fragments_from h 0 d fs" unfolding assms(9) by (intro frag_packets_fragments [OF h(2), where j = 0]) simp_all
  ultimately show ?thesis using t(1-3,6,7) ref_frame(1) [OF t(4) assms(6)] by (intro conjI exI [of _ e] exI [of _ "t\<lparr>ref_free := ref_free t + 1\<rparr>"]) (auto simp: ref_update)
qed

theorem datagram_fragmented_witness:
  "\<exists>q h e t. p_len q = 1501 \<and> h = [0x45, 0, 5, 221, 0, 7, 0, 0, 64, 17, 0, 0, 192, 168, 10, 100, 192, 168, 10, 13]
     \<and> ip_frag [q] 0x0D0AA8C0 (ip_demo\<lparr>ref_free := 8\<rparr>) = Inr (e, t) \<and> e = ERR_OK
     \<and> tx_queue t = map (eth_frame [2, 0, 0, 0, 0, 13] [2, 0, 0, 0, 0, 100] 0x0800)
         [set_ip_fields 1500 0x2000 h @ replicate 1480 7, set_ip_fields 21 185 h @ [7]]"
proof -
  let ?h = "[0x45, 0, 5, 221, 0, 7, 0, 0, 64, 17, 0, 0, 192, 168, 10, 100, 192, 168, 10, 13] :: u8 list"
  let ?d = "replicate 1481 7 :: u8 list" and ?s = "ip_demo\<lparr>ref_free := 8\<rparr>"
  define q where "q = \<lparr>p_type = PBUF_RAM, p_mem = ?h @ ?d, p_payload = 0, p_len = 1501, p_tot_len = 1501\<rparr>"
  have q: "chain_ok [q]" "p_len q = 1501" "20 \<le> unat (p_len q)" "chain_bytes [q] = ?h @ ?d"
    by (simp_all add: q_def node_ok_def pbytes_def)
  have s: "arp_ok ?s" "tx_ok ?s" "0 < ref_free ?s" "heap_grants ?s" "tx_queue ?s = []" "netif ?s = netif ip_demo" "arp_table ?s = arp_table ip_demo"
    using ip_demo_ok by (simp_all add: ref_update)
  have up: "net_up ?s" using ip_demo_ok(7) by (simp add: net_up_def netif_is_up_def)
  have hd: "?h = take 20 (chain_bytes [q])" "?d = drop 20 (chain_bytes [q])" unfolding q(4) by simp_all
  let ?fs = "frag_packets ?h (of_be16 (drop 6 ?h) AND IP_MF) (of_be16 (drop 6 ?h) AND IP_OFFMASK) ?d"
  have z: "of_be16 (drop 6 ?h) = 0" by (simp add: of_be16_def mk16_def)
  have "?fs = [set_ip_fields 1500 (0 OR (IP_OFFMASK AND 0) OR IP_MF) ?h @ take 1480 ?d, set_ip_fields 21 (0 OR (IP_OFFMASK AND 185)) ?h @ drop 1480 ?d]"
    unfolding z by (simp add: frag_packets.simps)
  then have fs: "?fs = [set_ip_fields 1500 0x2000 ?h @ replicate 1480 7, set_ip_fields 21 185 ?h @ [7]]"
    by simp
  from datagram_fragmented [OF s(1,2) up q(1,3) s(3) hd refl, of "0x0D0AA8C0" "[2, 0, 0, 0, 0, 13]"] obtain e t where
    t: "ip_frag [q] 0x0D0AA8C0 ?s = Inr (e, t)"
      "heap_grants ?s \<and> reachable 0x0D0AA8C0 (netif ?s) \<and> known_at (next_hop 0x0D0AA8C0 (netif ?s)) [2, 0, 0, 0, 0, 13] (arp_table ?s)
        \<longrightarrow> e = ERR_OK \<and> arp_table t = arp_table ?s
         \<and> (length (tx_queue ?s) + length ?fs \<le> 2 \<longrightarrow> tx_queue t = tx_queue ?s @ map (eth_frame [2, 0, 0, 0, 0, 13] (nif_hwaddr (netif ?s)) 0x0800) ?fs)"
    by blast
  have "e = ERR_OK" "tx_queue t = map (eth_frame [2, 0, 0, 0, 0, 13] (nif_hwaddr (netif ip_demo)) 0x0800) ?fs"
    using t(2) ip_demo_host(1,2) s(4-7) fs by simp_all
  moreover have "nif_hwaddr (netif ip_demo) = [2, 0, 0, 0, 0, 100]" by (simp add: ip_demo_fields(1))
  ultimately show ?thesis using t(1) q(2) unfolding fs by metis
qed

end
