(* ===== verification/Reass.thy ===== *)
theory Reass
  imports NetStack IpFrag
begin

text \<open>
  The receiving half of \<open>ip_frag.c\<close>: fragments wait in \<open>reassdatagrams\<close> until their datagram is complete. The list
  of datagrams is a list, a datagram is named by its place in it. The helper structure, which the code lays over the
  first eight bytes of the header of a waiting fragment, is kept beside the fragment, as nothing reads those bytes until
  they are restored or hidden.
\<close>

section \<open>State\<close>

record fragment =
  fg_start :: u16
  fg_end :: u16
  fg_pbuf :: chain

record ip_reassdata =
  rd_p :: "fragment list"
  rd_iphdr :: "u8 list"
  rd_datagram_len :: u16
  rd_flags :: u8
  rd_timer :: u8

record reass_st = net_st +
  reassdatagrams :: "ip_reassdata list"
  ip_reass_pbufcount :: u16
  reass_free :: nat          \<comment> \<open>the pool \<open>MEMP_REASSDATA\<close>\<close>

abbreviation (input) "IP_REASS_MAX_PBUFS \<equiv> 10 :: nat"
abbreviation (input) "IP_REASS_MAXAGE \<equiv> 3 :: u8"
abbreviation (input) "IP_REASS_FLAG_LASTFRAG \<equiv> 1 :: u8"
abbreviation (input) "ICMP_TE_FRAG \<equiv> 1 :: u8"

definition IP_ADDRESSES_AND_ID_MATCH :: "u8 list \<Rightarrow> u8 list \<Rightarrow> bool" where
  "IP_ADDRESSES_AND_ID_MATCH a b \<longleftrightarrow> take 8 (drop 12 a) = take 8 (drop 12 b) \<and> take 2 (drop 4 a) = take 2 (drop 4 b)"

section \<open>Removing datagrams\<close>

text \<open>\<open>i\<close> is the datagram, \<open>prev\<close> the one before it. When \<open>prev\<close> is not before it, the freed structure
  stays linked; when it is further before it, the ones in between are lost.\<close>

definition ip_reass_dequeue_datagram :: "nat \<Rightarrow> nat option \<Rightarrow> 'a reass_st_scheme \<Rightarrow> 'a reass_st_scheme result" where
  "ip_reass_dequeue_datagram i prev s =
     (let ds = reassdatagrams s in
      if i = 0 then Inr (s\<lparr>reassdatagrams := tl ds, reass_free := reass_free s + 1\<rparr>)
      else case prev of
        None \<Rightarrow> Inl Undefined
      | Some j \<Rightarrow> if j < i then Inr (s\<lparr>reassdatagrams := take (Suc j) ds @ drop (Suc i) ds, reass_free := reass_free s + 1\<rparr>)
          else Inl Undefined)"

text \<open>The result is the number of buffers freed. An error message is sent when the first fragment is there.\<close>

definition ip_reass_free_complete_datagram ::
  "'a reass_st_scheme others \<Rightarrow> nat \<Rightarrow> nat option \<Rightarrow> 'a reass_st_scheme \<Rightarrow> (nat \<times> 'a reass_st_scheme) result" where
  "ip_reass_free_complete_datagram ot i prev s =
     (let ipr = reassdatagrams s ! i in
      case rd_p ipr of
        [] \<Rightarrow> Inl Undefined
      | f # fs \<Rightarrow>
          and_then
            (if fg_start f = 0 then
               (case fg_pbuf f of
                  [] \<Rightarrow> Inl Undefined
                | p # ps \<Rightarrow>
                    and_then (write_at p 0 (rd_iphdr ipr)) (\<lambda>p.
                    and_then (icmp_time_exceeded ot (p # ps) ICMP_TE_FRAG s) (\<lambda>s.
                      Inr (unat (pbuf_clen (p # ps)), fs, pbuf_free (p # ps) s))))
             else Inr (0, f # fs, s))
            (\<lambda>(n, fs, s).
              let freed = n + sum_list (map (unat \<circ> pbuf_clen \<circ> fg_pbuf) fs);
                  s = fold (pbuf_free \<circ> fg_pbuf) fs s
              in and_then (ip_reass_dequeue_datagram i prev s) (\<lambda>s.
                   Inr (freed, s\<lparr>ip_reass_pbufcount := ip_reass_pbufcount s - of_nat freed\<rparr>))))"

text \<open>The timer. The firmware does not call it. \<open>n\<close> datagrams are left from \<open>i\<close> on.\<close>

primrec reass_tmr_from :: "'a reass_st_scheme others \<Rightarrow> nat \<Rightarrow> nat \<Rightarrow> nat option \<Rightarrow> 'a reass_st_scheme \<Rightarrow> 'a reass_st_scheme result" where
  "reass_tmr_from ot 0 i prev s = Inr s"
| "reass_tmr_from ot (Suc n) i prev s =
     (let r = reassdatagrams s ! i in
      if 0 < rd_timer r then
        reass_tmr_from ot n (Suc i) (Some i) (s\<lparr>reassdatagrams := (reassdatagrams s)[i := r\<lparr>rd_timer := rd_timer r - 1\<rparr>]\<rparr>)
      else and_then (ip_reass_free_complete_datagram ot i prev s) (\<lambda>(_, s). reass_tmr_from ot n i prev s))"

definition ip_reass_tmr :: "'a reass_st_scheme others \<Rightarrow> 'a reass_st_scheme \<Rightarrow> 'a reass_st_scheme result" where
  "ip_reass_tmr ot s = reass_tmr_from ot (length (reassdatagrams s)) 0 None s"

text \<open>The search for the oldest datagram with other addresses or another number: the oldest so far and the
  number of other datagrams.\<close>

fun oldest_scan :: "u8 list \<Rightarrow> nat \<Rightarrow> (nat \<times> u8) option \<Rightarrow> nat \<Rightarrow> ip_reassdata list \<Rightarrow> nat option \<times> nat" where
  "oldest_scan fraghdr i old others [] = (map_option fst old, others)"
| "oldest_scan fraghdr i old others (r # rs) =
     (if \<not> IP_ADDRESSES_AND_ID_MATCH (rd_iphdr r) fraghdr then
        oldest_scan fraghdr (Suc i)
          (case old of None \<Rightarrow> Some (i, rd_timer r) | Some (j, t) \<Rightarrow> if rd_timer r \<le> t then Some (i, rd_timer r) else old)
          (Suc others) rs
      else oldest_scan fraghdr (Suc i) old others rs)"

text \<open>The \<open>do\<close> loop: \<open>prev\<close> is the last datagram with a successor, which is before the old one only when that is
  the last. A round that goes on has removed a datagram, so that one round more than there are datagrams is not reached.\<close>

primrec remove_rounds :: "'a reass_st_scheme others \<Rightarrow> u8 list \<Rightarrow> nat \<Rightarrow> nat \<Rightarrow> nat \<Rightarrow> 'a reass_st_scheme \<Rightarrow> (nat \<times> 'a reass_st_scheme) result" where
  "remove_rounds ot fraghdr needed 0 freed s = Inl Hang"
| "remove_rounds ot fraghdr needed (Suc n) freed s =
     (let ds = reassdatagrams s;
          (old, others) = oldest_scan fraghdr 0 None 0 ds;
          prev = (if length ds \<le> 1 then None else Some (length ds - 2))
      in and_then (case old of None \<Rightarrow> Inr (0, s) | Some i \<Rightarrow> ip_reass_free_complete_datagram ot i prev s) (\<lambda>(k, s).
           if freed + k < needed \<and> 1 < others then remove_rounds ot fraghdr needed n (freed + k) s
           else Inr (freed + k, s)))"

definition ip_reass_remove_oldest_datagram ::
  "'a reass_st_scheme others \<Rightarrow> u8 list \<Rightarrow> nat \<Rightarrow> 'a reass_st_scheme \<Rightarrow> (nat \<times> 'a reass_st_scheme) result" where
  "ip_reass_remove_oldest_datagram ot fraghdr pbufs_needed s =
     remove_rounds ot fraghdr pbufs_needed (Suc (length (reassdatagrams s))) 0 s"


section \<open>A new fragment\<close>

definition ip_reass_enqueue_new_datagram ::
  "'a reass_st_scheme others \<Rightarrow> u8 list \<Rightarrow> nat \<Rightarrow> 'a reass_st_scheme \<Rightarrow> (bool \<times> 'a reass_st_scheme) result" where
  "ip_reass_enqueue_new_datagram ot fraghdr clen s =
     and_then (if 0 < reass_free s then Inr (True, s)
               else and_then (ip_reass_remove_oldest_datagram ot fraghdr clen s) (\<lambda>(n, s).
                 Inr (clen \<le> n \<and> 0 < reass_free s, s)))
       (\<lambda>(ok, s).
         if ok then
           let ipr = \<lparr>rd_p = [], rd_iphdr = fraghdr, rd_datagram_len = 0, rd_flags = 0, rd_timer = IP_REASS_MAXAGE\<rparr>
           in Inr (True, s\<lparr>reassdatagrams := ipr # reassdatagrams s, reass_free := reass_free s - 1\<rparr>)
         else Inr (False, s))"

text \<open>The place of a fragment: \<open>prev\<close> is the fragment before, \<open>valid\<close> says that no hole was seen. The result is
  the fragments before it, the fragment with those behind it, and \<open>valid\<close>; nothing when it is thrown away.\<close>

fun insert_fragment ::
  "fragment \<Rightarrow> fragment option \<Rightarrow> bool \<Rightarrow> fragment list \<Rightarrow> (fragment list \<times> fragment list \<times> bool) option" where
  "insert_fragment f prev valid [] =
     Some ([], [f], valid \<and> (case prev of None \<Rightarrow> True | Some g \<Rightarrow> fg_end g = fg_start f))"
| "insert_fragment f prev valid (q # qs) =
     (if fg_start f < fg_start q then
        (case prev of
           None \<Rightarrow> Some ([], f # q # qs, valid)
         | Some g \<Rightarrow> if fg_start f < fg_end g \<or> fg_start q < fg_end f then None else Some ([], f # q # qs, valid))
      else if fg_start f = fg_start q then None
      else if fg_start f < fg_end q then None
      else map_option (\<lambda>(as, bs, v). (q # as, bs, v))
        (insert_fragment f (Some q) (valid \<and> (case prev of None \<Rightarrow> True | Some g \<Rightarrow> fg_end g = fg_start q)) qs))"

fun no_holes :: "fragment list \<Rightarrow> bool" where
  "no_holes (f # g # fs) = (fg_end f = fg_start g \<and> no_holes (g # fs))"
| "no_holes _ = True"

text \<open>The fragments with the new one, and whether the datagram is complete.\<close>

definition chain_frag :: "ip_reassdata \<Rightarrow> fragment \<Rightarrow> (fragment list \<times> bool) option" where
  "chain_frag ipr f = map_option
     (\<lambda>(as, bs, valid). (as @ bs,
        rd_flags ipr AND IP_REASS_FLAG_LASTFRAG \<noteq> 0 \<and> valid \<and> fg_start (hd (as @ bs)) = 0 \<and> no_holes bs))
     (insert_fragment f None True (rd_p ipr))"

definition ip_reass_chain_frag_into_datagram_and_validate :: "nat \<Rightarrow> fragment \<Rightarrow> 'a reass_st_scheme \<Rightarrow> bool \<times> 'a reass_st_scheme" where
  "ip_reass_chain_frag_into_datagram_and_validate i f s =
     (let ipr = reassdatagrams s ! i in
      case chain_frag ipr f of
        Some (fs, valid) \<Rightarrow> (valid, s\<lparr>reassdatagrams := (reassdatagrams s)[i := ipr\<lparr>rd_p := fs\<rparr>]\<rparr>)
      | None \<Rightarrow> (False, pbuf_free (fg_pbuf f) (s\<lparr>ip_reass_pbufcount := ip_reass_pbufcount s - of_nat (unat (pbuf_clen (fg_pbuf f)))\<rparr>)))"

text \<open>Chaining the fragments together: the headers of the later ones are hidden, when they are long enough.\<close>

definition hide_header :: "chain \<Rightarrow> chain" where
  "hide_header r = (case pbuf_header r (- 20) of None \<Rightarrow> r | Some r \<Rightarrow> r)"

definition join_fragments :: "chain \<Rightarrow> fragment list \<Rightarrow> chain" where
  "join_fragments p fs = fold (\<lambda>f p. pbuf_cat p (hide_header (fg_pbuf f))) fs p"

text \<open>The datagram that is complete: its header is restored with the whole length.\<close>

definition reassembled :: "nat \<Rightarrow> nat option \<Rightarrow> 'a reass_st_scheme \<Rightarrow> (chain \<times> 'a reass_st_scheme) result" where
  "reassembled i prev s =
     (let ipr = reassdatagrams s ! i; len = rd_datagram_len ipr + 20 in
      case rd_p ipr of
        [] \<Rightarrow> Inl Undefined
      | f # fs \<Rightarrow> (case fg_pbuf f of
          [] \<Rightarrow> Inl Undefined
        | p # ps \<Rightarrow> and_then (write_at p 0 (set_ip_fields len 0 (rd_iphdr ipr))) (\<lambda>p.
            let c = join_fragments (p # ps) fs
            in and_then (ip_reass_dequeue_datagram i prev s) (\<lambda>s.
              Inr (c, s\<lparr>ip_reass_pbufcount := ip_reass_pbufcount s - of_nat (unat (pbuf_clen c))\<rparr>)))))"

fun find_datagram :: "u8 list \<Rightarrow> nat \<Rightarrow> ip_reassdata list \<Rightarrow> nat option" where
  "find_datagram h i [] = None"
| "find_datagram h i (r # rs) = (if IP_ADDRESSES_AND_ID_MATCH (rd_iphdr r) h then Some i else find_datagram h (Suc i) rs)"

text \<open>The middle of \<open>ip_reass\<close>: the datagram of the fragment and the one before it, or nothing when there is no room.\<close>

definition reass_slot ::
  "'a reass_st_scheme others \<Rightarrow> u8 list \<Rightarrow> nat \<Rightarrow> 'a reass_st_scheme \<Rightarrow> ((nat \<times> nat option) option \<times> 'a reass_st_scheme) result" where
  "reass_slot ot h clen s = (case find_datagram h 0 (reassdatagrams s) of
      Some i \<Rightarrow>
        let ipr = reassdatagrams s ! i;
            ipr = (if of_be16 (drop 6 h) AND IP_OFFMASK = 0 \<and> of_be16 (drop 6 (rd_iphdr ipr)) AND IP_OFFMASK \<noteq> 0
                   then ipr\<lparr>rd_iphdr := h\<rparr> else ipr)
        in Inr (Some (i, if i = 0 then None else Some (i - 1)), s\<lparr>reassdatagrams := (reassdatagrams s)[i := ipr]\<rparr>)
    | None \<Rightarrow>
        let prev = (if reassdatagrams s = [] then None else Some (length (reassdatagrams s)))
        in and_then (ip_reass_enqueue_new_datagram ot h clen s) (\<lambda>(ok, s). Inr (if ok then Some (0, prev) else None, s)))"

definition ip_reass :: "'a reass_st_scheme others \<Rightarrow> chain \<Rightarrow> 'a reass_st_scheme \<Rightarrow> (chain option \<times> 'a reass_st_scheme) result" where
  "ip_reass ot p s = (case p of [] \<Rightarrow> Inl Undefined | q # _ \<Rightarrow>
     and_then (read_at q 0 20) (\<lambda>h.
     if hlen_of h \<noteq> 20 then Inr (None, pbuf_free p s)
     else
       let offset = (of_be16 (drop 6 h) AND IP_OFFMASK) * 8;
           len = of_be16 (drop 2 h) - 20;
           clen = unat (pbuf_clen p)
       in and_then (if IP_REASS_MAX_PBUFS < unat (ip_reass_pbufcount s) + clen
             then and_then (ip_reass_remove_oldest_datagram ot h clen s) (\<lambda>(n, s).
               Inr (n \<noteq> 0 \<and> unat (ip_reass_pbufcount s) + clen \<le> IP_REASS_MAX_PBUFS, s))
             else Inr (True, s))
       (\<lambda>(ok, s). if \<not> ok then Inr (None, pbuf_free p s) else
       and_then (reass_slot ot h clen s) (\<lambda>(slot, s). case slot of
         None \<Rightarrow> Inr (None, pbuf_free p s)
       | Some (i, prev) \<Rightarrow>
           let s = s\<lparr>ip_reass_pbufcount := ip_reass_pbufcount s + of_nat clen\<rparr>;
               ipr = reassdatagrams s ! i;
               ipr = (if of_be16 (drop 6 h) AND IP_MF = 0
                      then ipr\<lparr>rd_flags := rd_flags ipr OR IP_REASS_FLAG_LASTFRAG, rd_datagram_len := offset + len\<rparr> else ipr);
               s = s\<lparr>reassdatagrams := (reassdatagrams s)[i := ipr]\<rparr>;
               (valid, s) = ip_reass_chain_frag_into_datagram_and_validate i \<lparr>fg_start = offset, fg_end = offset + len, fg_pbuf = p\<rparr> s
           in if valid then and_then (reassembled i prev s) (\<lambda>(c, s). Inr (Some c, s))
              else Inr (None, s)))))"

text \<open>The stack with fragmentation and reassembly; what sends from inside \<open>ip_reass\<close> needs \<open>ip_frag\<close> only.\<close>

definition sending :: "'a reass_st_scheme others" where
  "sending = \<lparr>call_ip_frag = ip_frag, call_ip_reass = (\<lambda>p s. Inl Undefined), call_tcp_input = (\<lambda>p s. Inl Undefined)\<rparr>"

definition full_stack :: "(chain \<Rightarrow> 'a reass_st_scheme \<Rightarrow> 'a reass_st_scheme result) \<Rightarrow> 'a reass_st_scheme others" where
  "full_stack tcp = \<lparr>call_ip_frag = ip_frag, call_ip_reass = ip_reass sending, call_tcp_input = tcp\<rparr>"

section \<open>Chains put together\<close>

lemma pbuf_cat_spec:
  assumes "chain_ok a" "chain_ok b" "a \<noteq> []" "b \<noteq> []" "length (chain_bytes a) + length (chain_bytes b) < 65536"
  shows "chain_ok (pbuf_cat a b)" "chain_bytes (pbuf_cat a b) = chain_bytes a @ chain_bytes b" "length (pbuf_cat a b) = length a + length b"
    "map p_type (pbuf_cat a b) = map p_type a @ map p_type b" "map p_len (pbuf_cat a b) = map p_len a @ map p_len b"
    "p_payload (hd (pbuf_cat a b)) = p_payload (hd a)" "p_mem (hd (pbuf_cat a b)) = p_mem (hd a)"
proof -
  let ?n = "p_tot_len (hd b)"
  obtain y ys where b: "b = y # ys" using assms(4) by (cases b) auto
  have n: "unat ?n = length (chain_bytes b)" using chain_tot_len assms(2) unfolding b by simp
  have e: "pbuf_cat a b = map (\<lambda>p. p\<lparr>p_tot_len := p_tot_len p + ?n\<rparr>) a @ b" using assms(3,4) by (simp add: pbuf_cat_def)
  have pb: "pbytes (p\<lparr>p_tot_len := z\<rparr>) = pbytes p" for p z by (simp add: pbytes_def)
  have cb: "chain_bytes (map (\<lambda>p. p\<lparr>p_tot_len := p_tot_len p + ?n\<rparr>) c) = chain_bytes c" for c
    by (induction c) (simp_all add: pb)
  show "chain_bytes (pbuf_cat a b) = chain_bytes a @ chain_bytes b"
    unfolding e by (simp add: chain_bytes_def comp_def pb)
  have "chain_ok (map (\<lambda>p. p\<lparr>p_tot_len := p_tot_len p + ?n\<rparr>) c @ b)" if "chain_ok c" "length (chain_bytes c) + length (chain_bytes b) < 65536" for c
    using that
  proof (induction c)
    case (Cons p ps)
    have "unat (p_tot_len p) = length (chain_bytes (p # ps))" by (rule chain_tot_len [OF Cons.prems(1)])
    then have t: "unat (p_tot_len p + ?n) = unat (p_tot_len p) + unat ?n" using Cons.prems(2) n by (simp add: unat_word_ariths)
    have ps: "chain_ok ps" "length (chain_bytes ps) + length (chain_bytes b) < 65536" using Cons.prems by simp_all
    have nx: "(case map (\<lambda>p. p\<lparr>p_tot_len := p_tot_len p + ?n\<rparr>) ps @ b of [] \<Rightarrow> 0 | q # _ \<Rightarrow> unat (p_tot_len q))
        = (case ps of [] \<Rightarrow> 0 | q # _ \<Rightarrow> unat (p_tot_len q)) + unat ?n"
    proof (cases ps)
      case Nil
      then show ?thesis by (simp add: b)
    next
      case (Cons z zs)
      have "unat (p_tot_len z) = length (chain_bytes ps)" using chain_tot_len ps(1) unfolding Cons by simp
      then have "unat (p_tot_len z + ?n) = unat (p_tot_len z) + unat ?n" using ps(2) n by (simp add: unat_word_ariths)
      then show ?thesis by (simp add: Cons)
    qed
    show ?case using Cons.prems(1) Cons.IH [OF ps] t nx by (simp add: node_ok_def)
  qed (simp add: assms(2))
  then show "chain_ok (pbuf_cat a b)" unfolding e using assms(1,5) by blast
  show "length (pbuf_cat a b) = length a + length b" "map p_type (pbuf_cat a b) = map p_type a @ map p_type b"
    "map p_len (pbuf_cat a b) = map p_len a @ map p_len b" unfolding e by (simp_all add: comp_def)
  show "p_payload (hd (pbuf_cat a b)) = p_payload (hd a)" "p_mem (hd (pbuf_cat a b)) = p_mem (hd a)"
    unfolding e using assms(3) by (cases a; simp)+
qed

text \<open>A received fragment: a header of five words in the first buffer, and the bytes behind it.\<close>

definition fragment_chain :: "chain \<Rightarrow> u8 list \<Rightarrow> u8 list \<Rightarrow> bool" where
  "fragment_chain c h bs \<longleftrightarrow> received 14 c \<and> chain_bytes c = h @ bs \<and> length h = 20 \<and> 20 < unat (p_len (hd c))"

lemma fragment_chain_read:
  assumes "fragment_chain (q # qs) h bs"
  shows "read_at q 0 20 = Inr h"
proof -
  have q: "chain_ok (q # qs)" "chain_bytes (q # qs) = h @ bs" "length h = 20" "20 < unat (p_len q)"
    using assms by (auto simp: fragment_chain_def received_def simp del: chain_bytes_simps)
  then have n: "node_ok q" "length (pbytes q) = unat (p_len q)" by simp_all
  have "take 20 (pbytes q) = take 20 (chain_bytes (q # qs))" using n(2) q(4) by simp
  also have "\<dots> = h" unfolding q(2) using q(3) by simp
  finally show ?thesis using read_at_pbytes [OF n(1), of 0 20] q(4) by simp
qed

lemma hide_fragment:
  assumes "fragment_chain c h bs"
  shows "\<exists>r. hide_header c = r \<and> received 34 r \<and> chain_bytes r = bs \<and> length r = length c \<and> (\<forall>p\<in>set r. p_len p \<noteq> 0)"
proof -
  obtain q qs where c: "c = q # qs" using assms by (cases c) (auto simp: fragment_chain_def received_def)
  have q: "received 14 (q # qs)" "chain_bytes (q # qs) = h @ bs" "length h = 20" "20 < unat (p_len q)"
    using assms unfolding c by (simp_all add: fragment_chain_def)
  have "20 \<le> unat (p_len q)" using q(4) by simp
  from received_hide [OF q(1) this] obtain r where r: "pbuf_header (q # qs) (- int 20) = Some (r # qs)" "received (14 + 20) (r # qs)"
    "chain_bytes (r # qs) = drop 20 (chain_bytes (q # qs))" "unat (p_len r) = unat (p_len q) - 20" by blast
  have "p_len r \<noteq> 0" using r(4) q(4) by (simp flip: unat_gt_0)
  moreover have "\<forall>p\<in>set qs. p_len p \<noteq> 0" using q(1) by (simp add: received_Cons no_gaps_def)
  moreover have "chain_bytes (r # qs) = bs" unfolding r(3) q(2) using q(3) by simp
  ultimately show ?thesis using r(1,2) by (simp add: hide_header_def c)
qed

lemma join_fragments_spec:
  assumes "received 14 c" "list_all2 (\<lambda>f bs. \<exists>h. fragment_chain (fg_pbuf f) h bs) fs bss" "length (chain_bytes c) + length (concat bss) < 65536"
  shows "received 14 (join_fragments c fs)" "chain_bytes (join_fragments c fs) = chain_bytes c @ concat bss"
    "length (join_fragments c fs) = length c + sum_list (map (length \<circ> fg_pbuf) fs)"
proof -
  have "received 14 (join_fragments c fs) \<and> chain_bytes (join_fragments c fs) = chain_bytes c @ concat bss
    \<and> length (join_fragments c fs) = length c + sum_list (map (length \<circ> fg_pbuf) fs)"
    using assms
  proof (induction fs arbitrary: c bss)
    case (Cons f fs)
    obtain bs bss' h where b: "bss = bs # bss'" "fragment_chain (fg_pbuf f) h bs" "list_all2 (\<lambda>f bs. \<exists>h. fragment_chain (fg_pbuf f) h bs) fs bss'"
      using Cons.prems(2) by (auto simp: list_all2_Cons1)
    obtain r where r: "hide_header (fg_pbuf f) = r" "received 34 r" "chain_bytes r = bs" "length r = length (fg_pbuf f)" "\<forall>p\<in>set r. p_len p \<noteq> 0"
      using hide_fragment [OF b(2)] by blast
    have c: "chain_ok c" "c \<noteq> []" "no_gaps c" "\<forall>p\<in>set c. p_type p = PBUF_POOL" "p_payload (hd c) = 14" "length (p_mem (hd c)) = 1500"
      using Cons.prems(1) unfolding received_def by blast+
    have rr: "chain_ok r" "r \<noteq> []" "\<forall>p\<in>set r. p_type p = PBUF_POOL" using r(2) unfolding received_def by blast+
    have "length (chain_bytes c) + length (chain_bytes r) < 65536" using Cons.prems(3) b(1) r(3) by simp
    note j = pbuf_cat_spec [OF c(1) rr(1) c(2) rr(2) this]
    let ?j = "pbuf_cat c r"
    have ne: "?j \<noteq> []" using j(3) c(2) by auto
    have "set (map p_type ?j) \<subseteq> {PBUF_POOL}" unfolding j(4) using c(4) rr(3) by auto
    then have ty: "\<forall>p\<in>set ?j. p_type p = PBUF_POOL" by auto
    have "set (map p_len (tl ?j)) \<subseteq> - {0}"
    proof -
      have "map p_len (tl ?j) = map p_len (tl c) @ map p_len r" using j(5) c(2) by (cases c) (simp_all add: map_tl)
      then show ?thesis using c(3) r(5) by (auto simp: no_gaps_def)
    qed
    then have "no_gaps ?j" by (auto simp: no_gaps_def)
    then have rc: "received 14 ?j" unfolding received_def using j(1,6,7) ne ty c(5,6) by simp
    have lt: "length (chain_bytes ?j) + length (concat bss') < 65536" using Cons.prems(3) unfolding j(2) r(3) b(1) by simp
    have e: "join_fragments c (f # fs) = join_fragments ?j fs" by (simp add: join_fragments_def r(1))
    show ?case unfolding e using Cons.IH [OF rc b(3) lt] j(2,3) r(3,4) b(1) by simp
  qed (simp add: join_fragments_def)
  then show "received 14 (join_fragments c fs)" "chain_bytes (join_fragments c fs) = chain_bytes c @ concat bss"
    "length (join_fragments c fs) = length c + sum_list (map (length \<circ> fg_pbuf) fs)" by blast+
qed

section \<open>The place of a fragment\<close>

definition apart :: "fragment \<Rightarrow> fragment \<Rightarrow> bool" where
  "apart f g \<longleftrightarrow> fg_start f < fg_start g \<and> fg_end f \<le> fg_start g"

lemma insert_fragment_place:
  assumes "\<forall>g\<in>set as. apart g f" "\<forall>g\<in>set bs. apart f g" "\<forall>g. prev = Some g \<longrightarrow> fg_end g \<le> fg_start f"
  shows "insert_fragment f prev v (as @ bs) = Some (as, f # bs,
     v \<and> no_holes ((case prev of None \<Rightarrow> [] | Some g \<Rightarrow> [g]) @ as @ (if bs = [] then [f] else [])))"
  using assms
proof (induction as arbitrary: prev v)
  case Nil
  then show ?case by (cases bs; cases prev) (auto simp: apart_def not_less)
next
  case (Cons q as)
  have q: "\<not> fg_start f < fg_start q" "fg_start f \<noteq> fg_start q" "\<not> fg_start f < fg_end q" "fg_end q \<le> fg_start f"
    using Cons.prems(1) by (auto simp: apart_def)
  have "\<forall>g\<in>set as. apart g f" "\<forall>g. Some q = Some g \<longrightarrow> fg_end g \<le> fg_start f" using Cons.prems(1) q(4) by auto
  from Cons.IH [OF this(1) Cons.prems(2) this(2)] show ?case
    using q(1-3) by (cases prev) (simp_all add: conj_ac)
qed

section \<open>Steps of \<open>ip_reass\<close>\<close>

text \<open>What the header of a fragment says.\<close>

definition h_offset :: "u8 list \<Rightarrow> u16" where "h_offset h = (of_be16 (drop 6 h) AND IP_OFFMASK) * 8"
definition h_last :: "u8 list \<Rightarrow> bool" where "h_last h \<longleftrightarrow> of_be16 (drop 6 h) AND IP_MF = 0"
definition h_end :: "u8 list \<Rightarrow> u16" where "h_end h = h_offset h + (of_be16 (drop 2 h) - 20)"

definition noted :: "u8 list \<Rightarrow> ip_reassdata \<Rightarrow> ip_reassdata" where
  "noted h d = (if h_last h then d\<lparr>rd_flags := rd_flags d OR IP_REASS_FLAG_LASTFRAG, rd_datagram_len := h_end h\<rparr> else d)"

lemma noted_fields [simp]: "rd_p (noted h d) = rd_p d" "rd_iphdr (noted h d) = rd_iphdr d" "rd_timer (noted h d) = rd_timer d"
  by (simp_all add: noted_def)

lemma clen_small: "length c \<le> 10 \<Longrightarrow> unat (pbuf_clen c) = length c"
  by (simp add: pbuf_clen_def unat_of_nat take_bit_nat_def)

lemma ip_reass_enters:
  assumes "fragment_chain c h bs" "hlen_of h = 20" "unat (ip_reass_pbufcount s) + length c \<le> 10"
    and "reass_slot ot h (length c) s = Inr (Some (i, prev), t)"
  shows "ip_reass ot c s =
    (let t = t\<lparr>ip_reass_pbufcount := ip_reass_pbufcount t + of_nat (length c), reassdatagrams := (reassdatagrams t)[i := noted h (reassdatagrams t ! i)]\<rparr>;
         (valid, t) = ip_reass_chain_frag_into_datagram_and_validate i \<lparr>fg_start = h_offset h, fg_end = h_end h, fg_pbuf = c\<rparr> t
     in if valid then and_then (reassembled i prev t) (\<lambda>(c, s). Inr (Some c, s)) else Inr (None, t))"
proof -
  obtain q qs where c: "c = q # qs" using assms(1) by (cases c) (auto simp: fragment_chain_def received_def)
  have rd: "read_at q 0 20 = Inr h" using fragment_chain_read assms(1) unfolding c .
  have l: "unat (pbuf_clen c) = length c" using assms(3) by (intro clen_small) simp
  have nov: "\<not> IP_REASS_MAX_PBUFS < unat (ip_reass_pbufcount s) + length c" using assms(3) by simp
  have rf: "reassdatagrams (t\<lparr>ip_reass_pbufcount := a\<rparr>) = reassdatagrams t" for a and t :: "'a reass_st_scheme" by simp
  show ?thesis
    unfolding ip_reass_def c list.case rd and_then.simps l [unfolded c] if_not_P [OF nov [unfolded c]] prod.case not_True_eq_False if_False assms(4) [unfolded c]
      Let_def option.case noted_def h_last_def h_end_def h_offset_def rf
    using assms(2) by (simp add: Let_def split del: if_split)
qed


definition add_fragment :: "u8 list \<Rightarrow> ip_reassdata \<Rightarrow> fragment list \<Rightarrow> ip_reassdata" where
  "add_fragment h d fs = (noted h d)\<lparr>rd_p := fs\<rparr>"

text \<open>The first fragment of a datagram.\<close>

lemma ip_reass_first:
  assumes "fragment_chain c h bs" "hlen_of h = 20" "unat (ip_reass_pbufcount s) + length c \<le> 10"
    and "find_datagram h 0 (reassdatagrams s) = None" "0 < reass_free s" "\<not> (h_last h \<and> h_offset h = 0)"
  shows "ip_reass ot c s = Inr (None, s\<lparr>
      reassdatagrams := add_fragment h \<lparr>rd_p = [], rd_iphdr = h, rd_datagram_len = 0, rd_flags = 0, rd_timer = IP_REASS_MAXAGE\<rparr>
        [\<lparr>fg_start = h_offset h, fg_end = h_end h, fg_pbuf = c\<rparr>] # reassdatagrams s,
      reass_free := reass_free s - 1, ip_reass_pbufcount := ip_reass_pbufcount s + of_nat (length c)\<rparr>)"
proof -
  let ?d = "\<lparr>rd_p = [], rd_iphdr = h, rd_datagram_len = 0, rd_flags = 0, rd_timer = IP_REASS_MAXAGE\<rparr>"
  have sl: "reass_slot ot h (length c) s = Inr (Some (0, if reassdatagrams s = [] then None else Some (length (reassdatagrams s))),
      s\<lparr>reassdatagrams := ?d # reassdatagrams s, reass_free := reass_free s - 1\<rparr>)"
    using assms(4,5) by (simp add: reass_slot_def ip_reass_enqueue_new_datagram_def)
  show ?thesis
    unfolding ip_reass_enters [OF assms(1-3) sl] using assms(6)
    by (simp add: Let_def ip_reass_chain_frag_into_datagram_and_validate_def chain_frag_def add_fragment_def noted_def)
qed

text \<open>A further one, for the datagram that is first in the list.\<close>

definition with_header :: "u8 list \<Rightarrow> ip_reassdata \<Rightarrow> ip_reassdata" where
  "with_header h d = (if of_be16 (drop 6 h) AND IP_OFFMASK = 0 \<and> of_be16 (drop 6 (rd_iphdr d)) AND IP_OFFMASK \<noteq> 0
     then d\<lparr>rd_iphdr := h\<rparr> else d)"

lemma with_header_fields [simp]: "rd_p (with_header h d) = rd_p d" "rd_flags (with_header h d) = rd_flags d"
  "rd_datagram_len (with_header h d) = rd_datagram_len d" "rd_timer (with_header h d) = rd_timer d"
  by (simp_all add: with_header_def)

lemma ip_reass_next:
  assumes "fragment_chain c h bs" "hlen_of h = 20" "unat (ip_reass_pbufcount s) + length c \<le> 10"
    and "reassdatagrams s = d # ds" "IP_ADDRESSES_AND_ID_MATCH (rd_iphdr d) h"
    and "insert_fragment \<lparr>fg_start = h_offset h, fg_end = h_end h, fg_pbuf = c\<rparr> None True (rd_p d) = Some (as, fs, v)"
    and "d' = add_fragment h (with_header h d) (as @ fs)"
    and "t = s\<lparr>ip_reass_pbufcount := ip_reass_pbufcount s + of_nat (length c), reassdatagrams := d' # ds\<rparr>"
  shows "ip_reass ot c s =
    (if rd_flags d' AND IP_REASS_FLAG_LASTFRAG \<noteq> 0 \<and> v \<and> fg_start (hd (as @ fs)) = 0 \<and> no_holes fs
     then and_then (reassembled 0 None t) (\<lambda>(c, s). Inr (Some c, s)) else Inr (None, t))"
proof -
  have sl: "reass_slot ot h (length c) s = Inr (Some (0, None), s\<lparr>reassdatagrams := with_header h d # ds\<rparr>)"
    using assms(4,5) by (simp add: reass_slot_def with_header_def)
  have fl: "rd_flags d' = rd_flags (noted h (with_header h d))" unfolding assms(7) add_fragment_def by simp
  show ?thesis
    unfolding ip_reass_enters [OF assms(1-3) sl] fl assms(8) using assms(6)
    by (simp add: Let_def ip_reass_chain_frag_into_datagram_and_validate_def chain_frag_def assms(7) add_fragment_def)
qed

text \<open>The complete datagram, first in the list.\<close>

lemma reassembled_head:
  assumes "reassdatagrams t = d # ds" "rd_p d = f # fs" "fragment_chain (fg_pbuf f) h b"
    and "list_all2 (\<lambda>f bs. \<exists>h. fragment_chain (fg_pbuf f) h bs) fs bss" "length (rd_iphdr d) = 20" "length (b @ concat bss) + 20 < 65536"
    and "sum_list (map (length \<circ> fg_pbuf) (f # fs)) \<le> 10"
  shows "\<exists>r. reassembled 0 None t = Inr (r, t\<lparr>reassdatagrams := ds, reass_free := reass_free t + 1,
      ip_reass_pbufcount := ip_reass_pbufcount t - of_nat (length r)\<rparr>) \<and> received 14 r
    \<and> chain_bytes r = set_ip_fields (rd_datagram_len d + 20) 0 (rd_iphdr d) @ b @ concat bss
    \<and> length r = sum_list (map (length \<circ> fg_pbuf) (f # fs))"
proof -
  obtain p ps where p: "fg_pbuf f = p # ps" using assms(3) by (cases "fg_pbuf f") (auto simp: fragment_chain_def received_def)
  have q: "received 14 (p # ps)" "chain_bytes (p # ps) = h @ b" "length h = 20" "20 < unat (p_len p)"
    using assms(3) unfolding p by (simp_all add: fragment_chain_def)
  let ?H = "set_ip_fields (rd_datagram_len d + 20) 0 (rd_iphdr d)"
  have H: "length ?H = 20" using assms(5) by simp
  have ok: "chain_ok (p # ps)" "p_payload p = 14" "length (p_mem p) = 1500" using q(1) unfolding received_Cons by blast+
  have "length ?H \<le> unat (p_len p)" using H q(4) by simp
  from write_header [OF ok(1) this] obtain r where r: "write_at p 0 ?H = Inr r" "same_shape p r" "chain_ok (r # ps)"
    "chain_bytes (r # ps) = ?H @ drop (length ?H) (chain_bytes (p # ps))" by blast
  note sh = same_shape_fields [OF r(2)]
  have rc: "received 14 (r # ps)" by (rule received_head [OF q(1) r(3)]) (use sh ok in simp_all)
  have cb: "chain_bytes (r # ps) = ?H @ b" unfolding r(4) q(2) H using q(3) by simp
  have "length (chain_bytes (r # ps)) + length (concat bss) < 65536" unfolding cb using H assms(6) by simp
  note j = join_fragments_spec [OF rc assms(4) this]
  have l: "length (join_fragments (r # ps) fs) = sum_list (map (length \<circ> fg_pbuf) (f # fs))" unfolding j(3) by (simp add: p)
  have "unat (pbuf_clen (join_fragments (r # ps) fs)) = length (join_fragments (r # ps) fs)" by (rule clen_small) (use l assms(7) in simp)
  then have "ucast (pbuf_clen (join_fragments (r # ps) fs)) = (of_nat (length (join_fragments (r # ps) fs)) :: u16)" by (metis of_nat_unat)
  then have "reassembled 0 None t = Inr (join_fragments (r # ps) fs, t\<lparr>reassdatagrams := ds, reass_free := reass_free t + 1,
      ip_reass_pbufcount := ip_reass_pbufcount t - of_nat (length (join_fragments (r # ps) fs))\<rparr>)"
    using r(1) assms(1,2) p by (simp add: reassembled_def Let_def ip_reass_dequeue_datagram_def)
  then show ?thesis using j(1,2) l unfolding cb by auto
qed

section \<open>A datagram in fragments\<close>

definition cut_datagram :: "chain list \<Rightarrow> u8 list list \<Rightarrow> u8 list list \<Rightarrow> bool" where
  "cut_datagram cs hs bss \<longleftrightarrow> length cs = length bss \<and> length hs = length bss \<and> 2 \<le> length bss \<and> length (concat bss) + 20 < 65536
     \<and> (\<forall>k<length bss. fragment_chain (cs ! k) (hs ! k) (bss ! k) \<and> bss ! k \<noteq> [] \<and> hlen_of (hs ! k) = 20
          \<and> IP_ADDRESSES_AND_ID_MATCH (hs ! k) (hs ! 0) \<and> of_be16 (drop 2 (hs ! k)) = of_nat (20 + length (bss ! k))
          \<and> h_offset (hs ! k) = of_nat (length (concat (take k bss))) \<and> (h_last (hs ! k) \<longleftrightarrow> Suc k = length bss))"

lemma match_refl [simp]: "IP_ADDRESSES_AND_ID_MATCH h h"
  by (simp add: IP_ADDRESSES_AND_ID_MATCH_def)

lemma match_sym: "IP_ADDRESSES_AND_ID_MATCH a b \<Longrightarrow> IP_ADDRESSES_AND_ID_MATCH b a"
  by (simp add: IP_ADDRESSES_AND_ID_MATCH_def)

lemma match_trans: "IP_ADDRESSES_AND_ID_MATCH a b \<Longrightarrow> IP_ADDRESSES_AND_ID_MATCH b c \<Longrightarrow> IP_ADDRESSES_AND_ID_MATCH a c"
  by (simp add: IP_ADDRESSES_AND_ID_MATCH_def)

lemma find_datagram_match: "IP_ADDRESSES_AND_ID_MATCH h h' \<Longrightarrow> find_datagram h i ds = find_datagram h' i ds"
  by (induction ds arbitrary: i) (auto simp: IP_ADDRESSES_AND_ID_MATCH_def)

lemma offset_zero: "(x AND IP_OFFMASK) * 8 = 0 \<longleftrightarrow> x AND IP_OFFMASK = (0 :: u16)"
proof
  assume a: "(x AND IP_OFFMASK) * 8 = 0"
  have "x AND IP_OFFMASK \<le> IP_OFFMASK" by (rule word_and_le1)
  then have "unat (x AND IP_OFFMASK) \<le> 8191" by (simp add: word_le_nat_alt)
  then have "unat ((x AND IP_OFFMASK) * 8) = unat (x AND IP_OFFMASK) * 8" by (simp add: unat_word_ariths)
  then have "unat (x AND IP_OFFMASK) = 0" unfolding a by simp
  then show "x AND IP_OFFMASK = 0" by (simp add: unat_eq_0)
qed simp

text \<open>Where the \<open>k\<close>-th piece begins, and its fragment.\<close>

definition pos :: "u8 list list \<Rightarrow> nat \<Rightarrow> nat" where "pos bss k = length (concat (take k bss))"

definition piece :: "chain list \<Rightarrow> u8 list list \<Rightarrow> nat \<Rightarrow> fragment" where
  "piece cs hs k = \<lparr>fg_start = h_offset (hs ! k), fg_end = h_end (hs ! k), fg_pbuf = cs ! k\<rparr>"

lemma cutD:
  assumes "cut_datagram cs hs bss"
  shows "length cs = length bss" "length hs = length bss" "2 \<le> length bss" "length (concat bss) + 20 < 65536"
  and "k < length bss \<Longrightarrow> fragment_chain (cs ! k) (hs ! k) (bss ! k)" "k < length bss \<Longrightarrow> bss ! k \<noteq> []" "k < length bss \<Longrightarrow> hlen_of (hs ! k) = 20"
    "k < length bss \<Longrightarrow> IP_ADDRESSES_AND_ID_MATCH (hs ! k) (hs ! 0)" "k < length bss \<Longrightarrow> of_be16 (drop 2 (hs ! k)) = of_nat (20 + length (bss ! k))"
    "k < length bss \<Longrightarrow> h_offset (hs ! k) = of_nat (pos bss k)" "k < length bss \<Longrightarrow> h_last (hs ! k) \<longleftrightarrow> Suc k = length bss"
  using assms unfolding cut_datagram_def pos_def by blast+

lemma pos_Suc: "k < length bss \<Longrightarrow> pos bss (Suc k) = pos bss k + length (bss ! k)"
  by (simp add: pos_def take_Suc_conv_app_nth)

lemma pos_all: "pos bss (length bss) = length (concat bss)"
  by (simp add: pos_def)

lemma pos_mono: "j < k \<Longrightarrow> k \<le> length bss \<Longrightarrow> pos bss (Suc j) \<le> pos bss k"
proof (induction k)
  case (Suc k)
  then show ?case using pos_Suc [of k bss] by (cases "j = k") auto
qed simp

lemma pos_less:
  assumes "cut_datagram cs hs bss" "j < k" "k \<le> length bss"
  shows "pos bss j < pos bss k"
proof -
  have "j < length bss" using assms(2,3) by simp
  then have "0 < length (bss ! j)" "pos bss (Suc j) = pos bss j + length (bss ! j)" using cutD(6) [OF assms(1)] pos_Suc by simp_all
  then show ?thesis using pos_mono [OF assms(2,3)] by linarith
qed

lemma pos_bound: "cut_datagram cs hs bss \<Longrightarrow> k \<le> length bss \<Longrightarrow> pos bss k + 20 < 65536"
  using pos_less [of cs hs bss k "length bss"] pos_all [of bss] cutD(4) [of cs hs bss] by (cases "k = length bss") auto

lemma piece_start: "cut_datagram cs hs bss \<Longrightarrow> k < length bss \<Longrightarrow> unat (fg_start (piece cs hs k)) = pos bss k"
  using cutD(10) [of cs hs bss k] pos_bound [of cs hs bss k] by (simp add: piece_def unat_of_nat take_bit_nat_def)

lemma piece_end:
  assumes "cut_datagram cs hs bss" "k < length bss"
  shows "unat (fg_end (piece cs hs k)) = pos bss (Suc k)" "fg_end (piece cs hs k) = of_nat (pos bss (Suc k))"
proof -
  have "(of_nat (20 + length (bss ! k)) :: u16) - 20 = of_nat (length (bss ! k))" by simp
  then show e: "fg_end (piece cs hs k) = of_nat (pos bss (Suc k))"
    using cutD(9,10) [OF assms] pos_Suc [OF assms(2)] by (simp add: piece_def h_end_def)
  show "unat (fg_end (piece cs hs k)) = pos bss (Suc k)"
    unfolding e using pos_bound [OF assms(1), of "Suc k"] assms(2) by (simp add: unat_of_nat take_bit_nat_def)
qed

lemma piece_pbuf [simp]: "fg_pbuf (piece cs hs k) = cs ! k"
  by (simp add: piece_def)

lemma piece_apart: "cut_datagram cs hs bss \<Longrightarrow> j < k \<Longrightarrow> k < length bss \<Longrightarrow> apart (piece cs hs j) (piece cs hs k)"
  using pos_less [of cs hs bss j k] pos_mono [of j k bss] piece_start [of cs hs bss j] piece_start [of cs hs bss k] piece_end(1) [of cs hs bss j]
  by (simp add: apart_def word_less_nat_alt word_le_nat_alt)

lemma piece_no_holes: "cut_datagram cs hs bss \<Longrightarrow> j \<le> length bss \<Longrightarrow> no_holes (map (piece cs hs) [i..<j])"
proof (induction "j - i" arbitrary: i)
  case (Suc n)
  then have ij: "i < j" by simp
  then have u: "[i..<j] = i # [Suc i..<j]" by (rule upt_conv_Cons)
  show ?case
  proof (cases "Suc i < j")
    case True
    then have v: "[Suc i..<j] = Suc i # [Suc (Suc i)..<j]" by (rule upt_conv_Cons)
    have "unat (fg_end (piece cs hs i)) = unat (fg_start (piece cs hs (Suc i)))"
      using piece_start [OF Suc.prems(1), of "Suc i"] piece_end(1) [OF Suc.prems(1), of i] True Suc.prems(2) by simp
    then have "fg_end (piece cs hs i) = fg_start (piece cs hs (Suc i))" by (simp add: word_unat_eq_iff)
    moreover have "no_holes (map (piece cs hs) [Suc i..<j])" using Suc.hyps(1) [of "Suc i"] Suc.hyps(2) Suc.prems by simp
    ultimately show ?thesis unfolding u unfolding v by simp
  next
    case False
    then show ?thesis unfolding u by simp
  qed
qed simp

text \<open>The fragments of which the numbers are in \<open>A\<close>, and the place of another one among them.\<close>

definition pieces :: "chain list \<Rightarrow> u8 list list \<Rightarrow> nat \<Rightarrow> nat set \<Rightarrow> fragment list" where
  "pieces cs hs n A = map (piece cs hs) (filter (\<lambda>k. k \<in> A) [0..<n])"

lemma pieces_split:
  assumes "k < n" "k \<notin> A"
  shows "\<exists>as bs. pieces cs hs n A = as @ bs \<and> pieces cs hs n (insert k A) = as @ piece cs hs k # bs
    \<and> (\<forall>g\<in>set as. \<exists>j<k. g = piece cs hs j) \<and> (\<forall>g\<in>set bs. \<exists>j>k. j < n \<and> g = piece cs hs j)"
proof -
  have u: "[0..<n] = [0..<k] @ k # [Suc k..<n]" using assms(1) by (metis upt_add_eq_append upt_conv_Cons less_imp_le zero_le le_add_diff_inverse)
  have f: "filter (\<lambda>j. j = k \<or> j \<in> A) [0..<k] = filter (\<lambda>j. j \<in> A) [0..<k]"
    "filter (\<lambda>j. j = k \<or> j \<in> A) [Suc k..<n] = filter (\<lambda>j. j \<in> A) [Suc k..<n]"
    by (rule filter_cong; auto)+
  let ?as = "map (piece cs hs) (filter (\<lambda>j. j \<in> A) [0..<k])" and ?bs = "map (piece cs hs) (filter (\<lambda>j. j \<in> A) [Suc k..<n])"
  have "pieces cs hs n A = ?as @ ?bs" "pieces cs hs n (insert k A) = ?as @ piece cs hs k # ?bs"
    using assms(2) unfolding pieces_def u by (simp_all add: f)
  moreover have "\<forall>g\<in>set ?as. \<exists>j<k. g = piece cs hs j" by auto
  moreover have "\<forall>g\<in>set ?bs. \<exists>j>k. j < n \<and> g = piece cs hs j" by (auto simp: Suc_le_eq)
  ultimately show ?thesis by blast
qed

text \<open>Some of the fragments of a datagram have arrived, but not the last one.\<close>

definition pieces_wait :: "chain list \<Rightarrow> u8 list list \<Rightarrow> nat \<Rightarrow> nat set \<Rightarrow> 'a reass_st_scheme \<Rightarrow> 'a reass_st_scheme \<Rightarrow> bool" where
  "pieces_wait cs hs n A s0 s \<longleftrightarrow> (\<exists>d. s = s0\<lparr>reassdatagrams := d # reassdatagrams s0,
       ip_reass_pbufcount := ip_reass_pbufcount s0 + of_nat (\<Sum>k\<in>A. length (cs ! k)), reass_free := reass_free s0 - 1\<rparr>
     \<and> rd_p d = pieces cs hs n A \<and> rd_flags d = 0 \<and> length (rd_iphdr d) = 20 \<and> IP_ADDRESSES_AND_ID_MATCH (rd_iphdr d) (hs ! 0)
     \<and> (if 0 \<in> A then rd_iphdr d = hs ! 0 else of_be16 (drop 6 (rd_iphdr d)) AND IP_OFFMASK \<noteq> 0))"

text \<open>The queue has room for the first \<open>m\<close> of them.\<close>

definition pieces_fit :: "nat \<Rightarrow> chain list \<Rightarrow> 'a reass_st_scheme \<Rightarrow> bool" where
  "pieces_fit m cs s \<longleftrightarrow> unat (ip_reass_pbufcount s) + (\<Sum>k<m. length (cs ! k)) \<le> 10"

lemma pieces_fit_less: "pieces_fit m cs s \<Longrightarrow> n \<le> m \<Longrightarrow> pieces_fit n cs s"
  using sum_mono2 [of "{..<m}" "{..<n}" "\<lambda>k. length (cs ! k)"] by (simp add: pieces_fit_def)

lemma pieces_count:
  assumes "pieces_fit m cs s" "A \<subseteq> {..<m}"
  shows "unat (ip_reass_pbufcount s + of_nat (\<Sum>k\<in>A. length (cs ! k))) = unat (ip_reass_pbufcount s) + (\<Sum>k\<in>A. length (cs ! k))"
    "k < m \<Longrightarrow> k \<notin> A \<Longrightarrow> unat (ip_reass_pbufcount s + of_nat (\<Sum>k\<in>A. length (cs ! k))) + length (cs ! k) \<le> 10"
proof -
  have f: "finite A" using assms(2) by (rule finite_subset) simp
  have "(\<Sum>k\<in>A. length (cs ! k)) \<le> (\<Sum>k<m. length (cs ! k))" using assms(2) by (intro sum_mono2) auto
  then have "unat (ip_reass_pbufcount s) + (\<Sum>k\<in>A. length (cs ! k)) < 65536" using assms(1) by (simp add: pieces_fit_def)
  then show e: "unat (ip_reass_pbufcount s + of_nat (\<Sum>k\<in>A. length (cs ! k))) = unat (ip_reass_pbufcount s) + (\<Sum>k\<in>A. length (cs ! k))"
    by (simp add: unat_word_ariths unat_of_nat take_bit_nat_def del: of_nat_sum)
  show "unat (ip_reass_pbufcount s + of_nat (\<Sum>k\<in>A. length (cs ! k))) + length (cs ! k) \<le> 10" if "k < m" "k \<notin> A"
  proof -
    have "(\<Sum>k\<in>insert k A. length (cs ! k)) \<le> (\<Sum>k<m. length (cs ! k))" using assms(2) that(1) by (intro sum_mono2) auto
    then show ?thesis unfolding e using assms(1) f that(2) by (simp add: pieces_fit_def)
  qed
qed

lemma piece_header:
  assumes "cut_datagram cs hs bss" "k < length bss"
  shows "length (hs ! k) = 20" "of_be16 (drop 6 (hs ! k)) AND IP_OFFMASK = 0 \<longleftrightarrow> k = 0" "h_offset (hs ! k) = 0 \<longleftrightarrow> k = 0"
proof -
  show "length (hs ! k) = 20" using cutD(5) [OF assms] by (simp add: fragment_chain_def)
  have "unat (h_offset (hs ! k)) = pos bss k" using piece_start [OF assms] by (simp add: piece_def)
  moreover have "0 < pos bss k" if "0 < k" using pos_less [OF assms(1) that] assms(2) by simp
  moreover have "pos bss 0 = 0" by (simp add: pos_def)
  ultimately show "h_offset (hs ! k) = 0 \<longleftrightarrow> k = 0" by (metis gr0I less_numeral_extra(3) unat_eq_0)
  then show "of_be16 (drop 6 (hs ! k)) AND IP_OFFMASK = 0 \<longleftrightarrow> k = 0" unfolding h_offset_def offset_zero .
qed

lemma add_fragment_fields [simp]:
  "rd_p (add_fragment h d fs) = fs" "rd_iphdr (add_fragment h d fs) = rd_iphdr d"
  "rd_flags (add_fragment h d fs) = (if h_last h then rd_flags d OR IP_REASS_FLAG_LASTFRAG else rd_flags d)"
  "rd_datagram_len (add_fragment h d fs) = (if h_last h then h_end h else rd_datagram_len d)" "rd_timer (add_fragment h d fs) = rd_timer d"
  by (simp_all add: add_fragment_def noted_def)

lemma first_piece_waits:
  assumes "cut_datagram cs hs bss" "Suc n = length bss" "k < n" "pieces_fit n cs s"
    and "find_datagram (hs ! 0) 0 (reassdatagrams s) = None" "0 < reass_free s"
  shows "\<exists>t. ip_reass ot (cs ! k) s = Inr (None, t) \<and> pieces_wait cs hs n {k} s t"
proof -
  have k: "k < length bss" using assms(2,3) by simp
  note c = cutD [OF assms(1)]
  have nl: "\<not> h_last (hs ! k)" using c(11) [OF k] assms(2,3) by simp
  have fd: "find_datagram (hs ! k) 0 (reassdatagrams s) = None"
    using find_datagram_match [OF c(8) [OF k]] assms(5) by simp
  have cnt: "unat (ip_reass_pbufcount s) + length (cs ! k) \<le> 10"
    using pieces_count(2) [OF assms(4), of "{}" k] assms(3) by simp
  have nl2: "\<not> (h_last (hs ! k) \<and> h_offset (hs ! k) = 0)" using nl by simp
  note st = ip_reass_first [OF c(5) [OF k] c(7) [OF k] cnt fd assms(6) nl2, of ot]
  have ps: "pieces cs hs n {k} = [piece cs hs k]" using pieces_split [of k n "{}" cs hs] assms(3) by (auto simp: pieces_def)
  let ?d = "add_fragment (hs ! k) \<lparr>rd_p = [], rd_iphdr = hs ! k, rd_datagram_len = 0, rd_flags = 0, rd_timer = IP_REASS_MAXAGE\<rparr>
        [\<lparr>fg_start = h_offset (hs ! k), fg_end = h_end (hs ! k), fg_pbuf = cs ! k\<rparr>]"
  have d: "rd_p ?d = pieces cs hs n {k}" "rd_flags ?d = 0" "rd_iphdr ?d = hs ! k"
    unfolding ps by (simp_all add: nl piece_def)
  have "if 0 \<in> {k} then hs ! k = hs ! 0 else of_be16 (drop 6 (hs ! k)) AND IP_OFFMASK \<noteq> 0"
    using piece_header(2) [OF assms(1) k] by (cases "k = 0") simp_all
  then have "pieces_wait cs hs n {k} s (s\<lparr>reassdatagrams := ?d # reassdatagrams s,
      reass_free := reass_free s - 1, ip_reass_pbufcount := ip_reass_pbufcount s + of_nat (length (cs ! k))\<rparr>)"
    unfolding pieces_wait_def using d piece_header(1) [OF assms(1) k] c(8) [OF k] by (intro exI [of _ ?d]) (auto simp del: add_fragment_fields)
  then show ?thesis using st by blast
qed

lemma next_piece_waits:
  assumes "cut_datagram cs hs bss" "Suc n = length bss" "k < n" "pieces_fit n cs s0" "A \<subseteq> {..<n}" "k \<notin> A" "pieces_wait cs hs n A s0 s"
  shows "\<exists>t. ip_reass ot (cs ! k) s = Inr (None, t) \<and> pieces_wait cs hs n (insert k A) s0 t"
proof -
  have k: "k < length bss" using assms(2,3) by simp
  note c = cutD [OF assms(1)]
  obtain d where s: "s = s0\<lparr>reassdatagrams := d # reassdatagrams s0,
       ip_reass_pbufcount := ip_reass_pbufcount s0 + of_nat (\<Sum>k\<in>A. length (cs ! k)), reass_free := reass_free s0 - 1\<rparr>"
    and d: "rd_p d = pieces cs hs n A" "rd_flags d = 0" "length (rd_iphdr d) = 20" "IP_ADDRESSES_AND_ID_MATCH (rd_iphdr d) (hs ! 0)"
      "if 0 \<in> A then rd_iphdr d = hs ! 0 else of_be16 (drop 6 (rd_iphdr d)) AND IP_OFFMASK \<noteq> 0"
    using assms(7) unfolding pieces_wait_def by blast
  have fA: "finite A" using assms(5) by (rule finite_subset) simp
  have nl: "\<not> h_last (hs ! k)" using c(11) [OF k] assms(2,3) by simp
  have rs: "reassdatagrams s = d # reassdatagrams s0" unfolding s by simp
  have cnt: "unat (ip_reass_pbufcount s) + length (cs ! k) \<le> 10" using pieces_count(2) [OF assms(4,5), of k] assms(3,6) unfolding s by simp
  have mt: "IP_ADDRESSES_AND_ID_MATCH (rd_iphdr d) (hs ! k)" using match_trans [OF d(4) match_sym [OF c(8) [OF k]]] .
  obtain as bs where ab: "pieces cs hs n A = as @ bs" "pieces cs hs n (insert k A) = as @ piece cs hs k # bs"
    "\<forall>g\<in>set as. \<exists>j<k. g = piece cs hs j" "\<forall>g\<in>set bs. \<exists>j>k. j < n \<and> g = piece cs hs j"
    using pieces_split [OF assms(3,6), of cs hs] by blast
  have "\<forall>g\<in>set as. apart g (piece cs hs k)"
  proof
    fix g assume "g \<in> set as"
    then obtain j where "j < k" "g = piece cs hs j" using ab(3) by blast
    then show "apart g (piece cs hs k)" using piece_apart [OF assms(1), of j k] k by simp
  qed
  moreover have "\<forall>g\<in>set bs. apart (piece cs hs k) g"
  proof
    fix g assume "g \<in> set bs"
    then obtain j where "k < j" "j < n" "g = piece cs hs j" using ab(4) by blast
    then show "apart (piece cs hs k) g" using piece_apart [OF assms(1), of k j] assms(2) by simp
  qed
  ultimately obtain v where ins: "insert_fragment (piece cs hs k) None True (rd_p d) = Some (as, piece cs hs k # bs, v)"
    using insert_fragment_place [of as "piece cs hs k" bs None True] unfolding d(1) ab(1) by auto
  let ?d = "add_fragment (hs ! k) (with_header (hs ! k) d) (as @ piece cs hs k # bs)"
  have fl: "rd_flags ?d = 0" using nl d(2) by simp
  have st: "ip_reass ot (cs ! k) s = Inr (None, s\<lparr>ip_reass_pbufcount := ip_reass_pbufcount s + of_nat (length (cs ! k)),
      reassdatagrams := ?d # reassdatagrams s0\<rparr>)"
    using ip_reass_next [OF c(5) [OF k] c(7) [OF k] cnt rs mt _ refl refl, of as "piece cs hs k # bs" v ot] ins fl by (simp add: piece_def)
  have hd: "rd_p ?d = pieces cs hs n (insert k A)" "rd_iphdr ?d = rd_iphdr (with_header (hs ! k) d)" using ab(2) by simp_all
  have ih: "length (rd_iphdr ?d) = 20 \<and> IP_ADDRESSES_AND_ID_MATCH (rd_iphdr ?d) (hs ! 0)
    \<and> (if 0 \<in> insert k A then rd_iphdr ?d = hs ! 0 else of_be16 (drop 6 (rd_iphdr ?d)) AND IP_OFFMASK \<noteq> 0)"
    unfolding hd(2) with_header_def using d(3-5) piece_header [OF assms(1) k] c(8) [OF k] assms(6) by (cases "k = 0") auto
  have "pieces_wait cs hs n (insert k A) s0 (s\<lparr>ip_reass_pbufcount := ip_reass_pbufcount s + of_nat (length (cs ! k)),
      reassdatagrams := ?d # reassdatagrams s0\<rparr>)"
    unfolding pieces_wait_def using hd(1) ih fl fA assms(6) by (intro exI [of _ ?d]) (simp add: s add_ac del: add_fragment_fields)
  then show ?thesis using st by blast
qed

text \<open>The results for a sequence of packets.\<close>

fun reass_list :: "'a reass_st_scheme others \<Rightarrow> chain list \<Rightarrow> 'a reass_st_scheme \<Rightarrow> (chain option list \<times> 'a reass_st_scheme) result" where
  "reass_list ot [] s = Inr ([], s)"
| "reass_list ot (c # cs) s = and_then (ip_reass ot c s) (\<lambda>(r, s). and_then (reass_list ot cs s) (\<lambda>(rs, s). Inr (r # rs, s)))"

lemma reass_list_snoc:
  assumes "reass_list ot cs s = Inr (rs, t)" "ip_reass ot c t = Inr (r, u)"
  shows "reass_list ot (cs @ [c]) s = Inr (rs @ [r], u)"
  using assms by (induction cs arbitrary: s rs) (auto simp: and_then_Inr_iff)

lemma pieces_arrive:
  assumes "cut_datagram cs hs bss" "Suc n = length bss" "pieces_fit n cs s0"
    and "distinct ks" "set ks \<subseteq> {..<n}" "A \<subseteq> {..<n}" "A \<inter> set ks = {}" "pieces_wait cs hs n A s0 s"
  shows "\<exists>t. reass_list ot (map ((!) cs) ks) s = Inr (replicate (length ks) None, t) \<and> pieces_wait cs hs n (A \<union> set ks) s0 t"
  using assms(4-)
proof (induction ks arbitrary: A s)
  case (Cons k ks)
  have k: "k < n" "k \<notin> A" using Cons.prems(2,4) by auto
  obtain t where t: "ip_reass ot (cs ! k) s = Inr (None, t)" "pieces_wait cs hs n (insert k A) s0 t"
    using next_piece_waits [OF assms(1,2) k(1) assms(3) Cons.prems(3) k(2) Cons.prems(5)] by blast
  have p: "distinct ks" "set ks \<subseteq> {..<n}" "insert k A \<subseteq> {..<n}" "insert k A \<inter> set ks = {}" using Cons.prems(1-4) k(1) by auto
  have u: "A \<union> set (k # ks) = insert k A \<union> set ks" by auto
  show ?case using Cons.IH [OF p t(2)] t(1) unfolding u by auto
qed simp

lemma last_piece_completes:
  assumes "cut_datagram cs hs bss" "Suc n = length bss" "pieces_fit (length cs) cs s0" "pieces_wait cs hs n {..<n} s0 s" "0 < reass_free s0"
  shows "\<exists>r. ip_reass ot (cs ! n) s = Inr (Some r, s0) \<and> received 14 r
    \<and> chain_bytes r = set_ip_fields (of_nat (length (concat bss) + 20)) 0 (hs ! 0) @ concat bss
    \<and> length r = (\<Sum>k<length cs. length (cs ! k))"
proof -
  note c = cutD [OF assms(1)]
  have k: "n < length bss" "0 < n" using assms(2) c(3) by simp_all
  then have b: "0 < length bss" "bss \<noteq> []" by auto
  obtain d where s: "s = s0\<lparr>reassdatagrams := d # reassdatagrams s0,
       ip_reass_pbufcount := ip_reass_pbufcount s0 + of_nat (\<Sum>k<n. length (cs ! k)), reass_free := reass_free s0 - 1\<rparr>"
    and d0: "rd_p d = pieces cs hs n {..<n}" "rd_flags d = 0" "length (rd_iphdr d) = 20"
      "if 0 \<in> {..<n} then rd_iphdr d = hs ! 0 else of_be16 (drop 6 (rd_iphdr d)) AND IP_OFFMASK \<noteq> 0"
    using assms(4) unfolding pieces_wait_def by blast
  have d: "rd_p d = pieces cs hs n {..<n}" "rd_flags d = 0" "length (rd_iphdr d) = 20" "rd_iphdr d = hs ! 0"
    using d0 k(2) by simp_all
  have la: "h_last (hs ! n)" using c(11) [OF k(1)] assms(2) by simp
  have rs: "reassdatagrams s = d # reassdatagrams s0" unfolding s by simp
  have sub: "{..<n} \<subseteq> {..<length cs}" using k(1) c(1) by auto
  have cnt: "unat (ip_reass_pbufcount s) + length (cs ! n) \<le> 10" using pieces_count(2) [OF assms(3) sub, of n] k(1) c(1) unfolding s by simp
  have mt: "IP_ADDRESSES_AND_ID_MATCH (rd_iphdr d) (hs ! n)" unfolding d(4) by (rule match_sym [OF c(8) [OF k(1)]])
  let ?as = "map (piece cs hs) [0..<n]" and ?f = "piece cs hs n"
  have P: "rd_p d = ?as" unfolding d(1) pieces_def by (simp add: filter_True)
  have all: "?as @ [?f] = map (piece cs hs) [0..<length bss]" unfolding assms(2) [symmetric] by simp
  have "\<forall>g\<in>set ?as. apart g ?f" using piece_apart [OF assms(1) _ k(1)] by auto
  then have ins: "insert_fragment ?f None True (rd_p d) = Some (?as, [?f], no_holes (?as @ [?f]))"
    using insert_fragment_place [of ?as ?f "[]" None True] unfolding P by simp
  have nh: "no_holes (?as @ [?f])" unfolding all using piece_no_holes [OF assms(1), of "length bss" 0] by simp
  have u: "[0..<length bss] = 0 # [1..<length bss]" using upt_conv_Cons [of 0 "length bss"] less_trans [OF k(2,1)] by (simp only: One_nat_def)
  have head: "?as @ [?f] = piece cs hs 0 # map (piece cs hs) [1..<length bss]"
    unfolding all u by simp
  have st0: "fg_start (hd (?as @ [?f])) = 0" unfolding head using piece_header(3) [OF assms(1) b(1)] by (simp add: piece_def)
  let ?d = "add_fragment (hs ! n) (with_header (hs ! n) d) (?as @ [?f])"
  let ?t = "s\<lparr>ip_reass_pbufcount := ip_reass_pbufcount s + of_nat (length (cs ! n)), reassdatagrams := ?d # reassdatagrams s0\<rparr>"
  have wh: "with_header (hs ! n) d = d" using piece_header(2) [OF assms(1) k(1)] k(2) by (simp add: with_header_def)
  have fl: "rd_flags ?d AND IP_REASS_FLAG_LASTFRAG \<noteq> 0" unfolding wh using la d(2) by simp
  have ent: "ip_reass ot (cs ! n) s = and_then (reassembled 0 None ?t) (\<lambda>(c, s). Inr (Some c, s))"
    using ip_reass_next [OF c(5) [OF k(1)] c(7) [OF k(1)] cnt rs mt _ refl refl, of ?as "[?f]" "no_holes (?as @ [?f])" ot] ins nh st0 fl
    by (simp add: piece_def)
  have dp: "rd_p ?d = piece cs hs 0 # map (piece cs hs) [1..<length bss]" using head by simp
  have b0: "bss = bss ! 0 # map ((!) bss) [1..<length bss]"
    using map_nth [of bss] unfolding u by simp
  have fc: "fragment_chain (fg_pbuf (piece cs hs 0)) (hs ! 0) (bss ! 0)" using c(5) [OF b(1)] by simp
  have la2: "list_all2 (\<lambda>f bs. \<exists>h. fragment_chain (fg_pbuf f) h bs) (map (piece cs hs) [1..<length bss]) (map ((!) bss) [1..<length bss])"
  proof -
    have "\<exists>h. fragment_chain (cs ! k) h (bss ! k)" if "k < length bss" for k using c(5) [OF that] by blast
    then show ?thesis by (simp add: list_all2_map1 list_all2_map2 list_all2_same)
  qed
  have sm: "sum_list (map (length \<circ> fg_pbuf) (piece cs hs 0 # map (piece cs hs) [1..<length bss])) = (\<Sum>k<length cs. length (cs ! k))"
  proof -
    have "sum_list (map (length \<circ> fg_pbuf) (map (piece cs hs) [0..<length bss])) = (\<Sum>k<length bss. length (cs ! k))"
      by (simp add: comp_def interv_sum_list_conv_sum_set_nat atLeast0LessThan)
    then show ?thesis unfolding all [symmetric] head c(1) by simp
  qed
  have len: "length (bss ! 0 @ concat (map ((!) bss) [1..<length bss])) + 20 < 65536"
    using c(4) b0 by (metis concat.simps(2))
  have ih: "length (rd_iphdr ?d) = 20" using d(3) wh by simp
  have le: "sum_list (map (length \<circ> fg_pbuf) (piece cs hs 0 # map (piece cs hs) [1..<length bss])) \<le> 10"
    unfolding sm using assms(3) by (simp add: pieces_fit_def)
  have rt: "reassdatagrams ?t = ?d # reassdatagrams s0" by simp
  from reassembled_head [OF rt dp fc la2 ih len le] obtain r where
    r: "reassembled 0 None ?t = Inr (r, ?t\<lparr>reassdatagrams := reassdatagrams s0, reass_free := reass_free ?t + 1,
      ip_reass_pbufcount := ip_reass_pbufcount ?t - of_nat (length r)\<rparr>)" "received 14 r"
    "chain_bytes r = set_ip_fields (rd_datagram_len ?d + 20) 0 (rd_iphdr ?d) @ bss ! 0 @ concat (map ((!) bss) [1..<length bss])"
    "length r = (\<Sum>k<length cs. length (cs ! k))" unfolding sm by blast
  have "rd_datagram_len ?d + 20 = of_nat (length (concat bss) + 20)"
    using piece_end(2) [OF assms(1) k(1)] la unfolding assms(2) pos_all by (simp add: piece_def)
  moreover have "bss ! 0 @ concat (map ((!) bss) [1..<length bss]) = concat bss" using b0 by (metis concat.simps(2))
  ultimately have cb: "chain_bytes r = set_ip_fields (of_nat (length (concat bss) + 20)) 0 (hs ! 0) @ concat bss"
    unfolding r(3) using d(4) wh by simp
  have cnt2: "ip_reass_pbufcount ?t - of_nat (length r) = ip_reass_pbufcount s0"
  proof -
    have "(\<Sum>k<length cs. length (cs ! k)) = (\<Sum>k<n. length (cs ! k)) + length (cs ! n)" unfolding c(1) assms(2) [symmetric] by simp
    then show ?thesis unfolding r(4) s by simp
  qed
  have "?t\<lparr>reassdatagrams := reassdatagrams s0, reass_free := reass_free ?t + 1,
      ip_reass_pbufcount := ip_reass_pbufcount ?t - of_nat (length r)\<rparr> = s0"
    unfolding cnt2 using assms(5) unfolding s by simp
  then show ?thesis unfolding ent r(1) using r(2,4) cb by simp
qed

text \<open>A reordering of all pieces but the last, as numbers.\<close>

lemma reordered_pieces:
  assumes "cut_datagram cs hs bss" "mset as = mset (butlast cs)"
  shows "\<exists>n j js. Suc n = length bss \<and> as = map ((!) cs) (j # js) \<and> distinct (j # js) \<and> set (j # js) = {..<n}"
proof -
  note c = cutD [OF assms(1)]
  obtain n where n: "Suc n = length bss" "0 < n" using c(3) by (cases "length bss") auto
  have "list_all2 (\<lambda>a k. a = cs ! k) (butlast cs) [0..<n]"
    using n(1) c(1) by (auto simp: list_all2_conv_all_nth nth_butlast)
  from list_all2_reorder_left_invariance [OF this assms(2)] obtain ks where
    k: "list_all2 (\<lambda>a k. a = cs ! k) as ks" "mset ks = mset [0..<n]" by blast
  have as: "as = map ((!) cs) ks" using k(1) by (simp add: list_all2_conv_all_nth list_eq_iff_nth_eq)
  have ks: "distinct ks" "set ks = {..<n}"
    using mset_eq_setD [OF k(2)] mset_eq_imp_distinct_iff [OF k(2)] by (simp_all add: atLeast0LessThan)
  have "0 \<in> set ks" unfolding ks(2) using n(2) by simp
  then obtain j js where "ks = j # js" by (cases ks) simp_all
  then show ?thesis using n(1) as ks by blast
qed

lemma reassembled_header:
  assumes "chain_bytes r = set_ip_fields (of_nat (length d + 20)) 0 h @ d" "length h = 20" "length d + 20 < 65536"
  shows "unat (of_be16 (drop 2 (chain_bytes r))) = length (chain_bytes r)" "of_be16 (drop 6 (chain_bytes r)) = 0"
    "inet_chksum (take 20 (chain_bytes r)) = 0"
  using assms set_ip_fields_header(1-3) [OF assms(2)] by (simp_all add: be16_prefix unat_of_nat take_bit_nat_def del: of_nat_add)

lemma datagram_reassembles:
  assumes "cut_datagram cs hs bss" "mset as = mset (butlast cs)" "pieces_fit (length cs) cs s"
    and "find_datagram (hs ! 0) 0 (reassdatagrams s) = None" "0 < reass_free s"
  shows "\<exists>r. reass_list ot (as @ [last cs]) s = Inr (replicate (length as) None @ [Some r], s) \<and> received 14 r
    \<and> chain_bytes r = set_ip_fields (of_nat (length (concat bss) + 20)) 0 (hs ! 0) @ concat bss"
proof -
  note c = cutD [OF assms(1)]
  obtain n j js where j: "Suc n = length bss" "as = map ((!) cs) (j # js)" "distinct (j # js)" "set (j # js) = {..<n}"
    using reordered_pieces [OF assms(1,2)] by blast
  have jn: "j < n" "distinct js" "set js \<subseteq> {..<n}" "{j} \<subseteq> {..<n}" "{j} \<inter> set js = {}" using j(3,4) by auto
  have fit: "pieces_fit n cs s" by (rule pieces_fit_less [OF assms(3)]) (use j(1) c(1) in simp)
  obtain t where t: "ip_reass ot (cs ! j) s = Inr (None, t)" "pieces_wait cs hs n {j} s t"
    using first_piece_waits [OF assms(1) j(1) jn(1) fit assms(4,5)] by blast
  obtain u where u: "reass_list ot (map ((!) cs) js) t = Inr (replicate (length js) None, u)" "pieces_wait cs hs n ({j} \<union> set js) s u"
    using pieces_arrive [OF assms(1) j(1) fit jn(2-5) t(2)] by blast
  have "{j} \<union> set js = {..<n}" using j(4) by simp
  then have w: "pieces_wait cs hs n {..<n} s u" using u(2) by simp
  obtain r where r: "ip_reass ot (cs ! n) u = Inr (Some r, s)" "received 14 r"
    "chain_bytes r = set_ip_fields (of_nat (length (concat bss) + 20)) 0 (hs ! 0) @ concat bss"
    using last_piece_completes [OF assms(1) j(1) assms(3) w assms(5)] by blast
  have "reass_list ot as s = Inr (replicate (length as) None, u)" using t(1) u(1) by (simp add: j(2))
  moreover have "last cs = cs ! n" using j(1) c(1) by (metis Zero_not_Suc diff_Suc_1 last_conv_nth list.size(3))
  ultimately show ?thesis using reass_list_snoc r by metis
qed

text \<open>C21: The fragments of a datagram, in whatever order they come as long as the last piece comes last, are reassembled: none of the
  others completes the datagram, the last one hands up the first fragment's header with the whole length, no offset and a checksum
  that comes out right, and all bytes in order, and the queue is as before.\<close>

theorem fragments_reassembled:
  assumes "cut_datagram cs hs bss" "mset as = mset (butlast cs)" "pieces_fit (length cs) cs s"
    and "find_datagram (hs ! 0) 0 (reassdatagrams s) = None" "0 < reass_free s"
  shows "\<exists>r. reass_list ot (as @ [last cs]) s = Inr (replicate (length as) None @ [Some r], s) \<and> received 14 r
    \<and> chain_bytes r = set_ip_fields (of_nat (length (concat bss) + 20)) 0 (hs ! 0) @ concat bss
    \<and> unat (of_be16 (drop 2 (chain_bytes r))) = length (chain_bytes r) \<and> of_be16 (drop 6 (chain_bytes r)) = 0
    \<and> inet_chksum (take 20 (chain_bytes r)) = 0"
proof -
  note c = cutD [OF assms(1)]
  have "0 < length bss" using c(3) by linarith
  then have "length (hs ! 0) = 20" by (rule piece_header(1) [OF assms(1)])
  then show ?thesis using datagram_reassembles [OF assms, of ot] reassembled_header c(4) by metis
qed

section \<open>There and back\<close>

fun chunks :: "u8 list \<Rightarrow> u8 list list" where
  "chunks d = (if d = [] then [] else take 1480 d # chunks (drop 1480 d))"

declare chunks.simps [simp del]

lemma chunks_facts: "concat (chunks d) = d" "\<forall>b\<in>set (chunks d). b \<noteq> []" "d \<noteq> [] \<Longrightarrow> chunks d \<noteq> []"
  by (induction d rule: chunks.induct; subst chunks.simps; simp)+

lemma chunks_two: "1480 < length d \<Longrightarrow> 2 \<le> length (chunks d)"
  by (subst chunks.simps, subst chunks.simps) auto

lemma chunks_pos: "k < length (chunks d) \<Longrightarrow> length (concat (take k (chunks d))) = 1480 * k"
proof (induction d arbitrary: k rule: chunks.induct)
  case (1 d)
  show ?case
  proof (cases k)
    case (Suc j)
    have d: "d \<noteq> []" using 1(2) by (subst (asm) chunks.simps) (auto split: if_splits)
    have e: "chunks d = take 1480 d # chunks (drop 1480 d)" using d by (subst chunks.simps) simp
    have j: "j < length (chunks (drop 1480 d))" using 1(2) Suc e by simp
    then have "drop 1480 d \<noteq> []" by (subst (asm) chunks.simps) (auto split: if_splits)
    then show ?thesis using 1(1) [OF d j] by (simp add: e Suc)
  qed simp
qed

lemma frag_packets_chunks:
  "list_all2 (\<lambda>k f. f = set_ip_fields (of_nat (length (chunks d ! k) + 20))
       (if Suc k = length (chunks d) then IP_OFFMASK AND of_nat (j + 185 * k) else (IP_OFFMASK AND of_nat (j + 185 * k)) OR IP_MF) h @ chunks d ! k)
     [0..<length (chunks d)] (frag_packets h 0 (of_nat j) d)"
proof (induction d arbitrary: j rule: chunks.induct)
  case (1 d)
  show ?case
  proof (cases "length d \<le> 1480")
    case True
    have e: "drop 1480 d = []" using True by simp
    show ?thesis using True by (simp add: chunks.simps [of d] frag_packets.simps [of h 0 "of_nat j" d] e chunks.simps [of "[]"])
  next
    case False
    then have d: "d \<noteq> []" "drop 1480 d \<noteq> []" by auto
    have e: "chunks d = take 1480 d # chunks (drop 1480 d)" using d by (subst chunks.simps) simp
    have ne: "chunks (drop 1480 d) \<noteq> []" using chunks_facts(3) [OF d(2)] .
    have f: "frag_packets h 0 (of_nat j) d = (set_ip_fields 1500 (0 OR (IP_OFFMASK AND of_nat j) OR IP_MF) h @ take 1480 d)
        # frag_packets h 0 (of_nat (j + 185)) (drop 1480 d)" using False d(1) by (subst frag_packets.simps) simp
    have u: "[0..<length (chunks d)] = 0 # map Suc [0..<length (chunks (drop 1480 d))]"
      unfolding e by (simp add: map_Suc_upt upt_conv_Cons del: upt_Suc)
    have a: "j + 185 + 185 * k = j + 185 * Suc k" for k by simp
    show ?thesis
      unfolding f u list_all2_Cons list_all2_map1 using 1 [OF d(1), of "j + 185", unfolded a] ne False
      by (simp add: e del: of_nat_add mult_Suc_right)
  qed
qed

lemma set_ip_fields_read:
  assumes "length h = 20"
  shows "of_be16 (drop 2 (set_ip_fields l j h)) = l" "of_be16 (drop 6 (set_ip_fields l j h)) = j" "hlen_of (set_ip_fields l j h) = hlen_of h"
    "IP_ADDRESSES_AND_ID_MATCH (set_ip_fields l j h) h"
  using assms by (simp_all add: set_ip_fields_def Let_def hlen_of_def IP_ADDRESSES_AND_ID_MATCH_def nth_append)

lemma offset_field:
  fixes w :: u16
  assumes "unat w \<le> 8191"
  shows "(IP_OFFMASK AND w) AND IP_OFFMASK = w" "((IP_OFFMASK AND w) OR IP_MF) AND IP_OFFMASK = w"
    "(IP_OFFMASK AND w) AND IP_MF = 0" "((IP_OFFMASK AND w) OR IP_MF) AND IP_MF \<noteq> 0"
proof -
  have m: "IP_OFFMASK = mask 13" by (simp add: mask_eq_exp_minus_1)
  have "unat (take_bit 13 w) = unat w" using assms by (simp add: unsigned_take_bit_eq take_bit_nat_def)
  then have w: "IP_OFFMASK AND w = w" unfolding m by (simp add: word_unat_eq_iff and.commute flip: take_bit_eq_mask)
  have z: "IP_MF AND IP_OFFMASK = 0" by simp
  show "(IP_OFFMASK AND w) AND IP_OFFMASK = w" using w by (simp add: and.commute)
  then show "((IP_OFFMASK AND w) OR IP_MF) AND IP_OFFMASK = w" by (simp add: bit.conj_disj_distrib2)
  have "(IP_OFFMASK AND w) AND IP_MF = w AND (IP_OFFMASK AND IP_MF)" by (simp only: ac_simps)
  then show zz: "(IP_OFFMASK AND w) AND IP_MF = 0" by simp
  have "((IP_OFFMASK AND w) OR IP_MF) AND IP_MF = ((IP_OFFMASK AND w) AND IP_MF) OR (IP_MF AND IP_MF)"
    by (rule bit.conj_disj_distrib2)
  then show "((IP_OFFMASK AND w) OR IP_MF) AND IP_MF \<noteq> 0" unfolding zz by simp
qed

lemma frag_packets_cut:
  assumes "length h = 20" "hlen_of h = 20" "1480 < length d" "length d + 20 < 65536"
    and "list_all2 (\<lambda>c f. received 14 c \<and> chain_bytes c = f \<and> 20 < unat (p_len (hd c))) cs (frag_packets h 0 0 d)"
  shows "\<exists>hs. cut_datagram cs hs (chunks d) \<and> IP_ADDRESSES_AND_ID_MATCH (hs ! 0) h \<and> (\<forall>l j. set_ip_fields l j (hs ! 0) = set_ip_fields l j h)"
proof -
  let ?n = "length (chunks d)" and ?fs = "frag_packets h 0 0 d"
  let ?l = "\<lambda>k. of_nat (length (chunks d ! k) + 20) :: u16"
  let ?j = "\<lambda>k. if Suc k = ?n then IP_OFFMASK AND of_nat (185 * k) else (IP_OFFMASK AND of_nat (185 * k)) OR IP_MF"
  let ?hs = "map (\<lambda>k. set_ip_fields (?l k) (?j k) h) [0..<?n]"
  have fr: "length ?fs = ?n" "\<And>k. k < ?n \<Longrightarrow> ?fs ! k = set_ip_fields (?l k) (?j k) h @ chunks d ! k"
    using frag_packets_chunks [of d 0 h] by (auto simp: list_all2_conv_all_nth)
  have cs: "length cs = ?n" "\<And>k. k < ?n \<Longrightarrow> received 14 (cs ! k) \<and> chain_bytes (cs ! k) = ?fs ! k \<and> 20 < unat (p_len (hd (cs ! k)))"
    using assms(5) fr(1) by (auto simp: list_all2_conv_all_nth)
  have two: "2 \<le> ?n" by (rule chunks_two [OF assms(3)])
  then have zero: "0 < ?n" by linarith
  have gh: "?hs ! k = set_ip_fields (?l k) (?j k) h" if "k < ?n" for k using that by simp
  have piece: "fragment_chain (cs ! k) (?hs ! k) (chunks d ! k) \<and> chunks d ! k \<noteq> [] \<and> hlen_of (?hs ! k) = 20
      \<and> IP_ADDRESSES_AND_ID_MATCH (?hs ! k) (?hs ! 0) \<and> of_be16 (drop 2 (?hs ! k)) = of_nat (20 + length (chunks d ! k))
      \<and> h_offset (?hs ! k) = of_nat (length (concat (take k (chunks d)))) \<and> (h_last (?hs ! k) \<longleftrightarrow> Suc k = ?n)" if k: "k < ?n" for k
  proof -
    have hk: "?hs ! k = set_ip_fields (?l k) (?j k) h" "?hs ! 0 = set_ip_fields (?l 0) (?j 0) h" using gh [OF k] gh [OF zero] .
    note rd = set_ip_fields_read [OF assms(1)]
    have "1480 * k \<le> length d"
    proof -
      have "length (concat (take k (chunks d))) \<le> length (concat (chunks d))"
        by (metis append_take_drop_id concat_append length_append le_add1)
      then show ?thesis using chunks_pos [OF k] chunks_facts(1) by simp
    qed
    then have b: "185 * k \<le> 8191" using assms(4) by simp
    have u: "unat (of_nat (185 * k) :: u16) = 185 * k" using b by (simp add: unat_of_nat take_bit_nat_def del: of_nat_mult)
    then have "unat (of_nat (185 * k) :: u16) \<le> 8191" using b by simp
    note off = offset_field [OF this]
    have "h_offset (?hs ! k) = of_nat (185 * k) * 8" unfolding h_offset_def hk rd(2) using off(1,2) by (cases "Suc k = ?n") simp_all
    also have "\<dots> = of_nat (length (concat (take k (chunks d))))" unfolding chunks_pos [OF k] by simp
    finally have o: "h_offset (?hs ! k) = of_nat (length (concat (take k (chunks d))))" .
    have "h_last (?hs ! k) \<longleftrightarrow> Suc k = ?n" unfolding h_last_def hk rd(2) using off(3,4) by (cases "Suc k = ?n") simp_all
    moreover have "fragment_chain (cs ! k) (?hs ! k) (chunks d ! k)"
      unfolding fragment_chain_def hk using cs(2) [OF k] fr(2) [OF k] assms(1) by simp
    moreover have "chunks d ! k \<noteq> []" using chunks_facts(2) [of d] nth_mem [OF k] by blast
    moreover have "IP_ADDRESSES_AND_ID_MATCH (?hs ! k) (?hs ! 0)" unfolding hk by (rule match_trans [OF rd(4) match_sym [OF rd(4)]])
    moreover have "of_be16 (drop 2 (?hs ! k)) = of_nat (20 + length (chunks d ! k))" "hlen_of (?hs ! k) = 20"
      unfolding hk rd(1,3) using assms(2) by (simp_all add: add.commute)
    ultimately show ?thesis using o by blast
  qed
  have "cut_datagram cs ?hs (chunks d)"
    unfolding cut_datagram_def chunks_facts(1) using cs(1) two assms(4) piece by simp
  moreover have "IP_ADDRESSES_AND_ID_MATCH (?hs ! 0) h" unfolding gh [OF zero] by (rule set_ip_fields_read(4) [OF assms(1)])
  moreover have "\<forall>l j. set_ip_fields l j (?hs ! 0) = set_ip_fields l j h" unfolding gh [OF zero] using set_ip_fields_again [OF assms(1)] by blast
  ultimately show ?thesis by (intro exI [of _ ?hs] conjI)
qed

text \<open>C13: Fragmentation and reassembly are inverse: the fragments \<open>ip_frag\<close> makes of a packet (property of \<open>IpFrag\<close>), received in any
  order with the last piece last, give back its header, with the whole length, no offset and a checksum that comes out right, and
  all its bytes.\<close>

theorem fragmentation_roundtrip:
  assumes "length h = 20" "hlen_of h = 20" "of_be16 (drop 6 h) = 0" "1480 < length d" "length d + 20 < 65536"
    and "list_all2 (\<lambda>c f. received 14 c \<and> chain_bytes c = f \<and> 20 < unat (p_len (hd c))) cs
      (frag_packets h (of_be16 (drop 6 h) AND IP_MF) (of_be16 (drop 6 h) AND IP_OFFMASK) d)"
    and "mset as = mset (butlast cs)" "pieces_fit (length cs) cs s" "find_datagram h 0 (reassdatagrams s) = None" "0 < reass_free s"
  shows "\<exists>r. reass_list ot (as @ [last cs]) s = Inr (replicate (length as) None @ [Some r], s) \<and> received 14 r
    \<and> chain_bytes r = set_ip_fields (of_nat (length d + 20)) 0 h @ d
    \<and> unat (of_be16 (drop 2 (chain_bytes r))) = length (chain_bytes r) \<and> of_be16 (drop 6 (chain_bytes r)) = 0
    \<and> inet_chksum (take 20 (chain_bytes r)) = 0"
proof -
  obtain hs where hs: "cut_datagram cs hs (chunks d)" "IP_ADDRESSES_AND_ID_MATCH (hs ! 0) h" "\<forall>l j. set_ip_fields l j (hs ! 0) = set_ip_fields l j h"
    using frag_packets_cut [OF assms(1,2,4,5), of cs] assms(3,6) by auto
  have "find_datagram (hs ! 0) 0 (reassdatagrams s) = None" using find_datagram_match [OF hs(2)] assms(9) by simp
  from datagram_reassembles [OF hs(1) assms(7,8) this assms(10), of ot] obtain r where
    "reass_list ot (as @ [last cs]) s = Inr (replicate (length as) None @ [Some r], s)" "received 14 r"
    "chain_bytes r = set_ip_fields (of_nat (length d + 20)) 0 h @ d"
    unfolding chunks_facts(1) using hs(3) by auto
  then show ?thesis using reassembled_header [OF _ assms(1,5)] by blast
qed

section \<open>A hole that is not seen\<close>

lemma reass_list_three:
  assumes "ip_reass ot a s = Inr (x, t)" "ip_reass ot b t = Inr (y, u)" "ip_reass ot c u = Inr (z, v)"
  shows "reass_list ot [a, b, c] s = Inr ([x, y, z], v)"
  using assms by simp

text \<open>C22: The check for holes misses the one before a fragment that is inserted between two others: when the first and the last
  fragment are there and one is inserted that touches the last but not the first, the datagram is handed up as complete, with a
  length in its header that its bytes fall short of.\<close>

theorem hole_accepted:
  assumes "fragment_chain c0 h0 b0" "fragment_chain c1 h1 b1" "fragment_chain c2 h2 b2"
    and "hlen_of h0 = 20" "hlen_of h1 = 20" "hlen_of h2 = 20"
    and "IP_ADDRESSES_AND_ID_MATCH h0 h1" "IP_ADDRESSES_AND_ID_MATCH h0 h2"
    and "of_be16 (drop 2 h0) = of_nat (20 + length b0)" "of_be16 (drop 2 h1) = of_nat (20 + length b1)" "of_be16 (drop 2 h2) = of_nat (20 + length b2)"
    and "h_offset h0 = 0" "h_offset h1 = of_nat (length b0 + gap)" "h_offset h2 = of_nat (length b0 + gap + length b1)"
    and "\<not> h_last h0" "\<not> h_last h1" "h_last h2" "0 < gap" "b1 \<noteq> []" "length b0 + gap + length b1 + length b2 + 20 < 65536"
    and "unat (ip_reass_pbufcount s) + length c0 + length c1 + length c2 \<le> 10" "find_datagram h0 0 (reassdatagrams s) = None" "0 < reass_free s"
  shows "\<exists>r. reass_list ot [c0, c2, c1] s = Inr ([None, None, Some r], s)
    \<and> chain_bytes r = set_ip_fields (of_nat (length b0 + gap + length b1 + length b2 + 20)) 0 h0 @ b0 @ b1 @ b2
    \<and> unat (of_be16 (drop 2 (chain_bytes r))) = length (chain_bytes r) + gap"
proof -
  define f0 where "f0 = \<lparr>fg_start = h_offset h0, fg_end = h_end h0, fg_pbuf = c0\<rparr>"
  define f1 where "f1 = \<lparr>fg_start = h_offset h1, fg_end = h_end h1, fg_pbuf = c1\<rparr>"
  define f2 where "f2 = \<lparr>fg_start = h_offset h2, fg_end = h_end h2, fg_pbuf = c2\<rparr>"
  note fd = f0_def f1_def f2_def
  let ?p1 = "length b0 + gap" and ?p2 = "length b0 + gap + length b1" and ?p3 = "length b0 + gap + length b1 + length b2"
  have e: "fg_start f0 = 0" "fg_end f0 = of_nat (length b0)" "fg_start f1 = of_nat ?p1" "fg_end f1 = of_nat ?p2" "fg_start f2 = of_nat ?p2" "h_end h2 = of_nat ?p3"
    using assms(9-14) by (simp_all add: fd h_end_def)
  have w: "unat (of_nat n :: u16) = n" if "n \<le> ?p3 + 20" for n using that assms(20) by (simp add: unat_of_nat take_bit_nat_def)
  have ap: "apart f0 f2" "apart f0 f1" "apart f1 f2"
    using w [of "length b0"] w [of ?p1] w [of ?p2] assms(18,19)
    unfolding apart_def e word_less_nat_alt word_le_nat_alt by (simp_all del: of_nat_add)
  have ne: "fg_end f0 \<noteq> fg_start f2"
  proof
    assume "fg_end f0 = fg_start f2"
    then have "unat (of_nat (length b0) :: u16) = unat (of_nat ?p2 :: u16)" unfolding e by (rule arg_cong)
    moreover have "unat (of_nat (length b0) :: u16) = length b0" "unat (of_nat ?p2 :: u16) = ?p2" by (rule w, simp)+
    ultimately show False using assms(18) by linarith
  qed
  have l: "length h0 = 20" using assms(1) by (simp add: fragment_chain_def)
  have o: "of_be16 (drop 6 h0) AND IP_OFFMASK = 0" using assms(12) unfolding h_offset_def offset_zero .
  let ?c = "ip_reass_pbufcount s"
  have u16: "unat (?c + of_nat n) = unat ?c + n" if "unat ?c + n \<le> 10" for n
    using that by (simp add: unat_word_ariths unat_of_nat take_bit_nat_def)
  define d0 where "d0 = add_fragment h0 \<lparr>rd_p = [], rd_iphdr = h0, rd_datagram_len = 0, rd_flags = 0, rd_timer = IP_REASS_MAXAGE\<rparr> [f0]"
  define s0 where "s0 = s\<lparr>reassdatagrams := d0 # reassdatagrams s, reass_free := reass_free s - 1, ip_reass_pbufcount := ?c + of_nat (length c0)\<rparr>"
  have n0: "unat ?c + length c0 \<le> 10" and nl: "\<not> (h_last h0 \<and> h_offset h0 = 0)" using assms(15,21) by simp_all
  have r0: "ip_reass ot c0 s = Inr (None, s0)"
    unfolding s0_def d0_def f0_def by (rule ip_reass_first [OF assms(1,4) n0 assms(22,23) nl])
  have d0: "rd_p d0 = [f0]" "rd_iphdr d0 = h0" "rd_flags d0 = 0" using assms(15) by (simp_all add: d0_def)
  define d2 where "d2 = add_fragment h2 (with_header h2 d0) ([f0] @ [f2])"
  define s2 where "s2 = s0\<lparr>ip_reass_pbufcount := ip_reass_pbufcount s0 + of_nat (length c2), reassdatagrams := d2 # reassdatagrams s\<rparr>"
  have wh: "with_header h d0 = d0" for h using d0(2) o by (simp add: with_header_def)
  have i2: "insert_fragment f2 None True (rd_p d0) = Some ([f0], [f2], no_holes [f0, f2])"
    using insert_fragment_place [of "[f0]" f2 "[]" None True] ap(1) d0(1) by simp
  have c2: "unat (ip_reass_pbufcount s0) + length c2 \<le> 10" using u16 [OF n0] assms(21) by (simp add: s0_def)
  have sd: "reassdatagrams s0 = d0 # reassdatagrams s" by (simp add: s0_def)
  have m2: "IP_ADDRESSES_AND_ID_MATCH (rd_iphdr d0) h2" using assms(8) d0(2) by simp
  have r2: "ip_reass ot c2 s0 = Inr (None, s2)"
    using ip_reass_next [OF assms(3,6) c2 sd m2 i2 [unfolded f2_def] refl refl, of ot] ne by (simp add: s2_def d2_def f2_def)
  have d2: "rd_p d2 = [f0, f2]" "rd_iphdr d2 = h0" "rd_flags d2 = 1" "rd_datagram_len d2 = of_nat ?p3"
    using assms(17) d0 wh e(6) by (simp_all add: d2_def)
  have i1: "insert_fragment f1 None True (rd_p d2) = Some ([f0], [f1, f2], True)"
    using insert_fragment_place [of "[f0]" f1 "[f2]" None True] ap(2,3) d2(1) by simp
  have "unat ?c + (length c0 + length c2) \<le> 10" using assms(21) by simp
  from u16 [OF this] have c1: "unat (ip_reass_pbufcount s2) + length c1 \<le> 10" using assms(21) by (simp add: s2_def s0_def add.assoc)
  have sd2: "reassdatagrams s2 = d2 # reassdatagrams s" by (simp add: s2_def)
  have m1: "IP_ADDRESSES_AND_ID_MATCH (rd_iphdr d2) h1" using assms(7) d2(2) by simp
  define d1 where "d1 = add_fragment h1 (with_header h1 d2) ([f0] @ [f1, f2])"
  define t where "t = s2\<lparr>ip_reass_pbufcount := ip_reass_pbufcount s2 + of_nat (length c1), reassdatagrams := d1 # reassdatagrams s\<rparr>"
  have wh2: "with_header h d2 = d2" for h using d2(2) o by (simp add: with_header_def)
  have d1: "rd_p d1 = f0 # [f1, f2]" "rd_iphdr d1 = h0" "rd_flags d1 = 1" "rd_datagram_len d1 = of_nat ?p3"
    using assms(16) d2 wh2 by (simp_all add: d1_def)
  have r1: "ip_reass ot c1 s2 = and_then (reassembled 0 None t) (\<lambda>(c, s). Inr (Some c, s))"
    using ip_reass_next [OF assms(2,5) c1 sd2 m1 i1 [unfolded f1_def] refl refl, of ot] d1(3) e
    by (simp add: t_def d1_def f1_def)
  have td: "reassdatagrams t = d1 # reassdatagrams s" by (simp add: t_def)
  have fc: "fragment_chain (fg_pbuf f0) h0 b0" using assms(1) by (simp add: f0_def)
  have la: "list_all2 (\<lambda>f bs. \<exists>h. fragment_chain (fg_pbuf f) h bs) [f1, f2] [b1, b2]" using assms(2,3) by (auto simp: fd)
  have lt: "length (b0 @ concat [b1, b2]) + 20 < 65536" "sum_list (map (length \<circ> fg_pbuf) (f0 # [f1, f2])) \<le> 10" "length (rd_iphdr d1) = 20"
    using assms(20,21) l d1(2) by (simp_all add: fd)
  from reassembled_head [OF td d1(1) fc la lt(3,1,2)] obtain r where
    r: "reassembled 0 None t = Inr (r, t\<lparr>reassdatagrams := reassdatagrams s, reass_free := reass_free t + 1,
      ip_reass_pbufcount := ip_reass_pbufcount t - of_nat (length r)\<rparr>)"
    "chain_bytes r = set_ip_fields (rd_datagram_len d1 + 20) 0 (rd_iphdr d1) @ b0 @ concat [b1, b2]"
    "length r = sum_list (map (length \<circ> fg_pbuf) (f0 # [f1, f2]))" by blast
  have "t\<lparr>reassdatagrams := reassdatagrams s, reass_free := reass_free t + 1, ip_reass_pbufcount := ip_reass_pbufcount t - of_nat (length r)\<rparr> = s"
    using r(3) assms(23) by (simp add: t_def s2_def s0_def fd)
  then have "ip_reass ot c1 s2 = Inr (Some r, s)" unfolding r1 r(1) by simp
  from reass_list_three [OF r0 r2 this] have run: "reass_list ot [c0, c2, c1] s = Inr ([None, None, Some r], s)" .
  have cb: "chain_bytes r = set_ip_fields (of_nat (?p3 + 20)) 0 h0 @ b0 @ b1 @ b2" unfolding r(2) d1 by simp
  have "of_be16 (drop 2 (chain_bytes r)) = of_nat (?p3 + 20)"
    unfolding cb using l by (simp add: set_ip_fields_def Let_def)
  then have "unat (of_be16 (drop 2 (chain_bytes r))) = ?p3 + 20" using w [of "?p3 + 20"] by (simp only: le_refl simp_thms)
  then have "unat (of_be16 (drop 2 (chain_bytes r))) = length (chain_bytes r) + gap" unfolding cb using l by simp
  then show ?thesis using run cb by blast
qed

section \<open>Instances\<close>

definition reass_demo :: reass_st where
  "reass_demo = net_st.extend net_demo \<lparr>reassdatagrams = [], ip_reass_pbufcount = 0, reass_free = 5\<rparr>"

lemma reass_demo_fields: "reassdatagrams reass_demo = []" "ip_reass_pbufcount reass_demo = 0" "reass_free reass_demo = 5"
  by (simp_all add: reass_demo_def net_st.defs)

text \<open>The header of a fragment of datagram 7 and a fragment in one buffer.\<close>

definition demo_header :: "u8 \<Rightarrow> u8 \<Rightarrow> u8 \<Rightarrow> u8 list" where
  "demo_header n fl k = [0x45, 0, 0, n, 0, 7, fl, k, 64, 17, 0, 0, 192, 168, 10, 13, 192, 168, 10, 100]"

lemma demo_header:
  "length (demo_header n fl k) = 20" "hlen_of (demo_header n fl k) = 20" "IP_ADDRESSES_AND_ID_MATCH (demo_header n fl k) (demo_header n' fl' k')"
  "of_be16 (drop 2 (demo_header n fl k)) = ucast n" "of_be16 (drop 6 (demo_header n fl k)) = mk16 k fl"
  by (simp_all add: demo_header_def hlen_of_def IP_ADDRESSES_AND_ID_MATCH_def of_be16_def mk16_def)

lemma demo_fragment:
  assumes "length bs \<le> 100" "bs \<noteq> []"
  shows "fragment_chain [pool_node (demo_header n fl k @ bs)] (demo_header n fl k) bs"
  using pool_node [of "demo_header n fl k @ bs"] assms by (simp add: fragment_chain_def demo_header)

lemma demo_flags:
  assumes "k \<in> {0, 1, 2, 3, 4, 5, 6, 7, 8, 9, 10}"
  shows "h_offset (demo_header n 0x20 k) = 8 * ucast k" "h_offset (demo_header n 0 k) = 8 * ucast k"
    "\<not> h_last (demo_header n 0x20 k)" "h_last (demo_header n 0 k)"
  using assms by (auto simp: h_offset_def h_last_def demo_header(5) mk16_def)

theorem fragments_reassembled_witness:
  "\<exists>a b c r. chain_bytes a = demo_header 28 0x20 0 @ [1, 2, 3, 4, 5, 6, 7, 8] \<and> chain_bytes b = demo_header 28 0x20 1 @ [11, 12, 13, 14, 15, 16, 17, 18]
     \<and> chain_bytes c = demo_header 21 0 2 @ [21] \<and> reass_list sending [b, a, c] reass_demo = Inr ([None, None, Some r], reass_demo)
     \<and> chain_bytes r = set_ip_fields 37 0 (demo_header 28 0x20 0) @ [1, 2, 3, 4, 5, 6, 7, 8, 11, 12, 13, 14, 15, 16, 17, 18, 21]"
proof -
  let ?b0 = "[1, 2, 3, 4, 5, 6, 7, 8] :: u8 list" and ?b1 = "[11, 12, 13, 14, 15, 16, 17, 18] :: u8 list" and ?b2 = "[21] :: u8 list"
  let ?h0 = "demo_header 28 0x20 0" and ?h1 = "demo_header 28 0x20 1" and ?h2 = "demo_header 21 0 2"
  define a where "a = [pool_node (?h0 @ ?b0)]"
  define b where "b = [pool_node (?h1 @ ?b1)]"
  define c where "c = [pool_node (?h2 @ ?b2)]"
  have f: "fragment_chain a ?h0 ?b0" "fragment_chain b ?h1 ?b1" "fragment_chain c ?h2 ?b2"
    unfolding a_def b_def c_def by (rule demo_fragment; simp)+
  have "\<forall>k<3. fragment_chain ([a, b, c] ! k) ([?h0, ?h1, ?h2] ! k) ([?b0, ?b1, ?b2] ! k)"
    using f by (simp add: numeral_3_eq_3 All_less_Suc)
  then have cut: "cut_datagram [a, b, c] [?h0, ?h1, ?h2] [?b0, ?b1, ?b2]"
    unfolding cut_datagram_def
    by (simp add: numeral_3_eq_3 All_less_Suc demo_header demo_flags)
  have fit: "pieces_fit (length [a, b, c]) [a, b, c] reass_demo"
    by (simp add: pieces_fit_def reass_demo_fields a_def b_def c_def numeral_3_eq_3)
  have m: "mset [b, a] = mset (butlast [a, b, c])" by simp
  have fd: "find_datagram ([?h0, ?h1, ?h2] ! 0) 0 (reassdatagrams reass_demo) = None" "0 < reass_free reass_demo" by (simp_all add: reass_demo_fields)
  from fragments_reassembled [OF cut m fit fd, of sending] obtain r where
    "reass_list sending ([b, a] @ [last [a, b, c]]) reass_demo = Inr (replicate (length [b, a]) None @ [Some r], reass_demo)"
    "chain_bytes r = set_ip_fields (of_nat (length (concat [?b0, ?b1, ?b2]) + 20)) 0 ([?h0, ?h1, ?h2] ! 0) @ concat [?b0, ?b1, ?b2]" by blast
  then show ?thesis using f unfolding fragment_chain_def
    by (intro exI [of _ a] exI [of _ b] exI [of _ c] exI [of _ r]) (simp add: numeral_2_eq_2)
qed

theorem hole_accepted_witness:
  "\<exists>a b c r. chain_bytes a = demo_header 28 0x20 0 @ [1, 2, 3, 4, 5, 6, 7, 8] \<and> chain_bytes b = demo_header 28 0x20 2 @ [11, 12, 13, 14, 15, 16, 17, 18]
     \<and> chain_bytes c = demo_header 21 0 3 @ [21] \<and> reass_list sending [a, c, b] reass_demo = Inr ([None, None, Some r], reass_demo)
     \<and> chain_bytes r = set_ip_fields 45 0 (demo_header 28 0x20 0) @ [1, 2, 3, 4, 5, 6, 7, 8, 11, 12, 13, 14, 15, 16, 17, 18, 21]"
proof -
  let ?b0 = "[1, 2, 3, 4, 5, 6, 7, 8] :: u8 list" and ?b1 = "[11, 12, 13, 14, 15, 16, 17, 18] :: u8 list" and ?b2 = "[21] :: u8 list"
  let ?h0 = "demo_header 28 0x20 0" and ?h1 = "demo_header 28 0x20 2" and ?h2 = "demo_header 21 0 3"
  define a where "a = [pool_node (?h0 @ ?b0)]"
  define b where "b = [pool_node (?h1 @ ?b1)]"
  define c where "c = [pool_node (?h2 @ ?b2)]"
  have f: "fragment_chain a ?h0 ?b0" "fragment_chain b ?h1 ?b1" "fragment_chain c ?h2 ?b2"
    unfolding a_def b_def c_def by (rule demo_fragment; simp)+
  have "\<exists>r. reass_list sending [a, c, b] reass_demo = Inr ([None, None, Some r], reass_demo)
    \<and> chain_bytes r = set_ip_fields (of_nat (length ?b0 + 8 + length ?b1 + length ?b2 + 20)) 0 ?h0 @ ?b0 @ ?b1 @ ?b2
    \<and> unat (of_be16 (drop 2 (chain_bytes r))) = length (chain_bytes r) + 8"
    by (rule hole_accepted [OF f]) (simp_all add: demo_header demo_flags reass_demo_fields a_def b_def c_def)
  then obtain r where "reass_list sending [a, c, b] reass_demo = Inr ([None, None, Some r], reass_demo)"
    "chain_bytes r = set_ip_fields 45 0 ?h0 @ ?b0 @ ?b1 @ ?b2" by auto
  then show ?thesis using f unfolding fragment_chain_def
    by (intro exI [of _ a] exI [of _ b] exI [of _ c] exI [of _ r]) simp
qed

text \<open>A frame of the largest size fills one buffer of the pool and a part of the next.\<close>

lemma pool_pair:
  assumes "length as = 1486" "length bs = 14"
    and "c = [\<lparr>p_type = PBUF_POOL, p_mem = replicate 14 0 @ as, p_payload = 14, p_len = 1486, p_tot_len = 1500\<rparr>,
      \<lparr>p_type = PBUF_POOL, p_mem = bs @ replicate 1486 0, p_payload = 0, p_len = 14, p_tot_len = 14\<rparr>]"
  shows "received 14 c" "chain_bytes c = as @ bs" "20 < unat (p_len (hd c))" "length c = 2"
  using assms by (auto simp: received_def node_ok_def no_gaps_def pbytes_def)

theorem fragmentation_roundtrip_witness:
  "\<exists>a b r. reass_list sending [a, b] reass_demo = Inr ([None, Some r], reass_demo)
     \<and> chain_bytes a = set_ip_fields 1500 0x2000 (demo_header 0 0 0) @ replicate 1480 7
     \<and> chain_bytes b = set_ip_fields 21 185 (demo_header 0 0 0) @ [7]
     \<and> chain_bytes r = set_ip_fields 1501 0 (demo_header 0 0 0) @ replicate 1481 7"
proof -
  let ?h = "demo_header 0 0 0" and ?d = "replicate 1481 7 :: u8 list"
  let ?f0 = "set_ip_fields 1500 0x2000 ?h @ replicate 1480 7" and ?f1 = "set_ip_fields 21 185 ?h @ [7]"
  note l = demo_header(1) [of 0 0 0]
  have z: "of_be16 (drop 6 ?h) = 0" by (simp add: demo_header(5) mk16_def)
  have fs: "frag_packets ?h (of_be16 (drop 6 ?h) AND IP_MF) (of_be16 (drop 6 ?h) AND IP_OFFMASK) ?d = [?f0, ?f1]"
    unfolding z by (simp add: frag_packets.simps)
  have n: "length (take 1486 ?f0) = 1486" "length (drop 1486 ?f0) = 14" using l by simp_all
  obtain a where a: "received 14 a" "chain_bytes a = ?f0" "20 < unat (p_len (hd a))" "length a = 2"
    using pool_pair [OF n refl, unfolded append_take_drop_id] by blast
  define b where "b = [pool_node ?f1]"
  have b: "received 14 b" "chain_bytes b = ?f1" "20 < unat (p_len (hd b))" "length b = 1"
    using pool_node [of ?f1] l by (simp_all add: b_def)
  have la: "list_all2 (\<lambda>c f. received 14 c \<and> chain_bytes c = f \<and> 20 < unat (p_len (hd c))) [a, b]
      (frag_packets ?h (of_be16 (drop 6 ?h) AND IP_MF) (of_be16 (drop 6 ?h) AND IP_OFFMASK) ?d)"
    unfolding fs using a b by simp
  have fit: "pieces_fit (length [a, b]) [a, b] reass_demo" using a(4) b(4) by (simp add: pieces_fit_def reass_demo_fields numeral_2_eq_2)
  have d: "1480 < length ?d" "length ?d + 20 < 65536" "mset [a] = mset (butlast [a, b])" by simp_all
  have fd: "find_datagram ?h 0 (reassdatagrams reass_demo) = None" "0 < reass_free reass_demo" by (simp_all add: reass_demo_fields)
  from fragmentation_roundtrip [OF l demo_header(2) z d(1,2) la d(3) fit fd, of sending] obtain r where
    "reass_list sending ([a] @ [last [a, b]]) reass_demo = Inr (replicate (length [a]) None @ [Some r], reass_demo)"
    "chain_bytes r = set_ip_fields (of_nat (length ?d + 20)) 0 ?h @ ?d" by blast
  then show ?thesis using a(2) b(2) by (intro exI [of _ a] exI [of _ b] exI [of _ r]) simp
qed

end
