(* ===== verification/ReassLimits.thy ===== *)
theory ReassLimits
  imports Reass
begin

text \<open>
  What the limits of the reassembly queue do to the station: incomplete datagrams take the buffers of the pool, and a fragment of
  a sixth datagram displaces the one that waits longest. \<open>silent\<close> says that nothing goes out and nothing comes in any more.
\<close>

section \<open>Without buffers\<close>

text \<open>What was sent and is still to be sent, and what the applications got.\<close>

definition silent :: "'a net_st_scheme \<Rightarrow> 'a net_st_scheme \<Rightarrow> bool" where
  "silent s t \<longleftrightarrow> pool_free t = 0 \<and> inbox t = inbox s \<and> wire t @ tx_queue t = wire s @ tx_queue s"

lemma silent_trans: "silent s t \<Longrightarrow> silent t u \<Longrightarrow> silent s u"
  by (simp add: silent_def)

lemma no_alloc: "pool_free s = 0 \<Longrightarrow> \<exists>k. pbuf_alloc l n PBUF_POOL s = (None, s\<lparr>requests := k\<rparr>)"
  using pbuf_alloc_pool [of l n s] by (cases "pbuf_alloc l n PBUF_POOL s") (fastforce simp: chain_nodes_def split: if_splits)

lemma frame_dropped:
  assumes "net_inv s0 s" "pool_free s = 0"
  shows "\<exists>k d g m. net_receive ot deliver s = Inr (s\<lparr>requests := k, DMARxDscrTab := d, DMARxDescToGet := g, DMASR := m\<rparr>)"
proof (cases "rx_queue s")
  case Nil
  have "rx_ok s" using assms by (simp add: net_inv_def)
  from ETH_GetRxPktSize_queue [OF this] have "net_receive ot deliver s = Inr s" by (simp add: net_receive_def Nil)
  then show ?thesis
    by (intro exI [of _ "requests s"] exI [of _ "DMARxDscrTab s"] exI [of _ "DMARxDescToGet s"] exI [of _ "DMASR s"]) simp
next
  case (Cons x q)
  obtain st b where x: "x = (st, b)" by (cases x)
  have "good_rx (st, b)" using assms by (simp add: net_inv_def Cons x)
  from good_rx_head [OF this] obtain n where n: "good_frame st" "drop_bit 16 (st AND RX_FL) = of_nat (n + 4)"
    "n \<le> 1514" "drop_bit 16 (st AND RX_FL) \<noteq> 0" by blast
  have "\<not> chain_nodes PBUF_RAW n \<le> pool_free s" using assms(2) by (simp add: chain_nodes_def)
  then show ?thesis using net_receive_head [OF assms(1) Cons [unfolded x] n, of ot deliver] by auto
qed

lemma silent_step:
  assumes "allowed_event s0 e" "net_inv s0 s" "pool_free s = 0"
  shows "\<exists>t. stack_step ot e s = Inr t \<and> net_inv s0 t \<and> silent s t"
proof -
  from stack_step_safe [OF assms(1,2), of ot] obtain t where t: "stack_step ot e s = Inr t" "net_inv s0 t" by blast
  have p: "pool_free t = 0" using assms(2,3) t(2) by (simp add: net_inv_def)
  have s: "arp_ok s" "tx_ok s" using assms(2) by (simp_all add: net_inv_def)
  have "inbox t = inbox s \<and> wire t @ tx_queue t = wire s @ tx_queue s"
  proof (cases e)
    case (Frame_In f)
    obtain a b c d where "dma_receive (good_status (length f)) f s = s\<lparr>Rx_Buff := a, DMARxDscrTab := b, dma_rx := c, DMASR := d\<rparr>"
      using dma_receive_eq by blast
    then have "t = s\<lparr>Rx_Buff := a, DMARxDscrTab := b, dma_rx := c, DMASR := d\<rparr>" using t(1) Frame_In by simp
    then show ?thesis by (simp add: tx_queue_def tx_slots_def)
  next
    case Frame_Out
    then have e: "t = dma_transmit s" using t(1) by simp
    have "inbox t = inbox s" unfolding e by (simp add: dma_transmit_def Let_def)
    moreover have "wire t @ tx_queue t = wire s @ tx_queue s"
    proof (cases "tx_queue s")
      case Nil
      show ?thesis unfolding e dma_transmit_idle [OF s(2) Nil] by (simp add: tx_queue_def tx_slots_def)
    next
      case (Cons f fs)
      then show ?thesis using dma_transmit_frame [OF s(2) Cons] unfolding e by simp
    qed
    ultimately show ?thesis ..
  next
    case Receive_Pass
    obtain k d g m where "net_receive ot deliver s = Inr (s\<lparr>requests := k, DMARxDscrTab := d, DMARxDescToGet := g, DMASR := m\<rparr>)"
      using frame_dropped [OF assms(2,3)] by blast
    then have "t = s\<lparr>requests := k, DMARxDscrTab := d, DMARxDescToGet := g, DMASR := m\<rparr>" using t(1) Receive_Pass by simp
    then show ?thesis by (simp add: tx_queue_def tx_slots_def)
  next
    case Arp_Tick
    then have e: "t = etharp_tmr s" using t(1) by simp
    have a: "tx_queue t = tx_queue s" "arp_frame_only s t" unfolding e using etharp_tmr_spec [OF s] by simp_all
    then have "stack_st.more s = stack_st.more t" using arp_frame_ip [OF a(2)] by (simp add: ip_frame_only_def stack_fields)
    then show ?thesis using a inbox_more [of s t] by (simp add: arp_frame_only_def)
  next
    case (Send k buf len)
    obtain n where "pbuf_alloc PBUF_TRANSPORT len PBUF_POOL s = (None, s\<lparr>requests := n\<rparr>)" using no_alloc [OF assms(3)] by blast
    then have "t = s\<lparr>requests := n\<rparr>" using t(1) Send by (simp add: udp_transmit_def)
    then show ?thesis by (simp add: tx_queue_def tx_slots_def)
  qed
  then show ?thesis using t p by (auto simp: silent_def)
qed

interpretation starved: safe_steps "stack_step ot" "allowed_event s0" "\<lambda>t. net_inv s0 t \<and> silent s t" "\<lambda>_. True" for ot s0 s
proof unfold_locales
  fix e t assume a: "allowed_event s0 e" "net_inv s0 t \<and> silent s t"
  then have "net_inv s0 t" "pool_free t = 0" "silent s t" by (simp_all add: silent_def)
  from silent_step [OF a(1) this(1,2), of ot] silent_trans [OF this(3)]
  show "case stack_step ot e t of Inr u \<Rightarrow> net_inv s0 u \<and> silent s u | Inl f \<Rightarrow> \<not> True" by auto
qed

text \<open>With no buffer left in the pool the station is cut off for good: whatever frames arrive and whatever is offered, in any
  order, no step fails, but no datagram reaches an application and no frame is queued beyond those already waiting.\<close>

lemma empty_pool_final:
  assumes "net_inv s s" "pool_free s = 0" "list_all (allowed_event s) es"
  shows "\<exists>t. run_list (stack_step ot) es s = Inr t \<and> pool_free t = 0 \<and> inbox t = inbox s \<and> wire t @ tx_queue t = wire s @ tx_queue s"
proof -
  have "net_inv s s \<and> silent s s" using assms(1,2) by (simp add: silent_def)
  from starved.run_safe [OF assms(3) this, of ot] obtain t where "run_list (stack_step ot) es s = Inr t" "silent s t"
    by (cases "run_list (stack_step ot) es s") simp_all
  then show ?thesis by (simp add: silent_def)
qed

section \<open>Fragments that are never completed\<close>

text \<open>Fragments are received one after the other, each in buffers of the pool.\<close>

fun fragments_taken :: "'a reass_st_scheme others \<Rightarrow> chain list \<Rightarrow> 'a reass_st_scheme \<Rightarrow> (chain option list \<times> 'a reass_st_scheme) result" where
  "fragments_taken ot [] s = Inr ([], s)"
| "fragments_taken ot (c # cs) s = and_then (ip_reass ot c (s\<lparr>pool_free := pool_free s - length c\<rparr>)) (\<lambda>(r, s).
     and_then (fragments_taken ot cs s) (\<lambda>(rs, s). Inr (r # rs, s)))"

lemma pieces_wait_pool:
  assumes "pieces_wait cs hs n A s0 s"
  shows "pieces_wait cs hs n A (s0\<lparr>pool_free := x\<rparr>) (s\<lparr>pool_free := x\<rparr>)"
proof -
  let ?n = "of_nat (\<Sum>k\<in>A. length (cs ! k)) :: u16"
  obtain d where d: "s = s0\<lparr>reassdatagrams := d # reassdatagrams s0, ip_reass_pbufcount := ip_reass_pbufcount s0 + ?n, reass_free := reass_free s0 - 1\<rparr>"
    "rd_p d = pieces cs hs n A \<and> rd_flags d = 0 \<and> length (rd_iphdr d) = 20 \<and> IP_ADDRESSES_AND_ID_MATCH (rd_iphdr d) (hs ! 0)
     \<and> (if 0 \<in> A then rd_iphdr d = hs ! 0 else of_be16 (drop 6 (rd_iphdr d)) AND IP_OFFMASK \<noteq> 0)"
    using assms unfolding pieces_wait_def by blast
  have "s\<lparr>pool_free := x\<rparr> = (s0\<lparr>pool_free := x\<rparr>)\<lparr>reassdatagrams := d # reassdatagrams (s0\<lparr>pool_free := x\<rparr>),
      ip_reass_pbufcount := ip_reass_pbufcount (s0\<lparr>pool_free := x\<rparr>) + ?n, reass_free := reass_free (s0\<lparr>pool_free := x\<rparr>) - 1\<rparr>"
    unfolding d(1) by (rule reass_st.equality) simp_all
  then show ?thesis using d(2) unfolding pieces_wait_def by blast
qed

lemma pieces_fit_pool [simp]: "pieces_fit m cs (s\<lparr>pool_free := x\<rparr>) = pieces_fit m cs s"
  by (simp add: pieces_fit_def)

lemma pieces_taken:
  assumes "cut_datagram cs hs bss" "Suc n = length bss" "pieces_fit n cs s0"
    and "distinct ks" "set ks \<subseteq> {..<n}" "A \<subseteq> {..<n}" "A \<inter> set ks = {}" "pieces_wait cs hs n A s0 s"
  shows "\<exists>t. fragments_taken ot (map ((!) cs) ks) s = Inr (replicate (length ks) None, t)
    \<and> pieces_wait cs hs n (A \<union> set ks) (s0\<lparr>pool_free := pool_free s0 - (\<Sum>k\<leftarrow>ks. length (cs ! k))\<rparr>) t"
  using assms(3-)
proof (induction ks arbitrary: A s0 s)
  case (Cons k ks)
  have k: "k < n" "k \<notin> A" using Cons.prems(3,5) by auto
  have pf: "pool_free s = pool_free s0" using Cons.prems(6) by (auto simp: pieces_wait_def)
  let ?x = "pool_free s0 - length (cs ! k)"
  have w: "pieces_wait cs hs n A (s0\<lparr>pool_free := ?x\<rparr>) (s\<lparr>pool_free := ?x\<rparr>)" by (rule pieces_wait_pool [OF Cons.prems(6)])
  have fit: "pieces_fit n cs (s0\<lparr>pool_free := ?x\<rparr>)" using Cons.prems(1) by simp
  obtain t where t: "ip_reass ot (cs ! k) (s\<lparr>pool_free := ?x\<rparr>) = Inr (None, t)" "pieces_wait cs hs n (insert k A) (s0\<lparr>pool_free := ?x\<rparr>) t"
    using next_piece_waits [OF assms(1,2) k(1) fit Cons.prems(4) k(2) w] by blast
  have p: "distinct ks" "set ks \<subseteq> {..<n}" "insert k A \<subseteq> {..<n}" "insert k A \<inter> set ks = {}"
    using Cons.prems(2-5) k(1) by auto
  have u: "A \<union> set (k # ks) = insert k A \<union> set ks" by auto
  show ?case using Cons.IH [OF fit p t(2)] t(1) unfolding u by (auto simp: pf)
qed simp

text \<open>C15: Fragments whose datagram stays incomplete take the station from the network: when all pieces but one have arrived and
  fill the pool, they are kept, no buffer is given back, and from then on nothing is received or sent, whatever happens. The timer
  that would give them up is not called by the firmware.\<close>

theorem fragments_starve_station:
  assumes "cut_datagram cs hs bss" "mset as = mset (butlast cs)" "pieces_fit (length as) cs s"
    and "find_datagram (hs ! 0) 0 (reassdatagrams s) = None" "0 < reass_free s"
    and "net_inv s s" "pool_free s = (\<Sum>c\<leftarrow>as. length c)"
  shows "\<exists>t. fragments_taken sending as s = Inr (replicate (length as) None, t)
    \<and> (\<forall>es. list_all (allowed_event t) es \<longrightarrow> (\<exists>u. run_list (stack_step (full_stack tcp)) es t = Inr u
         \<and> pool_free u = 0 \<and> inbox u = inbox s \<and> wire u @ tx_queue u = wire s @ tx_queue s))"
proof -
  note c = cutD [OF assms(1)]
  obtain n j js where j: "Suc n = length bss" "as = map ((!) cs) (j # js)" "distinct (j # js)" "set (j # js) = {..<n}"
    using reordered_pieces [OF assms(1,2)] by blast
  have jn: "j < n" "distinct js" "set js \<subseteq> {..<n}" "{j} \<subseteq> {..<n}" "{j} \<inter> set js = {}" using j(3,4) by auto
  have "length as = length cs - 1" using mset_eq_length [OF assms(2)] by simp
  then have la: "length as = n" using j(1) c(1) by simp
  let ?x = "pool_free s - length (cs ! j)"
  let ?s = "s\<lparr>pool_free := ?x\<rparr>"
  have fit: "pieces_fit n cs ?s" using assms(3) la by simp
  have fd: "find_datagram (hs ! 0) 0 (reassdatagrams ?s) = None" "0 < reass_free ?s" using assms(4,5) by simp_all
  obtain t where t: "ip_reass sending (cs ! j) ?s = Inr (None, t)" "pieces_wait cs hs n {j} ?s t"
    using first_piece_waits [OF assms(1) j(1) jn(1) fit fd] by blast
  obtain u where u: "fragments_taken sending (map ((!) cs) js) t = Inr (replicate (length js) None, u)"
    "pieces_wait cs hs n ({j} \<union> set js) (?s\<lparr>pool_free := pool_free ?s - (\<Sum>k\<leftarrow>js. length (cs ! k))\<rparr>) u"
    using pieces_taken [OF assms(1) j(1) fit jn(2-5) t(2)] by blast
  have run: "fragments_taken sending as s = Inr (replicate (length as) None, u)" using t(1) u(1) by (simp add: j(2))
  have "pool_free s = length (cs ! j) + (\<Sum>k\<leftarrow>js. length (cs ! k))" unfolding assms(7) j(2) by (simp add: comp_def)
  then have z: "pool_free ?s - (\<Sum>k\<leftarrow>js. length (cs ! k)) = 0" by simp
  obtain d x y where eq: "u = s\<lparr>pool_free := 0, reassdatagrams := d, ip_reass_pbufcount := x, reass_free := y\<rparr>"
    using u(2) unfolding z pieces_wait_def by auto
  have k: "inbox u = inbox s" "wire u = wire s" "tx_queue u = tx_queue s" "pool_free u = 0"
    unfolding eq by (simp_all add: tx_queue_def tx_slots_def)
  have "net_inv u u" using assms(6) unfolding eq
    by (simp add: net_inv_def arp_ok_def queued_def tx_ok_def tx_slots_def rx_ok_def rx_slots_def rx_queue_def net_up_def netif_is_up_def)
  from empty_pool_final [OF this k(4)] show ?thesis using run k(1-3) by (intro exI [of _ u]) auto
qed

lemma reass_demo_inv: "net_inv reass_demo reass_demo" "pool_free reass_demo = 10" "inbox reass_demo = []" "wire reass_demo @ tx_queue reass_demo = wire reass_demo"
proof -
  have "arp_ok reass_demo = arp_ok net_demo" "tx_ok reass_demo = tx_ok net_demo" "rx_ok reass_demo = rx_ok net_demo" "net_up reass_demo = net_up net_demo"
    "rx_queue reass_demo = rx_queue net_demo" "tx_queue reass_demo = tx_queue net_demo"
    by (simp_all add: reass_demo_def net_st.defs arp_ok_def queued_def tx_ok_def tx_slots_def tx_queue_def rx_ok_def rx_slots_def rx_queue_def
        net_up_def netif_is_up_def)
  then show "net_inv reass_demo reass_demo" "wire reass_demo @ tx_queue reass_demo = wire reass_demo"
    using net_demo_inv by (simp_all add: net_inv_def net_demo_fields)
  show "pool_free reass_demo = 10" "inbox reass_demo = []" using net_demo_fields by (simp_all add: reass_demo_def net_st.defs)
qed

theorem fragments_starve_station_witness:
  "\<exists>cs t. length cs = 10 \<and> (\<forall>c\<in>set cs. length c = 1) \<and> fragments_taken sending cs reass_demo = Inr (replicate 10 None, t)
     \<and> (\<forall>es. list_all (allowed_event t) es \<longrightarrow> (\<exists>u. run_list (stack_step (full_stack (\<lambda>p s. Inr s))) es t = Inr u
         \<and> pool_free u = 0 \<and> inbox u = [] \<and> wire u @ tx_queue u = wire reass_demo))"
proof -
  let ?h = "\<lambda>i. if i < 10 then demo_header 28 0x20 (of_nat i) else demo_header 21 0 10"
  let ?b = "\<lambda>i. if i < (10 :: nat) then replicate 8 (7 :: u8) else [7]"
  let ?c = "\<lambda>i. [pool_node (?h i @ ?b i)]"
  let ?cs = "map ?c [0..<11]" and ?hs = "map ?h [0..<11]" and ?bss = "map ?b [0..<11]"
  have nth: "?cs ! k = ?c k" "?hs ! k = ?h k" "?bss ! k = ?b k" if "k < 11" for k using that by simp_all
  have cat: "length (concat (take k ?bss)) = 8 * k" if "k < 11" for k
  proof -
    have "take k ?bss = map (\<lambda>i. replicate 8 7) [0..<k]" using that by (simp add: take_map)
    then show ?thesis by (simp add: length_concat comp_def sum_list_triv)
  qed
  have piece: "fragment_chain (?c k) (?h k) (?b k) \<and> ?b k \<noteq> [] \<and> hlen_of (?h k) = 20
          \<and> IP_ADDRESSES_AND_ID_MATCH (?h k) (?h 0) \<and> of_be16 (drop 2 (?h k)) = of_nat (20 + length (?b k))
          \<and> h_offset (?h k) = of_nat (8 * k) \<and> (h_last (?h k) \<longleftrightarrow> Suc k = 11)" if "k < 11" for k
  proof -
    have "fragment_chain (?c k) (?h k) (?b k)" by (cases "k < 10") (simp_all add: demo_fragment)
    moreover have "k \<in> {0, 1, 2, 3, 4, 5, 6, 7, 8, 9, 10}" using that unfolding insert_iff empty_iff by presburger
    then have "h_offset (?h k) = of_nat (8 * k) \<and> (h_last (?h k) \<longleftrightarrow> Suc k = 11)" by (elim insertE) (simp_all add: demo_flags)
    ultimately show ?thesis by (simp add: demo_header)
  qed
  have n: "length ?cs = length ?bss" "length ?hs = length ?bss" "2 \<le> length ?bss" "length ?bss = 11" by simp_all
  have "[0..<11 :: nat] = [0..<10] @ [10]" using upt_Suc_append [of 0 10] by simp
  note eleven = this
  have mb: "map ?b [0..<10] = map (\<lambda>i. replicate 8 7) [0..<10]" by (rule map_cong) auto
  have "length (concat (map (\<lambda>i. replicate 8 (7 :: u8)) [0..<10])) = 80" by (simp add: length_concat comp_def sum_list_triv)
  then have tot: "length (concat ?bss) + 20 < 65536" unfolding eleven map_append concat_append length_append mb by simp
  have "\<forall>k<11. fragment_chain (?cs ! k) (?hs ! k) (?bss ! k) \<and> ?bss ! k \<noteq> [] \<and> hlen_of (?hs ! k) = 20
          \<and> IP_ADDRESSES_AND_ID_MATCH (?hs ! k) (?hs ! 0) \<and> of_be16 (drop 2 (?hs ! k)) = of_nat (20 + length (?bss ! k))
          \<and> h_offset (?hs ! k) = of_nat (length (concat (take k ?bss))) \<and> (h_last (?hs ! k) \<longleftrightarrow> Suc k = 11)"
  proof (intro allI impI)
    fix k :: nat assume k: "k < 11"
    have z: "(0 :: nat) < 11" by simp
    show "fragment_chain (?cs ! k) (?hs ! k) (?bss ! k) \<and> ?bss ! k \<noteq> [] \<and> hlen_of (?hs ! k) = 20
          \<and> IP_ADDRESSES_AND_ID_MATCH (?hs ! k) (?hs ! 0) \<and> of_be16 (drop 2 (?hs ! k)) = of_nat (20 + length (?bss ! k))
          \<and> h_offset (?hs ! k) = of_nat (length (concat (take k ?bss))) \<and> (h_last (?hs ! k) \<longleftrightarrow> Suc k = 11)"
      unfolding nth [OF k] nth(2) [OF z] cat [OF k] by (rule piece [OF k])
  qed
  then have cut: "cut_datagram ?cs ?hs ?bss" unfolding cut_datagram_def using n(1-3) tot unfolding n(4) by blast
  have bl: "butlast ?cs = map ?c [0..<10]" unfolding eleven map_append list.map butlast_snoc ..
  have sum: "(\<Sum>k<10. length (?cs ! k)) = 10" by simp
  have fit: "pieces_fit (length (butlast ?cs)) ?cs reass_demo" unfolding pieces_fit_def reass_demo_fields bl using sum by simp
  have fd: "find_datagram (?hs ! 0) 0 (reassdatagrams reass_demo) = None" "0 < reass_free reass_demo" by (simp_all add: reass_demo_fields)
  have pool: "pool_free reass_demo = (\<Sum>c\<leftarrow>butlast ?cs. length c)" unfolding bl reass_demo_inv(2) by (simp add: comp_def sum_list_triv)
  from fragments_starve_station [OF cut refl fit fd reass_demo_inv(1) pool, of "\<lambda>p s. Inr s"] obtain t where
    "fragments_taken sending (butlast ?cs) reass_demo = Inr (replicate (length (butlast ?cs)) None, t)"
    "\<forall>es. list_all (allowed_event t) es \<longrightarrow> (\<exists>u. run_list (stack_step (full_stack (\<lambda>p s. Inr s))) es t = Inr u
         \<and> pool_free u = 0 \<and> inbox u = inbox reass_demo \<and> wire u @ tx_queue u = wire reass_demo @ tx_queue reass_demo)" by blast
  then show ?thesis unfolding reass_demo_inv(3,4) bl
    by (intro exI [of _ "map ?c [0..<10]"] exI [of _ t]) auto
qed

section \<open>A sixth datagram\<close>

lemma find_datagram_None: "find_datagram h i ds = None \<longleftrightarrow> (\<forall>d\<in>set ds. \<not> IP_ADDRESSES_AND_ID_MATCH (rd_iphdr d) h)"
  by (induction ds arbitrary: i) auto

lemma oldest_last:
  assumes "\<forall>x\<in>set (ds @ [e]). \<not> IP_ADDRESSES_AND_ID_MATCH (rd_iphdr x) h \<and> rd_timer e \<le> rd_timer x"
    and "case old of None \<Rightarrow> True | Some (j, t) \<Rightarrow> rd_timer e \<le> t"
  shows "oldest_scan h i old n (ds @ [e]) = (Some (i + length ds), Suc (n + length ds))"
  using assms
proof (induction ds arbitrary: i old n)
  case Nil
  then show ?case by (auto split: option.splits)
next
  case (Cons x ds)
  then show ?case by (auto split: option.splits)
qed

text \<open>The buffers of waiting fragments.\<close>

definition held :: "fragment list \<Rightarrow> nat" where
  "held fs = sum_list (map (length \<circ> fg_pbuf) fs)"

definition waiting_fragments :: "fragment list \<Rightarrow> bool" where
  "waiting_fragments fs \<longleftrightarrow> fs \<noteq> [] \<and> held fs \<le> 10 \<and> (\<forall>f\<in>set fs. received 14 (fg_pbuf f))"

lemma free_fragments:
  assumes "\<forall>f\<in>set fs. received 14 (fg_pbuf f)"
  shows "fold (pbuf_free \<circ> fg_pbuf) fs s = s\<lparr>pool_free := pool_free s + held fs\<rparr>"
  using assms
proof (induction fs arbitrary: s)
  case (Cons f fs)
  have "\<forall>p\<in>set (fg_pbuf f). p_type p = PBUF_POOL" using Cons.prems received_pool by auto
  then have "pbuf_free (fg_pbuf f) s = s\<lparr>pool_free := pool_free s + length (fg_pbuf f)\<rparr>" by (rule pbuf_free_pool)
  then show ?case using Cons by (simp add: held_def add.assoc)
qed (simp add: held_def)

lemma clen_fragments: "held fs \<le> 10 \<Longrightarrow> sum_list (map (unat \<circ> pbuf_clen \<circ> fg_pbuf) fs) = held fs"
  by (induction fs) (simp_all add: held_def clen_small)

lemma reass_more: "ip_st.more t = ip_st.more (s :: 'a reass_st_scheme) \<Longrightarrow>
    reassdatagrams t = reassdatagrams s \<and> ip_reass_pbufcount t = ip_reass_pbufcount s \<and> reass_free t = reass_free s"
  by (cases s; cases t) simp

lemma dequeue_last:
  "reassdatagrams s = ds @ [e] \<Longrightarrow> ds \<noteq> [] \<Longrightarrow>
    ip_reass_dequeue_datagram (length ds) (Some (length ds - 1)) s = Inr (s\<lparr>reassdatagrams := ds, reass_free := reass_free s + 1\<rparr>)"
  by (simp add: ip_reass_dequeue_datagram_def Let_def)

text \<open>The message to the sender of a datagram that is given up.\<close>

definition gave_up_message :: "'a reass_st_scheme \<Rightarrow> ip_reassdata \<Rightarrow> u8 list" where
  "gave_up_message s d = (let f = hd (fg_pbuf (hd (rd_p d))); original = rd_iphdr d @ take 8 (drop 34 (p_mem f)); src = ip_of (drop 12 original)
     in ip_header 0 56 (ip_id s) ICMP_TTL IP_PROTO_ICMP (nif_ip_addr (netif s)) src
        @ icmp_message ICMP_TE ICMP_TE_FRAG (inet_chksum (icmp_message ICMP_TE ICMP_TE_FRAG 0 original)) original)"

definition gave_up :: "u8 list \<Rightarrow> ip_reassdata \<Rightarrow> 'a reass_st_scheme \<Rightarrow> 'a reass_st_scheme \<Rightarrow> bool" where
  "gave_up mac d s t \<longleftrightarrow> arp_ok t \<and> tx_ok t \<and> ip_frame_only s t \<and> balanced s t
     \<and> (if fg_start (hd (rd_p d)) = 0 then
          heap_grants s \<and> length (tx_queue s) < 2 \<and> reachable (ip_of (drop 12 (rd_iphdr d))) (netif s)
            \<and> known_at (next_hop (ip_of (drop 12 (rd_iphdr d))) (netif s)) mac (arp_table s)
          \<longrightarrow> tx_queue t = tx_queue s @ [eth_frame mac (nif_hwaddr (netif s)) 0x0800 (gave_up_message s d)]
        else t = s)"

lemma free_last_datagram:
  assumes "arp_ok s" "tx_ok s" "net_up s" "reassdatagrams s = ds @ [e]" "ds \<noteq> []" "waiting_fragments (rd_p e)" "length (rd_iphdr e) = 20"
  shows "\<exists>t. gave_up mac e s t \<and> ip_reass_free_complete_datagram ot (length ds) (Some (length ds - 1)) s
    = Inr (held (rd_p e), t\<lparr>pool_free := pool_free s + held (rd_p e), reassdatagrams := ds, reass_free := reass_free s + 1,
        ip_reass_pbufcount := ip_reass_pbufcount s - of_nat (held (rd_p e))\<rparr>)"
proof -
  obtain f fs where fs: "rd_p e = f # fs" using assms(6) by (cases "rd_p e") (auto simp: waiting_fragments_def)
  have w: "held (f # fs) \<le> 10" "\<forall>g\<in>set (f # fs). received 14 (fg_pbuf g)" using assms(6) unfolding fs waiting_fragments_def by simp_all
  have h: "held (f # fs) = length (fg_pbuf f) + held fs" by (simp add: held_def)
  have at: "reassdatagrams s ! length ds = e" using assms(4) by simp
  have cl: "sum_list (map (unat \<circ> pbuf_clen \<circ> fg_pbuf) fs) = held fs" "sum_list (map (unat \<circ> pbuf_clen \<circ> fg_pbuf) (f # fs)) = held (f # fs)"
    using clen_fragments w(1) h by (metis add_leD2, metis)
  show ?thesis
  proof (cases "fg_start f = 0")
    case False
    let ?t = "s\<lparr>pool_free := pool_free s + held (f # fs)\<rparr>"
    have fr: "fold (pbuf_free \<circ> fg_pbuf) (f # fs) s = ?t" by (rule free_fragments [OF w(2)])
    have dq: "ip_reass_dequeue_datagram (length ds) (Some (length ds - 1)) ?t = Inr (?t\<lparr>reassdatagrams := ds, reass_free := reass_free ?t + 1\<rparr>)"
      by (rule dequeue_last) (use assms(4,5) in simp_all)
    have "gave_up mac e s s" using assms(1,2) False fs by (simp add: gave_up_def balanced_def)
    moreover have "ip_reass_free_complete_datagram ot (length ds) (Some (length ds - 1)) s = Inr (held (f # fs),
        ?t\<lparr>reassdatagrams := ds, reass_free := reass_free s + 1, ip_reass_pbufcount := ip_reass_pbufcount s - of_nat (held (f # fs))\<rparr>)"
      unfolding ip_reass_free_complete_datagram_def Let_def at fs list.case if_not_P [OF False] and_then.simps prod.case cl(2) fr dq by simp
    ultimately show ?thesis unfolding fs by blast
  next
    case True
    obtain p ps where p: "fg_pbuf f = p # ps" using w(2) by (cases "fg_pbuf f") (auto simp: received_def)
    have rc: "received 14 (p # ps)" using w(2) p by auto
    have pm: "p_payload p = 14" "length (p_mem p) = 1500" using rc by (simp_all add: received_Cons)
    let ?M = "blit (p_mem p) 14 (rd_iphdr e)"
    have M: "?M = take 14 (p_mem p) @ rd_iphdr e @ drop 34 (p_mem p)" "length ?M = 1500" using pm assms(7) by (simp_all add: blit_eq)
    let ?q = "p\<lparr>p_mem := ?M\<rparr>"
    have wr: "write_at p 0 (rd_iphdr e) = Inr ?q" using pm assms(7) by (simp add: write_at_def)
    have rq: "received 14 (?q # ps)" by (rule received_mem [OF rc]) (use M(2) pm in simp)
    have po: "\<forall>x\<in>set (?q # ps). p_type x = PBUF_POOL" by (rule received_pool [OF rq])
    let ?o = "take 28 (drop (p_payload ?q) (p_mem ?q))"
    have o: "?o = rd_iphdr e @ take 8 (drop 34 (p_mem p))" using M(1) pm assms(7) by simp
    have "p_payload ?q + 28 \<le> length (p_mem ?q)" using pm M(2) by simp
    from icmp_send_response_spec [OF assms(1-3) this, of ot ps ICMP_TE ICMP_TE_FRAG _ _ mac] obtain t where
      t: "icmp_send_response ot (?q # ps) ICMP_TE ICMP_TE_FRAG s = Inr t" "arp_ok t" "tx_ok t" "ip_frame_only s t" "balanced s t"
      "heap_grants s \<and> length (tx_queue s) < 2 \<and> reachable (ip_of (drop 12 ?o)) (netif s) \<and> known_at (next_hop (ip_of (drop 12 ?o)) (netif s)) mac (arp_table s)
       \<longrightarrow> tx_queue t = tx_queue s @ [eth_frame mac (nif_hwaddr (netif s)) 0x0800
             (ip_header 0 56 (ip_id s) ICMP_TTL IP_PROTO_ICMP (nif_ip_addr (netif s)) (ip_of (drop 12 ?o))
              @ icmp_message ICMP_TE ICMP_TE_FRAG (inet_chksum (icmp_message ICMP_TE ICMP_TE_FRAG 0 ?o)) ?o)]"
      by blast
    have src: "ip_of (drop 12 ?o) = ip_of (drop 12 (rd_iphdr e))" unfolding o using assms(7) by (simp add: ip_of_def nth_append)
    have g: "gave_up mac e s t" using t(2-6) True fs p src unfolding gave_up_def gave_up_message_def o Let_def by simp
    have pt: "pool_free t = pool_free s" using t(4) by (simp add: ip_frame_only_def)
    have rt: "reassdatagrams t = ds @ [e]" "reass_free t = reass_free s" "ip_reass_pbufcount t = ip_reass_pbufcount s"
      using reass_more [of t s] t(4) assms(4) by (simp_all add: ip_frame_only_def)
    have fr: "fold (pbuf_free \<circ> fg_pbuf) fs (pbuf_free (?q # ps) t) = t\<lparr>pool_free := pool_free s + held (f # fs)\<rparr>"
    proof -
      have r: "\<forall>g\<in>set fs. received 14 (fg_pbuf g)" using w(2) by simp
      show ?thesis unfolding pbuf_free_pool [OF po] free_fragments [OF r] using h p pt by (simp add: ac_simps)
    qed
    let ?t = "t\<lparr>pool_free := pool_free s + held (f # fs)\<rparr>"
    have dq: "ip_reass_dequeue_datagram (length ds) (Some (length ds - 1)) ?t = Inr (?t\<lparr>reassdatagrams := ds, reass_free := reass_free ?t + 1\<rparr>)"
      by (rule dequeue_last) (use rt(1) assms(5) in simp_all)
    have c1: "unat (pbuf_clen (?q # ps)) = length (fg_pbuf f)" using clen_small [of "?q # ps"] w(1) h p by simp
    show ?thesis using True at wr t(1) fr dq c1 cl(1) fs p g rt
      by (intro exI [of _ t]) (simp add: ip_reass_free_complete_datagram_def icmp_time_exceeded_def Let_def h del: pbuf_free.simps)
  qed
qed

text \<open>C23: When the structures for incomplete datagrams are used up, a fragment of a further datagram displaces the one that waits
  longest: its buffers return to the pool, its sender is told so when its first fragment is among them (in a frame behind those in
  the ring, if it has room), and the new fragment waits in front of the others. The fragment itself may need no more buffers than
  were freed.\<close>

theorem sixth_datagram_displaces_oldest:
  assumes "arp_ok s" "tx_ok s" "net_up s"
    and "fragment_chain c h bs" "hlen_of h = 20" "unat (ip_reass_pbufcount s) + length c \<le> 10" "\<not> (h_last h \<and> h_offset h = 0)"
    and "reassdatagrams s = ds @ [e]" "ds \<noteq> []" "reass_free s = 0"
    and "\<forall>d\<in>set (ds @ [e]). \<not> IP_ADDRESSES_AND_ID_MATCH (rd_iphdr d) h \<and> rd_timer e \<le> rd_timer d"
    and "waiting_fragments (rd_p e)" "length (rd_iphdr e) = 20" "length c \<le> held (rd_p e)"
    and "new = \<lparr>rd_p = [\<lparr>fg_start = h_offset h, fg_end = h_end h, fg_pbuf = c\<rparr>], rd_iphdr = h,
      rd_datagram_len = if h_last h then h_end h else 0, rd_flags = if h_last h then 1 else 0, rd_timer = 3\<rparr>"
  shows "\<exists>t. gave_up mac e s t \<and> ip_reass ot c s = Inr (None, t\<lparr>pool_free := pool_free s + held (rd_p e), reassdatagrams := new # ds,
    ip_reass_pbufcount := ip_reass_pbufcount s - of_nat (held (rd_p e)) + of_nat (length c)\<rparr>)"
proof -
  let ?k = "held (rd_p e)"
  have old: "oldest_scan h 0 None 0 (reassdatagrams s) = (Some (length ds), Suc (length ds))"
    unfolding assms(8) using oldest_last [OF assms(11), of None 0 0] by simp
  have len: "length (reassdatagrams s) = Suc (length ds)" "\<not> length (reassdatagrams s) \<le> 1" "length (reassdatagrams s) - 2 = length ds - 1"
    using assms(8,9) by (simp_all add: Suc_le_eq)
  obtain t where g: "gave_up mac e s t" and fr: "ip_reass_free_complete_datagram ot (length ds) (Some (length ds - 1)) s
    = Inr (?k, t\<lparr>pool_free := pool_free s + ?k, reassdatagrams := ds, reass_free := reass_free s + 1,
        ip_reass_pbufcount := ip_reass_pbufcount s - of_nat ?k\<rparr>)"
    using free_last_datagram [OF assms(1-3,8,9,12,13), of mac ot] by blast
  let ?u = "t\<lparr>pool_free := pool_free s + ?k, reassdatagrams := ds, reass_free := reass_free s + 1,
        ip_reass_pbufcount := ip_reass_pbufcount s - of_nat ?k\<rparr>"
  have rm: "ip_reass_remove_oldest_datagram ot h (length c) s = Inr (?k, ?u)"
    unfolding ip_reass_remove_oldest_datagram_def len(1) remove_rounds.simps Let_def old prod.case option.case if_not_P [OF len(2)] len(3) fr and_then.simps
    using fr assms(9,14) by simp
  have rf: "reass_free t = 0"
    using g assms(10) reass_more [of t s] by (simp add: gave_up_def ip_frame_only_def)
  have nf: "find_datagram h 0 (reassdatagrams s) = None" unfolding find_datagram_None assms(8) using assms(11) by blast
  let ?new = "\<lparr>rd_p = [], rd_iphdr = h, rd_datagram_len = 0, rd_flags = 0, rd_timer = IP_REASS_MAXAGE\<rparr>"
  have sl: "reass_slot ot h (length c) s = Inr (Some (0, Some (length (reassdatagrams s))),
      ?u\<lparr>reassdatagrams := ?new # ds, reass_free := 0\<rparr>)"
  proof -
    have ne: "reassdatagrams s \<noteq> []" using assms(8) by simp
    show ?thesis unfolding reass_slot_def nf option.case Let_def if_not_P [OF ne]
      using assms(10,14) by (simp add: ip_reass_enqueue_new_datagram_def rm)
  qed
  show ?thesis
    unfolding ip_reass_enters [OF assms(4-6) sl] using g rf assms(7)
    by (intro exI [of _ t]) (simp add: assms(15) Let_def ip_reass_chain_frag_into_datagram_and_validate_def chain_frag_def noted_def)
qed

text \<open>First fragments of datagrams with different numbers, and the state after \<open>k\<close> of them.\<close>

definition demo_first :: "nat \<Rightarrow> u8 list" where
  "demo_first i = [0x45, 0, 0, 28, 0, of_nat i, 0x20, 0, 64, 17, 0, 0, 192, 168, 10, 13, 192, 168, 10, 100]"

definition demo_datagram :: "nat \<Rightarrow> ip_reassdata" where
  "demo_datagram i = \<lparr>rd_p = [\<lparr>fg_start = 0, fg_end = 8, fg_pbuf = [pool_node (demo_first i @ replicate 8 5)]\<rparr>], rd_iphdr = demo_first i,
     rd_datagram_len = 0, rd_flags = 0, rd_timer = 3\<rparr>"

definition demo_waiting :: "nat \<Rightarrow> reass_st" where
  "demo_waiting k = reass_demo\<lparr>pool_free := 10 - k, reassdatagrams := map demo_datagram (rev [0..<k]),
     reass_free := 5 - k, ip_reass_pbufcount := of_nat k\<rparr>"

lemma demo_first_facts:
  "fragment_chain [pool_node (demo_first i @ replicate 8 5)] (demo_first i) (replicate 8 5)" "hlen_of (demo_first i) = 20"
  "h_offset (demo_first i) = 0" "h_end (demo_first i) = 8" "\<not> h_last (demo_first i)" "length (demo_first i) = 20"
  "ip_of (drop 12 (demo_first i)) = 0x0D0AA8C0"
proof -
  show l: "length (demo_first i) = 20" "hlen_of (demo_first i) = 20" by (simp_all add: demo_first_def hlen_of_def)
  show "fragment_chain [pool_node (demo_first i @ replicate 8 5)] (demo_first i) (replicate 8 5)"
    using pool_node [of "demo_first i @ replicate 8 5"] l(1) by (simp add: fragment_chain_def)
  show "h_offset (demo_first i) = 0" "h_end (demo_first i) = 8" "\<not> h_last (demo_first i)"
    by (simp_all add: h_offset_def h_end_def h_last_def demo_first_def of_be16_def mk16_def)
  have "ip_bytes 0x0D0AA8C0 = [192, 168, 10, 13]" by (simp add: ip_bytes_def byte_of32_def drop_bit_eq_div word_div_def)
  then have "drop 12 (demo_first i) = ip_bytes 0x0D0AA8C0 @ [192, 168, 10, 100]" by (simp add: demo_first_def)
  then show "ip_of (drop 12 (demo_first i)) = 0x0D0AA8C0" by (simp only: ip_of_bytes)
qed

lemma demo_first_match: "i < 10 \<Longrightarrow> j < 10 \<Longrightarrow> IP_ADDRESSES_AND_ID_MATCH (demo_first i) (demo_first j) \<longleftrightarrow> i = j"
proof -
  assume "i < 10" "j < 10"
  then have "unat (of_nat i :: u8) = i" "unat (of_nat j :: u8) = j" by (simp_all add: unat_of_nat take_bit_nat_def)
  moreover have "IP_ADDRESSES_AND_ID_MATCH (demo_first i) (demo_first j) \<longleftrightarrow> (of_nat i :: u8) = of_nat j"
    by (simp add: IP_ADDRESSES_AND_ID_MATCH_def demo_first_def del: of_nat_eq_iff)
  ultimately show ?thesis by metis
qed

lemma fragments_taken_snoc:
  assumes "fragments_taken ot cs s = Inr (rs, t)" "ip_reass ot c (t\<lparr>pool_free := pool_free t - length c\<rparr>) = Inr (r, u)"
  shows "fragments_taken ot (cs @ [c]) s = Inr (rs @ [r], u)"
  using assms by (induction cs arbitrary: s rs) (auto simp: and_then_Inr_iff)

lemma demo_fragments_wait:
  "k \<le> 5 \<Longrightarrow> fragments_taken sending (map (\<lambda>i. [pool_node (demo_first i @ replicate 8 5)]) [0..<k]) reass_demo
    = Inr (replicate k None, demo_waiting k)"
proof (induction k)
  case 0
  have "demo_waiting 0 = reass_demo"
    unfolding demo_waiting_def by (rule reass_st.equality) (simp_all add: reass_demo_fields reass_demo_inv(2))
  then show ?case by simp
next
  case (Suc k)
  let ?c = "[pool_node (demo_first k @ replicate 8 5)]" and ?s = "demo_waiting k\<lparr>pool_free := pool_free (demo_waiting k) - 1\<rparr>"
  have u: "unat (ip_reass_pbufcount ?s) + length ?c \<le> 10"
    using Suc.prems by (simp add: demo_waiting_def unat_of_nat take_bit_nat_def)
  have "\<forall>d\<in>set (map demo_datagram (rev [0..<k])). \<not> IP_ADDRESSES_AND_ID_MATCH (rd_iphdr d) (demo_first k)"
    using demo_first_match Suc.prems by (auto simp: demo_datagram_def)
  then have "find_datagram (demo_first k) 0 (reassdatagrams ?s) = None" unfolding find_datagram_None by (simp add: demo_waiting_def)
  from ip_reass_first [OF demo_first_facts(1,2) u this, of sending] have
    "ip_reass sending ?c ?s = Inr (None, demo_waiting (Suc k))"
    using Suc.prems demo_first_facts(3-5) [of k]
    by (simp add: demo_waiting_def demo_datagram_def add_fragment_def noted_def Suc_diff_Suc add.commute)
  with Suc show ?case using fragments_taken_snoc [of sending _ reass_demo _ "demo_waiting k" ?c] by (simp add: replicate_app_Cons_same)
qed

theorem sixth_datagram_displaces_oldest_witness:
  "\<exists>cs c t u. length cs = 5 \<and> fragments_taken sending cs reass_demo = Inr (replicate 5 None, t) \<and> pool_free t = 5 \<and> reass_free t = 0
     \<and> ip_reass sending c (t\<lparr>pool_free := 4\<rparr>) = Inr (None, u) \<and> length c = 1 \<and> pool_free u = 5
     \<and> map rd_iphdr (reassdatagrams u) = map demo_first [5, 4, 3, 2, 1]
     \<and> tx_queue u = [eth_frame [2, 0, 0, 0, 0, 13] [2, 0, 0, 0, 0, 100] 0x0800 (gave_up_message (t\<lparr>pool_free := 4\<rparr>) (demo_datagram 0))]"
proof -
  let ?C = "\<lambda>i. [pool_node (demo_first i @ replicate 8 5)]"
  let ?t = "demo_waiting 5"
  let ?s = "?t\<lparr>pool_free := 4\<rparr>"
  have run: "fragments_taken sending (map ?C [0..<5]) reass_demo = Inr (replicate 5 None, ?t)"
    by (rule demo_fragments_wait) simp
  have f: "pool_free ?s = 4" "reass_free ?s = 0" "ip_reass_pbufcount ?s = 5" by (simp_all add: demo_waiting_def)
  have ds: "reassdatagrams ?s = map demo_datagram [4, 3, 2, 1] @ [demo_datagram 0]" "map demo_datagram [4, 3, 2, 1] \<noteq> []"
    by (simp_all add: demo_waiting_def upt_rec eval_nat_numeral)
  have "arp_ok ?s = arp_ok ip_demo" "tx_ok ?s = tx_ok ip_demo" "net_up ?s = net_up ip_demo" "heap_grants ?s = heap_grants ip_demo"
    "tx_queue ?s = tx_queue ip_demo" "netif ?s = netif ip_demo" "arp_table ?s = arp_table ip_demo"
    by (simp_all add: demo_waiting_def reass_demo_def net_st.defs net_demo_def stack_st.defs ip_st.defs arp_ok_def queued_def tx_ok_def
        tx_slots_def tx_queue_def net_up_def netif_is_up_def heap_grants_def)
  with ip_demo_ok have ok: "arp_ok ?s" "tx_ok ?s" "net_up ?s" "heap_grants ?s" "tx_queue ?s = []" "netif ?s = netif ip_demo" "arp_table ?s = arp_table ip_demo"
    by simp_all
  have m: "\<forall>d\<in>set (map demo_datagram [4, 3, 2, 1] @ [demo_datagram 0]). \<not> IP_ADDRESSES_AND_ID_MATCH (rd_iphdr d) (demo_first 5)
      \<and> rd_timer (demo_datagram 0) \<le> rd_timer d"
    using demo_first_match by (simp add: demo_datagram_def)
  have w: "waiting_fragments (rd_p (demo_datagram 0))" "length (rd_iphdr (demo_datagram 0)) = 20" "held (rd_p (demo_datagram 0)) = 1"
    using demo_first_facts(1,6) by (simp_all add: demo_datagram_def waiting_fragments_def held_def fragment_chain_def)
  have cnt: "unat (ip_reass_pbufcount ?s) + length (?C 5) \<le> 10" unfolding f by simp
  have nl: "\<not> (h_last (demo_first 5) \<and> h_offset (demo_first 5) = 0)" using demo_first_facts(5) by simp
  have le: "length (?C 5) \<le> held (rd_p (demo_datagram 0))" unfolding w(3) by simp
  from sixth_datagram_displaces_oldest [OF ok(1-3) demo_first_facts(1,2) cnt nl ds f(2) m w(1,2) le refl, of "[2, 0, 0, 0, 0, 13]" sending]
  obtain v where v: "gave_up [2, 0, 0, 0, 0, 13] (demo_datagram 0) ?s v" "ip_reass sending (?C 5) ?s = Inr (None, v\<lparr>pool_free := pool_free ?s + held (rd_p (demo_datagram 0)),
      reassdatagrams := \<lparr>rd_p = [\<lparr>fg_start = h_offset (demo_first 5), fg_end = h_end (demo_first 5), fg_pbuf = ?C 5\<rparr>], rd_iphdr = demo_first 5,
        rd_datagram_len = if h_last (demo_first 5) then h_end (demo_first 5) else 0, rd_flags = if h_last (demo_first 5) then 1 else 0, rd_timer = 3\<rparr>
        # map demo_datagram [4, 3, 2, 1],
      ip_reass_pbufcount := ip_reass_pbufcount ?s - of_nat (held (rd_p (demo_datagram 0))) + of_nat (length (?C 5))\<rparr>)" by blast
  have st: "fg_start (hd (rd_p (demo_datagram 0))) = 0" "ip_of (drop 12 (rd_iphdr (demo_datagram 0))) = 0x0D0AA8C0"
    using demo_first_facts(7) by (simp_all add: demo_datagram_def)
  have hw: "nif_hwaddr (netif ip_demo) = [2, 0, 0, 0, 0, 100]" by (simp add: ip_demo_fields(1))
  have tq: "tx_queue v = [eth_frame [2, 0, 0, 0, 0, 13] [2, 0, 0, 0, 0, 100] 0x0800 (gave_up_message ?s (demo_datagram 0))]"
    using v(1) ip_demo_host(1,2) ok(4) unfolding gave_up_def st ok(5-7) hw by simp
  let ?u = "v\<lparr>pool_free := pool_free ?s + held (rd_p (demo_datagram 0)),
      reassdatagrams := \<lparr>rd_p = [\<lparr>fg_start = h_offset (demo_first 5), fg_end = h_end (demo_first 5), fg_pbuf = ?C 5\<rparr>], rd_iphdr = demo_first 5,
        rd_datagram_len = if h_last (demo_first 5) then h_end (demo_first 5) else 0, rd_flags = if h_last (demo_first 5) then 1 else 0, rd_timer = 3\<rparr>
        # map demo_datagram [4, 3, 2, 1],
      ip_reass_pbufcount := ip_reass_pbufcount ?s - of_nat (held (rd_p (demo_datagram 0))) + of_nat (length (?C 5))\<rparr>"
  have "tx_queue ?u = tx_queue v" by (simp add: tx_queue_def tx_slots_def)
  moreover have "pool_free ?u = 5" using f(1) w(3) by simp
  moreover have "map rd_iphdr (reassdatagrams ?u) = map demo_first [5, 4, 3, 2, 1]" by (simp add: demo_datagram_def)
  moreover have "pool_free ?t = 5" "reass_free ?t = 0" "length (map ?C [0..<5]) = 5" "length (?C 5) = 1" by (simp_all add: demo_waiting_def)
  ultimately show ?thesis using run v(2) tq
    by (intro exI [of _ "map ?C [0..<5]"] exI [of _ "?C 5"] exI [of _ ?t] exI [of _ ?u]) (simp only: simp_thms)
qed

end
