(* ===== verification/Spec2Isabelle.thy ===== *)
theory Spec2Isabelle
  imports Scenario TcpClient ReassLimits
begin

text \<open>
  Verification of the ground controller of a sorter line: the firmware under \<open>src/gnd_ctrl/Project\<close> for
  an STM32F107. The firmware drives the inverters of the line over RS-485 with Modbus-like frames,
  measures with two photoelectric switches how long a car takes from one to the other, controls the
  frequency of the drive with a PID controller, drives the line to a maintenance position on request,
  and exchanges frames with the warehouse control system (WCS) and three other stations over UDP. It has
  one main loop and the interrupts of two switches, two timers and the system tick. Below it lie lwIP 1.3.1
  (\<open>Utilities/lwip-1.3.1\<close>) with ST's port and Ethernet driver, modelled as far as the firmware's datagrams go.

  \<^bold>\<open>Theories and sources.\<close>
  \<^item> \<open>Prelude\<close>: widths, outcomes of C functions (\<open>Undefined\<close>, \<open>System_Reset\<close>, \<open>Hang\<close>), checked array
    accesses, bytes of words; \<open>safe_steps\<close> and \<open>viewed_steps\<close>, the contracts of step functions and what
    they give for sequences of steps (interpreted in \<open>MainLoop\<close> for interrupts, tasks and passes).
  \<^item> \<open>Flt\<close>: the \<open>float\<close> and \<open>double\<close> arithmetic the controller uses, as dyadic rationals rounded to
    the precision of the format, with signed infinities, and the bit patterns of the received floats.
  \<^item> \<open>RingQueue\<close>: the six circular queues of \<open>fun.c\<close>, \<open>carfun.c\<close>, \<open>carfuntwo.c\<close>, \<open>carfunthree.c\<close>, their
    contract as the locale \<open>bounded_fifo\<close> with an interpretation for each queue, and \<open>enQueue\<close> and
    \<open>outQueue\<close> cut in two where an interrupt can come.
  \<^item> \<open>Frame\<close>: the frames of \<open>fun.h\<close> and \<open>fun.c\<close>: check, decoding and building.
  \<^item> \<open>Crc\<close>: the table-driven CRC of \<open>usart.c\<close> with its two tables, against the bitwise definition.
  \<^item> \<open>Usart\<close>: the rest of \<open>usart.c\<close>: four ports with send buffers, the frames for the inverter types 0
    to 7, and a log of what the ports are told to send.
  \<^item> \<open>SpeedCtrl\<close>: \<open>speed_ctrl.c\<close>, the controller \<open>fwPIDctrl\<close> with its error, integral and difference and
    its initialisation \<open>fwInitServo\<close>.
  \<^item> \<open>TimExti\<close>: \<open>timExti.c\<close>, the start stages, the measurement between the switches, maintenance driving.
  \<^item> \<open>Messages\<close>: \<open>fun.c\<close>, the receiver, the builders of reports, the sender of client 0.
  \<^item> \<open>CarClients\<close>: \<open>carfun.c\<close>, \<open>carfuntwo.c\<close>, \<open>carfunthree.c\<close>, the clients 1 to 3.
  \<^item> \<open>UdpClient\<close>: the UDP half of \<open>TCPclient.c\<close>; the locale \<open>client_protocol\<close> is the contract between the
    section of a client in \<open>udp_client_process\<close> and its receiver, interpreted for the four clients.
  \<^item> \<open>TcpClient\<close>: the TCP half of \<open>TCPclient.c\<close>, which a build without \<open>USE_UDP\<close> has in the place of the UDP
    half; the shipped configuration defines \<open>USE_UDP\<close>, so the main loop does not use it.
  \<^item> \<open>Interrupts\<close>: \<open>stm32f10x_it.c\<close> and \<open>Time_Update\<close>.
  \<^item> \<open>Board\<close>: \<open>stm32f107.c\<close>, the configuration as lists of driver calls, run on a model of the registers
    they set.
  \<^item> \<open>MainLoop\<close>: \<open>main.c\<close>, \<open>netconf.c\<close>, \<open>delay.c\<close>: DIP switches, initialisation, the tasks of a pass, the
    whole system as the step relation \<open>reach\<close>.
  \<^item> \<open>Pbuf\<close>: \<open>core/pbuf.c\<close>, chains of packet buffers as lists, pools and heap as numbers of free elements and live blocks.
  \<^item> \<open>Chksum\<close>: \<open>core/ipv4/inet_chksum.c\<close>, the Internet checksum of bytes and of packets.
  \<^item> \<open>EthDriver\<close>: \<open>port/ethernetif.c\<close> and what it uses of \<open>stm32_eth.c\<close>: the two rings of descriptors, with the
    contract of a ring as the locale \<open>desc_ring\<close>, and the DMA engine as the steps \<open>dma_receive\<close> and \<open>dma_transmit\<close>.
  \<^item> \<open>Etharp\<close>: \<open>netif/etharp.c\<close> and the address tests of \<open>ip_addr.c\<close>: table, timer, requests, answers, waiting packets.
  \<^item> \<open>Ip\<close>: \<open>core/netif.c\<close> and the sending half of \<open>core/ipv4/ip.c\<close>. \<open>Icmp\<close>: \<open>core/ipv4/icmp.c\<close>. \<open>Udp\<close>: \<open>core/udp.c\<close>.
  \<^item> \<open>NetInput\<close>: \<open>ip_input\<close>, \<open>ethernet_input\<close> and \<open>ethernetif_input\<close>; the locale \<open>frees_packets\<close> is the contract of a
    receive callback.
  \<^item> \<open>NetStack\<close>: \<open>LwIP_Init\<close>, the opening of a client, reception, timer, transmission and DMA as the step function
    \<open>stack_step\<close> with its invariant \<open>net_inv\<close>.
  \<^item> \<open>IpFrag\<close> and \<open>Reass\<close>: \<open>core/ipv4/ip_frag.c\<close>, the sending and the receiving half; \<open>full_stack\<close> puts them into the
    stack. \<open>ReassLimits\<close>: what fragments that are never completed and a sixth datagram do to the station.
  \<^item> \<open>Scenario\<close> and this theory: runs through all layers.

  \<^bold>\<open>State.\<close> The globals of the firmware are one record, extended from layer to layer: \<open>usart_st\<close>,
  \<open>speed_st\<close>, \<open>timexti_st\<close>, \<open>fun_st\<close>, \<open>udp_st\<close>, \<open>main_st\<close>; the functions of a layer are polymorphic in
  what later layers add, so that calls compose without lifting. \<open>fun_inv\<close> is the invariant of the whole
  state: the sizes of all arrays, queue indices in range, lengths inside their buffers, and received
  bytes only between the receive callback and the pass that handles them. A function that can
  fail returns \<open>fault + state\<close>. What the hardware or the stack answers is an argument: pin levels and pending
  bits of the handlers, the readings of TIM2, the record \<open>lwip\<close> and the record \<open>loop_env\<close> of a pass. What
  they are told to do is a log (\<open>uart_log\<close>, \<open>net_log\<close>) or a list of calls (\<open>Board\<close>). The value of an
  uninitialised variable is an argument named \<open>junk\<close>, or makes the outcome \<open>Undefined\<close>.
  The globals of the stack are a second record, extended in the same way: \<open>mem_st\<close>, \<open>eth_st\<close>, \<open>arp_st\<close>,
  \<open>ip_st\<close>, \<open>stack_st\<close>, \<open>net_st\<close>, \<open>reass_st\<close>. The two meet in this theory: \<open>received_env\<close> makes the input of a pass from what
  the stack delivers to \<open>inbox\<close>, \<open>send_answers\<close> the answer of \<open>pbuf_alloc\<close>, and \<open>stack_sends\<close> makes steps of the stack from the log.

  \<^bold>\<open>What is shown.\<close> Refinement of the queues to lists; equivalence of the CRC with its definition;
  exactness of the frame check, round trips of frames, rejection of damaged frames; the commanded
  frequency reaches the drive for every inverter type; a PID step computes the gain-scheduled law
  up to 1.25 hundredths of a hertz, sessions of it stay in range; the start stages, the time
  measurement, the maintenance run; the functional behaviour of receiver and sender on every branch;
  the life cycle of the clients, single transmission of an offered frame, the fate of every datagram;
  debouncing and clock; the interrupt priorities and ports of the configured board; the scan of the
  switches ends; the invariant in every reachable state; and from end to end, a passing car is
  reported to the WCS and a parameter datagram starts the line. For the stack: no run of regular frames,
  datagrams, passes and timer ticks fails, loses a buffer or damages the rings and the ARP table; a packet for
  an unknown host waits for the answer to its request; the checksum does not depend on how a packet is cut; pings are
  answered; a datagram on the wire reaches the callback, the offered bytes reach the wire; a long packet leaves in fragments,
  with lengths, places and checksums that come out right, and fragments in any order with the last piece last are put together
  again; a fragment of a sixth datagram displaces the one that waits longest; and what the code does wrong with a short IP
  header, with a full ring, with a hole between fragments and with fragments that stay incomplete.

  \<^bold>\<open>Bounds and fuel.\<close> Loops are recursive functions with a termination proof, with a counter bounded by the
  code's own bound; \<open>copy_payload\<close> counts to 256, where the 8-bit counter of the code wraps and the loop is
  \<open>Hang\<close>. \<open>scan_dip\<close> terminates because the collected bits only grow. Fuel is used only for waits on
  the hardware: \<open>delay_wait\<close> counts ticks, \<open>poll_ctrl\<close> readings of a register. \<open>remove_rounds\<close> has one round more than
  there are datagrams, as every round that is followed by another removes one; \<open>frag_loop\<close> is \<open>Hang\<close> where it makes no progress.

  \<^bold>\<open>Not modelled.\<close> TCP (a component of the argument \<open>others\<close> of the stack, as the configured firmware opens no TCP connection);
  reference counts of packet
  buffers above one; the sums over pseudo-headers, which the hardware makes; DHCP (\<open>LWIP_DHCP\<close> is 0), SNMP, PPP, IGMP,
  the sequential API and the web server of the port, which are not called or not compiled; the registers of the
  Ethernet block except for the descriptors and \<open>DMASR\<close>; the STM32 peripheral library (what the firmware configures through it is
  a list of calls in \<open>Board\<close>) and EFSL; commented-out code. Interrupts come between tasks in \<open>reach\<close>; interrupts
  inside a task are modelled only for the queue operations (\<open>RingQueue\<close>). The properties of the stack are for frames
  that hold no fragment, no TCP segment and no ICMP message behind a header of less than five words (\<open>benign_frame\<close>). Timing of the execution
  itself and the electrical behaviour are outside the model.
\<close>

section \<open>Properties across components\<close>

text \<open>C2: A passing car is reported to the WCS: on an idle connected line with empty queues, the
  interrupt of the first switch and the passes that follow send exactly two datagrams for client 0:
  a well-formed interval frame with the old and the new car number and the milliseconds since the last
  car, then a well-formed report with the measured time, the car number and the frequency. The state
  and interval queues are empty again and client 0 is idle.\<close>

theorem car_passage_reported:
  assumes "fun_inv s" "\<forall>k<4. connected (tcp_client_list s ! k)" "tcp_send_en (tcp_client_list s ! 0) = 0"
    and "ring_items (msgSendQueue s) = []" "ring_items (gndstatequeue s) = []" "ring_items (gnd2WcsIntervalQueue s) = []"
    and "\<forall>k<20. pin k" "repair_safe s" "cmd_carNo s \<noteq> - 1" "sec_flag s \<noteq> 1"
    and "rx_size env = 0" "pbuf_alloc_ok (lwip_results env) 0"
  shows "\<exists>s' b1 b2. and_then (EXTI4_IRQHandler True pin rest now later s)
        (run_tasks env (pass_tail @ pass_head @ pass_tail @ pass_head)) = Inr s' \<and> fun_inv s'
    \<and> sent_to 0 (net_log s') = sent_to 0 (net_log s) @ [take 17 b1, take 21 b2]
    \<and> recv_msg_check b1 17 = Inr 1 \<and> u16_at b1 9 = SEND_MSG_GNDCTRL2WCS_CMD_INTERVAL_TYPE
    \<and> u16_at b1 11 = cmd_carNo s \<and> u16_at b1 13 = cmd_carNo s + 1 \<and> u16_at b1 15 = interval_ms_flag s
    \<and> recv_msg_check b2 21 = Inr 1 \<and> u16_at b2 9 = SEND_MSG_GNDCTRL2WCS_CMD_TYPE
    \<and> u32_at b2 11 = cmd_speed s \<and> u16_at b2 15 = cmd_carNo s \<and> u16_at b2 19 = servo_hz s
    \<and> ring_items (gndstatequeue s') = [] \<and> ring_items (gnd2WcsIntervalQueue s') = []
    \<and> tcp_send_en (tcp_client_list s' ! 0) = 0"
proof -
  let ?node = "\<lparr>node_speed = cmd_speed s, carnum = cmd_carNo s, servo = servo_hz s\<rparr>"
  let ?iv = "\<lparr>PreCarNum = cmd_carNo s, CurCarNum = cmd_carNo s + 1, interval = interval_ms_flag s\<rparr>"
  obtain a where a: "EXTI4_IRQHandler True pin rest now later s = Inr a" "fun_inv a"
    "ring_items (gndstatequeue a) = [?node]" "ring_items (gnd2WcsIntervalQueue a) = [?iv]"
    "ring_items (msgSendQueue a) = [0x1223, 0x1201]"
    using car_passage [OF assms(1,7,8), of rest now later] assms(4,5,6,9) by auto
  have al: "sec_flag a = sec_flag s" "net_log a = net_log s" "tcp_client_list a = tcp_client_list s"
    using exti4_log [OF a(1)] serve_clients [OF assms(1), of "I_EXTI4 True pin rest now later" a] a(1) by simp_all
  have ac: "\<forall>k<4. connected (tcp_client_list a ! k)" using assms(2) al(3) by simp
  obtain b f1 where b: "send_message_to_sever a = Inr b" "fun_inv b" "length f1 = 1500" "offers 0 (interval_frame f1 (due a) ?iv) 17 b"
    "ring_items (msgSendQueue b) = [0x1201]" "gndstatequeue b = gndstatequeue a" "ring_items (gnd2WcsIntervalQueue b) = []"
    "fun_st.more b = fun_st.more a"
    using send_interval_step [OF a(2) _ due_items [OF a(5)] a(4)] assms(3) al(3) a(5) by auto
  note bl = more_log [OF b(8)]
  obtain c where c: "run_tasks env ([T_State, T_Car, T_CarThree, T_CarTwo, T_Second] @ pass_head) b = Inr c" "fun_inv c"
    "\<forall>k<4. connected (tcp_client_list c ! k)" "tcp_send_en (tcp_client_list c ! 0) = 0" "sec_flag c = sec_flag b"
    "gndstatequeue c = gndstatequeue b" "gnd2WcsIntervalQueue c = gnd2WcsIntervalQueue b"
    "ring_items (msgSendQueue c) = [0x1201, 0x1201]"
    "sent_to 0 (net_log c) = sent_to 0 (net_log b) @ [take 17 (interval_frame f1 (due a) ?iv)]"
    using offered_goes_out [OF b(2) sent_connected [OF a(2) b(2,1) ac] b(4) _ assms(11,12)] assms(10) al bl b(5,6) a(3) by auto
  have cn: "ring_items (gndstatequeue c) = [?node]" using c(6) b(6) a(3) by simp
  obtain d f2 where d: "send_message_to_sever c = Inr d" "fun_inv d" "length f2 = 1500" "offers 0 (cmd_frame f2 (due c) ?node) 21 d"
    "ring_items (msgSendQueue d) = [0x1201]" "gnd2WcsIntervalQueue d = gnd2WcsIntervalQueue c" "ring_items (gndstatequeue d) = []"
    "fun_st.more d = fun_st.more c"
    using send_report_step [OF c(2,4) due_items [OF c(8)] cn] c(8) by auto
  note dl = more_log [OF d(8)]
  obtain e where e: "run_tasks env ([T_State, T_Car, T_CarThree, T_CarTwo, T_Second] @ pass_head) d = Inr e" "fun_inv e"
    "tcp_send_en (tcp_client_list e ! 0) = 0" "gndstatequeue e = gndstatequeue d" "gnd2WcsIntervalQueue e = gnd2WcsIntervalQueue d"
    "sent_to 0 (net_log e) = sent_to 0 (net_log d) @ [take 21 (cmd_frame f2 (due c) ?node)]"
    using offered_goes_out [OF d(2) sent_connected [OF c(2) d(2,1) c(3)] d(4) _ assms(11,12)] assms(10) c(5) al bl dl d(5) by auto
  have "and_then (EXTI4_IRQHandler True pin rest now later s) (run_tasks env (pass_tail @ pass_head @ pass_tail @ pass_head)) = Inr e"
  proof -
    define R where "R = [T_State, T_Car, T_CarThree, T_CarTwo, T_Second] @ pass_head"
    have l: "pass_tail @ pass_head @ pass_tail @ pass_head = (T_Send # R) @ T_Send # R" by (simp add: R_def)
    have "run_tasks env R b = Inr c" "run_tasks env R d = Inr e" using c(1) e(1) by (simp_all only: R_def)
    then show ?thesis unfolding l run_tasks_append using a(1) b(1) d(1) by simp
  qed
  then show ?thesis
    using e(2-6) d(6,7) c(7,9) b(7) al bl dl due_items [OF a(5)] due_items [OF c(8)]
      interval_frame_fields [OF b(3)] cmd_frame_fields [OF d(3)]
    by (intro exI [of _ e] exI [of _ "interval_frame f1 (due a) ?iv"] exI [of _ "cmd_frame f2 (due c) ?node"]) simp
qed

text \<open>A parameter datagram starts the line: on a connected idle system a datagram of the WCS with an
  accepted parameter frame with parameters in the operating range is taken over by the head of the pass
  that receives it: the controller is ready, the start begins at its first stage with the start
  frequency of the parameters, maintenance driving ends, and the acknowledgement and the version report
  are due.\<close>

theorem parameter_datagram_starts_line:
  assumes "fun_inv s" "\<forall>k<4. connected (tcp_client_list s ! k) \<and> tcp_send_en (tcp_client_list s ! k) = 0"
    and "addressed port addr (tcp_client_list s ! 0)" "\<forall>i<4. i \<noteq> 0 \<longrightarrow> \<not> addressed port addr (tcp_client_list s ! i)"
    and "length payload = unat tot" "45 \<le> unat tot" "unat tot \<le> 255"
    and "frame_ok payload tot" "msg_type_at payload = RECV_MSG_WCS2GNDCTRL_PARA_TYPE" "para_ok (decode_para payload)"
    and "length (ring_items (msgSendQueue s)) \<le> 97"
    and "rx_size env \<noteq> 0" "datagrams env = [(port, addr, payload, tot)]"
  shows "\<exists>s'. run_tasks env pass_head s = Inr s' \<and> fun_inv s'
    \<and> wcs2GndParaData s' = decode_para payload \<and> repair_flag s' = 0 \<and> pid_ready s'
    \<and> start_view s' = stage_spec (first_stage_hz s') (second_stage_hz s') (fwInitHz s') 0
    \<and> uint (fwInitHz s') = min 5000 (start_hz (decode_para payload) mod 2 ^ 16)
    \<and> ring_items (msgSendQueue s') = ring_items (msgSendQueue s)
        @ [REPLY_RECV_MSG_WCS2GNDCTRL_PARA_TYPE, REPLY_WCS_GND_VERSION_TYPE]"
  by (rule parameter_datagram [OF assms])

text \<open>What a pass is told about the wire: the size of the waiting frame, and the callbacks its reception leads to.\<close>

definition received_env :: "'a net_st_scheme \<Rightarrow> 'a net_st_scheme \<Rightarrow> loop_env \<Rightarrow> loop_env" where
  "received_env n n' env = env\<lparr>rx_size := ETH_GetRxPktSize n, datagrams := drop (length (inbox n)) (inbox n')\<rparr>"

text \<open>C3: From the wire to the drive: on a connected idle system a frame of the WCS that carries a datagram with an accepted
  parameter frame is taken from the ring by the stack in the next pass, and the head of that pass takes the parameters over: the
  controller is ready, the start begins at its first stage, maintenance driving ends, and the acknowledgement and the version report
  are due.\<close>

theorem wire_datagram_starts_line:
  assumes "net_inv n0 n" "rx_queue n = []" "0 < pool_free n" "clients_open n"
    and "f = datagram_frame dst src tos i ttl ck (server_ip 0) (nif_ip_addr (netif n)) (server_port 0) 9902 v payload @ pad"
    and "length dst = 6" "length src = 6" "length ck = 2" "length v = 4" "60 \<le> length f" "length f \<le> 1500"
    and "nif_ip_addr (netif n) \<noteq> 0" "\<not> ip_addr_isbroadcast (server_ip 0) (netif n)"
    and "fun_inv s" "\<forall>k<4. connected (tcp_client_list s ! k) \<and> tcp_send_en (tcp_client_list s ! k) = 0"
    and "addressed (server_port 0) (server_ip 0) (tcp_client_list s ! 0)"
      "\<forall>i<4. i \<noteq> 0 \<longrightarrow> \<not> addressed (server_port 0) (server_ip 0) (tcp_client_list s ! i)"
    and "45 \<le> length payload" "length payload \<le> 255" "frame_ok payload (of_nat (length payload))"
      "msg_type_at payload = RECV_MSG_WCS2GNDCTRL_PARA_TYPE" "para_ok (decode_para payload)"
      "length (ring_items (msgSendQueue s)) \<le> 97"
  shows "\<exists>n1 n2 s'. stack_step ot (Frame_In f) n = Inr n1 \<and> stack_step ot Receive_Pass n1 = Inr n2 \<and> net_inv n0 n2 \<and> rx_queue n2 = []
    \<and> run_tasks (received_env n1 n2 env) pass_head s = Inr s' \<and> fun_inv s'
    \<and> wcs2GndParaData s' = decode_para payload \<and> repair_flag s' = 0 \<and> pid_ready s'
    \<and> start_view s' = stage_spec (first_stage_hz s') (second_stage_hz s') (fwInitHz s') 0
    \<and> uint (fwInitHz s') = min 5000 (start_hz (decode_para payload) mod 2 ^ 16)
    \<and> ring_items (msgSendQueue s') = ring_items (msgSendQueue s)
        @ [REPLY_RECV_MSG_WCS2GNDCTRL_PARA_TYPE, REPLY_WCS_GND_VERSION_TYPE]"
proof -
  let ?n1 = "dma_receive (good_status (length f)) f n" and ?tot = "of_nat (length payload) :: u16"
  have pc: "pcb_of 0 n = client_pcb 0" using assms(4) by (simp add: clients_open_def)
  then have rv: "up_recv (pcb_of 0 n)" "up_remote_port (pcb_of 0 n) = server_port 0" "up_remote_ip (pcb_of 0 n) = server_ip 0"
    by (simp_all add: client_pcb_def)
  have mc: "\<not> ip_addr_ismulticast (server_ip 0)" by (simp add: server_ip_def ip_addr_ismulticast_def)
  note sel = client_selected [OF assms(4), of 0, simplified]
  from inbox_datagram [OF assms(1-3,5-11) refl assms(12,13) mc sel rv(1), of ot] obtain n2 where
    n2: "stack_step ot Receive_Pass ?n1 = Inr n2" "net_inv n0 n2" "rx_queue n2 = []"
      "inbox n2 = inbox n @ [(server_port 0, server_ip 0, payload, ?tot)]" unfolding rv by (cases "stack_step ot Receive_Pass ?n1") auto
  have "rx_ok n" "length f \<le> 1514" using assms(1,11) by (simp_all add: net_inv_def)
  from arrived_frame_seen [OF this(1) assms(2) this(2)] have "rx_size (received_env ?n1 n2 env) \<noteq> 0"
    by (simp add: received_env_def)
  moreover obtain a b c d where "?n1 = n\<lparr>Rx_Buff := a, DMARxDscrTab := b, dma_rx := c, DMASR := d\<rparr>" using dma_receive_eq by blast
  then have "inbox ?n1 = inbox n" by simp
  then have "datagrams (received_env ?n1 n2 env) = [(server_port 0, server_ip 0, payload, ?tot)]"
    using n2(4) by (simp add: received_env_def)
  moreover have u: "unat ?tot = length payload" using assms(19) by (simp add: unat_of_nat take_bit_nat_def)
  then have "length payload = unat ?tot" "45 \<le> unat ?tot" "unat ?tot \<le> 255" using assms(18,19) by simp_all
  ultimately obtain s' where "run_tasks (received_env ?n1 n2 env) pass_head s = Inr s'" "fun_inv s'"
    "wcs2GndParaData s' = decode_para payload" "repair_flag s' = 0" "pid_ready s'"
    "start_view s' = stage_spec (first_stage_hz s') (second_stage_hz s') (fwInitHz s') 0"
    "uint (fwInitHz s') = min 5000 (start_hz (decode_para payload) mod 2 ^ 16)"
    "ring_items (msgSendQueue s') = ring_items (msgSendQueue s)
        @ [REPLY_RECV_MSG_WCS2GNDCTRL_PARA_TYPE, REPLY_WCS_GND_VERSION_TYPE]"
    using parameter_datagram [OF assms(14-17) _ _ _ assms(20-23)] by blast
  then show ?thesis using n2(1-3) by (intro exI [of _ ?n1] exI [of _ n2] exI [of _ s']) simp
qed

text \<open>What the stack answers to \<open>pbuf_alloc\<close> in \<open>udp_send_process\<close>, and the calls in the log as steps of the stack.\<close>

definition send_answers :: "'b udp_st_scheme \<Rightarrow> 'a net_st_scheme \<Rightarrow> lwip \<Rightarrow> lwip" where
  "send_answers s n lw = lw\<lparr>pbuf_alloc_ok := \<lambda>k. fst (pbuf_alloc PBUF_TRANSPORT (tcp_send_len (tcp_client_list s ! k)) PBUF_POOL n) \<noteq> None\<rparr>"

fun stack_sends :: "net_event list \<Rightarrow> stack_event list" where
  "stack_sends [] = []"
| "stack_sends (Udp_Send k b # es) = Send k b (of_nat (length b)) # stack_sends es"
| "stack_sends (e # es) = stack_sends es"

text \<open>C4: From a request to the wire: when one client of the connected line requests the transmission of a frame and its server's
  address is known, the network process hands the offered bytes to the stack, the stack has a buffer for them, and they leave as
  the payload of one UDP frame to the client's server behind the frames already in the ring; the buffer returns to the pool.\<close>

theorem offered_frame_on_wire:
  assumes "fun_inv s" "\<forall>j<4. connected (tcp_client_list s ! j)"
    and "k < 4" "\<forall>j<4. tcp_send_en (tcp_client_list s ! j) = (if j = k then 1 else 0)"
    and "len = unat (tcp_send_len (tcp_client_list s ! k))" "len \<le> 1444"
    and "net_inv n0 n" "0 < pool_free n" "clients_open n" "nif_ip_addr (netif n) \<noteq> 0" "length (tx_queue n) < 2"
    and "reachable (server_ip k) (netif n)" "known_at (next_hop (server_ip k) (netif n)) mac (arp_table n)"
  shows "\<exists>s' n'. udp_client_process (send_answers s n lw) s = Inr s' \<and> fun_inv s'
    \<and> run_list (stack_step ot) (stack_sends (drop (length (net_log s)) (net_log s'))) n = Inr n' \<and> net_inv n0 n'
    \<and> tx_queue n' = tx_queue n @ [udp_frame mac (nif_hwaddr (netif n)) 0 (ip_id n) 255 (nif_ip_addr (netif n)) (server_ip k)
        9902 (server_port k) (take len (tcp_send_buf (tcp_client_list s ! k)))]"
proof -
  let ?c = "tcp_client_list s ! k" and ?lw = "send_answers s n lw"
  let ?b = "take len (tcp_send_buf ?c)"
  have ok: "pbuf_alloc_ok ?lw k"
  proof -
    obtain r u where al: "pbuf_alloc PBUF_TRANSPORT (tcp_send_len ?c) PBUF_POOL n = (r, u)" by fastforce
    have "chain_nodes PBUF_TRANSPORT (unat (tcp_send_len ?c)) \<le> pool_free n"
      using assms(5,6,8) by (simp add: chain_nodes_def first_part_def layer_offset_aligned)
    then show ?thesis using pbuf_alloc_pool [OF al] al by (auto simp: send_answers_def)
  qed
  obtain s' where s': "udp_client_process ?lw s = Inr s'" "fun_inv s'"
    "net_log s' = net_log s @ concat (map (\<lambda>k. send_log ?lw k (tcp_client_list s ! k)) [0, 1, 2, 3])"
    using pass_sends [OF assms(1,2), of ?lw] by blast
  define f where "f j = send_log ?lw j (tcp_client_list s ! j)" for j
  have other: "f j = []" if "j < 4" "j \<noteq> k" for j using assms(4) that by (simp add: f_def send_log_def)
  have "concat (map f [0, 1, 2, 3]) = f k"
  proof -
    consider "k = 0" | "k = 1" | "k = 2" | "k = 3" using assms(3) unfolding lt_4 by blast
    then show ?thesis by cases (use other in \<open>simp_all\<close>)
  qed
  also have "f k = [Udp_Send k ?b]" using assms(3,4,5) ok by (simp add: f_def send_log_def)
  finally have "net_log s' = net_log s @ [Udp_Send k ?b]" using s'(3) unfolding f_def by simp
  then have log: "stack_sends (drop (length (net_log s)) (net_log s')) = [Send k ?b (of_nat (length ?b))]" by simp
  have l: "length (tcp_send_buf ?c) = 1500" using client_ok_nth [OF assms(1,3)] by (simp add: client_ok_def)
  then have lb: "length ?b = len" using assms(6) by simp
  then have ln: "unat (of_nat (length ?b) :: u16) = len" using assms(6) by (simp add: unat_of_nat take_bit_nat_def)
  have pc: "pcb_of k n = client_pcb k" using assms(3,9) by (simp add: clients_open_def)
  then have "may_send k n" by (simp add: may_send_def client_pcb_def)
  moreover have "up_remote_ip (pcb_of k n) = server_ip k" by (simp add: pc client_pcb_def)
  ultimately obtain n' where n': "udp_transmit ot k ?b (of_nat (length ?b)) n = Inr n'" "net_inv n0 n'"
    "tx_queue n' = tx_queue n @ [udp_frame mac (nif_hwaddr (netif n)) (up_tos (pcb_of k n)) (ip_id n) (up_ttl (pcb_of k n))
        (nif_ip_addr (netif n)) (server_ip k) (up_local_port (pcb_of k n)) (up_remote_port (pcb_of k n)) (take len ?b)]"
    using bytes_in_ring [OF assms(7) _ _ _ assms(8) _ assms(12,13,10,11), of k "of_nat (length ?b)" ?b ot] ln lb assms(6) l by auto
  have "run_list (stack_step ot) (stack_sends (drop (length (net_log s)) (net_log s'))) n = Inr n'"
    unfolding log run_list.simps stack_step.simps n'(1) by simp
  moreover have "tx_queue n' = tx_queue n @ [udp_frame mac (nif_hwaddr (netif n)) 0 (ip_id n) 255 (nif_ip_addr (netif n)) (server_ip k)
        9902 (server_port k) ?b]" using n'(3) by (simp add: pc client_pcb_def)
  ultimately show ?thesis using s'(1,2) n'(2) by blast
qed

section \<open>Witnesses\<close>

definition line_demo :: main_st where
  "line_demo = main_boot\<lparr>tcp_client_list := map (\<lambda>k. client_bss\<lparr>connect_is_ok := 1, tcp_client_statue := 1,
     dest_ip := fst (server k), dest_port := snd (server k)\<rparr>) [0, 1, 2, 3]\<rparr>"

lemma line_demo_facts:
  "fun_inv line_demo" "\<forall>k<4. connected (tcp_client_list line_demo ! k) \<and> tcp_send_en (tcp_client_list line_demo ! k) = 0"
  "ring_items (msgSendQueue line_demo) = []" "ring_items (gndstatequeue line_demo) = []"
  "ring_items (gnd2WcsIntervalQueue line_demo) = []" "repair_safe line_demo"
  using main_boot_inv main_boot_queues
  by (simp_all add: line_demo_def fun_inv_def usart_inv_def client_ok_def client_bss_def server_def less_4 connected_def repair_safe_def)

lemma line_demo_fields: "sec_flag line_demo = 0" "net_log line_demo = []"
  by (simp_all add: line_demo_def main_boot_def udp_st.defs udp_boot_def fun_st.defs)

lemma line_demo_addressed:
  "addressed 9902 0x0D0AA8C0 (tcp_client_list line_demo ! 0)"
  "\<forall>i<4. i \<noteq> 0 \<longrightarrow> \<not> addressed 9902 0x0D0AA8C0 (tcp_client_list line_demo ! i)"
  by (simp_all add: less_4 line_demo_def addressed_def server_def byte_of32_def drop_bit_eq_div word_div_def)

theorem car_passage_reported_witness:
  "\<exists>s' b1 b2. and_then (EXTI4_IRQHandler True (\<lambda>_. True) 0 5 6 (line_demo\<lparr>cmd_carNo := 7, interval_ms_flag := 900\<rparr>))
      (run_tasks env_quiet (pass_tail @ pass_head @ pass_tail @ pass_head)) = Inr s'
    \<and> sent_to 0 (net_log s') = [take 17 b1, take 21 b2] \<and> u16_at b1 13 = 8 \<and> u16_at b1 15 = 900 \<and> u16_at b2 15 = 7"
proof -
  let ?s = "line_demo\<lparr>cmd_carNo := 7, interval_ms_flag := 900\<rparr>"
  have "fun_inv ?s" "repair_safe ?s" "sec_flag ?s \<noteq> 1" "net_log ?s = []"
    using line_demo_facts line_demo_fields by (simp_all add: repair_safe_def)
  moreover have "rx_size env_quiet = 0" "pbuf_alloc_ok (lwip_results env_quiet) 0" by (simp_all add: env_quiet_def lwip_up_def)
  ultimately show ?thesis
    using car_passage_reported [of ?s "\<lambda>_. True" env_quiet 0 5 6] line_demo_facts by (auto simp del: run_tasks.simps)
qed

theorem parameter_datagram_starts_line_witness:
  "\<exists>s'. run_tasks (env_quiet\<lparr>rx_size := 87, datagrams := [(9902, 0x0D0AA8C0, take 45 sample_frame, 45)]\<rparr>) pass_head line_demo = Inr s'
     \<and> pid_ready s' \<and> ring_items (msgSendQueue s') = [0x9220, 0x1222]"
proof -
  have f: "frame_ok (take 45 sample_frame) 45" "msg_type_at (take 45 sample_frame) = 0x1220" "length (take 45 sample_frame) = 45"
    by (simp_all add: frame_ok_def sample_frame_def summed_def u16_at_def msg_type_at_def mk16_def)
  have "decode_para (take 45 sample_frame) = decode_para sample_frame"
    by (simp add: decode_para_def u32_at_def u16_at_def)
  then have p: "para_ok (decode_para (take 45 sample_frame))" using sample_frame_para(1) by simp
  show ?thesis
    using parameter_datagram_starts_line [OF line_demo_facts(1,2) line_demo_addressed _ _ _ f(1,2) p,
        of "env_quiet\<lparr>rx_size := 87, datagrams := [(9902, 0x0D0AA8C0, take 45 sample_frame, 45)]\<rparr>"]
      f(3) line_demo_facts(3) by (auto simp del: run_tasks.simps)
qed

lemma sample_frame_accepted:
  "frame_ok (take 45 sample_frame) 45" "msg_type_at (take 45 sample_frame) = 0x1220" "length (take 45 sample_frame) = 45"
  "para_ok (decode_para (take 45 sample_frame))"
proof -
  have "decode_para (take 45 sample_frame) = decode_para sample_frame"
    by (simp add: decode_para_def u32_at_def u16_at_def)
  then show "para_ok (decode_para (take 45 sample_frame))" using sample_frame_para(1) by simp
qed (simp_all add: frame_ok_def sample_frame_def summed_def u16_at_def msg_type_at_def mk16_def)

theorem wire_datagram_starts_line_witness:
  "\<exists>n1 n2 s'. stack_step drop_others (Frame_In (datagram_frame [2, 0, 0, 0, 0, 100] [2, 0, 0, 0, 0, 13] 0 7 64 [1, 2] 0x0D0AA8C0 0x640AA8C0 9902 9902
        [0, 53, 5, 6] (take 45 sample_frame))) net_demo = Inr n1 \<and> stack_step drop_others Receive_Pass n1 = Inr n2
     \<and> run_tasks (received_env n1 n2 env_quiet) pass_head line_demo = Inr s'
     \<and> pid_ready s' \<and> ring_items (msgSendQueue s') = [0x9220, 0x1222]"
proof -
  let ?p = "take 45 sample_frame"
  have n: "nif_ip_addr (netif net_demo) = 0x640AA8C0" by (simp add: net_demo_fields(1) ip_demo_fields(1))
  have c0: "server_ip 0 = 0x0D0AA8C0" "server_port 0 = 9902" by (simp_all add: server_ip_def server_port_def)
  have src: "\<not> ip_addr_isbroadcast (server_ip 0) (netif net_demo)"
    using ip_demo_host(1) unfolding c0 reachable_def net_demo_fields(1) by blast
  let ?f = "datagram_frame [2, 0, 0, 0, 0, 100] [2, 0, 0, 0, 0, 13] 0 7 64 [1, 2] (server_ip 0) (nif_ip_addr (netif net_demo)) (server_port 0) 9902
        [0, 53, 5, 6] ?p @ []"
  have l: "length ?f = 87" by (simp add: datagram_frame_def sample_frame_accepted(3) del: length_take)
  have ls: "length [2, 0, 0, 0, 0, 100 :: u8] = 6" "length [2, 0, 0, 0, 0, 13 :: u8] = 6" "length [1, 2 :: u8] = 2" "length [0, 53, 5, 6 :: u8] = 4"
    "60 \<le> length ?f" "length ?f \<le> 1500" "nif_ip_addr (netif net_demo) \<noteq> 0" "0 < pool_free net_demo"
    using l n by (simp_all add: net_demo_fields(3))
  have pl: "45 \<le> length ?p" "length ?p \<le> 255" "frame_ok ?p (of_nat (length ?p))" "length (ring_items (msgSendQueue line_demo)) \<le> 97"
    unfolding sample_frame_accepted(3) using sample_frame_accepted(1) line_demo_facts(3) by simp_all
  from wire_datagram_starts_line [OF net_demo_inv net_demo_fields(8) ls(8) net_demo_clients(1) refl ls(1-7) src line_demo_facts(1,2)
      line_demo_addressed [folded c0] pl(1-3) sample_frame_accepted(2) sample_frame_accepted(4) pl(4), of drop_others env_quiet]
  show ?thesis unfolding n c0 append_Nil2 line_demo_facts(3) by auto
qed

definition offer_demo :: main_st where
  "offer_demo = line_demo\<lparr>tcp_client_list := (tcp_client_list line_demo)[0 := (tcp_client_list line_demo ! 0)\<lparr>tcp_send_en := 1, tcp_send_len := 11\<rparr>]\<rparr>"

lemma offer_demo_facts:
  "fun_inv offer_demo" "\<forall>j<4. connected (tcp_client_list offer_demo ! j)"
  "\<forall>j<4. tcp_send_en (tcp_client_list offer_demo ! j) = (if j = 0 then 1 else 0)"
  "tcp_send_len (tcp_client_list offer_demo ! 0) = 11" "length (tcp_client_list line_demo) = 4"
proof -
  show four: "length (tcp_client_list line_demo) = 4" using line_demo_facts(1) by (rule clients_length)
  have "client_ok (tcp_client_list line_demo ! 0)" using client_ok_nth [OF line_demo_facts(1)] by simp
  then show "fun_inv offer_demo"
    using client_ok_upd [OF line_demo_facts(1), of "\<lambda>c. c\<lparr>tcp_send_en := 1, tcp_send_len := 11\<rparr>" 0]
    by (simp add: offer_demo_def client_upd_def client_ok_def)
  show "\<forall>j<4. connected (tcp_client_list offer_demo ! j)" "\<forall>j<4. tcp_send_en (tcp_client_list offer_demo ! j) = (if j = 0 then 1 else 0)"
    using line_demo_facts(2) four by (auto simp: offer_demo_def nth_list_update connected_def)
  show "tcp_send_len (tcp_client_list offer_demo ! 0) = 11" using four by (simp add: offer_demo_def)
qed

theorem offered_frame_on_wire_witness:
  "\<exists>s' n'. udp_client_process (send_answers offer_demo net_demo lwip_up) offer_demo = Inr s'
     \<and> run_list (stack_step drop_others) (stack_sends (drop (length (net_log offer_demo)) (net_log s'))) net_demo = Inr n'
     \<and> tx_queue n' = [udp_frame [2, 0, 0, 0, 0, 13] [2, 0, 0, 0, 0, 100] 0 0 255 0x640AA8C0 0x0D0AA8C0 9902 9902
         (take 11 (tcp_send_buf (tcp_client_list offer_demo ! 0)))]"
proof -
  have n: "nif_ip_addr (netif net_demo) = 0x640AA8C0" "nif_hwaddr (netif net_demo) = [2, 0, 0, 0, 0, 100]"
    by (simp_all add: net_demo_fields(1) ip_demo_fields(1))
  have c0: "server_ip 0 = 0x0D0AA8C0" "server_port 0 = 9902" by (simp_all add: server_ip_def server_port_def)
  have h: "reachable (server_ip 0) (netif net_demo)" "known_at (next_hop (server_ip 0) (netif net_demo)) [2, 0, 0, 0, 0, 13] (arp_table net_demo)"
    using ip_demo_host(1,2) by (simp_all add: net_demo_fields c0)
  have k: "11 = unat (tcp_send_len (tcp_client_list offer_demo ! 0))" "(11 :: nat) \<le> 1444" "0 < pool_free net_demo"
    "nif_ip_addr (netif net_demo) \<noteq> 0" "length (tx_queue net_demo) < 2" "(0 :: nat) < 4"
    by (simp_all add: offer_demo_facts(4) net_demo_fields(3,7) n)
  from offered_frame_on_wire [OF offer_demo_facts(1,2) k(6) offer_demo_facts(3) k(1,2) net_demo_inv k(3) net_demo_clients(1) k(4,5) h, of lwip_up drop_others]
  show ?thesis unfolding n c0 net_demo_fields(4,7) by auto
qed

end
